(* ===== verification/Prelude.thy ===== *)
theory Prelude
  imports Main "HOL-Library.Word" "HOL-Library.Monad_Syntax"
begin

unbundle bit_operations_syntax

text \<open>
  Shared vocabulary of the development.

  The kernel is compiled for the 8086: an \<open>int\<close> or an \<open>unsigned\<close> is a 16 bit word, a
  \<open>char\<close> is an 8 bit word and a \<open>long\<close> a 32 bit word; \<open>char\<close> and \<open>int\<close> are signed
  wherever the code compares them (\<^const>\<open>sint\<close>), \<open>uint\<close> is not (\<^const>\<open>unat\<close> or the order of
  the word type).  This theory names those types, collects the facts about flag words that all
  components use, and holds the generic facts on lists and intervals.
\<close>

type_synonym u8 = "8 word"
type_synonym u16 = "16 word"
type_synonym u32 = "32 word"

named_theorems flag_simps \<open>tests, settings and clearings of flag bits\<close>
named_theorems ops \<open>definitions of the modelled operations, for unfolding\<close>

subsection \<open>Flag words\<close>

text \<open>
  The code tests a flag by \<open>(x & F) != 0\<close>, sets it by \<open>x |= F\<close> and clears it by
  \<open>x &= ~F\<close>.
\<close>

definition flag :: "'a::len word \<Rightarrow> 'a word \<Rightarrow> bool" where
  "flag x m \<longleftrightarrow> x AND m \<noteq> 0"

definition setf :: "'a::len word \<Rightarrow> 'a word \<Rightarrow> 'a word" where
  "setf x m = x OR m"

definition clrf :: "'a::len word \<Rightarrow> 'a word \<Rightarrow> 'a word" where
  "clrf x m = x AND NOT m"

lemma flag_iff: "flag x m \<longleftrightarrow> (\<exists>n. bit x n \<and> bit m n)"
proof -
  have "x AND m \<noteq> 0 \<longleftrightarrow> (\<exists>n. bit (x AND m) n)"
    by (metis bit_0_eq bit_eqI bot_apply bot_bool_def)
  then show ?thesis by (simp add: flag_def bit_and_iff)
qed

lemma flag_zero [simp, flag_simps]: "\<not> flag 0 m"
  by (simp add: flag_def)

lemma flag_setf [flag_simps]: "flag (setf x m) k \<longleftrightarrow> flag x k \<or> flag m k"
  by (auto simp: flag_iff setf_def bit_simps)

lemma flag_self [simp, flag_simps]: "flag m m \<longleftrightarrow> m \<noteq> 0"
  by (simp add: flag_def)

lemma flag_setf_same [simp, flag_simps]: "m \<noteq> 0 \<Longrightarrow> flag (setf x m) m"
  by (simp add: flag_setf)

lemma flag_clrf_same [simp, flag_simps]: "\<not> flag (clrf x m) m"
  by (auto simp: flag_iff clrf_def bit_simps)

lemma flag_clrf_disjoint [flag_simps]:
  assumes "m AND k = 0"
  shows "flag (clrf x m) k = flag x k"
proof -
  have "\<not> (bit m n \<and> bit k n)" for n
    using assms by (metis bit_and_iff bit_0_eq bot_apply bot_bool_def)
  then show ?thesis
    by (auto simp: flag_iff clrf_def bit_simps) (meson bit_imp_le_length)
qed

lemma flag_clrf_sub:
  assumes "m AND f = f"
  shows "\<not> flag (clrf x m) f"
proof -
  have "bit m n" if "bit f n" for n using assms that by (metis bit_and_iff)
  then show ?thesis by (auto simp: flag_iff clrf_def bit_simps)
qed

lemma flag_clrf_imp: "flag (clrf x m) k \<Longrightarrow> flag x k"
  by (auto simp: flag_iff clrf_def bit_simps)

lemma setf_idem [simp]: "setf (setf x m) m = setf x m"
  by (rule bit_word_eqI) (auto simp: setf_def bit_simps)

lemma clrf_idem [simp]: "clrf (clrf x m) m = clrf x m"
  by (rule bit_word_eqI) (auto simp: clrf_def bit_simps)

lemma flag_num_simps [flag_simps]:
  "flag (numeral a) (numeral b :: 'a::len word) \<longleftrightarrow> (numeral a :: 'a word) AND numeral b \<noteq> 0"
  "flag 1 (numeral b :: 'a::len word) \<longleftrightarrow> (1 :: 'a word) AND numeral b \<noteq> 0"
  "flag (numeral a) (1 :: 'a::len word) \<longleftrightarrow> (numeral a :: 'a word) AND 1 \<noteq> 0"
  by (simp_all add: flag_def)

subsection \<open>Words as numbers\<close>

lemma unat8_bound: "unat (w :: u8) < 256"
  using unsigned_less [of w, where 'a = nat] by simp

lemma unat16_bound: "unat (w :: u16) < 65536"
  using unsigned_less [of w, where 'a = nat] by simp

lemma unat32_bound: "unat (w :: u32) < 4294967296"
  using unsigned_less [of w, where 'a = nat] by simp

lemma unat_ucast_16_32 [simp]: "unat (ucast (w :: u16) :: u32) = unat w"
  using unat16_bound [of w] by (simp add: unsigned_ucast_eq take_bit_nat_eq_self)

lemma unat_ucast_8_16 [simp]: "unat (ucast (w :: u8) :: u16) = unat w"
  using unat8_bound [of w] by (simp add: unsigned_ucast_eq take_bit_nat_eq_self)

lemma unat_ucast_32_16: "unat (ucast (w :: u32) :: u16) = unat w mod 65536"
  by (simp add: unsigned_ucast_eq take_bit_eq_mod)

lemma sint_small:
  fixes w :: "'a::len word"
  assumes "unat w < 2 ^ (LENGTH('a) - 1)"
  shows "sint w = int (unat w)"
proof -
  have u: "uint w = int (unat w)" by simp
  have "int (unat w) < int (2 ^ (LENGTH('a) - 1))" using assms by (simp only: of_nat_less_iff)
  then have "int (unat w) < 2 ^ (LENGTH('a) - 1)" by (simp only: of_nat_power of_nat_numeral)
  moreover have "- (2 ^ (LENGTH('a) - 1)) \<le> int (unat w)" by (rule order_trans [of _ 0]) simp_all
  ultimately have "signed_take_bit (LENGTH('a) - 1) (int (unat w)) = int (unat w)"
    by (intro signed_take_bit_int_eq_self)
  then show ?thesis by (simp only: sint_uint u One_nat_def)
qed

lemma unat16_succ: "unat (w + 1 :: u16) = (if unat w = 65535 then 0 else unat w + 1)"
proof -
  have "unat (w + 1) = (unat w + 1) mod 65536" by (simp add: unat_word_ariths)
  then show ?thesis using unat16_bound [of w] by auto
qed

lemma succ16_zero: "(w + 1 = (0 :: u16)) = (unat w = 65535)"
  using unat16_succ [of w] by (metis unat_0 unat_eq_zero add_is_0 zero_neq_one)

subsection \<open>Loops\<close>

text \<open>A loop over a list of indices whose body may fail.\<close>

fun each :: "('x \<Rightarrow> 'k \<Rightarrow> 'k option) \<Rightarrow> 'x list \<Rightarrow> 'k \<Rightarrow> 'k option" where
  "each f [] k = Some k"
| "each f (x # xs) k = do { k \<leftarrow> f x k; each f xs k }"

lemma each_append: "each f (xs @ ys) k = Option.bind (each f xs k) (each f ys)"
proof (induction xs arbitrary: k)
  case (Cons x xs)
  then show ?case by (cases "f x k") simp_all
qed simp

lemma each_inv:
  "each f xs k = Some k' \<Longrightarrow> P k \<Longrightarrow> (\<And>x k k'. x \<in> set xs \<Longrightarrow> P k \<Longrightarrow> f x k = Some k' \<Longrightarrow> P k') \<Longrightarrow> P k'"
proof (induction xs arbitrary: k)
  case (Cons x xs)
  from Cons.prems(1) obtain k1 where "f x k = Some k1" "each f xs k1 = Some k'" by (auto simp: bind_eq_Some_conv)
  with Cons.prems Cons.IH [of k1] show ?case by auto
qed simp

subsection \<open>Results\<close>

text \<open>\<open>results P m\<close>: whatever the operation \<open>m\<close> returns satisfies \<open>P\<close>; the rules follow the shape of a
  program, as those of a Hoare logic do.\<close>

definition results :: "('a \<Rightarrow> bool) \<Rightarrow> 'a option \<Rightarrow> bool" where
  "results P m \<longleftrightarrow> (\<forall>x. m = Some x \<longrightarrow> P x)"

named_theorems results_intros

lemma resultsD: "results P m \<Longrightarrow> m = Some x \<Longrightarrow> P x"
  by (simp add: results_def)

lemma resultsI: "(\<And>x. m = Some x \<Longrightarrow> P x) \<Longrightarrow> results P m"
  by (simp add: results_def)

lemma results_None [simp, results_intros]: "results P None"
  by (simp add: results_def)

lemma results_Some [simp]: "results P (Some x) = P x"
  by (simp add: results_def)

lemma results_SomeI [results_intros]: "P x \<Longrightarrow> results P (Some x)"
  by simp

lemma results_mono: "results P m \<Longrightarrow> (\<And>x. P x \<Longrightarrow> Q x) \<Longrightarrow> results Q m"
  by (simp add: results_def)

lemma results_bind: "results Q m \<Longrightarrow> (\<And>x. Q x \<Longrightarrow> results P (f x)) \<Longrightarrow> results P (Option.bind m f)"
  by (cases m) (simp_all add: results_def)

lemma results_bind_pair:
  "results (\<lambda>(x, k). Q x k) m \<Longrightarrow> (\<And>x k. Q x k \<Longrightarrow> results P (f x k)) \<Longrightarrow> results P (Option.bind m (\<lambda>(x, k). f x k))"
  by (cases m) (auto simp: results_def split: prod.splits)

lemma results_if [results_intros]: "(b \<Longrightarrow> results P m) \<Longrightarrow> (\<not> b \<Longrightarrow> results P n) \<Longrightarrow> results P (if b then m else n)"
  by simp

lemma results_option [results_intros]:
  "(x = None \<Longrightarrow> results P m) \<Longrightarrow> (\<And>y. x = Some y \<Longrightarrow> results P (n y)) \<Longrightarrow> results P (case x of None \<Rightarrow> m | Some y \<Rightarrow> n y)"
  by (cases x) auto

lemma results_pair [results_intros]:
  "(\<And>a b. x = (a, b) \<Longrightarrow> results P (f a b)) \<Longrightarrow> results P (case x of (a, b) \<Rightarrow> f a b)"
  by (cases x) auto

lemma results_pair_arg [results_intros]:
  "(\<And>a b. x = (a, b) \<Longrightarrow> results P (f a b y)) \<Longrightarrow> results P ((case x of (a, b) \<Rightarrow> f a b) y)"
  by (cases x) auto

lemma results_each:
  "P k \<Longrightarrow> (\<And>x k. x \<in> set xs \<Longrightarrow> P k \<Longrightarrow> results P (f x k)) \<Longrightarrow> results P (each f xs k)"
  by (rule resultsI) (erule each_inv; auto dest: resultsD)

subsection \<open>Lists and intervals\<close>

lemma append_Cons_fun [simp]: "(@) (e # xs) = (\<lambda>ys. e # xs @ ys)"
  by auto

lemma interval_below:
  fixes X Y :: "nat set"
  assumes "X \<subseteq> {Suc e..<n}" "Y \<subseteq> X"
  shows "{s..<e} \<inter> Y = {}"
  using assms by fastforce

lemma unat_pos_iff: "(0 < unat w) = (w \<noteq> (0::'a::len word))"
  by (simp add: unat_gt_0)

lemma cancel_swap:
  fixes a b c d e f :: "'a::cancel_ab_semigroup_add"
  assumes "a + b = c + d" "d + e = b + f"
  shows "a + e = c + f"
proof -
  have "b + (a + e) = (a + b) + e" by (simp add: ac_simps)
  also have "\<dots> = c + (d + e)" using assms(1) by (simp add: ac_simps)
  also have "\<dots> = b + (c + f)" using assms(2) by (simp add: ac_simps)
  finally show ?thesis by simp
qed

lemma set_nth_concat: "j < length xss \<Longrightarrow> set (xss ! j) \<subseteq> set (concat xss)"
  by (auto intro: nth_mem)

lemma distinct_concat_disjoint:
  "distinct (concat xss) \<Longrightarrow> i < length xss \<Longrightarrow> j < length xss \<Longrightarrow> i \<noteq> j \<Longrightarrow> set (xss ! i) \<inter> set (xss ! j) = {}"
proof (induction xss arbitrary: i j)
  case (Cons x xss)
  have front: "set x \<inter> set (xss ! k) = {}" if "k < length xss" for k
    using Cons.prems(1) set_nth_concat [OF that] by auto
  show ?case
  proof (cases i)
    case 0
    with Cons.prems front show ?thesis by (cases j) auto
  next
    case i: (Suc i')
    show ?thesis
    proof (cases j)
      case 0
      with i Cons.prems front [of i'] show ?thesis by auto
    next
      case (Suc j')
      with i Cons.prems Cons.IH [of i' j'] show ?thesis by auto
    qed
  qed
qed simp

lemma mod_neq:
  fixes x y m :: nat
  assumes "x < y" "y - x < m"
  shows "x mod m \<noteq> y mod m"
proof
  assume "x mod m = y mod m"
  then have "m dvd y - x" using assms(1) by (metis mod_eq_dvd_iff_nat order_less_imp_le)
  then have "m \<le> y - x" using assms(1) by (simp add: dvd_imp_le)
  with assms(2) show False by simp
qed

text \<open>The two bytes of a word.\<close>

lemma bytes_of_word:
  "(ucast ((ucast l :: u16) OR push_bit 8 (ucast h)) :: u8) = l"
  "(ucast (drop_bit 8 ((ucast l :: u16) OR push_bit 8 (ucast h))) :: u8) = h" for l h :: u8
  by (rule bit_word_eqI; auto simp: bit_simps dest: bit_imp_le_length)+

end
