(* ===== verification/Malloc.thy ===== *)
theory Malloc
  imports Prelude
begin

text \<open>
  \<open>ken/malloc.c\<close>: the first fit allocator of core (\<open>coremap\<close>, in pages) and of swap space
  (\<open>swapmap\<close>, in 512 byte blocks).

  A map is the array the C code walks with the pointer \<open>bp\<close>.  Every loop of the file only moves
  the pointer forward, so it is a recursion on the part of the array that starts at \<open>bp\<close>; the
  value \<^const>\<open>None\<close> stands for a pointer that leaves the array.  All arithmetic is that of
  \<open>unsigned\<close> on 16 bits.
\<close>

record mapent =
  m_size :: u16
  m_addr :: u16

text \<open>
  The \<open>do \<dots> while ((bp-1)->m_size = bp->m_size)\<close> of \<open>malloc\<close>: the entries behind an emptied
  one move down by one place, the terminator included.
\<close>

fun map_close :: "mapent list \<Rightarrow> mapent list option" where
  "map_close (b # b' # bs) =
     (if m_size b' = 0 then Some (b' # b' # bs)
      else map_option (Cons b') (map_close (b' # bs)))"
| "map_close _ = None"

fun malloc :: "mapent list \<Rightarrow> u16 \<Rightarrow> (u16 \<times> mapent list) option" where
  "malloc [] sz = None"
| "malloc (bp # bs) sz =
     (if m_size bp = 0 then Some (0, bp # bs)
      else if sz \<le> m_size bp then
        (let a = m_addr bp;
             bp' = bp\<lparr>m_addr := m_addr bp + sz, m_size := m_size bp - sz\<rparr>
         in if m_size bp' = 0 then map_option (Pair a) (map_close (bp' # bs))
            else Some (a, bp' # bs))
      else map_option (map_prod id (Cons bp)) (malloc bs sz))"

text \<open>The search loop of \<open>mfree\<close>, as the number of entries that \<open>bp\<close> passes.\<close>

fun mfree_pos :: "mapent list \<Rightarrow> u16 \<Rightarrow> nat option" where
  "mfree_pos [] a = None"
| "mfree_pos (bp # bs) a =
     (if m_addr bp \<le> a \<and> m_size bp \<noteq> 0 then map_option Suc (mfree_pos bs a) else Some 0)"

text \<open>The loop \<open>while (bp->m_size)\<close> that removes the entry at \<open>bp\<close>.\<close>

fun mfree_del :: "mapent list \<Rightarrow> mapent list option" where
  "mfree_del [] = None"
| "mfree_del (bp # bs) =
     (if m_size bp = 0 then Some (bp # bs)
      else case bs of [] \<Rightarrow> None | b' # _ \<Rightarrow> map_option (Cons b') (mfree_del bs))"

text \<open>The loop \<open>do \<dots> while (size = t)\<close> that inserts \<open>(size, a)\<close> at \<open>bp\<close>.\<close>

fun mfree_ins :: "mapent list \<Rightarrow> u16 \<Rightarrow> u16 \<Rightarrow> mapent list option" where
  "mfree_ins [] sz a = None"
| "mfree_ins (bp # bs) sz a =
     (if m_size bp = 0 then Some (\<lparr>m_size = sz, m_addr = a\<rparr> # bs)
      else map_option (Cons \<lparr>m_size = sz, m_addr = a\<rparr>) (mfree_ins bs (m_size bp) (m_addr bp)))"

definition mfree :: "mapent list \<Rightarrow> u16 \<Rightarrow> u16 \<Rightarrow> mapent list option" where
  "mfree mp sz a =
     Option.bind (mfree_pos mp a) (\<lambda>i.
       let bp = mp ! i; pre = take i mp; rest = drop i mp in
       if i > 0 \<and> m_addr (mp ! (i - 1)) + m_size (mp ! (i - 1)) = a then
         (let p = (mp ! (i - 1))\<lparr>m_size := m_size (mp ! (i - 1)) + sz\<rparr> in
          if a + sz = m_addr bp then
            map_option (\<lambda>r. take (i - 1) mp @ p\<lparr>m_size := m_size p + m_size bp\<rparr> # r) (mfree_del rest)
          else Some (take (i - 1) mp @ p # rest))
       else if a + sz = m_addr bp \<and> m_size bp \<noteq> 0 then
         Some (pre @ bp\<lparr>m_addr := m_addr bp - sz, m_size := m_size bp + sz\<rparr> # tl rest)
       else if sz \<noteq> 0 then map_option (\<lambda>r. pre @ r) (mfree_ins rest sz a)
       else Some mp)"


subsection \<open>The invariant of a map and the units it stands for\<close>

text \<open>
  The comment of the file: the addresses are increasing and the list is terminated with the first
  zero count.  The algorithms need a little more: neighbouring entries never touch (they would
  have been combined), no entry wraps around the address space, and every entry behind the
  terminator has count zero too, since \<open>mfree\<close> overwrites the terminator without writing a
  new one.
\<close>

fun map_from :: "nat \<Rightarrow> mapent list \<Rightarrow> bool" where
  "map_from lo [] = False"
| "map_from lo (e # m) =
     (if m_size e = 0 then list_all (\<lambda>z. m_size z = 0) m
      else lo \<le> unat (m_addr e) \<and> unat (m_addr e) + unat (m_size e) < 65536 \<and>
           map_from (Suc (unat (m_addr e) + unat (m_size e))) m)"

abbreviation map_ok :: "mapent list \<Rightarrow> bool" where
  "map_ok \<equiv> map_from 0"

text \<open>The free units: the abstract value of a map.\<close>

fun units :: "mapent list \<Rightarrow> nat set" where
  "units [] = {}"
| "units (e # m) =
     (if m_size e = 0 then {}
      else {unat (m_addr e) ..< unat (m_addr e) + unat (m_size e)} \<union> units m)"

text \<open>The entry that first fit selects, and the number of unused entries.\<close>

fun first_fit :: "mapent list \<Rightarrow> u16 \<Rightarrow> u16 option" where
  "first_fit [] n = None"
| "first_fit (e # m) n =
     (if m_size e = 0 then None
      else if n \<le> m_size e then Some (m_addr e) else first_fit m n)"

fun map_room :: "mapent list \<Rightarrow> nat" where
  "map_room [] = 0"
| "map_room (e # m) = (if m_size e = 0 then Suc (length m) else map_room m)"

lemma units_bounds: "map_from lo m \<Longrightarrow> units m \<subseteq> {lo..<65536}"
proof (induction m arbitrary: lo)
  case (Cons e m)
  show ?case
  proof (cases "m_size e = 0")
    case False
    with Cons.prems have "units m \<subseteq> {Suc (unat (m_addr e) + unat (m_size e))..<65536}"
      by (intro Cons.IH) simp
    with False Cons.prems show ?thesis by (auto simp: subset_iff)
  qed simp
qed simp

lemma map_from_mono: "map_from lo m \<Longrightarrow> lo' \<le> lo \<Longrightarrow> map_from lo' m"
  by (cases m) (auto split: if_splits)

lemma map_from_Nil_iff [simp]: "map_from lo m \<Longrightarrow> m \<noteq> []"
  by (cases m) auto

lemma unat_sub_add:
  fixes a s n :: u16
  assumes "n \<le> s" "unat a + unat s < 65536"
  shows "unat (s - n) = unat s - unat n" "unat (a + n) = unat a + unat n"
  using assms by (simp_all add: unat_sub word_le_nat_alt unat_word_ariths)

lemma unat_add_lt:
  fixes a s :: u16
  assumes "unat a + unat s < 65536"
  shows "unat (a + s) = unat a + unat s"
  using assms by (simp add: unat_word_ariths)

subsection \<open>Allocation\<close>

lemma map_close_spec:
  "map_from lo m \<Longrightarrow> \<exists>m'. map_close (b # m) = Some m' \<and> map_from lo m' \<and> units m' = units m"
proof (induction m arbitrary: lo b)
  case (Cons e m)
  show ?case
  proof (cases "m_size e = 0")
    case False
    with Cons.prems obtain m' where
      "map_close (e # m) = Some m'" "map_from (Suc (unat (m_addr e) + unat (m_size e))) m'"
      "units m' = units m"
      using Cons.IH by (metis map_from.simps(2))
    with False Cons.prems show ?thesis by simp
  qed (use Cons.prems in simp)
qed simp

lemma malloc_none: "map_from lo m \<Longrightarrow> first_fit m n = None \<Longrightarrow> malloc m n = Some (0, m)"
proof (induction m arbitrary: lo)
  case (Cons e m)
  then show ?case
    by (cases "m_size e = 0"; cases "n \<le> m_size e") (auto simp: Let_def)
qed simp

text \<open>What allocation does to one entry that is large enough.\<close>

lemma malloc_head:
  assumes ok: "map_from lo (e # m)" and sz: "m_size e \<noteq> 0" "n \<le> m_size e"
  shows "\<exists>m'. malloc (e # m) n = Some (m_addr e, m') \<and> map_from lo m' \<and>
           units m' = units (e # m) - {unat (m_addr e) ..< unat (m_addr e) + unat n}"
proof -
  let ?e = "e\<lparr>m_addr := m_addr e + n, m_size := m_size e - n\<rparr>"
  let ?eb = "unat (m_addr e) + unat (m_size e)"
  from ok sz have tail: "map_from (Suc ?eb) m" and lo: "lo \<le> unat (m_addr e)" "?eb < 65536"
    by auto
  from tail have above: "units m \<subseteq> {Suc ?eb..<65536}" by (rule units_bounds)
  from sz(2) have le: "unat n \<le> unat (m_size e)" by (simp add: word_le_nat_alt)
  show ?thesis
  proof (cases "m_size e = n")
    case True
    from tail obtain m' where m': "map_close (?e # m) = Some m'" "map_from (Suc ?eb) m'"
      "units m' = units m" using map_close_spec by blast
    have "malloc (e # m) n = Some (m_addr e, m')"
      using True sz m'(1) by simp
    moreover have "map_from lo m'" using m'(2) lo by (auto intro: map_from_mono)
    ultimately show ?thesis using m'(3) True sz above by auto
  next
    case False
    then have pos: "m_size e - n \<noteq> 0" by auto
    then have call: "malloc (e # m) n = Some (m_addr e, ?e # m)" using sz by (simp add: Let_def)
    have sub: "unat (m_size e - n) = unat (m_size e) - unat n" "unat (m_addr e + n) = unat (m_addr e) + unat n"
      using unat_sub_add [OF sz(2) lo(2)] by auto
    have "map_from lo (?e # m)" using pos lo tail sub le by simp
    moreover have "units (?e # m) = units (e # m) - {unat (m_addr e) ..< unat (m_addr e) + unat n}"
      using pos sz sub le above by auto
    ultimately show ?thesis using call by blast
  qed
qed

lemma malloc_some:
  assumes "map_from lo m" "first_fit m n = Some a"
  shows "\<exists>m'. malloc m n = Some (a, m') \<and> map_from lo m' \<and>
           units m' = units m - {unat a ..< unat a + unat n} \<and>
           {unat a ..< unat a + unat n} \<subseteq> units m"
  using assms
proof (induction m arbitrary: lo)
  case (Cons e m)
  from Cons.prems have nz: "m_size e \<noteq> 0" by (auto split: if_splits)
  show ?case
  proof (cases "n \<le> m_size e")
    case True
    with Cons.prems nz have a: "a = m_addr e" by simp
    have "unat n \<le> unat (m_size e)" using True by (simp add: word_le_nat_alt)
    then have "{unat a ..< unat a + unat n} \<subseteq> units (e # m)" using nz a by auto
    with malloc_head [OF Cons.prems(1) nz True] a show ?thesis by auto
  next
    case False
    let ?eb = "unat (m_addr e) + unat (m_size e)"
    from nz Cons.prems have tail: "map_from (Suc ?eb) m" by simp
    from False nz Cons.prems have fit: "first_fit m n = Some a" by simp
    obtain m' where m': "malloc m n = Some (a, m')" "map_from (Suc ?eb) m'"
      "units m' = units m - {unat a ..< unat a + unat n}" "{unat a ..< unat a + unat n} \<subseteq> units m"
      using Cons.IH [OF tail fit] by blast
    have call: "malloc (e # m) n = Some (a, e # m')" using False nz m'(1) by simp
    from tail have "units m \<subseteq> {Suc ?eb..<65536}" by (rule units_bounds)
    then have "{unat (m_addr e) ..< ?eb} \<inter> {unat a ..< unat a + unat n} = {}"
      using m'(4) by (rule interval_below)
    then have "units (e # m') = units (e # m) - {unat a ..< unat a + unat n}"
      using nz m'(3) by (simp add: Un_Diff Diff_triv)
    moreover have "map_from lo (e # m')" using Cons.prems nz m'(2) by simp
    ultimately show ?thesis using call m'(4) nz by auto
  qed
qed simp

subsection \<open>Release\<close>

text \<open>
  The index form of \<open>mfree\<close> unfolds along the array: an entry that ends below the freed block and
  does not touch it is passed over.
\<close>

lemma mfree_skip:
  assumes "m_addr e \<le> a" "m_size e \<noteq> 0" "m_addr e + m_size e \<noteq> a"
  shows "mfree (e # m) n a = map_option (Cons e) (mfree m n a)"
proof (cases "mfree_pos m a")
  case None
  with assms show ?thesis by (simp add: mfree_def)
next
  case (Some j)
  show ?thesis
  proof (cases j)
    case 0
    with Some assms show ?thesis by (auto simp: mfree_def Let_def option.map_comp comp_def)
  next
    case (Suc k)
    with Some assms show ?thesis
      by (auto simp: mfree_def Let_def option.map_comp comp_def)
  qed
qed

lemma mfree_ins_spec:
  assumes "map_from lo m" "2 \<le> map_room m" "n \<noteq> 0" "lo' \<le> unat a" "unat a + unat n < lo" "unat a + unat n < 65536"
  shows "\<exists>m'. mfree_ins m n a = Some m' \<and> map_from lo' m' \<and>
           units m' = {unat a ..< unat a + unat n} \<union> units m"
  using assms
proof (induction m arbitrary: lo lo' n a)
  case (Cons e m)
  show ?case
  proof (cases "m_size e = 0")
    case True
    with Cons.prems obtain z zs where "m = z # zs" by (cases m) auto
    with True Cons.prems show ?thesis by auto
  next
    case False
    let ?eb = "unat (m_addr e) + unat (m_size e)"
    from False Cons.prems obtain m' where m': "mfree_ins m (m_size e) (m_addr e) = Some m'"
      "map_from (Suc (unat a + unat n)) m'"
      "units m' = {unat (m_addr e) ..< ?eb} \<union> units m"
      using Cons.IH [of "Suc ?eb" "m_size e" "Suc (unat a + unat n)" "m_addr e"] by auto
    with False Cons.prems show ?thesis by auto
  qed
qed simp

lemma mfree_del_spec:
  assumes "map_from lo (e # m)" "m_size e \<noteq> 0"
  shows "\<exists>m'. mfree_del (e # m) = Some m' \<and>
           map_from (Suc (unat (m_addr e) + unat (m_size e))) m' \<and> units m' = units m"
  using assms
proof (induction m arbitrary: lo e)
  case (Cons f m)
  show ?case
  proof (cases "m_size f = 0")
    case True
    with Cons.prems show ?thesis by auto
  next
    case False
    let ?eb = "unat (m_addr e) + unat (m_size e)"
    from False Cons.prems obtain m' where m': "mfree_del (f # m) = Some m'"
      "map_from (Suc (unat (m_addr f) + unat (m_size f))) m'" "units m' = units m"
      using Cons.IH [of "Suc ?eb" f] by auto
    with False Cons.prems show ?thesis by auto
  qed
qed simp

text \<open>Freeing at the front of a map whose first entry lies above the freed block.\<close>

lemma mfree_front:
  assumes ok: "map_from lo (e # m)" and room: "2 \<le> map_room (e # m)" and n: "n \<noteq> 0"
    and lo: "lo \<le> unat a" and top: "unat a + unat n < 65536"
    and above: "m_size e \<noteq> 0 \<longrightarrow> unat a + unat n \<le> unat (m_addr e)"
  shows "\<exists>m'. mfree (e # m) n a = Some m' \<and> map_from lo m' \<and>
           units m' = units (e # m) \<union> {unat a ..< unat a + unat n}"
proof -
  have pos: "mfree_pos (e # m) a = Some 0"
    using n above by (auto simp: word_le_nat_alt simp flip: unat_pos_iff)
  have sum: "unat (a + n) = unat a + unat n" using top by (rule unat_add_lt)
  show ?thesis
  proof (cases "a + n = m_addr e \<and> m_size e \<noteq> 0")
    case True
    let ?e = "e\<lparr>m_addr := m_addr e - n, m_size := m_size e + n\<rparr>"
    from True ok have fits: "unat (m_addr e) + unat (m_size e) < 65536" by auto
    from True have "m_addr e - n = a" by (auto simp: algebra_simps)
    with True sum have base: "unat (m_addr e - n) = unat a" "unat (m_addr e) = unat a + unat n" by auto
    have size: "unat (m_size e + n) = unat (m_size e) + unat n"
      using fits base by (intro unat_add_lt) simp
    then have nz: "m_size e + n \<noteq> 0" using n by (metis unat_0 add_is_0 unat_eq_zero)
    have "mfree (e # m) n a = Some (?e # m)" using pos True by (simp add: mfree_def Let_def)
    moreover have "map_from lo (?e # m)" using ok True lo base size nz fits by (auto simp: ac_simps)
    moreover have "units (?e # m) = units (e # m) \<union> {unat a ..< unat a + unat n}"
      using True base size nz by auto
    ultimately show ?thesis by blast
  next
    case False
    have "unat a + unat n < unat (m_addr e)" if "m_size e \<noteq> 0"
      using that above False sum by (metis le_neq_implies_less word_unat_eq_iff)
    then have "map_from (Suc (unat a + unat n)) (e # m)" using ok by auto
    then obtain m' where "mfree_ins (e # m) n a = Some m'" "map_from lo m'"
      "units m' = {unat a ..< unat a + unat n} \<union> units (e # m)"
      using mfree_ins_spec [of "Suc (unat a + unat n)" "e # m" n lo a] room n lo top by blast
    moreover from this False n pos have "mfree (e # m) n a = Some m'"
      by (auto simp: mfree_def Let_def simp del: mfree_ins.simps)
    ultimately show ?thesis by blast
  qed
qed

text \<open>Freeing directly behind an entry: the entry grows, and swallows its successor if they meet.\<close>

lemma mfree_behind:
  assumes ok: "map_from lo (e # m)" and nz: "m_size e \<noteq> 0" and adj: "m_addr e + m_size e = a"
    and n: "n \<noteq> 0" and top: "unat a + unat n < 65536"
    and disj: "{unat a ..< unat a + unat n} \<inter> units m = {}"
  shows "\<exists>m'. mfree (e # m) n a = Some m' \<and> map_from lo m' \<and>
           units m' = units (e # m) \<union> {unat a ..< unat a + unat n}"
proof -
  let ?eb = "unat (m_addr e) + unat (m_size e)"
  from ok nz have tail: "map_from (Suc ?eb) m" and lo: "lo \<le> unat (m_addr e)" "?eb < 65536" by auto
  from lo(2) adj have a: "unat a = ?eb" by (metis unat_add_lt)
  have sum: "unat (a + n) = unat a + unat n" using top by (rule unat_add_lt)
  from tail obtain f m0 where m: "m = f # m0" by (cases m) auto
  have le: "m_addr e \<le> a" using a by (simp add: word_le_nat_alt)
  have pos0: "mfree_pos m a = Some 0"
    using tail m a by (auto simp: word_le_nat_alt split: if_splits)
  with le nz have pos: "mfree_pos (e # m) a = Some 1" by simp
  have size: "unat (m_size e + n) = unat (m_size e) + unat n"
    using top a by (intro unat_add_lt) simp
  then have nz': "m_size e + n \<noteq> 0" using nz by (metis unat_0 add_is_0 unat_eq_zero)
  have low_f: "unat a + unat n \<le> unat (m_addr f)" if "m_size f \<noteq> 0"
  proof (rule ccontr)
    assume "\<not> ?thesis"
    with tail m that a have "unat (m_addr f) \<in> {unat a ..< unat a + unat n} \<inter> units m"
      by (auto simp: unat_pos_iff)
    with disj show False by blast
  qed
  show ?thesis
  proof (cases "a + n = m_addr f \<and> m_size f \<noteq> 0")
    case True
    let ?e = "e\<lparr>m_size := m_size e + n + m_size f\<rparr>"
    from tail m True obtain r where r: "mfree_del (f # m0) = Some r"
      "map_from (Suc (unat (m_addr f) + unat (m_size f))) r" "units r = units m0"
      using mfree_del_spec by blast
    from True sum have f: "unat (m_addr f) = unat a + unat n" by metis
    from tail m True have ftop: "unat (m_addr f) + unat (m_size f) < 65536" by simp
    have size': "unat (m_size e + n + m_size f) = unat (m_size e) + unat n + unat (m_size f)"
      using size ftop f a by (subst unat_add_lt) auto
    then have nz'': "m_size e + n + m_size f \<noteq> 0" using nz by (metis unat_0 add_is_0 unat_eq_zero)
    have "mfree (e # m) n a = Some (?e # r)"
      using pos adj True r m by (simp add: mfree_def Let_def)
    moreover have "map_from lo (?e # r)" using nz'' lo size' r ftop f a by (simp add: ac_simps)
    moreover have "units (?e # r) = units (e # m) \<union> {unat a ..< unat a + unat n}"
      using nz nz'' size' r f a m True by auto
    ultimately show ?thesis by blast
  next
    case False
    let ?e = "e\<lparr>m_size := m_size e + n\<rparr>"
    have "mfree (e # m) n a = Some (?e # m)"
      using pos adj False m by (auto simp: mfree_def Let_def)
    moreover have "unat a + unat n < unat (m_addr f)" if "m_size f \<noteq> 0"
      using that low_f False sum by (metis le_neq_implies_less word_unat_eq_iff)
    then have "map_from lo (?e # m)" using nz' lo size tail m a top by auto
    moreover have "units (?e # m) = units (e # m) \<union> {unat a ..< unat a + unat n}"
      using nz nz' size a by auto
    ultimately show ?thesis by blast
  qed
qed

lemma mfree_some:
  assumes "map_from lo m" "2 \<le> map_room m" "n \<noteq> 0" "lo \<le> unat a" "unat a + unat n < 65536"
    "{unat a ..< unat a + unat n} \<inter> units m = {}"
  shows "\<exists>m'. mfree m n a = Some m' \<and> map_from lo m' \<and>
           units m' = units m \<union> {unat a ..< unat a + unat n}"
  using assms
proof (induction m arbitrary: lo)
  case (Cons e m)
  let ?eb = "unat (m_addr e) + unat (m_size e)"
  show ?case
  proof (cases "m_size e = 0 \<or> unat a < unat (m_addr e)")
    case True
    have "unat a + unat n \<le> unat (m_addr e)" if "m_size e \<noteq> 0"
    proof (rule ccontr)
      assume "\<not> ?thesis"
      with True that have "unat (m_addr e) \<in> {unat a ..< unat a + unat n} \<inter> units (e # m)"
        by (auto simp: unat_pos_iff)
      with Cons.prems(6) show False by blast
    qed
    with Cons.prems show ?thesis by (intro mfree_front) auto
  next
    case False
    then have nz: "m_size e \<noteq> 0" and le: "m_addr e \<le> a" by (auto simp: word_le_nat_alt)
    have above: "?eb \<le> unat a"
    proof (rule ccontr)
      assume "\<not> ?thesis"
      with nz le have "unat a \<in> units (e # m)" by (auto simp: word_le_nat_alt)
      moreover have "unat a \<in> {unat a ..< unat a + unat n}"
        using Cons.prems(3) by (simp add: unat_pos_iff)
      ultimately show False using Cons.prems(6) by blast
    qed
    show ?thesis
    proof (cases "m_addr e + m_size e = a")
      case True
      with Cons.prems nz show ?thesis by (intro mfree_behind) auto
    next
      case False
      from Cons.prems nz have "unat (m_addr e + m_size e) = ?eb" by (intro unat_add_lt) simp
      with False above have "Suc ?eb \<le> unat a" by (metis le_neq_implies_less Suc_leI word_unat_eq_iff)
      with Cons.prems nz obtain m' where m': "mfree m n a = Some m'" "map_from (Suc ?eb) m'"
        "units m' = units m \<union> {unat a ..< unat a + unat n}"
        using Cons.IH [of "Suc ?eb"] by auto
      with mfree_skip [OF le nz False] Cons.prems nz show ?thesis by auto
    qed
  qed
qed simp

lemma map_room_le: "map_room m \<le> length m"
  by (induction m) auto

lemma map_close_room: "map_from lo m \<Longrightarrow> map_close (b # m) = Some m' \<Longrightarrow> map_room m' = Suc (map_room m)"
proof (induction m arbitrary: lo b m')
  case (Cons e m)
  show ?case
  proof (cases "m_size e = 0")
    case False
    with Cons.prems(2) obtain r where r: "map_close (e # m) = Some r" "m' = e # r" by auto
    from False Cons.prems(1) have "map_from (Suc (unat (m_addr e) + unat (m_size e))) m" by simp
    from Cons.IH [OF this r(1)] r(2) False show ?thesis by simp
  qed (use Cons.prems in auto)
qed simp

lemma malloc_room: "map_from lo m \<Longrightarrow> malloc m n = Some (a, m') \<Longrightarrow> map_room m \<le> map_room m'"
proof (induction m arbitrary: lo m')
  case (Cons e m)
  let ?e = "e\<lparr>m_addr := m_addr e + n, m_size := m_size e - n\<rparr>"
  consider (stop) "m_size e = 0" | (whole) "m_size e \<noteq> 0" "n \<le> m_size e" "m_size e = n"
    | (part) "m_size e \<noteq> 0" "n \<le> m_size e" "m_size e \<noteq> n" | (later) "m_size e \<noteq> 0" "\<not> n \<le> m_size e"
    by blast
  then show ?case
  proof cases
    case whole
    with Cons.prems have "map_close (?e # m) = Some m'" by auto
    with Cons.prems whole show ?thesis using map_close_room [of _ m ?e m'] by fastforce
  next
    case later
    with Cons.prems(2) obtain r where r: "malloc m n = Some (a, r)" "m' = e # r" by auto
    from later Cons.prems(1) have "map_from (Suc (unat (m_addr e) + unat (m_size e))) m" by simp
    from Cons.IH [OF this r(1)] r(2) later show ?thesis by simp
  qed (use Cons.prems in \<open>auto simp: Let_def\<close>)
qed simp

subsection \<open>The interface of a resource map\<close>

abbreviation block :: "u16 \<Rightarrow> u16 \<Rightarrow> nat set" where
  "block a n \<equiv> {unat a ..< unat a + unat n}"

text \<open>
  What the clients (\<open>sched\<close>, \<open>newproc\<close>, \<open>xswap\<close>, \<open>exit\<close>, \<open>wait\<close>) rely on: an allocation
  either fails with address zero and changes nothing or takes a block out of the free units, a
  release puts a block back.  The maps of the kernel never hold unit zero.
\<close>

locale resource_map =
  fixes ok :: "'m \<Rightarrow> bool"
    and free :: "'m \<Rightarrow> nat set"
    and room :: "'m \<Rightarrow> nat"
    and get :: "'m \<Rightarrow> u16 \<Rightarrow> (u16 \<times> 'm) option"
    and put :: "'m \<Rightarrow> u16 \<Rightarrow> u16 \<Rightarrow> 'm option"
  assumes get_total: "ok m \<Longrightarrow> get m n \<noteq> None"
    and get_law: "ok m \<Longrightarrow> get m n = Some (a, m') \<Longrightarrow>
      (a = 0 \<and> m' = m) \<or> (ok m' \<and> room m \<le> room m' \<and> block a n \<subseteq> free m \<and> free m' = free m - block a n)"
    and put_law: "ok m \<Longrightarrow> 2 \<le> room m \<Longrightarrow> n \<noteq> 0 \<Longrightarrow> unat a + unat n < 65536 \<Longrightarrow> block a n \<inter> free m = {} \<Longrightarrow>
      \<exists>m'. put m n a = Some m' \<and> ok m' \<and> free m' = free m \<union> block a n"
    and free_bound: "ok m \<Longrightarrow> free m \<subseteq> {..<65535}"
begin

lemma get_fits:
  assumes "ok m" "get m n = Some (a, m')" "a \<noteq> 0" "n \<noteq> 0"
  shows "unat a + unat n < 65536" "ok m'" "block a n \<subseteq> free m" "free m' = free m - block a n"
    "room m \<le> room m'"
proof -
  from get_law [OF assms(1,2)] assms(3)
  show "ok m'" "block a n \<subseteq> free m" "free m' = free m - block a n" "room m \<le> room m'" by auto
  then have "block a n \<subseteq> {..<65535}" using free_bound assms(1) by blast
  moreover have pos: "0 < unat n" using assms(4) by (simp add: unat_pos_iff)
  then have "unat a + unat n - 1 \<in> block a n" by auto
  ultimately have "unat a + unat n - 1 < 65535" by auto
  then show "unat a + unat n < 65536" by simp
qed

text \<open>What one process frees is what another can get: allocation followed by release.\<close>

lemma get_put:
  assumes "ok m" "2 \<le> room m" "get m n = Some (a, m')" "a \<noteq> 0" "n \<noteq> 0"
  shows "\<exists>m''. put m' n a = Some m'' \<and> ok m'' \<and> free m'' = free m"
proof -
  note g = get_fits [OF assms(1,3,4,5)]
  have "block a n \<inter> free m' = {}" using g(4) by auto
  then obtain m'' where "put m' n a = Some m''" "ok m''" "free m'' = free m' \<union> block a n"
    using put_law [OF g(2) _ assms(5) g(1)] g(5) assms(2) by (meson le_trans)
  with g(3,4) show ?thesis by auto
qed

text \<open>Two live allocations never overlap.\<close>

lemma get_get_disjoint:
  assumes "ok m" "get m n = Some (a, m1)" "a \<noteq> 0" "n \<noteq> 0"
    and "get m1 k = Some (b, m2)" "b \<noteq> 0" "k \<noteq> 0"
  shows "block a n \<inter> block b k = {}"
proof -
  note g = get_fits [OF assms(1-4)]
  have "block b k \<subseteq> free m - block a n" using get_fits(3) [OF g(2) assms(5-7)] g(4) by simp
  then show ?thesis by blast
qed

end

lemma units_bound: "map_ok m \<Longrightarrow> units m \<subseteq> {..<65535}"
proof -
  have "units m \<subseteq> {..<65535}" if "map_from lo m" for lo
    using that by (induction m arbitrary: lo) (auto split: if_splits)
  then show "map_ok m \<Longrightarrow> units m \<subseteq> {..<65535}" .
qed

lemma malloc_law:
  assumes "map_ok m" "malloc m n = Some (a, m')"
  shows "(a = 0 \<and> m' = m) \<or> (map_ok m' \<and> map_room m \<le> map_room m' \<and> block a n \<subseteq> units m \<and> units m' = units m - block a n)"
proof (cases "first_fit m n")
  case None
  with assms malloc_none show ?thesis by fastforce
next
  case (Some b)
  with assms malloc_some [OF assms(1) Some] malloc_room [OF assms(1)] show ?thesis by fastforce
qed

lemma malloc_total: "map_ok m \<Longrightarrow> malloc m n \<noteq> None"
  using malloc_none malloc_some by (cases "first_fit m n") fastforce+

interpretation km: resource_map map_ok units map_room malloc mfree
proof unfold_locales
  fix m :: "mapent list" and n a :: u16 and m'
  show "map_ok m \<Longrightarrow> malloc m n \<noteq> None" by (rule malloc_total)
  show "map_ok m \<Longrightarrow> malloc m n = Some (a, m') \<Longrightarrow> a = 0 \<and> m' = m \<or>
      map_ok m' \<and> map_room m \<le> map_room m' \<and> block a n \<subseteq> units m \<and> units m' = units m - block a n"
    by (rule malloc_law)
  show "map_ok m \<Longrightarrow> 2 \<le> map_room m \<Longrightarrow> n \<noteq> 0 \<Longrightarrow> unat a + unat n < 65536 \<Longrightarrow> block a n \<inter> units m = {} \<Longrightarrow>
      \<exists>m'. mfree m n a = Some m' \<and> map_ok m' \<and> units m' = units m \<union> block a n"
    by (rule mfree_some) auto
  show "map_ok m \<Longrightarrow> units m \<subseteq> {..<65535}" by (rule units_bound)
qed

subsection \<open>Properties\<close>

text \<open>C1: \<open>malloc\<close> implements first fit on the set of free units: it returns the base of the first
  entry that is large enough, exactly the \<open>n\<close> units from there leave the free set, the order and
  coalescing invariant of the map is kept, and if no entry is large enough the result is zero and
  the map is unchanged.  In every case it stays inside the array.\<close>

theorem malloc_first_fit:
  assumes "map_ok m"
  shows "case first_fit m n of
      None \<Rightarrow> malloc m n = Some (0, m)
    | Some a \<Rightarrow> (\<exists>m'. malloc m n = Some (a, m') \<and> map_ok m' \<and>
        units m' = units m - {unat a ..< unat a + unat n} \<and> {unat a ..< unat a + unat n} \<subseteq> units m)"
  using assms malloc_none malloc_some by (auto split: option.split)

definition ex_map :: "mapent list" where
  "ex_map = [\<lparr>m_size = 3, m_addr = 32\<rparr>, \<lparr>m_size = 8, m_addr = 40\<rparr>, \<lparr>m_size = 0, m_addr = 0\<rparr>,
     \<lparr>m_size = 0, m_addr = 0\<rparr>, \<lparr>m_size = 0, m_addr = 0\<rparr>]"

theorem malloc_first_fit_witness:
  "first_fit ex_map 5 = Some 40 \<and> (\<exists>m'. malloc ex_map 5 = Some (40, m') \<and> map_ok m' \<and>
     units m' = units ex_map - {40 ..< 45} \<and> {40 ..< 45} \<subseteq> units ex_map)"
proof -
  have "map_ok ex_map" "first_fit ex_map 5 = Some 40" by (simp_all add: ex_map_def)
  with malloc_first_fit [of ex_map 5] show ?thesis by simp
qed

text \<open>C2: \<open>mfree\<close> of a block that is not free adds exactly its units to the free set, combines the
  block with its neighbours on both ends so that the invariant of the map holds again, and stays
  inside the array as long as two unused entries remain.\<close>

theorem mfree_adds_units:
  assumes "map_ok m" "2 \<le> map_room m" "n \<noteq> 0" "unat a + unat n < 65536"
    and "{unat a ..< unat a + unat n} \<inter> units m = {}"
  shows "\<exists>m'. mfree m n a = Some m' \<and> map_ok m' \<and> units m' = units m \<union> {unat a ..< unat a + unat n}"
  using assms by (intro mfree_some) auto

theorem mfree_adds_units_witness:
  "\<exists>m'. mfree ex_map 5 35 = Some m' \<and> map_ok m' \<and> units m' = units ex_map \<union> {35 ..< 40}"
proof -
  have "map_ok ex_map" "2 \<le> map_room ex_map" "(5::u16) \<noteq> 0" "unat (35::u16) + unat (5::u16) < 65536"
    "{unat (35::u16) ..< unat (35::u16) + unat (5::u16)} \<inter> units ex_map = {}"
    by (auto simp: ex_map_def)
  from mfree_adds_units [OF this] show ?thesis by simp
qed

text \<open>Releasing what was allocated restores the free units, and two blocks that are allocated at
  the same time never overlap.\<close>

theorem malloc_mfree_roundtrip:
  assumes "map_ok m" "2 \<le> map_room m" "n \<noteq> 0" "malloc m n = Some (a, m')" "a \<noteq> 0"
  shows "(\<exists>m''. mfree m' n a = Some m'' \<and> map_ok m'' \<and> units m'' = units m) \<and>
    (\<forall>k b m2. malloc m' k = Some (b, m2) \<and> b \<noteq> 0 \<and> k \<noteq> 0 \<longrightarrow>
       {unat a ..< unat a + unat n} \<inter> {unat b ..< unat b + unat k} = {})"
  using km.get_put [OF assms(1,2,4,5,3)] km.get_get_disjoint [OF assms(1,4,5,3)] by blast

theorem malloc_mfree_roundtrip_witness:
  "\<exists>m' m''. malloc ex_map 5 = Some (40, m') \<and> mfree m' 5 40 = Some m'' \<and> units m'' = units ex_map"
proof -
  have h: "map_ok ex_map" "2 \<le> map_room ex_map" "(5::u16) \<noteq> 0" by (simp_all add: ex_map_def)
  obtain m' where m': "malloc ex_map 5 = Some (40, m')" by (simp add: ex_map_def)
  from malloc_mfree_roundtrip [OF h m'] m' show ?thesis by auto
qed

end
