(* ===== verification/Callout.thy ===== *)
theory Callout
  imports Prelude "HOL-Library.Monad_Syntax"
begin

text \<open>
  \<open>ken/clock.c\<close>, the callouts: \<open>timeout\<close>, which sorts a request into the callout table, and the
  part of \<open>clock\<close> that counts the table down and calls what is due.

  The table is the array \<open>callout[NCALL]\<close>, a list of \<open>NCALL\<close> entries whose used part ends at the
  first entry with a null \<open>c_func\<close>; the time of an entry is the number of ticks after the entry
  before it.  A routine is a number that the caller of these functions interprets, 0 being the null
  pointer.  Reading or writing past the array is \<open>None\<close>.
\<close>

subsection \<open>The table and its operations\<close>

definition NCALL :: nat where "NCALL = 20"

record callo =
  c_time :: int
  c_arg :: u16
  c_func :: nat

text \<open>The search of \<open>timeout\<close>: the place of the new entry and the time left of it there.\<close>

function timeout_pos :: "callo list \<Rightarrow> nat \<Rightarrow> int \<Rightarrow> (nat \<times> int) option" where
  "timeout_pos cs p1 t =
     (if p1 < length cs then
        if c_func (cs ! p1) \<noteq> 0 \<and> c_time (cs ! p1) \<le> t then timeout_pos cs (p1 + 1) (t - c_time (cs ! p1))
        else Some (p1, t)
      else None)"
  by pat_completeness auto
termination by (relation "measure (\<lambda>(cs, p1, t). length cs - p1)") auto

declare timeout_pos.simps [simp del]

text \<open>\<open>while(p2->c_func != 0) p2++\<close>\<close>

function callo_end :: "callo list \<Rightarrow> nat \<Rightarrow> nat option" where
  "callo_end cs p2 =
     (if p2 < length cs then if c_func (cs ! p2) \<noteq> 0 then callo_end cs (p2 + 1) else Some p2 else None)"
  by pat_completeness auto
termination by (relation "measure (\<lambda>(cs, p2). length cs - p2)") auto

declare callo_end.simps [simp del]

text \<open>The shift, \<open>while(p2 >= p1) { p2[1] = p2[0]; p2--; }\<close>, with \<open>n\<close> entries left to move from \<open>p1\<close> on.\<close>

fun timeout_shift :: "nat \<Rightarrow> nat \<Rightarrow> callo list \<Rightarrow> callo list option" where
  "timeout_shift p1 0 cs = Some cs"
| "timeout_shift p1 (Suc n) cs =
     (if p1 + n + 1 < length cs then timeout_shift p1 n (cs[p1 + n + 1 := cs ! (p1 + n)]) else None)"

definition timeout :: "nat \<Rightarrow> u16 \<Rightarrow> int \<Rightarrow> callo list \<Rightarrow> callo list option" where
  "timeout fn arg tim cs = do {
     (p1, t) \<leftarrow> timeout_pos cs 0 tim;
     let cs = cs[p1 := (cs ! p1)\<lparr>c_time := c_time (cs ! p1) - t\<rparr>];
     p2 \<leftarrow> callo_end cs p1;
     cs \<leftarrow> timeout_shift p1 (p2 + 1 - p1) cs;
     Some (cs[p1 := \<lparr>c_time = t, c_arg = arg, c_func = fn\<rparr>]) }"

text \<open>\<open>while(p2->c_time<=0 && p2->c_func!=0) p2++\<close> of \<open>clock\<close>\<close>

function callo_first :: "callo list \<Rightarrow> nat \<Rightarrow> nat option" where
  "callo_first cs p2 =
     (if p2 < length cs then
        if c_time (cs ! p2) \<le> 0 \<and> c_func (cs ! p2) \<noteq> 0 then callo_first cs (p2 + 1) else Some p2
      else None)"
  by pat_completeness auto
termination by (relation "measure (\<lambda>(cs, p2). length cs - p2)") auto

declare callo_first.simps [simp del]

definition clock_dec :: "callo list \<Rightarrow> callo list option" where
  "clock_dec cs = do {
     p2 \<leftarrow> callo_first cs 0;
     Some (cs[p2 := (cs ! p2)\<lparr>c_time := c_time (cs ! p2) - 1\<rparr>]) }"

text \<open>
  The calls, \<open>while(p1->c_func != 0 && p1->c_time <= 0) { (*p1->c_func)(p1->c_arg); p1++; }\<close>.  The
  routines see and may change the table (a terminal restart may ask for a new timeout); \<open>func\<close>
  interprets a routine on the table and the rest of the state.
\<close>

function clock_fire ::
  "(nat \<Rightarrow> u16 \<Rightarrow> callo list \<times> 's \<Rightarrow> (callo list \<times> 's) option) \<Rightarrow> nat \<Rightarrow> callo list \<times> 's \<Rightarrow>
     (nat \<times> callo list \<times> 's) option" where
  "clock_fire func p1 (cs, s) =
     (if p1 < NCALL \<and> p1 < length cs then
        if c_func (cs ! p1) \<noteq> 0 \<and> c_time (cs ! p1) \<le> 0
        then do { r \<leftarrow> func (c_func (cs ! p1)) (c_arg (cs ! p1)) (cs, s); clock_fire func (p1 + 1) r }
        else Some (p1, cs, s)
      else None)"
  by pat_completeness auto
termination by (relation "measure (\<lambda>(func, p1, cs, s). NCALL - p1)") auto

declare clock_fire.simps [simp del]

text \<open>
  The compaction: entries from \<open>p1\<close> on are moved down to \<open>p2\<close>; only \<open>c_func\<close> is stored when the
  null entry is reached.
\<close>

function clock_compact :: "callo list \<Rightarrow> nat \<Rightarrow> nat \<Rightarrow> callo list option" where
  "clock_compact cs p1 p2 =
     (if p1 < length cs \<and> p2 < length cs then
        let cs = cs[p2 := (cs ! p2)\<lparr>c_func := c_func (cs ! p1)\<rparr>] in
        if c_func (cs ! p2) \<noteq> 0 then
          clock_compact (cs[p2 := (cs ! p2)\<lparr>c_time := c_time (cs ! p1), c_arg := c_arg (cs ! p1)\<rparr>]) (p1 + 1) (p2 + 1)
        else Some cs
      else None)"
  by pat_completeness auto
termination by (relation "measure (\<lambda>(cs, p1, p2). length cs - p1)") auto

declare clock_compact.simps [simp del]

text \<open>What \<open>clock\<close> does when the first entry is due.\<close>

definition clock_run ::
  "(nat \<Rightarrow> u16 \<Rightarrow> callo list \<times> 's \<Rightarrow> (callo list \<times> 's) option) \<Rightarrow> callo list \<times> 's \<Rightarrow> (callo list \<times> 's) option" where
  "clock_run func = (\<lambda>(cs, s).
     if c_time (cs ! 0) \<le> 0 then do {
       (p1, cs, s) \<leftarrow> clock_fire func 0 (cs, s);
       cs \<leftarrow> clock_compact cs p1 0;
       Some (cs, s) }
     else Some (cs, s))"

text \<open>The callout part of \<open>clock\<close>, from the test of the first entry to the label \<open>out\<close>.\<close>

definition clock_callouts ::
  "(nat \<Rightarrow> u16 \<Rightarrow> callo list \<times> 's \<Rightarrow> (callo list \<times> 's) option) \<Rightarrow> callo list \<times> 's \<Rightarrow> (callo list \<times> 's) option" where
  "clock_callouts func = (\<lambda>(cs, s).
     if c_func (cs ! 0) = 0 then Some (cs, s)
     else do { cs \<leftarrow> clock_dec cs; clock_run func (cs, s) })"

subsection \<open>Absolute times\<close>

text \<open>
  The used part of the table, and the absolute times it stands for: what runs after how many ticks.
\<close>

definition active :: "callo list \<Rightarrow> callo list" where
  "active cs = takeWhile (\<lambda>c. c_func c \<noteq> 0) cs"

fun due :: "int \<Rightarrow> callo list \<Rightarrow> (int \<times> nat \<times> u16) list" where
  "due t [] = []"
| "due t (c # cs) = (t + c_time c, c_func c, c_arg c) # due (t + c_time c) cs"

definition callo_ok :: "callo list \<Rightarrow> bool" where
  "callo_ok cs \<longleftrightarrow> length cs = NCALL \<and> length (active cs) < NCALL \<and> (\<forall>c \<in> set (active cs). 0 \<le> c_time c)"

text \<open>Insertion of a request behind all requests that are due no later.\<close>

definition due_insert :: "int \<times> nat \<times> u16 \<Rightarrow> (int \<times> nat \<times> u16) list \<Rightarrow> (int \<times> nat \<times> u16) list" where
  "due_insert r ds = takeWhile (\<lambda>d. fst d \<le> fst r) ds @ [r] @ dropWhile (\<lambda>d. fst d \<le> fst r) ds"

text \<open>One tick: everything still to come is one tick nearer.\<close>

definition due_tick :: "(int \<times> nat \<times> u16) list \<Rightarrow> (int \<times> nat \<times> u16) list" where
  "due_tick ds = map (\<lambda>(t, r). (max 0 (t - 1), r)) ds"

lemma due_append: "due t (xs @ ys) = due t xs @ due (t + sum_list (map c_time xs)) ys"
  by (induction xs arbitrary: t) (auto simp: ac_simps)

lemma due_shift: "due t xs = map (\<lambda>(u, r). (u + t, r)) (due 0 xs)"
proof (induction xs arbitrary: t)
  case (Cons x xs)
  show ?case by (simp add: Cons [of "t + c_time x"] Cons [of "c_time x"] ac_simps case_prod_beta)
qed simp

text \<open>The table as its used part, the null entry and the rest.\<close>

lemma active_split:
  assumes "length (active cs) < length cs"
  obtains z rest where "cs = active cs @ z # rest" "c_func z = 0"
proof -
  let ?P = "\<lambda>c. c_func c \<noteq> 0"
  have "dropWhile ?P cs \<noteq> []"
  proof
    assume "dropWhile ?P cs = []"
    then have "takeWhile ?P cs = cs" by (metis append_Nil2 takeWhile_dropWhile_id)
    then have "active cs = cs" by (simp only: active_def)
    with assms show False by simp
  qed
  then obtain z rest where d: "dropWhile ?P cs = z # rest" by (cases "dropWhile ?P cs") auto
  then have "c_func z = 0" using hd_dropWhile [of ?P cs] by simp
  moreover have "cs = active cs @ z # rest" unfolding active_def d [symmetric] by simp
  ultimately show ?thesis using that by blast
qed

lemma active_append: "\<forall>c \<in> set as. c_func c \<noteq> 0 \<Longrightarrow> active (as @ bs) = as @ active bs"
  by (induction as) (auto simp: active_def)

lemma active_func: "c \<in> set (active cs) \<Longrightarrow> c_func c \<noteq> 0"
  unfolding active_def by (auto dest: set_takeWhileD)

lemma active_null: "c_func z = 0 \<Longrightarrow> active (z # cs) = []"
  by (simp add: active_def)

subsection \<open>\<open>timeout\<close> inserts by absolute time\<close>

text \<open>The entries that are due no later than \<open>t\<close>, the others, and the time left after the former.\<close>

fun tsplit :: "int \<Rightarrow> callo list \<Rightarrow> callo list \<times> callo list \<times> int" where
  "tsplit t [] = ([], [], t)"
| "tsplit t (c # cs) =
     (if c_time c \<le> t then let (lo, hi, r) = tsplit (t - c_time c) cs in (c # lo, hi, r) else ([], c # cs, t))"

fun nearer :: "int \<Rightarrow> callo list \<Rightarrow> callo list" where
  "nearer r [] = []"
| "nearer r (c # cs) = c\<lparr>c_time := c_time c - r\<rparr> # cs"

lemma length_nearer [simp]: "length (nearer r cs) = length cs"
  by (cases cs) auto

lemma nearer_append: "xs \<noteq> [] \<Longrightarrow> nearer r (xs @ ys) = nearer r xs @ ys"
  by (cases xs) auto

lemma nearer_Nil_iff [simp]: "nearer r cs = [] \<longleftrightarrow> cs = []"
  by (cases cs) auto

lemma tsplit_append: "tsplit t cs = (lo, hi, r) \<Longrightarrow> cs = lo @ hi"
  by (induction t cs arbitrary: lo rule: tsplit.induct) (auto split: if_splits prod.splits)

lemma tsplit_rest: "tsplit t cs = (lo, hi, r) \<Longrightarrow> 0 \<le> t \<Longrightarrow> 0 \<le> r \<and> (hi \<noteq> [] \<longrightarrow> r < c_time (hd hi))"
  by (induction t cs arbitrary: lo rule: tsplit.induct) (auto split: if_splits prod.splits)

lemma timeout_pos_tsplit:
  "tsplit t as = (lo, hi, r) \<Longrightarrow> \<forall>c \<in> set as. c_func c \<noteq> 0 \<Longrightarrow> c_func z = 0 \<Longrightarrow>
    timeout_pos (pre @ as @ z # rest) (length pre) t = Some (length pre + length lo, r)"
proof (induction t as arbitrary: pre lo rule: tsplit.induct)
  case (1 t)
  then show ?case by (subst timeout_pos.simps) auto
next
  case (2 t c cs)
  show ?case
  proof (cases "c_time c \<le> t")
    case True
    obtain lo' hi' r' where s: "tsplit (t - c_time c) cs = (lo', hi', r')" by (cases "tsplit (t - c_time c) cs") auto
    with 2 True have e: "lo = c # lo'" "hi' = hi" "r' = r" by auto
    have "timeout_pos ((pre @ [c]) @ cs @ z # rest) (length (pre @ [c])) (t - c_time c) = Some (length (pre @ [c]) + length lo', r)"
      using 2 True s e by (intro 2(1)) auto
    then show ?thesis using True 2 e by (subst timeout_pos.simps) (auto simp: nth_append)
  next
    case False
    with 2 show ?thesis by (subst timeout_pos.simps) auto
  qed
qed

lemma callo_end_at:
  "\<forall>c \<in> set as. c_func c \<noteq> 0 \<Longrightarrow> c_func z = 0 \<Longrightarrow> callo_end (pre @ as @ z # rest) (length pre) = Some (length pre + length as)"
proof (induction as arbitrary: pre)
  case Nil
  then show ?case by (subst callo_end.simps) auto
next
  case (Cons a as)
  have "callo_end ((pre @ [a]) @ as @ z # rest) (length (pre @ [a])) = Some (length (pre @ [a]) + length as)"
    using Cons by (intro Cons.IH) auto
  with Cons.prems show ?case by (subst callo_end.simps) (auto simp: nth_append)
qed

lemma timeout_shift_spec:
  "mid \<noteq> [] \<Longrightarrow> timeout_shift (length pre) (length mid) (pre @ mid @ w # post) = Some (pre @ hd mid # mid @ post)"
proof (induction mid arbitrary: w post rule: rev_induct)
  case (snoc x mid)
  have upd: "(pre @ mid @ x # w # post)[Suc (length pre + length mid) := x] = pre @ mid @ x # x # post"
    by (simp add: list_update_append)
  have nth: "(pre @ mid @ x # w # post) ! (length pre + length mid) = x" by (simp add: nth_append)
  show ?case
  proof (cases "mid = []")
    case True
    then show ?thesis using upd nth by simp
  next
    case False
    then show ?thesis using snoc.IH [of x "x # post"] upd nth by simp
  qed
qed simp

lemma timeout_unfold:
  assumes cs: "cs = as @ z # rest" "\<forall>c \<in> set as. c_func c \<noteq> 0" "c_func z = 0" and s: "tsplit tim as = (lo, hi, r)"
  shows "timeout fn arg tim cs = do {
    cs \<leftarrow> timeout_shift (length lo) (length (hi @ [z])) (lo @ nearer r (hi @ [z]) @ rest);
    Some (cs[length lo := \<lparr>c_time = r, c_arg = arg, c_func = fn\<rparr>]) }"
proof -
  have as: "as = lo @ hi" using s by (rule tsplit_append)
  have pos: "timeout_pos cs 0 tim = Some (length lo, r)"
    using timeout_pos_tsplit [OF s cs(2,3), of "[]" rest] cs(1) by simp
  obtain x xs where x: "hi @ [z] = x # xs" by (cases "hi @ [z]") auto
  then have csx: "cs = lo @ x # xs @ rest" using cs(1) as by (metis append.assoc append_Cons append_Nil)
  have cs1: "cs[length lo := (cs ! length lo)\<lparr>c_time := c_time (cs ! length lo) - r\<rparr>] = lo @ nearer r (hi @ [z]) @ rest"
    using csx x by (simp add: list_update_append nth_append)
  have "\<exists>hi' z'. nearer r (hi @ [z]) = hi' @ [z'] \<and> length hi' = length hi \<and> (\<forall>c \<in> set hi'. c_func c \<noteq> 0) \<and> c_func z' = 0"
    using cs(2,3) as by (cases hi) auto
  then obtain hi' z' where h: "nearer r (hi @ [z]) = hi' @ [z']" "length hi' = length hi"
    "\<forall>c \<in> set hi'. c_func c \<noteq> 0" "c_func z' = 0" by blast
  have "callo_end (lo @ nearer r (hi @ [z]) @ rest) (length lo) = Some (length lo + length hi)"
    using callo_end_at [OF h(3,4), of lo rest] h by simp
  then show ?thesis by (simp add: timeout_def pos cs1)
qed

lemma timeout_split:
  assumes cs: "cs = as @ z # w # post" "\<forall>c \<in> set as. c_func c \<noteq> 0" "c_func z = 0" and s: "tsplit tim as = (lo, hi, r)"
  shows "timeout fn arg tim cs = Some (lo @ \<lparr>c_time = r, c_arg = arg, c_func = fn\<rparr> # nearer r (hi @ [z]) @ post)"
proof -
  have "timeout_shift (length lo) (length (nearer r (hi @ [z]))) (lo @ nearer r (hi @ [z]) @ w # post) =
      Some (lo @ hd (nearer r (hi @ [z])) # nearer r (hi @ [z]) @ post)"
    by (rule timeout_shift_spec) simp
  then show ?thesis using timeout_unfold [OF cs s] by (simp add: list_update_append)
qed

text \<open>With no entry behind the null entry the shift leaves the array.\<close>

lemma timeout_overrun:
  assumes "cs = as @ [z]" "\<forall>c \<in> set as. c_func c \<noteq> 0" "c_func z = 0"
  shows "timeout fn arg tim cs = None"
proof -
  obtain lo hi r where s: "tsplit tim as = (lo, hi, r)" by (cases "tsplit tim as") auto
  show ?thesis using timeout_unfold [OF assms s] by simp
qed

lemma due_nearer: "due (b + r) (nearer r cs) = due b cs"
  by (cases cs) auto

lemma due_tsplit:
  "tsplit t as = (lo, hi, r) \<Longrightarrow>
    due b (lo @ \<lparr>c_time = r, c_arg = arg, c_func = fn\<rparr> # nearer r hi) = due_insert (b + t, fn, arg) (due b as)"
proof (induction t as arbitrary: b lo rule: tsplit.induct)
  case (1 t)
  then show ?case by (auto simp: due_insert_def)
next
  case (2 t c cs)
  show ?case
  proof (cases "c_time c \<le> t")
    case True
    obtain lo' hi' r' where s: "tsplit (t - c_time c) cs = (lo', hi', r')" by (cases "tsplit (t - c_time c) cs") auto
    with 2 True have e: "lo = c # lo'" "hi' = hi" "r' = r" by auto
    from 2(1) [OF True, of lo' "b + c_time c"] s e True show ?thesis by (simp add: due_insert_def)
  next
    case False
    with 2 due_nearer [of b t "c # cs"] show ?thesis by (auto simp: due_insert_def)
  qed
qed

lemma timeout_due:
  assumes ok: "callo_ok cs" and room: "length (active cs) + 1 < NCALL" and tim: "0 \<le> tim" and fn: "fn \<noteq> 0"
  shows "\<exists>cs'. timeout fn arg tim cs = Some cs' \<and> callo_ok cs' \<and>
    due 0 (active cs') = due_insert (tim, fn, arg) (due 0 (active cs))"
proof -
  let ?as = "active cs"
  let ?new = "\<lambda>r. \<lparr>c_time = r, c_arg = arg, c_func = fn\<rparr>"
  from ok room obtain z rest where z: "cs = ?as @ z # rest" "c_func z = 0"
    by (metis active_split add_lessD1 callo_ok_def)
  then have "length ?as + 1 + length rest = NCALL"
    using ok by (metis Suc_eq_plus1 add.assoc add.commute callo_ok_def length_Cons length_append)
  with room obtain w post where w: "rest = w # post" by (cases rest) auto
  obtain lo hi r where s: "tsplit tim ?as = (lo, hi, r)" by (cases "tsplit tim ?as") auto
  have as: "?as = lo @ hi" using s by (rule tsplit_append)
  let ?cs = "lo @ ?new r # nearer r (hi @ [z]) @ post"
  have call: "timeout fn arg tim cs = Some ?cs"
    using z w s by (intro timeout_split) (auto dest: active_func)
  have "\<forall>c \<in> set lo \<union> set (nearer r hi). c_func c \<noteq> 0"
    using active_func [of _ cs] as by (cases hi) auto
  moreover have "nearer r (hi @ [z]) = nearer r hi @ (if hi = [] then nearer r [z] else [z])"
    by (auto simp: nearer_append)
  ultimately have act: "active ?cs = lo @ ?new r # nearer r hi"
    using fn z(2) active_append [of "lo @ ?new r # nearer r hi" "(if hi = [] then nearer r [z] else [z]) @ post"]
    by (auto simp: active_null)
  have "due 0 (active ?cs) = due_insert (tim, fn, arg) (due 0 ?as)"
    using due_tsplit [OF s, of 0 arg fn] act by simp
  moreover have "callo_ok ?cs"
  proof -
    have "length cs = length (?as @ z # w # post)" using arg_cong [OF z(1), of length] w by (simp only:)
    then have "length ?cs = length cs" unfolding as by simp
    moreover have "length (active ?cs) = length ?as + 1" using act as by simp
    moreover have "\<forall>c \<in> set (active ?cs). 0 \<le> c_time c"
      using act ok as tsplit_rest [OF s tim] by (cases hi) (auto simp: callo_ok_def)
    ultimately show ?thesis using ok room by (simp add: callo_ok_def)
  qed
  ultimately show ?thesis using call by blast
qed

subsection \<open>\<open>clock\<close> runs what is due\<close>

lemma callo_first_at:
  "\<forall>c \<in> set as. c_time c \<le> 0 \<and> c_func c \<noteq> 0 \<Longrightarrow> 0 < c_time z \<or> c_func z = 0 \<Longrightarrow>
    callo_first (pre @ as @ z # rest) (length pre) = Some (length pre + length as)"
proof (induction as arbitrary: pre)
  case Nil
  then show ?case by (subst callo_first.simps) auto
next
  case (Cons a as)
  have "callo_first ((pre @ [a]) @ as @ z # rest) (length (pre @ [a])) = Some (length (pre @ [a]) + length as)"
    using Cons by (intro Cons.IH) auto
  with Cons.prems show ?case by (subst callo_first.simps) (auto simp: nth_append)
qed

lemma clock_dec_split:
  assumes "\<forall>c \<in> set as. c_time c \<le> 0 \<and> c_func c \<noteq> 0" "0 < c_time z \<or> c_func z = 0"
  shows "clock_dec (as @ z # rest) = Some (as @ z\<lparr>c_time := c_time z - 1\<rparr> # rest)"
  using callo_first_at [OF assms, of "[]" rest] by (simp add: clock_dec_def)

lemma clock_fire_split:
  assumes "\<forall>c \<in> set as. c_time c \<le> 0 \<and> c_func c \<noteq> 0" "0 < c_time z \<or> c_func z = 0"
    and "length pre + length as < NCALL"
  shows "clock_fire (\<lambda>f a (cs, s). Some (cs, g f a s)) (length pre) (pre @ as @ z # rest, s) =
    Some (length pre + length as, pre @ as @ z # rest, fold (\<lambda>(t, f, a). g f a) (due b as) s)"
  using assms
proof (induction as arbitrary: pre b s)
  case Nil
  then show ?case by (subst clock_fire.simps) auto
next
  case (Cons a as)
  have "clock_fire (\<lambda>f a (cs, s). Some (cs, g f a s)) (length (pre @ [a])) ((pre @ [a]) @ as @ z # rest, g (c_func a) (c_arg a) s) =
      Some (length (pre @ [a]) + length as, (pre @ [a]) @ as @ z # rest,
        fold (\<lambda>(t, f, a). g f a) (due (b + c_time a) as) (g (c_func a) (c_arg a) s))"
    using Cons.prems by (intro Cons.IH) auto
  with Cons.prems show ?case by (subst clock_fire.simps) (auto simp: nth_append)
qed

lemma clock_compact_split:
  assumes "\<forall>c \<in> set later. c_func c \<noteq> 0" "c_func z = 0" "gap \<noteq> []"
  shows "\<exists>z' tail. clock_compact (pre @ gap @ later @ z # rest) (length pre + length gap) (length pre) =
      Some (pre @ later @ z' # tail) \<and> c_func z' = 0 \<and> length (later @ z' # tail) = length (gap @ later @ z # rest)"
  using assms
proof (induction later arbitrary: pre gap)
  case Nil
  then obtain h gs where g: "gap = h # gs" by (cases gap) auto
  have "clock_compact (pre @ gap @ z # rest) (length pre + length gap) (length pre) =
      Some (pre @ h\<lparr>c_func := 0\<rparr> # gs @ z # rest)"
    using Nil g by (subst clock_compact.simps) (simp add: nth_append list_update_append)
  then show ?case using g by (intro exI [of _ "h\<lparr>c_func := 0\<rparr>"] exI [of _ "gs @ z # rest"]) auto
next
  case (Cons l later)
  then obtain h gs where g: "gap = h # gs" by (cases gap) auto
  have eq: "h\<lparr>c_func := c_func l, c_time := c_time l, c_arg := c_arg l\<rparr> = l" by simp
  have step: "clock_compact (pre @ gap @ (l # later) @ z # rest) (length pre + length gap) (length pre) =
      clock_compact ((pre @ [l]) @ (gs @ [l]) @ later @ z # rest) (length (pre @ [l]) + length (gs @ [l])) (length (pre @ [l]))"
    using Cons.prems g by (subst clock_compact.simps) (simp add: nth_append list_update_append Let_def eq)
  have "\<exists>z' tail. clock_compact ((pre @ [l]) @ (gs @ [l]) @ later @ z # rest) (length (pre @ [l]) + length (gs @ [l])) (length (pre @ [l])) =
      Some ((pre @ [l]) @ later @ z' # tail) \<and> c_func z' = 0 \<and>
      length (later @ z' # tail) = length ((gs @ [l]) @ later @ z # rest)"
    using Cons.prems by (intro Cons.IH) auto
  then show ?case using step g by auto
qed

lemma due_zero: "\<forall>c \<in> set as. c_time c = 0 \<Longrightarrow> d \<in> set (due b as) \<Longrightarrow> fst d = b"
  by (induction as arbitrary: b) auto

lemma due_pos: "\<forall>c \<in> set as. 0 \<le> c_time c \<Longrightarrow> d \<in> set (due b as) \<Longrightarrow> b \<le> fst d"
proof (induction as arbitrary: b)
  case (Cons a as)
  have "b + c_time a \<le> fst d" if "d \<in> set (due (b + c_time a) as)"
    using Cons.IH [of "b + c_time a"] Cons.prems that by simp
  with Cons.prems show ?case by auto
qed simp

text \<open>Splitting the used part at the first entry that is not due yet.\<close>

lemma due_tick_split:
  assumes z: "\<forall>c \<in> set zs. c_time c = 0" and x: "0 < c_time x" and l: "\<forall>c \<in> set later. 0 \<le> c_time c"
  shows "due_tick (due 0 (zs @ x # later)) = due 0 (zs @ x\<lparr>c_time := c_time x - 1\<rparr> # later)"
proof -
  have sum: "sum_list (map c_time zs) = 0" using z by (induction zs) auto
  have "due_tick (due 0 zs) = due 0 zs"
    unfolding due_tick_def using due_zero [OF z, of _ 0] by (intro map_idI) (auto split: prod.splits, force)
  moreover have "due_tick (due (c_time x) later) = due (c_time x - 1) later"
    unfolding due_tick_def due_shift [of "c_time x - 1"] due_shift [of "c_time x"]
    using due_pos [OF l, of _ 0] x by (auto split: prod.splits) force
  ultimately show ?thesis using x by (simp add: due_append sum due_tick_def)
qed

lemma due_tick_zero: "\<forall>c \<in> set zs. c_time c = 0 \<Longrightarrow> due_tick (due 0 zs) = due 0 zs"
  unfolding due_tick_def using due_zero [of zs _ 0] by (intro map_idI) (auto split: prod.splits, force)

lemma due_takeWhile:
  assumes "\<forall>c \<in> set as. 0 \<le> c_time c"
  shows "takeWhile (\<lambda>d. fst d = 0) (due 0 as) = due 0 (takeWhile (\<lambda>c. c_time c = 0) as)"
    "dropWhile (\<lambda>d. fst d = 0) (due 0 as) = due 0 (dropWhile (\<lambda>c. c_time c = 0) as)"
  using assms by (induction as) auto

lemma clock_run_due:
  assumes cs: "cs = as @ z # rest" "c_func z = 0" "\<forall>c \<in> set as. c_func c \<noteq> 0 \<and> 0 \<le> c_time c"
    and len: "length cs = NCALL" and ne: "as \<noteq> []"
  shows "\<exists>cs'. clock_run (\<lambda>f a (cs, s). Some (cs, g f a s)) (cs, s) =
      Some (cs', fold (\<lambda>(t, f, a). g f a) (takeWhile (\<lambda>d. fst d = 0) (due 0 as)) s) \<and>
    callo_ok cs' \<and> due 0 (active cs') = dropWhile (\<lambda>d. fst d = 0) (due 0 as)"
proof -
  let ?zs = "takeWhile (\<lambda>c. c_time c = 0) as"
  let ?ls = "dropWhile (\<lambda>c. c_time c = 0) as"
  have nn: "\<forall>c \<in> set as. 0 \<le> c_time c" using cs by blast
  note dw = due_takeWhile [OF nn]
  have ls: "\<forall>c \<in> set ?ls. c_func c \<noteq> 0 \<and> 0 \<le> c_time c" using cs(3) by (auto dest: set_dropWhileD)
  obtain y ys where y: "?ls @ z # rest = y # ys" by (cases "?ls @ z # rest") auto
  have csz: "cs = ?zs @ y # ys" using cs(1) y by (metis append.assoc takeWhile_dropWhile_id)
  have y': "0 < c_time y \<or> c_func y = 0"
  proof (cases ?ls)
    case Nil
    with y cs(2) show ?thesis by simp
  next
    case (Cons l ls')
    then have "l \<in> set as" by (metis list.set_intros(1) set_dropWhileD)
    moreover have "c_time l \<noteq> 0" using Cons hd_dropWhile [of "\<lambda>c. c_time c = 0" as] by simp
    ultimately show ?thesis using Cons y nn by (metis append_Cons list.inject order_le_less)
  qed
  show ?thesis
  proof (cases "?zs = []")
    case True
    have "cs ! 0 = as ! 0" "as ! 0 \<in> set as" using cs(1) ne by (auto simp: nth_append)
    moreover have "c_time (as ! 0) \<noteq> 0" using True ne by (cases as) (auto split: if_splits)
    ultimately have "\<not> c_time (cs ! 0) \<le> 0" using nn by force
    moreover have "active cs = as" using cs active_append [of as "z # rest"] by (simp add: active_null)
    moreover from this have "callo_ok cs" using cs len by (auto simp: callo_ok_def)
    moreover have "?ls = as" using True by (metis append_Nil takeWhile_dropWhile_id)
    ultimately show ?thesis using True by (simp add: clock_run_def dw)
  next
    case False
    then obtain h t where h: "?zs = h # t" by (cases ?zs) auto
    then have "c_time h = 0" by (metis list.set_intros(1) set_takeWhileD)
    moreover have "cs ! 0 = h" using csz h by (metis append_Cons nth_Cons_0)
    ultimately have z0: "c_time (cs ! 0) \<le> 0" by simp
    have zs: "\<forall>c \<in> set ?zs. c_time c \<le> 0 \<and> c_func c \<noteq> 0" using cs(3) by (auto dest: set_takeWhileD)
    have lz: "length ?zs < NCALL" using len csz by (metis add_Suc_right length_Cons length_append less_add_Suc1)
    have fire: "clock_fire (\<lambda>f a (cs, s). Some (cs, g f a s)) 0 (cs, s) =
        Some (length ?zs, cs, fold (\<lambda>(t, f, a). g f a) (due 0 ?zs) s)"
      using clock_fire_split [OF zs y', of "[]" g ys s 0] lz csz by simp
    obtain z' tail where c: "clock_compact ([] @ ?zs @ ?ls @ z # rest) (length ([] :: callo list) + length ?zs) (length ([] :: callo list)) =
        Some ([] @ ?ls @ z' # tail)" "c_func z' = 0" "length (?ls @ z' # tail) = length (?zs @ ?ls @ z # rest)"
      using clock_compact_split [of ?ls z ?zs "[]" rest] ls cs(2) False by blast
    have cse: "cs = ?zs @ ?ls @ z # rest" using cs(1) by (metis append.assoc takeWhile_dropWhile_id)
    have run: "clock_run (\<lambda>f a (cs, s). Some (cs, g f a s)) (cs, s) =
        Some (?ls @ z' # tail, fold (\<lambda>(t, f, a). g f a) (due 0 ?zs) s)"
      using z0 fire c(1) cse by (simp add: clock_run_def)
    have act: "active (?ls @ z' # tail) = ?ls" using ls c(2) active_append [of ?ls "z' # tail"] by (simp add: active_null)
    have "length (?ls @ z' # tail) = NCALL" using c(3) cse len by (metis)
    then have "callo_ok (?ls @ z' # tail)" using act ls by (auto simp: callo_ok_def)
    with run act show ?thesis by (simp add: dw)
  qed
qed

lemma clock_due:
  assumes ok: "callo_ok cs" and ds: "ds = due_tick (due 0 (active cs))"
  shows "\<exists>cs'. clock_callouts (\<lambda>f a (cs, s). Some (cs, g f a s)) (cs, s) =
      Some (cs', fold (\<lambda>(t, f, a). g f a) (takeWhile (\<lambda>d. fst d = 0) ds) s) \<and>
    callo_ok cs' \<and> due 0 (active cs') = dropWhile (\<lambda>d. fst d = 0) ds"
proof (cases "active cs = []")
  case True
  have "length (active cs) < length cs" using ok by (simp add: callo_ok_def)
  then obtain z rest where "cs = active cs @ z # rest" "c_func z = 0" by (rule active_split)
  then have "c_func (cs ! 0) = 0" using True by (metis append_Nil nth_Cons_0)
  moreover have "ds = []" using ds True by (simp add: due_tick_def)
  ultimately show ?thesis using ok True by (simp add: clock_callouts_def)
next
  case ne: False
  define as where "as = active cs"
  define zs where "zs = takeWhile (\<lambda>c. c_time c = 0) as"
  have len: "length cs = NCALL" and nn: "\<forall>c \<in> set as. 0 \<le> c_time c"
    using ok by (auto simp: callo_ok_def as_def)
  have "length (active cs) < length cs" using ok by (simp add: callo_ok_def)
  then obtain z rest where z: "cs = as @ z # rest" "c_func z = 0" unfolding as_def by (rule active_split)
  have fn: "\<forall>c \<in> set as. c_func c \<noteq> 0" unfolding as_def using active_func by blast
  have zs0: "\<forall>c \<in> set zs. c_time c = 0" unfolding zs_def by (auto dest: set_takeWhileD)
  have zs1: "\<forall>c \<in> set zs. c_time c \<le> 0 \<and> c_func c \<noteq> 0"
    unfolding zs_def using fn by (auto dest: set_takeWhileD)
  have as: "as \<noteq> []" using ne as_def by simp
  have f0: "c_func (cs ! 0) \<noteq> 0" using z(1) fn as by (cases as) auto
  have go: "clock_callouts f (cs, s) = Option.bind (clock_dec cs) (\<lambda>cs. clock_run f (cs, s))" for f
    using f0 by (simp add: clock_callouts_def clock_run_def)
  have "\<exists>as1 z1 rest1. clock_dec cs = Some (as1 @ z1 # rest1) \<and> c_func z1 = 0 \<and>
      (\<forall>c \<in> set as1. c_func c \<noteq> 0 \<and> 0 \<le> c_time c) \<and> length (as1 @ z1 # rest1) = NCALL \<and> as1 \<noteq> [] \<and>
      due 0 as1 = ds"
  proof (cases "dropWhile (\<lambda>c. c_time c = 0) as")
    case Nil
    then have e: "zs = as" unfolding zs_def by (metis append_Nil2 takeWhile_dropWhile_id)
    with clock_dec_split [OF zs1, of z rest] z
    have "clock_dec cs = Some (as @ z\<lparr>c_time := c_time z - 1\<rparr> # rest)" by simp
    moreover have "due 0 as = ds" using due_tick_zero [of as] zs0 e ds as_def by simp
    ultimately show ?thesis using z fn nn len as
      by (intro exI [of _ as] exI [of _ "z\<lparr>c_time := c_time z - 1\<rparr>"] exI [of _ rest]) auto
  next
    case (Cons x later)
    then have asx: "as = zs @ x # later" unfolding zs_def by (metis takeWhile_dropWhile_id)
    have "c_time x \<noteq> 0" using Cons hd_dropWhile [of "\<lambda>c. c_time c = 0" as] by simp
    with nn asx have x: "0 < c_time x" by force
    let ?as1 = "zs @ x\<lparr>c_time := c_time x - 1\<rparr> # later"
    have "clock_dec cs = Some (?as1 @ z # rest)"
      using clock_dec_split [OF zs1, of x "later @ z # rest"] x z asx by simp
    moreover have "due 0 ?as1 = ds"
      using due_tick_split [OF zs0 x] nn asx ds as_def by simp
    ultimately show ?thesis using z fn nn len asx x
      by (intro exI [of _ ?as1] exI [of _ z] exI [of _ rest]) auto
  qed
  then obtain as1 z1 rest1 where d: "clock_dec cs = Some (as1 @ z1 # rest1)" "c_func z1 = 0"
      "\<forall>c \<in> set as1. c_func c \<noteq> 0 \<and> 0 \<le> c_time c" "length (as1 @ z1 # rest1) = NCALL" "as1 \<noteq> []"
      "due 0 as1 = ds" by blast
  from clock_run_due [OF refl d(2-5), of g s] show ?thesis by (simp add: go d(1,6))
qed

subsection \<open>Properties\<close>

text \<open>C8: \<open>timeout\<close> keeps the callout table sorted by absolute time: as long as the table has room for
  the entry and the null entry after it, the request is inserted behind all requests that are due no
  later, the absolute time of every other request is unchanged, and the routine stays inside the
  array; but the call made when nineteen requests are pending writes past the end of the array.\<close>

theorem timeout_inserts:
  assumes "callo_ok cs" "0 \<le> tim" "fn \<noteq> 0"
  shows "if length (active cs) < 19
    then \<exists>cs'. timeout fn arg tim cs = Some cs' \<and> callo_ok cs' \<and>
      due 0 (active cs') = due_insert (tim, fn, arg) (due 0 (active cs))
    else timeout fn arg tim cs = None"
proof (cases "length (active cs) < 19")
  case True
  with timeout_due [OF assms(1) _ assms(2,3)] show ?thesis by (simp add: NCALL_def)
next
  case False
  with assms(1) have n: "length (active cs) = 19" "length cs = 20" by (auto simp: callo_ok_def NCALL_def)
  then have "length (active cs) < length cs" by simp
  then obtain z rest where z: "cs = active cs @ z # rest" "c_func z = 0" by (rule active_split)
  have "length cs = length (active cs) + Suc (length rest)"
    using arg_cong [OF z(1), of length] by (simp only: length_append list.size add_0_right Nat.add_0_right)
  then have "rest = []" using n by simp
  then have "timeout fn arg tim cs = None"
    using z by (intro timeout_overrun [of cs "active cs" z]) (auto dest: active_func)
  with False show ?thesis by simp
qed

definition ex_callout :: "callo list" where
  "ex_callout = [\<lparr>c_time = 4, c_arg = 1, c_func = 1\<rparr>, \<lparr>c_time = 6, c_arg = 2, c_func = 1\<rparr>] @
     replicate 18 \<lparr>c_time = 0, c_arg = 0, c_func = 0\<rparr>"

lemma ex_callout: "callo_ok ex_callout" "active ex_callout = [\<lparr>c_time = 4, c_arg = 1, c_func = 1\<rparr>, \<lparr>c_time = 6, c_arg = 2, c_func = 1\<rparr>]"
  by (simp_all add: callo_ok_def ex_callout_def active_def NCALL_def numeral_eq_Suc)

theorem timeout_inserts_witness:
  "\<exists>cs'. timeout 1 3 5 ex_callout = Some cs' \<and> callo_ok cs' \<and> due 0 (active cs') = [(4, 1, 1), (5, 1, 3), (10, 1, 2)]"
  using timeout_inserts [OF ex_callout(1), of 5 1 3] by (simp add: ex_callout(2) due_insert_def)

text \<open>C9: a clock tick brings every pending request one tick nearer, calls exactly the requests that
  have become due, in the order of their times, and removes exactly those from the table, whatever
  the called routines do to the rest of the state.\<close>

theorem clock_runs_due:
  assumes "callo_ok cs" "ds = due_tick (due 0 (active cs))"
  shows "\<exists>cs'. clock_callouts (\<lambda>f a (cs, s). Some (cs, g f a s)) (cs, s) =
      Some (cs', fold (\<lambda>(t, f, a). g f a) (takeWhile (\<lambda>d. fst d = 0) ds) s) \<and>
    callo_ok cs' \<and> due 0 (active cs') = dropWhile (\<lambda>d. fst d = 0) ds"
  using assms by (rule clock_due)

definition ex_callout1 :: "callo list" where
  "ex_callout1 = [\<lparr>c_time = 1, c_arg = 1, c_func = 1\<rparr>, \<lparr>c_time = 6, c_arg = 2, c_func = 1\<rparr>] @
     replicate 18 \<lparr>c_time = 0, c_arg = 0, c_func = 0\<rparr>"

theorem clock_runs_due_witness:
  "\<exists>cs'. clock_callouts (\<lambda>f a (cs, s). Some (cs, a # s)) (ex_callout1, []) = Some (cs', [1]) \<and>
     callo_ok cs' \<and> due 0 (active cs') = [(6, 1, 2)]"
proof -
  have a: "callo_ok ex_callout1" "active ex_callout1 = [\<lparr>c_time = 1, c_arg = 1, c_func = 1\<rparr>, \<lparr>c_time = 6, c_arg = 2, c_func = 1\<rparr>]"
    by (simp_all add: callo_ok_def ex_callout1_def active_def NCALL_def numeral_eq_Suc)
  have "due_tick (due 0 (active ex_callout1)) = [(0, 1, 1), (6, 1, 2)]" by (simp add: a due_tick_def)
  from clock_runs_due [OF a(1) this [symmetric], of "\<lambda>f a s. a # s" "[]"] show ?thesis by simp
qed

end
