(* ===== verification/Pc.thy ===== *)
theory Pc
  imports Prelude "HOL-Library.Signed_Division"
begin

text \<open>
  \<open>dmr/pc.c\<close>, the double precision arithmetic: \<open>dpadd\<close>, \<open>dpcmp\<close>, \<open>ldiv\<close>, \<open>lrem\<close> and
  \<open>lshift\<close>.

  File offsets, file sizes and times are pairs of 16 bit words, high word first.  The union
  \<open>unix_int32\<close> overlays such a pair with a 32 bit \<open>long\<close>: \<open>dp\<close> is its view as one 32 bit
  word, and \<open>dp_hi\<close>, \<open>dp_lo\<close> are the views back.  \<open>ldiv\<close> and \<open>lrem\<close> are the truncating
  division of C on \<open>int\<close>; the quotients that C leaves undefined are \<open>None\<close>.
\<close>

type_synonym dword = "u16 \<times> u16"

definition dp :: "dword \<Rightarrow> u32" where
  "dp x = push_bit 16 (ucast (fst x)) + ucast (snd x)"

definition dp_hi :: "u32 \<Rightarrow> u16" where "dp_hi a = ucast (drop_bit 16 a)"

definition dp_lo :: "u32 \<Rightarrow> u16" where "dp_lo a = ucast a"

definition dpadd :: "dword \<Rightarrow> u16 \<Rightarrow> dword" where
  "dpadd x y = (let a = dp x + ucast y in (dp_hi a, dp_lo a))"

definition dpcmp :: "u16 \<Rightarrow> u16 \<Rightarrow> u16 \<Rightarrow> u16 \<Rightarrow> u16" where
  "dpcmp xh xl yh yl =
     (let diff = dp (xh, xl) - dp (yh, yl) in
      if 512 < sint diff then 512
      else if sint diff < -512 then -512
      else ucast diff)"

definition ldiv :: "u16 \<Rightarrow> u16 \<Rightarrow> u16 option" where
  "ldiv x y = (if y = 0 \<or> sint x = -32768 \<and> sint y = -1 then None else Some (word_of_int (sint x sdiv sint y)))"

definition lrem :: "u16 \<Rightarrow> u16 \<Rightarrow> u16 option" where
  "lrem x y = (if y = 0 \<or> sint x = -32768 \<and> sint y = -1 then None else Some (word_of_int (sint x smod sint y)))"

definition lshift :: "dword \<Rightarrow> int \<Rightarrow> u16" where
  "lshift num bits =
     (if 0 \<le> bits then ucast (push_bit (nat bits) (dp num))
      else ucast (signed_drop_bit (nat (- bits)) (dp num)))"

subsection \<open>The value of a pair\<close>

definition dpval :: "dword \<Rightarrow> nat" where
  "dpval x = unat (fst x) * 65536 + unat (snd x)"

lemma dpval_bound: "dpval x < 4294967296"
  using unat16_bound [of "fst x"] unat16_bound [of "snd x"] by (simp add: dpval_def)

lemma unat_dp: "unat (dp x) = dpval x"
proof -
  have hi: "unat (push_bit 16 (ucast (fst x) :: u32)) = unat (fst x) * 65536"
    using unat16_bound [of "fst x"]
    by (simp only: unsigned_push_bit_eq) (simp add: take_bit_eq_mod push_bit_eq_mult)
  have "unat (push_bit 16 (ucast (fst x) :: u32)) + unat (ucast (snd x) :: u32) < 2 ^ LENGTH(32)"
    using dpval_bound [of x] by (simp add: dpval_def hi)
  then have "unat (dp x) = unat (push_bit 16 (ucast (fst x) :: u32)) + unat (ucast (snd x) :: u32)"
    unfolding dp_def by (rule unat_add_lem [THEN iffD1])
  then show ?thesis by (simp add: hi dpval_def)
qed

lemma unat_dp_hi: "unat (dp_hi a) = unat a div 65536"
  using unat32_bound [of a]
  by (simp only: dp_hi_def unat_ucast_32_16 unsigned_drop_bit_eq)
    (simp add: drop_bit_eq_div take_bit_eq_mod less_mult_imp_div_less)

lemma dpval_split: "dpval (dp_hi a, dp_lo a) = unat a"
  by (simp add: dpval_def unat_dp_hi dp_lo_def unat_ucast_32_16)

lemma dpval_div_mod: "dpval x div 65536 = unat (fst x)" "dpval x mod 65536 = unat (snd x)"
  using unat16_bound [of "snd x"] by (simp_all add: dpval_def)

lemma dpval_inject: "dpval x = dpval y \<longleftrightarrow> x = y"
  by (metis dpval_div_mod prod_eq_iff word_unat_eq_iff)

lemma dpadd_val: "dpval (dpadd x y) = (dpval x + unat y) mod 4294967296"
  by (simp add: dpadd_def Let_def dpval_split unat_word_ariths unat_dp)

lemma sint_dp: "dpval x < 2147483648 \<Longrightarrow> sint (dp x) = int (dpval x)"
  using sint_small [of "dp x"] by (simp add: unat_dp)

lemma sint_diff:
  assumes "dpval x < 2147483648" "dpval y < 2147483648"
  shows "sint (dp x - dp y) = int (dpval x) - int (dpval y)"
  using assms by (simp add: sint_word_ariths sint_dp signed_take_bit_int_eq_self)

lemma dpcmp_exact:
  assumes "dpval (xh, xl) < 2147483648" "dpval (yh, yl) < 2147483648"
  shows "sint (dpcmp xh xl yh yl) = max (-512) (min 512 (int (dpval (xh, xl)) - int (dpval (yh, yl))))"
proof -
  let ?d = "dp (xh, xl) - dp (yh, yl)"
  have d: "sint ?d = int (dpval (xh, xl)) - int (dpval (yh, yl))" using assms by (rule sint_diff)
  have mid: "sint (ucast ?d :: u16) = sint ?d" if "- 512 \<le> sint ?d" "sint ?d \<le> 512"
  proof -
    have "sint (ucast ?d :: u16) = signed_take_bit 15 (sint ?d)"
      by (simp add: sint_uint uint_word_of_int_eq unsigned_ucast_eq signed_take_bit_take_bit)
    then show ?thesis using that by (simp add: signed_take_bit_int_eq_self)
  qed
  show ?thesis using mid by (auto simp: dpcmp_def Let_def simp flip: d)
qed


lemma sint16_small: "unat (w :: u16) < 32768 \<Longrightarrow> sint w = int (unat w)"
  using sint_small [of w] by simp

lemma sint16_neg: "(sint (w :: u16) < 0) = (32768 \<le> unat w)"
proof
  assume "32768 \<le> unat w"
  then have "unat w div 32768 = 1" using unat16_bound [of w] by (simp add: div_nat_eqI)
  then have "int (unat w div 32768) = 1" by (simp only: of_nat_1)
  then have "int (unat w) div 32768 = 1" by (simp only: zdiv_int of_nat_numeral)
  then have "signed_take_bit 15 (int (unat w)) < 0" by (simp add: signed_take_bit_negative_iff bit_iff_odd)
  then show "sint w < 0" by (simp add: sint_uint)
next
  assume "sint w < 0"
  then show "32768 \<le> unat w" using sint_small [of w] by (cases "unat w < 32768") auto
qed

lemma sint16_wrap: "32768 \<le> unat (w :: u16) \<Longrightarrow> sint w = int (unat w) - 65536"
proof -
  assume "32768 \<le> unat w"
  then have "unat w div 32768 = 1" using unat16_bound [of w] by (simp add: div_nat_eqI)
  then have "int (unat w div 32768) = 1" by (simp only: of_nat_1)
  then have "int (unat w) div 32768 = 1" by (simp only: zdiv_int of_nat_numeral)
  then have "bit (int (unat w)) 15" by (simp add: bit_iff_odd)
  moreover have "sint w = signed_take_bit 15 (int (unat w))" by (simp add: sint_uint)
  moreover have "take_bit 16 (int (unat w)) = int (unat w)" using unsigned_less [of w, where 'a = int] by (intro take_bit_int_eq_self) simp_all
  ultimately show ?thesis by (simp only: signed_take_bit_eq_take_bit_minus) simp
qed

lemma lshift_block:
  assumes "dpval x < 33554432"
  shows "unat (lshift x (-9)) = dpval x div 512"
proof -
  let ?w = "signed_drop_bit 9 (dp x)"
  have "sint ?w = drop_bit 9 (sint (dp x))" by (simp add: sint_signed_drop_bit_eq)
  then have s: "sint ?w = int (dpval x div 512)"
    using assms by (simp add: sint_dp drop_bit_eq_div zdiv_int)
  have "uint ?w = take_bit 32 (sint ?w)" by (simp add: uint_sint)
  also have "\<dots> = int (dpval x div 512)" using assms by (simp add: s take_bit_int_eq_self)
  finally have u: "unat ?w = dpval x div 512" by (metis nat_int nat_uint_eq)
  have "unat (ucast ?w :: u16) = dpval x div 512" using assms by (simp add: unat_ucast_32_16 u less_mult_imp_div_less)
  then show ?thesis by (simp add: lshift_def)
qed

lemma sdiv_smod_nat: "int a sdiv int b = int (a div b)" "int a smod int b = int (a mod b)"
  by (auto simp: signed_divide_int_def signed_modulo_int_def sgn_if zdiv_int zmod_int)

lemma ldiv_lrem_nonneg:
  assumes "unat x < 32768" "0 < unat y" "unat y < 32768"
  shows "ldiv x y = Some (word_of_nat (unat x div unat y))" "lrem x y = Some (word_of_nat (unat x mod unat y))"
proof -
  have s: "sint x = int (unat x)" "sint y = int (unat y)" "y \<noteq> 0" using assms sint16_small by auto
  have n: "int (unat x) \<noteq> -32768" using of_nat_0_le_iff [of "unat x"] by linarith
  show "ldiv x y = Some (word_of_nat (unat x div unat y))"
    using s(3) n by (simp only: ldiv_def s sdiv_smod_nat of_int_of_nat_eq) simp
  show "lrem x y = Some (word_of_nat (unat x mod unat y))"
    using s(3) n by (simp only: lrem_def s sdiv_smod_nat of_int_of_nat_eq) simp
qed

end
