(* ===== verification/Kernel.thy ===== *)
theory Kernel
  imports Malloc Callout Pc
begin

unbundle bit_operations_syntax

text \<open>
  The state of the process side of the kernel: the process table (\<open>h/proc.h\<close>), the user area of the
  running process (\<open>h/user.h\<close>), the scheduling variables and maps of \<open>h/systm.h\<close>, and physical
  memory, with the routines of \<open>dmr/pc.c\<close> that access them.

  A pointer into a table is its index.  A sleep channel is the address of a kernel object, so
  \<open>ip + 1\<close> for an inode pointer is the address of the next inode, and a channel of zero is
  \<open>NoChan\<close>.  Memory is a function from 20 bit linear addresses to bytes; a user area that is saved
  in memory by \<open>savu\<close> is kept whole, at the linear address of its first byte, in \<open>memu\<close>.  The
  components that have more state extend the record.
\<close>

subsection \<open>Constants\<close>

abbreviation "NPROC \<equiv> (50 :: nat)"
abbreviation "NOFILE \<equiv> (15 :: nat)"
abbreviation "NSIG \<equiv> (20 :: int)"
abbreviation "HZ \<equiv> (60 :: u16)"
abbreviation "PSIZE \<equiv> (18 :: u16)"
abbreviation "DSIZE \<equiv> (16 :: u16)"
abbreviation "USTACK \<equiv> (0xFC00 :: u16)"

abbreviation "PSWP \<equiv> (-100 :: int)"
abbreviation "PINOD \<equiv> (-90 :: int)"
abbreviation "PRIBIO \<equiv> (-50 :: int)"
abbreviation "PPIPE \<equiv> (1 :: int)"
abbreviation "PWAIT \<equiv> (40 :: int)"
abbreviation "PSLEP \<equiv> (90 :: int)"
abbreviation "PUSER \<equiv> (100 :: int)"

text \<open>\<open>p_stat\<close> (0 is a free slot) and \<open>p_flag\<close>; the flags of the headers are octal.\<close>

abbreviation "SSLEEP \<equiv> (1 :: u8)"
abbreviation "SWAIT \<equiv> (2 :: u8)"
abbreviation "SRUN \<equiv> (3 :: u8)"
abbreviation "SIDL \<equiv> (4 :: u8)"
abbreviation "SZOMB \<equiv> (5 :: u8)"
abbreviation "SSTOP \<equiv> (6 :: u8)"

abbreviation "SLOAD \<equiv> (1 :: u8)"
abbreviation "SSYS \<equiv> (2 :: u8)"
abbreviation "SLOCK \<equiv> (4 :: u8)"
abbreviation "SSWAP \<equiv> (8 :: u8)"

abbreviation "SIGQIT \<equiv> (3 :: u8)"
abbreviation "SIGINS \<equiv> (4 :: u8)"
abbreviation "SIGTRC \<equiv> (5 :: u8)"
abbreviation "SIGKIL \<equiv> (9 :: u8)"
abbreviation "SIGPIPE \<equiv> (13 :: u8)"

abbreviation "EPERM \<equiv> (1 :: u8)"
abbreviation "ENOENT \<equiv> (2 :: u8)"
abbreviation "ESRCH \<equiv> (3 :: u8)"
abbreviation "EINTR \<equiv> (4 :: u8)"
abbreviation "EIO \<equiv> (5 :: u8)"
abbreviation "ENXIO \<equiv> (6 :: u8)"
abbreviation "E2BIG \<equiv> (7 :: u8)"
abbreviation "ENOEXEC \<equiv> (8 :: u8)"
abbreviation "EBADF \<equiv> (9 :: u8)"
abbreviation "ECHILD \<equiv> (10 :: u8)"
abbreviation "EAGAIN \<equiv> (11 :: u8)"
abbreviation "ENOMEM \<equiv> (12 :: u8)"
abbreviation "EACCES \<equiv> (13 :: u8)"
abbreviation "ENOTBLK \<equiv> (15 :: u8)"
abbreviation "EBUSY \<equiv> (16 :: u8)"
abbreviation "EEXIST \<equiv> (17 :: u8)"
abbreviation "EXDEV \<equiv> (18 :: u8)"
abbreviation "ENOTDIR \<equiv> (20 :: u8)"
abbreviation "EISDIR \<equiv> (21 :: u8)"
abbreviation "EINVAL \<equiv> (22 :: u8)"
abbreviation "ENFILE \<equiv> (23 :: u8)"
abbreviation "EMFILE \<equiv> (24 :: u8)"
abbreviation "ENOTTY \<equiv> (25 :: u8)"
abbreviation "ETXTBSY \<equiv> (26 :: u8)"
abbreviation "EFBIG \<equiv> (27 :: u8)"
abbreviation "ENOSPC \<equiv> (28 :: u8)"
abbreviation "ESPIPE \<equiv> (29 :: u8)"
abbreviation "EROFS \<equiv> (30 :: u8)"
abbreviation "EMLINK \<equiv> (31 :: u8)"
abbreviation "EPIPE \<equiv> (32 :: u8)"
abbreviation "EFAULT \<equiv> (106 :: u8)"
abbreviation "ENODEV \<equiv> (19 :: u8)"

subsection \<open>Processes and user areas\<close>

datatype chan = NoChan | ChProc nat | ChInode nat | ChBuf nat | ChBfree | ChSwbuf | ChFlock nat | ChIlock nat
  | ChRunin | ChRunout | ChLbolt | ChTout | ChSwapmap | ChExecnt | ChRawq nat | ChOutq nat

record proc =
  p_stat :: u8
  p_flag :: u8
  p_pri :: u8
  p_sig :: u8
  p_uid :: u8
  p_time :: u8
  p_cpu :: u8
  p_nice :: u8
  p_ttyp :: "nat option"
  p_pid :: u16
  p_ppid :: u16
  p_addr :: u16
  p_size :: u16
  p_wchan :: chan

text \<open>
  \<open>u_base\<close> is an address of the user's data segment, or of the kernel when \<open>u_segflg\<close> is set; the
  code points it at the directory entry and the header buffer of the user area only.  The pointer
  fields are indices, with \<open>None\<close> for a null pointer.  Of \<open>u_stack\<close> the two words at the top, which
  hold the user's stack segment and pointer, are kept; the three register save areas are not data of
  the model.
\<close>

datatype iobase = UAddr u16 | KDent nat | KHdr nat

record user =
  u_segflg :: bool
  u_error :: u8
  u_uid :: u8
  u_gid :: u8
  u_ruid :: u8
  u_rgid :: u8
  u_procp :: nat
  u_base :: iobase
  u_count :: u16
  u_offset :: dword
  u_cdir :: nat
  u_dbuf :: "u8 list"
  u_dirp :: u16
  u_dent :: "u8 list"
  u_pdir :: "nat option"
  u_ofile :: "nat \<Rightarrow> nat option"
  u_arg :: "nat \<Rightarrow> u16"
  u_signal :: "int \<Rightarrow> u16"
  u_utime :: u16
  u_stime :: u16
  u_cutime :: dword
  u_cstime :: dword
  u_ar0 :: "nat \<Rightarrow> u16"
  u_intflg :: bool
  u_hdr :: "nat \<Rightarrow> u16"
  u_uss :: u16
  u_usp :: u16

record kproc =
  proc :: "nat \<Rightarrow> proc"
  u :: user
  mpid :: u16
  runin :: u8
  runout :: u8
  runrun :: u8
  curpri :: u8
  lbolt :: u16
  time :: dword
  tout :: dword
  coremap :: "mapent list"
  swapmap :: "mapent list"
  callout :: "callo list"
  swtch_p :: "nat option"
  core_spl :: nat
  kcount :: u16
  ucount :: u16
  mem :: "nat \<Rightarrow> u8"
  memu :: "nat \<Rightarrow> user"

definition upd_proc :: "nat \<Rightarrow> (proc \<Rightarrow> proc) \<Rightarrow> 'a kproc_scheme \<Rightarrow> 'a kproc_scheme" where
  "upd_proc p f k = k\<lparr>proc := (proc k)(p := f (proc k p))\<rparr>"

definition upd_u :: "(user \<Rightarrow> user) \<Rightarrow> 'a kproc_scheme \<Rightarrow> 'a kproc_scheme" where
  "upd_u f k = k\<lparr>u := f (u k)\<rparr>"

abbreviation curproc :: "'a kproc_scheme \<Rightarrow> proc" where
  "curproc k \<equiv> proc k (u_procp (u k))"

definition set_error :: "u8 \<Rightarrow> 'a kproc_scheme \<Rightarrow> 'a kproc_scheme" where
  "set_error e k = upd_u (\<lambda>w. w\<lparr>u_error := e\<rparr>) k"

lemma upd_proc_simps [simp]:
  "proc (upd_proc p f k) = (proc k)(p := f (proc k p))" "u (upd_proc p f k) = u k"
  "mpid (upd_proc p f k) = mpid k" "runin (upd_proc p f k) = runin k" "runout (upd_proc p f k) = runout k"
  "runrun (upd_proc p f k) = runrun k" "curpri (upd_proc p f k) = curpri k" "lbolt (upd_proc p f k) = lbolt k"
  "time (upd_proc p f k) = time k" "tout (upd_proc p f k) = tout k" "coremap (upd_proc p f k) = coremap k"
  "swapmap (upd_proc p f k) = swapmap k" "callout (upd_proc p f k) = callout k"
  "swtch_p (upd_proc p f k) = swtch_p k" "core_spl (upd_proc p f k) = core_spl k"
  "kcount (upd_proc p f k) = kcount k" "ucount (upd_proc p f k) = ucount k" "mem (upd_proc p f k) = mem k" "memu (upd_proc p f k) = memu k" "kproc.more (upd_proc p f k) = kproc.more k"
  by (simp_all add: upd_proc_def)

lemma upd_u_simps [simp]:
  "proc (upd_u f k) = proc k" "u (upd_u f k) = f (u k)"
  "mpid (upd_u f k) = mpid k" "runin (upd_u f k) = runin k" "runout (upd_u f k) = runout k"
  "runrun (upd_u f k) = runrun k" "curpri (upd_u f k) = curpri k" "lbolt (upd_u f k) = lbolt k"
  "time (upd_u f k) = time k" "tout (upd_u f k) = tout k" "coremap (upd_u f k) = coremap k"
  "swapmap (upd_u f k) = swapmap k" "callout (upd_u f k) = callout k"
  "swtch_p (upd_u f k) = swtch_p k" "core_spl (upd_u f k) = core_spl k"
  "kcount (upd_u f k) = kcount k" "ucount (upd_u f k) = ucount k" "mem (upd_u f k) = mem k" "memu (upd_u f k) = memu k" "kproc.more (upd_u f k) = kproc.more k"
  by (simp_all add: upd_u_def)

subsection \<open>Interrupt priority\<close>

text \<open>
  \<open>spl0\<close> enables interrupts and the others disable them; \<open>core_spl\<close> records the level.  \<open>getps\<close>
  reads the processor flags and \<open>setps\<close> restores the interrupt flag, so the pair does not restore
  \<open>core_spl\<close>, which nothing reads.
\<close>

definition spl :: "nat \<Rightarrow> 'a kproc_scheme \<Rightarrow> 'a kproc_scheme" where
  "spl n k = k\<lparr>core_spl := n\<rparr>"

lemma spl_simps [simp]:
  "proc (spl n k) = proc k" "u (spl n k) = u k"
  "mpid (spl n k) = mpid k" "runin (spl n k) = runin k" "runout (spl n k) = runout k"
  "runrun (spl n k) = runrun k" "curpri (spl n k) = curpri k" "lbolt (spl n k) = lbolt k"
  "time (spl n k) = time k" "tout (spl n k) = tout k" "coremap (spl n k) = coremap k"
  "swapmap (spl n k) = swapmap k" "callout (spl n k) = callout k"
  "swtch_p (spl n k) = swtch_p k" "kcount (spl n k) = kcount k" "ucount (spl n k) = ucount k" "mem (spl n k) = mem k" "memu (spl n k) = memu k"
  "kproc.more (spl n k) = kproc.more k"
  by (simp_all add: spl_def)

subsection \<open>Memory\<close>

definition linear :: "u16 \<Rightarrow> u16 \<Rightarrow> nat" where
  "linear seg off = (unat seg * 16 + unat off) mod 1048576"

text \<open>The segment of a page and the address of the user area of the image at that page.\<close>

definition page_seg :: "u16 \<Rightarrow> u16" where "page_seg page = page * 256"

definition uaddr :: "u16 \<Rightarrow> nat" where "uaddr page = linear (page_seg page) USTACK"

definition savu :: "nat \<Rightarrow> 'a kproc_scheme \<Rightarrow> 'a kproc_scheme" where
  "savu p k = k\<lparr>memu := (memu k)(uaddr (p_addr (proc k p)) := u k)\<rparr>"

definition retu :: "nat \<Rightarrow> 'a kproc_scheme \<Rightarrow> 'a kproc_scheme" where
  "retu p k = k\<lparr>u := memu k (uaddr (p_addr (proc k p)))\<rparr>"

definition proc_dseg :: "'a kproc_scheme \<Rightarrow> u16" where
  "proc_dseg k = page_seg (p_addr (curproc k))"

definition fubyte :: "u16 \<Rightarrow> 'a kproc_scheme \<Rightarrow> u8" where
  "fubyte addr k = mem k (linear (proc_dseg k) addr)"

definition subyte :: "u16 \<Rightarrow> u8 \<Rightarrow> 'a kproc_scheme \<Rightarrow> 'a kproc_scheme" where
  "subyte addr ch k = k\<lparr>mem := (mem k)(linear (proc_dseg k) addr := ch)\<rparr>"

definition rdword :: "u16 \<Rightarrow> u16 \<Rightarrow> 'a kproc_scheme \<Rightarrow> u16" where
  "rdword off seg k = ucast (mem k (linear seg off)) OR push_bit 8 (ucast (mem k (linear seg (off + 1))))"

definition wrword :: "u16 \<Rightarrow> u16 \<Rightarrow> u16 \<Rightarrow> 'a kproc_scheme \<Rightarrow> 'a kproc_scheme" where
  "wrword off seg v k =
     k\<lparr>mem := (mem k)(linear seg off := ucast v, linear seg (off + 1) := ucast (drop_bit 8 v))\<rparr>"

definition fuword :: "u16 \<Rightarrow> 'a kproc_scheme \<Rightarrow> u16" where
  "fuword addr k = rdword addr (proc_dseg k) k"

definition suword :: "u16 \<Rightarrow> u16 \<Rightarrow> 'a kproc_scheme \<Rightarrow> 'a kproc_scheme" where
  "suword addr v k = wrword addr (proc_dseg k) v k"

definition copyseg :: "u16 \<Rightarrow> u16 \<Rightarrow> 'a kproc_scheme \<Rightarrow> 'a kproc_scheme" where
  "copyseg src dst k =
     (let from = \<lambda>a. linear (page_seg src) 0 + (a - linear (page_seg dst) 0);
          inside = \<lambda>a. linear (page_seg dst) 0 \<le> a \<and> a < linear (page_seg dst) 0 + 4096
      in k\<lparr>mem := (\<lambda>a. if inside a then mem k (from a) else mem k a),
           memu := (\<lambda>a. if inside a then memu k (from a) else memu k a)\<rparr>)"

definition clearseg :: "u16 \<Rightarrow> 'a kproc_scheme \<Rightarrow> 'a kproc_scheme" where
  "clearseg dst k =
     k\<lparr>mem := (\<lambda>a. if linear (page_seg dst) 0 \<le> a \<and> a < linear (page_seg dst) 0 + 4096 then 0 else mem k a)\<rparr>"

text \<open>\<open>estabur\<close> of \<open>ken/slp.c\<close>: relocates the saved stack segment and segment registers of an image.\<close>

definition estabur :: "u16 \<Rightarrow> 'a kproc_scheme \<Rightarrow> 'a kproc_scheme" where
  "estabur addr k =
     (let ss = page_seg addr;
          k = k\<lparr>memu := (memu k)(uaddr addr := (memu k (uaddr addr))\<lparr>u_uss := ss\<rparr>)\<rparr>;
          sp = u_usp (memu k (uaddr addr));
          k = wrword (sp + 20) ss (ss + DSIZE * 256) k;
          k = wrword sp ss ss k
      in wrword (sp + 2) ss ss k)"

text \<open>\<open>resume\<close> of \<open>ken/slp.c\<close>: the exchange of user areas; control then continues in process \<open>p\<close>.\<close>

definition resume :: "nat \<Rightarrow> 'a kproc_scheme \<Rightarrow> 'a kproc_scheme" where
  "resume p k =
     (if p \<noteq> u_procp (u k)
      then retu p (if p_stat (curproc k) \<noteq> SZOMB then savu (u_procp (u k)) k else k)
      else k)"

text \<open>A user word that was stored is read back.\<close>

lemma byte_join: "ucast (ucast v :: u8) OR push_bit 8 (ucast (ucast (drop_bit 8 v) :: u8)) = (v :: u16)"
  by (rule bit_word_eqI) (auto simp: bit_simps)

lemma linear_suc: "linear seg (off + 1) \<noteq> linear seg off"
proof (cases "unat off = 65535")
  case True
  with mod_neq [of "unat seg * 16" "unat seg * 16 + 65535" 1048576] unat16_succ [of off] show ?thesis
    by (simp only: linear_def) simp
next
  case False
  with mod_neq [of "unat seg * 16 + unat off" "unat seg * 16 + (unat off + 1)" 1048576] unat16_succ [of off]
  show ?thesis by (simp only: linear_def) simp
qed

lemma fuword_suword: "fuword addr (suword addr v k) = v"
proof -
  have "proc_dseg (suword addr v k) = proc_dseg k" by (simp add: suword_def wrword_def proc_dseg_def)
  then show ?thesis
    using linear_suc [of "proc_dseg k" addr] byte_join [of v]
    by (simp add: fuword_def suword_def rdword_def wrword_def)
qed

end
