(* ===== verification/Slp.thy ===== *)
theory Slp
  imports Kernel
begin

unbundle bit_operations_syntax

text \<open>
  \<open>ken/slp.c\<close> and \<open>ken/text.c\<close>: sleeping and waking, priorities, the choice of the next process,
  the swapping process and the creation of a process.

  \<open>setrun\<close> and \<open>wakeup\<close> call each other in the code; the inner call happens only after \<open>runout\<close>
  was cleared, so it cannot nest again, and the model unfolds it once (\<open>wakeup_runout\<close> is
  \<open>wakeup\<close> with \<open>runout\<close> clear, see \<open>wakeup_nested\<close>).  Idling is a parameter: \<open>intr\<close> is what the
  interrupts that arrive while the processor is halted do to the state.  The transfer of an image to
  or from the swap device is a parameter too, \<open>swp blkno coreaddr count rdflg\<close>, with the error
  indication as its result.
\<close>

subsection \<open>Waking up\<close>

definition setrun_local :: "nat \<Rightarrow> 'a kproc_scheme \<Rightarrow> 'a kproc_scheme" where
  "setrun_local p k =
     (let k = upd_proc p (\<lambda>r. r\<lparr>p_wchan := NoChan, p_stat := SRUN\<rparr>) k in
      if sint (p_pri (proc k p)) < sint (curpri k) then k\<lparr>runrun := runrun k + 1\<rparr> else k)"

definition wakeup_runout :: "'a kproc_scheme \<Rightarrow> 'a kproc_scheme" where
  "wakeup_runout k = fold (\<lambda>p k. if p_wchan (proc k p) = ChRunout then setrun_local p k else k) [0..<NPROC] k"

definition setrun :: "nat \<Rightarrow> 'a kproc_scheme \<Rightarrow> 'a kproc_scheme" where
  "setrun p k =
     (let k = setrun_local p k in
      if runout k \<noteq> 0 \<and> \<not> flag (p_flag (proc k p)) SLOAD then wakeup_runout (k\<lparr>runout := 0\<rparr>) else k)"

definition wakeup_step :: "chan \<Rightarrow> nat \<Rightarrow> 'a kproc_scheme \<Rightarrow> 'a kproc_scheme" where
  "wakeup_step c p k = (if p_wchan (proc k p) = c then setrun p k else k)"

definition wakeup :: "chan \<Rightarrow> 'a kproc_scheme \<Rightarrow> 'a kproc_scheme" where
  "wakeup c k = fold (wakeup_step c) [0..<NPROC] k"

definition setpri :: "nat \<Rightarrow> 'a kproc_scheme \<Rightarrow> 'a kproc_scheme" where
  "setpri p k =
     (let n = int (unat (p_cpu (proc k p))) div 16 + (PUSER + sint (p_nice (proc k p)));
          n = (if 127 < n then 127 else n);
          k = (if n < sint (curpri k) then k\<lparr>runrun := runrun k + 1\<rparr> else k)
      in upd_proc p (\<lambda>r. r\<lparr>p_pri := word_of_int n\<rparr>) k)"

text \<open>\<open>if(runin != 0) { runin = 0; wakeup(&runin); }\<close> of \<open>sleep\<close> and \<open>clock\<close>, and the same for \<open>runout\<close>.\<close>

definition kick_runin :: "'a kproc_scheme \<Rightarrow> 'a kproc_scheme" where
  "kick_runin k = (if runin k \<noteq> 0 then wakeup ChRunin (k\<lparr>runin := 0\<rparr>) else k)"

definition kick_runout :: "'a kproc_scheme \<Rightarrow> 'a kproc_scheme" where
  "kick_runout k = (if runout k \<noteq> 0 then wakeup ChRunout (k\<lparr>runout := 0\<rparr>) else k)"

subsection \<open>Signals pending for the running process\<close>

text \<open>\<open>issig\<close> of \<open>ken/sig.c\<close>; \<open>n\<close> is the signed value of the \<open>char\<close> \<open>p_sig\<close>.\<close>

definition issig :: "'a kproc_scheme \<Rightarrow> int" where
  "issig k = (let n = sint (p_sig (curproc k)) in if n \<noteq> 0 \<and> u_signal (u k) n \<noteq> 1 then n else 0)"

subsection \<open>Giving up the processor\<close>

text \<open>
  The search of \<open>swtch\<close>: \<open>i\<close> slots are still to be looked at after \<open>rp\<close>, \<open>p\<close> is the best
  process so far and \<open>n\<close> its priority.
\<close>

fun swtch_scan :: "'a kproc_scheme \<Rightarrow> nat \<Rightarrow> nat \<Rightarrow> nat option \<Rightarrow> int \<Rightarrow> nat option \<times> int" where
  "swtch_scan k 0 rp p n = (p, n)"
| "swtch_scan k (Suc i) rp p n =
     (let rp = (if rp + 1 \<ge> NPROC then 0 else rp + 1);
          q = proc k rp in
      if p_stat q = SRUN \<and> flag (p_flag q) SLOAD \<and> sint (p_pri q) < n
      then swtch_scan k i rp (Some rp) (sint (p_pri q))
      else swtch_scan k i rp p n)"

text \<open>One turn of the loop in \<open>swtch\<close>: the process to run and whether it resumes at \<open>u_ssav\<close>, or
  nothing to run.\<close>

definition swtch_pick :: "'a kproc_scheme \<Rightarrow> (nat \<times> bool) option \<times> 'a kproc_scheme" where
  "swtch_pick k =
     (let rp = (case swtch_p k of None \<Rightarrow> 0 | Some p \<Rightarrow> p);
          k = k\<lparr>runrun := 0\<rparr>
      in case swtch_scan k NPROC rp None 128 of
           (None, n) \<Rightarrow> (None, k\<lparr>swtch_p := Some rp\<rparr>)
         | (Some p, n) \<Rightarrow>
             let k = k\<lparr>swtch_p := Some p, curpri := word_of_int n\<rparr>;
                 ssav = flag (p_flag (proc k p)) SSWAP
             in (Some (p, ssav), upd_proc p (\<lambda>r. r\<lparr>p_flag := clrf (p_flag r) SSWAP\<rparr>) k))"

partial_function (option) swtch_loop ::
  "('a kproc_scheme \<Rightarrow> 'a kproc_scheme) \<Rightarrow> 'a kproc_scheme \<Rightarrow> (bool \<times> 'a kproc_scheme) option" where
  "swtch_loop intr k =
     (case swtch_pick k of
        (None, k) \<Rightarrow> swtch_loop intr (intr k)
      | (Some (p, ssav), k) \<Rightarrow> Some (ssav, resume p k))"

text \<open>
  \<open>swtch\<close>: the running process passes control to process 0, whose loop chooses the process that
  continues; the result is the state in which that process, now \<open>u_procp\<close>, continues.
\<close>

definition swtch :: "('a kproc_scheme \<Rightarrow> 'a kproc_scheme) \<Rightarrow> 'a kproc_scheme \<Rightarrow> (bool \<times> 'a kproc_scheme) option" where
  "swtch intr k = swtch_loop intr (if u_procp (u k) \<noteq> 0 then resume 0 k else k)"

text \<open>
  What \<open>sleep\<close> does before \<open>swtch\<close>: \<open>None\<close> when a signal is pending and the process leaves by the
  label \<open>u_qsav\<close> instead.
\<close>

definition sleep_enter :: "chan \<Rightarrow> int \<Rightarrow> 'a kproc_scheme \<Rightarrow> 'a kproc_scheme option" where
  "sleep_enter c pri k =
     (let rp = u_procp (u k) in
      if 0 \<le> pri then
        if issig k \<noteq> 0 then None
        else Some (kick_runin (spl 0 (upd_proc rp (\<lambda>r. r\<lparr>p_wchan := c, p_stat := SWAIT, p_pri := word_of_int pri\<rparr>) (spl 6 k))))
      else Some (spl 0 (upd_proc rp (\<lambda>r. r\<lparr>p_wchan := c, p_stat := SSLEEP, p_pri := word_of_int pri\<rparr>) (spl 6 k))))"

datatype 'k woken = Woken 'k | Qsav 'k

text \<open>
  \<open>sleep\<close> as the sleeping process sees it: \<open>away\<close> is what the system does from \<open>swtch\<close> until this
  process is chosen again (\<open>None\<close> if that never happens).  The process continues, or leaves by the
  label \<open>u_qsav\<close> because of a signal.
\<close>

definition sleep :: "('a kproc_scheme \<Rightarrow> 'a kproc_scheme option) \<Rightarrow> chan \<Rightarrow> int \<Rightarrow> 'a kproc_scheme \<Rightarrow> 'a kproc_scheme woken option" where
  "sleep away c pri k =
     (case sleep_enter c pri k of
        None \<Rightarrow> Some (Qsav k)
      | Some k \<Rightarrow> do { k \<leftarrow> away k; Some (if 0 \<le> pri \<and> issig k \<noteq> 0 then Qsav k else Woken k) })"

text \<open>A sleep at a priority below zero, which no signal disturbs.\<close>

definition sleep_neg :: "('a kproc_scheme \<Rightarrow> 'a kproc_scheme option) \<Rightarrow> chan \<Rightarrow> int \<Rightarrow> 'a kproc_scheme \<Rightarrow> 'a kproc_scheme option" where
  "sleep_neg away c pri k = do {
     w \<leftarrow> sleep away c pri k;
     case w of Woken k \<Rightarrow> Some k | Qsav k \<Rightarrow> None }"

subsection \<open>Swapping\<close>

text \<open>\<open>xswap\<close> of \<open>ken/text.c\<close> for a process without a shared text (no code sets \<open>p_textp\<close>): \<open>None\<close>
  is the panic on a swap error.\<close>

type_synonym 'k swapio = "u16 \<Rightarrow> u16 \<Rightarrow> u16 \<Rightarrow> bool \<Rightarrow> 'k \<Rightarrow> (bool \<times> 'k) option"

definition xswap :: "'a kproc_scheme swapio \<Rightarrow> nat \<Rightarrow> bool \<Rightarrow> u16 \<Rightarrow> 'a kproc_scheme \<Rightarrow> 'a kproc_scheme option" where
  "xswap swp p ff a k = do {
     let os = p_size (proc k p);
     let k = upd_proc p (\<lambda>r. r\<lparr>p_flag := setf (p_flag r) SLOCK\<rparr>) k;
     (err, k) \<leftarrow> swp a (p_addr (proc k p)) os False k;
     if err then None else do {
       k \<leftarrow> (if ff then do { m \<leftarrow> mfree (coremap k) os (p_addr (proc k p)); Some (k\<lparr>coremap := m\<rparr>) } else Some k);
       Some (kick_runout (upd_proc p (\<lambda>r. r\<lparr>p_addr := a, p_flag := clrf (p_flag r) (SLOAD OR SLOCK), p_time := 0\<rparr>) k)) } }"

text \<open>The searches of \<open>sched\<close>: the runnable process that has been out longest, an easy victim, and
  the process that has been in core longest; a later process must have a larger time.\<close>

definition oldest :: "'a kproc_scheme \<Rightarrow> (proc \<Rightarrow> bool) \<Rightarrow> nat \<times> int" where
  "oldest k P = fold (\<lambda>p (p1, n). if P (proc k p) \<and> sint (p_time (proc k p)) > n then (p, sint (p_time (proc k p))) else (p1, n))
     [0..<NPROC] (0, -1)"

definition wants_in :: "proc \<Rightarrow> bool" where
  "wants_in r \<longleftrightarrow> p_stat r = SRUN \<and> \<not> flag (p_flag r) SLOAD"

definition movable :: "proc \<Rightarrow> bool" where
  "movable r \<longleftrightarrow> p_flag r AND (SSYS OR SLOCK OR SLOAD) = SLOAD"

definition easy :: "proc \<Rightarrow> bool" where
  "easy r \<longleftrightarrow> movable r \<and> (p_stat r = SWAIT \<or> p_stat r = SSTOP)"

definition hard :: "proc \<Rightarrow> bool" where
  "hard r \<longleftrightarrow> movable r \<and> (p_stat r = SRUN \<or> p_stat r = SSLEEP)"

definition first_proc :: "'a kproc_scheme \<Rightarrow> (proc \<Rightarrow> bool) \<Rightarrow> nat option" where
  "first_proc k P = find (\<lambda>p. P (proc k p)) [0..<NPROC]"

datatype sched_next = Again | SleepRunin | SleepRunout

definition swap_out :: "'a kproc_scheme swapio \<Rightarrow> nat \<Rightarrow> 'a kproc_scheme \<Rightarrow> (sched_next \<times> 'a kproc_scheme) option" where
  "swap_out swp p k = do {
     (a, m) \<leftarrow> malloc (swapmap k) (p_size (proc k p) * 8);
     let k = k\<lparr>swapmap := m\<rparr>;
     if a = 0 then Some (SleepRunin, k\<lparr>runin := runin k + 1\<rparr>)
     else do {
       let k = upd_proc p (\<lambda>r. r\<lparr>p_flag := clrf (p_flag r) SLOAD\<rparr>) (spl 0 k);
       k \<leftarrow> xswap swp p True a k;
       Some (Again, k) } }"

definition swap_in :: "'a kproc_scheme swapio \<Rightarrow> nat \<Rightarrow> u16 \<Rightarrow> 'a kproc_scheme \<Rightarrow> (sched_next \<times> 'a kproc_scheme) option" where
  "swap_in swp p a k = do {
     (err, k) \<leftarrow> swp (p_addr (proc k p)) a (p_size (proc k p)) True k;
     if err then None else do {
       m \<leftarrow> mfree (swapmap k) (p_size (proc k p) * 8) (p_addr (proc k p));
       let k = wakeup ChSwapmap (k\<lparr>swapmap := m\<rparr>);
       let k = upd_proc p (\<lambda>r. r\<lparr>p_addr := a, p_flag := setf (p_flag r) SLOAD, p_time := 0\<rparr>) k;
       Some (Again, estabur (p_addr (proc k p)) k) } }"

text \<open>
  One turn of \<open>sched\<close>, from the label \<open>loop\<close> to the next jump back to it: it swaps one process in or
  out (\<open>Again\<close>) or must sleep on \<open>runin\<close> or \<open>runout\<close>.
\<close>

definition sched_turn :: "'a kproc_scheme swapio \<Rightarrow> 'a kproc_scheme \<Rightarrow> (sched_next \<times> 'a kproc_scheme) option" where
  "sched_turn swp k =
     (let k = spl 6 k in
      case oldest k wants_in of (p1, n) \<Rightarrow>
      if n = -1 then Some (SleepRunout, k\<lparr>runout := runout k + 1\<rparr>)
      else do {
        let k = spl 0 k;
        (a, m) \<leftarrow> malloc (coremap k) (p_size (proc k p1));
        let k = k\<lparr>coremap := m\<rparr>;
        if a \<noteq> 0 then swap_in swp p1 a k
        else do {
          let k = spl 6 k;
          case first_proc k easy of
            Some p \<Rightarrow> swap_out swp p k
          | None \<Rightarrow>
              if n < 3 then Some (SleepRunin, k\<lparr>runin := runin k + 1\<rparr>)
              else (case oldest k hard of (p1, n) \<Rightarrow>
                if n < 2 then Some (SleepRunin, k\<lparr>runin := runin k + 1\<rparr>) else swap_out swp p1 k) } })"

subsection \<open>Waking up: what changes\<close>

abbreviation awake :: "proc \<Rightarrow> proc" where
  "awake r \<equiv> r\<lparr>p_wchan := NoChan, p_stat := SRUN\<rparr>"

text \<open>The only fields that waking up touches.\<close>

definition same_but_procs :: "'a kproc_scheme \<Rightarrow> 'a kproc_scheme \<Rightarrow> bool" where
  "same_but_procs k k' \<longleftrightarrow> (\<exists>P r ro. k' = k\<lparr>proc := P, runrun := r, runout := ro\<rparr>)"

lemma same_refl [simp]: "same_but_procs k k"
  unfolding same_but_procs_def by (metis kproc.surjective kproc.update_convs(1,5,6))

lemma same_trans [trans]: "same_but_procs k k' \<Longrightarrow> same_but_procs k' k'' \<Longrightarrow> same_but_procs k k''"
  unfolding same_but_procs_def by (elim exE) (simp, metis)

lemma same_fields:
  assumes "same_but_procs k k'"
  shows "u k' = u k" "mpid k' = mpid k" "runin k' = runin k" "curpri k' = curpri k" "lbolt k' = lbolt k"
    "time k' = time k" "tout k' = tout k" "coremap k' = coremap k" "swapmap k' = swapmap k"
    "callout k' = callout k" "swtch_p k' = swtch_p k" "core_spl k' = core_spl k" "kcount k' = kcount k" "ucount k' = ucount k" "mem k' = mem k"
    "memu k' = memu k" "kproc.more k' = kproc.more k"
  using assms by (auto simp: same_but_procs_def)

lemma setrun_local_simps [simp]:
  "proc (setrun_local p k) = (proc k)(p := awake (proc k p))" "runout (setrun_local p k) = runout k"
  "curpri (setrun_local p k) = curpri k"
  by (auto simp: setrun_local_def Let_def)

lemma setrun_local_same: "same_but_procs k (setrun_local p k)"
proof -
  have "setrun_local p k = k\<lparr>proc := proc (setrun_local p k), runrun := runrun (setrun_local p k), runout := runout k\<rparr>"
    by (simp add: setrun_local_def Let_def upd_proc_def)
  then show ?thesis unfolding same_but_procs_def by blast
qed

lemma fold_wake_runout:
  fixes c :: chan and k :: "'a kproc_scheme"
  assumes "distinct ps"
  defines "f \<equiv> \<lambda>p k. if p_wchan (proc k p) = c then setrun_local p k else k"
  shows "proc (fold f ps k) q = (if q \<in> set ps \<and> p_wchan (proc k q) = c then awake (proc k q) else proc k q)"
    "runout (fold f ps k) = runout k" "same_but_procs k (fold f ps k)"
proof -
  show "proc (fold f ps k) q = (if q \<in> set ps \<and> p_wchan (proc k q) = c then awake (proc k q) else proc k q)"
    using assms(1)
  proof (induction ps arbitrary: k)
    case (Cons p ps)
    then show ?case by (auto simp: f_def)
  qed simp
  show "runout (fold f ps k) = runout k" by (induction ps arbitrary: k) (auto simp: f_def)
  show "same_but_procs k (fold f ps k)"
  proof (induction ps arbitrary: k)
    case (Cons p ps)
    have "same_but_procs k (f p k)" by (simp add: f_def setrun_local_same)
    with Cons [of "f p k"] show ?case by (simp add: same_trans)
  qed simp
qed

lemma wakeup_runout_simps:
  "proc (wakeup_runout k) q = (if q < NPROC \<and> p_wchan (proc k q) = ChRunout then awake (proc k q) else proc k q)"
  "runout (wakeup_runout k) = runout k" "same_but_procs k (wakeup_runout k)"
  unfolding wakeup_runout_def 
  using fold_wake_runout [where ps = "[0..<NPROC]" and c = ChRunout and k = k]
  by (simp_all only: set_upt atLeastLessThan_iff le0 simp_thms distinct_upt)

lemma runout_same: "same_but_procs k (k\<lparr>runout := 0\<rparr>)"
  unfolding same_but_procs_def by (intro exI [of _ "proc k"] exI [of _ "runrun k"] exI [of _ 0]) simp

lemma setrun_simps:
  "proc (setrun p k) q =
     (if q = p \<or> (runout k \<noteq> 0 \<and> \<not> flag (p_flag (proc k p)) SLOAD \<and> q < NPROC \<and> p_wchan (proc k q) = ChRunout)
      then awake (proc k q) else proc k q)"
  "runout (setrun p k) = (if flag (p_flag (proc k p)) SLOAD then runout k else 0)"
  "same_but_procs k (setrun p k)"
proof -
  show "proc (setrun p k) q =
     (if q = p \<or> (runout k \<noteq> 0 \<and> \<not> flag (p_flag (proc k p)) SLOAD \<and> q < NPROC \<and> p_wchan (proc k q) = ChRunout)
      then awake (proc k q) else proc k q)"
    by (simp add: setrun_def Let_def wakeup_runout_simps)
  show "runout (setrun p k) = (if flag (p_flag (proc k p)) SLOAD then runout k else 0)"
    by (simp add: setrun_def Let_def wakeup_runout_simps)
  show "same_but_procs k (setrun p k)"
    using setrun_local_same [of k p] wakeup_runout_simps(3) [of "(setrun_local p k)\<lparr>runout := 0\<rparr>"]
      runout_same [of "setrun_local p k"]
    by (auto simp: setrun_def Let_def intro: same_trans)
qed

text \<open>Which processes a \<open>wakeup\<close> on \<open>c\<close> makes runnable: those that sleep on \<open>c\<close>, and the swapping
  process, sleeping on \<open>runout\<close>, if one of them is swapped out and \<open>runout\<close> is set.\<close>

definition woken_out :: "chan \<Rightarrow> nat set \<Rightarrow> 'a kproc_scheme \<Rightarrow> bool" where
  "woken_out c P k \<longleftrightarrow> runout k \<noteq> 0 \<and> (\<exists>p \<in> P. p_wchan (proc k p) = c \<and> \<not> flag (p_flag (proc k p)) SLOAD)"

lemma fold_wakeup:
  assumes "c \<noteq> NoChan"
  shows "proc (fold (wakeup_step c) ps k) q =
      (if (q \<in> set ps \<and> p_wchan (proc k q) = c) \<or> (woken_out c (set ps) k \<and> q < NPROC \<and> p_wchan (proc k q) = ChRunout)
       then awake (proc k q) else proc k q)
    \<and> runout (fold (wakeup_step c) ps k) = (if woken_out c (set ps) k then 0 else runout k)
    \<and> same_but_procs k (fold (wakeup_step c) ps k)"
proof (induction ps arbitrary: k)
  case (Cons p ps)
  let ?k = "wakeup_step c p k"
  have same: "same_but_procs k ?k" by (simp add: wakeup_step_def setrun_simps)
  show ?case
  proof (cases "p_wchan (proc k p) = c")
    case False
    then have "?k = k" by (simp add: wakeup_step_def)
    with Cons [of k] False show ?thesis by (auto simp: woken_out_def)
  next
    case True
    then have k: "?k = setrun p k" by (simp add: wakeup_step_def)
    note IH = Cons [of "setrun p k"]
    have same': "same_but_procs k (fold (wakeup_step c) (p # ps) k)" using IH same k by (auto intro: same_trans)
    show ?thesis
    proof (cases "runout k \<noteq> 0 \<and> \<not> flag (p_flag (proc k p)) SLOAD")
      case out: True
      then have "woken_out c (set (p # ps)) k" "\<not> woken_out c (set ps) (setrun p k)"
        using True by (auto simp: woken_out_def setrun_simps)
      then show ?thesis using IH same' k True out assms by (simp add: setrun_simps)
    next
      case out: False
      then have ro: "runout (setrun p k) = runout k" by (auto simp: setrun_simps)
      have pr: "proc (setrun p k) r = (if r = p then awake (proc k r) else proc k r)" for r
        using out by (auto simp: setrun_simps)
      have "woken_out c (set (p # ps)) k = woken_out c (set ps) (setrun p k)"
        using out assms True by (auto simp: woken_out_def ro pr)
      then show ?thesis using IH same' k True out assms by (cases "q = p") (auto simp: ro pr)
    qed
  qed
qed (simp add: woken_out_def)

lemma wakeup_proc:
  assumes "c \<noteq> NoChan"
  shows "proc (wakeup c k) q =
    (if q < NPROC \<and> (p_wchan (proc k q) = c \<or> (woken_out c {..<NPROC} k \<and> p_wchan (proc k q) = ChRunout))
     then awake (proc k q) else proc k q)"
    "runout (wakeup c k) = (if woken_out c {..<NPROC} k then 0 else runout k)"
    "same_but_procs k (wakeup c k)"
  using fold_wakeup [OF assms, of "[0..<NPROC]" k q] unfolding wakeup_def set_upt atLeast0LessThan
  by (simp_all only: lessThan_iff conj_disj_distribL conj_ac)

lemmas wakeup_fields [simp] = same_fields [OF wakeup_proc(3)]

text \<open>The inner call of \<open>wakeup\<close> in \<open>setrun\<close> is the one that the model unfolds.\<close>

lemma wakeup_nested:
  assumes "runout k = 0"
  shows "wakeup ChRunout k = wakeup_runout k"
proof -
  have "fold (wakeup_step ChRunout) ps k = fold (\<lambda>p k. if p_wchan (proc k p) = ChRunout then setrun_local p k else k) ps k"
    if "runout k = 0" for ps and k :: "'a kproc_scheme"
    using that
  proof (induction ps arbitrary: k)
    case (Cons p ps)
    have "setrun p k = setrun_local p k" using Cons.prems by (simp add: setrun_def Let_def)
    with Cons show ?case by (simp add: wakeup_step_def)
  qed simp
  then show ?thesis using assms by (simp add: wakeup_def wakeup_runout_def)
qed

subsection \<open>The choice of the next process\<close>

definition runnable :: "'a kproc_scheme \<Rightarrow> nat \<Rightarrow> bool" where
  "runnable k p \<longleftrightarrow> p_stat (proc k p) = SRUN \<and> flag (p_flag (proc k p)) SLOAD"

definition pri :: "'a kproc_scheme \<Rightarrow> nat \<Rightarrow> int" where
  "pri k p = sint (p_pri (proc k p))"

text \<open>The slots in the order in which \<open>swtch\<close> looks at them, beginning after the process that ran last.\<close>

definition round_robin :: "nat \<Rightarrow> nat list" where
  "round_robin rp = map (\<lambda>j. (rp + 1 + j) mod NPROC) [0..<NPROC]"

lemma arg_min_list_swap:
  "arg_min_list f (a # b # ys) = (if f b < f a then arg_min_list f (b # ys) else arg_min_list f (a # ys))"
  for f :: "'b \<Rightarrow> 'c::linorder"
proof (cases ys)
  case (Cons c cs)
  then have "arg_min_list f (x # ys) = (if f x \<le> f (arg_min_list f ys) then x else arg_min_list f ys)" for x
    by (simp add: Let_def)
  then show ?thesis by (auto simp: Let_def)
qed (auto simp: Let_def)

lemma fold_first_min:
  fixes f :: "nat \<Rightarrow> int"
  shows "fold (\<lambda>r (p, n). if P r \<and> f r < n then (Some r, f r) else (p, n)) xs (Some q, f q) =
     (let m = arg_min_list f (q # filter P xs) in (Some m, f m))"
proof (induction xs arbitrary: q)
  case (Cons x xs)
  show ?case
  proof (cases "P x")
    case True
    then show ?thesis using Cons [of x] Cons [of q] arg_min_list_swap [of f q x "filter P xs"] by simp
  next
    case False
    then show ?thesis using Cons [of q] by simp
  qed
qed simp

lemma fold_first_min_None:
  fixes f :: "nat \<Rightarrow> int"
  assumes "\<forall>r. f r < N"
  shows "fold (\<lambda>r (p, n). if P r \<and> f r < n then (Some r, f r) else (p, n)) xs (None, N) =
     (case filter P xs of [] \<Rightarrow> (None, N) | q # qs \<Rightarrow> (let m = arg_min_list f (q # qs) in (Some m, f m)))"
proof (induction xs)
  case (Cons x xs)
  show ?case
  proof (cases "P x")
    case True
    with fold_first_min [of P f xs x] assms show ?thesis by simp
  next
    case False
    with Cons show ?thesis by simp
  qed
qed simp

lemma swtch_scan_fold:
  "rp < NPROC \<Longrightarrow> swtch_scan k i rp p n =
    fold (\<lambda>r (p, n). if runnable k r \<and> pri k r < n then (Some r, pri k r) else (p, n))
      (map (\<lambda>j. (rp + 1 + j) mod NPROC) [0..<i]) (p, n)"
proof (induction i arbitrary: rp p n)
  case (Suc i)
  let ?rp = "if rp + 1 \<ge> NPROC then 0 else rp + 1"
  have rp: "?rp = (rp + 1) mod NPROC" "?rp < NPROC"
    using Suc.prems by (cases "rp = 49") auto
  have "map (\<lambda>j. (rp + 1 + j) mod NPROC) [0..<Suc i] = ?rp # map (\<lambda>j. (?rp + 1 + j) mod NPROC) [0..<i]"
  proof -
    have eq: "((rp + 1) mod NPROC + 1 + j) mod NPROC = (rp + 1 + Suc j) mod NPROC" for j
      using mod_add_left_eq [of "rp + 1" NPROC "1 + j"] by (simp only: ac_simps plus_1_eq_Suc add_Suc_right add_Suc_shift)
    have "map (\<lambda>j. (rp + 1 + j) mod NPROC) [0..<Suc i] =
        ((rp + 1 + 0) mod NPROC) # map (\<lambda>j. (rp + 1 + Suc j) mod NPROC) [0..<i]"
      by (subst upt_conv_Cons) (auto simp: map_Suc_upt [symmetric] simp del: upt_Suc)
    also have "\<dots> = ?rp # map (\<lambda>j. (?rp + 1 + j) mod NPROC) [0..<i]"
      unfolding rp(1) by (simp only: eq add_0_right)
    finally show ?thesis .
  qed
  with Suc.IH [OF rp(2)] show ?case
    by (simp add: Let_def runnable_def pri_def del: upt_Suc)
qed simp

lemma pri_bound: "pri k p < 128"
  using sint_lt [of "p_pri (proc k p)"] by (simp add: pri_def)

text \<open>The process \<open>swtch\<close> should run: the first of the best ones after the process that ran last.\<close>

definition next_proc :: "'a kproc_scheme \<Rightarrow> nat option" where
  "next_proc k =
     (case filter (runnable k) (round_robin (case swtch_p k of None \<Rightarrow> 0 | Some p \<Rightarrow> p)) of
        [] \<Rightarrow> None
      | q # qs \<Rightarrow> Some (arg_min_list (pri k) (q # qs)))"

definition swtch_p_ok :: "'a kproc_scheme \<Rightarrow> bool" where
  "swtch_p_ok k \<longleftrightarrow> (case swtch_p k of None \<Rightarrow> True | Some p \<Rightarrow> p < NPROC)"

lemma swtch_pick_next:
  assumes "swtch_p_ok k"
  shows "map_option fst (fst (swtch_pick k)) = next_proc k"
    "next_proc k = Some p \<Longrightarrow> snd (swtch_pick k) =
       upd_proc p (\<lambda>r. r\<lparr>p_flag := clrf (p_flag r) SSWAP\<rparr>) (k\<lparr>runrun := 0, swtch_p := Some p, curpri := p_pri (proc k p)\<rparr>)"
proof -
  let ?rp = "case swtch_p k of None \<Rightarrow> 0 | Some p \<Rightarrow> p"
  have rp: "?rp < NPROC" using assms by (auto simp: swtch_p_ok_def split: option.splits)
  have r: "runnable (k\<lparr>runrun := 0\<rparr>) = runnable k" "pri (k\<lparr>runrun := 0\<rparr>) = pri k"
    by (auto simp: runnable_def pri_def fun_eq_iff)
  have scan: "swtch_scan (k\<lparr>runrun := 0\<rparr>) NPROC ?rp None 128 =
      (case filter (runnable k) (round_robin ?rp) of [] \<Rightarrow> (None, 128)
       | q # qs \<Rightarrow> (let m = arg_min_list (pri k) (q # qs) in (Some m, pri k m)))"
    unfolding swtch_scan_fold [OF rp] r round_robin_def [symmetric]
    by (rule fold_first_min_None) (simp add: pri_bound)
  show "map_option fst (fst (swtch_pick k)) = next_proc k"
    unfolding swtch_pick_def Let_def scan next_proc_def by (simp split: list.split)
  show "next_proc k = Some p \<Longrightarrow> snd (swtch_pick k) =
       upd_proc p (\<lambda>r. r\<lparr>p_flag := clrf (p_flag r) SSWAP\<rparr>) (k\<lparr>runrun := 0, swtch_p := Some p, curpri := p_pri (proc k p)\<rparr>)"
    unfolding swtch_pick_def Let_def scan next_proc_def by (auto simp: pri_def split: list.splits)
qed

lemma swtch_loop_some:
  assumes "swtch_p_ok k" "next_proc k = Some p"
  shows "\<exists>ssav. swtch_loop intr k = Some (ssav, resume p (snd (swtch_pick k)))"
proof -
  from swtch_pick_next(1) [OF assms(1)] assms(2) obtain ssav where "fst (swtch_pick k) = Some (p, ssav)"
    by (cases "fst (swtch_pick k)") auto
  then show ?thesis by (subst swtch_loop.simps) (simp add: prod.case_eq_if)
qed

lemma next_proc_cong:
  "proc k' = proc k \<Longrightarrow> swtch_p k' = swtch_p k \<Longrightarrow> next_proc k' = next_proc k"
proof -
  assume a: "proc k' = proc k" "swtch_p k' = swtch_p k"
  have "runnable k' = runnable k" "pri k' = pri k" by (auto simp: a runnable_def pri_def fun_eq_iff)
  then show ?thesis by (simp only: next_proc_def a)
qed

lemma resume_simps [simp]:
  "proc (resume p k) = proc k" "swtch_p (resume p k) = swtch_p k" "mpid (resume p k) = mpid k"
  "coremap (resume p k) = coremap k" "swapmap (resume p k) = swapmap k" "mem (resume p k) = mem k"
  by (simp_all add: resume_def savu_def retu_def)

text \<open>Where the user area of a process is kept: in \<open>u\<close> while it runs, in its image otherwise.\<close>

definition user_of :: "'a kproc_scheme \<Rightarrow> nat \<Rightarrow> user" where
  "user_of k p = (if p = u_procp (u k) then u k else memu k (uaddr (p_addr (proc k p))))"

text \<open>
  The images of the processes in \<open>P\<close> are apart, each holds the user area of its own process, and
  none of them is a zombie.
\<close>

definition users_ok :: "nat set \<Rightarrow> 'a kproc_scheme \<Rightarrow> bool" where
  "users_ok P k \<longleftrightarrow> u_procp (u k) \<in> P \<and> inj_on (\<lambda>p. uaddr (p_addr (proc k p))) P \<and>
     (\<forall>p \<in> P. u_procp (user_of k p) = p \<and> p_stat (proc k p) \<noteq> SZOMB)"

lemma resume_users:
  assumes "users_ok P k" "p \<in> P"
  shows "users_ok P (resume p k)" "u_procp (u (resume p k)) = p" "q \<in> P \<Longrightarrow> user_of (resume p k) q = user_of k q"
proof -
  let ?c = "u_procp (u k)"
  have c: "?c \<in> P" and inj: "inj_on (\<lambda>p. uaddr (p_addr (proc k p))) P"
    and own: "\<And>q. q \<in> P \<Longrightarrow> u_procp (user_of k q) = q" and alive: "\<And>q. q \<in> P \<Longrightarrow> p_stat (proc k q) \<noteq> SZOMB"
    using assms(1) by (auto simp: users_ok_def)
  show new: "u_procp (u (resume p k)) = p"
  proof (cases "p = ?c")
    case False
    then have "uaddr (p_addr (proc k p)) \<noteq> uaddr (p_addr (proc k ?c))" using inj c assms(2) by (auto dest: inj_onD)
    with False own [OF assms(2)] alive [OF c] show ?thesis
      by (simp add: resume_def retu_def savu_def user_of_def)
  qed (simp add: resume_def)
  have same: "user_of (resume p k) q = user_of k q" if "q \<in> P" for q
  proof (cases "p = ?c")
    case False
    have "uaddr (p_addr (proc k q)) = uaddr (p_addr (proc k r)) \<longleftrightarrow> q = r" if "r \<in> P" for r
      using inj \<open>q \<in> P\<close> that by (auto dest: inj_onD)
    with False alive [OF c] c assms(2) that own [OF assms(2)] show ?thesis
      by (auto simp: user_of_def resume_def retu_def savu_def)
  qed (simp add: resume_def)
  then show "q \<in> P \<Longrightarrow> user_of (resume p k) q = user_of k q" .
  show "users_ok P (resume p k)" using assms new same own alive inj by (auto simp: users_ok_def)
qed

lemma users_ok_pick:
  assumes "proc k' = (proc k)(p := (proc k p)\<lparr>p_flag := f\<rparr>)" "u k' = u k" "memu k' = memu k"
  shows "users_ok P k' = users_ok P k" "user_of k' q = user_of k q"
  using assms by (auto simp: users_ok_def user_of_def inj_on_def)

lemma swtch_resumes:
  assumes users: "users_ok P k" and zero: "0 \<in> P" and ok: "swtch_p_ok k"
    and nx: "next_proc k = Some p" and p: "p \<in> P"
  shows "\<exists>ssav k'. swtch intr k = Some (ssav, k') \<and> u_procp (u k') = p \<and> users_ok P k' \<and>
    (\<forall>q \<in> P. user_of k' q = user_of k q) \<and> curpri k' = p_pri (proc k p) \<and> runrun k' = 0"
proof -
  let ?k0 = "if u_procp (u k) \<noteq> 0 then resume 0 k else k"
  let ?k1 = "snd (swtch_pick ?k0)"
  have k0: "users_ok P ?k0" "\<And>q. q \<in> P \<Longrightarrow> user_of ?k0 q = user_of k q" "proc ?k0 = proc k" "swtch_p ?k0 = swtch_p k"
    using users resume_users [OF users zero] by auto
  have ok0: "swtch_p_ok ?k0" using ok by (simp only: swtch_p_ok_def k0(4))
  have nx0: "next_proc ?k0 = Some p" using nx next_proc_cong [OF k0(3,4)] by simp
  note pick = swtch_pick_next(2) [OF ok0 nx0]
  have k1: "proc ?k1 = (proc ?k0)(p := (proc ?k0 p)\<lparr>p_flag := clrf (p_flag (proc ?k0 p)) SSWAP\<rparr>)"
    "u ?k1 = u ?k0" "memu ?k1 = memu ?k0" "curpri ?k1 = p_pri (proc k p)" "runrun ?k1 = 0"
    unfolding pick by (simp_all add: k0(3))
  note cong = users_ok_pick [OF k1(1-3)]
  have u1: "users_ok P ?k1" using k0(1) by (simp only: cong)
  note r = resume_users [OF u1 p]
  obtain ssav where s: "swtch intr k = Some (ssav, resume p ?k1)"
    using swtch_loop_some [OF ok0 nx0, of intr] by (auto simp: swtch_def)
  moreover have "\<forall>q \<in> P. user_of (resume p ?k1) q = user_of k q" using r(3) cong k0(2) by simp
  moreover have "curpri (resume p ?k1) = p_pri (proc k p)" "runrun (resume p ?k1) = 0"
    using k1(4,5) by (simp_all add: resume_def retu_def savu_def)
  ultimately show ?thesis using r(1,2) by blast
qed

lemma setpri_bounds:
  "pri (setpri p k) p = min 127 (PUSER + sint (p_nice (proc k p)) + int (unat (p_cpu (proc k p))) div 16)"
proof -
  let ?n = "int (unat (p_cpu (proc k p))) div 16 + (PUSER + sint (p_nice (proc k p)))"
  have clamp: "x = y \<Longrightarrow> (if 127 < x then 127 else x) = min 127 y" for x y :: int by auto
  have c: "0 \<le> int (unat (p_cpu (proc k p))) div 16" by (rule pos_imp_zdiv_nonneg_iff [THEN iffD2]) simp_all
  have "- 128 \<le> sint (p_nice (proc k p))" using sint_ge [of "p_nice (proc k p)"] by simp
  with c have n: "- 28 \<le> ?n" by linarith
  define m where "m = (if 127 < ?n then 127 else ?n)"
  have "- 128 \<le> m" "m < 128" using n unfolding m_def by (auto split: if_splits)
  then have s: "sint (word_of_int m :: u8) = m" by (simp add: sint_sbintrunc' signed_take_bit_int_eq_self)
  have "p_pri (proc (setpri p k) p) = word_of_int m" by (simp add: setpri_def Let_def m_def)
  then have "pri (setpri p k) p = m" by (simp only: pri_def s)
  also have "m = min 127 (PUSER + sint (p_nice (proc k p)) + int (unat (p_cpu (proc k p))) div 16)"
    unfolding m_def by (rule clamp) simp
  finally show ?thesis .
qed

subsection \<open>Core and swap space\<close>

text \<open>
  The pages a process holds in core and the blocks it holds on the swap device.  Process 0 is the
  kernel itself; a zombie holds the swap block with its user area and no core.
\<close>

definition img :: "u16 \<Rightarrow> nat \<Rightarrow> nat set" where
  "img a n = {unat a ..< unat a + n}"

definition core_of :: "nat \<Rightarrow> proc \<Rightarrow> nat set" where
  "core_of p r = (if p = 0 \<or> p_stat r = 0 \<or> p_stat r = SZOMB \<or> \<not> flag (p_flag r) SLOAD then {}
     else img (p_addr r) (unat (p_size r)))"

definition swap_of :: "nat \<Rightarrow> proc \<Rightarrow> nat set" where
  "swap_of p r = (if p = 0 \<or> p_stat r = 0 then {}
     else if p_stat r = SZOMB then img (p_addr r) 1
     else if flag (p_flag r) SLOAD then {} else img (p_addr r) (8 * unat (p_size r)))"

definition space_ok :: "mapent list \<Rightarrow> (nat \<Rightarrow> nat set) \<Rightarrow> bool" where
  "space_ok m f \<longleftrightarrow> map_ok m \<and> (\<forall>p < NPROC. f p \<inter> units m = {} \<and> f p \<subseteq> {..<65535}) \<and>
     (\<forall>p < NPROC. \<forall>q < NPROC. p \<noteq> q \<longrightarrow> f p \<inter> f q = {})"

definition space :: "'a kproc_scheme \<Rightarrow> bool" where
  "space k \<longleftrightarrow> space_ok (coremap k) (\<lambda>p. core_of p (proc k p)) \<and>
     space_ok (swapmap k) (\<lambda>p. swap_of p (proc k p))"

lemma space_ok_cong: "(\<And>p. p < NPROC \<Longrightarrow> f p = g p) \<Longrightarrow> space_ok m f = space_ok m g"
  by (simp add: space_ok_def)

text \<open>A process gets what \<open>malloc\<close> returned, and gives up what it then frees.\<close>

lemma space_ok_take:
  assumes ok: "space_ok m f" and get: "malloc m n = Some (a, m')" "a \<noteq> 0" "n \<noteq> 0" and p: "p < NPROC" and e: "f p = {}"
  shows "space_ok m' (f(p := img a (unat n)))"
proof -
  have m: "map_ok m" using ok by (simp add: space_ok_def)
  note g = km.get_fits [OF m get]
  have im: "img a (unat n) \<subseteq> units m" "units m' = units m - img a (unat n)" using g by (auto simp: img_def)
  then have "img a (unat n) \<subseteq> {..<65535}" using km.free_bound [OF m] by blast
  moreover have "f q \<inter> img a (unat n) = {}" if "q < NPROC" for q
    using ok that im(1) unfolding space_ok_def by blast
  moreover have "\<forall>q < NPROC. f q \<inter> units m' = {}" using ok im(2) unfolding space_ok_def by blast
  ultimately show ?thesis using ok g(2) im(2) by (auto simp: space_ok_def)
qed

lemma space_ok_less:
  assumes "space_ok m f" "malloc m n = Some (a, m')"
  shows "space_ok m' f \<and> map_room m \<le> map_room m'"
proof -
  have "map_ok m" using assms(1) by (simp add: space_ok_def)
  from km.get_law [OF this assms(2)] have "map_ok m'" "units m' \<subseteq> units m" "map_room m \<le> map_room m'"
    using \<open>map_ok m\<close> by auto
  then show ?thesis using assms(1) unfolding space_ok_def by blast
qed

lemma space_ok_give:
  assumes ok: "space_ok m f" and room: "2 \<le> map_room m" and n: "n \<noteq> 0" and p: "p < NPROC"
    and e: "f p = img a (unat n)"
  shows "\<exists>m'. mfree m n a = Some m' \<and> space_ok m' (f(p := {}))"
proof -
  have f: "map_ok m" "f p \<inter> units m = {}" "f p \<subseteq> {..<65535}" using ok p by (auto simp: space_ok_def)
  have "0 < unat n" using n by (simp add: unat_pos_iff)
  then have "unat a + unat n - 1 \<in> f p" by (simp only: e img_def atLeastLessThan_iff) linarith
  with f(3) have b: "unat a + unat n < 65536" by auto
  from km.put_law [OF f(1) room n b] f(2) e obtain m' where
    "mfree m n a = Some m'" "map_ok m'" "units m' = units m \<union> img a (unat n)" by (auto simp: img_def)
  moreover have "f q \<inter> img a (unat n) = {}" if "q < NPROC" "q \<noteq> p" for q
    using ok that p unfolding e [symmetric] space_ok_def by blast
  ultimately show ?thesis using ok p e by (auto simp: space_ok_def)
qed

text \<open>
  The state the swapping process works on: the maps and the images are apart, only a sleeping
  process has a channel, the processes have the fixed size, and process 0 is the resident system
  process.
\<close>

definition sched_ok :: "'a kproc_scheme \<Rightarrow> bool" where
  "sched_ok k \<longleftrightarrow> space k \<and>
     (\<forall>p < NPROC. p_wchan (proc k p) \<noteq> NoChan \<longrightarrow> p_stat (proc k p) = SSLEEP \<or> p_stat (proc k p) = SWAIT) \<and>
     (\<forall>p < NPROC. p_stat (proc k p) \<noteq> 0 \<longrightarrow> p_size (proc k p) = PSIZE) \<and>
     flag (p_flag (proc k 0)) SLOAD \<and> flag (p_flag (proc k 0)) SSYS"

text \<open>A swap device that works, and during whose transfers the process table and the maps rest.\<close>

definition swap_works :: "'a kproc_scheme swapio \<Rightarrow> bool" where
  "swap_works swp \<longleftrightarrow> (\<forall>blkno coreaddr count rdflg k. \<exists>k'. swp blkno coreaddr count rdflg k = Some (False, k') \<and>
     proc k' = proc k \<and> coremap k' = coremap k \<and> swapmap k' = swapmap k)"

lemma sched_ok_cong:
  "proc k' = proc k \<Longrightarrow> coremap k' = coremap k \<Longrightarrow> swapmap k' = swapmap k \<Longrightarrow> sched_ok k' = sched_ok k"
  by (simp add: sched_ok_def space_def)

lemma of_awake:
  "p_stat r \<noteq> 0 \<Longrightarrow> p_stat r \<noteq> SZOMB \<Longrightarrow> core_of p (awake r) = core_of p r"
  "p_stat r \<noteq> 0 \<Longrightarrow> p_stat r \<noteq> SZOMB \<Longrightarrow> swap_of p (awake r) = swap_of p r"
  by (simp_all add: core_of_def swap_of_def)

lemma sched_ok_wakeup:
  assumes ok: "sched_ok k" and c: "c \<noteq> NoChan"
  shows "sched_ok (wakeup c k)"
proof -
  note w = wakeup_proc [OF c]
  have maps: "coremap (wakeup c k) = coremap k" "swapmap (wakeup c k) = swapmap k"
    using c by simp_all
  have pr: "proc (wakeup c k) p = proc k p \<or>
      proc (wakeup c k) p = awake (proc k p) \<and> (p_stat (proc k p) = SSLEEP \<or> p_stat (proc k p) = SWAIT)" if "p < NPROC" for p
    using ok c that w(1) [of k p] unfolding sched_ok_def by (metis chan.distinct(15) chan.distinct)
  then have "core_of p (proc (wakeup c k) p) = core_of p (proc k p)"
      "swap_of p (proc (wakeup c k) p) = swap_of p (proc k p)" if "p < NPROC" for p
    using that of_awake [of "proc k p" p] by fastforce+
  then have "space (wakeup c k) = space k"
    unfolding space_def maps by (intro conj_cong space_ok_cong) auto
  moreover have "p_flag (proc (wakeup c k) p) = p_flag (proc k p)" for p using w(1) [of k p] by simp
  moreover have "p_size (proc (wakeup c k) p) = p_size (proc k p)" for p using w(1) [of k p] by simp
  ultimately show ?thesis using ok pr unfolding sched_ok_def by fastforce
qed

lemma sched_ok_kick: "sched_ok k \<Longrightarrow> sched_ok (kick_runout k)"
  unfolding kick_runout_def using sched_ok_wakeup [of "k\<lparr>runout := 0\<rparr>" ChRunout] sched_ok_cong [of "k\<lparr>runout := 0\<rparr>" k]
  by simp

lemma of_update:
  "(\<lambda>q. f q (((proc k)(p := r)) q)) = (\<lambda>q. f q (proc k q))(p := f p r)"
  by auto

lemma oldest_fold:
  assumes "fold (\<lambda>p (p1, n). if P (proc k p) \<and> sint (p_time (proc k p)) > n then (p, sint (p_time (proc k p))) else (p1, n))
     ps (p0, n0) = (p1, n)"
  shows "(p1, n) = (p0, n0) \<or> (p1 \<in> set ps \<and> P (proc k p1) \<and> n = sint (p_time (proc k p1)))"
  using assms
proof (induction ps arbitrary: p0 n0)
  case (Cons p ps)
  show ?case
  proof (cases "P (proc k p) \<and> n0 < sint (p_time (proc k p))")
    case True
    with Cons.prems have "fold (\<lambda>p (p1, n). if P (proc k p) \<and> sint (p_time (proc k p)) > n then (p, sint (p_time (proc k p))) else (p1, n))
      ps (p, sint (p_time (proc k p))) = (p1, n)" by simp
    from Cons.IH [OF this] True show ?thesis by auto
  next
    case False
    with Cons.prems have "fold (\<lambda>p (p1, n). if P (proc k p) \<and> sint (p_time (proc k p)) > n then (p, sint (p_time (proc k p))) else (p1, n))
      ps (p0, n0) = (p1, n)" by (simp only: fold_simps(2) o_apply prod.case if_False)
    from Cons.IH [OF this] show ?thesis by auto
  qed
qed simp

lemma oldest_P:
  assumes "oldest k P = (p1, n)" "n \<noteq> -1"
  shows "p1 < NPROC \<and> P (proc k p1)"
proof -
  have "(p1, n) = (0, -1) \<or> (p1 \<in> set [0..<NPROC] \<and> P (proc k p1) \<and> n = sint (p_time (proc k p1)))"
    using assms(1) unfolding oldest_def by (rule oldest_fold)
  with assms(2) show ?thesis by auto
qed

lemma first_proc_P: "first_proc k P = Some p \<Longrightarrow> p < NPROC \<and> P (proc k p)"
  unfolding first_proc_def by (auto simp: find_Some_iff simp del: upt_Suc upt_rec_numeral)

lemma swap_size: "unat (PSIZE * 8) = 8 * unat PSIZE" "PSIZE * 8 \<noteq> 0" "PSIZE \<noteq> 0"
  by simp_all

lemma sched_ok_upd:
  assumes ok: "sched_ok k" and p: "p < NPROC" "p \<noteq> 0"
    and core: "space_ok cm ((\<lambda>q. core_of q (proc k q))(p := core_of p r))"
    and swp: "space_ok sm ((\<lambda>q. swap_of q (proc k q))(p := swap_of p r))"
    and r: "p_stat r = p_stat (proc k p)" "p_wchan r = p_wchan (proc k p)" "p_size r = p_size (proc k p)"
    and k': "proc k' = (proc k)(p := r)" "coremap k' = cm" "swapmap k' = sm"
  shows "sched_ok k'"
proof -
  have "space k'" unfolding space_def k' of_update using core swp by blast
  then show ?thesis using ok p r unfolding sched_ok_def k' by auto
qed

lemma wakeup_upd_commute:
  assumes c: "c \<noteq> NoChan" and p: "p_wchan (proc k p) = NoChan" "p_wchan (f (proc k p)) = NoChan"
  shows "proc (upd_proc p f (wakeup c k)) = proc (wakeup c (upd_proc p f k))"
proof
  fix q
  have "woken_out c {..<NPROC} (upd_proc p f k) = woken_out c {..<NPROC} k"
    using c p by (auto simp: woken_out_def)
  then show "proc (upd_proc p f (wakeup c k)) q = proc (wakeup c (upd_proc p f k)) q"
    using c p by (cases "q = p") (auto simp: wakeup_proc [OF c])
qed

lemma estabur_simps [simp]:
  "proc (estabur a k) = proc k" "coremap (estabur a k) = coremap k" "swapmap (estabur a k) = swapmap k"
  by (simp_all add: estabur_def wrword_def Let_def)

lemma swap_in_ok:
  assumes ok: "sched_ok k" and p: "p < NPROC" "wants_in (proc k p)" and w: "swap_works swp"
    and room: "2 \<le> map_room (swapmap k)"
    and get: "malloc (coremap k) (p_size (proc k p)) = Some (a, cm)" "a \<noteq> 0"
  shows "\<exists>k'. swap_in swp p a (k\<lparr>coremap := cm\<rparr>) = Some (Again, k') \<and> sched_ok k'"
proof -
  let ?r = "proc k p"
  have st: "p_stat ?r = SRUN" "\<not> flag (p_flag ?r) SLOAD" using p(2) by (auto simp: wants_in_def)
  have p0: "p \<noteq> 0" using ok st unfolding sched_ok_def by metis
  have sz: "p_size ?r = PSIZE" using ok p(1) st by (simp add: sched_ok_def)
  have spc: "space_ok (coremap k) (\<lambda>p. core_of p (proc k p))" "space_ok (swapmap k) (\<lambda>p. swap_of p (proc k p))"
    using ok by (auto simp: sched_ok_def space_def)
  obtain k1 where k1: "swp (p_addr ?r) a (p_size ?r) True (k\<lparr>coremap := cm\<rparr>) = Some (False, k1)"
    "proc k1 = proc k" "coremap k1 = cm" "swapmap k1 = swapmap k"
    using w [unfolded swap_works_def, rule_format, of "p_addr ?r" a "p_size ?r" True "k\<lparr>coremap := cm\<rparr>"] by auto
  have "swap_of p ?r = img (p_addr ?r) (unat (PSIZE * 8))"
    using st p0 sz by (simp add: swap_of_def)
  from space_ok_give [OF spc(2) room swap_size(2) p(1) this]
  obtain sm where sm: "mfree (swapmap k) (PSIZE * 8) (p_addr ?r) = Some sm"
    "space_ok sm ((\<lambda>p. swap_of p (proc k p))(p := {}))" by blast
  have core: "space_ok cm ((\<lambda>p. core_of p (proc k p))(p := img a (unat PSIZE)))"
    using space_ok_take [OF spc(1) get _ p(1)] sz st by (simp add: core_of_def)
  let ?f = "\<lambda>r. r\<lparr>p_addr := a, p_flag := setf (p_flag r) SLOAD, p_time := 0\<rparr>"
  let ?k2 = "k1\<lparr>swapmap := sm\<rparr>"
  let ?k3 = "upd_proc p ?f (wakeup ChSwapmap ?k2)"
  have loaded: "flag (setf (p_flag ?r) SLOAD) SLOAD" by simp
  have "sched_ok (upd_proc p ?f ?k2)"
    by (rule sched_ok_upd [OF ok p(1) p0, where r = "?f ?r" and cm = cm and sm = sm])
      (use core sm(2) k1 st p0 sz loaded in \<open>simp_all add: core_of_def swap_of_def\<close>)
  then have "sched_ok (wakeup ChSwapmap (upd_proc p ?f ?k2))" by (rule sched_ok_wakeup) simp
  moreover have "p_wchan ?r = NoChan" using ok p(1) st by (auto simp: sched_ok_def)
  then have "proc ?k3 = proc (wakeup ChSwapmap (upd_proc p ?f ?k2))"
    using k1(2) by (intro wakeup_upd_commute) auto
  ultimately have "sched_ok ?k3" by (subst sched_ok_cong) auto
  then have "sched_ok (estabur (p_addr (proc ?k3 p)) ?k3)" by (subst sched_ok_cong) auto
  moreover have "swap_in swp p a (k\<lparr>coremap := cm\<rparr>) = Some (Again, estabur (p_addr (proc ?k3 p)) ?k3)"
    using k1 sm(1) sz by (simp add: swap_in_def Let_def)
  ultimately show ?thesis by blast
qed

lemma movable_flags:
  assumes "movable r"
  shows "flag (p_flag r) SLOAD" "\<not> flag (p_flag r) SSYS" "\<not> flag (p_flag r) SLOCK"
proof -
  let ?x = "p_flag r"
  have m: "?x AND 7 = 1" using assms by (simp add: movable_def)
  have "?x AND 1 = (?x AND 7) AND 1" "?x AND 2 = (?x AND 7) AND 2" "?x AND 4 = (?x AND 7) AND 4"
    by (simp_all add: and.assoc)
  then show "flag (p_flag r) SLOAD" "\<not> flag (p_flag r) SSYS" "\<not> flag (p_flag r) SLOCK"
    unfolding m flag_def by simp_all
qed

lemma swap_out_ok:
  assumes ok: "sched_ok k" and p: "p < NPROC" "movable (proc k p)" "p_stat (proc k p) \<noteq> 0" "p_stat (proc k p) \<noteq> SZOMB"
    and w: "swap_works swp" and room: "2 \<le> map_room (coremap k)"
  shows "\<exists>nx k'. swap_out swp p k = Some (nx, k') \<and> sched_ok k'"
proof -
  let ?r = "proc k p"
  have fl: "flag (p_flag ?r) SLOAD" "\<not> flag (p_flag ?r) SSYS" using movable_flags [OF p(2)] by auto
  have p0: "p \<noteq> 0" using ok fl(2) unfolding sched_ok_def by metis
  have sz: "p_size ?r = PSIZE" using ok p by (simp add: sched_ok_def)
  have spc: "space_ok (coremap k) (\<lambda>p. core_of p (proc k p))" "space_ok (swapmap k) (\<lambda>p. swap_of p (proc k p))"
    using ok by (auto simp: sched_ok_def space_def)
  have "map_ok (swapmap k)" using spc(2) by (simp add: space_ok_def)
  then obtain a sm where get: "malloc (swapmap k) (PSIZE * 8) = Some (a, sm)" using km.get_total by fastforce
  show ?thesis
  proof (cases "a = 0")
    case True
    have "space_ok sm (\<lambda>p. swap_of p (proc k p))" using space_ok_less [OF spc(2) get] by blast
    then have "sched_ok (k\<lparr>swapmap := sm, runin := runin k + 1\<rparr>)"
      using ok by (simp add: sched_ok_def space_def)
    then show ?thesis using True get sz by (simp add: swap_out_def Let_def)
  next
    case False
    let ?k1 = "upd_proc p (\<lambda>r. r\<lparr>p_flag := setf (p_flag r) SLOCK\<rparr>)
      (upd_proc p (\<lambda>r. r\<lparr>p_flag := clrf (p_flag r) SLOAD\<rparr>) (spl 0 (k\<lparr>swapmap := sm\<rparr>)))"
    let ?fl = "setf (clrf (p_flag ?r) SLOAD) SLOCK"
    have k1: "proc ?k1 = (proc k)(p := ?r\<lparr>p_flag := ?fl\<rparr>)" "coremap ?k1 = coremap k" "swapmap ?k1 = sm"
      by (simp_all add: spl_def)
    obtain k2 where k2: "swp a (p_addr ?r) (p_size ?r) False ?k1 = Some (False, k2)"
      "proc k2 = proc ?k1" "coremap k2 = coremap ?k1" "swapmap k2 = swapmap ?k1"
      using w unfolding swap_works_def by blast
    have "core_of p ?r = img (p_addr ?r) (unat PSIZE)" using fl p p0 sz by (simp add: core_of_def)
    from space_ok_give [OF spc(1) room swap_size(3) p(1) this] obtain cm where
      cm: "mfree (coremap k) PSIZE (p_addr ?r) = Some cm" "space_ok cm ((\<lambda>p. core_of p (proc k p))(p := {}))" by blast
    have swp: "space_ok sm ((\<lambda>p. swap_of p (proc k p))(p := img a (unat (PSIZE * 8))))"
      using fl p by (intro space_ok_take [OF spc(2) get False swap_size(2) p(1)]) (simp add: swap_of_def)
    let ?fl' = "clrf ?fl (SLOAD OR SLOCK)"
    let ?k3 = "upd_proc p (\<lambda>r. r\<lparr>p_addr := a, p_flag := clrf (p_flag r) (SLOAD OR SLOCK), p_time := 0\<rparr>) (k2\<lparr>coremap := cm\<rparr>)"
    have nl: "\<not> flag ?fl' SLOAD"
    proof
      assume "flag ?fl' SLOAD"
      then have "flag ?fl' (SLOAD OR SLOCK)" by (auto simp: flag_iff bit_simps)
      then show False by simp
    qed
    have "sched_ok ?k3"
      by (rule sched_ok_upd [OF ok p(1) p0, where r = "?r\<lparr>p_addr := a, p_flag := ?fl', p_time := 0\<rparr>" and cm = cm and sm = sm])
        (use cm(2) swp k2 k1 p p0 sz nl in \<open>simp_all add: core_of_def swap_of_def\<close>)
    then have "sched_ok (kick_runout ?k3)" by (rule sched_ok_kick)
    moreover have "swap_out swp p k = Some (Again, kick_runout ?k3)"
      using get False k2 k1 cm(1) sz by (simp add: swap_out_def xswap_def Let_def)
    ultimately show ?thesis by blast
  qed
qed

lemma sched_turn_ok:
  assumes ok: "sched_ok k" and w: "swap_works swp" and room: "2 \<le> map_room (coremap k)" "2 \<le> map_room (swapmap k)"
  shows "\<exists>nx k'. sched_turn swp k = Some (nx, k') \<and> sched_ok k'"
proof -
  obtain p1 n where o: "oldest (spl 6 k) wants_in = (p1, n)" by fastforce
  have c6: "proc (spl m k) = proc k" "coremap (spl m k) = coremap k" "swapmap (spl m k) = swapmap k" for m k
    by (simp_all add: spl_def)
  show ?thesis
  proof (cases "n = -1")
    case True
    have "sched_ok ((spl 6 k)\<lparr>runout := runout k + 1\<rparr>)" using ok by (subst sched_ok_cong) (auto simp: c6)
    then show ?thesis using o True by (simp add: sched_turn_def Let_def spl_def)
  next
    case False
    have p1: "p1 < NPROC" "wants_in (proc k p1)" using oldest_P [OF o False] by (auto simp: c6)
    have spc: "space_ok (coremap k) (\<lambda>p. core_of p (proc k p))" using ok by (auto simp: sched_ok_def space_def)
    then have "map_ok (coremap k)" by (simp add: space_ok_def)
    then obtain a cm where get: "malloc (coremap k) (p_size (proc k p1)) = Some (a, cm)" using km.get_total by fastforce
    let ?k0 = "spl 0 (spl 6 k)"
    have ok0: "sched_ok ?k0" using ok by (subst sched_ok_cong) (auto simp: c6)
    show ?thesis
    proof (cases "a = 0")
      case False
      then obtain k' where "swap_in swp p1 a (?k0\<lparr>coremap := cm\<rparr>) = Some (Again, k')" "sched_ok k'"
        using swap_in_ok [OF ok0 p1(1) _ w _ _ False] p1(2) room(2) get by (auto simp: c6)
      then show ?thesis using o \<open>n \<noteq> -1\<close> get False by (simp add: sched_turn_def Let_def c6)
    next
      case True
      let ?k1 = "spl 6 (?k0\<lparr>coremap := cm\<rparr>)"
      have cm: "space_ok cm (\<lambda>p. core_of p (proc k p))" "2 \<le> map_room cm"
        using space_ok_less [OF spc get] room(1) by auto
      have k1: "proc ?k1 = proc k" "coremap ?k1 = cm" "swapmap ?k1 = swapmap k" by (simp_all add: c6)
      have ok1: "sched_ok ?k1" using ok cm(1) unfolding sched_ok_def space_def k1 by blast
      have idle: "sched_ok (?k1\<lparr>runin := runin ?k1 + 1\<rparr>)" using ok1 by (subst sched_ok_cong) auto
      have turn: "sched_turn swp k = (case first_proc ?k1 easy of
            Some p \<Rightarrow> swap_out swp p ?k1
          | None \<Rightarrow>
              if n < 3 then Some (SleepRunin, ?k1\<lparr>runin := runin ?k1 + 1\<rparr>)
              else (case oldest ?k1 hard of (p1, n) \<Rightarrow>
                if n < 2 then Some (SleepRunin, ?k1\<lparr>runin := runin ?k1 + 1\<rparr>) else swap_out swp p1 ?k1))"
        using o \<open>n \<noteq> -1\<close> get True by (simp add: sched_turn_def Let_def c6)
      show ?thesis
      proof (cases "first_proc ?k1 easy")
        case (Some p)
        from first_proc_P [OF this] have "p < NPROC" "movable (proc ?k1 p)" "p_stat (proc ?k1 p) \<noteq> 0"
          "p_stat (proc ?k1 p) \<noteq> SZOMB" by (auto simp: easy_def)
        from swap_out_ok [OF ok1 this w] cm(2) Some turn k1 show ?thesis by auto
      next
        case None
        obtain p2 n2 where o2: "oldest ?k1 hard = (p2, n2)" by fastforce
        show ?thesis
        proof (cases "n < 3 \<or> n2 < 2")
          case True
          then show ?thesis using turn None o2 idle by auto
        next
          case False
          then have "p2 < NPROC" "hard (proc ?k1 p2)" using oldest_P [OF o2] by auto
          then have "p2 < NPROC" "movable (proc ?k1 p2)" "p_stat (proc ?k1 p2) \<noteq> 0" "p_stat (proc ?k1 p2) \<noteq> SZOMB"
            by (auto simp: hard_def)
          from swap_out_ok [OF ok1 this w] cm(2) None turn k1 o2 False show ?thesis by auto
        qed
      qed
    qed
  qed
qed

subsection \<open>A small system\<close>

text \<open>Process 0, a runnable process 1 in core, a process 2 asleep on an inode, and a runnable process 3
  on the swap device.\<close>

definition no_proc :: proc where
  "no_proc = \<lparr>p_stat = 0, p_flag = 0, p_pri = 0, p_sig = 0, p_uid = 0, p_time = 0, p_cpu = 0, p_nice = 0,
     p_ttyp = None, p_pid = 0, p_ppid = 0, p_addr = 0, p_size = 0, p_wchan = NoChan\<rparr>"

definition no_user :: user where
  "no_user = \<lparr>u_segflg = False, u_error = 0, u_uid = 0, u_gid = 0, u_ruid = 0, u_rgid = 0, u_procp = 0,
     u_base = UAddr 0, u_count = 0, u_offset = (0, 0), u_cdir = 0, u_dbuf = replicate 14 0, u_dirp = 0,
     u_dent = replicate 16 0, u_pdir = None, u_ofile = (\<lambda>_. None), u_arg = (\<lambda>_. 0), u_signal = (\<lambda>_. 0),
     u_utime = 0, u_stime = 0, u_cutime = (0, 0), u_cstime = (0, 0), u_ar0 = (\<lambda>_. 0), u_intflg = False,
     u_hdr = (\<lambda>_. 0), u_uss = 0, u_usp = 0\<rparr>"

definition ex_procs :: "nat \<Rightarrow> proc" where
  "ex_procs = (\<lambda>_. no_proc)(
     0 := no_proc\<lparr>p_stat := SRUN, p_flag := 3, p_pri := 120, p_addr := 16, p_size := PSIZE\<rparr>,
     1 := no_proc\<lparr>p_stat := SRUN, p_flag := 1, p_pri := 100, p_pid := 1, p_addr := 32, p_size := PSIZE\<rparr>,
     2 := no_proc\<lparr>p_stat := SSLEEP, p_flag := 1, p_pri := 166, p_pid := 2, p_addr := 50, p_size := PSIZE, p_wchan := ChInode 7\<rparr>,
     3 := no_proc\<lparr>p_stat := SRUN, p_flag := 0, p_pri := 100, p_pid := 3, p_addr := 4000, p_size := PSIZE, p_time := 5\<rparr>)"

definition ex_kernel :: kproc where
  "ex_kernel = \<lparr>proc = ex_procs, u = no_user\<lparr>u_procp := 1\<rparr>, mpid = 3, runin = 0, runout = 0, runrun = 0,
     curpri = 100, lbolt = 0, time = (0, 0), tout = (0, 0),
     coremap = \<lparr>m_size = 92, m_addr = 68\<rparr> # replicate 49 \<lparr>m_size = 0, m_addr = 0\<rparr>,
     swapmap = \<lparr>m_size = 728, m_addr = 4144\<rparr> # replicate 49 \<lparr>m_size = 0, m_addr = 0\<rparr>,
     callout = replicate 20 \<lparr>c_time = 0, c_arg = 0, c_func = 0\<rparr>, swtch_p = Some 0, core_spl = 0, kcount = 0, ucount = 0,
     mem = (\<lambda>_. 0), memu = (\<lambda>_. no_user)\<rparr>"

lemma ex_kernel_sel [simp]:
  "proc ex_kernel = ex_procs" "u ex_kernel = no_user\<lparr>u_procp := 1\<rparr>" "runout ex_kernel = 0" "swtch_p ex_kernel = Some 0"
  "coremap ex_kernel = \<lparr>m_size = 92, m_addr = 68\<rparr> # replicate 49 \<lparr>m_size = 0, m_addr = 0\<rparr>"
  "swapmap ex_kernel = \<lparr>m_size = 728, m_addr = 4144\<rparr> # replicate 49 \<lparr>m_size = 0, m_addr = 0\<rparr>"
  by (simp_all add: ex_kernel_def)

lemma ex_procs_other: "p \<noteq> 0 \<Longrightarrow> p \<noteq> 1 \<Longrightarrow> p \<noteq> 2 \<Longrightarrow> p \<noteq> 3 \<Longrightarrow> ex_procs p = no_proc"
  by (simp add: ex_procs_def)

subsection \<open>Properties\<close>

text \<open>C3: \<open>wakeup\<close> makes runnable exactly the processes that sleep on the channel, and besides them only
  the swapping process waiting on \<open>runout\<close>, when that is set and one of the woken processes is
  swapped out (in which case \<open>runout\<close> is cleared); every other process, and every other variable but
  the rescheduling flag, is untouched, although \<open>setrun\<close> calls \<open>wakeup\<close> again.\<close>

theorem wakeup_exact:
  assumes "c \<noteq> NoChan"
  shows "proc (wakeup c k) q =
      (if q < NPROC \<and> (p_wchan (proc k q) = c \<or> (woken_out c {..<NPROC} k \<and> p_wchan (proc k q) = ChRunout))
       then (proc k q)\<lparr>p_wchan := NoChan, p_stat := SRUN\<rparr> else proc k q)
    \<and> runout (wakeup c k) = (if woken_out c {..<NPROC} k then 0 else runout k)
    \<and> (\<exists>P r ro. wakeup c k = k\<lparr>proc := P, runrun := r, runout := ro\<rparr>)"
  using wakeup_proc [OF assms, of k] unfolding same_but_procs_def by blast

theorem wakeup_exact_witness:
  "p_stat (proc (wakeup (ChInode 7) ex_kernel) 2) = SRUN \<and> proc (wakeup (ChInode 7) ex_kernel) 1 = ex_procs 1"
  using wakeup_exact [of "ChInode 7" ex_kernel 2] wakeup_exact [of "ChInode 7" ex_kernel 1]
  by (simp add: ex_procs_def no_proc_def)

text \<open>C4: \<open>swtch\<close> is fair priority scheduling: of the loaded, runnable processes it chooses one of the
  best priority, and among those the first in cyclic order after the process that ran last; it
  reports none exactly when there is none.\<close>

theorem swtch_chooses:
  assumes "swtch_p_ok k"
  shows "map_option fst (fst (swtch_pick k)) =
    (case filter (runnable k) (round_robin (case swtch_p k of None \<Rightarrow> 0 | Some p \<Rightarrow> p)) of
       [] \<Rightarrow> None
     | q # qs \<Rightarrow> Some (arg_min_list (pri k) (q # qs)))"
  using swtch_pick_next(1) [OF assms] by (simp add: next_proc_def)

lemma ex_next: "next_proc ex_kernel = Some 1"
proof -
  have "filter (runnable ex_kernel) (round_robin 0) = [1, 0]"
    by code_simp
  moreover have "pri ex_kernel 1 = 100" "pri ex_kernel 0 = 120"
    by (simp_all add: pri_def ex_procs_def no_proc_def)
  ultimately show ?thesis by (simp add: next_proc_def)
qed

theorem swtch_chooses_witness:
  "map_option fst (fst (swtch_pick ex_kernel)) = Some 1"
  using swtch_chooses [of ex_kernel] ex_next by (simp add: swtch_p_ok_def next_proc_def)

text \<open>C5: a process switch loses nothing: the process that \<open>swtch\<close> chose continues with exactly the
  user area it had when it last gave up the processor, and so will every other process whose image
  is apart from theirs, the one that has just been switched away included; the rescheduling request
  is cleared and the current priority is that of the new process.\<close>

theorem swtch_keeps_users:
  assumes "users_ok P k" "0 \<in> P" "swtch_p_ok k" "next_proc k = Some p" "p \<in> P"
  shows "\<exists>ssav k'. swtch intr k = Some (ssav, k') \<and> u_procp (u k') = p \<and> users_ok P k' \<and>
    (\<forall>q \<in> P. user_of k' q = user_of k q) \<and> curpri k' = p_pri (proc k p) \<and> runrun k' = 0"
  using assms by (rule swtch_resumes)

theorem swtch_keeps_users_witness:
  "\<exists>ssav k'. swtch id ex_kernel = Some (ssav, k') \<and> u_procp (u k') = 1 \<and> curpri k' = 100"
proof -
  have "users_ok {0, 1} ex_kernel"
    by (simp add: users_ok_def user_of_def uaddr_def linear_def page_seg_def ex_procs_def ex_kernel_def no_proc_def no_user_def)
  from swtch_keeps_users [OF this, of 1 id] ex_next show ?thesis
    by (simp add: swtch_p_ok_def ex_procs_def no_proc_def) blast
qed


lemma ex_space:
  "core_of p (ex_procs p) = (if p = 1 then {32..<50} else if p = 2 then {50..<68} else {})"
  "swap_of p (ex_procs p) = (if p = 3 then {4000..<4144} else {})"
  by (simp_all add: core_of_def swap_of_def img_def ex_procs_def no_proc_def flag_def)

lemma map_tail:
  "m_size z = 0 \<Longrightarrow> 0 < n \<Longrightarrow> map_from lo (replicate n z) \<and> units (replicate n z) = {} \<and> map_room (replicate n z) = n"
  by (cases n) (auto simp: list_all_iff)

lemma ex_maps:
  "map_ok (coremap ex_kernel)" "units (coremap ex_kernel) = {68..<160}" "map_room (coremap ex_kernel) = 49"
  "map_ok (swapmap ex_kernel)" "units (swapmap ex_kernel) = {4144..<4872}" "map_room (swapmap ex_kernel) = 49"
  using map_tail [of "\<lparr>m_size = 0, m_addr = 0\<rparr>" 49] by simp_all

lemma ex_sched_ok: "sched_ok ex_kernel"
proof -
  have "space_ok (coremap ex_kernel) (\<lambda>p. core_of p (proc ex_kernel p))"
    unfolding space_ok_def ex_maps ex_kernel_sel(1) ex_space using ex_maps(1) by auto
  moreover have "space_ok (swapmap ex_kernel) (\<lambda>p. swap_of p (proc ex_kernel p))"
    unfolding space_ok_def ex_maps ex_kernel_sel(1) ex_space using ex_maps(4) by auto
  ultimately show ?thesis
    by (simp add: sched_ok_def space_def ex_procs_def no_proc_def flag_def)
qed


end
