(* ===== verification/Sig.thy ===== *)
theory Sig
  imports Slp
begin

unbundle bit_operations_syntax

text \<open>
  \<open>ken/sig.c\<close> and the signal system calls of \<open>ken/sys4.c\<close>: sending a signal to a process or to all
  processes of a terminal, and what the receiving process does about it.

  \<open>u_signal\<close> is indexed by an integer: the code does not keep the index inside the array.  The action
  of a signal that is not caught, the core image and the exit, is left to the caller
  (\<open>Killed\<close>, with the status the process exits with before the core flag is added).
\<close>

subsection \<open>Sending\<close>

definition psignal :: "nat \<Rightarrow> int \<Rightarrow> 'a kproc_scheme \<Rightarrow> 'a kproc_scheme" where
  "psignal p sig k =
     (if sig \<ge> NSIG then k
      else
        let k = (if p_sig (proc k p) \<noteq> SIGKIL then upd_proc p (\<lambda>r. r\<lparr>p_sig := word_of_int sig\<rparr>) k else k);
            k = (if sint (p_pri (proc k p)) > PUSER then upd_proc p (\<lambda>r. r\<lparr>p_pri := word_of_int PUSER\<rparr>) k else k)
        in if p_stat (proc k p) = SWAIT then setrun p k else k)"

definition signal :: "nat \<Rightarrow> int \<Rightarrow> 'a kproc_scheme \<Rightarrow> 'a kproc_scheme" where
  "signal tp sig k = fold (\<lambda>p k. if p_ttyp (proc k p) = Some tp then psignal p sig k else k) [0..<NPROC] k"

text \<open>\<open>kill\<close>: which processes the call reaches, and the call.\<close>

definition kill_skips :: "'a kproc_scheme \<Rightarrow> u16 \<Rightarrow> nat \<Rightarrow> bool" where
  "kill_skips k a p \<longleftrightarrow>
     p = u_procp (u k) \<or> (a \<noteq> 0 \<and> p_pid (proc k p) \<noteq> a) \<or>
     (a = 0 \<and> (p_ttyp (proc k p) \<noteq> p_ttyp (curproc k) \<or> p \<le> 1)) \<or>
     (u_uid (u k) \<noteq> 0 \<and> u_uid (u k) \<noteq> p_uid (proc k p))"

definition kill_step :: "u16 \<Rightarrow> nat \<Rightarrow> nat \<times> 'a kproc_scheme \<Rightarrow> nat \<times> 'a kproc_scheme" where
  "kill_step a p fk =
     (let (f, k) = fk in if kill_skips k a p then (f, k) else (f + 1, psignal p (sint (u_arg (u k) 0)) k))"

definition kill :: "'a kproc_scheme \<Rightarrow> 'a kproc_scheme" where
  "kill k =
     (let (f, k) = fold (kill_step (u_ar0 (u k) 0)) [0..<NPROC] (0, k)
      in if f = 0 then set_error ESRCH k else k)"

definition ssig :: "'a kproc_scheme \<Rightarrow> 'a kproc_scheme" where
  "ssig k =
     (let a = sint (u_arg (u k) 0) in
      if a \<le> 0 \<or> a \<ge> NSIG \<or> a = sint SIGKIL then set_error EINVAL k
      else
        let k = upd_u (\<lambda>w. w\<lparr>u_ar0 := (u_ar0 w)(0 := u_signal w a)\<rparr>) k;
            k = upd_u (\<lambda>w. w\<lparr>u_signal := (u_signal w)(a := u_arg w 1)\<rparr>) k
        in if sint (p_sig (curproc k)) = a then upd_proc (u_procp (u k)) (\<lambda>r. r\<lparr>p_sig := 0\<rparr>) k else k)"

subsection \<open>Receiving\<close>

text \<open>\<open>fmemcpy\<close> within one segment, byte by byte upwards.\<close>

definition fmemcpy :: "u16 \<Rightarrow> u16 \<Rightarrow> u16 \<Rightarrow> nat \<Rightarrow> 'a kproc_scheme \<Rightarrow> 'a kproc_scheme" where
  "fmemcpy doff soff seg n k =
     fold (\<lambda>i k. k\<lparr>mem := (mem k)(linear seg (doff + of_nat i) := mem k (linear seg (soff + of_nat i)))\<rparr>) [0..<n] k"

text \<open>
  The frame for a handler: the interrupt frame is duplicated below itself, its copy returns to the
  entry \<open>_callsig\<close> with the handler in SI, and the old frame becomes what the handler's return uses.
\<close>

definition psig_frame :: "u16 \<Rightarrow> 'a kproc_scheme \<Rightarrow> 'a kproc_scheme" where
  "psig_frame h k =
     (let k = upd_u (\<lambda>w. w\<lparr>u_usp := u_usp w - 24\<rparr>) k;
          ss = u_uss (u k);
          sp = u_usp (u k);
          k = fmemcpy sp (sp + 24) ss 24 k;
          k = suword (sp + 18) 6 k;
          k = suword (sp + 14) h k;
          sp = sp + 24;
          k = suword (sp + 20) (fuword (sp + 22) k) k;
          k = suword (sp + 22) (fuword (sp + 18) k) k
      in suword (sp + 18) (fuword (sp + 10) k) k)"

datatype 'k psig_result = Caught 'k | Killed int 'k

definition psig :: "'a kproc_scheme \<Rightarrow> 'a kproc_scheme psig_result" where
  "psig k =
     (let n = sint (p_sig (curproc k));
          k = upd_proc (u_procp (u k)) (\<lambda>r. r\<lparr>p_sig := 0\<rparr>) k;
          h = u_signal (u k) n
      in if h \<noteq> 0 then
           let k = set_error 0 k;
               k = (if n \<noteq> sint SIGINS \<and> n \<noteq> sint SIGTRC then upd_u (\<lambda>w. w\<lparr>u_signal := (u_signal w)(n := 0)\<rparr>) k else k)
           in Caught (psig_frame h k)
         else Killed n k)"

text \<open>The signals that leave a core image.\<close>

definition core_signal :: "int \<Rightarrow> bool" where
  "core_signal n \<longleftrightarrow> n \<in> {3, 4, 5, 6, 7, 8, 10, 11, 12}"

subsection \<open>What sending a signal changes\<close>

definition signalled :: "int \<Rightarrow> proc \<Rightarrow> proc" where
  "signalled sig r =
     r\<lparr>p_sig := (if p_sig r = SIGKIL then SIGKIL else word_of_int sig),
       p_pri := (if sint (p_pri r) > PUSER then 100 else p_pri r)\<rparr>"

lemma psignal_target:
  assumes "sig < NSIG"
  shows "proc (psignal p sig k) p =
    (if p_stat (proc k p) = SWAIT then awake (signalled sig (proc k p)) else signalled sig (proc k p))"
  using assms by (auto simp: psignal_def signalled_def Let_def setrun_simps)

lemma psignal_other:
  assumes "q \<noteq> p"
  shows "proc (psignal p sig k) q = proc k q \<or>
    (proc (psignal p sig k) q = awake (proc k q) \<and> p_wchan (proc k q) = ChRunout \<and> p_stat (proc k p) = SWAIT)"
  using assms by (auto simp: psignal_def Let_def setrun_simps)

lemma psignal_u [simp]: "u (psignal p sig k) = u k"
proof -
  have "u (setrun p k') = u k'" for k' :: "'a kproc_scheme" using same_fields(1) [OF setrun_simps(3)] .
  then show ?thesis by (simp add: psignal_def Let_def)
qed

lemma psignal_keeps: 
  "p_pid (proc (psignal p sig k) q) = p_pid (proc k q)" "p_ttyp (proc (psignal p sig k) q) = p_ttyp (proc k q)"
  "p_uid (proc (psignal p sig k) q) = p_uid (proc k q)"
proof -
  have "proc (psignal p sig k) q = proc k q \<or> proc (psignal p sig k) q = awake (proc k q) \<or>
      proc (psignal p sig k) q = signalled sig (proc k q) \<or> proc (psignal p sig k) q = awake (signalled sig (proc k q))"
  proof (cases "q = p")
    case True
    then show ?thesis using psignal_target [of sig p k] by (cases "sig < NSIG") (auto simp: psignal_def)
  qed (use psignal_other in blast)
  then show "p_pid (proc (psignal p sig k) q) = p_pid (proc k q)" "p_ttyp (proc (psignal p sig k) q) = p_ttyp (proc k q)"
    "p_uid (proc (psignal p sig k) q) = p_uid (proc k q)"
    by (auto simp: signalled_def)
qed

lemma kill_skips_psignal [simp]: "kill_skips (psignal p sig k) a q = kill_skips k a q"
  by (simp add: kill_skips_def psignal_keeps)

abbreviation pending :: "int \<Rightarrow> u8 \<Rightarrow> u8" where
  "pending sig s \<equiv> (if s = SIGKIL then SIGKIL else word_of_int sig)"

lemma psignal_p_sig:
  assumes "sig < NSIG"
  shows "p_sig (proc (psignal p sig k) q) = (if q = p then pending sig (p_sig (proc k q)) else p_sig (proc k q))"
proof (cases "q = p")
  case True
  then show ?thesis using psignal_target [OF assms, of p k] by (simp add: signalled_def)
next
  case False
  then show ?thesis using psignal_other [OF False, of sig k] by auto
qed

lemma psignal_running:
  assumes "sig < NSIG"
  shows "p_stat (proc k q) = SRUN \<Longrightarrow> p_stat (proc (psignal p sig k) q) = SRUN"
    "p_stat (proc k q) = SWAIT \<Longrightarrow> p_stat (proc (psignal p sig k) q) = (if q = p then SRUN else SWAIT) \<or> p_stat (proc (psignal p sig k) q) = SRUN"
proof -
  show "p_stat (proc k q) = SRUN \<Longrightarrow> p_stat (proc (psignal p sig k) q) = SRUN"
    using psignal_target [OF assms, of p k] psignal_other [of q p sig k] by (cases "q = p") (auto simp: signalled_def)
  show "p_stat (proc k q) = SWAIT \<Longrightarrow> p_stat (proc (psignal p sig k) q) = (if q = p then SRUN else SWAIT) \<or> p_stat (proc (psignal p sig k) q) = SRUN"
    using psignal_target [OF assms, of p k] psignal_other [of q p sig k] by (cases "q = p") (auto simp: signalled_def)
qed

lemma kill_step_pair:
  "kill_step a p (f, k) = (if kill_skips k a p then (f, k) else (f + 1, psignal p (sint (u_arg (u k) 0)) k))"
  by (simp add: kill_step_def)

lemma kill_fold:
  assumes "distinct ps" "fold (kill_step a) ps (f, k) = (f', k')" "sint (u_arg (u k) 0) = sig" "sig < NSIG"
  shows "u k' = u k \<and> f' = f + length (filter (\<lambda>p. \<not> kill_skips k a p) ps) \<and>
    p_sig (proc k' q) = (if q \<in> set ps \<and> \<not> kill_skips k a q then pending sig (p_sig (proc k q)) else p_sig (proc k q)) \<and>
    (p_stat (proc k q) = SRUN \<longrightarrow> p_stat (proc k' q) = SRUN) \<and>
    (q \<in> set ps \<and> \<not> kill_skips k a q \<and> p_stat (proc k q) = SWAIT \<longrightarrow> p_stat (proc k' q) = SRUN)"
  using assms
proof (induction ps arbitrary: f k)
  case (Cons p ps)
  let ?k1 = "psignal p sig k"
  show ?case
  proof (cases "kill_skips k a p")
    case True
    with Cons.prems have "fold (kill_step a) ps (f, k) = (f', k')" by (simp add: kill_step_pair)
    from Cons.IH [OF _ this] Cons.prems True show ?thesis by auto
  next
    case False
    with Cons.prems have "fold (kill_step a) ps (f + 1, ?k1) = (f', k')" by (simp add: kill_step_pair)
    from Cons.IH [OF _ this] Cons.prems have IH:
      "u k' = u k" "f' = f + 1 + length (filter (\<lambda>p. \<not> kill_skips k a p) ps)"
      "p_sig (proc k' q) = (if q \<in> set ps \<and> \<not> kill_skips k a q then pending sig (p_sig (proc ?k1 q)) else p_sig (proc ?k1 q))"
      "p_stat (proc ?k1 q) = SRUN \<Longrightarrow> p_stat (proc k' q) = SRUN"
      "q \<in> set ps \<Longrightarrow> \<not> kill_skips k a q \<Longrightarrow> p_stat (proc ?k1 q) = SWAIT \<Longrightarrow> p_stat (proc k' q) = SRUN"
      by auto
    have "p_stat (proc k q) = SRUN \<longrightarrow> p_stat (proc k' q) = SRUN"
      using IH(4) psignal_running(1) [OF Cons.prems(4)] by blast
    moreover have "p_stat (proc k' q) = SRUN" if "q \<in> set (p # ps)" "\<not> kill_skips k a q" "p_stat (proc k q) = SWAIT"
      using IH(4,5) psignal_running(2) [OF Cons.prems(4) that(3), of p] that by (cases "q = p") auto
    moreover have "p_sig (proc k' q) = (if q \<in> set (p # ps) \<and> \<not> kill_skips k a q then pending sig (p_sig (proc k q)) else p_sig (proc k q))"
      using IH(3) psignal_p_sig [OF Cons.prems(4), of p k q] False Cons.prems(1) by auto
    ultimately show ?thesis using IH(1,2) False by auto
  qed
qed simp

lemma kill_reaches:
  assumes "sint (u_arg (u k) 0) = sig" "sig < NSIG" "a = u_ar0 (u k) 0"
  shows "p_sig (proc (kill k) q) = (if q < NPROC \<and> \<not> kill_skips k a q then pending sig (p_sig (proc k q)) else p_sig (proc k q))"
    "q < NPROC \<Longrightarrow> \<not> kill_skips k a q \<Longrightarrow> p_stat (proc k q) = SWAIT \<Longrightarrow> p_stat (proc (kill k) q) = SRUN"
    "u_error (u (kill k)) = (if \<exists>p < NPROC. \<not> kill_skips k a p then u_error (u k) else ESRCH)"
proof -
  obtain f' k' where f: "fold (kill_step a) [0..<NPROC] (0, k) = (f', k')" by fastforce
  note r = kill_fold [OF distinct_upt f assms(1,2)]
  have kk: "kill k = (if f' = 0 then set_error ESRCH k' else k')" using f assms(3) by (simp only: kill_def Let_def prod.case)
  have pr: "proc (kill k) = proc k'" by (simp add: kk set_error_def)
  show "p_sig (proc (kill k) q) = (if q < NPROC \<and> \<not> kill_skips k a q then pending sig (p_sig (proc k q)) else p_sig (proc k q))"
    using r [of q] pr by (simp only: set_upt atLeastLessThan_iff le0 simp_thms)
  show "q < NPROC \<Longrightarrow> \<not> kill_skips k a q \<Longrightarrow> p_stat (proc k q) = SWAIT \<Longrightarrow> p_stat (proc (kill k) q) = SRUN"
    using r [of q] pr by (simp only: set_upt atLeastLessThan_iff le0 simp_thms)
  have "(f' = 0) = (\<not> (\<exists>p < NPROC. \<not> kill_skips k a p))"
    using r [of 0] by (simp only: add_0 length_0_conv filter_empty_conv set_upt Ball_def atLeastLessThan_iff le0 simp_thms) blast
  then show "u_error (u (kill k)) = (if \<exists>p < NPROC. \<not> kill_skips k a p then u_error (u k) else ESRCH)"
    using r [of 0] by (cases "f' = 0") (auto simp: kk set_error_def)
qed

lemma psig_kil: "p_sig (curproc k) = SIGKIL \<Longrightarrow> u_signal (u k) 9 = 0 \<Longrightarrow>
    issig k = 9 \<and> psig k = Killed 9 (upd_proc (u_procp (u k)) (\<lambda>r. r\<lparr>p_sig := 0\<rparr>) k)"
  by (simp add: issig_def psig_def Let_def)

subsection \<open>Properties\<close>

text \<open>C10: \<open>kill\<close> reaches exactly the processes it may reach: for a signal number in range, the signal
  becomes pending (unless a kill is already pending, which nothing overwrites) for every other
  process with the given process id, or for id 0 every other process of the caller's terminal beyond
  process 1, that has the caller's user id or any id for the super-user; a reached process in an
  interruptible sleep runs; no other process gets a signal; \<open>ESRCH\<close> is reported exactly when no
  process was reached.\<close>

theorem kill_reaches_exactly:
  assumes "sint (u_arg (u k) 0) = sig" "sig < NSIG" "a = u_ar0 (u k) 0"
  defines "reached q \<equiv> q < NPROC \<and> q \<noteq> u_procp (u k) \<and> (u_uid (u k) = 0 \<or> u_uid (u k) = p_uid (proc k q)) \<and>
    (if a = 0 then p_ttyp (proc k q) = p_ttyp (curproc k) \<and> 1 < q else p_pid (proc k q) = a)"
  shows "(\<forall>q. p_sig (proc (kill k) q) =
        (if reached q \<and> p_sig (proc k q) \<noteq> SIGKIL then word_of_int sig else p_sig (proc k q))) \<and>
    (\<forall>q. reached q \<and> p_stat (proc k q) = SWAIT \<longrightarrow> p_stat (proc (kill k) q) = SRUN) \<and>
    u_error (u (kill k)) = (if \<exists>q. reached q then u_error (u k) else ESRCH)"
proof -
  have r: "reached q \<longleftrightarrow> q < NPROC \<and> \<not> kill_skips k a q" for q
    unfolding reached_def kill_skips_def by auto
  show ?thesis using kill_reaches [OF assms(1-3)] unfolding r by auto
qed

theorem kill_reaches_exactly_witness:
  "p_sig (proc (kill (ex_kernel\<lparr>u := no_user\<lparr>u_procp := 1, u_ar0 := (\<lambda>_. 2), u_arg := (\<lambda>_. 9)\<rparr>\<rparr>)) 2) = 9"
  using kill_reaches_exactly [of "ex_kernel\<lparr>u := no_user\<lparr>u_procp := 1, u_ar0 := (\<lambda>_. 2), u_arg := (\<lambda>_. 9)\<rparr>\<rparr>" 9 2]
  by (simp add: no_user_def ex_procs_def no_proc_def)

text \<open>a kill cannot be escaped: \<open>ssig\<close> never lets a process change its disposition of signal 9, a
  pending kill survives every later signal, and with the default disposition the process finds it at
  the next test and is killed by it.\<close>

theorem kill_is_final:
  "u_signal (u (ssig k)) 9 = u_signal (u k) 9 \<and>
   (p_sig (proc k p) = SIGKIL \<longrightarrow> p_sig (proc (psignal q sig k) p) = SIGKIL) \<and>
   (p_sig (curproc k) = SIGKIL \<and> u_signal (u k) 9 = 0 \<longrightarrow>
      issig k = 9 \<and> (\<exists>k'. psig k = Killed 9 k' \<and> p_sig (curproc k') = 0))"
proof (intro conjI impI)
  show "u_signal (u (ssig k)) 9 = u_signal (u k) 9"
    by (auto simp: ssig_def Let_def set_error_def)
  show "p_sig (proc k p) = SIGKIL \<Longrightarrow> p_sig (proc (psignal q sig k) p) = SIGKIL"
    using psignal_p_sig [of sig q k p] by (cases "sig < NSIG") (auto simp: psignal_def)
qed (use psig_kil [of k] in auto)

theorem kill_is_final_witness:
  "\<exists>k'. psig (upd_proc 1 (\<lambda>r. r\<lparr>p_sig := 9\<rparr>) ex_kernel) = Killed 9 k'"
  using kill_is_final [of "upd_proc 1 (\<lambda>r. r\<lparr>p_sig := 9\<rparr>) ex_kernel" 0 0 0]
  by (auto simp: no_user_def)

text \<open>\<open>kill\<close> does not check its signal number from below: a process that sends signal \<open>n\<close> with
  \<open>-128 \<le> n < 0\<close> makes \<open>n\<close> pending, and the test for signals in the receiving process then
  indexes \<open>u_signal\<close> with \<open>n\<close>, in front of the array.\<close>

theorem psignal_negative:
  assumes "-128 \<le> n" "n < 0" "p_sig (proc k p) \<noteq> SIGKIL" "u_procp (u k) = p"
  shows "issig (psignal p n k) = (if u_signal (u k) n \<noteq> 1 then n else 0)"
proof -
  have "p_sig (proc (psignal p n k) p) = word_of_int n"
    using psignal_p_sig [of n p k p] assms by simp
  moreover have "sint (word_of_int n :: u8) = n" using assms by (simp add: sint_sbintrunc' signed_take_bit_int_eq_self)
  ultimately show ?thesis using assms by (simp add: issig_def Let_def)
qed

theorem psignal_negative_witness: "issig (psignal 1 (-1) ex_kernel) = -1"
  using psignal_negative [of "-1" ex_kernel 1] by (simp add: ex_procs_def no_proc_def no_user_def)

end
