(* ===== verification/Clock.thy ===== *)
theory Clock
  imports Sig
begin

unbundle bit_operations_syntax

text \<open>
  \<open>ken/clock.c\<close>: the clock interrupt \<open>clock\<close>, with the callouts of \<open>Callout\<close>, the time of day,
  the accounting of processor use and the ageing of priorities, and \<open>check_runrun\<close>, which gives up
  the processor on the way back to the user.

  \<open>func\<close> interprets the routines of the callout table, and \<open>psg\<close> is what \<open>psig\<close> and, for a
  fatal signal, \<open>exit\<close> do; both may not return (\<open>None\<close>).
\<close>

subsection \<open>The interrupt\<close>

definition run_callouts ::
  "(nat \<Rightarrow> u16 \<Rightarrow> 'a kproc_scheme \<Rightarrow> 'a kproc_scheme option) \<Rightarrow> 'a kproc_scheme \<Rightarrow> 'a kproc_scheme option" where
  "run_callouts func k = do {
     (cs, k') \<leftarrow> clock_callouts
       (\<lambda>f a (cs, k). do { k \<leftarrow> func f a (k\<lparr>callout := cs\<rparr>); Some (callout k, k) })
       (callout k, if c_func (callout k ! 0) = 0 then k else spl 5 k);
     Some (k'\<lparr>callout := cs\<rparr>) }"

text \<open>\<open>if(++pp->p_cpu == 0) pp->p_cpu--\<close>\<close>

definition charge :: "'a kproc_scheme \<Rightarrow> 'a kproc_scheme" where
  "charge k = upd_proc (u_procp (u k)) (\<lambda>r. r\<lparr>p_cpu := (if p_cpu r + 1 = 0 then p_cpu r else p_cpu r + 1)\<rparr>) k"

text \<open>The loop over the process table that is entered once a second.\<close>

definition age :: "nat \<Rightarrow> 'a kproc_scheme \<Rightarrow> 'a kproc_scheme" where
  "age p k =
     (if p_stat (proc k p) \<noteq> 0 then
        let k = (if p_time (proc k p) \<noteq> 127 then upd_proc p (\<lambda>r. r\<lparr>p_time := p_time r + 1\<rparr>) k else k);
            k = upd_proc p (\<lambda>r. r\<lparr>p_cpu := (if unat (p_cpu r) > 10 then p_cpu r - 10 else 0)\<rparr>) k
        in if sint (p_pri (proc k p)) > PUSER then setpri p k else k
      else k)"

definition second :: "'a kproc_scheme \<Rightarrow> 'a kproc_scheme" where
  "second k =
     (let k = k\<lparr>lbolt := lbolt k - HZ\<rparr>;
          k = k\<lparr>time := (if snd (time k) + 1 = 0 then fst (time k) + 1 else fst (time k), snd (time k) + 1)\<rparr>;
          k = spl 1 k;
          k = (if snd (time k) = snd (tout k) \<and> fst (time k) = fst (tout k) then wakeup ChTout k else k);
          k = (if snd (time k) AND 3 = 0 then wakeup ChLbolt (k\<lparr>runrun := runrun k + 1\<rparr>) else k);
          k = fold age [0..<NPROC] k
      in kick_runin k)"

definition clock ::
  "(nat \<Rightarrow> u16 \<Rightarrow> 'a kproc_scheme \<Rightarrow> 'a kproc_scheme option) \<Rightarrow> ('a kproc_scheme \<Rightarrow> 'a kproc_scheme option) \<Rightarrow>
     bool \<Rightarrow> 'a kproc_scheme \<Rightarrow> 'a kproc_scheme option" where
  "clock func psg mode k = do {
     let k = (if \<not> mode then k\<lparr>kcount := kcount k + 1\<rparr> else k\<lparr>ucount := ucount k + 1\<rparr>);
     k \<leftarrow> run_callouts func k;
     let k = (if mode then upd_u (\<lambda>w. w\<lparr>u_utime := u_utime w + 1\<rparr>) k else upd_u (\<lambda>w. w\<lparr>u_stime := u_stime w + 1\<rparr>) k);
     let k = charge k;
     let k = k\<lparr>lbolt := lbolt k + 1\<rparr>;
     let k = (if sint (lbolt k) \<ge> sint HZ then second k else k);
     if lbolt k AND 7 = 0 then do {
       let k = k\<lparr>runrun := runrun k + 1\<rparr>;
       if mode then do {
         k \<leftarrow> (if issig k \<noteq> 0 then psg k else Some k);
         Some (setpri (u_procp (u k)) k) }
       else Some k }
     else Some k }"

text \<open>\<open>check_runrun\<close>: \<open>away\<close> is what happens from \<open>swtch\<close> until this process runs again.\<close>

partial_function (option) check_runrun ::
  "('a kproc_scheme \<Rightarrow> 'a kproc_scheme option) \<Rightarrow> 'a kproc_scheme \<Rightarrow> 'a kproc_scheme option" where
  "check_runrun away k =
     (let k = spl 7 k in
      if runrun k = 0 then Some k
      else do { k \<leftarrow> away (spl 0 k); check_runrun away k })"

subsection \<open>Time\<close>

lemma setpri_simps [simp]:
  "lbolt (setpri p k) = lbolt k" "time (setpri p k) = time k" "tout (setpri p k) = tout k"
  "callout (setpri p k) = callout k" "u (setpri p k) = u k"
  by (simp_all add: setpri_def Let_def)

lemma setpri_proc: "proc (setpri p k) = (proc k)(p := (proc k p)\<lparr>p_pri := p_pri (proc (setpri p k) p)\<rparr>)"
  by (simp add: setpri_def Let_def)

lemma age_simps [simp]:
  "lbolt (age p k) = lbolt k" "time (age p k) = time k" "tout (age p k) = tout k"
  "callout (age p k) = callout k" "u (age p k) = u k"
  by (simp_all add: age_def Let_def)

lemma fold_age_simps [simp]:
  "lbolt (fold age ps k) = lbolt k" "time (fold age ps k) = time k" "u (fold age ps k) = u k"
  by (induction ps arbitrary: k) simp_all

lemma kick_runin_simps [simp]:
  "lbolt (kick_runin k) = lbolt k" "time (kick_runin k) = time k" "u (kick_runin k) = u k"
  by (simp_all add: kick_runin_def)

lemma second_simps [simp]:
  "lbolt (second k) = lbolt k - HZ"
  "time (second k) = (if snd (time k) + 1 = 0 then fst (time k) + 1 else fst (time k), snd (time k) + 1)"
  "u (second k) = u k"
  by (simp_all add: second_def Let_def)

text \<open>The carry from the low to the high word of the time of day.\<close>

lemma time_carry:
  "dpval (if l + 1 = 0 then h + 1 else h, l + 1) = (dpval (h, l) + 1) mod 4294967296"
  using unat16_bound [of h] unat16_bound [of l] unat16_succ [of h] unat16_succ [of l] succ16_zero [of l]
  by (cases "unat l = 65535"; cases "unat h = 65535") (simp_all add: dpval_def)

text \<open>A callout routine or signal action that leaves the time of day alone.\<close>

definition keeps_time :: "('a kproc_scheme \<Rightarrow> 'a kproc_scheme option) \<Rightarrow> bool" where
  "keeps_time f \<longleftrightarrow> (\<forall>k k'. f k = Some k' \<longrightarrow> lbolt k' = lbolt k \<and> time k' = time k)"

lemma clock_fire_time:
  assumes "\<And>f a. keeps_time (func f a)"
    and "clock_fire (\<lambda>f a (cs, k). do { k \<leftarrow> func f a (k\<lparr>callout := cs\<rparr>); Some (callout k, k) }) p1 (cs, k) = Some (p2, cs', k')"
  shows "lbolt k' = lbolt k \<and> time k' = time k"
  using assms(2)
proof (induction "NCALL - p1" arbitrary: p1 cs k)
  case 0
  then show ?case by (subst (asm) clock_fire.simps) simp
next
  case (Suc n)
  let ?f = "\<lambda>f a (cs, k). do { k \<leftarrow> func f a (k\<lparr>callout := cs\<rparr>); Some (callout k, k) }"
  show ?case
  proof (cases "c_func (cs ! p1) \<noteq> 0 \<and> c_time (cs ! p1) \<le> 0")
    case True
    with Suc.prems obtain k1 where k1: "func (c_func (cs ! p1)) (c_arg (cs ! p1)) (k\<lparr>callout := cs\<rparr>) = Some k1"
      "clock_fire ?f (p1 + 1) (callout k1, k1) = Some (p2, cs', k')"
      by (subst (asm) clock_fire.simps) (auto split: if_splits bind_splits)
    have "lbolt k1 = lbolt k \<and> time k1 = time k" using assms(1) k1(1) unfolding keeps_time_def by fastforce
    moreover have "lbolt k' = lbolt k1 \<and> time k' = time k1" using Suc.hyps(1) [OF _ k1(2)] Suc.hyps(2) by simp
    ultimately show ?thesis by simp
  next
    case False
    with Suc.prems show ?thesis by (subst (asm) clock_fire.simps) (auto split: if_splits)
  qed
qed

lemma run_callouts_time:
  assumes "\<And>f a. keeps_time (func f a)" "run_callouts func k = Some k'"
  shows "lbolt k' = lbolt k \<and> time k' = time k"
  using assms(2) clock_fire_time [OF assms(1)]
  by (fastforce simp: run_callouts_def clock_callouts_def clock_run_def split: bind_splits if_splits prod.splits)

lemma clock_time:
  assumes f: "\<And>f a. keeps_time (func f a)" "keeps_time psg" and c: "clock func psg mode k = Some k'" and l: "unat (lbolt k) < 60"
  shows "unat (lbolt k') < 60 \<and>
    60 * dpval (time k') + unat (lbolt k') =
      (if unat (lbolt k) = 59 then 60 * ((dpval (time k) + 1) mod 4294967296) else 60 * dpval (time k) + unat (lbolt k) + 1)"
proof -
  let ?k0 = "if \<not> mode then k\<lparr>kcount := kcount k + 1\<rparr> else k\<lparr>ucount := ucount k + 1\<rparr>"
  from c obtain k1 where k1: "run_callouts func ?k0 = Some k1" by (auto simp: clock_def split: bind_splits)
  have t1: "lbolt k1 = lbolt k" "time k1 = time k" using run_callouts_time [OF f(1) k1] by auto
  define k2 where "k2 = (if mode then upd_u (\<lambda>w. w\<lparr>u_utime := u_utime w + 1\<rparr>) k1 else upd_u (\<lambda>w. w\<lparr>u_stime := u_stime w + 1\<rparr>) k1)"
  define k3 where "k3 = (charge k2)\<lparr>lbolt := lbolt (charge k2) + 1\<rparr>"
  define k4 where "k4 = (if sint (lbolt k3) \<ge> sint HZ then second k3 else k3)"
  have t3: "lbolt k3 = lbolt k + 1" "time k3 = time k" using t1 by (simp_all add: charge_def k3_def k2_def)
  have "lbolt k' = lbolt k4 \<and> time k' = time k4"
    using c k1 f(2) unfolding keeps_time_def
    by (auto simp: clock_def Let_def k4_def k3_def k2_def split: if_splits bind_splits)
  then have t4: "lbolt k' = lbolt k4" "time k' = time k4" by auto
  have s: "sint (lbolt k + 1) = int (unat (lbolt k) + 1)"
    using l unat16_succ [of "lbolt k"] by (subst sint16_small) auto
  have hz: "sint HZ = 60" by simp
  have sec: "sint (lbolt k3) \<ge> sint HZ \<longleftrightarrow> unat (lbolt k) = 59" using l unfolding t3 s by (simp only: hz) linarith
  show ?thesis
  proof (cases "unat (lbolt k) = 59")
    case True
    then have "lbolt k = 59" by (simp add: word_unat_eq_iff)
    have k4: "k4 = second k3" using sec True by (simp only: k4_def if_True simp_thms)
    have "lbolt k' = 0" using \<open>lbolt k = 59\<close> by (simp add: t4 k4 t3)
    moreover have "dpval (time k') = (dpval (time k) + 1) mod 4294967296"
      using time_carry [of "snd (time k)" "fst (time k)"] by (simp only: t4 k4 second_simps t3 prod.collapse)
    ultimately have "lbolt k' = 0" "dpval (time k') = (dpval (time k) + 1) mod 4294967296" by blast+
    with True show ?thesis by simp
  next
    case False
    then have "lbolt k' = lbolt k + 1" "time k' = time k" using sec t3 t4 by (simp_all add: k4_def)
    then show ?thesis using False l unat16_succ [of "lbolt k"] by simp
  qed
qed

lemma clock_total: "run_callouts func (k\<lparr>kcount := kcount k + 1\<rparr>) = Some k1 \<Longrightarrow> \<exists>k'. clock func psg False k = Some k'"
  by (auto simp: clock_def Let_def)

text \<open>Ageing: what one second does to a process.\<close>

lemma age_proc:
  "q \<noteq> p \<Longrightarrow> proc (age p k) q = proc k q"
  "p_stat (proc k p) = 0 \<Longrightarrow> age p k = k"
  "p_stat (proc k p) \<noteq> 0 \<Longrightarrow> unat (p_cpu (proc (age p k) p)) = unat (p_cpu (proc k p)) - 10"
  "p_stat (proc k p) \<noteq> 0 \<Longrightarrow> p_time (proc (age p k) p) = (if p_time (proc k p) = 127 then 127 else p_time (proc k p) + 1)"
  "p_stat (proc k p) \<noteq> 0 \<Longrightarrow> pri (age p k) p =
     (if pri k p > PUSER
      then min 127 (PUSER + sint (p_nice (proc k p)) + int (unat (p_cpu (proc k p)) - 10) div 16) else pri k p)"
  "p_stat (proc (age p k) q) = p_stat (proc k q)" "p_nice (proc (age p k) q) = p_nice (proc k q)"
proof -
  let ?k1 = "if p_time (proc k p) \<noteq> 127 then upd_proc p (\<lambda>r. r\<lparr>p_time := p_time r + 1\<rparr>) k else k"
  let ?k2 = "upd_proc p (\<lambda>r. r\<lparr>p_cpu := (if unat (p_cpu r) > 10 then p_cpu r - 10 else 0)\<rparr>) ?k1"
  have a: "age p k = (if sint (p_pri (proc ?k2 p)) > PUSER then setpri p ?k2 else ?k2)" if "p_stat (proc k p) \<noteq> 0"
    using that by (simp only: age_def Let_def if_True simp_thms)
  have cpu: "unat (p_cpu (proc ?k2 p)) = unat (p_cpu (proc k p)) - 10"
    by (auto simp: unat_sub word_le_nat_alt)
  have set: "p_cpu (proc (setpri p k') q) = p_cpu (proc k' q)" "p_time (proc (setpri p k') q) = p_time (proc k' q)"
    "p_stat (proc (setpri p k') q) = p_stat (proc k' q)" "p_nice (proc (setpri p k') q) = p_nice (proc k' q)"
    "q \<noteq> p \<Longrightarrow> proc (setpri p k') q = proc k' q" for k' :: "'a kproc_scheme" and q
    by (subst setpri_proc, simp)+
  show "q \<noteq> p \<Longrightarrow> proc (age p k) q = proc k q"
    by (simp add: age_def Let_def set)
  show "p_stat (proc k p) = 0 \<Longrightarrow> age p k = k" by (simp add: age_def)
  show "unat (p_cpu (proc (age p k) p)) = unat (p_cpu (proc k p)) - 10" if "p_stat (proc k p) \<noteq> 0"
    unfolding a [OF that] using cpu set by (simp only: if_distrib [of "\<lambda>k. p_cpu (proc k p)"] if_cancel)
  show "p_time (proc (age p k) p) = (if p_time (proc k p) = 127 then 127 else p_time (proc k p) + 1)" if "p_stat (proc k p) \<noteq> 0"
    using that by (simp add: age_def Let_def set)
  show "pri (age p k) p = (if pri k p > PUSER
      then min 127 (PUSER + sint (p_nice (proc k p)) + int (unat (p_cpu (proc k p)) - 10) div 16) else pri k p)"
    if "p_stat (proc k p) \<noteq> 0"
  proof -
    have "pri ?k2 p = pri k p" "p_nice (proc ?k2 p) = p_nice (proc k p)" by (simp_all add: pri_def)
    with setpri_bounds [of p ?k2] cpu show ?thesis
      unfolding a [OF that] by (simp only: if_distrib [of "\<lambda>k. pri k p"] pri_def [of ?k2, symmetric])
  qed
  show "p_stat (proc (age p k) q) = p_stat (proc k q)" "p_nice (proc (age p k) q) = p_nice (proc k q)"
    by (auto simp: age_def Let_def set)
qed

lemma fold_age_proc:
  "distinct ps \<Longrightarrow> proc (fold age ps k) q = (if q \<in> set ps then proc (age q k) q else proc k q)"
proof (induction ps arbitrary: k)
  case (Cons p ps)
  have cong: "proc (age q k') q = proc (age q k) q" if "proc k' q = proc k q" "curpri k' = curpri k" for k' :: "'a kproc_scheme"
    using that by (simp add: age_def Let_def setpri_def)
  have "curpri (age p k) = curpri k" by (simp add: age_def Let_def setpri_def)
  then have other: "proc (age q (age p k)) q = proc (age q k) q" if "q \<noteq> p"
    using cong [of "age p k"] age_proc(1) [OF that] by blast
  show ?case
  proof (cases "q = p")
    case True
    with Cons show ?thesis by simp
  next
    case False
    with Cons other age_proc(1) [OF False, of k] show ?thesis by simp
  qed
qed simp

subsection \<open>Properties\<close>

text \<open>the clock keeps time: as long as the callout routines and signal actions leave it alone, every
  tick advances the time of day, counted in sixtieths of a second by \<open>time\<close> and \<open>lbolt\<close>
  together, by exactly one, with the carry from \<open>lbolt\<close> into the low word and from there into the
  high word, and \<open>lbolt\<close> stays below \<open>HZ\<close>.\<close>

theorem clock_keeps_time:
  assumes "\<And>f a. keeps_time (func f a)" "keeps_time psg" "clock func psg mode k = Some k'" "unat (lbolt k) < 60"
  shows "unat (lbolt k') < 60 \<and>
    60 * dpval (time k') + unat (lbolt k') =
      (if unat (lbolt k) = 59 then 60 * ((dpval (time k) + 1) mod 4294967296) else 60 * dpval (time k) + unat (lbolt k) + 1)"
  using assms by (rule clock_time)

theorem clock_keeps_time_witness:
  "\<exists>k'. clock (\<lambda>_ _ k. Some k) Some False (ex_kernel\<lparr>lbolt := 59, time := (0, 65535)\<rparr>) = Some k' \<and> dpval (time k') = 65536"
proof -
  let ?k = "ex_kernel\<lparr>lbolt := 59, time := (0, 65535)\<rparr>"
  have "\<exists>k1. run_callouts (\<lambda>_ _ k. Some k) (?k\<lparr>kcount := kcount ?k + 1\<rparr>) = Some k1"
    by (simp add: run_callouts_def clock_callouts_def ex_kernel_def)
  then obtain k' where k': "clock (\<lambda>_ _ k. Some k) Some False ?k = Some k'" using clock_total by blast
  have kt: "keeps_time Some" by (simp add: keeps_time_def)
  have "60 * dpval (time k') + unat (lbolt k') = 60 * ((65535 + 1) mod 4294967296)" "unat (lbolt k') < 60"
    using clock_keeps_time [OF kt kt k'] by (simp_all add: dpval_def)
  then have "dpval (time k') = 65536" by simp
  with k' show ?thesis by blast
qed

text \<open>ageing: once a second every live process loses ten units of its processor usage (never going
  below zero), is one second older up to the limit of 127, and, if its priority is worse than
  \<open>PUSER\<close>, gets the priority \<open>PUSER + nice + cpu/16\<close> recomputed and limited to 127; free slots and
  better priorities are left alone.\<close>

theorem ageing_exact:
  assumes "q < NPROC" "p_stat (proc k q) \<noteq> 0" "k' = fold age [0..<NPROC] k"
  shows "unat (p_cpu (proc k' q)) = unat (p_cpu (proc k q)) - 10 \<and>
    p_time (proc k' q) = (if p_time (proc k q) = 127 then 127 else p_time (proc k q) + 1) \<and>
    pri k' q = (if pri k q > PUSER
      then min 127 (PUSER + sint (p_nice (proc k q)) + int (unat (p_cpu (proc k q)) - 10) div 16) else pri k q)"
proof -
  have "proc k' q = proc (age q k) q"
    using assms(1,3) fold_age_proc [of "[0..<NPROC]" k q] by (simp only: set_upt distinct_upt atLeastLessThan_iff le0 simp_thms if_True)
  then show ?thesis using age_proc(3,4,5) [OF assms(2)] by (simp only: pri_def simp_thms)
qed

theorem ageing_exact_witness:
  "unat (p_cpu (proc (fold age [0..<NPROC] (upd_proc 1 (\<lambda>r. r\<lparr>p_cpu := 200\<rparr>) ex_kernel)) 1)) = 190"
  using ageing_exact [OF _ _ refl, of 1 "upd_proc 1 (\<lambda>r. r\<lparr>p_cpu := 200\<rparr>) ex_kernel"]
  by (simp add: ex_procs_def no_proc_def)

end
