(* ===== verification/Bio.thy ===== *)
theory Bio
  imports Slp
begin

unbundle bit_operations_syntax

text \<open>
  \<open>dmr/bio.c\<close>, \<open>dmr/rk.c\<close> and \<open>dmr/ide.c\<close>: the buffer cache, the disk driver and the IDE
  controller underneath it.

  A buffer header is a pointer \<open>bp\<close>: one of the \<open>NBUF\<close> buffers, the header of the free list, the
  table of the disk (whose \<open>b_forw\<close> and \<open>b_back\<close> are at the same place as in a buffer) or the
  header used for swapping; the fields of the headers are maps from pointers, so that the doubly linked
  lists are the code's own.  The data of all buffers is the array \<open>buffers\<close>, 514 bytes for each, as
  one stretch of memory.  There is one block device; the entries of \<open>bdevsw\<close> beyond it are null and
  a call through them is \<open>None\<close>, as is a panic.

  The disk is the hardware as the ATA standard describes it for the commands the driver uses: a write
  command stores the 256 words that follow it in the addressed sector, and a read command makes the
  data port deliver the words of the addressed sector; an interrupt follows either.
\<close>

subsection \<open>State\<close>

abbreviation "NBUF \<equiv> (15 :: nat)"
abbreviation "NRKBLK \<equiv> (4872 :: u16)"
abbreviation "NODEV \<equiv> (-1 :: u16)"

abbreviation "B_READ \<equiv> (1 :: u16)"
abbreviation "B_DONE \<equiv> (2 :: u16)"
abbreviation "B_ERROR \<equiv> (4 :: u16)"
abbreviation "B_BUSY \<equiv> (8 :: u16)"
abbreviation "B_PHYS \<equiv> (16 :: u16)"
abbreviation "B_MAP \<equiv> (32 :: u16)"
abbreviation "B_WANTED \<equiv> (64 :: u16)"
abbreviation "B_RELOC \<equiv> (128 :: u16)"
abbreviation "B_ASYNC \<equiv> (256 :: u16)"
abbreviation "B_DELWRI \<equiv> (512 :: u16)"

datatype bp = BNull | Bfree | Rktab | Swbuf | Buf nat

text \<open>Where a transfer goes: an address in \<open>buffers\<close>, or an offset in a segment of user memory.\<close>

datatype ioaddr = KBuf nat | UMem u16 u16

record kbio = kproc +
  b_flags :: "bp \<Rightarrow> u16"
  b_forw :: "bp \<Rightarrow> bp"
  b_back :: "bp \<Rightarrow> bp"
  av_forw :: "bp \<Rightarrow> bp"
  av_back :: "bp \<Rightarrow> bp"
  b_dev :: "bp \<Rightarrow> u16"
  b_wcount :: "bp \<Rightarrow> u16"
  b_blkno :: "bp \<Rightarrow> u16"
  b_error :: "bp \<Rightarrow> u16"
  b_xmem :: "bp \<Rightarrow> u16"
  buffers :: "nat \<Rightarrow> u8"
  d_active :: u8
  d_errcnt :: u8
  d_actf :: bp
  d_actl :: bp
  nblkdev :: u16
  rablock :: u16
  swapdev :: u16
  io_sector :: u16
  io_count :: u16
  io_cmd :: u16
  io_buf :: ioaddr
  disk :: "nat \<Rightarrow> nat \<Rightarrow> u8"
  disk_sector :: nat

definition set_flags :: "bp \<Rightarrow> u16 \<Rightarrow> 'a kbio_scheme \<Rightarrow> 'a kbio_scheme" where
  "set_flags p f k = k\<lparr>b_flags := (b_flags k)(p := f)\<rparr>"

text \<open>\<open>bp->b_addr\<close> of a buffer.\<close>

fun b_addr :: "bp \<Rightarrow> nat" where
  "b_addr (Buf i) = 514 * i"
| "b_addr _ = 0"

fun buf_chan :: "bp \<Rightarrow> chan" where
  "buf_chan (Buf i) = ChBuf i"
| "buf_chan Swbuf = ChSwbuf"
| "buf_chan _ = ChBfree"

definition minor :: "u16 \<Rightarrow> u16" where "minor x = x AND 255"

definition major :: "u16 \<Rightarrow> int" where "major x = sint x div 256"

subsection \<open>The IDE controller\<close>

text \<open>The bytes a transfer address denotes, and the store of a sector there.\<close>

definition io_read :: "ioaddr \<Rightarrow> nat \<Rightarrow> 'a kbio_scheme \<Rightarrow> u8" where
  "io_read a i k = (case a of KBuf b \<Rightarrow> buffers k (b + i) | UMem seg off \<Rightarrow> mem k (linear seg (off + of_nat i)))"

definition io_store :: "ioaddr \<Rightarrow> (nat \<Rightarrow> u8) \<Rightarrow> 'a kbio_scheme \<Rightarrow> 'a kbio_scheme" where
  "io_store a d k =
     (case a of
        KBuf b \<Rightarrow> k\<lparr>buffers := (\<lambda>x. if b \<le> x \<and> x < b + 512 then d (x - b) else buffers k x)\<rparr>
      | UMem seg off \<Rightarrow> fold (\<lambda>i k. k\<lparr>mem := (mem k)(linear seg (off + of_nat i) := d i)\<rparr>) [0..<512] k)"

definition io_null :: "ioaddr \<Rightarrow> bool" where
  "io_null a = (case a of KBuf b \<Rightarrow> False | UMem seg off \<Rightarrow> off = 0)"

text \<open>\<open>idestart(sector, data, seg)\<close>; \<open>data\<close> is \<open>None\<close> when the code passes a null pointer.\<close>

definition idestart :: "u16 \<Rightarrow> ioaddr option \<Rightarrow> 'a kbio_scheme \<Rightarrow> 'a kbio_scheme" where
  "idestart sector data k =
     (let k = k\<lparr>disk_sector := unat sector\<rparr> in
      case data of
        None \<Rightarrow> k
      | Some a \<Rightarrow> if io_null a then k
          else k\<lparr>disk := (disk k)(unat sector := (\<lambda>i. if i < 512 then io_read a i k else 0))\<rparr>)"

definition ideio :: "u16 \<Rightarrow> u16 \<Rightarrow> ioaddr \<Rightarrow> u16 \<Rightarrow> 'a kbio_scheme \<Rightarrow> 'a kbio_scheme" where
  "ideio sector cnt b cmd k =
     idestart sector (if cmd = 0 then Some b else None)
       (k\<lparr>io_sector := sector, io_count := cnt, io_buf := b, io_cmd := cmd\<rparr>)"

definition io_next :: "ioaddr \<Rightarrow> ioaddr" where
  "io_next a = (case a of KBuf b \<Rightarrow> KBuf (b + 512) | UMem seg off \<Rightarrow> UMem seg (off + 512))"

subsection \<open>Releasing and completing\<close>

definition brelse :: "bp \<Rightarrow> 'a kbio_scheme \<Rightarrow> 'a kbio_scheme" where
  "brelse p k =
     (let k = (if flag (b_flags k p) B_WANTED then wakeup (buf_chan p) k else k);
          k = (if flag (b_flags k Bfree) B_WANTED
               then wakeup ChBfree (set_flags Bfree (clrf (b_flags k Bfree) B_WANTED) k) else k);
          k = (if flag (b_flags k p) B_ERROR then k\<lparr>b_dev := (b_dev k)(p := setf (b_dev k p) 255)\<rparr> else k);
          k = spl 6 k;
          k = set_flags p (clrf (b_flags k p) (B_WANTED OR B_BUSY OR B_ASYNC)) k;
          last = av_back k Bfree;
          k = k\<lparr>av_forw := (av_forw k)(last := p)\<rparr>;
          k = k\<lparr>av_back := (av_back k)(p := last, Bfree := p)\<rparr>
      in k\<lparr>av_forw := (av_forw k)(p := Bfree)\<rparr>)"

definition iodone :: "bp \<Rightarrow> 'a kbio_scheme \<Rightarrow> 'a kbio_scheme" where
  "iodone p k =
     (let k = set_flags p (setf (b_flags k p) B_DONE) k in
      if flag (b_flags k p) B_ASYNC then brelse p k
      else wakeup (buf_chan p) (set_flags p (clrf (b_flags k p) B_WANTED) k))"

definition notavail :: "bp \<Rightarrow> 'a kbio_scheme \<Rightarrow> 'a kbio_scheme" where
  "notavail p k =
     (let k = spl 6 k;
          k = k\<lparr>av_forw := (av_forw k)(av_back k p := av_forw k p)\<rparr>;
          k = k\<lparr>av_back := (av_back k)(av_forw k p := av_back k p)\<rparr>
      in set_flags p (setf (b_flags k p) B_BUSY) k)"

definition geterror :: "bp \<Rightarrow> 'a kbio_scheme \<Rightarrow> 'a kbio_scheme" where
  "geterror p k =
     (if flag (b_flags k p) B_ERROR then
        let k = set_error (ucast (b_error k p)) k in if u_error (u k) = 0 then set_error EIO k else k
      else k)"

subsection \<open>The disk driver\<close>

definition devstart :: "bp \<Rightarrow> 'a kbio_scheme \<Rightarrow> 'a kbio_scheme" where
  "devstart p k =
     (let sector = b_blkno k p + NRKBLK * minor (b_dev k p);
          cmd = b_flags k p AND B_READ in
      if flag (b_flags k p) B_PHYS
      then ideio sector (8 * b_wcount k p) (UMem (page_seg (b_xmem k p)) 0) cmd k
      else ideio sector 1 (KBuf (b_addr p)) cmd k)"

definition rkstart :: "'a kbio_scheme \<Rightarrow> 'a kbio_scheme" where
  "rkstart k =
     (if d_actf k = BNull then k
      else devstart (d_actf k) (k\<lparr>d_active := d_active k + 1\<rparr>))"

definition rkstrategy :: "bp \<Rightarrow> 'a kbio_scheme \<Rightarrow> 'a kbio_scheme" where
  "rkstrategy p k =
     (let d = minor (b_dev k p) - 7;
          d = (if sint d \<le> 0 then 1 else d) in
      if sint (b_blkno k p) \<ge> sint (NRKBLK * d)
      then iodone p (set_flags p (setf (b_flags k p) B_ERROR) k)
      else
        let k = spl 5 (k\<lparr>av_forw := (av_forw k)(p := BNull)\<rparr>);
            k = (if d_actf k = BNull then k\<lparr>d_actf := p\<rparr> else k\<lparr>av_forw := (av_forw k)(d_actl k := p)\<rparr>);
            k = k\<lparr>d_actl := p\<rparr>;
            k = (if d_active k = 0 then rkstart k else k)
        in spl 0 k)"

definition rkintr :: "'a kbio_scheme \<Rightarrow> 'a kbio_scheme" where
  "rkintr k =
     (if d_active k = 0 then k
      else
        let p = d_actf k;
            k = k\<lparr>d_active := 0, d_errcnt := 0, d_actf := av_forw k p\<rparr>
        in rkstart (iodone p k))"

definition ideintr :: "'a kbio_scheme \<Rightarrow> 'a kbio_scheme" where
  "ideintr k =
     (let k = k\<lparr>io_sector := io_sector k + 1, io_count := io_count k - 1\<rparr>;
          k = (if io_cmd k \<noteq> 0 then io_store (io_buf k) (disk k (disk_sector k)) k else k);
          k = k\<lparr>io_buf := io_next (io_buf k)\<rparr>
      in if sint (io_count k) \<le> 0 then rkintr k
         else idestart (io_sector k) (if io_cmd k = 0 then Some (io_buf k) else None) k)"

text \<open>The call through \<open>bdevsw[major(dev)].d_strategy\<close>.\<close>

definition strategy :: "bp \<Rightarrow> 'a kbio_scheme \<Rightarrow> 'a kbio_scheme option" where
  "strategy p k = (if major (b_dev k p) = 0 then Some (rkstrategy p k) else None)"

subsection \<open>Waiting and writing\<close>

text \<open>\<open>away\<close> is what the system does while the process that waits is switched out.\<close>

partial_function (option) iowait_loop ::
  "('a kbio_scheme \<Rightarrow> 'a kbio_scheme option) \<Rightarrow> bp \<Rightarrow> 'a kbio_scheme \<Rightarrow> 'a kbio_scheme option" where
  "iowait_loop away p k =
     (if flag (b_flags k p) B_DONE then Some k
      else do { k \<leftarrow> sleep_neg away (buf_chan p) PRIBIO k; iowait_loop away p k })"

definition iowait :: "('a kbio_scheme \<Rightarrow> 'a kbio_scheme option) \<Rightarrow> bp \<Rightarrow> 'a kbio_scheme \<Rightarrow> 'a kbio_scheme option" where
  "iowait away p k = do {
     k \<leftarrow> iowait_loop away p (spl 6 k);
     Some (geterror p (spl 0 k)) }"

definition bwrite :: "('a kbio_scheme \<Rightarrow> 'a kbio_scheme option) \<Rightarrow> bp \<Rightarrow> 'a kbio_scheme \<Rightarrow> 'a kbio_scheme option" where
  "bwrite away p k = do {
     let fl = b_flags k p;
     let k = set_flags p (clrf fl (B_READ OR B_DONE OR B_ERROR OR B_DELWRI)) k;
     let k = k\<lparr>b_wcount := (b_wcount k)(p := -256)\<rparr>;
     k \<leftarrow> strategy p k;
     if \<not> flag fl B_ASYNC then do { k \<leftarrow> iowait away p k; Some (brelse p k) }
     else if \<not> flag fl B_DELWRI then Some (geterror p k)
     else Some k }"

definition bawrite :: "('a kbio_scheme \<Rightarrow> 'a kbio_scheme option) \<Rightarrow> bp \<Rightarrow> 'a kbio_scheme \<Rightarrow> 'a kbio_scheme option" where
  "bawrite away p k = bwrite away p (set_flags p (setf (b_flags k p) B_ASYNC) k)"

text \<open>No device of this system has the table of a magnetic tape, so \<open>bdwrite\<close> always delays.\<close>

definition bdwrite :: "bp \<Rightarrow> 'a kbio_scheme \<Rightarrow> 'a kbio_scheme" where
  "bdwrite p k = brelse p (set_flags p (setf (b_flags k p) (B_DELWRI OR B_DONE)) k)"

subsection \<open>Finding and assigning buffers\<close>

text \<open>The list of a device: \<open>bdevsw[major(dev)].d_tab\<close>.\<close>

definition d_tab :: "u16 \<Rightarrow> bp option" where
  "d_tab dev = (if major dev = 0 then Some Rktab else None)"

text \<open>\<open>for (bp=dp->b_forw; bp != dp; bp = bp->b_forw)\<close> up to the buffer of the block; \<open>dp\<close> if there is
  none.\<close>

partial_function (option) bsearch :: "'a kbio_scheme \<Rightarrow> bp \<Rightarrow> u16 \<Rightarrow> u16 \<Rightarrow> bp \<Rightarrow> bp option" where
  "bsearch k dt dev blkno p =
     (if p = dt then Some dt
      else if b_blkno k p = blkno \<and> b_dev k p = dev then Some p
      else bsearch k dt dev blkno (b_forw k p))"

definition incore :: "u16 \<Rightarrow> u16 \<Rightarrow> 'a kbio_scheme \<Rightarrow> bool option" where
  "incore dev blkno k = do {
     dt \<leftarrow> d_tab dev;
     p \<leftarrow> bsearch k dt dev blkno (b_forw k dt);
     Some (p \<noteq> dt) }"

text \<open>The last part of \<open>getblk\<close>: the buffer leaves its device list and enters that of \<open>dp\<close>.\<close>

definition reassign :: "bp \<Rightarrow> bp \<Rightarrow> u16 \<Rightarrow> u16 \<Rightarrow> 'a kbio_scheme \<Rightarrow> 'a kbio_scheme" where
  "reassign p dt dev blkno k =
     (let k = set_flags p (B_BUSY OR B_RELOC) k;
          k = k\<lparr>b_forw := (b_forw k)(b_back k p := b_forw k p)\<rparr>;
          k = k\<lparr>b_back := (b_back k)(b_forw k p := b_back k p)\<rparr>;
          k = k\<lparr>b_forw := (b_forw k)(p := b_forw k dt)\<rparr>;
          k = k\<lparr>b_back := (b_back k)(p := dt)\<rparr>;
          k = k\<lparr>b_back := (b_back k)(b_forw k dt := p)\<rparr>;
          k = k\<lparr>b_forw := (b_forw k)(dt := p)\<rparr>
      in k\<lparr>b_dev := (b_dev k)(p := dev), b_blkno := (b_blkno k)(p := blkno)\<rparr>)"

partial_function (option) getblk ::
  "('a kbio_scheme \<Rightarrow> 'a kbio_scheme option) \<Rightarrow> u16 \<Rightarrow> u16 \<Rightarrow> 'a kbio_scheme \<Rightarrow> (bp \<times> 'a kbio_scheme) option" where
  "getblk away dev blkno k =
     (if major dev \<ge> sint (nblkdev k) then None
      else do {
        dt \<leftarrow> (if sint dev < 0 then Some Bfree else d_tab dev);
        p \<leftarrow> (if sint dev < 0 then Some Bfree else bsearch k dt dev blkno (b_forw k dt));
        if p \<noteq> dt then
          (if flag (b_flags k p) B_BUSY then do {
             k \<leftarrow> sleep_neg away (buf_chan p) PRIBIO (set_flags p (setf (b_flags k p) B_WANTED) (spl 6 k));
             getblk away dev blkno (spl 0 k) }
           else Some (p, notavail p (spl 0 (spl 6 k))))
        else if av_forw k Bfree = Bfree then do {
          k \<leftarrow> sleep_neg away ChBfree PRIBIO (set_flags Bfree (setf (b_flags k Bfree) B_WANTED) (spl 6 k));
          getblk away dev blkno (spl 0 k) }
        else do {
          let p = av_forw k Bfree;
          let k = notavail p (spl 0 (spl 6 k));
          if flag (b_flags k p) B_DELWRI then do {
            k \<leftarrow> bwrite away p (set_flags p (setf (b_flags k p) B_ASYNC) k);
            getblk away dev blkno k }
          else Some (p, reassign p dt dev blkno k) } })"

definition bread :: "('a kbio_scheme \<Rightarrow> 'a kbio_scheme option) \<Rightarrow> u16 \<Rightarrow> u16 \<Rightarrow> 'a kbio_scheme \<Rightarrow> (bp \<times> 'a kbio_scheme) option" where
  "bread away dev blkno k = do {
     (p, k) \<leftarrow> getblk away dev blkno k;
     if flag (b_flags k p) B_DONE then Some (p, k)
     else do {
       let k = set_flags p (setf (b_flags k p) B_READ) k;
       let k = k\<lparr>b_wcount := (b_wcount k)(p := -256)\<rparr>;
       k \<leftarrow> strategy p k;
       k \<leftarrow> iowait away p k;
       Some (p, k) } }"

definition breada :: "('a kbio_scheme \<Rightarrow> 'a kbio_scheme option) \<Rightarrow> u16 \<Rightarrow> u16 \<Rightarrow> u16 \<Rightarrow> 'a kbio_scheme \<Rightarrow> (bp \<times> 'a kbio_scheme) option" where
  "breada away dev blkno rablkno k = do {
     inc \<leftarrow> incore dev blkno k;
     (rbp, k) \<leftarrow> (if \<not> inc then do {
         (p, k) \<leftarrow> getblk away dev blkno k;
         if \<not> flag (b_flags k p) B_DONE then do {
           let k = set_flags p (setf (b_flags k p) B_READ) k;
           k \<leftarrow> strategy p (k\<lparr>b_wcount := (b_wcount k)(p := -256)\<rparr>);
           Some (p, k) }
         else Some (p, k) }
       else Some (BNull, k));
     k \<leftarrow> (if rablkno \<noteq> 0 then do {
         inc \<leftarrow> incore dev rablkno k;
         if inc then Some k
         else do {
           (p, k) \<leftarrow> getblk away dev rablkno k;
           if flag (b_flags k p) B_DONE then Some (brelse p k)
           else do {
             let k = set_flags p (setf (b_flags k p) (B_READ OR B_ASYNC)) k;
             strategy p (k\<lparr>b_wcount := (b_wcount k)(p := -256)\<rparr>) } } }
       else Some k);
     if rbp = BNull then bread away dev blkno k
     else do { k \<leftarrow> iowait away rbp k; Some (rbp, k) } }"

definition clrbuf :: "bp \<Rightarrow> 'a kbio_scheme \<Rightarrow> 'a kbio_scheme" where
  "clrbuf p k = k\<lparr>buffers := (\<lambda>x. if b_addr p \<le> x \<and> x < b_addr p + 512 then 0 else buffers k x)\<rparr>"

text \<open>\<open>bflush\<close>: the search along the available list and the loop.\<close>

partial_function (option) flush_search :: "'a kbio_scheme \<Rightarrow> u16 \<Rightarrow> bp \<Rightarrow> bp option" where
  "flush_search k dev p =
     (if p = Bfree then Some Bfree
      else if flag (b_flags k p) B_DELWRI \<and> (dev = NODEV \<or> dev = b_dev k p) then Some p
      else flush_search k dev (av_forw k p))"

partial_function (option) bflush ::
  "('a kbio_scheme \<Rightarrow> 'a kbio_scheme option) \<Rightarrow> u16 \<Rightarrow> 'a kbio_scheme \<Rightarrow> 'a kbio_scheme option" where
  "bflush away dev k = do {
     let k = spl 6 k;
     p \<leftarrow> flush_search k dev (av_forw k Bfree);
     if p = Bfree then Some (spl 0 k)
     else do {
       let k = notavail p (set_flags p (setf (b_flags k p) B_ASYNC) k);
       k \<leftarrow> bwrite away p k;
       bflush away dev k } }"

subsection \<open>Swapping\<close>

partial_function (option) swap_wait ::
  "('a kbio_scheme \<Rightarrow> 'a kbio_scheme option) \<Rightarrow> 'a kbio_scheme \<Rightarrow> 'a kbio_scheme option" where
  "swap_wait away k =
     (if flag (b_flags k Swbuf) B_BUSY then do {
        k \<leftarrow> sleep_neg away ChSwbuf PSWP (set_flags Swbuf (setf (b_flags k Swbuf) B_WANTED) k);
        swap_wait away k }
      else Some k)"

partial_function (option) swap_done ::
  "('a kbio_scheme \<Rightarrow> 'a kbio_scheme option) \<Rightarrow> 'a kbio_scheme \<Rightarrow> 'a kbio_scheme option" where
  "swap_done away k =
     (if flag (b_flags k Swbuf) B_DONE then Some k
      else do { k \<leftarrow> sleep_neg away ChSwbuf PSWP k; swap_done away k })"

text \<open>\<open>swap(blkno, coreaddr, count, rdflg)\<close>; the result tells whether \<open>B_ERROR\<close> is set.\<close>

definition swap :: "('a kbio_scheme \<Rightarrow> 'a kbio_scheme option) \<Rightarrow> 'a kbio_scheme swapio" where
  "swap away blkno coreaddr cnt rdflg k = do {
     k \<leftarrow> swap_wait away (spl 6 k);
     let k = set_flags Swbuf (B_BUSY OR B_PHYS OR (if rdflg then B_READ else 0)) k;
     let k = k\<lparr>b_dev := (b_dev k)(Swbuf := swapdev k), b_wcount := (b_wcount k)(Swbuf := cnt),
              b_blkno := (b_blkno k)(Swbuf := blkno), b_xmem := (b_xmem k)(Swbuf := coreaddr)\<rparr>;
     k \<leftarrow> strategy Swbuf k;
     k \<leftarrow> swap_done away (spl 6 k);
     let k = (if flag (b_flags k Swbuf) B_WANTED then wakeup ChSwbuf k else k);
     let k = set_flags Swbuf (clrf (b_flags k Swbuf) (B_BUSY OR B_WANTED)) (spl 0 k);
     Some (flag (b_flags k Swbuf) B_ERROR, k) }"

text \<open>\<open>binit\<close>: all buffers free and unassociated; one device is counted.\<close>

definition binit_one :: "nat \<Rightarrow> 'a kbio_scheme \<Rightarrow> 'a kbio_scheme" where
  "binit_one i k =
     (let p = Buf i;
          k = k\<lparr>b_dev := (b_dev k)(p := -1), b_back := (b_back k)(p := Bfree), b_forw := (b_forw k)(p := b_forw k Bfree)\<rparr>;
          k = k\<lparr>b_back := (b_back k)(b_forw k Bfree := p)\<rparr>;
          k = k\<lparr>b_forw := (b_forw k)(Bfree := p)\<rparr>
      in brelse p (set_flags p B_BUSY k))"

definition binit :: "'a kbio_scheme \<Rightarrow> 'a kbio_scheme" where
  "binit k =
     (let k = k\<lparr>b_forw := (b_forw k)(Bfree := Bfree), b_back := (b_back k)(Bfree := Bfree),
               av_forw := (av_forw k)(Bfree := Bfree), av_back := (av_back k)(Bfree := Bfree)\<rparr>;
          k = fold binit_one [0..<NBUF] k
      in k\<lparr>b_forw := (b_forw k)(Rktab := Rktab), b_back := (b_back k)(Rktab := Rktab), nblkdev := 1\<rparr>)"

end
