(* ===== verification/Dll.thy ===== *)
theory Dll
  imports Main
begin

text \<open>
  Circular doubly linked lists with a header, as the buffer cache uses them: \<open>f\<close> and \<open>b\<close> are the
  forward and backward links, \<open>h\<close> the header and \<open>xs\<close> the members in forward order.  The lemmas
  are the three pointer manipulations of \<open>dmr/bio.c\<close>: taking a member out, and putting one in at
  the end or at the front.
\<close>

fun links :: "('a \<Rightarrow> 'a) \<Rightarrow> ('a \<Rightarrow> 'a) \<Rightarrow> 'a list \<Rightarrow> bool" where
  "links f b (x # y # zs) \<longleftrightarrow> f x = y \<and> b y = x \<and> links f b (y # zs)"
| "links f b _ \<longleftrightarrow> True"

definition dll :: "('a \<Rightarrow> 'a) \<Rightarrow> ('a \<Rightarrow> 'a) \<Rightarrow> 'a \<Rightarrow> 'a list \<Rightarrow> bool" where
  "dll f b h xs \<longleftrightarrow> links f b (h # xs @ [h]) \<and> distinct (h # xs)"

lemma links_append: "links f b (xs @ y # zs) \<longleftrightarrow> links f b (xs @ [y]) \<and> links f b (y # zs)"
proof (induction xs)
  case (Cons x xs)
  then show ?case by (cases xs) auto
qed simp

lemma links_appendD:
  "links f b (xs @ y # zs) \<Longrightarrow> links f b (xs @ [y])" "links f b (xs @ y # zs) \<Longrightarrow> links f b (y # zs)"
  by (simp_all add: links_append [of f b xs y zs])

lemma links_cong:
  "(\<And>x. x \<in> set (butlast zs) \<Longrightarrow> f' x = f x) \<Longrightarrow> (\<And>x. x \<in> set (tl zs) \<Longrightarrow> b' x = b x) \<Longrightarrow>
    links f' b' zs = links f b zs"
  by (induction f b zs rule: links.induct) auto

lemma dll_cong:
  assumes "\<And>x. x \<in> set (h # xs) \<Longrightarrow> f' x = f x" "\<And>x. x \<in> set (h # xs) \<Longrightarrow> b' x = b x"
  shows "dll f' b' h xs = dll f b h xs"
proof -
  have "links f' b' (h # xs @ [h]) = links f b (h # xs @ [h])"
    by (rule links_cong) (use assms in \<open>auto simp: butlast_append split: if_splits\<close>)
  then show ?thesis by (simp add: dll_def)
qed

lemma dll_first: "dll f b h xs \<Longrightarrow> f h = hd (xs @ [h])"
  by (cases xs) (auto simp: dll_def)

lemma dll_last: "dll f b h xs \<Longrightarrow> b h = last (h # xs)"
proof -
  assume d: "dll f b h xs"
  show ?thesis
  proof (cases xs rule: rev_cases)
    case (snoc ys y)
    with d have "links f b ((h # ys) @ y # [h])" by (simp add: dll_def)
    then have "links f b (y # [h])" by (rule links_appendD)
    with snoc show ?thesis by simp
  qed (use d in \<open>simp add: dll_def\<close>)
qed

lemma dll_next:
  assumes "dll f b h (ys @ x # zs)"
  shows "f x = hd (zs @ [h])" "b x = last (h # ys)"
proof -
  from assms have l: "links f b ((h # ys) @ x # zs @ [h])" by (simp add: dll_def)
  have "links f b (x # zs @ [h])" using l by (rule links_appendD)
  then show "f x = hd (zs @ [h])" by (cases zs) auto
  have m: "links f b ((h # ys) @ [x])" using l by (rule links_appendD)
  show "b x = last (h # ys)"
  proof (cases ys rule: rev_cases)
    case Nil
    with m show ?thesis by simp
  next
    case (snoc us w)
    with m have "links f b ((h # us) @ w # [x])" by simp
    then have "links f b (w # [x])" by (rule links_appendD)
    with snoc show ?thesis by simp
  qed
qed

text \<open>Unlinking: \<open>x->b->f = x->f; x->f->b = x->b\<close>.\<close>

lemma dll_unlink:
  assumes d: "dll f b h (ys @ x # zs)"
  defines "f' \<equiv> f(b x := f x)" and "b' \<equiv> b(f x := b x)"
  shows "dll f' b' h (ys @ zs)"
proof -
  let ?p = "last (h # ys)" and ?n = "hd (zs @ [h])"
  have fx: "f x = ?n" and bx: "b x = ?p" using dll_next [OF d] by auto
  have dist: "distinct (h # ys @ x # zs)" using d by (simp add: dll_def)
  from d have l: "links f b ((h # ys) @ x # zs @ [h])" by (simp add: dll_def)
  have l1: "links f b ((h # ys) @ [x])" using l by (rule links_appendD)
  have l2: "links f b (x # zs @ [h])" using l by (rule links_appendD)
  obtain ps where ps: "h # ys = ps @ [?p]" by (metis append_butlast_last_id list.distinct(1))
  obtain ns where ns: "zs @ [h] = ?n # ns" by (cases zs) auto
  have "links f b (ps @ ?p # [x])" using l1 ps by (metis append_Cons append_Nil append_assoc)
  then have a: "links f b (ps @ [?p])" by (rule links_appendD)
  have c: "links f b (?n # ns)" using l2 ns by (cases zs) auto
  have nsub: "set ns \<subseteq> set zs \<union> {h}" using ns by (metis Un_insert_right list.set(1) list.set_intros(2) list.simps(15) set_append subsetI sup_bot.right_neutral)
  have pdist: "distinct (ps @ [?p])" using ps dist by (metis append_Cons distinct_append)
  have pset: "set (ps @ [?p]) = set (h # ys)" using ps by (metis)
  have ndist: "distinct (?n # ns)" using ns dist by (metis (no_types) distinct_append distinct_length_2_or_more distinct1_rotate distinct.simps(2) rotate1.simps(2) append.assoc distinct_append append_Cons)
  have a': "links f' b' (ps @ [?p])"
  proof (subst links_cong [where f = f and b = b])
    fix y assume "y \<in> set (butlast (ps @ [?p]))"
    then show "f' y = f y" using pdist by (auto simp: f'_def bx)
  next
    fix y assume y: "y \<in> set (tl (ps @ [?p]))"
    then have "y \<in> set ys" using ps by (metis list.sel(3))
    then have "y \<noteq> ?n" using dist by (cases zs) auto
    then show "b' y = b y" by (simp add: b'_def fx)
  qed (rule a)
  have c': "links f' b' (?n # ns)"
  proof (subst links_cong [where f = f and b = b])
    fix y assume "y \<in> set (butlast (?n # ns))"
    then have "y \<in> set zs" using ns by (metis butlast_snoc)
    then have "y \<noteq> ?p" using dist pset by (cases ys rule: rev_cases) auto
    then show "f' y = f y" by (simp add: f'_def bx)
  next
    fix y assume "y \<in> set (tl (?n # ns))"
    then have "y \<noteq> ?n" using ndist by auto
    then show "b' y = b y" by (simp add: b'_def fx)
  qed (rule c)
  have pn: "f' ?p = ?n" "b' ?n = ?p" by (simp_all add: f'_def b'_def fx bx)
  have "links f' b' (ps @ ?p # ?n # ns)"
    using a' c' pn by (simp only: links_append [of f' b' ps ?p "?n # ns"] links.simps)
  then have "links f' b' (h # (ys @ zs) @ [h])"
    using ps ns by (metis append.assoc append_Cons append_Nil)
  then show ?thesis using dist by (auto simp: dll_def)
qed

text \<open>Insertion between two neighbours \<open>p\<close> and \<open>n\<close>, at the front or the end.\<close>

lemma dll_insert:
  assumes d: "dll f b h (ys @ zs)" and x: "x \<notin> set (h # ys @ zs)"
    and p: "p = last (h # ys)" and n: "n = hd (zs @ [h])"
    and f': "f' = f(p := x, x := n)" and b': "b' = b(n := x, x := p)"
  shows "dll f' b' h (ys @ x # zs)"
proof -
  have dist: "distinct (h # ys @ zs)" using d by (simp add: dll_def)
  obtain ps where ps: "h # ys = ps @ [p]" using p by (metis append_butlast_last_id list.distinct(1))
  obtain ns where ns: "zs @ [h] = n # ns" using n by (cases zs) auto
  have l: "links f b (ps @ p # n # ns)"
    using d ps ns unfolding dll_def by (metis append.assoc append_Cons append_Nil)
  have a: "links f b (ps @ [p])" using l by (rule links_appendD)
  have "links f b (p # n # ns)" using l by (rule links_appendD)
  then have c: "links f b (n # ns)" by simp
  have pset: "set ps \<subseteq> set (h # ys)" "p \<notin> set ps" using ps dist by (metis (no_types) UnCI set_append subsetI, metis (no_types) distinct.simps(2) distinct_append append_Cons disjoint_insert(2) list.set(2) not_distinct_conv_prefix)
  have nset: "n \<notin> set ns" "set ns \<subseteq> set zs \<union> {h}"
    using ns dist by (cases zs; auto)+
  have a': "links f' b' (ps @ [p])"
  proof (subst links_cong [where f = f and b = b])
    fix y assume "y \<in> set (butlast (ps @ [p]))"
    then show "f' y = f y" using pset x by (auto simp: f')
  next
    fix y assume y: "y \<in> set (tl (ps @ [p]))"
    then have "y \<in> set ys" using ps by (metis list.sel(3))
    then have "y \<noteq> n" "y \<noteq> x" using dist x ns by (cases zs; auto)+
    then show "b' y = b y" by (simp add: b')
  qed (rule a)
  have c': "links f' b' (n # ns)"
  proof (subst links_cong [where f = f and b = b])
    fix y assume "y \<in> set (butlast (n # ns))"
    then have "y \<in> set zs" using ns by (metis butlast_snoc)
    then have "y \<noteq> p" "y \<noteq> x" using dist x p by (cases ys rule: rev_cases; auto)+
    then show "f' y = f y" by (simp add: f')
  next
    fix y assume "y \<in> set (tl (n # ns))"
    then have "y \<noteq> n" "y \<noteq> x" using nset x by auto
    then show "b' y = b y" by (simp add: b')
  qed (rule c)
  have px: "p \<noteq> x" "n \<noteq> x" using x p n by (cases ys rule: rev_cases; cases zs; auto)+
  then have "f' p = x" "b' x = p" "f' x = n" "b' n = x" by (simp_all add: f' b')
  then have "links f' b' (ps @ p # x # n # ns)"
    using a' c' by (simp only: links_append [of f' b' ps p "x # n # ns"] links.simps)
  then have "links f' b' (h # (ys @ x # zs) @ [h])"
    using ps ns by (metis append.assoc append_Cons append_Nil)
  then show ?thesis using dist x by (auto simp: dll_def)
qed

text \<open>Two lists over the same links: moving a member leaves the other list alone.\<close>

lemma dll_unlink_other:
  assumes d: "dll f b h (ys @ x # zs)" and o: "dll f b g ws" and dis: "set (h # ys @ x # zs) \<inter> set (g # ws) = {}"
  shows "dll (f(b x := f x)) (b(f x := b x)) g ws"
proof -
  have "f x \<in> set (h # zs)" "b x \<in> set (h # ys)" using dll_next [OF d] by (cases zs; cases ys rule: rev_cases; auto)+
  with dis have "f x \<notin> set (g # ws)" "b x \<notin> set (g # ws)" by auto
  then have "dll (f(b x := f x)) (b(f x := b x)) g ws = dll f b g ws" by (intro dll_cong) auto
  with o show ?thesis by simp
qed

lemma dll_push:
  assumes d: "dll f b h xs" and x: "x \<notin> set (h # xs)"
  shows "dll (f(x := f h, h := x)) (b(x := h, f h := x)) h (x # xs)"
proof -
  have n: "f h = hd (xs @ [h])" using d by (rule dll_first)
  then have "f h \<noteq> x" using x by (cases xs) auto
  then show ?thesis
    using dll_insert [of f b h "[]" xs x h "f h" "f(h := x, x := f h)" "b(f h := x, x := h)"] d x n
    by (simp add: fun_upd_twist)
qed

lemma dll_push_other:
  assumes d: "dll f b h xs" and o: "dll f b g ws" and x: "x \<notin> set (g # ws)" and dis: "set (h # xs) \<inter> set (g # ws) = {}"
  shows "dll (f(x := f h, h := x)) (b(x := h, f h := x)) g ws"
proof -
  have "f h \<in> set (h # xs)" using dll_first [OF d] by (cases xs) auto
  with dis have "f h \<notin> set (g # ws)" by auto
  then have "dll (f(x := f h, h := x)) (b(x := h, f h := x)) g ws = dll f b g ws" using x dis by (intro dll_cong) auto
  with o show ?thesis by simp
qed

end
