(* ===== verification/Cache.thy ===== *)
theory Cache
  imports Bio Dll
begin

unbundle bit_operations_syntax

text \<open>
  The invariant of the buffer cache.  The available list, the list of the disk and the list of
  unassociated buffers are circular doubly linked lists; a buffer is available exactly when it is not
  busy; every buffer is on exactly one of the other two lists; no block has two buffers; and the queue
  of the disk driver, which links busy buffers through \<open>av_forw\<close>, holds transfers that are not done.
  Buffers that the running process has obtained and not yet released are its own: those in \<open>W\<close> are at
  its disposal and those in \<open>V\<close> are being transferred for it; nobody else releases or reassigns
  them.
\<close>

subsection \<open>Process operations leave the cache alone\<close>

lemma kbio_fields:
  fixes k k' :: "'a kbio_scheme"
  assumes "kproc.more k' = kproc.more k"
  shows "b_flags k' = b_flags k" "b_forw k' = b_forw k" "b_back k' = b_back k" "av_forw k' = av_forw k"
    "av_back k' = av_back k" "b_dev k' = b_dev k" "b_blkno k' = b_blkno k" "d_active k' = d_active k"
    "d_actf k' = d_actf k" "d_actl k' = d_actl k" "nblkdev k' = nblkdev k" "buffers k' = buffers k" "disk k' = disk k"
  using assms by (cases k; cases k'; simp)+

lemma buf_chan [simp]: "buf_chan p \<noteq> NoChan"
  by (cases p) auto

lemma wakeup_cache [simp]:
  fixes k :: "'a kbio_scheme"
  assumes "c \<noteq> NoChan"
  shows "b_flags (wakeup c k) = b_flags k" "b_forw (wakeup c k) = b_forw k" "b_back (wakeup c k) = b_back k"
    "av_forw (wakeup c k) = av_forw k" "av_back (wakeup c k) = av_back k" "b_dev (wakeup c k) = b_dev k"
    "b_blkno (wakeup c k) = b_blkno k" "d_active (wakeup c k) = d_active k" "d_actf (wakeup c k) = d_actf k"
    "d_actl (wakeup c k) = d_actl k" "nblkdev (wakeup c k) = nblkdev k"
    "buffers (wakeup c k) = buffers k" "disk (wakeup c k) = disk k"
  using kbio_fields [of "wakeup c k" k] assms by simp_all

lemma kbio_more_wakeup [simp]:
  fixes k :: "'a kbio_scheme"
  assumes "c \<noteq> NoChan"
  shows "kbio.more (wakeup c k) = kbio.more k"
proof -
  have "kproc.more (wakeup c k) = kproc.more k" using assms by simp
  then show ?thesis by (cases k; cases "wakeup c k") simp
qed

lemma spl_cache [simp]:
  fixes k :: "'a kbio_scheme"
  shows "b_flags (spl n k) = b_flags k" "b_forw (spl n k) = b_forw k" "b_back (spl n k) = b_back k"
    "av_forw (spl n k) = av_forw k" "av_back (spl n k) = av_back k" "b_dev (spl n k) = b_dev k"
    "b_blkno (spl n k) = b_blkno k" "d_active (spl n k) = d_active k" "d_actf (spl n k) = d_actf k"
    "d_actl (spl n k) = d_actl k" "nblkdev (spl n k) = nblkdev k"
    "buffers (spl n k) = buffers k" "disk (spl n k) = disk k"
  by (simp_all add: spl_def)

lemma set_flags_cache [simp]:
  "b_flags (set_flags p x k) = (b_flags k)(p := x)" "b_forw (set_flags p x k) = b_forw k"
  "b_back (set_flags p x k) = b_back k" "av_forw (set_flags p x k) = av_forw k" "av_back (set_flags p x k) = av_back k"
  "b_dev (set_flags p x k) = b_dev k" "b_blkno (set_flags p x k) = b_blkno k" "d_active (set_flags p x k) = d_active k"
  "d_actf (set_flags p x k) = d_actf k" "d_actl (set_flags p x k) = d_actl k" "nblkdev (set_flags p x k) = nblkdev k"
  "buffers (set_flags p x k) = buffers k" "disk (set_flags p x k) = disk k"
  by (simp_all add: set_flags_def)

lemma upd_u_cache [simp]:
  fixes k :: "'a kbio_scheme"
  shows "b_flags (upd_u f k) = b_flags k" "b_forw (upd_u f k) = b_forw k" "b_back (upd_u f k) = b_back k"
    "av_forw (upd_u f k) = av_forw k" "av_back (upd_u f k) = av_back k" "b_dev (upd_u f k) = b_dev k"
    "b_blkno (upd_u f k) = b_blkno k" "d_active (upd_u f k) = d_active k" "d_actf (upd_u f k) = d_actf k"
    "d_actl (upd_u f k) = d_actl k" "nblkdev (upd_u f k) = nblkdev k"
    "buffers (upd_u f k) = buffers k" "disk (upd_u f k) = disk k"
  by (simp_all add: upd_u_def)

subsection \<open>The invariant\<close>

fun queue :: "(bp \<Rightarrow> bp) \<Rightarrow> bp \<Rightarrow> bp list \<Rightarrow> bool" where
  "queue f p [] \<longleftrightarrow> p = BNull"
| "queue f p (x # xs) \<longleftrightarrow> p = x \<and> x \<noteq> BNull \<and> queue f (f x) xs"

abbreviation bufs :: "bp set" where "bufs \<equiv> Buf ` {..<NBUF}"

abbreviation busy :: "'a kbio_scheme \<Rightarrow> bp \<Rightarrow> bool" where
  "busy k p \<equiv> flag (b_flags k p) B_BUSY"

definition lists_ok :: "'a kbio_scheme \<Rightarrow> bp list \<Rightarrow> bp list \<Rightarrow> bp list \<Rightarrow> bool" where
  "lists_ok k av hl nl \<longleftrightarrow>
     dll (av_forw k) (av_back k) Bfree av \<and> dll (b_forw k) (b_back k) Rktab hl \<and> dll (b_forw k) (b_back k) Bfree nl \<and>
     set (hl @ nl) = bufs \<and> distinct (hl @ nl) \<and> set av = {p \<in> bufs. \<not> busy k p}"

text \<open>Blocks have one buffer each; a buffer whose transfer failed is marked by minor device 255.\<close>

definition blocks_ok :: "'a kbio_scheme \<Rightarrow> bp list \<Rightarrow> bool" where
  "blocks_ok k hl \<longleftrightarrow>
     (\<forall>p \<in> set hl. major (b_dev k p) = 0) \<and>
     (\<forall>p \<in> set hl. \<forall>q \<in> set hl. b_dev k p = b_dev k q \<and> b_blkno k p = b_blkno k q \<longrightarrow> p = q \<or> b_dev k p AND 255 = 255)"

definition queue_ok :: "bp set \<Rightarrow> bp set \<Rightarrow> 'a kbio_scheme \<Rightarrow> bp list \<Rightarrow> bool" where
  "queue_ok W V k q \<longleftrightarrow>
     queue (av_forw k) (d_actf k) q \<and> distinct q \<and> (q \<noteq> [] \<longrightarrow> d_actl k = last q) \<and>
     set q \<subseteq> {p \<in> bufs. busy k p} \<union> {Swbuf} \<and> set q \<inter> W = {} \<and>
     (\<forall>p \<in> set q. \<not> flag (b_flags k p) B_DONE) \<and>
     (\<forall>p \<in> set q \<inter> (V \<union> {Swbuf}). \<not> flag (b_flags k p) B_ASYNC) \<and>
     (\<forall>p \<in> bufs. \<not> busy k p \<longrightarrow> \<not> flag (b_flags k p) B_ASYNC)"

definition cache_inv :: "bp set \<Rightarrow> bp set \<Rightarrow> 'a kbio_scheme \<Rightarrow> bp list \<Rightarrow> bp list \<Rightarrow> bp list \<Rightarrow> bp list \<Rightarrow> bool" where
  "cache_inv W V k av hl nl q \<longleftrightarrow> W \<union> V \<subseteq> {p \<in> bufs. busy k p} \<and> W \<inter> V = {} \<and> nblkdev k = 1 \<and>
     lists_ok k av hl nl \<and> blocks_ok k hl \<and> queue_ok W V k q"

text \<open>The driver is active exactly when its queue is not empty.\<close>

definition active_ok :: "'a kbio_scheme \<Rightarrow> bp list \<Rightarrow> bool" where
  "active_ok k q \<longleftrightarrow> d_active k = (if q = [] then 0 else 1)"

definition cache_ok :: "bp set \<Rightarrow> bp set \<Rightarrow> 'a kbio_scheme \<Rightarrow> bool" where
  "cache_ok W V k \<longleftrightarrow> (\<exists>av hl nl q. cache_inv W V k av hl nl q \<and> active_ok k q)"

lemma queue_cong: "(\<And>x. x \<in> set q \<Longrightarrow> f' x = f x) \<Longrightarrow> queue f' p q = queue f p q"
  by (induction q arbitrary: p) auto

lemma queue_snoc:
  assumes "queue f p q" "distinct q" "x \<notin> set q" "x \<noteq> BNull"
  shows "queue (if q = [] then f(x := BNull) else f(x := BNull, last q := x)) (if q = [] then x else p) (q @ [x])"
  using assms
proof (induction q arbitrary: p)
  case (Cons y q)
  show ?case
  proof (cases "q = []")
    case False
    then have "last q \<in> set q" by simp
    with Cons.prems have "y \<noteq> last q" by auto
    with Cons.IH [of "f y"] Cons.prems False show ?thesis by auto
  qed (use Cons in auto)
qed simp

text \<open>Flag words: the constants are single bits, so tests on different flags do not interfere.\<close>

lemma flag_clear:
  "flag (clrf x m) f \<longleftrightarrow> flag x f" if "m AND f = 0" for x m f :: u16
  using flag_clrf_disjoint [OF that] .

lemma flag_set_other: "\<not> flag m f \<Longrightarrow> flag (setf x m) f \<longleftrightarrow> flag x f" for x m f :: u16
  by (simp add: flag_setf)

lemma lists_cong:
  assumes "av_forw k' = av_forw k" "av_back k' = av_back k" "b_forw k' = b_forw k" "b_back k' = b_back k"
    "\<And>p. p \<in> bufs \<Longrightarrow> busy k' p = busy k p"
  shows "lists_ok k' av hl nl = lists_ok k av hl nl"
  using assms by (auto simp: lists_ok_def)

lemma av_heads:
  assumes "lists_ok k av hl nl"
  shows "Bfree \<notin> set av" "Swbuf \<notin> set av" "BNull \<notin> set av" "p \<in> set av \<Longrightarrow> \<not> busy k p" "p \<in> set av \<Longrightarrow> p \<in> bufs"
  using assms by (auto simp: lists_ok_def)

lemma queue_apart:
  assumes "lists_ok k av hl nl" "queue_ok W V k q" "p \<in> set q"
  shows "p \<notin> set av" "p \<noteq> Bfree" "p \<noteq> BNull"
  using assms by (auto simp: lists_ok_def queue_ok_def)

lemma cache_inv_flags:
  assumes inv: "cache_inv W V k av hl nl q" and p: "p \<in> W" and x: "flag x B_BUSY"
  shows "cache_inv W V (set_flags p x k) av hl nl q"
proof -
  have np: "p \<notin> set q" "p \<notin> V" "p \<noteq> Swbuf" using inv p by (auto simp: cache_inv_def queue_ok_def)
  have b: "busy (set_flags p x k) r = busy k r" if "r \<in> bufs" for r
    using inv p x by (auto simp: cache_inv_def)
  have pb: "busy k p" using inv p by (auto simp: cache_inv_def)
  have "lists_ok (set_flags p x k) av hl nl" using inv b by (subst lists_cong) (auto simp: cache_inv_def)
  moreover have "queue_ok W V (set_flags p x k) q" using inv np b pb by (auto simp: cache_inv_def queue_ok_def)
  moreover have "blocks_ok (set_flags p x k) hl" using inv by (simp add: cache_inv_def blocks_ok_def)
  ultimately show ?thesis using inv b p x by (auto simp: cache_inv_def)
qed

text \<open>Marking a buffer as wanted changes no test that the invariant makes.\<close>

lemma cache_inv_wanted:
  assumes inv: "cache_inv W V k av hl nl q"
  shows "cache_inv W V (set_flags p (setf (b_flags k p) B_WANTED) k) av hl nl q"
proof -
  let ?k = "set_flags p (setf (b_flags k p) B_WANTED) k"
  have f: "flag (b_flags ?k r) m = flag (b_flags k r) m" if "\<not> flag B_WANTED m" for r m
    using that by (simp add: flag_set_other)
  have ff: "busy ?k r = busy k r" "flag (b_flags ?k r) B_DONE = flag (b_flags k r) B_DONE"
    "flag (b_flags ?k r) B_ASYNC = flag (b_flags k r) B_ASYNC" for r
    by (rule f; simp add: flag_def)+
  have "lists_ok ?k av hl nl" using inv ff by (subst lists_cong) (auto simp: cache_inv_def)
  then show ?thesis using inv unfolding cache_inv_def queue_ok_def blocks_ok_def ff by simp
qed

lemma cache_notavail:
  assumes inv: "cache_inv W V k av hl nl q" and p: "p \<in> set av"
  shows "\<exists>av'. cache_inv (insert p W) V (notavail p k) av' hl nl q"
proof -
  let ?k = "notavail p k"
  have L: "lists_ok k av hl nl" and Q: "queue_ok W V k q" using inv by (auto simp: cache_inv_def)
  obtain ys zs where av: "av = ys @ p # zs" using p by (meson split_list)
  have d: "dll (av_forw k) (av_back k) Bfree (ys @ p # zs)" using L av by (simp add: lists_ok_def)
  have dist: "distinct (Bfree # ys @ p # zs)" using d by (simp add: dll_def)
  have nx: "av_forw k p = hd (zs @ [Bfree])" "av_back k p = last (Bfree # ys)" using dll_next [OF d] by auto
  have neq: "av_back k p \<noteq> p" using nx(2) dist by (cases ys rule: rev_cases) auto
  have bk: "av_back k p \<in> insert Bfree (set av)" using nx(2) av by (cases ys rule: rev_cases) auto
  have fl: "b_flags ?k = (b_flags k)(p := setf (b_flags k p) B_BUSY)" by (simp add: notavail_def Let_def)
  have links: "av_forw ?k = (av_forw k)(av_back k p := av_forw k p)" "av_back ?k = (av_back k)(av_forw k p := av_back k p)"
    using neq by (simp_all add: notavail_def Let_def)
  have dll': "dll (av_forw ?k) (av_back ?k) Bfree (ys @ zs)" unfolding links by (rule dll_unlink [OF d])
  have pb: "p \<in> bufs" "\<not> busy k p" using av_heads [OF L] p by auto
  have same: "b_forw ?k = b_forw k" "b_back ?k = b_back k" "b_dev ?k = b_dev k" "b_blkno ?k = b_blkno k"
    "d_actf ?k = d_actf k" "d_actl ?k = d_actl k" "d_active ?k = d_active k" "nblkdev ?k = nblkdev k"
    by (simp_all add: notavail_def Let_def)
  have busy: "busy ?k r = (r = p \<or> busy k r)" for r by (simp add: fl flag_setf)
  have "lists_ok ?k (ys @ zs) hl nl"
    using L dll' dist av unfolding lists_ok_def same busy by auto
  moreover have "queue (av_forw ?k) (d_actf ?k) q"
  proof -
    have "av_forw ?k x = av_forw k x" if "x \<in> set q" for x
      using queue_apart [OF L Q that] bk unfolding links by auto
    then show ?thesis using Q queue_cong [of q "av_forw ?k" "av_forw k"] by (simp add: same queue_ok_def)
  qed
  moreover have "p \<notin> set q" using queue_apart [OF L Q] p by blast
  moreover have "blocks_ok ?k hl" using inv unfolding cache_inv_def blocks_ok_def same by blast
  moreover have "p \<notin> W" "p \<notin> V" using inv pb by (auto simp: cache_inv_def)
  ultimately show ?thesis using inv pb unfolding cache_inv_def queue_ok_def same busy
    by (intro exI [of _ "ys @ zs"]) (auto simp: fl)
qed

lemma major_error: "major (setf x 255) = major x"
proof -
  have "sint (x OR 255) = sint x OR sint (255 :: u16)" by (rule signed_or_eq)
  then have "drop_bit 8 (sint (x OR 255)) = drop_bit 8 (sint x) OR drop_bit 8 (255 :: int)"
    by simp
  also have "drop_bit 8 (255 :: int) = 0" by simp
  finally have "drop_bit 8 (sint (x OR 255)) = drop_bit 8 (sint x)" by simp
  then show ?thesis by (simp add: major_def setf_def drop_bit_eq_div)
qed

lemma error_minor: "setf x 255 AND 255 = (255 :: u16)"
  by (rule bit_word_eqI) (auto simp: setf_def bit_simps)

lemma brelse_fields:
  fixes k :: "'a kbio_scheme" and p :: bp
  defines "k' \<equiv> brelse p k"
  assumes p: "p \<noteq> Bfree"
  shows "b_forw k' = b_forw k" "b_back k' = b_back k" "b_blkno k' = b_blkno k" "d_active k' = d_active k"
    "d_actf k' = d_actf k" "d_actl k' = d_actl k" "nblkdev k' = nblkdev k"
    "b_dev k' = (if flag (b_flags k p) B_ERROR then (b_dev k)(p := setf (b_dev k p) 255) else b_dev k)"
    "av_forw k' = (av_forw k)(av_back k Bfree := p, p := Bfree)"
    "av_back k' = (av_back k)(p := av_back k Bfree, Bfree := p)"
    "r \<noteq> Bfree \<Longrightarrow> r \<noteq> p \<Longrightarrow> b_flags k' r = b_flags k r"
    "b_flags k' p = clrf (b_flags k p) (B_WANTED OR B_BUSY OR B_ASYNC)"
    "buffers k' = buffers k" "disk k' = disk k"
  using p by (auto simp: k'_def brelse_def Let_def)

lemma cache_brelse:
  assumes inv: "cache_inv W V k av hl nl q" and p: "p \<in> W"
  shows "cache_inv (W - {p}) V (brelse p k) (av @ [p]) hl nl q"
proof -
  let ?k = "brelse p k"
  have L: "lists_ok k av hl nl" and Q: "queue_ok W V k q" using inv by (auto simp: cache_inv_def)
  have pb: "p \<in> bufs" "busy k p" "p \<notin> V" "p \<notin> set q" using inv p by (auto simp: cache_inv_def queue_ok_def)
  have pn: "p \<noteq> Bfree" "p \<noteq> Swbuf" "p \<noteq> Rktab" using pb(1) by auto
  note f = brelse_fields [OF pn(1), where k = k]
  have d: "dll (av_forw k) (av_back k) Bfree av" using L by (simp add: lists_ok_def)
  have pav: "p \<notin> set av" using av_heads(4) [OF L] pb(2) by blast
  have last: "av_back k Bfree = last (Bfree # av)" using d by (rule dll_last)
  have "dll (av_forw ?k) (av_back ?k) Bfree (av @ [p])"
    using pav pn(1) last
    by (intro dll_insert [of "av_forw k" "av_back k" Bfree av "[]" p "av_back k Bfree" Bfree])
      (simp_all add: d f(9,10) fun_upd_twist)
  moreover have busy: "busy ?k r = (r \<noteq> p \<and> busy k r)" if "r \<in> bufs" for r
  proof (cases "r = p")
    case True
    have "\<not> flag (clrf (b_flags k p) (B_WANTED OR B_BUSY OR B_ASYNC)) B_BUSY"
      by (rule flag_clrf_sub) simp
    with True f(12) show ?thesis by simp
  qed (use that f(11) in auto)
  ultimately have L': "lists_ok ?k (av @ [p]) hl nl"
    using L pb unfolding lists_ok_def f(1,2) by auto
  have fq: "b_flags ?k x = b_flags k x" if "x \<in> set q" for x
    using queue_apart [OF L Q that] that pb(4) by (intro f(11)) auto
  have "av_forw ?k x = av_forw k x" if "x \<in> set q" for x
  proof -
    have "x \<noteq> p" "x \<noteq> last (Bfree # av)"
      using queue_apart [OF L Q that] that pb(4) by (auto split: if_splits)
    then show ?thesis by (simp add: f(9) last)
  qed
  then have "queue (av_forw ?k) (d_actf ?k) q"
    using Q queue_cong [of q "av_forw ?k" "av_forw k"] by (simp add: f(5) queue_ok_def)
  moreover have "\<not> flag (b_flags ?k r) B_ASYNC" if "r \<in> bufs" "\<not> busy ?k r" for r
  proof (cases "r = p")
    case True
    have "\<not> flag (clrf (b_flags k p) (B_WANTED OR B_BUSY OR B_ASYNC)) B_ASYNC" by (rule flag_clrf_sub) simp
    with True f(12) show ?thesis by simp
  next
    case False
    then show ?thesis using that f(11) [of r] Q by (auto simp: queue_ok_def)
  qed
  ultimately have Q': "queue_ok (W - {p}) V ?k q"
    using Q fq pb(4) unfolding queue_ok_def f(4,6) by auto
  have B': "blocks_ok ?k hl"
    using inv major_error error_minor unfolding cache_inv_def blocks_ok_def f(3,8) by auto
  show ?thesis using inv L' Q' B' busy pb(3) unfolding cache_inv_def f(7) by auto
qed

text \<open>Changes of ownership.\<close>

lemma cache_inv_move:
  "cache_inv W V k av hl nl q \<Longrightarrow> p \<in> W \<Longrightarrow> cache_inv (W - {p}) (insert p V) k av hl nl q"
  by (auto simp: cache_inv_def queue_ok_def)

lemma cache_inv_take:
  "cache_inv W V k av hl nl q \<Longrightarrow> p \<in> bufs \<Longrightarrow> busy k p \<Longrightarrow> p \<notin> set q \<Longrightarrow> cache_inv (insert p W) (V - {p}) k av hl nl q"
  by (auto simp: cache_inv_def queue_ok_def)

lemma cache_inv_drop: "cache_inv W V k av hl nl q \<Longrightarrow> W' \<subseteq> W \<Longrightarrow> cache_inv W' V k av hl nl q"
  by (auto simp: cache_inv_def queue_ok_def)

lemma cache_inv_cong:
  assumes "cache_inv W V k av hl nl q"
    and "b_flags k' = b_flags k" "b_forw k' = b_forw k" "b_back k' = b_back k" "av_forw k' = av_forw k"
    "av_back k' = av_back k" "b_dev k' = b_dev k" "b_blkno k' = b_blkno k"
    "d_actf k' = d_actf k" "d_actl k' = d_actl k" "nblkdev k' = nblkdev k"
  shows "cache_inv W V k' av hl nl q"
  using assms by (simp add: cache_inv_def lists_ok_def blocks_ok_def queue_ok_def)

lemma ownbusy: "cache_inv W V k av hl nl q \<Longrightarrow> p \<in> W \<union> V \<Longrightarrow> busy k p \<and> p \<in> bufs"
  by (auto simp: cache_inv_def)

lemma cache_iodone:
  assumes inv: "cache_inv W V k av hl nl q" and p: "p \<in> W"
  shows "if flag (b_flags k p) B_ASYNC then cache_inv (W - {p}) V (iodone p k) (av @ [p]) hl nl q
    else cache_inv W V (iodone p k) av hl nl q \<and> flag (b_flags (iodone p k) p) B_DONE"
proof -
  let ?k = "set_flags p (setf (b_flags k p) B_DONE) k"
  have b: "busy k p" using ownbusy [OF inv] p by blast
  have b1: "flag (setf (b_flags k p) B_DONE) B_BUSY" using b by (simp add: flag_setf)
  have inv1: "cache_inv W V ?k av hl nl q" using inv p b1 by (rule cache_inv_flags)
  have as: "flag (b_flags ?k p) B_ASYNC = flag (b_flags k p) B_ASYNC"
    by (simp add: flag_setf flag_num_simps)
  show ?thesis
  proof (cases "flag (b_flags k p) B_ASYNC")
    case True
    then show ?thesis using cache_brelse [OF inv1 p] as by (simp add: iodone_def Let_def)
  next
    case False
    have "flag (clrf (b_flags ?k p) B_WANTED) B_BUSY" using b1 by (subst flag_clrf_disjoint) auto
    then have inv2: "cache_inv W V (set_flags p (clrf (b_flags ?k p) B_WANTED) ?k) av hl nl q"
      using cache_inv_flags [OF inv1 p] by blast
    have "cache_inv W V (wakeup (buf_chan p) (set_flags p (clrf (b_flags ?k p) B_WANTED) ?k)) av hl nl q"
      by (rule cache_inv_cong [OF inv2]) simp_all
    moreover have "flag (clrf (setf (b_flags k p) B_DONE) B_WANTED) B_DONE"
      by (subst flag_clrf_disjoint) (auto simp: flag_setf)
    ultimately show ?thesis using False as by (simp add: iodone_def Let_def)
  qed
qed

lemma cache_iodone_sw:
  assumes inv: "cache_inv W V k av hl nl q" and p: "Swbuf \<notin> set q" and as: "\<not> flag (b_flags k Swbuf) B_ASYNC"
  shows "cache_inv W V (iodone Swbuf k) av hl nl q"
proof -
  have sw: "cache_inv W V (set_flags Swbuf x k) av hl nl q" if "cache_inv W V k av hl nl q" for x and k :: "'a kbio_scheme"
  proof -
    have "Swbuf \<notin> bufs" by auto
    with that p have "lists_ok (set_flags Swbuf x k) av hl nl" by (subst lists_cong) (auto simp: cache_inv_def)
    then show ?thesis using that p by (auto simp: cache_inv_def queue_ok_def blocks_ok_def)
  qed
  have "\<not> flag (setf (b_flags k Swbuf) B_DONE) B_ASYNC" using as by (simp add: flag_setf flag_num_simps)
  moreover have "cache_inv W V (wakeup ChSwbuf (set_flags Swbuf y (set_flags Swbuf x k))) av hl nl q" for x y
    by (rule cache_inv_cong [OF sw [OF sw [OF inv]]]) simp_all
  ultimately show ?thesis by (simp add: iodone_def Let_def)
qed

lemma devstart_fields [simp]:
  "b_flags (devstart p k) = b_flags k" "b_forw (devstart p k) = b_forw k" "b_back (devstart p k) = b_back k"
  "av_forw (devstart p k) = av_forw k" "av_back (devstart p k) = av_back k" "b_dev (devstart p k) = b_dev k"
  "b_blkno (devstart p k) = b_blkno k" "d_actf (devstart p k) = d_actf k" "d_actl (devstart p k) = d_actl k"
  "d_active (devstart p k) = d_active k" "nblkdev (devstart p k) = nblkdev k"
  by (simp_all add: devstart_def Let_def ideio_def idestart_def split: option.split)

lemma rkstart_fields [simp]:
  "b_flags (rkstart k) = b_flags k" "b_forw (rkstart k) = b_forw k" "b_back (rkstart k) = b_back k"
  "av_forw (rkstart k) = av_forw k" "av_back (rkstart k) = av_back k" "b_dev (rkstart k) = b_dev k"
  "b_blkno (rkstart k) = b_blkno k" "d_actf (rkstart k) = d_actf k" "d_actl (rkstart k) = d_actl k"
  "d_active (rkstart k) = (if d_actf k = BNull then d_active k else d_active k + 1)" "nblkdev (rkstart k) = nblkdev k"
  by (simp_all add: rkstart_def)

lemma iodone_fields [simp]:
  fixes k :: "'a kbio_scheme"
  assumes "p \<noteq> Bfree"
  shows "b_forw (iodone p k) = b_forw k" "b_back (iodone p k) = b_back k" "b_blkno (iodone p k) = b_blkno k"
    "d_active (iodone p k) = d_active k" "d_actf (iodone p k) = d_actf k" "d_actl (iodone p k) = d_actl k"
    "r \<noteq> p \<Longrightarrow> b_dev (iodone p k) r = b_dev k r" "\<not> flag (b_flags k p) B_ASYNC \<Longrightarrow> b_dev (iodone p k) = b_dev k"
    "disk (iodone p k) = disk k" "buffers (iodone p k) = buffers k"
  using assms by (auto simp: iodone_def Let_def brelse_fields flag_setf flag_num_simps)

lemma cache_pop:
  assumes inv: "cache_inv W V k av hl nl (p # q)"
  shows "cache_inv W V (k\<lparr>d_active := 0, d_errcnt := 0, d_actf := av_forw k p\<rparr>) av hl nl q"
  using inv by (auto simp: cache_inv_def lists_ok_def blocks_ok_def queue_ok_def)

lemma queue_null: "queue f p q \<Longrightarrow> (p = BNull) = (q = [])"
  by (cases q) auto

lemma cache_start:
  assumes "cache_inv W V k av hl nl q" "d_active k = 0"
  shows "cache_ok W V (rkstart k)"
proof -
  have "cache_inv W V (rkstart k) av hl nl q" by (rule cache_inv_cong [OF assms(1)]) simp_all
  moreover have "active_ok (rkstart k) q"
    using assms queue_null [of "av_forw k" "d_actf k" q] by (simp add: active_ok_def cache_inv_def queue_ok_def)
  ultimately show ?thesis by (auto simp: cache_ok_def)
qed

text \<open>The head of the queue is completed: it is released if nobody waits for it.\<close>

lemma cache_complete:
  fixes k :: "'a kbio_scheme"
  assumes inv: "cache_inv W V k av hl nl q" and p: "p \<notin> set q" "p \<in> bufs \<and> busy k p \<or> p = Swbuf" "p \<notin> W"
    and as: "p \<in> V \<union> {Swbuf} \<Longrightarrow> \<not> flag (b_flags k p) B_ASYNC"
  shows "\<exists>av'. cache_inv W V (iodone p k) av' hl nl q"
proof (cases "p = Swbuf")
  case True
  then show ?thesis using cache_iodone_sw [OF inv] p as by blast
next
  case False
  with p have pb: "p \<in> bufs" "busy k p" by auto
  have inv1: "cache_inv (insert p W) (V - {p}) k av hl nl q" using inv pb p(1) by (rule cache_inv_take)
  note done1 = cache_iodone [OF inv1 insertI1]
  show ?thesis
  proof (cases "flag (b_flags k p) B_ASYNC")
    case True
    then have "p \<notin> V" using as by blast
    then have "insert p W - {p} = W" "V - {p} = V" using p(3) by auto
    with done1 True show ?thesis by auto
  next
    case nas: False
    then have inv2: "cache_inv (insert p W) (V - {p}) (iodone p k) av hl nl q" using done1 by auto
    show ?thesis
    proof (cases "p \<in> V")
      case True
      then have "insert p W - {p} = W" "insert p (V - {p}) = V" using p(3) by auto
      with cache_inv_move [OF inv2, of p] show ?thesis by auto
    next
      case False
      then have "V - {p} = V" by blast
      with cache_inv_drop [OF inv2, of W] show ?thesis by auto
    qed
  qed
qed

lemma cache_rkintr:
  fixes k :: "'a kbio_scheme"
  assumes ok: "cache_ok W V k"
  shows "cache_ok W V (rkintr k)" "r \<in> W \<union> V \<Longrightarrow> b_dev (rkintr k) r = b_dev k r" "b_blkno (rkintr k) = b_blkno k"
proof -
  obtain av hl nl q where inv: "cache_inv W V k av hl nl q" and act: "active_ok k q" using ok by (auto simp: cache_ok_def)
  have "cache_ok W V (rkintr k) \<and> (r \<in> W \<union> V \<longrightarrow> b_dev (rkintr k) r = b_dev k r) \<and> b_blkno (rkintr k) = b_blkno k"
  proof (cases q)
    case Nil
    then show ?thesis using ok act by (simp add: rkintr_def active_ok_def)
  next
    case (Cons p q')
    define k1 where "k1 = k\<lparr>d_active := 0, d_errcnt := 0, d_actf := av_forw k p\<rparr>"
    have inv1: "cache_inv W V k1 av hl nl q'" unfolding k1_def using inv Cons by (intro cache_pop) simp
    have Q: "queue_ok W V k (p # q')" using inv Cons by (simp add: cache_inv_def)
    have p: "p \<notin> set q'" "p \<in> bufs \<and> busy k1 p \<or> p = Swbuf" "p \<notin> W" "d_actf k = p" "p \<noteq> Bfree"
      and as: "p \<in> V \<union> {Swbuf} \<Longrightarrow> \<not> flag (b_flags k1 p) B_ASYNC"
      using Q by (auto simp: queue_ok_def k1_def)
    have eq: "rkintr k = rkstart (iodone p k1)" using act Cons p(4) by (simp add: rkintr_def active_ok_def Let_def k1_def)
    obtain av' where "cache_inv W V (iodone p k1) av' hl nl q'"
      using cache_complete [OF inv1 p(1-3) as] by blast
    then have "cache_ok W V (rkintr k)" unfolding eq using p(5) by (intro cache_start) (simp_all add: k1_def)
    moreover have "b_dev (iodone p k1) r = b_dev k r" if "r \<in> W \<union> V"
    proof (cases "r = p")
      case True
      then have "\<not> flag (b_flags k1 p) B_ASYNC" using that p(3) as by blast
      then show ?thesis using p(5) by (simp add: k1_def)
    qed (use p(5) in \<open>simp add: k1_def\<close>)
    ultimately show ?thesis using p(5) by (simp add: eq) (simp add: k1_def)
  qed
  then show "cache_ok W V (rkintr k)" "r \<in> W \<union> V \<Longrightarrow> b_dev (rkintr k) r = b_dev k r" "b_blkno (rkintr k) = b_blkno k"
    by auto
qed

text \<open>The rest of the controller does not touch the cache.\<close>

lemma cache_ok_cong:
  assumes "cache_ok W V k"
    and "b_flags k' = b_flags k" "b_forw k' = b_forw k" "b_back k' = b_back k" "av_forw k' = av_forw k"
    "av_back k' = av_back k" "b_dev k' = b_dev k" "b_blkno k' = b_blkno k"
    "d_actf k' = d_actf k" "d_actl k' = d_actl k" "d_active k' = d_active k" "nblkdev k' = nblkdev k"
  shows "cache_ok W V k'"
proof -
  from assms(1) obtain av hl nl q where "cache_inv W V k av hl nl q" "active_ok k q" by (auto simp: cache_ok_def)
  moreover have "cache_inv W V k' av hl nl q" by (rule cache_inv_cong [OF calculation(1)]) (simp_all add: assms)
  ultimately show ?thesis using assms(11) by (auto simp: cache_ok_def active_ok_def)
qed

lemma fold_mem_fields:
  fixes k :: "'a kbio_scheme"
  shows "kproc.more (fold (\<lambda>i k. k\<lparr>mem := (mem k)(f i := d i)\<rparr>) ns k) = kproc.more k"
  by (induction ns arbitrary: k) simp_all

lemma io_store_fields [simp]:
  fixes k :: "'a kbio_scheme"
  shows "b_flags (io_store a d k) = b_flags k" "b_forw (io_store a d k) = b_forw k" "b_back (io_store a d k) = b_back k"
    "av_forw (io_store a d k) = av_forw k" "av_back (io_store a d k) = av_back k" "b_dev (io_store a d k) = b_dev k"
    "b_blkno (io_store a d k) = b_blkno k" "d_active (io_store a d k) = d_active k" "d_actf (io_store a d k) = d_actf k"
    "d_actl (io_store a d k) = d_actl k" "nblkdev (io_store a d k) = nblkdev k" "disk (io_store a d k) = disk k"
  using kbio_fields [OF fold_mem_fields, of "\<lambda>i. linear seg (off + of_nat i)" d "[0..<512]" k for seg off]
  by (auto simp: io_store_def split: ioaddr.split)

lemma idestart_fields [simp]:
  "b_flags (idestart n a k) = b_flags k" "b_forw (idestart n a k) = b_forw k" "b_back (idestart n a k) = b_back k"
  "av_forw (idestart n a k) = av_forw k" "av_back (idestart n a k) = av_back k" "b_dev (idestart n a k) = b_dev k"
  "b_blkno (idestart n a k) = b_blkno k" "d_active (idestart n a k) = d_active k" "d_actf (idestart n a k) = d_actf k"
  "d_actl (idestart n a k) = d_actl k" "nblkdev (idestart n a k) = nblkdev k"
  by (simp_all add: idestart_def Let_def split: option.split)

text \<open>What the rest of the system may do while a process is switched out: it keeps the invariant, and
  the buffers the process has stay assigned to their blocks.\<close>

definition keeps_cache :: "('a kbio_scheme \<Rightarrow> 'a kbio_scheme option) \<Rightarrow> bool" where
  "keeps_cache away \<longleftrightarrow>
     (\<forall>W V k k'. cache_ok W V k \<longrightarrow> away k = Some k' \<longrightarrow>
        cache_ok W V k' \<and> (\<forall>p \<in> W \<union> V. b_dev k' p = b_dev k p \<and> b_blkno k' p = b_blkno k p))"

lemma keepsD:
  assumes "keeps_cache away" "cache_ok W V k" "away k = Some k'"
  shows "cache_ok W V k'" "p \<in> W \<union> V \<Longrightarrow> b_dev k' p = b_dev k p" "p \<in> W \<union> V \<Longrightarrow> b_blkno k' p = b_blkno k p"
  using assms unfolding keeps_cache_def by blast+

lemma ideintr_keeps: "keeps_cache (\<lambda>k. Some (ideintr k))"
  unfolding keeps_cache_def
proof (intro allI impI)
  fix W V and k k' :: "'a kbio_scheme"
  assume ok: "cache_ok W V k" and k': "Some (ideintr k) = Some k'"
  define k1 where "k1 = k\<lparr>io_sector := io_sector k + 1, io_count := io_count k - 1\<rparr>"
  define k2 where "k2 = (if io_cmd k1 \<noteq> 0 then io_store (io_buf k1) (disk k1 (disk_sector k1)) k1 else k1)"
  define k3 where "k3 = k2\<lparr>io_buf := io_next (io_buf k2)\<rparr>"
  have ok3: "cache_ok W V k3" by (rule cache_ok_cong [OF ok]) (simp_all add: k3_def k2_def k1_def)
  have same: "b_dev k3 = b_dev k" "b_blkno k3 = b_blkno k" by (simp_all add: k3_def k2_def k1_def)
  have "k' = (if sint (io_count k3) \<le> 0 then rkintr k3
      else idestart (io_sector k3) (if io_cmd k3 = 0 then Some (io_buf k3) else None) k3)"
    using k' by (simp only: ideintr_def Let_def k3_def k2_def k1_def option.inject)
  then consider "k' = rkintr k3" | "k' = idestart (io_sector k3) (if io_cmd k3 = 0 then Some (io_buf k3) else None) k3"
    by meson
  then show "cache_ok W V k' \<and> (\<forall>p \<in> W \<union> V. b_dev k' p = b_dev k p \<and> b_blkno k' p = b_blkno k p)"
  proof cases
    case 1
    then show ?thesis using cache_rkintr [OF ok3] same by auto
  next
    case 2
    then have "cache_ok W V k'" by (intro cache_ok_cong [OF ok3]) simp_all
    then show ?thesis using 2 same by simp
  qed
qed

subsection \<open>Starting a transfer\<close>

definition enqueue :: "bp \<Rightarrow> 'a kbio_scheme \<Rightarrow> 'a kbio_scheme" where
  "enqueue p k =
     (let k = spl 5 (k\<lparr>av_forw := (av_forw k)(p := BNull)\<rparr>);
          k = (if d_actf k = BNull then k\<lparr>d_actf := p\<rparr> else k\<lparr>av_forw := (av_forw k)(d_actl k := p)\<rparr>)
      in k\<lparr>d_actl := p\<rparr>)"

lemma rkstrategy_enqueue:
  "rkstrategy p k =
     (let d = minor (b_dev k p) - 7; d = (if sint d \<le> 0 then 1 else d) in
      if sint (b_blkno k p) \<ge> sint (NRKBLK * d) then iodone p (set_flags p (setf (b_flags k p) B_ERROR) k)
      else spl 0 (if d_active (enqueue p k) = 0 then rkstart (enqueue p k) else enqueue p k))"
  by (simp add: rkstrategy_def enqueue_def Let_def)

lemma enqueue_fields [simp]:
  "b_flags (enqueue p k) = b_flags k" "b_forw (enqueue p k) = b_forw k" "b_back (enqueue p k) = b_back k"
  "av_back (enqueue p k) = av_back k" "b_dev (enqueue p k) = b_dev k" "b_blkno (enqueue p k) = b_blkno k"
  "d_active (enqueue p k) = d_active k" "d_actl (enqueue p k) = p" "nblkdev (enqueue p k) = nblkdev k"
  "buffers (enqueue p k) = buffers k" "disk (enqueue p k) = disk k"
  by (simp_all add: enqueue_def Let_def)

lemma cache_enqueue:
  assumes inv: "cache_inv W V k av hl nl q" and p: "p \<in> W" and nd: "\<not> flag (b_flags k p) B_DONE"
  defines "V' \<equiv> if flag (b_flags k p) B_ASYNC then V else insert p V"
  shows "cache_inv (W - {p}) V' (enqueue p k) av hl nl (q @ [p])"
proof -
  let ?k = "enqueue p k"
  have L: "lists_ok k av hl nl" and Q: "queue_ok W V k q" using inv by (auto simp: cache_inv_def)
  have pb: "p \<in> bufs" "busy k p" "p \<notin> V" "p \<notin> set q" "p \<noteq> BNull" using inv p by (auto simp: cache_inv_def queue_ok_def)
  have qn: "(d_actf k = BNull) = (q = [])" using Q queue_null by (auto simp: queue_ok_def)
  have last: "q \<noteq> [] \<Longrightarrow> d_actl k = last q" using Q by (simp add: queue_ok_def)
  have af: "av_forw ?k = (if q = [] then (av_forw k)(p := BNull) else (av_forw k)(p := BNull, last q := p))"
    using qn last by (simp add: enqueue_def Let_def)
  have df: "d_actf ?k = (if q = [] then p else d_actf k)" using qn by (simp add: enqueue_def Let_def)
  have "queue (av_forw ?k) (d_actf ?k) (q @ [p])"
    unfolding af df using Q pb by (intro queue_snoc) (auto simp: queue_ok_def)
  moreover have links: "av_forw ?k x = av_forw k x" if "x \<in> set (Bfree # av)" for x
  proof -
    have "x \<noteq> p" using that pb av_heads(4) [OF L] by auto
    moreover have "q \<noteq> [] \<Longrightarrow> x \<noteq> last q" using that queue_apart(1,2) [OF L Q, of "last q"] by auto
    ultimately show ?thesis by (simp add: af)
  qed
  have "dll (av_forw ?k) (av_back ?k) Bfree av = dll (av_forw k) (av_back k) Bfree av"
    by (rule dll_cong) (rule links, assumption, simp)
  then have "lists_ok ?k av hl nl" using L by (simp add: lists_ok_def)
  moreover have "blocks_ok ?k hl" using inv by (simp add: cache_inv_def blocks_ok_def)
  ultimately have *: "lists_ok ?k av hl nl" "blocks_ok ?k hl" "queue (av_forw ?k) (d_actf ?k) (q @ [p])" by simp_all
  have "queue_ok (W - {p}) V' ?k (q @ [p])"
    unfolding queue_ok_def
  proof (intro conjI)
    show "\<forall>r \<in> set (q @ [p]) \<inter> (V' \<union> {Swbuf}). \<not> flag (b_flags ?k r) B_ASYNC"
    proof
      fix r assume r: "r \<in> set (q @ [p]) \<inter> (V' \<union> {Swbuf})"
      show "\<not> flag (b_flags ?k r) B_ASYNC"
      proof (cases "r = p")
        case True
        with r pb show ?thesis by (auto simp: V'_def split: if_splits)
      next
        case False
        with r have "r \<in> set q \<inter> (V \<union> {Swbuf})" by (auto simp: V'_def split: if_splits)
        with Q show ?thesis by (simp add: queue_ok_def)
      qed
    qed
    show "set (q @ [p]) \<subseteq> {r \<in> bufs. busy ?k r} \<union> {Swbuf}" "set (q @ [p]) \<inter> (W - {p}) = {}"
      using Q pb by (auto simp: queue_ok_def)
  qed (use * Q pb nd in \<open>auto simp: queue_ok_def\<close>)
  moreover have "W - {p} \<union> V' \<subseteq> {r \<in> bufs. busy ?k r}" "(W - {p}) \<inter> V' = {}"
    using inv p by (auto simp: cache_inv_def V'_def)
  moreover have "nblkdev ?k = 1" using inv by (simp add: cache_inv_def)
  ultimately show ?thesis using * by (simp add: cache_inv_def)
qed

lemma cache_rkstrategy:
  assumes ok: "cache_ok W V k" and p: "p \<in> W" and nd: "\<not> flag (b_flags k p) B_DONE"
  defines "V' \<equiv> if flag (b_flags k p) B_ASYNC then V else insert p V"
  shows "cache_ok (W - {p}) V' (rkstrategy p k)"
    "r \<in> W \<union> V \<Longrightarrow> r \<noteq> p \<Longrightarrow> b_dev (rkstrategy p k) r = b_dev k r"
    "\<not> flag (b_flags k p) B_ASYNC \<Longrightarrow> b_dev (rkstrategy p k) = b_dev k" "b_blkno (rkstrategy p k) = b_blkno k"
proof -
  obtain av hl nl q where inv: "cache_inv W V k av hl nl q" and act: "active_ok k q" using ok by (auto simp: cache_ok_def)
  have pb: "busy k p" "p \<noteq> Bfree" using ownbusy [OF inv] p by auto
  let ?d = "minor (b_dev k p) - 7"
  let ?far = "sint (b_blkno k p) \<ge> sint (NRKBLK * (if sint ?d \<le> 0 then 1 else ?d))"
  have "cache_ok (W - {p}) V' (rkstrategy p k) \<and> (r \<noteq> p \<longrightarrow> b_dev (rkstrategy p k) r = b_dev k r) \<and>
      (\<not> flag (b_flags k p) B_ASYNC \<longrightarrow> b_dev (rkstrategy p k) = b_dev k) \<and> b_blkno (rkstrategy p k) = b_blkno k"
  proof (cases ?far)
    case True
    define k1 where "k1 = set_flags p (setf (b_flags k p) B_ERROR) k"
    have eq: "rkstrategy p k = iodone p k1" using True by (simp add: rkstrategy_enqueue Let_def k1_def)
    have inv1: "cache_inv W V k1 av hl nl q" unfolding k1_def using inv p pb by (intro cache_inv_flags) (auto simp: flag_setf)
    have as: "flag (b_flags k1 p) B_ASYNC = flag (b_flags k p) B_ASYNC" by (simp add: k1_def flag_setf flag_num_simps)
    have act1: "active_ok (iodone p k1) q" using act pb(2) by (simp add: active_ok_def k1_def)
    have "cache_ok (W - {p}) V' (iodone p k1)"
    proof (cases "flag (b_flags k p) B_ASYNC")
      case True
      then show ?thesis using cache_iodone [OF inv1 p] as act1 by (auto simp: cache_ok_def V'_def)
    next
      case False
      then have "cache_inv W V (iodone p k1) av hl nl q" using cache_iodone [OF inv1 p] as by auto
      then have "cache_inv (W - {p}) (insert p V) (iodone p k1) av hl nl q" using p by (rule cache_inv_move)
      then show ?thesis using act1 False by (auto simp: cache_ok_def V'_def)
    qed
    then show ?thesis using pb(2) as by (simp add: eq) (simp add: k1_def)
  next
    case False
    let ?k = "enqueue p k"
    have inv1: "cache_inv (W - {p}) V' ?k av hl nl (q @ [p])"
      unfolding V'_def using inv p nd by (rule cache_enqueue)
    have "cache_ok (W - {p}) V' (if d_active ?k = 0 then rkstart ?k else ?k)"
    proof (cases "d_active k = 0")
      case True
      then show ?thesis using cache_start [OF inv1] by simp
    next
      case False
      then have "active_ok ?k (q @ [p])" using act by (simp add: active_ok_def split: if_splits)
      then show ?thesis using inv1 False by (auto simp: cache_ok_def)
    qed
    then have "cache_ok (W - {p}) V' (rkstrategy p k)"
      by (rule cache_ok_cong) (use False in \<open>simp_all add: rkstrategy_enqueue Let_def\<close>)
    then show ?thesis using False by (simp add: rkstrategy_enqueue Let_def)
  qed
  then show "cache_ok (W - {p}) V' (rkstrategy p k)" "r \<in> W \<union> V \<Longrightarrow> r \<noteq> p \<Longrightarrow> b_dev (rkstrategy p k) r = b_dev k r"
    "\<not> flag (b_flags k p) B_ASYNC \<Longrightarrow> b_dev (rkstrategy p k) = b_dev k" "b_blkno (rkstrategy p k) = b_blkno k"
    by auto
qed

subsection \<open>Finding and assigning\<close>

lemma bsearch_suffix:
  "dll (b_forw k) (b_back k) h (ys @ zs) \<Longrightarrow>
    bsearch k h dev blkno (hd (zs @ [h])) =
      Some (case find (\<lambda>p. b_blkno k p = blkno \<and> b_dev k p = dev) zs of Some p \<Rightarrow> p | None \<Rightarrow> h)"
proof (induction zs arbitrary: ys)
  case Nil
  then show ?case by (simp add: bsearch.simps)
next
  case (Cons z zs)
  have "z \<noteq> h" using Cons.prems by (auto simp: dll_def)
  moreover have "b_forw k z = hd (zs @ [h])" using dll_next [OF Cons.prems] by simp
  ultimately show ?case using Cons.IH [of "ys @ [z]"] Cons.prems by (subst bsearch.simps) simp
qed

lemma bsearch_finds:
  assumes "dll (b_forw k) (b_back k) h hl"
  shows "bsearch k h dev blkno (b_forw k h) =
    Some (case find (\<lambda>p. b_blkno k p = blkno \<and> b_dev k p = dev) hl of Some p \<Rightarrow> p | None \<Rightarrow> h)"
  using bsearch_suffix [of k h "[]" hl] assms dll_first [OF assms] by simp

lemma reassign_links:
  fixes k :: "'a kbio_scheme" and p dt :: bp and dev blkno :: u16
  defines "k' \<equiv> reassign p dt dev blkno k"
    and "f1 \<equiv> (b_forw k)(b_back k p := b_forw k p)" and "b1 \<equiv> (b_back k)(b_forw k p := b_back k p)"
  assumes "b_back k p \<noteq> p" "p \<noteq> dt"
  shows "b_forw k' = f1(p := f1 dt, dt := p)" "b_back k' = b1(p := dt, f1 dt := p)"
    "b_flags k' = (b_flags k)(p := B_BUSY OR B_RELOC)" "b_dev k' = (b_dev k)(p := dev)" "b_blkno k' = (b_blkno k)(p := blkno)"
    "av_forw k' = av_forw k" "av_back k' = av_back k" "d_actf k' = d_actf k" "d_actl k' = d_actl k"
    "d_active k' = d_active k" "nblkdev k' = nblkdev k"
  using assms by (simp_all add: reassign_def Let_def)

lemma lists_move:
  fixes k :: "'a kbio_scheme"
  assumes L: "lists_ok k av hl nl" and p: "p \<in> set hl \<union> set nl" and dt: "dt = Rktab \<or> dt = Bfree"
  defines "f1 \<equiv> (b_forw k)(b_back k p := b_forw k p)" and "b1 \<equiv> (b_back k)(b_forw k p := b_back k p)"
  defines "f3 \<equiv> f1(p := f1 dt, dt := p)" and "b3 \<equiv> b1(p := dt, f1 dt := p)"
  defines "hl' \<equiv> (if dt = Rktab then p # removeAll p hl else removeAll p hl)"
    and "nl' \<equiv> (if dt = Rktab then removeAll p nl else p # removeAll p nl)"
  shows "dll f3 b3 Rktab hl'" "dll f3 b3 Bfree nl'" "b_back k p \<noteq> p" "set (hl' @ nl') = bufs" "distinct (hl' @ nl')"
proof -
  have H: "dll (b_forw k) (b_back k) Rktab hl" and N: "dll (b_forw k) (b_back k) Bfree nl"
    and S: "set (hl @ nl) = bufs" and D: "distinct (hl @ nl)" using L by (auto simp: lists_ok_def)
  have heads: "Rktab \<notin> set hl \<union> set nl" "Bfree \<notin> set hl \<union> set nl" using S by auto
  have pb: "p \<in> bufs" "p \<noteq> Rktab" "p \<noteq> Bfree" using p S heads by auto
  have one: "dll f1 b1 Rktab (removeAll p hl) \<and> dll f1 b1 Bfree (removeAll p nl) \<and> b_back k p \<noteq> p"
  proof (cases "p \<in> set hl")
    case True
    then obtain ys zs where hl: "hl = ys @ p # zs" by (meson split_list)
    then have "removeAll p hl = ys @ zs" "removeAll p nl = nl" using D True by auto
    moreover have "b_back k p \<noteq> p" using dll_next(2) [of "b_forw k" "b_back k" Rktab ys p zs] H hl D pb
      by (cases ys rule: rev_cases) auto
    ultimately show ?thesis unfolding f1_def b1_def
      using dll_unlink [of "b_forw k" "b_back k" Rktab ys p zs] dll_unlink_other [of "b_forw k" "b_back k" Rktab ys p zs Bfree nl]
        H N hl D heads by auto
  next
    case False
    then have pn: "p \<in> set nl" using p by blast
    then obtain ys zs where nl: "nl = ys @ p # zs" by (meson split_list)
    then have "removeAll p nl = ys @ zs" "removeAll p hl = hl" using D False by auto
    moreover have "b_back k p \<noteq> p" using dll_next(2) [of "b_forw k" "b_back k" Bfree ys p zs] N nl D pb
      by (cases ys rule: rev_cases) auto
    ultimately show ?thesis unfolding f1_def b1_def
      using dll_unlink [of "b_forw k" "b_back k" Bfree ys p zs] dll_unlink_other [of "b_forw k" "b_back k" Bfree ys p zs Rktab hl]
        H N nl D heads by auto
  qed
  have dis: "set (Rktab # removeAll p hl) \<inter> set (Bfree # removeAll p nl) = {}" using D heads by auto
  have np: "p \<notin> set (Rktab # removeAll p hl)" "p \<notin> set (Bfree # removeAll p nl)" using pb by auto
  show "dll f3 b3 Rktab hl'"
    using dt one dis np dll_push [of f1 b1 Rktab "removeAll p hl" p] dll_push_other [of f1 b1 Bfree "removeAll p nl" Rktab "removeAll p hl" p]
    by (auto simp: f3_def b3_def hl'_def)
  show "dll f3 b3 Bfree nl'"
    using dt one dis np dll_push [of f1 b1 Bfree "removeAll p nl" p] dll_push_other [of f1 b1 Rktab "removeAll p hl" Bfree "removeAll p nl" p]
    by (auto simp: f3_def b3_def nl'_def)
  show "b_back k p \<noteq> p" using one by blast
  show "set (hl' @ nl') = bufs" using S pb by (auto simp: hl'_def nl'_def)
  show "distinct (hl' @ nl')" using D by (auto simp: hl'_def nl'_def distinct_removeAll)
qed

lemma cache_reassign:
  fixes k :: "'a kbio_scheme"
  assumes inv: "cache_inv W V k av hl nl q" and p: "p \<in> W" and dt: "dt = Rktab \<and> major dev = 0 \<or> dt = Bfree"
    and new: "dt = Rktab \<Longrightarrow> \<forall>r \<in> set hl. \<not> (b_blkno k r = blkno \<and> b_dev k r = dev)"
  shows "\<exists>hl' nl'. cache_inv W V (reassign p dt dev blkno k) av hl' nl' q"
proof -
  let ?k = "reassign p dt dev blkno k"
  have L: "lists_ok k av hl nl" and B: "blocks_ok k hl" and Q: "queue_ok W V k q" using inv by (auto simp: cache_inv_def)
  have pb: "p \<in> bufs" "busy k p" "p \<notin> V" "p \<notin> set q" "p \<noteq> Swbuf" using inv p by (auto simp: cache_inv_def queue_ok_def)
  have pin: "p \<in> set hl \<union> set nl" using L pb by (auto simp: lists_ok_def)
  have dt': "dt = Rktab \<or> dt = Bfree" using dt by blast
  note mv = lists_move [OF L pin dt']
  have "p \<noteq> dt" using pb dt by auto
  note re = reassign_links [OF mv(3) this, of dev blkno]
  let ?hl = "if dt = Rktab then p # removeAll p hl else removeAll p hl"
  let ?nl = "if dt = Rktab then removeAll p nl else p # removeAll p nl"
  have busy: "busy ?k r = busy k r" for r using pb(2) by (simp add: re flag_num_simps)
  have "lists_ok ?k av ?hl ?nl"
    using L mv(1,2,4,5) unfolding lists_ok_def re(1,2,6,7) busy by simp
  moreover have "blocks_ok ?k ?hl"
    using B new dt unfolding blocks_ok_def re(4,5) by (auto split: if_splits)
  moreover have "queue_ok W V ?k q"
    using Q pb unfolding queue_ok_def re(3,6,8,9) by (auto simp: flag_num_simps)
  ultimately show ?thesis using inv p unfolding cache_inv_def busy re(11) by blast
qed

text \<open>A sleep at a priority that no signal disturbs is what \<open>away\<close> does to the state with the process
  asleep.\<close>

lemma sleep_neg_away:
  assumes "pr < 0"
  shows "sleep_neg away c pr k =
    away (spl 0 (upd_proc (u_procp (u k)) (\<lambda>r. r\<lparr>p_wchan := c, p_stat := SSLEEP, p_pri := word_of_int pr\<rparr>) (spl 6 k)))"
  using assms by (auto simp: sleep_neg_def sleep_def sleep_enter_def Let_def split: Option.bind_split)

lemma cache_sleep:
  fixes k :: "'a kbio_scheme"
  assumes aw: "keeps_cache away" and ok: "cache_ok W V k" and s: "sleep_neg away c pr k = Some k'" and pr: "pr < 0"
  shows "cache_ok W V k'" "r \<in> W \<union> V \<Longrightarrow> b_dev k' r = b_dev k r" "r \<in> W \<union> V \<Longrightarrow> b_blkno k' r = b_blkno k r"
proof -
  define k0 where "k0 = spl 0 (upd_proc (u_procp (u k)) (\<lambda>r. r\<lparr>p_wchan := c, p_stat := SSLEEP, p_pri := word_of_int pr\<rparr>) (spl 6 k))"
  have f: "b_dev k0 = b_dev k" "b_blkno k0 = b_blkno k" using kbio_fields [of k0 k] by (simp_all add: k0_def)
  have ok0: "cache_ok W V k0" by (rule cache_ok_cong [OF ok]) (use kbio_fields [of k0 k] in \<open>simp_all add: k0_def\<close>)
  have a: "away k0 = Some k'" using s pr by (simp add: sleep_neg_away k0_def)
  show "cache_ok W V k'" "r \<in> W \<union> V \<Longrightarrow> b_dev k' r = b_dev k r" "r \<in> W \<union> V \<Longrightarrow> b_blkno k' r = b_blkno k r"
    using keepsD [OF aw ok0 a] f by auto
qed

lemma cache_bwrite_async:
  fixes k :: "'a kbio_scheme"
  assumes ok: "cache_ok W V k" and p: "p \<in> W" and as: "flag (b_flags k p) B_ASYNC" and w: "bwrite away p k = Some k'"
  shows "cache_ok (W - {p}) V k'" "r \<in> W \<union> V \<Longrightarrow> r \<noteq> p \<Longrightarrow> b_dev k' r = b_dev k r" "b_blkno k' = b_blkno k"
proof -
  define fl where "fl = clrf (b_flags k p) (B_READ OR B_DONE OR B_ERROR OR B_DELWRI)"
  define k1 where "k1 = (set_flags p fl k)\<lparr>b_wcount := (b_wcount k)(p := -256)\<rparr>"
  obtain av hl nl q where inv: "cache_inv W V k av hl nl q" and act: "active_ok k q" using ok by (auto simp: cache_ok_def)
  have b: "busy k p" using ownbusy [OF inv] p by blast
  have fl: "flag fl B_BUSY" "flag fl B_ASYNC" using b as by (simp_all add: fl_def flag_clrf_disjoint)
  have nd: "\<not> flag fl B_DONE" unfolding fl_def by (rule flag_clrf_sub) simp
  have "cache_inv W V (set_flags p fl k) av hl nl q" using inv p fl(1) by (rule cache_inv_flags)
  then have "cache_inv W V k1 av hl nl q" by (rule cache_inv_cong) (simp_all add: k1_def)
  moreover have "active_ok k1 q" using act by (simp add: active_ok_def k1_def)
  ultimately have ok1: "cache_ok W V k1" by (auto simp: cache_ok_def)
  have f1: "\<not> flag (b_flags k1 p) B_DONE" "flag (b_flags k1 p) B_ASYNC" using fl nd by (simp_all add: k1_def)
  note st = cache_rkstrategy [OF ok1 p f1(1)]
  have "k' = rkstrategy p k1 \<or> k' = geterror p (rkstrategy p k1)"
    using w as by (auto simp: bwrite_def strategy_def Let_def k1_def fl_def set_flags_def split: if_splits)
  moreover have g: "b_dev (geterror p k2) = b_dev k2" "b_blkno (geterror p k2) = b_blkno k2" for k2 :: "'a kbio_scheme"
    by (simp_all add: geterror_def Let_def set_error_def)
  moreover have "cache_ok A B (geterror p k2)" if "cache_ok A B k2" for A B and k2 :: "'a kbio_scheme"
    by (rule cache_ok_cong [OF that]) (simp_all add: geterror_def Let_def set_error_def)
  ultimately show "cache_ok (W - {p}) V k'" "r \<in> W \<union> V \<Longrightarrow> r \<noteq> p \<Longrightarrow> b_dev k' r = b_dev k r" "b_blkno k' = b_blkno k"
    using st f1(2) by (auto simp: g) (auto simp: k1_def)
qed

subsection \<open>Obtaining a buffer\<close>

lemma cache_ok_wanted:
  fixes k :: "'a kbio_scheme"
  assumes "cache_ok W V k"
  shows "cache_ok W V (set_flags p (setf (b_flags k p) B_WANTED) (spl 6 k))"
proof -
  obtain av hl nl q where inv: "cache_inv W V k av hl nl q" and act: "active_ok k q" using assms by (auto simp: cache_ok_def)
  have "cache_inv W V (set_flags p (setf (b_flags k p) B_WANTED) (spl 6 k)) av hl nl q"
    by (rule cache_inv_cong [OF cache_inv_wanted [OF inv, of p]]) simp_all
  then show ?thesis using act by (auto simp: cache_ok_def active_ok_def)
qed

lemma cache_wait:
  fixes k :: "'a kbio_scheme"
  assumes aw: "keeps_cache away" and ok: "cache_ok W V k"
    and s: "sleep_neg away c PRIBIO (set_flags p (setf (b_flags k p) B_WANTED) (spl 6 k)) = Some k'"
  shows "cache_ok W V (spl 0 k')" "\<forall>r \<in> W \<union> V. b_dev (spl 0 k') r = b_dev k r \<and> b_blkno (spl 0 k') r = b_blkno k r"
proof -
  have pr: "PRIBIO < 0" by simp
  note c = cache_sleep [OF aw cache_ok_wanted [OF ok] s pr]
  show "cache_ok W V (spl 0 k')" by (rule cache_ok_cong [OF c(1)]) simp_all
  show "\<forall>r \<in> W \<union> V. b_dev (spl 0 k') r = b_dev k r \<and> b_blkno (spl 0 k') r = b_blkno k r"
    using c(2,3) by simp
qed

lemma notavail_fields [simp]:
  "b_dev (notavail p k) = b_dev k" "b_blkno (notavail p k) = b_blkno k" "b_flags (notavail p k) = (b_flags k)(p := setf (b_flags k p) B_BUSY)"
  "d_active (notavail p k) = d_active k"
  by (simp_all add: notavail_def Let_def)

text \<open>What holds when \<open>getblk\<close> returns the buffer \<open>p\<close> and the state \<open>k'\<close> to a process that owned the buffers
  of \<open>W\<close> and \<open>V\<close> in the state \<open>k\<close>.\<close>

definition held :: "bp set \<Rightarrow> bp set \<Rightarrow> u16 \<Rightarrow> u16 \<Rightarrow> 'a kbio_scheme \<Rightarrow> bp \<times> 'a kbio_scheme \<Rightarrow> bool" where
  "held W V dev blkno k r \<longleftrightarrow> (case r of (p, k') \<Rightarrow>
     p \<notin> W \<union> V \<and> cache_ok (insert p W) V k' \<and> b_dev k' p = dev \<and> b_blkno k' p = blkno \<and>
     (\<forall>r \<in> W \<union> V. b_dev k' r = b_dev k r \<and> b_blkno k' r = b_blkno k r))"

definition obtained :: "bp set \<Rightarrow> bp set \<Rightarrow> u16 \<Rightarrow> u16 \<Rightarrow> 'a kbio_scheme \<Rightarrow> bp \<times> 'a kbio_scheme \<Rightarrow> bool" where
  "obtained W V dev blkno k r \<longleftrightarrow> held W V dev blkno k r \<and> \<not> flag (b_flags (snd r) (fst r)) B_ASYNC"

lemma obtained_from:
  "obtained W V dev blkno k1 r \<Longrightarrow> \<forall>r \<in> W \<union> V. b_dev k1 r = b_dev k r \<and> b_blkno k1 r = b_blkno k r \<Longrightarrow> obtained W V dev blkno k r"
  by (auto simp: obtained_def held_def)

lemma getblk_step:
  fixes k :: "'a kbio_scheme"
  assumes aw: "keeps_cache away" and ok: "cache_ok W V k" and dev: "sint dev < 0 \<or> major dev = 0"
    and IH: "\<And>k r. f k = Some r \<Longrightarrow> cache_ok W V k \<Longrightarrow> obtained W V dev blkno k r"
    and g: "(if major dev \<ge> sint (nblkdev k) then None
      else do {
        dt \<leftarrow> (if sint dev < 0 then Some Bfree else d_tab dev);
        p \<leftarrow> (if sint dev < 0 then Some Bfree else bsearch k dt dev blkno (b_forw k dt));
        if p \<noteq> dt then
          (if flag (b_flags k p) B_BUSY then do {
             k \<leftarrow> sleep_neg away (buf_chan p) PRIBIO (set_flags p (setf (b_flags k p) B_WANTED) (spl 6 k));
             f (spl 0 k) }
           else Some (p, notavail p (spl 0 (spl 6 k))))
        else if av_forw k Bfree = Bfree then do {
          k \<leftarrow> sleep_neg away ChBfree PRIBIO (set_flags Bfree (setf (b_flags k Bfree) B_WANTED) (spl 6 k));
          f (spl 0 k) }
        else do {
          let p = av_forw k Bfree;
          let k = notavail p (spl 0 (spl 6 k));
          if flag (b_flags k p) B_DELWRI then do {
            k \<leftarrow> bwrite away p (set_flags p (setf (b_flags k p) B_ASYNC) k);
            f k }
          else Some (p, reassign p dt dev blkno k) } }) = Some r"
  shows "obtained W V dev blkno k r"
proof -
  obtain av hl nl q where inv: "cache_inv W V k av hl nl q" and act: "active_ok k q" using ok by (auto simp: cache_ok_def)
  have L: "lists_ok k av hl nl" using inv by (simp add: cache_inv_def)
  define dt where "dt = (if sint dev < 0 then Bfree else Rktab)"
  define fnd where "fnd = (if sint dev < 0 then None else find (\<lambda>p. b_blkno k p = blkno \<and> b_dev k p = dev) hl)"
  have hd_ok: "Rktab \<notin> set hl" using L by (auto simp: lists_ok_def)
  have bs: "(if sint dev < 0 then Some Bfree else bsearch k dt dev blkno (b_forw k dt)) = Some (case fnd of Some p \<Rightarrow> p | None \<Rightarrow> dt)"
    using bsearch_finds [of k Rktab hl dev blkno] L unfolding fnd_def dt_def by (cases "sint dev < 0") (simp_all add: lists_ok_def)
  have dtab: "(if sint dev < 0 then Some Bfree else d_tab dev) = Some dt" using dev by (auto simp: d_tab_def dt_def)
  note g' = g [unfolded dtab Option.bind.bind_lunit bs]
  have free: "cache_inv W V (spl 0 (spl 6 k)) av hl nl q" by (rule cache_inv_cong [OF inv]) simp_all
  show ?thesis
  proof (cases fnd)
    case (Some p)
    then have p: "p \<in> set hl" "b_blkno k p = blkno" "b_dev k p = dev"
      by (auto simp: fnd_def find_Some_iff split: if_splits)
    have "p \<noteq> dt" using p(1) L hd_ok by (auto simp: dt_def lists_ok_def)
    show ?thesis
    proof (cases "busy k p")
      case True
      then obtain k1 where s: "sleep_neg away (buf_chan p) PRIBIO (set_flags p (setf (b_flags k p) B_WANTED) (spl 6 k)) = Some k1"
          and r: "f (spl 0 k1) = Some r"
        using g' Some \<open>p \<noteq> dt\<close> by (auto split: if_splits Option.bind_splits)
      note w = cache_wait [OF aw ok s]
      show ?thesis by (rule obtained_from [OF IH [OF r w(1)] w(2)])
    next
      case False
      then have r: "r = (p, notavail p (spl 0 (spl 6 k)))" using g' Some \<open>p \<noteq> dt\<close> by (auto split: if_splits)
      have "p \<in> set av" using L p(1) False by (auto simp: lists_ok_def)
      from cache_notavail [OF free this] obtain av' where "cache_inv (insert p W) V (notavail p (spl 0 (spl 6 k))) av' hl nl q" ..
      moreover have "p \<notin> W \<union> V" using ownbusy [OF inv] False by blast
      ultimately have "held W V dev blkno k r" using act p by (auto simp: r held_def cache_ok_def active_ok_def)
      moreover have "\<not> flag (b_flags k p) B_ASYNC" using inv False av_heads(5) [OF L \<open>p \<in> set av\<close>] by (auto simp: cache_inv_def queue_ok_def)
      ultimately show ?thesis by (simp add: obtained_def r flag_setf flag_num_simps)
    qed
  next
    case None
    show ?thesis
    proof (cases "av_forw k Bfree = Bfree")
      case True
      then obtain k1 where s: "sleep_neg away ChBfree PRIBIO (set_flags Bfree (setf (b_flags k Bfree) B_WANTED) (spl 6 k)) = Some k1"
          and r: "f (spl 0 k1) = Some r"
        using g' None by (auto split: if_splits Option.bind_splits)
      note w = cache_wait [OF aw ok s]
      show ?thesis by (rule obtained_from [OF IH [OF r w(1)] w(2)])
    next
      case False
      define p where "p = av_forw k Bfree"
      define k1 where "k1 = notavail p (spl 0 (spl 6 k))"
      have "av \<noteq> []" using L False dll_first [of "av_forw k" "av_back k" Bfree av] by (auto simp: lists_ok_def)
      then have pav: "p \<in> set av" using dll_first [of "av_forw k" "av_back k" Bfree av] L by (cases av) (auto simp: lists_ok_def p_def)
      from cache_notavail [OF free pav] obtain av' where inv1: "cache_inv (insert p W) V k1 av' hl nl q" by (auto simp: k1_def)
      have nb: "p \<notin> W \<union> V" using ownbusy [OF inv] av_heads(4) [OF L pav] by blast
      have same: "b_dev k1 = b_dev k" "b_blkno k1 = b_blkno k" "d_active k1 = d_active k" by (simp_all add: k1_def)
      have act1: "active_ok k1 q" using act by (simp add: active_ok_def same)
      show ?thesis
      proof (cases "flag (b_flags k1 p) B_DELWRI")
        case True
        let ?k2 = "set_flags p (setf (b_flags k1 p) B_ASYNC) k1"
        obtain k3 where w: "bwrite away p ?k2 = Some k3" and r: "f k3 = Some r"
          using g' None False True by (auto simp: p_def [symmetric] k1_def [symmetric] simp del: notavail_fields split: if_splits Option.bind_splits)
        have "busy k1 p" using ownbusy [OF inv1] by blast
        then have "flag (setf (b_flags k1 p) B_ASYNC) B_BUSY" by (simp add: flag_setf)
        then have "cache_inv (insert p W) V ?k2 av' hl nl q" using cache_inv_flags [OF inv1] by blast
        then have ok2: "cache_ok (insert p W) V ?k2" using act1 by (auto simp: cache_ok_def active_ok_def)
        have as: "flag (b_flags ?k2 p) B_ASYNC" by (simp add: flag_setf)
        note b = cache_bwrite_async [OF ok2 _ as w, simplified]
        have "insert p W - {p} = W" using nb by auto
        then have "cache_ok W V k3" using b(1) by simp
        moreover have "\<forall>r \<in> W \<union> V. b_dev k3 r = b_dev k r \<and> b_blkno k3 r = b_blkno k r"
          using b(2,3) nb by (auto simp: same)
        ultimately show ?thesis using obtained_from [OF IH [OF r]] by blast
      next
        case False
        then have r: "r = (p, reassign p dt dev blkno k1)"
          using g' None \<open>av_forw k Bfree \<noteq> Bfree\<close> by (auto simp: p_def [symmetric] k1_def [symmetric] simp del: notavail_fields split: if_splits)
        have dt: "dt = Rktab \<and> major dev = 0 \<or> dt = Bfree" using dev by (auto simp: dt_def)
        have new: "\<forall>x \<in> set hl. \<not> (b_blkno k1 x = blkno \<and> b_dev k1 x = dev)" if "dt = Rktab"
          using None that by (auto simp: fnd_def dt_def find_None_iff same split: if_splits)
        from cache_reassign [OF inv1 insertI1 dt new] obtain hl' nl' where
          "cache_inv (insert p W) V (reassign p dt dev blkno k1) av' hl' nl' q" by blast
        moreover have "b_dev (reassign p dt dev blkno k1) = (b_dev k1)(p := dev)"
          "b_blkno (reassign p dt dev blkno k1) = (b_blkno k1)(p := blkno)" "d_active (reassign p dt dev blkno k1) = d_active k1"
          by (simp_all add: reassign_def Let_def)
        moreover have "\<not> flag (b_flags (reassign p dt dev blkno k1) p) B_ASYNC"
          by (simp add: reassign_def Let_def flag_num_simps)
        ultimately show ?thesis using act1 nb by (auto simp: r obtained_def held_def cache_ok_def active_ok_def same)
      qed
    qed
  qed
qed

lemma getblk_obtains:
  fixes k :: "'a kbio_scheme"
  assumes "getblk away dev blkno k = Some r" "keeps_cache away" "cache_ok W V k" "sint dev < 0 \<or> major dev = 0"
  shows "obtained W V dev blkno k r"
  using assms(2-)
proof (induction rule: getblk.raw_induct [OF _ assms(1)])
  case (1 f away dev blkno k r)
  show ?case by (rule getblk_step [OF 1(3-5) 1(1) [OF _ 1(3) _ 1(5)] 1(2)])
qed

subsection \<open>Waiting for a transfer\<close>

lemma geterror_fields [simp]:
  fixes k :: "'a kbio_scheme"
  shows "b_flags (geterror p k) = b_flags k" "b_forw (geterror p k) = b_forw k" "b_back (geterror p k) = b_back k"
    "av_forw (geterror p k) = av_forw k" "av_back (geterror p k) = av_back k" "b_dev (geterror p k) = b_dev k"
    "b_blkno (geterror p k) = b_blkno k" "d_active (geterror p k) = d_active k" "d_actf (geterror p k) = d_actf k"
    "d_actl (geterror p k) = d_actl k" "nblkdev (geterror p k) = nblkdev k" "buffers (geterror p k) = buffers k"
    "disk (geterror p k) = disk k"
  by (simp_all add: geterror_def Let_def set_error_def)

text \<open>\<open>own k k' S\<close>: the buffers of \<open>S\<close> are assigned to the same blocks in both states.\<close>

definition own :: "'a kbio_scheme \<Rightarrow> 'a kbio_scheme \<Rightarrow> bp set \<Rightarrow> bool" where
  "own k k' S \<longleftrightarrow> (\<forall>r \<in> S. b_dev k' r = b_dev k r \<and> b_blkno k' r = b_blkno k r)"

lemma own_refl [simp]: "own k k S" and own_trans: "own k k' S \<Longrightarrow> own k' k'' S \<Longrightarrow> own k k'' S"
  and own_mono: "own k k' S \<Longrightarrow> T \<subseteq> S \<Longrightarrow> own k k' T"
  and own_same: "b_dev k' = b_dev k \<Longrightarrow> b_blkno k' = b_blkno k \<Longrightarrow> own k k' S"
  by (auto simp: own_def)

lemma iowait_loop_keeps:
  fixes k :: "'a kbio_scheme"
  assumes "iowait_loop away p k = Some k'" "keeps_cache away" "cache_ok W V k"
  shows "cache_ok W V k' \<and> own k k' (W \<union> V) \<and> flag (b_flags k' p) B_DONE"
  using assms(2-)
proof (induction rule: iowait_loop.raw_induct [OF _ assms(1)])
  case (1 f away p k r)
  show ?case
  proof (cases "flag (b_flags k p) B_DONE")
    case False
    then obtain k1 where s: "sleep_neg away (buf_chan p) PRIBIO k = Some k1" and r: "f away p k1 = Some r"
      using 1(2) by (auto split: Option.bind_splits)
    have pr: "PRIBIO < 0" by simp
    note c = cache_sleep [OF 1(3,4) s pr]
    have "own k k1 (W \<union> V)" using c(2,3) by (simp add: own_def)
    with 1(1) [OF r 1(3) c(1)] show ?thesis by (blast intro: own_trans)
  qed (use 1 in simp)
qed

lemma done_owned:
  assumes ok: "cache_ok W (insert p V) k" and d: "flag (b_flags k p) B_DONE" and np: "p \<notin> V"
  shows "cache_ok (insert p W) V k"
proof -
  obtain av hl nl q where inv: "cache_inv W (insert p V) k av hl nl q" and act: "active_ok k q" using ok by (auto simp: cache_ok_def)
  have "p \<notin> set q" using inv d by (auto simp: cache_inv_def queue_ok_def)
  with cache_inv_take [OF inv] ownbusy [OF inv, of p] have "cache_inv (insert p W) (insert p V - {p}) k av hl nl q" by blast
  with np act show ?thesis by (auto simp: cache_ok_def)
qed

lemma iowait_returns:
  fixes k :: "'a kbio_scheme"
  assumes w: "iowait away p k = Some k'" and aw: "keeps_cache away" and ok: "cache_ok W (insert p V) k" and np: "p \<notin> V"
  shows "cache_ok (insert p W) V k'" "own k k' (insert p W \<union> V)" "flag (b_flags k' p) B_DONE"
proof -
  obtain k1 where l: "iowait_loop away p (spl 6 k) = Some k1" and k': "k' = geterror p (spl 0 k1)"
    using w by (auto simp: iowait_def split: Option.bind_splits)
  have "cache_ok W (insert p V) (spl 6 k)" by (rule cache_ok_cong [OF ok]) simp_all
  from iowait_loop_keeps [OF l aw this]
  have c: "cache_ok W (insert p V) k1" "own (spl 6 k) k1 (W \<union> insert p V)" "flag (b_flags k1 p) B_DONE" by auto
  show "cache_ok (insert p W) V k'" by (rule cache_ok_cong [OF done_owned [OF c(1,3) np]]) (simp_all add: k')
  show "own k k' (insert p W \<union> V)" using c(2) by (auto simp: own_def k')
  show "flag (b_flags k' p) B_DONE" using c(3) by (simp add: k')
qed

text \<open>A transfer that the process starts and waits for.\<close>

lemma transfer_returns:
  fixes k :: "'a kbio_scheme"
  assumes ok: "cache_ok W V k" and p: "p \<in> W" and aw: "keeps_cache away"
    and fl: "flag fl B_BUSY" "\<not> flag fl B_DONE" "\<not> flag fl B_ASYNC"
    and io: "do { k \<leftarrow> strategy p ((set_flags p fl k)\<lparr>b_wcount := w\<rparr>); iowait away p k } = Some k'"
  shows "cache_ok W V k'" "own k k' (W \<union> V)" "flag (b_flags k' p) B_DONE"
proof -
  define k1 where "k1 = (set_flags p fl k)\<lparr>b_wcount := w\<rparr>"
  obtain av hl nl q where inv: "cache_inv W V k av hl nl q" and act: "active_ok k q" using ok by (auto simp: cache_ok_def)
  have pV: "p \<notin> V" using inv p by (auto simp: cache_inv_def)
  have "cache_inv W V (set_flags p fl k) av hl nl q" using inv p fl(1) by (rule cache_inv_flags)
  then have "cache_inv W V k1 av hl nl q" by (rule cache_inv_cong) (simp_all add: k1_def)
  moreover have "active_ok k1 q" using act by (simp add: active_ok_def k1_def)
  ultimately have ok1: "cache_ok W V k1" by (auto simp: cache_ok_def)
  have nd: "\<not> flag (b_flags k1 p) B_DONE" and na: "\<not> flag (b_flags k1 p) B_ASYNC" using fl by (simp_all add: k1_def)
  note st = cache_rkstrategy [OF ok1 p nd]
  have iow: "iowait away p (rkstrategy p k1) = Some k'"
    using io by (auto simp: k1_def [symmetric] strategy_def split: if_splits)
  have ok2: "cache_ok (W - {p}) (insert p V) (rkstrategy p k1)" using st(1) na by simp
  have W: "insert p (W - {p}) = W" using p by auto
  note r = iowait_returns [OF iow aw ok2 pV, unfolded W]
  have "own k (rkstrategy p k1) (W \<union> V)" by (rule own_same) (use st(3,4) na in \<open>simp_all add: k1_def\<close>)
  then show "cache_ok W V k'" "own k k' (W \<union> V)" "flag (b_flags k' p) B_DONE" using r by (blast intro: own_trans)+
qed

lemma bread_obtains:
  fixes k :: "'a kbio_scheme"
  assumes b: "bread away dev blkno k = Some (p, k')" and aw: "keeps_cache away" and ok: "cache_ok W V k"
    and dev: "sint dev < 0 \<or> major dev = 0"
  shows "held W V dev blkno k (p, k')" "flag (b_flags k' p) B_DONE"
proof -
  obtain p1 k1 where g: "getblk away dev blkno k = Some (p1, k1)"
    and rest: "(if flag (b_flags k1 p1) B_DONE then Some (p1, k1)
     else do {
       let k = set_flags p1 (setf (b_flags k1 p1) B_READ) k1;
       let k = k\<lparr>b_wcount := (b_wcount k)(p1 := -256)\<rparr>;
       k \<leftarrow> strategy p1 k;
       k \<leftarrow> iowait away p1 k;
       Some (p1, k) }) = Some (p, k')"
    using b by (auto simp: bread_def split: Option.bind_splits)
  have p: "p1 = p" using rest by (auto simp: Let_def split: if_splits Option.bind_splits)
  have o: "obtained W V dev blkno k (p, k1)" using getblk_obtains [OF g aw ok dev] p by simp
  then have h: "held W V dev blkno k (p, k1)" and na: "\<not> flag (b_flags k1 p) B_ASYNC" by (simp_all add: obtained_def)
  have "held W V dev blkno k (p, k') \<and> flag (b_flags k' p) B_DONE"
  proof (cases "flag (b_flags k1 p) B_DONE")
    case False
    define fl where "fl = setf (b_flags k1 p) B_READ"
    have ok1: "cache_ok (insert p W) V k1" using h by (simp add: held_def)
    then have "busy k1 p" using ownbusy by (fastforce simp: cache_ok_def)
    then have fl: "flag fl B_BUSY" "\<not> flag fl B_DONE" "\<not> flag fl B_ASYNC"
      using False na by (simp_all add: fl_def flag_setf flag_num_simps)
    have "do { k \<leftarrow> strategy p ((set_flags p fl k1)\<lparr>b_wcount := (b_wcount k1)(p := -256)\<rparr>); iowait away p k } = Some k'"
      using rest False p by (auto simp: fl_def Let_def set_flags_def split: Option.bind_splits)
    from transfer_returns [OF ok1 insertI1 aw fl this] h show ?thesis by (auto simp: held_def own_def)
  qed (use h rest p in auto)
  then show "held W V dev blkno k (p, k')" "flag (b_flags k' p) B_DONE" by auto
qed

subsection \<open>Giving a buffer back\<close>

lemma brelse_releases:
  fixes k :: "'a kbio_scheme"
  assumes ok: "cache_ok W V k" and p: "p \<in> W"
  shows "cache_ok (W - {p}) V (brelse p k)" "own k (brelse p k) (W \<union> V - {p})"
proof -
  obtain av hl nl q where inv: "cache_inv W V k av hl nl q" and act: "active_ok k q" using ok by (auto simp: cache_ok_def)
  have pf: "p \<noteq> Bfree" using ownbusy [OF inv, of p] p by auto
  note f = brelse_fields [OF pf, where k = k]
  show "cache_ok (W - {p}) V (brelse p k)" using cache_brelse [OF inv p] act f(4) by (auto simp: cache_ok_def active_ok_def f)
  show "own k (brelse p k) (W \<union> V - {p})" using f by (auto simp: own_def)
qed

lemma bwrite_releases:
  fixes k :: "'a kbio_scheme"
  assumes w: "bwrite away p k = Some k'" and aw: "keeps_cache away" and ok: "cache_ok W V k" and p: "p \<in> W"
  shows "cache_ok (W - {p}) V k' \<and> own k k' (W \<union> V - {p})"
proof (cases "flag (b_flags k p) B_ASYNC")
  case True
  show ?thesis using cache_bwrite_async [OF ok p True w] by (auto simp: own_def)
next
  case False
  define fl where "fl = clrf (b_flags k p) (B_READ OR B_DONE OR B_ERROR OR B_DELWRI)"
  have "busy k p" using ok p ownbusy by (fastforce simp: cache_ok_def)
  then have fl: "flag fl B_BUSY" "\<not> flag fl B_ASYNC" using False by (simp_all add: fl_def flag_clrf_disjoint)
  have nd: "\<not> flag fl B_DONE" unfolding fl_def by (rule flag_clrf_sub) simp
  obtain k1 where io: "do { k \<leftarrow> strategy p ((set_flags p fl k)\<lparr>b_wcount := (b_wcount k)(p := -256)\<rparr>); iowait away p k } = Some k1"
    and k': "k' = brelse p k1"
    using w False by (auto simp: bwrite_def fl_def Let_def set_flags_def split: Option.bind_splits)
  note t = transfer_returns [OF ok p aw fl(1) nd fl(2) io]
  show ?thesis using brelse_releases [OF t(1) p] t(2) unfolding k' by (auto simp: own_def)
qed

lemma bdwrite_releases:
  fixes k :: "'a kbio_scheme"
  assumes ok: "cache_ok W V k" and p: "p \<in> W"
  shows "cache_ok (W - {p}) V (bdwrite p k) \<and> own k (bdwrite p k) (W \<union> V - {p})"
proof -
  let ?k = "set_flags p (setf (b_flags k p) (B_DELWRI OR B_DONE)) k"
  obtain av hl nl q where inv: "cache_inv W V k av hl nl q" and act: "active_ok k q" using ok by (auto simp: cache_ok_def)
  have "flag (setf (b_flags k p) (B_DELWRI OR B_DONE)) B_BUSY" using ownbusy [OF inv, of p] p by (simp add: flag_setf)
  from cache_inv_flags [OF inv p this] have "cache_ok W V ?k" using act by (auto simp: cache_ok_def active_ok_def)
  from brelse_releases [OF this p] show ?thesis by (auto simp: bdwrite_def own_def)
qed

subsection \<open>The cache at boot\<close>

lemma binit_one_fields:
  fixes k :: "'a kbio_scheme" and i :: nat
  defines "k' \<equiv> binit_one i k"
  shows "b_forw k' = (b_forw k)(Buf i := b_forw k Bfree, Bfree := Buf i)"
    "b_back k' = (b_back k)(Buf i := Bfree, b_forw k Bfree := Buf i)"
    "av_forw k' = (av_forw k)(av_back k Bfree := Buf i, Buf i := Bfree)"
    "av_back k' = (av_back k)(Buf i := av_back k Bfree, Bfree := Buf i)"
    "b_flags k' (Buf j) = (if j = i then 0 else b_flags k (Buf j))"
    "d_actf k' = d_actf k" "d_active k' = d_active k"
proof -
  let ?k = "set_flags (Buf i) B_BUSY (k\<lparr>b_dev := (b_dev k)(Buf i := -1),
     b_back := (b_back k)(Buf i := Bfree, b_forw k Bfree := Buf i), b_forw := (b_forw k)(Buf i := b_forw k Bfree, Bfree := Buf i)\<rparr>)"
  have k': "k' = brelse (Buf i) ?k" by (simp add: k'_def binit_one_def Let_def fun_upd_twist)
  have n: "Buf i \<noteq> Bfree" by simp
  note f = brelse_fields [OF n, where k = ?k, folded k']
  show "b_forw k' = (b_forw k)(Buf i := b_forw k Bfree, Bfree := Buf i)"
    "b_back k' = (b_back k)(Buf i := Bfree, b_forw k Bfree := Buf i)"
    "av_forw k' = (av_forw k)(av_back k Bfree := Buf i, Buf i := Bfree)"
    "av_back k' = (av_back k)(Buf i := av_back k Bfree, Bfree := Buf i)"
    "d_actf k' = d_actf k" "d_active k' = d_active k"
    by (simp_all add: f)
  show "b_flags k' (Buf j) = (if j = i then 0 else b_flags k (Buf j))"
    using f(11,12) by (cases "j = i") (simp_all add: clrf_def)
qed

lemma binit_fold:
  fixes k :: "'a kbio_scheme" and n :: nat
  assumes "dll (av_forw k) (av_back k) Bfree []" "dll (b_forw k) (b_back k) Bfree []"
  defines "k' \<equiv> fold binit_one [0..<n] k"
  shows "dll (av_forw k') (av_back k') Bfree (map Buf [0..<n]) \<and> dll (b_forw k') (b_back k') Bfree (rev (map Buf [0..<n])) \<and>
    (\<forall>j < n. b_flags k' (Buf j) = 0) \<and> d_actf k' = d_actf k \<and> d_active k' = d_active k"
  unfolding k'_def
proof (induction n)
  case 0
  then show ?case using assms(1,2) by simp
next
  case (Suc n)
  define k1 where "k1 = fold binit_one [0..<n] k"
  have IH: "dll (av_forw k1) (av_back k1) Bfree (map Buf [0..<n])" "dll (b_forw k1) (b_back k1) Bfree (rev (map Buf [0..<n]))"
    "\<forall>j < n. b_flags k1 (Buf j) = 0" "d_actf k1 = d_actf k" "d_active k1 = d_active k" using Suc by (auto simp: k1_def)
  have k2: "fold binit_one [0..<Suc n] k = binit_one n k1" by (simp add: k1_def)
  note f = binit_one_fields [of n k1]
  have new: "Buf n \<notin> set (Bfree # map Buf [0..<n])" by auto
  have "dll (av_forw (binit_one n k1)) (av_back (binit_one n k1)) Bfree (map Buf [0..<n] @ Buf n # [])"
    using IH(1) new dll_last [OF IH(1)]
    by (intro dll_insert [of "av_forw k1" "av_back k1" Bfree _ "[]" "Buf n" "av_back k1 Bfree" Bfree]) (simp_all add: f fun_upd_twist)
  moreover have "dll (b_forw (binit_one n k1)) (b_back (binit_one n k1)) Bfree (Buf n # rev (map Buf [0..<n]))"
    unfolding f using IH(2) new by (intro dll_push) auto
  ultimately show ?case using IH(3-5) unfolding k2 by (auto simp: f(5-7) less_Suc_eq)
qed

lemma binit_lists:
  fixes k :: "'a kbio_scheme"
  assumes "d_actf k = BNull"
  shows "cache_inv {} {} (binit k) (map Buf [0..<NBUF]) [] (rev (map Buf [0..<NBUF])) []"
    "i < NBUF \<Longrightarrow> b_flags (binit k) (Buf i) = 0" "d_active (binit k) = d_active k"
proof -
  define k0 where "k0 = k\<lparr>b_forw := (b_forw k)(Bfree := Bfree), b_back := (b_back k)(Bfree := Bfree),
               av_forw := (av_forw k)(Bfree := Bfree), av_back := (av_back k)(Bfree := Bfree)\<rparr>"
  define k1 where "k1 = fold binit_one [0..<NBUF] k0"
  have b: "binit k = k1\<lparr>b_forw := (b_forw k1)(Rktab := Rktab), b_back := (b_back k1)(Rktab := Rktab), nblkdev := 1\<rparr>"
    unfolding binit_def Let_def k1_def k0_def by (rule refl)
  have "dll (av_forw k0) (av_back k0) Bfree []" "dll (b_forw k0) (b_back k0) Bfree []" by (simp_all add: k0_def dll_def)
  from binit_fold [OF this, of NBUF, folded k1_def]
  have F: "dll (av_forw k1) (av_back k1) Bfree (map Buf [0..<NBUF])" "dll (b_forw k1) (b_back k1) Bfree (rev (map Buf [0..<NBUF]))"
    "\<And>j. j < NBUF \<Longrightarrow> b_flags k1 (Buf j) = 0" "d_actf k1 = d_actf k0" "d_active k1 = d_active k0" by blast+
  have "dll (b_forw (binit k)) (b_back (binit k)) Bfree (rev (map Buf [0..<NBUF])) = dll (b_forw k1) (b_back k1) Bfree (rev (map Buf [0..<NBUF]))"
    by (rule dll_cong) (auto simp: b simp del: upt_conv_Cons upt_rec_numeral)
  moreover have "dll (b_forw (binit k)) (b_back (binit k)) Rktab []" by (simp add: b dll_def)
  moreover have av: "av_forw (binit k) = av_forw k1" "av_back (binit k) = av_back k1" "b_flags (binit k) = b_flags k1" by (simp_all add: b)
  moreover have "set (map Buf [0..<NBUF]) = bufs" "distinct (map Buf [0..<NBUF])"
    by (auto simp: distinct_map inj_on_def simp del: upt_conv_Cons upt_rec_numeral)
  moreover have nb: "\<not> busy k1 r" "\<not> flag (b_flags k1 r) B_ASYNC" if "r \<in> bufs" for r using that F(3) by auto
  ultimately have "lists_ok (binit k) (map Buf [0..<NBUF]) [] (rev (map Buf [0..<NBUF]))"
    using F(1,2) unfolding lists_ok_def by (simp add: distinct_rev del: upt_conv_Cons upt_rec_numeral) blast
  moreover have "queue_ok {} {} (binit k) []" using F(4) assms nb av by (auto simp: queue_ok_def b k0_def)
  ultimately show "cache_inv {} {} (binit k) (map Buf [0..<NBUF]) [] (rev (map Buf [0..<NBUF])) []"
    by (simp add: cache_inv_def blocks_ok_def b del: upt_conv_Cons upt_rec_numeral)
  show "i < NBUF \<Longrightarrow> b_flags (binit k) (Buf i) = 0" "d_active (binit k) = d_active k" using F(3,5) by (simp_all add: b k0_def)
qed

subsection \<open>A transfer on an idle disk\<close>

text \<open>The sector of a block, and the test of the driver that it is beyond the end of the disk.\<close>

definition sector_of :: "u16 \<Rightarrow> u16 \<Rightarrow> nat" where
  "sector_of dev blkno = unat (blkno + NRKBLK * minor dev)"

definition beyond :: "u16 \<Rightarrow> u16 \<Rightarrow> bool" where
  "beyond dev blkno \<longleftrightarrow> sint blkno \<ge> sint (NRKBLK * (if sint (minor dev - 7) \<le> 0 then 1 else minor dev - 7))"

text \<open>The 512 bytes of a buffer.\<close>

definition sector_at :: "(nat \<Rightarrow> u8) \<Rightarrow> nat \<Rightarrow> nat \<Rightarrow> u8" where
  "sector_at f b = (\<lambda>i. if i < 512 then f (b + i) else 0)"

definition contents :: "'a kbio_scheme \<Rightarrow> bp \<Rightarrow> nat \<Rightarrow> u8" where
  "contents k p = sector_at (buffers k) (b_addr p)"

text \<open>\<open>calm k k'\<close>: the cache and the disk at most have changed, and which process is how far asleep: not the user area, the
  memory, the place of an image or anything above the buffers.  \<open>linked k k'\<close>: every buffer has its block and its place in the list of the device.\<close>

definition calm :: "'a kbio_scheme \<Rightarrow> 'a kbio_scheme \<Rightarrow> bool" where
  "calm k k' \<longleftrightarrow> u k' = u k \<and> mem k' = mem k \<and> (\<forall>q. p_addr (proc k' q) = p_addr (proc k q)) \<and> kbio.more k' = kbio.more k"

definition linked :: "'a kbio_scheme \<Rightarrow> 'a kbio_scheme \<Rightarrow> bool" where
  "linked k k' \<longleftrightarrow> b_forw k' = b_forw k \<and> b_dev k' = b_dev k \<and> b_blkno k' = b_blkno k"

lemma calm_trans: "calm k k' \<Longrightarrow> calm k' k'' \<Longrightarrow> calm k k''"
  by (simp add: calm_def)

lemma calm_wakeup: "c \<noteq> NoChan \<Longrightarrow> calm k (wakeup c k)"
  by (simp add: calm_def wakeup_proc(1))

lemma linked_trans: "linked k k' \<Longrightarrow> linked k' k'' \<Longrightarrow> linked k k''"
  by (simp add: linked_def)

lemma calm_brelse: "calm k (brelse p k)"
proof -
  define k1 where "k1 = (if flag (b_flags k p) B_WANTED then wakeup (buf_chan p) k else k)"
  define k2 where "k2 = (if flag (b_flags k1 Bfree) B_WANTED
               then wakeup ChBfree (set_flags Bfree (clrf (b_flags k1 Bfree) B_WANTED) k1) else k1)"
  have f: "calm k (set_flags q x k)" for q x and k :: "'a kbio_scheme" by (simp add: calm_def set_flags_def)
  have "calm k k1" by (simp add: k1_def calm_wakeup) (simp add: calm_def)
  moreover have "calm k1 k2" by (auto simp: k2_def intro: calm_trans [OF f calm_wakeup]) (simp add: calm_def)
  moreover have "calm k2 (brelse p k)"
    unfolding brelse_def Let_def k1_def [symmetric] k2_def [symmetric] by (simp add: calm_def set_flags_def spl_def)
  ultimately show ?thesis by (blast intro: calm_trans)
qed

lemma calm_iodone: "calm k (iodone p k)"
proof -
  have f: "calm k (set_flags q x k)" for q x and k :: "'a kbio_scheme" by (simp add: calm_def set_flags_def)
  show ?thesis unfolding iodone_def Let_def
    by (auto intro: calm_trans [OF f calm_brelse] calm_trans [OF f calm_trans [OF f calm_wakeup]])
qed

lemma idestart_cases:
  "idestart s None k = k\<lparr>disk_sector := unat s\<rparr>"
  "idestart s (Some (KBuf b)) k =
     k\<lparr>disk_sector := unat s, disk := (disk k)(unat s := sector_at (buffers k) b)\<rparr>"
  by (simp_all add: idestart_def io_null_def io_read_def Let_def sector_at_def cong: if_cong)

lemma devstart_buffer:
  assumes "\<not> flag (b_flags k p) B_PHYS"
  shows "devstart p k =
    (let k' = k\<lparr>io_sector := b_blkno k p + NRKBLK * minor (b_dev k p), io_count := 1, io_buf := KBuf (b_addr p),
        io_cmd := b_flags k p AND B_READ, disk_sector := sector_of (b_dev k p) (b_blkno k p)\<rparr>
     in if flag (b_flags k p) B_READ then k' else k'\<lparr>disk := (disk k)(sector_of (b_dev k p) (b_blkno k p) := contents k p)\<rparr>)"
proof (cases "flag (b_flags k p) B_READ")
  case True
  then show ?thesis using assms by (simp add: devstart_def ideio_def idestart_cases Let_def sector_of_def) (simp add: flag_def)
next
  case False
  then have "b_flags k p AND B_READ = 0" by (simp add: flag_def)
  then show ?thesis using assms False by (simp add: devstart_def ideio_def idestart_cases Let_def sector_of_def contents_def)
qed

lemma rkstrategy_idle:
  fixes k :: "'a kbio_scheme" and p :: bp
  assumes "d_active k = 0" "d_actf k = BNull" "p \<noteq> BNull" "\<not> beyond (b_dev k p) (b_blkno k p)" "\<not> flag (b_flags k p) B_PHYS"
  shows "rkstrategy p k =
    spl 0 (devstart p (k\<lparr>av_forw := (av_forw k)(p := BNull), core_spl := 5, d_actf := p, d_actl := p, d_active := 1\<rparr>))"
  using assms by (simp add: rkstrategy_def rkstart_def Let_def beyond_def spl_def)

lemma rkstrategy_idle_fields:
  fixes k :: "'a kbio_scheme" and p :: bp
  assumes "d_active k = 0" "d_actf k = BNull" "p \<noteq> BNull" "\<not> beyond (b_dev k p) (b_blkno k p)" "\<not> flag (b_flags k p) B_PHYS"
  defines "s \<equiv> sector_of (b_dev k p) (b_blkno k p)"
  shows "d_active (rkstrategy p k) = 1" "d_actf (rkstrategy p k) = p" "av_forw (rkstrategy p k) p = BNull"
    "b_flags (rkstrategy p k) = b_flags k" "io_count (rkstrategy p k) = 1" "io_buf (rkstrategy p k) = KBuf (b_addr p)"
    "io_cmd (rkstrategy p k) = b_flags k p AND B_READ" "disk_sector (rkstrategy p k) = s" "buffers (rkstrategy p k) = buffers k"
    "disk (rkstrategy p k) = (if flag (b_flags k p) B_READ then disk k else (disk k)(s := contents k p))"
  unfolding rkstrategy_idle [OF assms(1-5)] s_def using assms(5)
  by (simp_all add: devstart_buffer Let_def spl_def contents_def)

lemma ideintr_completes:
  fixes k :: "'a kbio_scheme" and p :: bp
  assumes "d_active k \<noteq> 0" "d_actf k = p" "av_forw k p = BNull" "io_count k = 1" "io_buf k = KBuf b" "\<not> flag (b_flags k p) B_ASYNC"
  shows "b_flags (ideintr k) = (b_flags k)(p := clrf (setf (b_flags k p) B_DONE) B_WANTED)"
    "buffers (ideintr k) = (if io_cmd k \<noteq> 0 then (\<lambda>x. if b \<le> x \<and> x < b + 512 then disk k (disk_sector k) (x - b) else buffers k x) else buffers k)"
    "disk (ideintr k) = disk k" "calm k (ideintr k)" "linked k (ideintr k)"
proof -
  define k1 where "k1 = k\<lparr>io_sector := io_sector k + 1, io_count := 0\<rparr>"
  define k2 where "k2 = (if io_cmd k \<noteq> 0 then io_store (KBuf b) (disk k (disk_sector k)) k1 else k1)"
  define k3 where "k3 = k2\<lparr>io_buf := io_next (KBuf b), d_active := 0, d_errcnt := 0, d_actf := BNull\<rparr>"
  have f: "b_flags k3 = b_flags k" "disk k3 = disk k" "d_actf k3 = BNull" by (simp_all add: k3_def k2_def k1_def)
  have "io_store (KBuf b) d k1 = k1\<lparr>buffers := (\<lambda>x. if b \<le> x \<and> x < b + 512 then d (x - b) else buffers k x)\<rparr>" for d
    by (simp add: io_store_def k1_def cong: if_cong)
  then have g: "buffers k3 = (if io_cmd k \<noteq> 0 then (\<lambda>x. if b \<le> x \<and> x < b + 512 then disk k (disk_sector k) (x - b) else buffers k x) else buffers k)"
    by (simp add: k3_def k2_def k1_def)
  have "ideintr k = rkintr (k2\<lparr>io_buf := io_next (KBuf b)\<rparr>)"
    using assms(4,5) by (cases "io_cmd k = 0") (simp_all add: ideintr_def Let_def k2_def k1_def io_store_def)
  also have "\<dots> = rkstart (iodone p k3)"
    using assms(1-3) by (simp add: rkintr_def Let_def k3_def) (simp add: k2_def k1_def)
  also have "\<dots> = iodone p k3" using assms(6) by (simp add: rkstart_def iodone_def Let_def f flag_setf flag_num_simps)
  finally have i: "ideintr k = iodone p k3" .
  show "b_flags (ideintr k) = (b_flags k)(p := clrf (setf (b_flags k p) B_DONE) B_WANTED)" "disk (ideintr k) = disk k"
    "buffers (ideintr k) = (if io_cmd k \<noteq> 0 then (\<lambda>x. if b \<le> x \<and> x < b + 512 then disk k (disk_sector k) (x - b) else buffers k x) else buffers k)"
    using assms(6) by (simp_all add: i iodone_def Let_def f g flag_setf flag_num_simps)
  have "calm k k3" by (simp add: k3_def k2_def k1_def io_store_def calm_def)
  then show "calm k (ideintr k)" unfolding i by (rule calm_trans [OF _ calm_iodone])
  have "linked k k3" by (simp add: k3_def k2_def k1_def io_store_def linked_def)
  then show "linked k (ideintr k)" using assms(6) by (simp add: i iodone_def Let_def linked_def f flag_setf flag_num_simps)
qed

abbreviation disk_only :: "'a kbio_scheme \<Rightarrow> 'a kbio_scheme option" where
  "disk_only k \<equiv> Some (ideintr k)"

lemma idle_transfer:
  fixes k :: "'a kbio_scheme" and p :: bp and w :: "bp \<Rightarrow> u16"
  assumes idle: "d_active k = 0" "d_actf k = BNull" and p: "p \<noteq> BNull" and b: "\<not> beyond (b_dev k p) (b_blkno k p)" "major (b_dev k p) = 0"
    and fl: "\<not> flag fl B_PHYS" "\<not> flag fl B_DONE" "\<not> flag fl B_ASYNC"
  defines "s \<equiv> sector_of (b_dev k p) (b_blkno k p)"
  shows "\<exists>k'. do { k \<leftarrow> strategy p ((set_flags p fl k)\<lparr>b_wcount := w\<rparr>); iowait disk_only p k } = Some k' \<and>
    b_flags k' = (b_flags k)(p := clrf (setf fl B_DONE) B_WANTED) \<and>
    contents k' p = (if flag fl B_READ then sector_at (disk k s) 0 else contents k p) \<and>
    disk k' = (if flag fl B_READ then disk k else (disk k)(s := contents k p)) \<and> linked k k' \<and> (\<not> flag fl B_ERROR \<longrightarrow> calm k k')"
proof -
  define k1 where "k1 = (set_flags p fl k)\<lparr>b_wcount := w\<rparr>"
  define k2 where "k2 = rkstrategy p k1"
  have pre: "d_active k1 = 0" "d_actf k1 = BNull" "\<not> beyond (b_dev k1 p) (b_blkno k1 p)" "\<not> flag (b_flags k1 p) B_PHYS"
    using idle b fl by (simp_all add: k1_def)
  note st = rkstrategy_idle_fields [OF pre(1,2) p pre(3,4), folded k2_def]
  have fp: "b_flags k1 p = fl" "sector_of (b_dev k1 p) (b_blkno k1 p) = s" "disk k1 = disk k" "contents k1 p = contents k p" "buffers k1 = buffers k"
    by (simp_all add: k1_def s_def contents_def)
  define k3 where "k3 = spl 0 (upd_proc (u_procp (u (spl 6 k2)))
     (\<lambda>r. r\<lparr>p_wchan := buf_chan p, p_stat := SSLEEP, p_pri := word_of_int PRIBIO\<rparr>) (spl 6 (spl 6 k2)))"
  define k4 where "k4 = ideintr k3"
  have k3: "b_flags k3 = b_flags k2" "d_active k3 = d_active k2" "d_actf k3 = d_actf k2" "av_forw k3 = av_forw k2"
    "io_count k3 = io_count k2" "io_buf k3 = io_buf k2" "io_cmd k3 = io_cmd k2" "disk_sector k3 = disk_sector k2"
    "buffers k3 = buffers k2" "disk k3 = disk k2" by (simp_all add: k3_def spl_def upd_proc_def)
  have pre3: "d_active k3 \<noteq> 0" "d_actf k3 = p" "av_forw k3 p = BNull" "io_count k3 = 1" "io_buf k3 = KBuf (b_addr p)" "\<not> flag (b_flags k3 p) B_ASYNC"
    using st fl by (simp_all add: k3 fp)
  note fin = ideintr_completes [OF pre3, folded k4_def]
  have "flag (clrf (setf fl B_DONE) B_WANTED) B_DONE" by (simp add: flag_clrf_disjoint flag_setf)
  then have done4: "flag (b_flags k4 p) B_DONE" using st(4) fp by (simp add: fin k3)
  have nd: "\<not> flag (b_flags (spl 6 k2) p) B_DONE" using fl st(4) fp by simp
  have pr: "PRIBIO < 0" by simp
  have slp: "sleep_neg disk_only (buf_chan p) PRIBIO (spl 6 k2) = Some k4"
    unfolding sleep_neg_away [OF pr] k4_def k3_def by (rule refl)
  have "iowait_loop disk_only p (spl 6 k2) = Some k4"
    using nd done4 slp by (subst iowait_loop.simps) (simp add: iowait_loop.simps [of _ _ k4])
  then have run: "iowait disk_only p k2 = Some (geterror p (spl 0 k4))" by (simp add: iowait_def)
  have str: "strategy p k1 = Some k2" using b by (simp add: strategy_def k2_def) (simp add: k1_def)
  have "contents k4 p = (if flag fl B_READ then sector_at (disk k s) 0 else contents k p)"
    using st(7-10) by (auto simp: contents_def sector_at_def fin k3 fp flag_def fun_eq_iff)
  moreover have "disk k4 = (if flag fl B_READ then disk k else (disk k)(s := contents k p))" using st(10) by (simp add: fin k3 fp)
  moreover have fl4: "b_flags k4 = (b_flags k)(p := clrf (setf fl B_DONE) B_WANTED)" using st(4) by (simp add: fin k3 fp) (simp add: k1_def)
  moreover have "linked k (geterror p (spl 0 k4))"
  proof -
    have "linked k k2" unfolding k2_def rkstrategy_idle [OF pre(1,2) p pre(3,4)] using pre(4)
      by (simp add: k1_def devstart_buffer Let_def linked_def set_flags_def spl_def)
    moreover have "linked k2 k3" using kbio_fields [of k3 k2] by (simp add: linked_def k3_def)
    moreover have "linked k4 (geterror p (spl 0 k4))" by (simp add: linked_def)
    ultimately show ?thesis using fin(5) by (blast intro: linked_trans)
  qed
  moreover have "calm k (geterror p (spl 0 k4))" if ne: "\<not> flag fl B_ERROR"
  proof -
    have "calm k k2" unfolding k2_def rkstrategy_idle [OF pre(1,2) p pre(3,4)] using pre(4)
      by (simp add: k1_def devstart_buffer Let_def calm_def set_flags_def spl_def)
    moreover have "calm k2 k3" by (simp add: calm_def k3_def spl_def upd_proc_def)
    moreover have "\<not> flag (b_flags k4 p) B_ERROR" using ne by (simp add: fl4 flag_clrf_disjoint flag_setf flag_num_simps)
    then have "calm k4 (geterror p (spl 0 k4))" by (simp add: geterror_def) (simp add: calm_def spl_def)
    ultimately show ?thesis using fin(4) by (blast intro: calm_trans)
  qed
  ultimately show ?thesis using run str unfolding k1_def [symmetric]
    by (intro exI [of _ "geterror p (spl 0 k4)"]) (simp add: contents_def)
qed

lemma idle_queue:
  assumes "cache_inv W V k av hl nl q" "active_ok k q" "d_active k = 0"
  shows "q = []" "d_actf k = BNull"
  using assms by (auto simp: cache_inv_def queue_ok_def active_ok_def split: if_splits)

text \<open>A block without a buffer gets the first available one, if that has no delayed write.\<close>

lemma getblk_assigns:
  fixes k :: "'a kbio_scheme"
  assumes ok: "cache_ok W V k" and m: "major dev = 0" and new: "incore dev blkno k = Some False"
    and av: "av_forw k Bfree \<noteq> Bfree" "\<not> flag (b_flags k (av_forw k Bfree)) B_DELWRI"
  shows "getblk away dev blkno k = Some (av_forw k Bfree, reassign (av_forw k Bfree) Rktab dev blkno (notavail (av_forw k Bfree) (spl 0 (spl 6 k))))"
proof -
  have n: "nblkdev k = 1" using ok by (auto simp: cache_ok_def cache_inv_def)
  have s: "\<not> sint dev < 0" using m by (auto simp: major_def)
  have b: "bsearch k Rktab dev blkno (b_forw k Rktab) = Some Rktab"
    using new m by (auto simp: incore_def d_tab_def split: Option.bind_splits)
  have "\<not> flag (setf (b_flags k (av_forw k Bfree)) B_BUSY) B_DELWRI" using av(2) by (simp add: flag_setf flag_num_simps)
  then show ?thesis using av(1) by (subst getblk.simps) (simp add: n s m d_tab_def b Let_def)
qed

lemma idle_read:
  fixes k :: "'a kbio_scheme"
  assumes ok: "cache_ok W V k" and idle: "d_active k = 0" and dev: "major dev = 0" "\<not> beyond dev blkno"
    and new: "incore dev blkno k = Some False"
    and av: "av_forw k Bfree \<noteq> Bfree" "\<not> flag (b_flags k (av_forw k Bfree)) B_DELWRI"
  shows "\<exists>p k'. bread disk_only dev blkno k = Some (p, k') \<and> contents k' p = sector_at (disk k (sector_of dev blkno)) 0 \<and>
    disk k' = disk k \<and> \<not> flag (b_flags k' p) B_ERROR \<and> calm k k' \<and> b_forw k' Rktab = p"
proof -
  define p where "p = av_forw k Bfree"
  define k1 where "k1 = reassign p Rktab dev blkno (notavail p (spl 0 (spl 6 k)))"
  obtain av' hl nl q where inv: "cache_inv W V k av' hl nl q" and act: "active_ok k q" using ok by (auto simp: cache_ok_def)
  have g: "getblk disk_only dev blkno k = Some (p, k1)" unfolding p_def k1_def by (rule getblk_assigns [OF ok dev(1) new av])
  have "obtained W V dev blkno k (p, k1)" by (rule getblk_obtains [OF g ideintr_keeps ok]) (use dev in simp)
  then have "cache_ok (insert p W) V k1" by (simp add: obtained_def held_def)
  then have "p \<in> bufs" using ownbusy by (fastforce simp: cache_ok_def)
  then have pn: "p \<noteq> BNull" by auto
  have f: "b_flags k1 p = B_BUSY OR B_RELOC" "b_dev k1 p = dev" "b_blkno k1 p = blkno" "d_active k1 = d_active k" "d_actf k1 = d_actf k" "disk k1 = disk k"
    by (simp_all add: k1_def reassign_def notavail_def Let_def)
  define fl where "fl = setf (b_flags k1 p) B_READ"
  have fl: "\<not> flag fl B_PHYS" "\<not> flag fl B_DONE" "\<not> flag fl B_ASYNC" "flag fl B_READ" "\<not> flag fl B_ERROR"
    by (simp_all add: fl_def f flag_setf flag_num_simps)
  have pre: "d_active k1 = 0" "d_actf k1 = BNull" "\<not> beyond (b_dev k1 p) (b_blkno k1 p)" "major (b_dev k1 p) = 0"
    using idle idle_queue [OF inv act idle] dev by (simp_all add: f)
  from idle_transfer [OF pre(1,2) pn pre(3,4) fl(1-3), of "(b_wcount k1)(p := -256)"] obtain k' where
    k': "do { k \<leftarrow> strategy p ((set_flags p fl k1)\<lparr>b_wcount := (b_wcount k1)(p := -256)\<rparr>); iowait disk_only p k } = Some k'"
      "b_flags k' = (b_flags k1)(p := clrf (setf fl B_DONE) B_WANTED)" "contents k' p = sector_at (disk k (sector_of dev blkno)) 0" "disk k' = disk k"
      "linked k1 k'" "calm k1 k'"
    using fl(4,5) by (auto simp: f)
  have "calm k k1" by (simp add: k1_def reassign_def notavail_def Let_def calm_def set_flags_def spl_def)
  then have "calm k k'" using k'(6) by (rule calm_trans)
  moreover have "b_forw k' Rktab = p" using k'(5) by (simp add: linked_def k1_def reassign_def Let_def)
  moreover have "\<not> flag (b_flags k1 p) B_DONE" by (simp add: f flag_num_simps)
  then have "bread disk_only dev blkno k = Some (p, k')"
    using k'(1) by (auto simp: bread_def g Let_def fl_def set_flags_def split: Option.bind_splits)
  moreover have "\<not> flag (clrf (setf fl B_DONE) B_WANTED) B_ERROR" using fl(5) by (simp add: flag_clrf_disjoint flag_setf flag_num_simps)
  ultimately show ?thesis using k'(2-4) by (intro exI [of _ p] exI [of _ k']) simp
qed

lemma idle_write:
  fixes k :: "'a kbio_scheme"
  assumes ok: "cache_ok W V k" and p: "p \<in> W" and idle: "d_active k = 0"
    and dev: "major (b_dev k p) = 0" "\<not> beyond (b_dev k p) (b_blkno k p)" and fl: "\<not> flag (b_flags k p) B_PHYS" "\<not> flag (b_flags k p) B_ASYNC"
  shows "\<exists>k'. bwrite disk_only p k = Some k' \<and> disk k' = (disk k)(sector_of (b_dev k p) (b_blkno k p) := contents k p) \<and>
    contents k' p = contents k p \<and> \<not> flag (b_flags k' p) B_ERROR"
proof -
  obtain av hl nl q where inv: "cache_inv W V k av hl nl q" and act: "active_ok k q" using ok by (auto simp: cache_ok_def)
  have pn: "p \<noteq> BNull" "p \<noteq> Bfree" using ownbusy [OF inv, of p] p by auto
  define f where "f = clrf (b_flags k p) (B_READ OR B_DONE OR B_ERROR OR B_DELWRI)"
  have f1: "\<not> flag f B_PHYS" "\<not> flag f B_ASYNC" using fl by (simp_all add: f_def flag_clrf_disjoint)
  have f2: "\<not> flag f B_DONE" "\<not> flag f B_READ" "\<not> flag f B_ERROR" unfolding f_def by (rule flag_clrf_sub; simp)+
  from idle_transfer [OF idle idle_queue(2) [OF inv act idle] pn(1) dev(2,1) f1(1) f2(1) f1(2), of "(b_wcount k)(p := -256)"] obtain k1 where
    k1: "do { k \<leftarrow> strategy p ((set_flags p f k)\<lparr>b_wcount := (b_wcount k)(p := -256)\<rparr>); iowait disk_only p k } = Some k1"
      "b_flags k1 = (b_flags k)(p := clrf (setf f B_DONE) B_WANTED)" "contents k1 p = contents k p"
      "disk k1 = (disk k)(sector_of (b_dev k p) (b_blkno k p) := contents k p)"
    using f2(2) by auto
  note r = brelse_fields [OF pn(2), where k = k1]
  have "bwrite disk_only p k = Some (brelse p k1)"
    using k1(1) fl(2) by (auto simp: bwrite_def Let_def f_def set_flags_def split: Option.bind_splits)
  moreover have "\<not> flag (clrf (clrf (setf f B_DONE) B_WANTED) (B_WANTED OR B_BUSY OR B_ASYNC)) B_ERROR"
    using f2(3) by (simp add: flag_clrf_disjoint flag_setf flag_num_simps)
  ultimately show ?thesis using k1 r(12-14) by (intro exI [of _ "brelse p k1"]) (simp add: contents_def)
qed

subsection \<open>A concrete cache\<close>

definition ex_disk :: kbio where
  "ex_disk = kproc.extend ex_kernel \<lparr>b_flags = (\<lambda>_. 0), b_forw = (\<lambda>_. BNull), b_back = (\<lambda>_. BNull), av_forw = (\<lambda>_. BNull),
     av_back = (\<lambda>_. BNull), b_dev = (\<lambda>_. 0), b_wcount = (\<lambda>_. 0), b_blkno = (\<lambda>_. 0), b_error = (\<lambda>_. 0), b_xmem = (\<lambda>_. 0),
     buffers = (\<lambda>_. 0), d_active = 0, d_errcnt = 0, d_actf = BNull, d_actl = BNull, nblkdev = 0, rablock = 0, swapdev = 0,
     io_sector = 0, io_count = 0, io_cmd = 0, io_buf = KBuf 0, disk = (\<lambda>s i. of_nat (s + i)), disk_sector = 0\<rparr>"

lemma ex_disk_sel [simp]: "d_actf ex_disk = BNull" "d_active ex_disk = 0"
  by (simp_all add: ex_disk_def kproc.defs)

lemma ex_cache:
  "cache_ok {} {} (binit ex_disk)" "d_active (binit ex_disk) = 0" "av_forw (binit ex_disk) Bfree = Buf 0"
  "b_flags (binit ex_disk) (Buf 0) = 0" "incore 0 blkno (binit ex_disk) = Some False" "disk (binit ex_disk) = disk ex_disk"
proof -
  note b = binit_lists [OF ex_disk_sel(1)]
  show ok: "cache_ok {} {} (binit ex_disk)" using b(1,3) by (auto simp: cache_ok_def active_ok_def)
  show "d_active (binit ex_disk) = 0" "b_flags (binit ex_disk) (Buf 0) = 0" using b(2,3) by simp_all
  have l: "dll (av_forw (binit ex_disk)) (av_back (binit ex_disk)) Bfree (map Buf [0..<NBUF])" "dll (b_forw (binit ex_disk)) (b_back (binit ex_disk)) Rktab []"
    using b(1) by (simp_all add: cache_inv_def lists_ok_def del: upt_conv_Cons upt_rec_numeral)
  show "av_forw (binit ex_disk) Bfree = Buf 0" using dll_first [OF l(1)] by (simp add: upt_rec)
  show "incore 0 blkno (binit ex_disk) = Some False"
    using bsearch_finds [OF l(2), of 0 blkno] by (simp add: incore_def d_tab_def major_def)
  have "disk (binit_one i k) = disk k" for i and k :: kbio by (simp add: binit_one_def Let_def brelse_def)
  then have "disk (fold binit_one xs k) = disk k" for xs and k :: kbio by (induction xs arbitrary: k) simp_all
  then show "disk (binit ex_disk) = disk ex_disk" by (simp add: binit_def Let_def del: upt_conv_Cons upt_rec_numeral)
qed

lemma ex_getblk:
  "\<exists>k'. getblk disk_only 0 2 (binit ex_disk) = Some (Buf 0, k')"
  using getblk_assigns [OF ex_cache(1), of 0 2 disk_only] ex_cache by (simp add: major_def)

subsection \<open>Properties\<close>

text \<open>C11: \<open>binit\<close> establishes the invariant of the buffer cache: whatever the link fields held before, all
  buffers are available, unassociated and linked in proper circular lists, and the driver is idle.\<close>

theorem binit_establishes:
  assumes "d_actf k = BNull" "d_active k = 0"
  shows "cache_ok {} {} (binit k) \<and> (\<forall>i < NBUF. b_flags (binit k) (Buf i) = 0)"
  using binit_lists [OF assms(1)] assms(2) by (auto simp: cache_ok_def active_ok_def)

theorem binit_establishes_witness: "cache_ok {} {} (binit ex_disk)"
  using binit_establishes [of ex_disk] by simp

text \<open>C12: a disk interrupt, at any moment and with any transfers queued, keeps the invariant of the cache, and
  leaves every buffer that the interrupted process owns assigned to its block; so does the start of the
  next transfer that the interrupt makes.\<close>

theorem interrupt_keeps_cache:
  assumes "cache_ok W V k"
  shows "cache_ok W V (ideintr k) \<and> (\<forall>p \<in> W \<union> V. b_dev (ideintr k) p = b_dev k p \<and> b_blkno (ideintr k) p = b_blkno k p)"
  using keepsD [OF ideintr_keeps assms refl] by blast

theorem interrupt_keeps_cache_witness: "cache_ok {} {} (ideintr (binit ex_disk))"
  using interrupt_keeps_cache [OF ex_cache(1)] by blast



text \<open>so does \<open>bread\<close>, which moreover returns only when the data is there (the buffer is marked done).\<close>

theorem bread_exclusive:
  assumes "keeps_cache away" "cache_ok W V k" "sint dev < 0 \<or> major dev = 0" "bread away dev blkno k = Some (p, k')"
  shows "p \<notin> W \<union> V \<and> cache_ok (insert p W) V k' \<and> b_dev k' p = dev \<and> b_blkno k' p = blkno \<and> flag (b_flags k' p) B_DONE \<and>
    (\<forall>r \<in> W \<union> V. b_dev k' r = b_dev k r \<and> b_blkno k' r = b_blkno k r)"
  using bread_obtains [OF assms(4,1-3)] by (simp add: held_def)

theorem bread_exclusive_witness:
  "\<exists>p k'. bread disk_only 0 2 (binit ex_disk) = Some (p, k') \<and> cache_ok {p} {} k' \<and> b_blkno k' p = 2"
proof -
  obtain p k' where b: "bread disk_only 0 2 (binit ex_disk) = Some (p, k')"
    using idle_read [OF ex_cache(1), of 0 2] ex_cache by (auto simp: major_def beyond_def minor_def)
  show ?thesis using bread_exclusive [OF ideintr_keeps ex_cache(1) _ b] b by (auto simp: major_def)
qed



text \<open>C15: \<open>bread\<close> returns: on an idle disk, with a buffer to spare, the read of a block that is not cached and
  lies on the disk ends after the disk's interrupt, without error, with the 512 bytes of the block's
  sector in the buffer and the disk unchanged.\<close>

theorem bread_delivers:
  assumes "cache_ok W V k" "d_active k = 0" "major dev = 0" "\<not> beyond dev blkno" "incore dev blkno k = Some False"
    "av_forw k Bfree \<noteq> Bfree" "\<not> flag (b_flags k (av_forw k Bfree)) B_DELWRI"
  shows "\<exists>p k'. bread disk_only dev blkno k = Some (p, k') \<and> disk k' = disk k \<and> \<not> flag (b_flags k' p) B_ERROR \<and>
    (\<forall>i < 512. buffers k' (b_addr p + i) = disk k (sector_of dev blkno) i)"
proof -
  obtain p k' where b: "bread disk_only dev blkno k = Some (p, k')" "contents k' p = sector_at (disk k (sector_of dev blkno)) 0"
    "disk k' = disk k" "\<not> flag (b_flags k' p) B_ERROR" using idle_read [OF assms] by blast
  have "buffers k' (b_addr p + i) = disk k (sector_of dev blkno) i" if "i < 512" for i
    using fun_cong [OF b(2), of i] that by (simp add: contents_def sector_at_def)
  with b show ?thesis by blast
qed

theorem bread_delivers_witness:
  "\<exists>p k'. bread disk_only 0 2 (binit ex_disk) = Some (p, k') \<and> buffers k' (b_addr p + 3) = 5"
proof -
  obtain p k' where b: "bread disk_only 0 2 (binit ex_disk) = Some (p, k')"
    "\<forall>i < 512. buffers k' (b_addr p + i) = disk (binit ex_disk) (sector_of 0 2) i"
    using bread_delivers [OF ex_cache(1), of 0 2] ex_cache by (auto simp: major_def beyond_def minor_def)
  have "disk (binit ex_disk) (sector_of 0 2) 3 = 5" unfolding ex_cache(6) by (simp add: ex_disk_def kproc.defs sector_of_def minor_def)
  with b show ?thesis by auto
qed

text \<open>C16: a synchronous \<open>bwrite\<close> on an idle disk returns, without error, when the 512 bytes of the buffer are
  on the disk, in the sector of its block, and no other sector has changed.\<close>

theorem bwrite_stores:
  assumes "cache_ok W V k" "p \<in> W" "d_active k = 0" "major (b_dev k p) = 0" "\<not> beyond (b_dev k p) (b_blkno k p)"
    "\<not> flag (b_flags k p) B_PHYS" "\<not> flag (b_flags k p) B_ASYNC"
  shows "\<exists>k'. bwrite disk_only p k = Some k' \<and> cache_ok (W - {p}) V k' \<and> \<not> flag (b_flags k' p) B_ERROR \<and>
    (\<forall>s. s \<noteq> sector_of (b_dev k p) (b_blkno k p) \<longrightarrow> disk k' s = disk k s) \<and>
    (\<forall>i < 512. disk k' (sector_of (b_dev k p) (b_blkno k p)) i = buffers k (b_addr p + i))"
proof -
  obtain k' where w: "bwrite disk_only p k = Some k'" "disk k' = (disk k)(sector_of (b_dev k p) (b_blkno k p) := contents k p)"
    "\<not> flag (b_flags k' p) B_ERROR" using idle_write [OF assms] by blast
  have "cache_ok (W - {p}) V k'" using bwrite_releases [OF w(1) ideintr_keeps assms(1,2)] by blast
  with w show ?thesis by (intro exI [of _ k']) (simp add: contents_def sector_at_def)
qed

theorem bwrite_stores_witness:
  "\<exists>k k'. getblk disk_only 0 2 (binit ex_disk) = Some (Buf 0, k) \<and> bwrite disk_only (Buf 0) k = Some k' \<and> cache_ok {} {} k'"
proof -
  obtain k where g: "getblk disk_only 0 2 (binit ex_disk) = Some (Buf 0, k)" using ex_getblk by blast
  have "obtained {} {} 0 2 (binit ex_disk) (Buf 0, k)" by (rule getblk_obtains [OF g ideintr_keeps ex_cache(1)]) (simp add: major_def)
  then have o: "cache_ok {Buf 0} {} k" "b_dev k (Buf 0) = 0" "b_blkno k (Buf 0) = 2" "\<not> flag (b_flags k (Buf 0)) B_ASYNC"
    by (simp_all add: obtained_def held_def)
  have "k = reassign (Buf 0) Rktab 0 2 (notavail (Buf 0) (spl 0 (spl 6 (binit ex_disk))))"
    using g getblk_assigns [OF ex_cache(1), of 0 2 disk_only] ex_cache by (simp add: major_def)
  then have f: "d_active k = 0" "b_flags k (Buf 0) = B_BUSY OR B_RELOC"
    using ex_cache(2) by (simp_all add: reassign_def notavail_def Let_def)
  show ?thesis
    using bwrite_stores [OF o(1), of "Buf 0"] o f g by (auto simp: major_def beyond_def minor_def flag_num_simps)
qed

end
