(* ===== verification/Uio.thy ===== *)
theory Uio
  imports Kernel
begin

unbundle bit_operations_syntax

text \<open>
  \<open>passc\<close> and \<open>cpass\<close> of \<open>ken/subr.c\<close>: the transfer of one byte between the kernel and the place
  that \<open>u_base\<close> names, and the outcome of an operation that a signal can interrupt.
\<close>

subsection \<open>Interruptible operations\<close>

text \<open>
  An operation that sleeps at a priority of zero or more may leave by the label \<open>u_qsav\<close> when a
  signal arrives; it then ends with \<open>Intr\<close> and nothing of its callers up to \<open>trap1\<close> is executed.
\<close>

datatype ('a, 'k) outcome = Ret 'a 'k | Intr 'k

definition andthen :: "('a, 'k) outcome option \<Rightarrow> ('a \<Rightarrow> 'k \<Rightarrow> ('b, 'k) outcome option) \<Rightarrow> ('b, 'k) outcome option" where
  "andthen m f = Option.bind m (\<lambda>r. case r of Ret a k \<Rightarrow> f a k | Intr k \<Rightarrow> Some (Intr k))"

text \<open>An operation without a result, and one that cannot be interrupted.\<close>

definition ret :: "'k \<Rightarrow> (unit, 'k) outcome option" where "ret k = Some (Ret () k)"

definition surely :: "'k option \<Rightarrow> (unit, 'k) outcome option" where
  "surely m = Option.bind m ret"

lemma andthen_simps [simp]:
  "andthen (Some (Ret a k)) f = f a k" "andthen (Some (Intr k)) f = Some (Intr k)" "andthen None f = None"
  by (simp_all add: andthen_def)

lemma ret_andthen [simp]: "andthen (ret k) f = f () k"
  by (simp add: ret_def)

lemma surely_simps [simp]: "surely (Some k) = ret k" "surely None = None"
  by (simp_all add: surely_def)

lemma andthen_mono [partial_function_mono]:
  assumes m: "mono_option B" and f: "\<And>a k. mono_option (\<lambda>g. C a k g)"
  shows "mono_option (\<lambda>g. andthen (B g) (\<lambda>a k. C a k g))"
proof -
  have "mono_option (\<lambda>g. case r of Ret a k \<Rightarrow> C a k g | Intr k \<Rightarrow> Some (Intr k))" for r
    by (cases r) (simp_all add: f option.const_mono)
  then show ?thesis unfolding andthen_def by (intro bind_mono m)
qed

subsection \<open>One byte\<close>

fun base_next :: "iobase \<Rightarrow> iobase" where
  "base_next (UAddr a) = UAddr (a + 1)"
| "base_next (KDent i) = KDent (i + 1)"
| "base_next (KHdr i) = KHdr (i + 1)"

fun base_add :: "iobase \<Rightarrow> u16 \<Rightarrow> iobase" where
  "base_add (UAddr a) n = UAddr (a + n)"
| "base_add (KDent i) n = KDent (nat (int i + sint n))"
| "base_add (KHdr i) n = KHdr (nat (int i + sint n))"

text \<open>The byte at \<open>i\<close> of \<open>u_hdr\<close>, low byte of each word first.\<close>

definition hdr_put :: "nat \<Rightarrow> u8 \<Rightarrow> (nat \<Rightarrow> u16) \<Rightarrow> nat \<Rightarrow> u16" where
  "hdr_put i c h =
     h(i div 2 := (if even i then (h (i div 2) AND 0xFF00) OR ucast c
                   else (h (i div 2) AND 0xFF) OR push_bit 8 (ucast c)))"

definition hdr_get :: "nat \<Rightarrow> (nat \<Rightarrow> u16) \<Rightarrow> u8" where
  "hdr_get i h = (if even i then ucast (h (i div 2)) else ucast (drop_bit 8 (h (i div 2))))"

text \<open>\<open>*u.u_base = c\<close> in the kernel, and \<open>*u.u_base\<close>; outside the two areas it is \<open>None\<close>.\<close>

definition kput :: "iobase \<Rightarrow> u8 \<Rightarrow> 'a kproc_scheme \<Rightarrow> 'a kproc_scheme option" where
  "kput b c k =
     (case b of
        UAddr a \<Rightarrow> None
      | KDent i \<Rightarrow> if i < length (u_dent (u k)) then Some (upd_u (\<lambda>w. w\<lparr>u_dent := (u_dent w)[i := c]\<rparr>) k) else None
      | KHdr i \<Rightarrow> if i < 32 then Some (upd_u (\<lambda>w. w\<lparr>u_hdr := hdr_put i c (u_hdr w)\<rparr>) k) else None)"

definition kget :: "iobase \<Rightarrow> 'a kproc_scheme \<Rightarrow> u8 option" where
  "kget b k =
     (case b of
        UAddr a \<Rightarrow> None
      | KDent i \<Rightarrow> if i < length (u_dent (u k)) then Some (u_dent (u k) ! i) else None
      | KHdr i \<Rightarrow> if i < 32 then Some (hdr_get i (u_hdr (u k))) else None)"

definition uput :: "iobase \<Rightarrow> u8 \<Rightarrow> 'a kproc_scheme \<Rightarrow> 'a kproc_scheme option" where
  "uput b c k = (case b of UAddr a \<Rightarrow> Some (subyte a c k) | _ \<Rightarrow> None)"

definition uget :: "iobase \<Rightarrow> 'a kproc_scheme \<Rightarrow> u8 option" where
  "uget b k = (case b of UAddr a \<Rightarrow> Some (fubyte a k) | _ \<Rightarrow> None)"

text \<open>\<open>u.u_count--; if(++u.u_offset[1] == 0) u.u_offset[0]++; u.u_base++\<close>\<close>

definition u_step :: "'a kproc_scheme \<Rightarrow> 'a kproc_scheme" where
  "u_step = upd_u (\<lambda>w. w\<lparr>u_count := u_count w - 1,
     u_offset := (if snd (u_offset w) + 1 = 0 then fst (u_offset w) + 1 else fst (u_offset w), snd (u_offset w) + 1),
     u_base := base_next (u_base w)\<rparr>)"

text \<open>\<open>passc\<close>: the result tells whether more is wanted (the code returns 0) or not (it returns \<open>-1\<close>);
  \<open>subyte\<close> never fails on this machine.\<close>

definition passc :: "u8 \<Rightarrow> 'a kproc_scheme \<Rightarrow> (bool \<times> 'a kproc_scheme) option" where
  "passc c k = do {
     k \<leftarrow> (if u_segflg (u k) then kput (u_base (u k)) c k else uput (u_base (u k)) c k);
     let k = u_step k;
     Some (u_count (u k) \<noteq> 0, k) }"

text \<open>\<open>cpass\<close>: \<open>None\<close> in the result when the count is used up (the code returns \<open>-1\<close>).\<close>

definition cpass :: "'a kproc_scheme \<Rightarrow> (u8 option \<times> 'a kproc_scheme) option" where
  "cpass k =
     (if u_count (u k) = 0 then Some (None, k)
      else do {
        c \<leftarrow> (if u_segflg (u k) then kget (u_base (u k)) k else uget (u_base (u k)) k);
        Some (Some c, u_step k) })"

end
