(* ===== verification/Clist.thy ===== *)
theory Clist
  imports Prelude "HOL-Library.Multiset"
begin

text \<open>
  \<open>dmr/tty.c\<close>, the character lists: \<open>getc\<close>, \<open>putc\<close> and the building of the free list in
  \<open>cinit\<close>.

  A character list is a queue of bytes kept in a chain of eight byte blocks (\<open>struct cblock\<close>: a
  link and six characters) that all queues of the system take from one free list.  The memory of
  the blocks is an explicit store: \<open>c_next\<close> gives the link of the block at an address and
  \<open>info\<close> the byte at an address.  Addresses are the 16 bit addresses of the code as naturals;
  \<open>NULL\<close> is 0, the six characters of block \<open>b\<close> are at \<open>b + 2 .. b + 7\<close>, and
  \<open>p & ~7\<close> is \<open>p div 8 * 8\<close>.  The bracket \<open>s = getps(); spl5(); \<dots> setps(s)\<close> around the two
  functions, which makes them atomic against the terminal interrupts, is not visible in the store.
\<close>

subsection \<open>Store and operations\<close>

record cmem =
  c_next :: "nat \<Rightarrow> nat"
  info :: "nat \<Rightarrow> u8"
  cfreelist :: nat

record clist =
  c_cc :: int
  c_cf :: nat
  c_cl :: nat

text \<open>\<open>pBlock->c_next = cfreelist; cfreelist = pBlock\<close>\<close>

definition cfree_block :: "nat \<Rightarrow> cmem \<Rightarrow> cmem" where
  "cfree_block pBlock m = m\<lparr>c_next := (c_next m)(pBlock := cfreelist m), cfreelist := pBlock\<rparr>"

definition getc :: "clist \<Rightarrow> cmem \<Rightarrow> int \<times> clist \<times> cmem" where
  "getc q m =
     (if c_cf q = 0 then (-1, q\<lparr>c_cl := 0\<rparr>, m)
      else
        let ret = uint (info m (c_cf q));
            q = q\<lparr>c_cf := c_cf q + 1, c_cc := c_cc q - 1\<rparr>;
            pBlock = (c_cf q - 1) div 8 * 8
        in if c_cc q = 0 then (ret, q\<lparr>c_cf := 0, c_cl := 0\<rparr>, cfree_block pBlock m)
           else if c_cf q mod 8 = 0 then (ret, q\<lparr>c_cf := c_next m pBlock + 2\<rparr>, cfree_block pBlock m)
           else (ret, q, m))"

text \<open>The store of the character, common to the three ways through \<open>putc\<close>.\<close>

definition putc_store :: "u8 \<Rightarrow> clist \<Rightarrow> cmem \<Rightarrow> int \<times> clist \<times> cmem" where
  "putc_store c q m =
     (0, q\<lparr>c_cl := c_cl q + 1, c_cc := c_cc q + 1\<rparr>, m\<lparr>info := (info m)(c_cl q := c)\<rparr>)"

definition putc :: "u8 \<Rightarrow> clist \<Rightarrow> cmem \<Rightarrow> int \<times> clist \<times> cmem" where
  "putc c q m =
     (if c_cl q = 0 then
        let pBlock = cfreelist m in
        if pBlock = 0 then (-1, q, m)
        else putc_store c (q\<lparr>c_cl := pBlock + 2, c_cf := pBlock + 2\<rparr>)
               (m\<lparr>cfreelist := c_next m pBlock, c_next := (c_next m)(pBlock := 0)\<rparr>)
      else if c_cl q mod 8 = 0 then
        let pBlock = cfreelist m in
        if pBlock = 0 then (-1, q, m)
        else putc_store c (q\<lparr>c_cl := pBlock + 2\<rparr>)
               (m\<lparr>cfreelist := c_next m pBlock,
                  c_next := (c_next m)(c_cl q - 8 := pBlock, pBlock := 0)\<rparr>)
      else putc_store c q m)"

text \<open>
  The first loop of \<open>cinit\<close>: the blocks of the array \<open>cfree\<close>, from the first address that is a
  multiple of eight up to the last one at or below \<open>&cfree[NCLIST-1]\<close>, are pushed on the free list.
\<close>

function cinit_loop :: "nat \<Rightarrow> nat \<Rightarrow> cmem \<Rightarrow> cmem" where
  "cinit_loop cp last_cp m = (if cp \<le> last_cp then cinit_loop (cp + 8) last_cp (cfree_block cp m) else m)"
  by pat_completeness auto
termination by (relation "measure (\<lambda>(cp, last_cp, m). last_cp + 1 - cp)") auto

declare cinit_loop.simps [simp del]

definition NCLIST :: nat where "NCLIST = 100"

definition cinit_blocks :: "nat \<Rightarrow> cmem \<Rightarrow> cmem" where
  "cinit_blocks cfree m = cinit_loop ((cfree + 7) div 8 * 8) (cfree + 8 * (NCLIST - 1)) m"

subsection \<open>The bytes a queue stands for\<close>

fun chain :: "(nat \<Rightarrow> nat) \<Rightarrow> nat \<Rightarrow> nat list \<Rightarrow> bool" where
  "chain nx p [] \<longleftrightarrow> p = 0"
| "chain nx p (b # bs) \<longleftrightarrow> p = b \<and> b \<noteq> 0 \<and> chain nx (nx b) bs"

text \<open>The addresses of the characters between \<open>s\<close> in the first block and \<open>e\<close> in the last.\<close>

fun cells :: "nat list \<Rightarrow> nat \<Rightarrow> nat \<Rightarrow> nat list" where
  "cells [] s e = []"
| "cells [b] s e = [s..<e]"
| "cells (b # b' # bs) s e = [s..<b + 8] @ cells (b' # bs) (b' + 2) e"

definition queue_rep :: "cmem \<Rightarrow> clist \<Rightarrow> nat list \<Rightarrow> u8 list \<Rightarrow> bool" where
  "queue_rep m q bs ys \<longleftrightarrow>
     (if bs = [] then q = \<lparr>c_cc = 0, c_cf = 0, c_cl = 0\<rparr> \<and> ys = []
      else chain (c_next m) (hd bs) bs \<and> hd bs + 2 \<le> c_cf q \<and> c_cf q < hd bs + 8 \<and>
           last bs + 2 < c_cl q \<and> c_cl q \<le> last bs + 8 \<and> (length bs = 1 \<longrightarrow> c_cf q < c_cl q) \<and>
           ys = map (info m) (cells bs (c_cf q) (c_cl q)) \<and> c_cc q = int (length ys))"

text \<open>
  All queues of the system over one store: every queue holds its bytes, and the blocks of the
  queues and of the free list are \<open>N\<close> different aligned blocks.
\<close>

definition pool :: "cmem \<Rightarrow> clist list \<Rightarrow> u8 list list \<Rightarrow> nat list list \<Rightarrow> nat list \<Rightarrow> bool" where
  "pool m qs yss bss fs \<longleftrightarrow>
     length yss = length qs \<and> length bss = length qs \<and>
     (\<forall>i < length qs. queue_rep m (qs ! i) (bss ! i) (yss ! i)) \<and>
     chain (c_next m) (cfreelist m) fs \<and> distinct (concat bss @ fs) \<and>
     (\<forall>b \<in> set (concat bss @ fs). 8 dvd b)"

definition queues :: "nat \<Rightarrow> cmem \<Rightarrow> clist list \<Rightarrow> u8 list list \<Rightarrow> bool" where
  "queues N m qs yss \<longleftrightarrow> (\<exists>bss fs. pool m qs yss bss fs \<and> length (concat bss @ fs) = N)"

lemma chain_cong: "(\<And>b. b \<in> set bs \<Longrightarrow> nx b = nx' b) \<Longrightarrow> chain nx p bs = chain nx' p bs"
  by (induction bs arbitrary: p) auto

lemma chain_upd [simp]: "a \<notin> set bs \<Longrightarrow> chain (nx(a := v)) p bs = chain nx p bs"
  by (rule chain_cong) auto

lemma chain_hd: "chain nx p bs \<Longrightarrow> bs \<noteq> [] \<Longrightarrow> p = hd bs \<and> p \<noteq> 0"
  by (cases bs) auto

lemma cells_in_blocks:
  "bs \<noteq> [] \<Longrightarrow> hd bs + 2 \<le> s \<Longrightarrow> e \<le> last bs + 8 \<Longrightarrow> a \<in> set (cells bs s e) \<Longrightarrow> \<exists>b \<in> set bs. b + 2 \<le> a \<and> a < b + 8"
proof (induction bs s e rule: cells.induct)
  case (3 b b' bs s e)
  show ?case
  proof (cases "a \<in> set (cells (b' # bs) (b' + 2) e)")
    case True
    with 3 obtain c where "c \<in> set (b' # bs)" "c + 2 \<le> a" "a < c + 8" by auto
    then show ?thesis by auto
  next
    case False
    with 3 show ?thesis by auto
  qed
qed auto

text \<open>The characters and the unused places at both ends fill the blocks exactly.\<close>

lemma cells_length:
  "bs \<noteq> [] \<Longrightarrow> hd bs + 2 \<le> s \<Longrightarrow> s \<le> hd bs + 8 \<Longrightarrow> last bs + 2 \<le> e \<Longrightarrow> e \<le> last bs + 8 \<Longrightarrow>
    (length bs = 1 \<longrightarrow> s \<le> e) \<Longrightarrow>
    length (cells bs s e) + (s - (hd bs + 2)) + (last bs + 8 - e) = 6 * length bs"
proof (induction bs s e rule: cells.induct)
  case (3 b b' bs s e)
  then have "length (cells (b' # bs) (b' + 2) e) + 0 + (last (b' # bs) + 8 - e) = 6 * length (b' # bs)"
    by (auto split: if_splits)
  with 3 show ?case by auto
qed auto

lemma cells_Suc_end:
  "bs \<noteq> [] \<Longrightarrow> last bs + 2 \<le> e \<Longrightarrow> (length bs = 1 \<longrightarrow> s \<le> e) \<Longrightarrow> cells bs s (Suc e) = cells bs s e @ [e]"
  by (induction bs s e rule: cells.induct) (auto split: if_splits)

lemma cells_append_block:
  "bs \<noteq> [] \<Longrightarrow> cells (bs @ [b]) s e = cells bs s (last bs + 8) @ [b + 2..<e]"
  by (induction bs s e rule: cells.induct) (auto simp: neq_Nil_conv split: if_splits)

lemma cells_Cons_start:
  "bs \<noteq> [] \<Longrightarrow> s < hd bs + 8 \<Longrightarrow> (length bs = 1 \<longrightarrow> s < e) \<Longrightarrow> cells bs s e = s # cells bs (Suc s) e"
  by (induction bs s e rule: cells.induct) (auto simp: upt_conv_Cons)

lemma chain_append_block:
  "chain nx p bs \<Longrightarrow> bs \<noteq> [] \<Longrightarrow> distinct bs \<Longrightarrow> b \<noteq> 0 \<Longrightarrow> b \<notin> set bs \<Longrightarrow>
    chain (nx(last bs := b, b := 0)) p (bs @ [b])"
proof (induction bs arbitrary: p)
  case (Cons c cs)
  show ?case
  proof (cases "cs = []")
    case False
    then have "last cs \<in> set cs" by simp
    with Cons False have "c \<noteq> last cs" "c \<noteq> b" by auto
    with Cons False show ?thesis by auto
  qed (use Cons in auto)
qed simp

lemma queue_rep_cong:
  assumes "queue_rep m q bs ys"
    and nx: "\<And>b. b \<in> set bs \<Longrightarrow> c_next m' b = c_next m b"
    and mem: "\<And>b a. b \<in> set bs \<Longrightarrow> b + 2 \<le> a \<Longrightarrow> a < b + 8 \<Longrightarrow> info m' a = info m a"
  shows "queue_rep m' q bs ys"
proof (cases "bs = []")
  case False
  have "chain (c_next m') (hd bs) bs = chain (c_next m) (hd bs) bs"
    using nx by (rule chain_cong)
  moreover have "map (info m') (cells bs (c_cf q) (c_cl q)) = map (info m) (cells bs (c_cf q) (c_cl q))"
    using assms(1) False cells_in_blocks [of bs "c_cf q" "c_cl q"] mem
    by (auto simp: queue_rep_def)
  ultimately show ?thesis using assms(1) False by (simp add: queue_rep_def)
qed (use assms in \<open>simp add: queue_rep_def\<close>)

text \<open>Facts about one queue that is not empty, read off its representation.\<close>

lemma queue_rep_ne:
  assumes "queue_rep m q bs ys" "bs \<noteq> []"
  shows "chain (c_next m) (hd bs) bs" "hd bs + 2 \<le> c_cf q" "c_cf q < hd bs + 8"
    "last bs + 2 < c_cl q" "c_cl q \<le> last bs + 8" "length bs = 1 \<Longrightarrow> c_cf q < c_cl q"
    "ys = map (info m) (cells bs (c_cf q) (c_cl q))" "c_cc q = int (length ys)" "hd bs \<noteq> 0" "ys \<noteq> []"
proof -
  show *: "chain (c_next m) (hd bs) bs" "hd bs + 2 \<le> c_cf q" "c_cf q < hd bs + 8"
    "last bs + 2 < c_cl q" "c_cl q \<le> last bs + 8" "length bs = 1 \<Longrightarrow> c_cf q < c_cl q"
    "ys = map (info m) (cells bs (c_cf q) (c_cl q))" "c_cc q = int (length ys)"
    using assms by (auto simp: queue_rep_def)
  show "hd bs \<noteq> 0" using *(1) assms(2) by (cases bs) auto
  have "cells bs (c_cf q) (c_cl q) = c_cf q # cells bs (Suc (c_cf q)) (c_cl q)"
    using * assms(2) by (intro cells_Cons_start) auto
  with *(7) show "ys \<noteq> []" by simp
qed

lemma queue_rep_Nil: "queue_rep m q [] ys \<longleftrightarrow> q = \<lparr>c_cc = 0, c_cf = 0, c_cl = 0\<rparr> \<and> ys = []"
  by (simp add: queue_rep_def)

lemma queue_rep_Nil_iff: "queue_rep m q bs ys \<Longrightarrow> ys = [] \<longleftrightarrow> bs = []"
  using queue_rep_ne(10) queue_rep_Nil by metis

lemma queue_rep_empty: "queue_rep m q bs [] \<Longrightarrow> q = \<lparr>c_cc = 0, c_cf = 0, c_cl = 0\<rparr> \<and> bs = []"
  using queue_rep_Nil_iff queue_rep_Nil by metis

text \<open>Six characters per block: how many blocks a queue of a given length can hold.\<close>

lemma queue_rep_blocks:
  assumes "queue_rep m q bs ys"
  shows "6 * length bs \<le> length ys + 10 \<and> length ys \<le> 6 * length bs"
proof (cases "bs = []")
  case False
  note ne = queue_rep_ne [OF assms False]
  have "length (cells bs (c_cf q) (c_cl q)) + (c_cf q - (hd bs + 2)) + (last bs + 8 - c_cl q) = 6 * length bs"
    using ne by (intro cells_length) (auto simp: False)
  moreover have "length ys = length (cells bs (c_cf q) (c_cl q))" using ne(7) by simp
  ultimately show ?thesis using ne(2-5) by linarith
qed (use assms in \<open>simp add: queue_rep_def\<close>)

lemma block_of_cell:
  fixes b :: nat
  assumes "8 dvd b" "b \<le> a" "a < b + 8"
  shows "a div 8 * 8 = b"
proof -
  from assms(1) obtain k where "b = 8 * k" by blast
  with assms show ?thesis by auto
qed

lemma aligned_disjoint:
  fixes b c :: nat
  assumes "8 dvd b" "8 dvd c" "b \<noteq> c" "b \<le> a" "a < b + 8" "c \<le> a" "a < c + 8"
  shows False
  using block_of_cell [of b a] block_of_cell [of c a] assms by simp

subsection \<open>One queue and the free list\<close>

text \<open>What an operation may touch: the blocks of its queue and the free list.\<close>

definition touches :: "nat list \<Rightarrow> cmem \<Rightarrow> cmem \<Rightarrow> bool" where
  "touches bs m m' \<longleftrightarrow> (\<forall>b. b \<notin> set bs \<longrightarrow> 8 dvd b \<longrightarrow>
     c_next m' b = c_next m b \<and> (\<forall>a. b + 2 \<le> a \<longrightarrow> a < b + 8 \<longrightarrow> info m' a = info m a))"

lemma getc_empty: "queue_rep m q bs [] \<Longrightarrow> getc q m = (-1, q, m)"
  using queue_rep_empty by (fastforce simp: getc_def)

lemma getc_one:
  assumes rep: "queue_rep m q bs (y # ys)" and fs: "chain (c_next m) (cfreelist m) fs"
    and dist: "distinct (bs @ fs)" and al: "\<forall>b \<in> set bs. 8 dvd b"
  shows "\<exists>q' m' bs' fs'. getc q m = (uint y, q', m') \<and> queue_rep m' q' bs' ys \<and>
    chain (c_next m') (cfreelist m') fs' \<and> mset (bs' @ fs') = mset (bs @ fs) \<and> touches (bs @ fs) m m'"
proof -
  have ne: "bs \<noteq> []" using queue_rep_Nil_iff [OF rep] by simp
  then obtain b bs1 where bs: "bs = b # bs1" by (cases bs) auto
  note r = queue_rep_ne [OF rep ne]
  have split: "cells bs (c_cf q) (c_cl q) = c_cf q # cells bs (Suc (c_cf q)) (c_cl q)"
    using r ne by (intro cells_Cons_start) auto
  with r(7) have y: "y = info m (c_cf q)" and ys: "ys = map (info m) (cells bs (Suc (c_cf q)) (c_cl q))" by auto
  have blk: "c_cf q div 8 * 8 = b" using al r(2,3) bs by (intro block_of_cell) auto
  have cf0: "c_cf q \<noteq> 0" using r(2) by simp
  have cc: "c_cc q - 1 = int (length ys)" using r(8) by simp
  have len: "length (cells bs (Suc (c_cf q)) (c_cl q)) + (Suc (c_cf q) - (b + 2)) + (last bs + 8 - c_cl q) = 6 * length bs"
  proof -
    have "length (cells bs (Suc (c_cf q)) (c_cl q)) + (Suc (c_cf q) - (hd bs + 2)) + (last bs + 8 - c_cl q) = 6 * length bs"
      using r ne by (intro cells_length) auto
    then show ?thesis using bs by simp
  qed
  show ?thesis
  proof (cases "ys = []")
    case True
    let ?m = "cfree_block b m"
    have "getc q m = (uint y, q\<lparr>c_cf := 0, c_cl := 0, c_cc := 0\<rparr>, ?m)"
      using cf0 cc True blk y by (simp add: getc_def Let_def)
    moreover have "length bs = 1"
    proof -
      have "length (cells bs (Suc (c_cf q)) (c_cl q)) = 0" using ys True by simp
      with len r(2-5) bs have "6 * length bs < 12" by (simp only: list.sel)
      then show ?thesis using bs by simp
    qed
    moreover have "queue_rep ?m (q\<lparr>c_cf := 0, c_cl := 0, c_cc := 0\<rparr>) [] ys"
      using True by (simp add: queue_rep_def)
    moreover have "chain (c_next ?m) (cfreelist ?m) (b # fs)"
      using fs dist r(9) bs by (simp add: cfree_block_def)
    moreover have "touches (bs @ fs) m ?m" using bs by (auto simp: touches_def cfree_block_def)
    moreover have "mset ([] @ b # fs) = mset (bs @ fs)" using bs \<open>length bs = 1\<close> by simp
    ultimately show ?thesis by blast
  next
    case False
    let ?q = "q\<lparr>c_cf := c_cf q + 1, c_cc := c_cc q - 1\<rparr>"
    have cc0: "c_cc q - 1 \<noteq> 0" using cc False by simp
    show ?thesis
    proof (cases "Suc (c_cf q) = b + 8")
      case True
      then have mod: "Suc (c_cf q) mod 8 = 0" using al bs by simp
      let ?m = "cfree_block b m"
      have bs1: "bs1 \<noteq> []"
      proof
        assume "bs1 = []"
        with ys False True bs r(5) show False by simp
      qed
      then obtain b' bs2 where bs1': "bs1 = b' # bs2" by (cases bs1) auto
      have nxt: "c_next m b = b'" using r(1) bs bs1' by simp
      have call: "getc q m = (uint y, ?q\<lparr>c_cf := b' + 2\<rparr>, ?m)"
        using cf0 cc0 mod blk y nxt by (simp add: getc_def Let_def)
      have ys': "ys = map (info m) (cells bs1 (b' + 2) (c_cl q))" using ys bs bs1' True by simp
      have "queue_rep m (?q\<lparr>c_cf := b' + 2\<rparr>) bs1 ys"
        using r bs bs1' cc ys' by (auto simp: queue_rep_def)
      then have "queue_rep ?m (?q\<lparr>c_cf := b' + 2\<rparr>) bs1 ys"
        by (rule queue_rep_cong) (use dist bs in \<open>auto simp: cfree_block_def\<close>)
      moreover have "chain (c_next ?m) (cfreelist ?m) (b # fs)"
        using fs dist r(9) bs by (simp add: cfree_block_def)
      moreover have "touches (bs @ fs) m ?m" using bs by (auto simp: touches_def cfree_block_def)
      moreover have "mset (bs1 @ b # fs) = mset (bs @ fs)" using bs by simp
      ultimately show ?thesis using call by blast
    next
      case False
      then have lt: "Suc (c_cf q) < b + 8" using r(3) bs by simp
      have "Suc (c_cf q) div 8 * 8 = b" using al bs r(2) lt by (intro block_of_cell) auto
      then have mod: "Suc (c_cf q) mod 8 \<noteq> 0"
        using r(2) bs by (metis Suc_n_not_le_n add_2_eq_Suc' list.sel(1) le_Suc_eq mult_div_mod_eq mult.commute add.right_neutral add_leD1 Suc_leD)
      have call: "getc q m = (uint y, ?q, m)" using cf0 cc0 mod y by (simp add: getc_def Let_def)
      have "Suc (c_cf q) < c_cl q" if "length bs = 1"
        using ys \<open>ys \<noteq> []\<close> that bs by (cases bs1) (auto intro: ccontr)
      then have "queue_rep m ?q bs ys" using r ne bs cc ys lt by (simp add: queue_rep_def)
      moreover have "touches (bs @ fs) m m" by (simp add: touches_def)
      ultimately show ?thesis using call fs by blast
    qed
  qed
qed

lemma touches_store:
  assumes nx: "\<And>b. b \<notin> set bs \<Longrightarrow> c_next m' b = c_next m b" and mem: "info m' = (info m)(p := c)"
    and b0: "b0 \<in> set bs" "8 dvd b0" "b0 \<le> p" "p < b0 + 8"
  shows "touches bs m m'"
proof -
  have "p \<noteq> a" if "b \<notin> set bs" "8 dvd b" "b + 2 \<le> a" "a < b + 8" for a b
  proof
    assume "p = a"
    with that b0 have "b0 \<noteq> b" "b0 \<le> a" "a < b0 + 8" "b \<le> a" by auto
    then show False using aligned_disjoint [OF b0(2) that(2)] that(4) by simp
  qed
  then show ?thesis using nx by (auto simp: touches_def mem)
qed

lemma touches_info:
  assumes "touches bs m m'" "\<forall>b \<in> set cs. 8 dvd b" "set bs \<inter> set cs = {}" "queue_rep m q cs ys"
  shows "queue_rep m' q cs ys"
  using assms(4) by (rule queue_rep_cong) (use assms(1-3) in \<open>auto simp: touches_def disjoint_iff\<close>)

lemma putc_new_queue:
  assumes "chain (c_next m) (cfreelist m) (f # fs)" "distinct (f # fs)" "8 dvd f"
  shows "\<exists>q' m'. putc c \<lparr>c_cc = 0, c_cf = 0, c_cl = 0\<rparr> m = (0, q', m') \<and> queue_rep m' q' [f] [c] \<and>
    chain (c_next m') (cfreelist m') fs \<and> touches (f # fs) m m'"
proof -
  let ?q = "\<lparr>c_cc = 1, c_cf = f + 2, c_cl = Suc (f + 2)\<rparr>"
  let ?m = "m\<lparr>cfreelist := c_next m f, c_next := (c_next m)(f := 0), info := (info m)(f + 2 := c)\<rparr>"
  from assms have f: "cfreelist m = f" "f \<noteq> 0" by auto
  then have "putc c \<lparr>c_cc = 0, c_cf = 0, c_cl = 0\<rparr> m = (0, ?q, ?m)"
    by (simp add: putc_def putc_store_def Let_def)
  moreover have "queue_rep ?m ?q [f] [c]" using f by (simp add: queue_rep_def)
  moreover have "chain (c_next ?m) (cfreelist ?m) fs" using assms by simp
  moreover have "touches (f # fs) m ?m"
    by (rule touches_store [of _ _ _ "f + 2" c f]) (use assms(3) in auto)
  ultimately show ?thesis by blast
qed

lemma putc_new_block:
  assumes rep: "queue_rep m q bs ys" and ne: "bs \<noteq> []" and full: "c_cl q = last bs + 8"
    and fs: "chain (c_next m) (cfreelist m) (f # fs)" and dist: "distinct (bs @ f # fs)"
    and al: "\<forall>b \<in> set (bs @ f # fs). 8 dvd b"
  shows "\<exists>q' m'. putc c q m = (0, q', m') \<and> queue_rep m' q' (bs @ [f]) (ys @ [c]) \<and>
    chain (c_next m') (cfreelist m') fs \<and> touches (bs @ f # fs) m m'"
proof -
  note r = queue_rep_ne [OF rep ne]
  let ?q = "q\<lparr>c_cl := Suc (f + 2), c_cc := c_cc q + 1\<rparr>"
  let ?nx = "(c_next m)(last bs := f, f := 0)"
  let ?m = "m\<lparr>cfreelist := c_next m f, c_next := ?nx, info := (info m)(f + 2 := c)\<rparr>"
  from fs have f: "cfreelist m = f" "f \<noteq> 0" by auto
  have last: "last bs \<in> set bs" using ne by simp
  then have "8 dvd last bs" using al by auto
  with full have cl: "c_cl q mod 8 = 0" "c_cl q \<noteq> 0" "c_cl q - 8 = last bs" by auto
  have call: "putc c q m = (0, ?q, ?m)"
    using f cl by (simp add: putc_def putc_store_def Let_def)
  have ch: "chain ?nx (hd bs) (bs @ [f])"
    using r(1) ne dist f by (intro chain_append_block) auto
  have old: "map (info ?m) (cells bs (c_cf q) (c_cl q)) = ys"
  proof -
    have "info ?m a = info m a" if "a \<in> set (cells bs (c_cf q) (c_cl q))" for a
    proof -
      from that cells_in_blocks [OF ne r(2,5)] obtain b where "b \<in> set bs" "b + 2 \<le> a" "a < b + 8" by blast
      with al dist aligned_disjoint [of b f a] show ?thesis by (auto simp: disjoint_iff)
    qed
    then show ?thesis using r(7) by simp
  qed
  have "cells (bs @ [f]) (c_cf q) (Suc (f + 2)) = cells bs (c_cf q) (c_cl q) @ [f + 2]"
    using cells_append_block [OF ne, of f "c_cf q" "Suc (f + 2)"] full by simp
  then have "queue_rep ?m ?q (bs @ [f]) (ys @ [c])"
    using r ne ch old by (simp add: queue_rep_def)
  moreover have "chain (c_next ?m) (cfreelist ?m) fs"
    using fs dist last by (auto simp: chain_upd disjoint_iff)
  moreover have "touches (bs @ f # fs) m ?m"
    by (rule touches_store [of _ _ _ "f + 2" c f]) (use al last in auto)
  ultimately show ?thesis using call by blast
qed

lemma cells_end_notin:
  "bs \<noteq> [] \<Longrightarrow> distinct bs \<Longrightarrow> \<forall>b \<in> set bs. 8 dvd b \<Longrightarrow> hd bs + 2 \<le> s \<Longrightarrow>
    last bs + 2 < e \<Longrightarrow> e < last bs + 8 \<Longrightarrow> e \<notin> set (cells bs s e)"
proof (induction bs s e rule: cells.induct)
  case (3 b b' bs s e)
  have "last (b' # bs) \<in> set (b' # bs)" by simp
  then have "b \<noteq> last (b' # bs)" "8 dvd last (b' # bs)" "8 dvd b" using 3 by auto
  then have "\<not> (b \<le> e \<and> e < b + 8)" using aligned_disjoint [of b "last (b' # bs)" e] 3 by auto
  moreover have "e \<notin> set (cells (b' # bs) (b' + 2) e)" using 3 by auto
  ultimately show ?case using 3 by auto
qed auto

lemma putc_same_block:
  assumes rep: "queue_rep m q bs ys" and ne: "bs \<noteq> []" and lt: "c_cl q < last bs + 8"
    and fs: "chain (c_next m) (cfreelist m) fs" and al: "\<forall>b \<in> set (bs @ fs). 8 dvd b"
    and dist: "distinct (bs @ fs)"
  shows "\<exists>q' m'. putc c q m = (0, q', m') \<and> queue_rep m' q' bs (ys @ [c]) \<and>
    chain (c_next m') (cfreelist m') fs \<and> touches (bs @ fs) m m'"
proof -
  note r = queue_rep_ne [OF rep ne]
  let ?q = "q\<lparr>c_cl := c_cl q + 1, c_cc := c_cc q + 1\<rparr>"
  let ?m = "m\<lparr>info := (info m)(c_cl q := c)\<rparr>"
  have last: "last bs \<in> set bs" "8 dvd last bs" using ne al by auto
  then have "c_cl q div 8 * 8 = last bs" using r(4) lt by (intro block_of_cell) auto
  with r(4) have cl: "c_cl q mod 8 \<noteq> 0" "c_cl q \<noteq> 0" by presburger+
  have call: "putc c q m = (0, ?q, ?m)" using cl by (simp add: putc_def putc_store_def)
  have "c_cl q \<notin> set (cells bs (c_cf q) (c_cl q))"
    using ne dist al r(2,4) lt by (intro cells_end_notin) auto
  then have old: "map (info ?m) (cells bs (c_cf q) (c_cl q)) = ys" using r(7) by auto
  have "cells bs (c_cf q) (Suc (c_cl q)) = cells bs (c_cf q) (c_cl q) @ [c_cl q]"
    using r ne by (intro cells_Suc_end) auto
  then have "queue_rep ?m ?q bs (ys @ [c])" using r ne lt old by (auto simp: queue_rep_def)
  moreover have "chain (c_next ?m) (cfreelist ?m) fs" using fs by simp
  moreover have "touches (bs @ fs) m ?m"
    by (rule touches_store [of _ _ _ "c_cl q" c "last bs"]) (use last r(4) lt in auto)
  ultimately show ?thesis using call by blast
qed

lemma putc_one:
  assumes rep: "queue_rep m q bs ys" and fs: "chain (c_next m) (cfreelist m) fs"
    and dist: "distinct (bs @ fs)" and al: "\<forall>b \<in> set (bs @ fs). 8 dvd b"
  shows "fs = [] \<and> putc c q m = (-1, q, m) \<or>
    (\<exists>q' m' bs' fs'. putc c q m = (0, q', m') \<and> queue_rep m' q' bs' (ys @ [c]) \<and>
      chain (c_next m') (cfreelist m') fs' \<and> mset (bs' @ fs') = mset (bs @ fs) \<and> touches (bs @ fs) m m')"
proof (cases "bs = []")
  case True
  with rep have q: "q = \<lparr>c_cc = 0, c_cf = 0, c_cl = 0\<rparr>" "ys = []" by (auto simp: queue_rep_Nil)
  show ?thesis
  proof (cases fs)
    case Nil
    with fs q show ?thesis by (simp add: putc_def)
  next
    case (Cons f fs')
    from putc_new_queue [of m f fs' c] fs dist al True Cons obtain q' m' where
      "putc c q m = (0, q', m')" "queue_rep m' q' [f] (ys @ [c])" "chain (c_next m') (cfreelist m') fs'"
      "touches (bs @ fs) m m'" using q by auto
    moreover have "mset ([f] @ fs') = mset (bs @ fs)" using True Cons by simp
    ultimately show ?thesis by blast
  qed
next
  case False
  note r = queue_rep_ne [OF rep False]
  show ?thesis
  proof (cases "c_cl q = last bs + 8")
    case full: True
    show ?thesis
    proof (cases fs)
      case Nil
      have "8 dvd last bs" using al False by simp
      with fs full Nil show ?thesis by (simp add: putc_def)
    next
      case (Cons f fs')
      from putc_new_block [OF rep False full, of f fs' c] fs dist al Cons obtain q' m' where
        "putc c q m = (0, q', m')" "queue_rep m' q' (bs @ [f]) (ys @ [c])"
        "chain (c_next m') (cfreelist m') fs'" "touches (bs @ fs) m m'" by auto
      moreover have "mset ((bs @ [f]) @ fs') = mset (bs @ fs)" using Cons by simp
      ultimately show ?thesis by blast
    qed
  next
    case part: False
    with r(5) have "c_cl q < last bs + 8" by simp
    from putc_same_block [OF rep False this fs al dist] show ?thesis by blast
  qed
qed

subsection \<open>All queues over one store\<close>

lemma mset_concat_update:
  "i < length bss \<Longrightarrow> mset (concat (bss[i := x])) + mset (bss ! i) = mset (concat bss) + mset x"
proof (induction bss arbitrary: i)
  case (Cons b bss)
  then show ?case by (cases i) (auto simp: ac_simps)
qed simp

lemma pool_update:
  assumes pool: "pool m qs yss bss fs" and i: "i < length qs"
    and rep: "queue_rep m' q' bs' ys'" and ch: "chain (c_next m') (cfreelist m') fs'"
    and perm: "mset (bs' @ fs') = mset (bss ! i @ fs)" and t: "touches (bss ! i @ fs) m m'"
  shows "pool m' (qs[i := q']) (yss[i := ys']) (bss[i := bs']) fs' \<and>
    length (concat (bss[i := bs']) @ fs') = length (concat bss @ fs)"
proof -
  note p = pool [unfolded pool_def]
  have all: "mset (concat (bss[i := bs']) @ fs') = mset (concat bss @ fs)"
    using cancel_swap [OF mset_concat_update [of i bss bs'], of "mset fs'" "mset fs"] perm i p by simp
  have d: "distinct (concat (bss[i := bs']) @ fs')"
    using p all mset_eq_imp_distinct_iff by blast
  have s: "set (concat (bss[i := bs']) @ fs') = set (concat bss @ fs)"
    using all by (rule mset_eq_setD)
  have others: "queue_rep m' (qs ! j) (bss ! j) (yss ! j)" if j: "j < length qs" "j \<noteq> i" for j
  proof (rule touches_info [OF t])
    have sub: "set (bss ! j) \<subseteq> set (concat bss)" using j p by (intro set_nth_concat) simp
    then show "\<forall>b \<in> set (bss ! j). 8 dvd b" using p by auto
    have "set (bss ! i) \<inter> set (bss ! j) = {}"
      using p distinct_concat_disjoint [of bss i j] i j by simp
    moreover have "set fs \<inter> set (concat bss) = {}" using p by (simp only: distinct_append) blast
    ultimately show "set (bss ! i @ fs) \<inter> set (bss ! j) = {}" using sub by (simp only: set_append) blast
    show "queue_rep m (qs ! j) (bss ! j) (yss ! j)" using p j by blast
  qed
  have "pool m' (qs[i := q']) (yss[i := ys']) (bss[i := bs']) fs'"
    unfolding pool_def using p i rep ch d s others by (auto simp: nth_list_update)
  then show ?thesis using mset_eq_length [OF all] by simp
qed

text \<open>The two operations on one of the queues of the system.\<close>

lemma queues_getc_empty:
  assumes "queues N m qs yss" "i < length qs" "yss ! i = []"
  shows "getc (qs ! i) m = (-1, qs ! i, m)"
proof -
  from assms obtain bss fs where "pool m qs yss bss fs" by (auto simp: queues_def)
  with assms(2,3) have "queue_rep m (qs ! i) (bss ! i) []" unfolding pool_def by metis
  then show ?thesis by (rule getc_empty)
qed

lemma pool_parts:
  assumes "pool m qs yss bss fs" "i < length qs"
  shows "queue_rep m (qs ! i) (bss ! i) (yss ! i)" "chain (c_next m) (cfreelist m) fs"
    "distinct (bss ! i @ fs)" "\<forall>b \<in> set (bss ! i @ fs). 8 dvd b"
proof -
  note p = assms(1) [unfolded pool_def]
  have len: "i < length bss" using p assms(2) by simp
  then have sub: "set (bss ! i) \<subseteq> set (concat bss)" by (rule set_nth_concat)
  have "distinct (bss ! i)" using p len by (simp add: distinct_concat_iff)
  moreover have "set (bss ! i) \<inter> set fs = {}" using p sub by (simp only: distinct_append) blast
  moreover have "distinct fs" using p by simp
  ultimately show "distinct (bss ! i @ fs)" by simp
  show "\<forall>b \<in> set (bss ! i @ fs). 8 dvd b"
    using p sub by (simp only: set_append ball_Un) blast
qed (use assms in \<open>auto simp: pool_def\<close>)

lemma queues_getc:
  assumes q: "queues N m qs yss" and i: "i < length qs" and y: "yss ! i = y # ys"
  shows "\<exists>q' m'. getc (qs ! i) m = (uint y, q', m') \<and> queues N m' (qs[i := q']) (yss[i := ys])"
proof -
  from q obtain bss fs where p: "pool m qs yss bss fs" and N: "length (concat bss @ fs) = N"
    by (auto simp: queues_def)
  note parts = pool_parts [OF p i]
  from getc_one [of m "qs ! i" "bss ! i" y ys fs] parts y
  obtain q' m' bs' fs' where g: "getc (qs ! i) m = (uint y, q', m')" "queue_rep m' q' bs' ys"
    "chain (c_next m') (cfreelist m') fs'" "mset (bs' @ fs') = mset (bss ! i @ fs)"
    "touches (bss ! i @ fs) m m'" by auto
  from pool_update [OF p i g(2-5)] N have "queues N m' (qs[i := q']) (yss[i := ys])"
    unfolding queues_def by metis
  with g(1) show ?thesis by blast
qed

text \<open>
  When \<open>putc\<close> refuses a character all blocks are in queues; as a block is half empty at most at the
  two ends of a queue, this happens only when the queues are nearly full.
\<close>

lemma pool_full:
  assumes "pool m qs yss bss []"
  shows "6 * length (concat bss) \<le> sum_list (map length yss) + 10 * length qs"
proof -
  note p = assms [unfolded pool_def]
  have "6 * sum_list (map length bs) \<le> sum_list (map length ys) + 10 * length bs"
    if "length ys = length bs" "\<forall>i < length bs. 6 * length (bs ! i) \<le> length (ys ! i) + 10"
    for bs :: "nat list list" and ys :: "u8 list list"
    using that
  proof (induction ys bs rule: list_induct2)
    case (Cons y ys b bs)
    have "\<forall>i < length bs. 6 * length (bs ! i) \<le> length (ys ! i) + 10" using Cons.prems by auto
    with Cons have "6 * sum_list (map length bs) \<le> sum_list (map length ys) + 10 * length bs" by blast
    moreover have "6 * length b \<le> length y + 10" using Cons.prems by auto
    ultimately show ?case by simp
  qed simp
  note count = this [of yss bss]
  have "\<forall>i < length bss. 6 * length (bss ! i) \<le> length (yss ! i) + 10"
    using p queue_rep_blocks by metis
  with p count show ?thesis by (simp only: length_concat append_Nil2)
qed

lemma queues_putc:
  assumes q: "queues N m qs yss" and i: "i < length qs"
  shows "(putc c (qs ! i) m = (-1, qs ! i, m) \<and> 6 * N \<le> sum_list (map length yss) + 10 * length qs) \<or>
    (\<exists>q' m'. putc c (qs ! i) m = (0, q', m') \<and> queues N m' (qs[i := q']) (yss[i := yss ! i @ [c]]))"
proof -
  from q obtain bss fs where p: "pool m qs yss bss fs" and N: "length (concat bss @ fs) = N"
    by (auto simp: queues_def)
  from putc_one [OF pool_parts [OF p i], of c]
  show ?thesis
  proof
    assume "fs = [] \<and> putc c (qs ! i) m = (- 1, qs ! i, m)"
    with p N pool_full [of m qs yss bss] show ?thesis by auto
  next
    assume "\<exists>q' m' bs' fs'. putc c (qs ! i) m = (0, q', m') \<and> queue_rep m' q' bs' (yss ! i @ [c]) \<and>
      chain (c_next m') (cfreelist m') fs' \<and> mset (bs' @ fs') = mset (bss ! i @ fs) \<and> touches (bss ! i @ fs) m m'"
    then obtain q' m' bs' fs' where g: "putc c (qs ! i) m = (0, q', m')" "queue_rep m' q' bs' (yss ! i @ [c])"
      "chain (c_next m') (cfreelist m') fs'" "mset (bs' @ fs') = mset (bss ! i @ fs)"
      "touches (bss ! i @ fs) m m'" by blast
    from pool_update [OF p i g(2-5)] N have "queues N m' (qs[i := q']) (yss[i := yss ! i @ [c]])"
      unfolding queues_def by metis
    with g(1) show ?thesis by blast
  qed
qed

subsection \<open>The loops of the clients\<close>

text \<open>\<open>while (getc(&q) >= 0);\<close>, the loop of \<open>flushtty\<close>; a loop that does not end is \<open>None\<close>.\<close>

partial_function (option) drain :: "clist \<Rightarrow> cmem \<Rightarrow> (clist \<times> cmem) option" where
  "drain q m = (case getc q m of (c, q', m') \<Rightarrow> if 0 \<le> c then drain q' m' else Some (q', m'))"

text \<open>A run of \<open>n\<close> calls of a get operation, and of one put operation per character of a list.\<close>

fun gets :: "('q \<Rightarrow> 's \<Rightarrow> int \<times> 'q \<times> 's) \<Rightarrow> nat \<Rightarrow> 'q \<Rightarrow> 's \<Rightarrow> int list \<times> 'q \<times> 's" where
  "gets g 0 q s = ([], q, s)"
| "gets g (Suc n) q s = (let (c, q1, s1) = g q s; (cs, q2, s2) = gets g n q1 s1 in (c # cs, q2, s2))"

fun puts :: "('c \<Rightarrow> 'q \<Rightarrow> 's \<Rightarrow> int \<times> 'q \<times> 's) \<Rightarrow> 'c list \<Rightarrow> 'q \<Rightarrow> 's \<Rightarrow> int list \<times> 'q \<times> 's" where
  "puts p [] q s = ([], q, s)"
| "puts p (c # cs) q s = (let (r, q1, s1) = p c q s; (rs, q2, s2) = puts p cs q1 s1 in (r # rs, q2, s2))"

text \<open>
  What the terminal driver relies on: a system of byte queues over one store, in which an operation
  on one queue is FIFO there and leaves all others alone.
\<close>

locale byte_queues =
  fixes rep :: "'s \<Rightarrow> 'q list \<Rightarrow> u8 list list \<Rightarrow> bool"
    and get :: "'q \<Rightarrow> 's \<Rightarrow> int \<times> 'q \<times> 's"
    and put :: "u8 \<Rightarrow> 'q \<Rightarrow> 's \<Rightarrow> int \<times> 'q \<times> 's"
  assumes rep_length: "rep s qs yss \<Longrightarrow> length yss = length qs"
    and get_empty: "rep s qs yss \<Longrightarrow> i < length qs \<Longrightarrow> yss ! i = [] \<Longrightarrow> get (qs ! i) s = (-1, qs ! i, s)"
    and get_Cons: "rep s qs yss \<Longrightarrow> i < length qs \<Longrightarrow> yss ! i = y # ys \<Longrightarrow>
      \<exists>q' s'. get (qs ! i) s = (uint y, q', s') \<and> rep s' (qs[i := q']) (yss[i := ys])"
    and put_law: "rep s qs yss \<Longrightarrow> i < length qs \<Longrightarrow> put c (qs ! i) s = (-1, qs ! i, s) \<or>
      (\<exists>q' s'. put c (qs ! i) s = (0, q', s') \<and> rep s' (qs[i := q']) (yss[i := yss ! i @ [c]]))"
begin

lemma gets_prefix:
  "rep s qs yss \<Longrightarrow> i < length qs \<Longrightarrow> yss ! i = xs @ zs \<Longrightarrow>
    \<exists>q' s'. gets get (length xs) (qs ! i) s = (map uint xs, q', s') \<and> rep s' (qs[i := q']) (yss[i := zs])"
proof (induction xs arbitrary: s qs yss)
  case Nil
  then have "qs[i := qs ! i] = qs" "yss[i := zs] = yss" by (simp_all add: list_update_same_conv rep_length)
  with Nil show ?case by auto
next
  case (Cons x xs)
  from get_Cons [OF Cons.prems(1,2), of x "xs @ zs"] Cons.prems(3)
  obtain q1 s1 where g: "get (qs ! i) s = (uint x, q1, s1)" "rep s1 (qs[i := q1]) (yss[i := xs @ zs])" by auto
  have len: "i < length yss" using rep_length [OF Cons.prems(1)] Cons.prems(2) by simp
  from Cons.IH [OF g(2)] Cons.prems(2) len obtain q' s' where
    "gets get (length xs) q1 s1 = (map uint xs, q', s')" "rep s' (qs[i := q']) (yss[i := zs])" by auto
  with g(1) show ?case by (auto simp: Let_def)
qed

lemma puts_append:
  "rep s qs yss \<Longrightarrow> i < length qs \<Longrightarrow> puts put cs (qs ! i) s = (rs, q', s') \<Longrightarrow>
    length rs = length cs \<and>
    rep s' (qs[i := q']) (yss[i := yss ! i @ map snd (filter (\<lambda>(r, c). r = 0) (zip rs cs))])"
proof (induction cs arbitrary: s qs yss rs)
  case Nil
  then show ?case by (auto simp: list_update_id)
next
  case (Cons c cs)
  have len: "i < length yss" using rep_length [OF Cons.prems(1)] Cons.prems(2) by simp
  from put_law [OF Cons.prems(1,2), of c] show ?case
  proof
    assume no: "put c (qs ! i) s = (-1, qs ! i, s)"
    with Cons.prems(3) obtain rs' where "rs = -1 # rs'" "puts put cs (qs ! i) s = (rs', q', s')"
      by (auto simp: Let_def split: prod.splits)
    with Cons.IH [OF Cons.prems(1,2)] show ?thesis by auto
  next
    assume "\<exists>q' s'. put c (qs ! i) s = (0, q', s') \<and> rep s' (qs[i := q']) (yss[i := yss ! i @ [c]])"
    then obtain q1 s1 where p: "put c (qs ! i) s = (0, q1, s1)" "rep s1 (qs[i := q1]) (yss[i := yss ! i @ [c]])"
      by blast
    with Cons.prems(3) obtain rs' where r: "rs = 0 # rs'" "puts put cs q1 s1 = (rs', q', s')"
      by (auto simp: Let_def split: prod.splits)
    from Cons.IH [OF p(2), of rs'] r Cons.prems(2) len show ?thesis by auto
  qed
qed

end

interpretation cq: byte_queues "queues N" getc putc
proof unfold_locales
  fix m and qs :: "clist list" and yss i y ys c
  show "queues N m qs yss \<Longrightarrow> length yss = length qs" by (auto simp: queues_def pool_def)
  show "queues N m qs yss \<Longrightarrow> i < length qs \<Longrightarrow> yss ! i = [] \<Longrightarrow> getc (qs ! i) m = (-1, qs ! i, m)"
    by (rule queues_getc_empty)
  show "queues N m qs yss \<Longrightarrow> i < length qs \<Longrightarrow> yss ! i = y # ys \<Longrightarrow>
      \<exists>q' m'. getc (qs ! i) m = (uint y, q', m') \<and> queues N m' (qs[i := q']) (yss[i := ys])"
    by (rule queues_getc)
  show "queues N m qs yss \<Longrightarrow> i < length qs \<Longrightarrow> putc c (qs ! i) m = (-1, qs ! i, m) \<or>
      (\<exists>q' m'. putc c (qs ! i) m = (0, q', m') \<and> queues N m' (qs[i := q']) (yss[i := yss ! i @ [c]]))"
    using queues_putc by blast
qed

lemma drain_empties:
  "queues N m qs yss \<Longrightarrow> i < length qs \<Longrightarrow>
    \<exists>q' m'. drain (qs ! i) m = Some (q', m') \<and> queues N m' (qs[i := q']) (yss[i := []])"
proof (induction "yss ! i" arbitrary: m qs yss)
  case Nil
  have "length yss = length qs" using Nil.prems(1) by (rule cq.rep_length)
  moreover from Nil have "drain (qs ! i) m = Some (qs ! i, m)"
    by (subst drain.simps) (simp add: queues_getc_empty)
  ultimately show ?case using Nil by (metis list_update_id)
next
  case (Cons y ys)
  from queues_getc [OF Cons.prems, of y ys] Cons.hyps(2) obtain q1 m1
    where g: "getc (qs ! i) m = (uint y, q1, m1)" "queues N m1 (qs[i := q1]) (yss[i := ys])" by auto
  have len: "i < length yss" using cq.rep_length [OF Cons.prems(1)] Cons.prems(2) by simp
  with Cons.hyps(1) [OF _ g(2)] Cons.prems(2) obtain q' m' where
    d: "drain q1 m1 = Some (q', m')" "queues N m' (qs[i := q']) (yss[i := []])" by auto
  have "drain (qs ! i) m = drain q1 m1" by (subst drain.simps) (simp add: g(1))
  with d show ?case by auto
qed

subsection \<open>The free list after \<open>cinit\<close>\<close>

lemma cinit_loop_chain:
  assumes "chain (c_next m) (cfreelist m) fs" "distinct fs" "\<forall>b \<in> set fs. 8 dvd b \<and> b < cp" "8 dvd cp" "0 < cp"
  shows "\<exists>fs'. chain (c_next (cinit_loop cp e m)) (cfreelist (cinit_loop cp e m)) fs' \<and> distinct fs' \<and>
    (\<forall>b \<in> set fs'. 8 dvd b) \<and> length fs' = length fs + (e + 8 - cp) div 8"
  using assms
proof (induction cp e m arbitrary: fs rule: cinit_loop.induct)
  case (1 cp e m)
  show ?case
  proof (cases "cp \<le> e")
    case True
    let ?m = "cfree_block cp m"
    have new: "cp \<notin> set fs" using 1 by auto
    then have "chain (c_next ?m) (cfreelist ?m) (cp # fs)" using 1 by (simp add: cfree_block_def)
    moreover have "\<forall>b \<in> set (cp # fs). 8 dvd b \<and> b < cp + 8" using 1 by auto
    ultimately obtain fs' where f: "chain (c_next (cinit_loop (cp + 8) e ?m)) (cfreelist (cinit_loop (cp + 8) e ?m)) fs'"
      "distinct fs'" "\<forall>b \<in> set fs'. 8 dvd b" "length fs' = length (cp # fs) + (e + 8 - (cp + 8)) div 8"
      using 1(1) [OF True, of "cp # fs"] 1 new by auto
    have "(e + 8 - cp) div 8 = Suc ((e - cp) div 8)" using True by (simp add: Suc_diff_le)
    with f show ?thesis using True by (subst (1 2) cinit_loop.simps) auto
  next
    case False
    then have "(e + 8 - cp) div 8 = 0" using 1 by auto
    with 1 False show ?thesis by (subst (1 2) cinit_loop.simps) auto
  qed
qed

lemma cinit_count:
  fixes a :: nat
  shows "(a + 8 * 99 + 8 - (a + 7) div 8 * 8) div 8 = (if 8 dvd a then 100 else 99)"
proof -
  obtain k r where a: "a = 8 * k + r" "r < 8" by (metis mult_div_mod_eq mod_less_divisor zero_less_numeral)
  show ?thesis
  proof (cases "r = 0")
    case True
    then have "(a + 7) div 8 = k" using a by simp
    with a True show ?thesis by simp
  next
    case False
    then have "(8 * k + (7 + r)) div 8 = k + (7 + r) div 8" by (simp only: div_mult_self4)
    moreover have "(7 + r) div 8 = 1" using False a(2) by (simp add: div_nat_eqI)
    ultimately have r: "(a + 7) div 8 = k + 1" using a(1) by (simp add: ac_simps)
    have "a mod 8 = r" using a(2) by (simp only: a(1) mod_mult_self4 mod_less)
    then have r2: "\<not> 8 dvd a" using False by (simp add: dvd_eq_mod_eq_0)
    have "a + 8 * 99 + 8 - (k + 1) * 8 = 8 * 99 + r" using a by simp
    with r r2 a(2) show ?thesis by simp
  qed
qed

lemma queues_initial:
  assumes "chain (c_next m) (cfreelist m) fs" "distinct fs" "\<forall>b \<in> set fs. 8 dvd b"
  shows "queues (length fs) m (replicate k \<lparr>c_cc = 0, c_cf = 0, c_cl = 0\<rparr>) (replicate k [])"
proof -
  have "pool m (replicate k \<lparr>c_cc = 0, c_cf = 0, c_cl = 0\<rparr>) (replicate k []) (replicate k []) fs"
    using assms by (simp add: pool_def queue_rep_Nil)
  then show ?thesis unfolding queues_def by fastforce
qed

lemma cinit_queues:
  assumes "0 < cfree" "cfreelist m = 0"
  shows "queues (if 8 dvd cfree then 100 else 99) (cinit_blocks cfree m)
    (replicate k \<lparr>c_cc = 0, c_cf = 0, c_cl = 0\<rparr>) (replicate k [])"
proof -
  let ?m = "cinit_blocks cfree m"
  have "0 < (cfree + 7) div 8 * 8" using assms(1) by auto
  then obtain fs where fs: "chain (c_next ?m) (cfreelist ?m) fs" "distinct fs" "\<forall>b \<in> set fs. 8 dvd b"
    and len: "length fs = length ([] :: nat list) + (cfree + 8 * (NCLIST - 1) + 8 - (cfree + 7) div 8 * 8) div 8"
    using cinit_loop_chain [of m "[]" "(cfree + 7) div 8 * 8" "cfree + 8 * (NCLIST - 1)"] assms(2)
    unfolding cinit_blocks_def by (metis chain.simps(1) distinct.simps(1) dvd_triv_right empty_iff list.set(1))
  have "NCLIST - 1 = 99" by (simp add: NCLIST_def)
  with len cinit_count [of cfree] have "length fs = (if 8 dvd cfree then 100 else 99)" by (simp only: list.size add_0)
  with queues_initial [OF fs, of k] show ?thesis by (simp only:)
qed

subsection \<open>Properties\<close>

text \<open>C7: the character lists are first-in first-out queues over one shared pool of blocks.  Whatever
  a driver puts on one queue it gets back in the same order: putting the characters \<open>cs\<close> on queue
  \<open>i\<close> and taking them off again yields first the characters the queue had and then those of
  \<open>cs\<close> that \<open>putc\<close> accepted, each once; every other queue keeps its content, and no block is
  lost from the pool.\<close>

theorem clist_fifo:
  assumes "queues N m qs yss" "i < length qs" "puts putc cs (qs ! i) m = (rs, q, m1)"
    and "acc = map snd (filter (\<lambda>(r, c). r = 0) (zip rs cs))"
  shows "\<exists>q' m'. gets getc (length (yss ! i @ acc)) q m1 = (map uint (yss ! i @ acc), q', m') \<and>
    getc q' m' = (-1, q', m') \<and> queues N m' (qs[i := q']) (yss[i := []])"
proof -
  have r: "queues N m1 (qs[i := q]) (yss[i := yss ! i @ acc])"
    using cq.puts_append [OF assms(1-3)] assms(4) by simp
  have len: "i < length yss" using cq.rep_length [OF assms(1)] assms(2) by simp
  from cq.gets_prefix [OF r, of i "yss ! i @ acc" "[]"] assms(2) len
  obtain q' m' where g: "gets getc (length (yss ! i @ acc)) q m1 = (map uint (yss ! i @ acc), q', m')"
    "queues N m' (qs[i := q']) (yss[i := []])" by auto
  moreover have "getc q' m' = (-1, q', m')"
    using queues_getc_empty [OF g(2), of i] assms(2) len by simp
  ultimately show ?thesis by blast
qed

definition ex_cmem :: cmem where
  "ex_cmem = \<lparr>c_next = (\<lambda>_. 0)(8 := 16), info = (\<lambda>_. 0), cfreelist = 8\<rparr>"

abbreviation clist_empty :: clist where
  "clist_empty \<equiv> \<lparr>c_cc = 0, c_cf = 0, c_cl = 0\<rparr>"

lemma ex_queues: "queues 2 ex_cmem [clist_empty, clist_empty] [[], []]"
proof -
  have "replicate 2 x = [x, x]" for x :: 'a by (simp add: numeral_2_eq_2)
  moreover have "chain (c_next ex_cmem) (cfreelist ex_cmem) [8, 16]" by (simp add: ex_cmem_def)
  then have "queues (length [8, 16::nat]) ex_cmem (replicate 2 clist_empty) (replicate 2 [])"
    by (rule queues_initial) auto
  ultimately show ?thesis by (simp add: numeral_2_eq_2)
qed

theorem clist_fifo_witness:
  "\<exists>rs q m1 q' m'. puts putc [97, 98] clist_empty ex_cmem = (rs, q, m1) \<and>
     gets getc 2 q m1 = (map uint [97 :: u8, 98], q', m') \<and> queues 2 m' [clist_empty, q'] [[], []]"
proof -
  obtain q m1 where p: "puts putc [97, 98] clist_empty ex_cmem = ([0, 0], q, m1)"
    by (simp add: putc_def putc_store_def ex_cmem_def Let_def)
  then have "puts putc [97, 98] ([clist_empty, clist_empty] ! 1) ex_cmem = ([0, 0], q, m1)" by simp
  from clist_fifo [OF ex_queues _ this, of "[97, 98]"]
  obtain q' m' where g: "gets getc (length ([97, 98] :: u8 list)) q m1 = (map uint [97 :: u8, 98], q', m')"
    "queues 2 m' ([clist_empty, clist_empty][1 := q']) ([[], []][1 := []])" by auto
  have "gets getc 2 q m1 = (map uint [97 :: u8, 98], q', m')" using g(1) by (simp only: list.size) (simp add: numeral_2_eq_2)
  moreover have "queues 2 m' [clist_empty, q'] [[], []]" using g(2) by simp
  ultimately show ?thesis using p by blast
qed

text \<open>\<open>cinit\<close> builds a pool of all the aligned blocks of \<open>cfree\<close> in which all queues of the
  system are empty, and over such a pool \<open>putc\<close> refuses a character only when no block is free:
  with \<open>k\<close> queues in the system, only when at least \<open>594 - 10 k\<close> characters are queued.\<close>

theorem cinit_putc_capacity:
  assumes "0 < cfree" "cfreelist m = 0" "\<not> 8 dvd cfree"
  shows "queues 99 (cinit_blocks cfree m) (replicate k \<lparr>c_cc = 0, c_cf = 0, c_cl = 0\<rparr>) (replicate k []) \<and>
    (\<forall>m' qs yss i c. queues 99 m' qs yss \<and> length qs = k \<and> i < k \<and>
       sum_list (map length yss) + 10 * k < 594 \<longrightarrow>
       (\<exists>q' m''. putc c (qs ! i) m' = (0, q', m'') \<and> queues 99 m'' (qs[i := q']) (yss[i := yss ! i @ [c]])))"
proof (intro conjI allI impI)
  show "queues 99 (cinit_blocks cfree m) (replicate k \<lparr>c_cc = 0, c_cf = 0, c_cl = 0\<rparr>) (replicate k [])"
    using cinit_queues [OF assms(1,2)] assms(3) by simp
next
  fix m' qs yss i c
  assume "queues 99 m' qs yss \<and> length qs = k \<and> i < k \<and> sum_list (map length yss) + 10 * k < 594"
  with queues_putc [of 99 m' qs yss i c]
  show "\<exists>q' m''. putc c (qs ! i) m' = (0, q', m'') \<and> queues 99 m'' (qs[i := q']) (yss[i := yss ! i @ [c]])"
    by auto
qed

theorem cinit_putc_capacity_witness:
  "queues 99 (cinit_blocks 1004 \<lparr>c_next = (\<lambda>_. 0), info = (\<lambda>_. 0), cfreelist = 0\<rparr>)
     (replicate 3 \<lparr>c_cc = 0, c_cf = 0, c_cl = 0\<rparr>) (replicate 3 [])"
  using cinit_putc_capacity [of 1004 "\<lparr>c_next = (\<lambda>_. 0), info = (\<lambda>_. 0), cfreelist = 0\<rparr>" 3] by simp

text \<open>the loops of \<open>flushtty\<close> end: draining any queue of the system by \<open>getc\<close> terminates,
  leaves that queue empty, all others as they were and every block in the pool.\<close>

theorem flush_terminates:
  assumes "queues N m qs yss" "i < length qs"
  shows "\<exists>q' m'. drain (qs ! i) m = Some (q', m') \<and> queues N m' (qs[i := q']) (yss[i := []])"
  using assms by (rule drain_empties)

theorem flush_terminates_witness:
  "\<exists>q' m'. drain clist_empty ex_cmem = Some (q', m') \<and> queues 2 m' [q', clist_empty] [[], []]"
  using flush_terminates [OF ex_queues, of 0] by simp

end
