(* ===== verification/Prf.thy ===== *)
theory Prf
  imports Prelude "HOL-Library.Monad_Syntax"
begin

text \<open>
  \<open>ken/prf.c\<close> and \<open>putck\<close> of \<open>dmr/pc.c\<close>: the messages of the kernel on the console.

  The functions compute the characters that reach \<open>bios_putc\<close>; \<open>None\<close> stands for a call whose
  arguments make the code read outside the format, the argument list or the table of digits, or never
  return.
\<close>

subsection \<open>Definitions\<close>

text \<open>\<open>putck\<close>: a newline is preceded by a carriage return.\<close>

definition putck :: "char \<Rightarrow> string" where
  "putck c = (if c = CHR 0x0A then [CHR 0x0D, c] else [c])"

definition digits :: string where
  "digits = ''0123456789ABCDEF''"

function printn :: "nat \<Rightarrow> nat \<Rightarrow> string option" where
  "printn n b =
     (if b < 2 \<or> 16 < b then None
      else do {
        s \<leftarrow> (if n div b \<noteq> 0 then printn (n div b) b else Some []);
        Some (s @ putck (digits ! (n mod b))) })"
  by pat_completeness auto
termination by (relation "measure fst") (auto simp: div_greater_zero_iff intro!: div_less_dividend)

declare printn.simps [simp del]

text \<open>The word on the stack that a conversion reads: a number or the address of a string.\<close>

datatype karg = Num u16 | Str string

text \<open>What one conversion prints; the other conversion characters print nothing.\<close>

definition convert :: "char \<Rightarrow> karg \<Rightarrow> string option" where
  "convert c a =
     (if c = CHR ''d'' \<or> c = CHR ''l'' then (case a of Num n \<Rightarrow> printn (unat n) 10 | Str s \<Rightarrow> None)
      else if c = CHR ''o'' then (case a of Num n \<Rightarrow> printn (unat n) 8 | Str s \<Rightarrow> None)
      else if c = CHR ''x'' \<or> c = CHR ''p'' then (case a of Num n \<Rightarrow> printn (unat n) 16 | Str s \<Rightarrow> None)
      else if c = CHR ''s'' then (case a of Num n \<Rightarrow> None | Str s \<Rightarrow> Some (concat (map putck s)))
      else Some [])"

fun printk :: "string \<Rightarrow> karg list \<Rightarrow> string option" where
  "printk [] as = Some []"
| "printk (c # fmt) as =
     (if c \<noteq> CHR ''%'' then do { s \<leftarrow> printk fmt as; Some (putck c @ s) }
      else (case fmt of
          [] \<Rightarrow> None
        | f # fmt' \<Rightarrow> (case as of
              [] \<Rightarrow> None
            | a # as' \<Rightarrow> do { o1 \<leftarrow> convert f a; s \<leftarrow> printk fmt' as'; Some (o1 @ s) })))"

definition prdev :: "string \<Rightarrow> u16 \<Rightarrow> string option" where
  "prdev str dev = printk (''%s on dev %l/%l'' @ [CHR 0x0A]) [Str str, Num (signed_drop_bit 8 dev), Num (and dev 255)]"

definition deverror :: "u16 \<Rightarrow> u16 \<Rightarrow> u16 \<Rightarrow> u16 \<Rightarrow> string option" where
  "deverror dev blkno o1 o2 = do {
     s \<leftarrow> prdev ''Error'' dev;
     t \<leftarrow> printk (''bn%d er%d %d'' @ [CHR 0x0A]) [Num blkno, Num o1, Num o2];
     Some (s @ t) }"

subsection \<open>Numbers\<close>

text \<open>The value of a character as a digit of \<open>digits\<close>, and of a numeral in base \<open>b\<close>.\<close>

definition digit_val :: "char \<Rightarrow> nat" where
  "digit_val c = (if of_char c < (58 :: nat) then of_char c - 48 else of_char c - 55)"

definition numeral_val :: "nat \<Rightarrow> string \<Rightarrow> nat" where
  "numeral_val b s = foldl (\<lambda>n c. b * n + digit_val c) 0 s"

lemma digits_cases: "d < 16 \<Longrightarrow> d \<in> {0, 1, 2, 3, 4, 5, 6, 7, 8, 9, 10, 11, 12, 13, 14, 15 :: nat}"
  by (simp add: numeral_eq_Suc less_Suc_eq)

lemma digit_val_digits: "d < 16 \<Longrightarrow> digit_val (digits ! d) = d \<and> putck (digits ! d) = [digits ! d]"
  by (drule digits_cases) (auto simp: digit_val_def digits_def putck_def)

lemma digit_mod:
  assumes "2 \<le> b" "b \<le> 16"
  shows "digit_val (digits ! (n mod b)) = n mod b" "putck (digits ! (n mod b)) = [digits ! (n mod b)]"
proof -
  have "n mod b < b" using assms by (intro mod_less_divisor) simp
  with assms digit_val_digits [of "n mod b"] show "digit_val (digits ! (n mod b)) = n mod b"
    "putck (digits ! (n mod b)) = [digits ! (n mod b)]" by auto
qed

lemma printn_prints:
  assumes "2 \<le> b" "b \<le> 16"
  shows "\<exists>s. printn n b = Some s \<and> s \<noteq> [] \<and> numeral_val b s = n \<and> (n \<noteq> 0 \<longrightarrow> digit_val (hd s) \<noteq> 0) \<and>
    (\<forall>c \<in> set s. digit_val c < b)"
  using assms
proof (induction n b rule: printn.induct)
  case (1 n b)
  let ?c = "digits ! (n mod b)"
  have d: "digit_val ?c = n mod b" "putck ?c = [?c]" "digit_val ?c < b"
    using digit_mod [OF 1(2,3), of n] 1(2) by auto
  show ?case
  proof (cases "n div b = 0")
    case True
    then have "n < b" using 1 by (simp add: div_eq_0_iff)
    with True 1 d show ?thesis by (subst printn.simps) (auto simp: numeral_val_def)
  next
    case False
    with 1 obtain s where s: "printn (n div b) b = Some s" "s \<noteq> []" "numeral_val b s = n div b"
      "digit_val (hd s) \<noteq> 0" "\<forall>c \<in> set s. digit_val c < b" by auto
    with False 1 d show ?thesis by (subst printn.simps) (auto simp: numeral_val_def)
  qed
qed

lemma digits_length: "printn n b = Some s \<Longrightarrow> n < b ^ k \<Longrightarrow> 0 < k \<Longrightarrow> length s \<le> k"
proof (induction k arbitrary: n s)
  case (Suc k)
  then have b: "2 \<le> b" "b \<le> 16" by (auto simp: printn.simps [of n] split: if_splits)
  have p1: "length (putck (digits ! (n mod b))) = 1" using digit_mod [OF b, of n] by simp
  show ?case
  proof (cases "n div b = 0")
    case True
    with Suc b p1 show ?thesis by (auto simp: printn.simps [of n])
  next
    case False
    have "n div b < b ^ k" using Suc.prems(2) b by (simp add: less_mult_imp_div_less mult.commute)
    moreover have "k \<noteq> 0" using False calculation by (cases k) auto
    ultimately show ?thesis using Suc.IH [of "n div b"] Suc.prems(1) False b p1 by (auto simp: printn.simps [of n] split: Option.bind_splits)
  qed
qed simp

subsection \<open>Properties\<close>

text \<open>\<open>printn\<close> prints a number faithfully in every base from 2 to 16: it returns, the text is a
  numeral of that value made of digits of the base, without a leading zero unless the number is zero,
  and a 16 bit number takes at most five characters in base ten and six in base eight.\<close>

theorem printn_numeral:
  assumes "2 \<le> b" "b \<le> 16"
  shows "\<exists>s. printn n b = Some s \<and> numeral_val b s = n \<and> (\<forall>c \<in> set s. digit_val c < b) \<and>
    (n \<noteq> 0 \<longrightarrow> digit_val (hd s) \<noteq> 0) \<and>
    (n < 65536 \<longrightarrow> (b = 10 \<longrightarrow> length s \<le> 5) \<and> (b = 8 \<longrightarrow> length s \<le> 6))"
proof -
  obtain s where s: "printn n b = Some s" "numeral_val b s = n" "\<forall>c \<in> set s. digit_val c < b" "n \<noteq> 0 \<longrightarrow> digit_val (hd s) \<noteq> 0"
    using printn_prints [OF assms] by blast
  moreover have "length s \<le> 5" if "n < 65536" "b = 10" using digits_length [OF s(1), of 5] that by simp
  moreover have "length s \<le> 6" if "n < 65536" "b = 8" using digits_length [OF s(1), of 6] that by simp
  ultimately show ?thesis by blast
qed

theorem printn_numeral_witness:
  "\<exists>s. printn 65535 10 = Some s \<and> numeral_val 10 s = 65535 \<and> length s \<le> 5"
  using printn_numeral [of 10 65535] by auto

end
