(* ===== verification/Tty.thy ===== *)
theory Tty
  imports Uio Sig Bio Clist Prf
begin

unbundle bit_operations_syntax

text \<open>
  \<open>dmr/tty.c\<close> and \<open>dmr/kl.c\<close>: the terminal, with input from the keyboard and output through the
  BIOS (\<open>KL_BACKEND_KBD\<close>).

  \<open>kl11\<close> is the array of terminals; it has one element, and a routine that indexes it by another
  minor device number is \<open>None\<close>.  \<open>console\<close> is what has been sent to the screen.  The queues are
  those of \<open>Clist\<close> over one store of blocks.  \<open>None\<close> also stands for a loop that never ends.
\<close>

subsection \<open>State\<close>

abbreviation "TTIPRI \<equiv> (10 :: int)"
abbreviation "TTOPRI \<equiv> (20 :: int)"
abbreviation "CERASE \<equiv> (35 :: u8)"
abbreviation "CEOT \<equiv> (4 :: int)"
abbreviation "CKILL \<equiv> (64 :: u8)"
abbreviation "CQUIT \<equiv> (27 :: int)"
abbreviation "CINTR \<equiv> (3 :: int)"
abbreviation "SIGINT \<equiv> (2 :: int)"
abbreviation "TTHIWAT \<equiv> (50 :: int)"
abbreviation "TTLOWAT \<equiv> (30 :: int)"
abbreviation "TTYHOG \<equiv> (256 :: int)"
abbreviation "CANBSIZ \<equiv> (256 :: nat)"

abbreviation "XTABS \<equiv> (2 :: u16)"
abbreviation "LCASE \<equiv> (4 :: u16)"
abbreviation "ECHO \<equiv> (8 :: u16)"
abbreviation "CRMOD \<equiv> (16 :: u16)"
abbreviation "RAW \<equiv> (32 :: u16)"
abbreviation "VTDELAY \<equiv> (0x4000 :: u16)"

abbreviation "DONE \<equiv> (0x80 :: u16)"

abbreviation "TIMEOUT \<equiv> (1 :: u8)"
abbreviation "ISOPEN \<equiv> (4 :: u8)"
abbreviation "SSTART \<equiv> (8 :: u8)"
abbreviation "CARR_ON \<equiv> (16 :: u8)"
abbreviation "ASLEEP \<equiv> (64 :: u8)"

record tty =
  t_rawq :: clist
  t_canq :: clist
  t_outq :: clist
  t_flags :: u16
  t_addr :: bool
  t_delct :: u8
  t_col :: u8
  t_erase :: u8
  t_kill :: u8
  t_state :: u8
  t_speeds :: u16
  t_dev :: u16

record ktty = kbio +
  console :: string
  clists :: cmem
  canonb :: "nat \<Rightarrow> u8"
  kl11 :: "nat \<Rightarrow> tty"
  tttcsr :: u16
  kbd_shift :: u16

definition maptab :: "u8 list" where
  "maptab = [
     0, 0, 0, 0, 4, 0, 0, 0, 0, 0, 0, 0, 0, 0, 0, 0,
     0, 0, 0, 0, 0, 0, 0, 0, 0, 0, 0, 0, 0, 0, 0, 0,
     0, 124, 0, 35, 0, 0, 0, 96, 123, 125, 0, 0, 0, 0, 0, 0,
     0, 0, 0, 0, 0, 0, 0, 0, 0, 0, 0, 0, 0, 0, 0, 0,
     64, 0, 0, 0, 0, 0, 0, 0, 0, 0, 0, 0, 0, 0, 0, 0,
     0, 0, 0, 0, 0, 0, 0, 0, 0, 0, 0, 0, 0, 0, 126, 0,
     0, 65, 66, 67, 68, 69, 70, 71, 72, 73, 74, 75, 76, 77, 78, 79,
     80, 81, 82, 83, 84, 85, 86, 87, 88, 89, 90, 0, 0, 0, 0, 0]"

definition partab :: "u8 list" where
  "partab = [
     1, 129, 129, 1, 129, 1, 1, 129, 130, 4, 3, 133, 5, 134, 129, 1,
     129, 1, 1, 129, 1, 129, 129, 1, 1, 129, 129, 1, 129, 1, 1, 129,
     128, 0, 0, 128, 0, 128, 128, 0, 0, 128, 128, 0, 128, 0, 0, 128,
     0, 128, 128, 0, 128, 0, 0, 128, 128, 0, 0, 128, 0, 128, 128, 0,
     128, 0, 0, 128, 0, 128, 128, 0, 0, 128, 128, 0, 128, 0, 0, 128,
     0, 128, 128, 0, 128, 0, 0, 128, 128, 0, 0, 128, 0, 128, 128, 0,
     0, 128, 128, 0, 128, 0, 0, 128, 128, 0, 0, 128, 0, 128, 128, 0,
     128, 0, 0, 128, 0, 128, 128, 0, 0, 128, 128, 0, 128, 0, 0, 129]"

definition upd_tty :: "nat \<Rightarrow> (tty \<Rightarrow> tty) \<Rightarrow> 'a ktty_scheme \<Rightarrow> 'a ktty_scheme" where
  "upd_tty tp f k = k\<lparr>kl11 := (kl11 k)(tp := f (kl11 k tp))\<rparr>"

datatype ttq = RawQ | CanQ | OutQ

fun ttq_get :: "ttq \<Rightarrow> tty \<Rightarrow> clist" where
  "ttq_get RawQ t = t_rawq t"
| "ttq_get CanQ t = t_canq t"
| "ttq_get OutQ t = t_outq t"

fun ttq_set :: "ttq \<Rightarrow> clist \<Rightarrow> tty \<Rightarrow> tty" where
  "ttq_set RawQ q t = t\<lparr>t_rawq := q\<rparr>"
| "ttq_set CanQ q t = t\<lparr>t_canq := q\<rparr>"
| "ttq_set OutQ q t = t\<lparr>t_outq := q\<rparr>"

text \<open>\<open>getc(&tp->t_...)\<close> and \<open>putc(c, &tp->t_...)\<close>\<close>

definition tgetc :: "ttq \<Rightarrow> nat \<Rightarrow> 'a ktty_scheme \<Rightarrow> int \<times> 'a ktty_scheme" where
  "tgetc s tp k = (let (c, q, m) = getc (ttq_get s (kl11 k tp)) (clists k) in (c, upd_tty tp (ttq_set s q) (k\<lparr>clists := m\<rparr>)))"

definition tputc :: "u8 \<Rightarrow> ttq \<Rightarrow> nat \<Rightarrow> 'a ktty_scheme \<Rightarrow> int \<times> 'a ktty_scheme" where
  "tputc c s tp k =
     (let (r, q, m) = putc c (ttq_get s (kl11 k tp)) (clists k);
          k = upd_tty tp (ttq_set s q) (k\<lparr>clists := m\<rparr>)
      in (r, if r = 0 then k else k\<lparr>console := console k @ ''ERROR cfreelist is NULL''\<rparr>))"

definition tdrain :: "ttq \<Rightarrow> nat \<Rightarrow> 'a ktty_scheme \<Rightarrow> 'a ktty_scheme option" where
  "tdrain s tp k = do {
     (q, m) \<leftarrow> drain (ttq_get s (kl11 k tp)) (clists k);
     Some (upd_tty tp (ttq_set s q) (k\<lparr>clists := m\<rparr>)) }"

definition bios_putc :: "int \<Rightarrow> 'a ktty_scheme \<Rightarrow> 'a ktty_scheme" where
  "bios_putc c k = k\<lparr>console := console k @ [char_of (nat (c mod 256))]\<rparr>"

subsection \<open>Flushing\<close>

definition flushtty :: "nat \<Rightarrow> 'a ktty_scheme \<Rightarrow> 'a ktty_scheme option" where
  "flushtty tp k = do {
     k \<leftarrow> tdrain CanQ tp k;
     k \<leftarrow> tdrain OutQ tp k;
     let k = wakeup (ChOutq tp) (wakeup (ChRawq tp) k);
     k \<leftarrow> tdrain RawQ tp (spl 5 k);
     Some (upd_tty tp (\<lambda>t. t\<lparr>t_delct := 0\<rparr>) k) }"

partial_function (option) wflush_wait ::
  "('a ktty_scheme \<Rightarrow> 'a ktty_scheme option) \<Rightarrow> nat \<Rightarrow> 'a ktty_scheme \<Rightarrow> (unit, 'a ktty_scheme) outcome option" where
  "wflush_wait away tp k =
     (if c_cc (t_outq (kl11 k tp)) = 0 then ret k
      else do {
        w \<leftarrow> sleep away (ChOutq tp) TTOPRI (upd_tty tp (\<lambda>t. t\<lparr>t_state := setf (t_state t) ASLEEP\<rparr>) k);
        case w of Qsav k \<Rightarrow> Some (Intr k) | Woken k \<Rightarrow> wflush_wait away tp k })"

definition wflushtty ::
  "('a ktty_scheme \<Rightarrow> 'a ktty_scheme option) \<Rightarrow> nat \<Rightarrow> 'a ktty_scheme \<Rightarrow> (unit, 'a ktty_scheme) outcome option" where
  "wflushtty away tp k =
     andthen (wflush_wait away tp (spl 5 k)) (\<lambda>_ k. do { k \<leftarrow> flushtty tp k; ret (spl 0 k) })"

subsection \<open>Output\<close>

text \<open>
  The last part of \<open>ttyoutput\<close>: the character goes on the output queue, the column is kept and a
  delay may follow, as a character above 0200.
\<close>

definition tty_delay :: "u16 \<Rightarrow> u8 \<Rightarrow> u8 \<Rightarrow> int \<times> u8" where
  "tty_delay flags ctype col =
     (if ctype = 0 then (0, col + 1)
      else if ctype = 2 then (0, if col \<noteq> 0 then col - 1 else col)
      else if ctype = 3 then
        let t = drop_bit 8 flags AND 3 in
        (if t = 1 then (if col \<noteq> 0 then (let d = sint col div 16 + 3 in if d < 6 then 6 else d) else 0)
         else if t = 2 then 6 else 0, 0)
      else if ctype = 4 then
        let t = drop_bit 10 flags AND 3;
            d = 1 - (sint col OR (- 8));
            d = (if d < 5 then 0 else d)
        in (if t = 1 then d else 0, (col OR 7) + 1)
      else if ctype = 5 then (if flag flags VTDELAY then 127 else 0, col)
      else if ctype = 6 then
        let t = drop_bit 12 flags AND 3 in (if t = 1 then 5 else if t = 2 then 10 else 0, 0)
      else (0, col))"

definition tty_put :: "int \<Rightarrow> nat \<Rightarrow> 'a ktty_scheme \<Rightarrow> 'a ktty_scheme" where
  "tty_put c tp k =
     (let (r, k) = tputc (word_of_int c) OutQ tp k in
      if r \<noteq> 0 then k
      else
        let (d, col) = tty_delay (t_flags (kl11 k tp)) ((partab ! nat c) AND 63) (t_col (kl11 k tp));
            k = upd_tty tp (\<lambda>t. t\<lparr>t_col := col\<rparr>) k
        in if d \<noteq> 0 then snd (tputc (word_of_int d OR 128) OutQ tp k) else k)"

text \<open>\<open>do ttyoutput(' ', rtp); while (rtp->t_col&07)\<close>\<close>

partial_function (option) tab_loop :: "nat \<Rightarrow> 'a ktty_scheme \<Rightarrow> 'a ktty_scheme option" where
  "tab_loop tp k =
     (let k = tty_put 32 tp k in
      if t_col (kl11 k tp) AND 7 \<noteq> 0 then tab_loop tp k else Some k)"

text \<open>The escapes of an upper case terminal: the second character of a pair is printed as a backslash
  and the first.\<close>

fun lcase_esc :: "int \<Rightarrow> int option" where
  "lcase_esc c =
     (if c = 123 then Some 40 else if c = 125 then Some 41 else if c = 124 then Some 33
      else if c = 126 then Some 94 else if c = 96 then Some 39 else None)"

text \<open>
  \<open>ttyoutput\<close>.  It calls itself for a space, a backslash and a carriage return only, which take none
  of the special ways; those calls are \<open>tty_put\<close> (see \<open>ttyoutput_plain\<close>).
\<close>

definition ttyoutput :: "int \<Rightarrow> nat \<Rightarrow> 'a ktty_scheme \<Rightarrow> 'a ktty_scheme option" where
  "ttyoutput ac tp k =
     (let c = ac AND 127;
          fl = t_flags (kl11 k tp) in
      if c = CEOT \<and> \<not> flag fl RAW then Some k
      else if c = 9 \<and> flag fl XTABS then tab_loop tp k
      else
        let (c, k) =
              (if flag fl LCASE then
                 let (c, k) = (case lcase_esc c of Some d \<Rightarrow> (d, tty_put 92 tp k) | None \<Rightarrow> (c, k))
                 in (if 97 \<le> c \<and> c \<le> 122 then c - 32 else c, k)
               else (c, k));
            k = (if c = 10 \<and> flag fl CRMOD then tty_put 13 tp k else k)
        in Some (tty_put c tp k))"

text \<open>\<open>do bios_putc(c); while ((c=getc(&tp->t_outq)) >= 0)\<close>\<close>

partial_function (option) start_loop :: "int \<Rightarrow> nat \<Rightarrow> 'a ktty_scheme \<Rightarrow> 'a ktty_scheme option" where
  "start_loop c tp k =
     (let (c, k) = tgetc OutQ tp (bios_putc c k) in
      if 0 \<le> c then start_loop c tp k else Some k)"

text \<open>\<open>ttstart\<close>; \<open>ttrstrt\<close> is the number of the routine \<open>ttrstrt\<close> in the callout table.\<close>

definition ttrstrt_fn :: nat where "ttrstrt_fn = 1"

definition ttstart :: "nat \<Rightarrow> 'a ktty_scheme \<Rightarrow> 'a ktty_scheme option" where
  "ttstart tp k =
     (if flag (t_state (kl11 k tp)) SSTART then Some k
      else if \<not> t_addr (kl11 k tp) then None
      else if \<not> flag (tttcsr k) DONE \<or> flag (t_state (kl11 k tp)) TIMEOUT then Some k
      else
        let (c, k) = tgetc OutQ tp k in
        if c < 0 then Some k
        else if c \<le> 127 then start_loop c tp k
        else do {
          cs \<leftarrow> timeout ttrstrt_fn (of_nat tp) (c AND 127) (callout k);
          Some (upd_tty tp (\<lambda>t. t\<lparr>t_state := setf (t_state t) TIMEOUT\<rparr>) (k\<lparr>callout := cs\<rparr>)) })"

definition ttrstrt :: "nat \<Rightarrow> 'a ktty_scheme \<Rightarrow> 'a ktty_scheme option" where
  "ttrstrt tp k = ttstart tp (upd_tty tp (\<lambda>t. t\<lparr>t_state := clrf (t_state t) TIMEOUT\<rparr>) k)"

subsection \<open>Input\<close>

definition ttyinput :: "int \<Rightarrow> nat \<Rightarrow> 'a ktty_scheme \<Rightarrow> 'a ktty_scheme option" where
  "ttyinput ac tp k =
     (let fl = t_flags (kl11 k tp);
          c = ac AND 127;
          c = (if c = 13 \<and> flag fl CRMOD then 10 else c) in
      if \<not> flag fl RAW \<and> (c = CQUIT \<or> c = CINTR) then
        flushtty tp (signal tp (if c = CINTR then SIGINT else sint SIGQIT) k)
      else if c_cc (t_rawq (kl11 k tp)) \<ge> TTYHOG then flushtty tp k
      else do {
        let c = (if flag fl LCASE \<and> 65 \<le> c \<and> c \<le> 90 then c + 32 else c);
        let k = snd (tputc (word_of_int c) RawQ tp k);
        let k = (if flag fl RAW \<or> c = 10 \<or> c = 4 then
                   let (r, k) = tputc 255 RawQ tp (wakeup (ChRawq tp) k)
                   in if r = 0 then upd_tty tp (\<lambda>t. t\<lparr>t_delct := t_delct t + 1\<rparr>) k else k
                 else k);
        if flag fl ECHO then do { k \<leftarrow> ttyoutput c tp k; ttstart tp k } else Some k })"

text \<open>The wait at the beginning of \<open>canon\<close>; the result is whether there is a line.\<close>

partial_function (option) canon_wait ::
  "('a ktty_scheme \<Rightarrow> 'a ktty_scheme option) \<Rightarrow> nat \<Rightarrow> 'a ktty_scheme \<Rightarrow> (bool, 'a ktty_scheme) outcome option" where
  "canon_wait away tp k =
     (if t_delct (kl11 k tp) \<noteq> 0 then Some (Ret True k)
      else if \<not> flag (t_state (kl11 k tp)) CARR_ON then Some (Ret False k)
      else do {
        w \<leftarrow> sleep away (ChRawq tp) TTIPRI k;
        case w of Qsav k \<Rightarrow> Some (Intr k) | Woken k \<Rightarrow> canon_wait away tp k })"

text \<open>
  One character of a line: \<open>bp\<close> is the place in \<open>canonb\<close>.  \<open>Kill\<close> is \<open>goto loop\<close>, \<open>Skip\<close> is
  \<open>continue\<close> with the new place, and \<open>Store\<close> stores the character at the place.
\<close>

datatype canon_act = Kill | Skip nat | Store nat int

definition canon_char :: "tty \<Rightarrow> (nat \<Rightarrow> u8) \<Rightarrow> nat \<Rightarrow> int \<Rightarrow> canon_act option" where
  "canon_char t cb bp c =
     (if flag (t_flags t) RAW then Some (Store bp c)
      else if cb (bp - 1) \<noteq> 92 then
        if c = sint (t_erase t) then Some (Skip (if bp > 2 then bp - 1 else bp))
        else if c = sint (t_kill t) then Some Kill
        else if c = CEOT then Some (Skip bp)
        else Some (Store bp c)
      else if c \<ge> 128 then None
      else
        let mc = maptab ! nat c in
        if mc \<noteq> 0 \<and> (sint mc = c \<or> flag (t_flags t) LCASE)
        then Some (Store (bp - 1) (if cb (bp - 2) \<noteq> 92 then sint mc else c))
        else Some (Store bp c))"

partial_function (option) canon_loop :: "nat \<Rightarrow> nat \<Rightarrow> 'a ktty_scheme \<Rightarrow> (nat \<times> 'a ktty_scheme) option" where
  "canon_loop tp bp k =
     (let (c, k) = tgetc RawQ tp k in
      if c < 0 then Some (bp, k)
      else if c = 255 then Some (bp, upd_tty tp (\<lambda>t. t\<lparr>t_delct := t_delct t - 1\<rparr>) k)
      else do {
        a \<leftarrow> canon_char (kl11 k tp) (canonb k) bp c;
        case a of
          Kill \<Rightarrow> canon_loop tp 2 k
        | Skip bp \<Rightarrow> canon_loop tp bp k
        | Store bp c \<Rightarrow>
            let k = k\<lparr>canonb := (canonb k)(bp := word_of_int c)\<rparr> in
            if bp + 1 \<ge> CANBSIZ then Some (bp + 1, k) else canon_loop tp (bp + 1) k })"

text \<open>\<open>while (bp<bp1) putc(*bp++, &tp->t_canq)\<close>\<close>

definition canon_move :: "nat \<Rightarrow> nat \<Rightarrow> 'a ktty_scheme \<Rightarrow> 'a ktty_scheme" where
  "canon_move tp bp1 k = fold (\<lambda>i k. snd (tputc (canonb k i) CanQ tp k)) [2..<bp1] k"

definition canon ::
  "('a ktty_scheme \<Rightarrow> 'a ktty_scheme option) \<Rightarrow> nat \<Rightarrow> 'a ktty_scheme \<Rightarrow> (bool, 'a ktty_scheme) outcome option" where
  "canon away tp k =
     andthen (canon_wait away tp (spl 5 k)) (\<lambda>line k.
       if \<not> line then Some (Ret False k)
       else do {
         (bp1, k) \<leftarrow> canon_loop tp 2 (spl 0 k);
         Some (Ret True (canon_move tp bp1 k)) })"

text \<open>\<open>while (tp->t_canq.c_cc && passc(getc(&tp->t_canq))>=0);\<close>\<close>

partial_function (option) ttread_loop :: "nat \<Rightarrow> 'a ktty_scheme \<Rightarrow> 'a ktty_scheme option" where
  "ttread_loop tp k =
     (if c_cc (t_canq (kl11 k tp)) = 0 then Some k
      else do {
        let (c, k) = tgetc CanQ tp k;
        (more, k) \<leftarrow> passc (word_of_int c) k;
        if more then ttread_loop tp k else Some k })"

definition ttread ::
  "('a ktty_scheme \<Rightarrow> 'a ktty_scheme option) \<Rightarrow> nat \<Rightarrow> 'a ktty_scheme \<Rightarrow> (unit, 'a ktty_scheme) outcome option" where
  "ttread away tp k =
     (if \<not> flag (t_state (kl11 k tp)) CARR_ON then ret k
      else if c_cc (t_canq (kl11 k tp)) \<noteq> 0 then surely (ttread_loop tp k)
      else andthen (canon away tp k) (\<lambda>line k. if line then surely (ttread_loop tp k) else ret k))"

text \<open>\<open>ttwrite\<close>, which the driver does not call in this configuration.\<close>

partial_function (option) ttwrite_wait ::
  "('a ktty_scheme \<Rightarrow> 'a ktty_scheme option) \<Rightarrow> nat \<Rightarrow> 'a ktty_scheme \<Rightarrow> (unit, 'a ktty_scheme) outcome option" where
  "ttwrite_wait away tp k =
     (if c_cc (t_outq (kl11 k tp)) \<le> TTHIWAT then ret k
      else do {
        k \<leftarrow> ttstart tp k;
        w \<leftarrow> sleep away (ChOutq tp) TTOPRI (upd_tty tp (\<lambda>t. t\<lparr>t_state := setf (t_state t) ASLEEP\<rparr>) k);
        case w of Qsav k \<Rightarrow> Some (Intr k) | Woken k \<Rightarrow> ttwrite_wait away tp k })"

partial_function (option) ttwrite_loop ::
  "('a ktty_scheme \<Rightarrow> 'a ktty_scheme option) \<Rightarrow> nat \<Rightarrow> 'a ktty_scheme \<Rightarrow> (unit, 'a ktty_scheme) outcome option" where
  "ttwrite_loop away tp k = do {
     (c, k) \<leftarrow> cpass k;
     case c of
       None \<Rightarrow> ret k
     | Some c \<Rightarrow>
         andthen (ttwrite_wait away tp (spl 5 k)) (\<lambda>_ k. do {
           k \<leftarrow> ttyoutput (uint c) tp (spl 0 k);
           ttwrite_loop away tp k }) }"

definition ttwrite ::
  "('a ktty_scheme \<Rightarrow> 'a ktty_scheme option) \<Rightarrow> nat \<Rightarrow> 'a ktty_scheme \<Rightarrow> (unit, 'a ktty_scheme) outcome option" where
  "ttwrite away tp k =
     (if \<not> flag (t_state (kl11 k tp)) CARR_ON then ret k
      else andthen (ttwrite_loop away tp k) (\<lambda>_ k. surely (ttstart tp k)))"

text \<open>
  \<open>ttystty\<close>: for \<open>gtty\<close> the three words it stores, for \<open>stty\<close> the settings taken from \<open>u_arg\<close>.
\<close>

definition ttystty_get :: "nat \<Rightarrow> 'a ktty_scheme \<Rightarrow> u16 \<times> u16 \<times> u16" where
  "ttystty_get tp k =
     (let t = kl11 k tp in (t_speeds t, ucast (t_erase t) OR push_bit 8 (ucast (t_kill t)), t_flags t))"

definition ttystty_set ::
  "('a ktty_scheme \<Rightarrow> 'a ktty_scheme option) \<Rightarrow> nat \<Rightarrow> 'a ktty_scheme \<Rightarrow> (unit, 'a ktty_scheme) outcome option" where
  "ttystty_set away tp k =
     andthen (wflushtty away tp k) (\<lambda>_ k.
       let a = u_arg (u k) in
       ret (upd_tty tp (\<lambda>t. t\<lparr>t_speeds := a 0, t_erase := ucast (a 1), t_kill := ucast (drop_bit 8 (a 1)), t_flags := a 2\<rparr>) k))"

subsection \<open>The driver\<close>

definition klopen :: "u16 \<Rightarrow> 'a ktty_scheme \<Rightarrow> 'a ktty_scheme" where
  "klopen dev k =
     (if minor dev \<ge> 1 then set_error ENXIO k
      else
        let tp = unat (minor dev);
            k = (if p_ttyp (curproc k) = None
                 then upd_tty tp (\<lambda>t. t\<lparr>t_dev := dev\<rparr>) (upd_proc (u_procp (u k)) (\<lambda>r. r\<lparr>p_ttyp := Some tp\<rparr>) k) else k);
            k = upd_tty tp (\<lambda>t. t\<lparr>t_addr := True\<rparr>) k
        in if \<not> flag (t_state (kl11 k tp)) ISOPEN
           then upd_tty tp (\<lambda>t. t\<lparr>t_state := ISOPEN OR CARR_ON, t_flags := XTABS OR ECHO OR CRMOD, t_erase := CERASE, t_kill := CKILL\<rparr>) k
           else k)"

definition kl_minor :: "u16 \<Rightarrow> nat option" where
  "kl_minor dev = (if minor dev = 0 then Some 0 else None)"

definition klclose ::
  "('a ktty_scheme \<Rightarrow> 'a ktty_scheme option) \<Rightarrow> u16 \<Rightarrow> 'a ktty_scheme \<Rightarrow> (unit, 'a ktty_scheme) outcome option" where
  "klclose away dev k = do { tp \<leftarrow> kl_minor dev; wflushtty away tp k }"

definition klread ::
  "('a ktty_scheme \<Rightarrow> 'a ktty_scheme option) \<Rightarrow> u16 \<Rightarrow> 'a ktty_scheme \<Rightarrow> (unit, 'a ktty_scheme) outcome option" where
  "klread away dev k = do { tp \<leftarrow> kl_minor dev; ttread away tp k }"

text \<open>\<open>klwrite\<close>: a tab is written as two spaces and a newline after a carriage return.\<close>

definition kl_emit :: "int \<Rightarrow> 'a ktty_scheme \<Rightarrow> 'a ktty_scheme" where
  "kl_emit c k =
     (let (c, k) = (if c = 9 then (32, bios_putc 32 k) else (c, k));
          k = (if c = 10 then bios_putc 13 k else k)
      in bios_putc c k)"

partial_function (option) klwrite :: "u16 \<Rightarrow> 'a ktty_scheme \<Rightarrow> 'a ktty_scheme option" where
  "klwrite dev k = do {
     (c, k) \<leftarrow> cpass k;
     case c of None \<Rightarrow> Some k | Some c \<Rightarrow> klwrite dev (kl_emit (uint c) k) }"

definition klxint :: "u16 \<Rightarrow> 'a ktty_scheme \<Rightarrow> 'a ktty_scheme option" where
  "klxint dev k = do {
     tp \<leftarrow> kl_minor dev;
     k \<leftarrow> ttstart tp k;
     let n = c_cc (t_outq (kl11 k tp));
     Some (if n = 0 \<or> n = TTLOWAT then wakeup (ChOutq tp) k else k) }"

definition kltxintr :: "'a ktty_scheme \<Rightarrow> 'a ktty_scheme option" where
  "kltxintr k = klxint 0 (k\<lparr>tttcsr := setf (tttcsr k) DONE\<rparr>)"

text \<open>\<open>klrint\<close> with the character that \<open>kbd_getc\<close> delivers.\<close>

definition klrint :: "u16 \<Rightarrow> int \<Rightarrow> 'a ktty_scheme \<Rightarrow> 'a ktty_scheme option" where
  "klrint dev c k = do {
     tp \<leftarrow> kl_minor dev;
     if flag (t_state (kl11 k tp)) ISOPEN \<and> 0 < c then ttyinput c tp k else Some k }"

end
