(* ===== verification/Fs.thy ===== *)
theory Fs
  imports Tty
begin

unbundle bit_operations_syntax

text \<open>
  The state of the file system, the file table (\<open>ken/fio.c\<close>) and the free list of blocks
  (\<open>ken/alloc.c\<close>).

  The inode, file and mount tables are maps from indices; a pointer to an element is its index, with
  \<open>None\<close> for a null pointer.  The super block of a mounted volume lies in the data of a buffer, and
  its fields are read and written there at the offsets of \<open>struct filsys\<close>: a pointer to it is the
  address of its first byte.  A panic, an access through a null entry of a device table and a loop
  that does not end are \<open>None\<close>.
\<close>

subsection \<open>State\<close>

abbreviation "NINODE \<equiv> (100 :: nat)"
abbreviation "NFILE \<equiv> (100 :: nat)"
abbreviation "NMOUNT \<equiv> (5 :: nat)"
abbreviation "ROOTINO \<equiv> (1 :: u16)"

abbreviation "ILOCK \<equiv> (1 :: u8)"
abbreviation "IUPD \<equiv> (2 :: u8)"
abbreviation "IACC \<equiv> (4 :: u8)"
abbreviation "IMOUNT \<equiv> (8 :: u8)"
abbreviation "IWANT \<equiv> (16 :: u8)"
abbreviation "ITEXT \<equiv> (32 :: u8)"

abbreviation "IALLOC \<equiv> (0x8000 :: u16)"
abbreviation "IFMT \<equiv> (0x6000 :: u16)"
abbreviation "IFDIR \<equiv> (0x4000 :: u16)"
abbreviation "IFCHR \<equiv> (0x2000 :: u16)"
abbreviation "IFBLK \<equiv> (0x6000 :: u16)"
abbreviation "ILARG \<equiv> (0x1000 :: u16)"
abbreviation "ISUID \<equiv> (0x800 :: u16)"
abbreviation "ISGID \<equiv> (0x400 :: u16)"
abbreviation "ISVTX \<equiv> (0x200 :: u16)"
abbreviation "IREAD \<equiv> (0x100 :: u16)"
abbreviation "IWRITE \<equiv> (0x80 :: u16)"
abbreviation "IEXEC \<equiv> (0x40 :: u16)"

abbreviation "FREAD \<equiv> (1 :: u8)"
abbreviation "FWRITE \<equiv> (2 :: u8)"
abbreviation "FPIPE \<equiv> (4 :: u8)"

record inode =
  i_flag :: u8
  i_count :: u8
  i_dev :: u16
  i_number :: u16
  i_mode :: u16
  i_nlink :: u8
  i_uid :: u8
  i_gid :: u8
  i_size0 :: u8
  i_size1 :: u16
  i_addr :: "nat \<Rightarrow> u16"
  i_lastr :: u16

record file_t =
  f_flag :: u8
  f_count :: u8
  f_inode :: nat
  f_offset :: dword

record mount =
  m_dev :: u16
  m_bufp :: bp
  m_inodp :: "nat option"

record kfs = ktty +
  inode :: "nat \<Rightarrow> inode"
  filetab :: "nat \<Rightarrow> file_t"
  mount :: "nat \<Rightarrow> mount"
  rootdir :: nat
  rootdev :: u16
  updlock :: u16
  execnt :: u16
  nchrdev :: u16

definition upd_inode :: "nat \<Rightarrow> (inode \<Rightarrow> inode) \<Rightarrow> 'a kfs_scheme \<Rightarrow> 'a kfs_scheme" where
  "upd_inode p f k = k\<lparr>inode := (inode k)(p := f (inode k p))\<rparr>"

definition upd_file :: "nat \<Rightarrow> (file_t \<Rightarrow> file_t) \<Rightarrow> 'a kfs_scheme \<Rightarrow> 'a kfs_scheme" where
  "upd_file p f k = k\<lparr>filetab := (filetab k)(p := f (filetab k p))\<rparr>"

definition upd_mount :: "nat \<Rightarrow> (mount \<Rightarrow> mount) \<Rightarrow> 'a kfs_scheme \<Rightarrow> 'a kfs_scheme" where
  "upd_mount p f k = k\<lparr>mount := (mount k)(p := f (mount k p))\<rparr>"

text \<open>\<open>ip->i_flag |= f\<close> and \<open>ip->i_flag &= ~f\<close>\<close>

definition iflag_set :: "nat \<Rightarrow> u8 \<Rightarrow> 'a kfs_scheme \<Rightarrow> 'a kfs_scheme" where
  "iflag_set p f = upd_inode p (\<lambda>i. i\<lparr>i_flag := setf (i_flag i) f\<rparr>)"

definition iflag_clr :: "nat \<Rightarrow> u8 \<Rightarrow> 'a kfs_scheme \<Rightarrow> 'a kfs_scheme" where
  "iflag_clr p f = upd_inode p (\<lambda>i. i\<lparr>i_flag := clrf (i_flag i) f\<rparr>)"

definition set_r0 :: "u16 \<Rightarrow> 'a kproc_scheme \<Rightarrow> 'a kproc_scheme" where
  "set_r0 v = upd_u (\<lambda>w. w\<lparr>u_ar0 := (u_ar0 w)(0 := v)\<rparr>)"

text \<open>Messages on the console.\<close>

definition kprint :: "string option \<Rightarrow> 'a ktty_scheme \<Rightarrow> 'a ktty_scheme option" where
  "kprint s k = do { s \<leftarrow> s; Some (k\<lparr>console := console k @ s\<rparr>) }"

subsection \<open>Words in buffers\<close>

definition bword :: "nat \<Rightarrow> 'a kbio_scheme \<Rightarrow> u16" where
  "bword a k = ucast (buffers k a) OR push_bit 8 (ucast (buffers k (a + 1)))"

definition set_bword :: "nat \<Rightarrow> u16 \<Rightarrow> 'a kbio_scheme \<Rightarrow> 'a kbio_scheme" where
  "set_bword a v k = k\<lparr>buffers := (buffers k)(a := ucast v, a + 1 := ucast (drop_bit 8 v))\<rparr>"

definition set_bbyte :: "nat \<Rightarrow> u8 \<Rightarrow> 'a kbio_scheme \<Rightarrow> 'a kbio_scheme" where
  "set_bbyte a v k = k\<lparr>buffers := (buffers k)(a := v)\<rparr>"

text \<open>\<open>bcopy\<close> between places in buffers.\<close>

definition bcopy :: "nat \<Rightarrow> nat \<Rightarrow> nat \<Rightarrow> 'a kbio_scheme \<Rightarrow> 'a kbio_scheme" where
  "bcopy from to cnt k = fold (\<lambda>i k. set_bword (to + 2 * i) (bword (from + 2 * i) k) k) [0..<cnt] k"

text \<open>The fields of \<open>struct filsys\<close> at address \<open>fp\<close>.\<close>

abbreviation s_isize :: "nat \<Rightarrow> 'a kbio_scheme \<Rightarrow> u16" where "s_isize fp \<equiv> bword fp"
abbreviation s_fsize :: "nat \<Rightarrow> 'a kbio_scheme \<Rightarrow> u16" where "s_fsize fp \<equiv> bword (fp + 2)"
abbreviation s_nfree :: "nat \<Rightarrow> 'a kbio_scheme \<Rightarrow> u16" where "s_nfree fp \<equiv> bword (fp + 4)"
abbreviation s_free :: "nat \<Rightarrow> nat \<Rightarrow> 'a kbio_scheme \<Rightarrow> u16" where "s_free fp i \<equiv> bword (fp + 6 + 2 * i)"
abbreviation s_ninode :: "nat \<Rightarrow> 'a kbio_scheme \<Rightarrow> u16" where "s_ninode fp \<equiv> bword (fp + 206)"
abbreviation s_inode :: "nat \<Rightarrow> nat \<Rightarrow> 'a kbio_scheme \<Rightarrow> u16" where "s_inode fp i \<equiv> bword (fp + 208 + 2 * i)"
abbreviation s_flock :: "nat \<Rightarrow> 'a kbio_scheme \<Rightarrow> u8" where "s_flock fp k \<equiv> buffers k (fp + 408)"
abbreviation s_ilock :: "nat \<Rightarrow> 'a kbio_scheme \<Rightarrow> u8" where "s_ilock fp k \<equiv> buffers k (fp + 409)"
abbreviation s_fmod :: "nat \<Rightarrow> 'a kbio_scheme \<Rightarrow> u8" where "s_fmod fp k \<equiv> buffers k (fp + 410)"
abbreviation s_ronly :: "nat \<Rightarrow> 'a kbio_scheme \<Rightarrow> u8" where "s_ronly fp k \<equiv> buffers k (fp + 411)"

definition set_nfree :: "nat \<Rightarrow> u16 \<Rightarrow> 'a kbio_scheme \<Rightarrow> 'a kbio_scheme" where "set_nfree fp = set_bword (fp + 4)"
definition set_free :: "nat \<Rightarrow> nat \<Rightarrow> u16 \<Rightarrow> 'a kbio_scheme \<Rightarrow> 'a kbio_scheme" where "set_free fp i = set_bword (fp + 6 + 2 * i)"
definition set_ninode :: "nat \<Rightarrow> u16 \<Rightarrow> 'a kbio_scheme \<Rightarrow> 'a kbio_scheme" where "set_ninode fp = set_bword (fp + 206)"
definition set_sinode :: "nat \<Rightarrow> nat \<Rightarrow> u16 \<Rightarrow> 'a kbio_scheme \<Rightarrow> 'a kbio_scheme" where "set_sinode fp i = set_bword (fp + 208 + 2 * i)"
definition set_flock :: "nat \<Rightarrow> u8 \<Rightarrow> 'a kbio_scheme \<Rightarrow> 'a kbio_scheme" where "set_flock fp = set_bbyte (fp + 408)"
definition set_ilock :: "nat \<Rightarrow> u8 \<Rightarrow> 'a kbio_scheme \<Rightarrow> 'a kbio_scheme" where "set_ilock fp = set_bbyte (fp + 409)"
definition set_fmod :: "nat \<Rightarrow> u8 \<Rightarrow> 'a kbio_scheme \<Rightarrow> 'a kbio_scheme" where "set_fmod fp = set_bbyte (fp + 410)"
definition set_ronly :: "nat \<Rightarrow> u8 \<Rightarrow> 'a kbio_scheme \<Rightarrow> 'a kbio_scheme" where "set_ronly fp = set_bbyte (fp + 411)"
definition set_stime :: "nat \<Rightarrow> dword \<Rightarrow> 'a kbio_scheme \<Rightarrow> 'a kbio_scheme" where
  "set_stime fp t k = set_bword (fp + 414) (snd t) (set_bword (fp + 412) (fst t) k)"

subsection \<open>Descriptors and files\<close>

definition getf :: "u16 \<Rightarrow> 'a kproc_scheme \<Rightarrow> nat option \<times> 'a kproc_scheme" where
  "getf f k =
     (if sint f < 0 \<or> sint f \<ge> int NOFILE then (None, set_error EBADF k)
      else (case u_ofile (u k) (nat (sint f)) of
          Some fp \<Rightarrow> (Some fp, k)
        | None \<Rightarrow> (None, set_error EBADF k)))"

definition suser :: "'a kproc_scheme \<Rightarrow> bool \<times> 'a kproc_scheme" where
  "suser k = (if u_uid (u k) = 0 then (True, k) else (False, set_error EPERM k))"

definition ufalloc :: "'a kproc_scheme \<Rightarrow> nat option \<times> 'a kproc_scheme" where
  "ufalloc k =
     (case find (\<lambda>i. u_ofile (u k) i = None) [0..<NOFILE] of
        Some i \<Rightarrow> (Some i, set_r0 (of_nat i) k)
      | None \<Rightarrow> (None, set_error EMFILE k))"

definition falloc :: "'a kfs_scheme \<Rightarrow> (nat option \<times> 'a kfs_scheme) option" where
  "falloc k = (case ufalloc k of
       (None, k) \<Rightarrow> Some (None, k)
     | (Some i, k) \<Rightarrow>
         (case find (\<lambda>fp. f_count (filetab k fp) = 0) [0..<NFILE] of
            Some fp \<Rightarrow>
              let k = upd_u (\<lambda>w. w\<lparr>u_ofile := (u_ofile w)(i := Some fp)\<rparr>) k;
                  k = upd_file fp (\<lambda>f. f\<lparr>f_count := f_count f + 1, f_offset := (0, 0)\<rparr>) k
              in Some (Some fp, k)
          | None \<Rightarrow> do {
              k \<leftarrow> kprint (printk (''no file'' @ [CHR 0x0A]) []) k;
              Some (None, set_error ENFILE k) }))"

subsection \<open>Super blocks\<close>

definition getfs :: "u16 \<Rightarrow> 'a kfs_scheme \<Rightarrow> (nat \<times> 'a kfs_scheme) option" where
  "getfs dev k =
     (case find (\<lambda>p. m_bufp (mount k p) \<noteq> BNull \<and> m_dev (mount k p) = dev) [0..<NMOUNT] of
        None \<Rightarrow> None
      | Some p \<Rightarrow>
          let fp = b_addr (m_bufp (mount k p)) in
          if sint (s_nfree fp k) > 100 \<or> sint (s_ninode fp k) > 100 then do {
            k \<leftarrow> kprint (prdev ''bad count'' dev) k;
            Some (fp, set_ninode fp 0 (set_nfree fp 0 k)) }
          else Some (fp, k))"

definition badblock :: "nat \<Rightarrow> u16 \<Rightarrow> u16 \<Rightarrow> 'a kfs_scheme \<Rightarrow> (bool \<times> 'a kfs_scheme) option" where
  "badblock fp bn dev k =
     (if sint bn < sint (s_isize fp k + 2) \<or> sint bn \<ge> sint (s_fsize fp k) then do {
        k \<leftarrow> kprint (prdev ''bad block'' dev) k;
        Some (True, k) }
      else Some (False, k))"

definition access :: "nat \<Rightarrow> u16 \<Rightarrow> 'a kfs_scheme \<Rightarrow> (bool \<times> 'a kfs_scheme) option" where
  "access ip m k = do {
     (ro, k) \<leftarrow> (if m = IWRITE then do {
         (fp, k) \<leftarrow> getfs (i_dev (inode k ip)) k;
         Some (s_ronly fp k \<noteq> 0, k) }
       else Some (False, k));
     if ro then Some (True, set_error EROFS k)
     else if m = IWRITE \<and> flag (i_flag (inode k ip)) ITEXT then Some (True, set_error ETXTBSY k)
     else if u_uid (u k) = 0 then
       if m = IEXEC \<and> \<not> flag (i_mode (inode k ip)) (IEXEC OR drop_bit 3 IEXEC OR drop_bit 6 IEXEC)
       then Some (True, set_error EACCES k) else Some (False, k)
     else do {
       let m = (if u_uid (u k) \<noteq> i_uid (inode k ip) then
                  if u_gid (u k) \<noteq> i_gid (inode k ip) then drop_bit 3 (drop_bit 3 m) else drop_bit 3 m
                else m);
       if flag (i_mode (inode k ip)) m then Some (False, k) else Some (True, set_error EACCES k) } }"

subsection \<open>Blocks\<close>

text \<open>\<open>while(lock) sleep(&lock, PINOD)\<close> for a lock byte in a buffer.\<close>

partial_function (option) lock_wait ::
  "('a kfs_scheme \<Rightarrow> 'a kfs_scheme option) \<Rightarrow> nat \<Rightarrow> chan \<Rightarrow> 'a kfs_scheme \<Rightarrow> 'a kfs_scheme option" where
  "lock_wait away a c k =
     (if buffers k a = 0 then Some k else do { k \<leftarrow> sleep_neg away c PINOD k; lock_wait away a c k })"

text \<open>The loop of \<open>alloc\<close> that pops block numbers; \<open>None\<close> in the result is the jump to \<open>nospace\<close>.\<close>

partial_function (option) alloc_pop :: "nat \<Rightarrow> u16 \<Rightarrow> 'a kfs_scheme \<Rightarrow> (u16 option \<times> 'a kfs_scheme) option" where
  "alloc_pop fp dev k =
     (if sint (s_nfree fp k) \<le> 0 then Some (None, k)
      else do {
        let k = set_nfree fp (s_nfree fp k - 1) k;
        let bno = s_free fp (unat (s_nfree fp k)) k;
        if bno = 0 then Some (None, k)
        else do {
          (bad, k) \<leftarrow> badblock fp bno dev k;
          if bad then alloc_pop fp dev k else Some (Some bno, k) } })"

text \<open>The list of free blocks that a block of the free list holds replaces the one in core.\<close>

definition alloc_refill ::
  "('a kfs_scheme \<Rightarrow> 'a kfs_scheme option) \<Rightarrow> nat \<Rightarrow> u16 \<Rightarrow> u16 \<Rightarrow> 'a kfs_scheme \<Rightarrow> 'a kfs_scheme option" where
  "alloc_refill away fp dev bno k = do {
     let k = set_flock fp (s_flock fp k + 1) k;
     (p, k) \<leftarrow> bread away dev bno k;
     let k = set_nfree fp (bword (b_addr p) k) k;
     let k = bcopy (b_addr p + 2) (fp + 6) 100 k;
     let k = brelse p k;
     Some (wakeup (ChFlock fp) (set_flock fp 0 k)) }"

definition alloc ::
  "('a kfs_scheme \<Rightarrow> 'a kfs_scheme option) \<Rightarrow> u16 \<Rightarrow> 'a kfs_scheme \<Rightarrow> (bp option \<times> 'a kfs_scheme) option" where
  "alloc away dev k = do {
     (fp, k) \<leftarrow> getfs dev k;
     k \<leftarrow> lock_wait away (fp + 408) (ChFlock fp) k;
     (r, k) \<leftarrow> alloc_pop fp dev k;
     case r of
       None \<Rightarrow> do {
         k \<leftarrow> kprint (prdev ''no space'' dev) (set_nfree fp 0 k);
         Some (None, set_error ENOSPC k) }
     | Some bno \<Rightarrow> do {
         k \<leftarrow> (if sint (s_nfree fp k) \<le> 0 then alloc_refill away fp dev bno k else Some k);
         (p, k) \<leftarrow> getblk away dev bno k;
         Some (Some p, set_fmod fp 1 (clrbuf p k)) } }"

text \<open>The full list in core is written to the block that is freed.\<close>

definition free_spill ::
  "('a kfs_scheme \<Rightarrow> 'a kfs_scheme option) \<Rightarrow> nat \<Rightarrow> u16 \<Rightarrow> u16 \<Rightarrow> 'a kfs_scheme \<Rightarrow> 'a kfs_scheme option" where
  "free_spill away fp dev bno k = do {
     let k = set_flock fp (s_flock fp k + 1) k;
     (p, k) \<leftarrow> getblk away dev bno k;
     let k = set_bword (b_addr p) (s_nfree fp k) k;
     let k = bcopy (fp + 6) (b_addr p + 2) 100 k;
     k \<leftarrow> bwrite away p (set_nfree fp 0 k);
     Some (wakeup (ChFlock fp) (set_flock fp 0 k)) }"

definition free ::
  "('a kfs_scheme \<Rightarrow> 'a kfs_scheme option) \<Rightarrow> u16 \<Rightarrow> u16 \<Rightarrow> 'a kfs_scheme \<Rightarrow> 'a kfs_scheme option" where
  "free away dev bno k = do {
     (fp, k) \<leftarrow> getfs dev k;
     k \<leftarrow> lock_wait away (fp + 408) (ChFlock fp) (set_fmod fp 1 k);
     (bad, k) \<leftarrow> badblock fp bno dev k;
     if bad then Some k
     else do {
       let k = (if sint (s_nfree fp k) \<le> 0 then set_free fp 0 0 (set_nfree fp 1 k) else k);
       k \<leftarrow> (if sint (s_nfree fp k) \<ge> 100 then free_spill away fp dev bno k else Some k);
       let n = s_nfree fp k;
       let k = set_nfree fp (n + 1) (set_free fp (unat n) bno k);
       Some (set_fmod fp 1 k) } }"

definition ifree :: "u16 \<Rightarrow> u16 \<Rightarrow> 'a kfs_scheme \<Rightarrow> 'a kfs_scheme option" where
  "ifree dev ino k = do {
     (fp, k) \<leftarrow> getfs dev k;
     if s_ilock fp k \<noteq> 0 then Some k
     else if sint (s_ninode fp k) \<ge> 100 then Some k
     else do {
       let n = s_ninode fp k;
       let k = set_ninode fp (n + 1) (set_sinode fp (unat n) ino k);
       Some (set_fmod fp 1 k) } }"

end
