(* ===== verification/Inode.thy ===== *)
theory Inode
  imports Fs
begin

unbundle bit_operations_syntax

text \<open>
  \<open>ken/iget.c\<close>, the rest of \<open>ken/alloc.c\<close>, \<open>prele\<close> and \<open>plock\<close> of \<open>ken/pipe.c\<close>, and
  \<open>bmap\<close> of \<open>ken/subr.c\<close>: inodes in core and on the volume, and the blocks of a file.

  Words of an inode on the volume: mode, link count and owner, group and high byte of the size, low
  word of the size, eight block addresses, and the times of access and modification.
\<close>

subsection \<open>Locks\<close>

definition prele :: "nat \<Rightarrow> 'a kfs_scheme \<Rightarrow> 'a kfs_scheme" where
  "prele p k =
     (let k = iflag_clr p ILOCK k in
      if flag (i_flag (inode k p)) IWANT then wakeup (ChInode p) (iflag_clr p IWANT k) else k)"

partial_function (option) plock ::
  "('a kfs_scheme \<Rightarrow> 'a kfs_scheme option) \<Rightarrow> nat \<Rightarrow> 'a kfs_scheme \<Rightarrow> (unit, 'a kfs_scheme) outcome option" where
  "plock away p k =
     (if flag (i_flag (inode k p)) ILOCK then do {
        w \<leftarrow> sleep away (ChInode p) PPIPE (iflag_set p IWANT k);
        case w of Qsav k \<Rightarrow> Some (Intr k) | Woken k \<Rightarrow> plock away p k }
      else ret (iflag_set p ILOCK k))"

subsection \<open>Inodes on the volume\<close>

text \<open>The block of an inode and the address of its first word in the buffer of that block.\<close>

definition itod :: "u16 \<Rightarrow> u16 option" where "itod ino = ldiv (ino + 31) 16"

definition itoo :: "u16 \<Rightarrow> nat \<Rightarrow> nat option" where
  "itoo ino b = do { r \<leftarrow> lrem (ino + 31) 16; Some (nat (int b + 32 * sint r)) }"

definition byte0 :: "u16 \<Rightarrow> u8" where "byte0 w = ucast w"
definition byte1 :: "u16 \<Rightarrow> u8" where "byte1 w = ucast (drop_bit 8 w)"
definition bytes2 :: "u8 \<Rightarrow> u8 \<Rightarrow> u16" where "bytes2 l h = ucast l OR push_bit 8 (ucast h)"

text \<open>\<open>while(ip2 < &p->i_addr[8]) *ip2++ = *ip1++\<close>, and the copy in the other direction.\<close>

definition inode_read :: "nat \<Rightarrow> 'a kbio_scheme \<Rightarrow> inode \<Rightarrow> inode" where
  "inode_read a k i =
     i\<lparr>i_mode := bword a k, i_nlink := byte0 (bword (a + 2) k), i_uid := byte1 (bword (a + 2) k),
       i_gid := byte0 (bword (a + 4) k), i_size0 := byte1 (bword (a + 4) k), i_size1 := bword (a + 6) k,
       i_addr := (\<lambda>j. if j < 8 then bword (a + 8 + 2 * j) k else i_addr i j)\<rparr>"

definition inode_words :: "inode \<Rightarrow> u16 list" where
  "inode_words i =
     [i_mode i, bytes2 (i_nlink i) (i_uid i), bytes2 (i_gid i) (i_size0 i), i_size1 i] @ map (i_addr i) [0..<8]"

definition put_words :: "nat \<Rightarrow> u16 list \<Rightarrow> 'a kbio_scheme \<Rightarrow> 'a kbio_scheme" where
  "put_words a ws k = fold (\<lambda>(j, w) k. set_bword (a + 2 * j) w k) (enumerate 0 ws) k"

text \<open>\<open>iupdat(p, tm)\<close>; \<open>tm\<close> is the address of a time, read when it is needed.\<close>

definition iupdat ::
  "('a kfs_scheme \<Rightarrow> 'a kfs_scheme option) \<Rightarrow> nat \<Rightarrow> ('a kfs_scheme \<Rightarrow> dword) \<Rightarrow> 'a kfs_scheme \<Rightarrow> 'a kfs_scheme option" where
  "iupdat away p tm k =
     (if flag (i_flag (inode k p)) (IUPD OR IACC) then do {
        (fp, k) \<leftarrow> getfs (i_dev (inode k p)) k;
        if s_ronly fp k \<noteq> 0 then Some k
        else do {
          let ino = i_number (inode k p);
          blk \<leftarrow> itod ino;
          (b, k) \<leftarrow> bread away (i_dev (inode k p)) blk k;
          a \<leftarrow> itoo ino (b_addr b);
          let k = put_words a (inode_words (inode k p)) k;
          let k = (if flag (i_flag (inode k p)) IACC then put_words (a + 24) [fst (time k), snd (time k)] k else k);
          let k = (if flag (i_flag (inode k p)) IUPD then put_words (a + 28) [fst (tm k), snd (tm k)] k else k);
          bwrite away b k } }
      else Some k)"

subsection \<open>Truncation\<close>

text \<open>The words of an indirect block from the last to the first; the code starts one word too high.\<close>

definition down_words :: "nat list" where
  "down_words = map (\<lambda>i. 2 * (256 - i)) [0..<257]"

definition itrunc_double ::
  "('a kfs_scheme \<Rightarrow> 'a kfs_scheme option) \<Rightarrow> u16 \<Rightarrow> u16 \<Rightarrow> 'a kfs_scheme \<Rightarrow> 'a kfs_scheme option" where
  "itrunc_double away dev blk k = do {
     (d, k) \<leftarrow> bread away dev blk k;
     k \<leftarrow> each (\<lambda>o1 k. if bword (b_addr d + o1) k \<noteq> 0 then free away dev (bword (b_addr d + o1) k) k else Some k) down_words k;
     Some (brelse d k) }"

definition itrunc_indirect ::
  "('a kfs_scheme \<Rightarrow> 'a kfs_scheme option) \<Rightarrow> u16 \<Rightarrow> bool \<Rightarrow> u16 \<Rightarrow> 'a kfs_scheme \<Rightarrow> 'a kfs_scheme option" where
  "itrunc_indirect away dev dbl blk k = do {
     (b, k) \<leftarrow> bread away dev blk k;
     k \<leftarrow> each (\<lambda>o1 k.
         if bword (b_addr b + o1) k \<noteq> 0 then do {
           k \<leftarrow> (if dbl then itrunc_double away dev (bword (b_addr b + o1) k) k else Some k);
           free away dev (bword (b_addr b + o1) k) k }
         else Some k) down_words k;
     Some (brelse b k) }"

definition itrunc :: "('a kfs_scheme \<Rightarrow> 'a kfs_scheme option) \<Rightarrow> nat \<Rightarrow> 'a kfs_scheme \<Rightarrow> 'a kfs_scheme option" where
  "itrunc away p k =
     (if flag (i_mode (inode k p)) (IFCHR AND IFBLK) then Some k
      else do {
        k \<leftarrow> each (\<lambda>i k.
            if i_addr (inode k p) i \<noteq> 0 then do {
              k \<leftarrow> (if flag (i_mode (inode k p)) ILARG
                    then itrunc_indirect away (i_dev (inode k p)) (i = 7) (i_addr (inode k p) i) k else Some k);
              k \<leftarrow> free away (i_dev (inode k p)) (i_addr (inode k p) i) k;
              Some (upd_inode p (\<lambda>n. n\<lparr>i_addr := (i_addr n)(i := 0)\<rparr>) k) }
            else Some k) [7, 6, 5, 4, 3, 2, 1, 0] k;
        Some (upd_inode p (\<lambda>n. n\<lparr>i_mode := clrf (i_mode n) ILARG, i_size0 := 0, i_size1 := 0,
          i_flag := setf (i_flag n) IUPD\<rparr>) k) })"

subsection \<open>Inodes in core\<close>

definition iput :: "('a kfs_scheme \<Rightarrow> 'a kfs_scheme option) \<Rightarrow> nat \<Rightarrow> 'a kfs_scheme \<Rightarrow> 'a kfs_scheme option" where
  "iput away p k = do {
     k \<leftarrow> (if i_count (inode k p) = 1 then do {
         let k = iflag_set p ILOCK k;
         k \<leftarrow> (if sint (i_nlink (inode k p)) \<le> 0 then do {
             k \<leftarrow> itrunc away p k;
             let k = upd_inode p (\<lambda>i. i\<lparr>i_mode := 0\<rparr>) k;
             ifree (i_dev (inode k p)) (i_number (inode k p)) k }
           else Some k);
         k \<leftarrow> iupdat away p time k;
         let k = prele p k;
         Some (upd_inode p (\<lambda>i. i\<lparr>i_flag := 0, i_number := 0\<rparr>) k) }
       else Some k);
     Some (prele p (upd_inode p (\<lambda>i. i\<lparr>i_count := i_count i - 1\<rparr>) k)) }"

text \<open>The slot of an inode that is in core, a free slot, and the volume mounted on an inode.\<close>

definition ifind :: "u16 \<Rightarrow> u16 \<Rightarrow> 'a kfs_scheme \<Rightarrow> nat option" where
  "ifind dev ino k = find (\<lambda>p. i_dev (inode k p) = dev \<and> i_number (inode k p) = ino) [0..<NINODE]"

definition ifree_slot :: "'a kfs_scheme \<Rightarrow> nat option" where
  "ifree_slot k = find (\<lambda>p. i_count (inode k p) = 0) [0..<NINODE]"

definition mounted_on :: "nat \<Rightarrow> 'a kfs_scheme \<Rightarrow> nat option" where
  "mounted_on p k = find (\<lambda>m. m_inodp (mount k m) = Some p) [0..<NMOUNT]"

definition iget_read ::
  "('a kfs_scheme \<Rightarrow> 'a kfs_scheme option) \<Rightarrow> u16 \<Rightarrow> u16 \<Rightarrow> nat \<Rightarrow> 'a kfs_scheme \<Rightarrow> (nat option \<times> 'a kfs_scheme) option" where
  "iget_read away dev ino p k = do {
     let k = upd_inode p (\<lambda>i. i\<lparr>i_dev := dev, i_number := ino, i_flag := ILOCK, i_count := i_count i + 1, i_lastr := -1\<rparr>) k;
     blk \<leftarrow> itod ino;
     (b, k) \<leftarrow> bread away dev blk k;
     if flag (b_flags k b) B_ERROR then do {
       k \<leftarrow> iput away p (brelse b k);
       Some (None, k) }
     else do {
       a \<leftarrow> itoo ino (b_addr b);
       let k = upd_inode p (inode_read a k) k;
       Some (Some p, brelse b k) } }"

partial_function (option) iget ::
  "('a kfs_scheme \<Rightarrow> 'a kfs_scheme option) \<Rightarrow> u16 \<Rightarrow> u16 \<Rightarrow> 'a kfs_scheme \<Rightarrow> (nat option \<times> 'a kfs_scheme) option" where
  "iget away dev ino k =
     (case ifind dev ino k of
        Some p \<Rightarrow>
          if flag (i_flag (inode k p)) ILOCK then do {
            k \<leftarrow> sleep_neg away (ChInode p) PINOD (iflag_set p IWANT k);
            iget away dev ino k }
          else if flag (i_flag (inode k p)) IMOUNT then
            (case mounted_on p k of None \<Rightarrow> None | Some m \<Rightarrow> iget away (m_dev (mount k m)) ROOTINO k)
          else Some (Some p, iflag_set p ILOCK (upd_inode p (\<lambda>i. i\<lparr>i_count := i_count i + 1\<rparr>) k))
      | None \<Rightarrow>
          (case ifree_slot k of
             None \<Rightarrow> do {
               k \<leftarrow> kprint (printk (''Inode table overflow'' @ [CHR 0x0A]) []) k;
               Some (None, set_error ENFILE k) }
           | Some p \<Rightarrow> iget_read away dev ino p k))"

subsection \<open>Allocation of inodes\<close>

text \<open>The inner loop of \<open>ialloc\<close> over the sixteen inodes of a block; the result is the number of the
  last inode looked at and whether the list in the super block is full.\<close>

fun ialloc_block :: "nat \<Rightarrow> u16 \<Rightarrow> nat \<Rightarrow> nat list \<Rightarrow> u16 \<Rightarrow> 'a kfs_scheme \<Rightarrow> u16 \<times> 'a kfs_scheme" where
  "ialloc_block fp dev b [] ino k = (ino, k)"
| "ialloc_block fp dev b (j # js) ino k =
     (let ino = ino + 1 in
      if bword (b + 32 * j) k \<noteq> 0 then ialloc_block fp dev b js ino k
      else if ifind dev ino k \<noteq> None then ialloc_block fp dev b js ino k
      else
        let n = s_ninode fp k;
            k = set_ninode fp (n + 1) (set_sinode fp (unat n) ino k)
        in if sint (s_ninode fp k) \<ge> 100 then (ino, k) else ialloc_block fp dev b js ino k)"

partial_function (option) ialloc_scan ::
  "('a kfs_scheme \<Rightarrow> 'a kfs_scheme option) \<Rightarrow> nat \<Rightarrow> u16 \<Rightarrow> u16 \<Rightarrow> u16 \<Rightarrow> 'a kfs_scheme \<Rightarrow> 'a kfs_scheme option" where
  "ialloc_scan away fp dev i ino k =
     (if sint i < sint (s_isize fp k) then do {
        (b, k) \<leftarrow> bread away dev (i + 2) k;
        let (ino, k) = ialloc_block fp dev (b_addr b) [0..<16] ino k;
        let k = brelse b k;
        if sint (s_ninode fp k) \<ge> 100 then Some k else ialloc_scan away fp dev (i + 1) ino k }
      else Some k)"

partial_function (option) ialloc_loop ::
  "('a kfs_scheme \<Rightarrow> 'a kfs_scheme option) \<Rightarrow> nat \<Rightarrow> u16 \<Rightarrow> 'a kfs_scheme \<Rightarrow> (nat option \<times> 'a kfs_scheme) option" where
  "ialloc_loop away fp dev k =
     (if sint (s_ninode fp k) > 0 then do {
        let k = set_ninode fp (s_ninode fp k - 1) k;
        let ino = s_inode fp (unat (s_ninode fp k)) k;
        (r, k) \<leftarrow> iget away dev ino k;
        case r of
          None \<Rightarrow> Some (None, k)
        | Some p \<Rightarrow>
            if i_mode (inode k p) = 0 then
              let k = upd_inode p (\<lambda>i. i\<lparr>i_mode := 0, i_nlink := 0, i_uid := 0, i_gid := 0, i_size0 := 0, i_size1 := 0,
                                       i_addr := (\<lambda>j. if j < 8 then 0 else i_addr i j)\<rparr>) k
              in Some (Some p, set_fmod fp 1 k)
            else do { k \<leftarrow> iput away p k; ialloc_loop away fp dev k } }
      else do {
        let k = set_ilock fp (s_ilock fp k + 1) k;
        k \<leftarrow> ialloc_scan away fp dev 0 0 k;
        let k = wakeup (ChIlock fp) (set_ilock fp 0 k);
        if sint (s_ninode fp k) > 0 then ialloc_loop away fp dev k
        else do {
          k \<leftarrow> kprint (prdev ''Out of inodes'' dev) k;
          Some (None, set_error ENOSPC k) } })"

definition ialloc ::
  "('a kfs_scheme \<Rightarrow> 'a kfs_scheme option) \<Rightarrow> u16 \<Rightarrow> 'a kfs_scheme \<Rightarrow> (nat option \<times> 'a kfs_scheme) option" where
  "ialloc away dev k = do {
     (fp, k) \<leftarrow> getfs dev k;
     k \<leftarrow> lock_wait away (fp + 409) (ChIlock fp) k;
     ialloc_loop away fp dev k }"

subsection \<open>Start and synchronisation\<close>

text \<open>\<open>getblk(NODEV, 0)\<close> obtains a buffer without a device.\<close>

definition iinit :: "('a kfs_scheme \<Rightarrow> 'a kfs_scheme option) \<Rightarrow> 'a kfs_scheme \<Rightarrow> 'a kfs_scheme option" where
  "iinit away k =
     (if major (rootdev k) \<noteq> 0 then None
      else do {
        (b, k) \<leftarrow> bread away (rootdev k) 1 k;
        (c, k) \<leftarrow> getblk away NODEV 0 k;
        if u_error (u k) \<noteq> 0 then None
        else do {
          let k = brelse b (bcopy (b_addr b) (b_addr c) 256 k);
          let k = upd_mount 0 (\<lambda>m. m\<lparr>m_bufp := c, m_dev := rootdev k\<rparr>) k;
          let fp = b_addr c;
          let k = set_ronly fp 0 (set_ilock fp 0 (set_flock fp 0 k));
          Some (k\<lparr>time := (bword (fp + 412) k, bword (fp + 414) k)\<rparr>) } })"

definition update_super :: "('a kfs_scheme \<Rightarrow> 'a kfs_scheme option) \<Rightarrow> nat \<Rightarrow> 'a kfs_scheme \<Rightarrow> 'a kfs_scheme option" where
  "update_super away m k =
     (if m_bufp (mount k m) = BNull then Some k
      else
        let fp = b_addr (m_bufp (mount k m)) in
        if s_fmod fp k = 0 \<or> s_ilock fp k \<noteq> 0 \<or> s_flock fp k \<noteq> 0 \<or> s_ronly fp k \<noteq> 0 then Some k
        else do {
          (b, k) \<leftarrow> getblk away (m_dev (mount k m)) 1 k;
          let k = set_stime fp (time k) (set_fmod fp 0 k);
          bwrite away b (bcopy fp (b_addr b) 256 k) })"

definition update_inode :: "('a kfs_scheme \<Rightarrow> 'a kfs_scheme option) \<Rightarrow> nat \<Rightarrow> 'a kfs_scheme \<Rightarrow> 'a kfs_scheme option" where
  "update_inode away p k =
     (if flag (i_flag (inode k p)) ILOCK then Some k
      else do {
        let k = iflag_set p ILOCK k;
        k \<leftarrow> iupdat away p time k;
        Some (prele p k) })"

definition update :: "('a kfs_scheme \<Rightarrow> 'a kfs_scheme option) \<Rightarrow> 'a kfs_scheme \<Rightarrow> 'a kfs_scheme option" where
  "update away k =
     (if updlock k \<noteq> 0 then Some k
      else do {
        let k = k\<lparr>updlock := updlock k + 1\<rparr>;
        k \<leftarrow> each (update_super away) [0..<NMOUNT] k;
        k \<leftarrow> each (update_inode away) [0..<NINODE] k;
        bflush away NODEV (k\<lparr>updlock := 0\<rparr>) })"

end
