(* ===== verification/Rdwri.thy ===== *)
theory Rdwri
  imports Inode
begin

unbundle bit_operations_syntax

text \<open>
  \<open>bmap\<close> of \<open>ken/subr.c\<close>, \<open>ken/rdwri.c\<close>, \<open>dmr/mem.c\<close> and the device switch of
  \<open>ken/main.c\<close>: reading and writing files.
\<close>

subsection \<open>From logical to physical blocks\<close>

text \<open>The indirect block that holds the address of block \<open>bn\<close>, in the first of its levels: the index
  in \<open>i_addr\<close> and, for the last one, the index in the double indirect block.\<close>

definition large_index :: "u16 \<Rightarrow> nat" where
  "large_index bn = (if flag bn 0xF800 then 7 else unat (drop_bit 8 bn))"

definition huge_index :: "u16 \<Rightarrow> int" where
  "huge_index bn = int (unat (drop_bit 8 bn AND 0xFF)) - 7"

text \<open>\<open>bap[i]\<close>\<close>

definition bap_addr :: "bp \<Rightarrow> int \<Rightarrow> nat" where
  "bap_addr p i = nat (int (b_addr p) + 2 * i)"

text \<open>The last step: the address in the indirect block \<open>p\<close>.\<close>

definition bmap_last ::
  "('a kfs_scheme \<Rightarrow> 'a kfs_scheme option) \<Rightarrow> u16 \<Rightarrow> u16 \<Rightarrow> bp \<Rightarrow> 'a kfs_scheme \<Rightarrow> (u16 \<times> 'a kfs_scheme) option" where
  "bmap_last away d bn p k = do {
     let i = unat (bn AND 0xFF);
     let nb = bword (b_addr p + 2 * i) k;
     (nb, k) \<leftarrow> (if nb = 0 then do {
         (r, k) \<leftarrow> alloc away d k;
         case r of
           None \<Rightarrow> Some (0, brelse p k)
         | Some q \<Rightarrow>
             let nb = b_blkno k q;
                 k = set_bword (b_addr p + 2 * i) nb k
             in Some (nb, bdwrite p (bdwrite q k)) }
       else Some (nb, brelse p k));
     Some (nb, k\<lparr>rablock := (if i < 255 then bword (b_addr p + 2 * (i + 1)) k else 0)\<rparr>) }"

text \<open>The double indirect step: the buffer of the indirect block whose address is in \<open>p\<close>.\<close>

definition bmap_huge ::
  "('a kfs_scheme \<Rightarrow> 'a kfs_scheme option) \<Rightarrow> u16 \<Rightarrow> u16 \<Rightarrow> bp \<Rightarrow> 'a kfs_scheme \<Rightarrow> (bp option \<times> 'a kfs_scheme) option" where
  "bmap_huge away d bn p k = do {
     let a = bap_addr p (huge_index bn);
     let nb = bword a k;
     if nb = 0 then do {
       (r, k) \<leftarrow> alloc away d k;
       case r of
         None \<Rightarrow> Some (None, brelse p k)
       | Some q \<Rightarrow> Some (Some q, bdwrite p (set_bword a (b_blkno k q) k)) }
     else do {
       (q, k) \<leftarrow> bread away d nb (brelse p k);
       Some (Some q, k) } }"

definition bmap_large ::
  "('a kfs_scheme \<Rightarrow> 'a kfs_scheme option) \<Rightarrow> nat \<Rightarrow> u16 \<Rightarrow> u16 \<Rightarrow> 'a kfs_scheme \<Rightarrow> (u16 \<times> 'a kfs_scheme) option" where
  "bmap_large away ip d bn k = do {
     let i = large_index bn;
     let nb = i_addr (inode k ip) i;
     (r, k) \<leftarrow> (if nb = 0 then do {
         (r, k) \<leftarrow> alloc away d (iflag_set ip IUPD k);
         case r of
           None \<Rightarrow> Some (None, k)
         | Some p \<Rightarrow> Some (Some p, upd_inode ip (\<lambda>n. n\<lparr>i_addr := (i_addr n)(i := b_blkno k p)\<rparr>) k) }
       else do { (p, k) \<leftarrow> bread away d nb k; Some (Some p, k) });
     case r of
       None \<Rightarrow> Some (0, k)
     | Some p \<Rightarrow> do {
         (r, k) \<leftarrow> (if i = 7 then bmap_huge away d bn p k else Some (Some p, k));
         case r of None \<Rightarrow> Some (0, k) | Some p \<Rightarrow> bmap_last away d bn p k } }"

definition bmap ::
  "('a kfs_scheme \<Rightarrow> 'a kfs_scheme option) \<Rightarrow> nat \<Rightarrow> u16 \<Rightarrow> 'a kfs_scheme \<Rightarrow> (u16 \<times> 'a kfs_scheme) option" where
  "bmap away ip bn k =
     (let d = i_dev (inode k ip) in
      if flag bn 0x8000 then Some (0, set_error EFBIG k)
      else if flag (i_mode (inode k ip)) ILARG then bmap_large away ip d bn k
      else if flag bn (NOT 7) then do {
        (r, k) \<leftarrow> alloc away d k;
        case r of
          None \<Rightarrow> Some (0, k)
        | Some p \<Rightarrow> do {
            let k = put_words (b_addr p) (map (i_addr (inode k ip)) [0..<8]) k;
            let k = upd_inode ip (\<lambda>n. n\<lparr>i_addr := (\<lambda>j. if j < 8 then 0 else i_addr n j)(0 := b_blkno k p)\<rparr>) k;
            let k = upd_inode ip (\<lambda>n. n\<lparr>i_mode := setf (i_mode n) ILARG\<rparr>) (bdwrite p k);
            bmap_large away ip d bn k } }
      else do {
        let j = unat bn;
        (nb, k) \<leftarrow> (if i_addr (inode k ip) j = 0 then do {
            (r, k) \<leftarrow> alloc away d k;
            case r of
              None \<Rightarrow> Some (0, k)
            | Some p \<Rightarrow>
                let k = bdwrite p k;
                    nb = b_blkno k p
                in Some (nb, iflag_set ip IUPD (upd_inode ip (\<lambda>n. n\<lparr>i_addr := (i_addr n)(j := nb)\<rparr>) k)) }
          else Some (i_addr (inode k ip) j, k));
        Some (nb, k\<lparr>rablock := (if j < 7 then i_addr (inode k ip) (j + 1) else 0)\<rparr>) })"

subsection \<open>Moving bytes\<close>

text \<open>
  \<open>while(n--)\<close> of \<open>iomove\<close>, downwards from the unsigned value of \<open>n\<close>; the pointer \<open>cp\<close> may leave
  the buffer and then reaches the next ones, up to the end of the array.
\<close>

fun iomove_out :: "nat \<Rightarrow> nat \<Rightarrow> 'a kbio_scheme \<Rightarrow> 'a kbio_scheme option" where
  "iomove_out 0 cp k = Some k"
| "iomove_out (Suc n) cp k =
     (if cp < 514 * NBUF then do {
        (more, k) \<leftarrow> passc (buffers k cp) k;
        if more then iomove_out n (cp + 1) k else Some k }
      else None)"

fun iomove_in :: "nat \<Rightarrow> nat \<Rightarrow> 'a kbio_scheme \<Rightarrow> 'a kbio_scheme option" where
  "iomove_in 0 cp k = Some k"
| "iomove_in (Suc n) cp k = do {
     (c, k) \<leftarrow> cpass k;
     case c of
       None \<Rightarrow> Some k
     | Some c \<Rightarrow> if cp < 514 * NBUF then iomove_in n (cp + 1) (set_bbyte cp c k) else None }"

definition iomove :: "bp \<Rightarrow> u16 \<Rightarrow> u16 \<Rightarrow> bool \<Rightarrow> 'a kbio_scheme \<Rightarrow> 'a kbio_scheme option" where
  "iomove p on n wr k =
     (let cp = b_addr p + unat on in if wr then iomove_in (unat n) cp k else iomove_out (unat n) cp k)"

text \<open>\<open>min(a, b)\<close> of \<open>h/pc.h\<close> on two \<open>int\<close>s.\<close>

definition imin :: "u16 \<Rightarrow> u16 \<Rightarrow> u16" where
  "imin a b = (if sint a < sint b then a else b)"

subsection \<open>Character devices\<close>

text \<open>
  \<open>mmread\<close> and \<open>mmwrite\<close>: physical memory is minor device 0 and the bit bucket is 2; the bytes of
  the kernel's own variables, minor device 1, are not represented.
\<close>

definition mm_addr :: "'a kproc_scheme \<Rightarrow> nat" where
  "mm_addr k = linear (lshift (u_offset (u k)) (-4)) (snd (u_offset (u k)) AND 0xF)"

partial_function (option) mmread_loop :: "'a kproc_scheme \<Rightarrow> 'a kproc_scheme option" where
  "mmread_loop k =
     (if u_error (u k) = 0 then do {
        (more, k) \<leftarrow> passc (mem k (mm_addr k)) k;
        if more then mmread_loop k else Some k }
      else Some k)"

definition mmread :: "u16 \<Rightarrow> 'a kproc_scheme \<Rightarrow> 'a kproc_scheme option" where
  "mmread dev k = (if minor dev = 2 then Some k else if minor dev = 1 then None else mmread_loop k)"

partial_function (option) mmwrite_loop :: "'a kproc_scheme \<Rightarrow> 'a kproc_scheme option" where
  "mmwrite_loop k = do {
     (c, k) \<leftarrow> cpass k;
     case c of
       None \<Rightarrow> Some k
     | Some c \<Rightarrow> if u_error (u k) \<noteq> 0 then Some k else mmwrite_loop (k\<lparr>mem := (mem k)(mm_addr k := c)\<rparr>) }"

definition mmwrite :: "u16 \<Rightarrow> 'a kproc_scheme \<Rightarrow> 'a kproc_scheme option" where
  "mmwrite dev k =
     (if minor dev = 2 then
        Some (upd_u (\<lambda>w. w\<lparr>u_count := 0, u_base := base_add (u_base w) (u_count w),
          u_offset := dpadd (u_offset w) (u_count w)\<rparr>) k)
      else if minor dev = 1 then None else mmwrite_loop k)"

text \<open>\<open>cdevsw\<close>: the terminal is major device 0 and memory 1; the other entries are null or outside.\<close>

definition cdev_open :: "u16 \<Rightarrow> 'a ktty_scheme \<Rightarrow> 'a ktty_scheme option" where
  "cdev_open dev k = (if major dev = 0 then Some (klopen dev k) else if major dev = 1 then Some k else None)"

definition cdev_close ::
  "('a ktty_scheme \<Rightarrow> 'a ktty_scheme option) \<Rightarrow> u16 \<Rightarrow> 'a ktty_scheme \<Rightarrow> (unit, 'a ktty_scheme) outcome option" where
  "cdev_close away dev k = (if major dev = 0 then klclose away dev k else if major dev = 1 then ret k else None)"

definition cdev_read ::
  "('a ktty_scheme \<Rightarrow> 'a ktty_scheme option) \<Rightarrow> u16 \<Rightarrow> 'a ktty_scheme \<Rightarrow> (unit, 'a ktty_scheme) outcome option" where
  "cdev_read away dev k =
     (if major dev = 0 then klread away dev k else if major dev = 1 then surely (mmread dev k) else None)"

definition cdev_write :: "u16 \<Rightarrow> 'a ktty_scheme \<Rightarrow> (unit, 'a ktty_scheme) outcome option" where
  "cdev_write dev k =
     (if major dev = 0 then surely (klwrite dev k) else if major dev = 1 then surely (mmwrite dev k) else None)"

text \<open>\<open>bdevsw[major(dev)].d_open\<close> and \<open>d_close\<close> are \<open>nulldev\<close> for the disk.\<close>

definition bdev_null :: "u16 \<Rightarrow> 'k \<Rightarrow> 'k option" where
  "bdev_null dev k = (if major dev = 0 then Some k else None)"

subsection \<open>Reading and writing\<close>

definition filetype :: "nat \<Rightarrow> 'a kfs_scheme \<Rightarrow> u16" where
  "filetype ip k = i_mode (inode k ip) AND IFMT"

text \<open>\<open>dpcmp(ip->i_size0&0377, ip->i_size1, u.u_offset[0], u.u_offset[1])\<close>\<close>

definition size_left :: "nat \<Rightarrow> 'a kfs_scheme \<Rightarrow> u16" where
  "size_left ip k =
     dpcmp (ucast (i_size0 (inode k ip))) (i_size1 (inode k ip)) (fst (u_offset (u k))) (snd (u_offset (u k)))"

text \<open>The block of one turn of \<open>readi\<close>: device, block and count; \<open>None\<close> is the early return.\<close>

definition read_where ::
  "('a kfs_scheme \<Rightarrow> 'a kfs_scheme option) \<Rightarrow> nat \<Rightarrow> 'a kfs_scheme \<Rightarrow> ((u16 \<times> u16 \<times> u16) option \<times> 'a kfs_scheme) option" where
  "read_where away ip k =
     (let lbn = lshift (u_offset (u k)) (-9);
          on = snd (u_offset (u k)) AND 0x1FF;
          n = imin (512 - on) (u_count (u k)) in
      if filetype ip k \<noteq> IFBLK then
        let dn = size_left ip k in
        if sint dn \<le> 0 then Some (None, k)
        else do {
          let n = imin n dn;
          (bn, k) \<leftarrow> bmap away ip lbn k;
          if bn = 0 then Some (None, k) else Some (Some (i_dev (inode k ip), bn, n), k) }
      else Some (Some (i_addr (inode k ip) 0, lbn, n), k\<lparr>rablock := lbn + 1\<rparr>))"

partial_function (option) readi_loop ::
  "('a kfs_scheme \<Rightarrow> 'a kfs_scheme option) \<Rightarrow> nat \<Rightarrow> 'a kfs_scheme \<Rightarrow> 'a kfs_scheme option" where
  "readi_loop away ip k = do {
     let lbn = lshift (u_offset (u k)) (-9);
     let on = snd (u_offset (u k)) AND 0x1FF;
     (r, k) \<leftarrow> read_where away ip k;
     case r of
       None \<Rightarrow> Some k
     | Some (dn, bn, n) \<Rightarrow> do {
         (b, k) \<leftarrow> (if i_lastr (inode k ip) + 1 = lbn then breada away dn bn (rablock k) k else bread away dn bn k);
         let k = upd_inode ip (\<lambda>i. i\<lparr>i_lastr := lbn\<rparr>) k;
         k \<leftarrow> iomove b on n False k;
         let k = brelse b k;
         if u_error (u k) = 0 \<and> u_count (u k) \<noteq> 0 then readi_loop away ip k else Some k } }"

definition readi ::
  "('a kfs_scheme \<Rightarrow> 'a kfs_scheme option) \<Rightarrow> nat \<Rightarrow> 'a kfs_scheme \<Rightarrow> (unit, 'a kfs_scheme) outcome option" where
  "readi away ip k =
     (if u_count (u k) = 0 then ret k
      else
        let k = iflag_set ip IACC k in
        if filetype ip k = IFCHR then cdev_read away (i_addr (inode k ip) 0) k
        else surely (readi_loop away ip k))"

partial_function (option) writei_loop ::
  "('a kfs_scheme \<Rightarrow> 'a kfs_scheme option) \<Rightarrow> nat \<Rightarrow> 'a kfs_scheme \<Rightarrow> 'a kfs_scheme option" where
  "writei_loop away ip k = do {
     let bn = lshift (u_offset (u k)) (-9);
     let on = snd (u_offset (u k)) AND 0x1FF;
     let n = imin (512 - on) (u_count (u k));
     (bn, dn, k) \<leftarrow> (if filetype ip k \<noteq> IFBLK then do {
         (bn, k) \<leftarrow> bmap away ip bn k;
         Some (if bn = 0 then None else Some bn, i_dev (inode k ip), k) }
       else Some (Some bn, i_addr (inode k ip) 0, k));
     case bn of
       None \<Rightarrow> Some k
     | Some bn \<Rightarrow> do {
         (b, k) \<leftarrow> (if n = 512 then getblk away dn bn k else bread away dn bn k);
         k \<leftarrow> iomove b on n True k;
         k \<leftarrow> (if u_error (u k) \<noteq> 0 then Some (brelse b k)
               else if snd (u_offset (u k)) AND 0x1FF = 0 then bawrite away b k
               else Some (bdwrite b k));
         let k = (if sint (size_left ip k) < 0 \<and> \<not> flag (i_mode (inode k ip)) (IFBLK AND IFCHR)
                  then upd_inode ip (\<lambda>i. i\<lparr>i_size0 := ucast (fst (u_offset (u k))), i_size1 := snd (u_offset (u k))\<rparr>) k
                  else k);
         let k = iflag_set ip IUPD k;
         if u_error (u k) = 0 \<and> u_count (u k) \<noteq> 0 then writei_loop away ip k else Some k } }"

definition writei ::
  "('a kfs_scheme \<Rightarrow> 'a kfs_scheme option) \<Rightarrow> nat \<Rightarrow> 'a kfs_scheme \<Rightarrow> (unit, 'a kfs_scheme) outcome option" where
  "writei away ip k =
     (let k = iflag_set ip (IACC OR IUPD) k in
      if filetype ip k = IFCHR then cdev_write (i_addr (inode k ip) 0) k
      else if u_count (u k) = 0 then ret k
      else surely (writei_loop away ip k))"

end
