(* ===== verification/Nami.thy ===== *)
theory Nami
  imports Rdwri
begin

unbundle bit_operations_syntax

text \<open>
  \<open>ken/nami.c\<close>, \<open>wdir\<close> and \<open>maknode\<close> of \<open>ken/iget.c\<close>, the device part of \<open>ken/fio.c\<close> and
  \<open>ken/pipe.c\<close>: path names, directory entries, opening and closing, and pipes.
\<close>

subsection \<open>Path names\<close>

abbreviation "DIRSIZ \<equiv> (14 :: nat)"
abbreviation slash :: u8 where "slash \<equiv> 47"

text \<open>\<open>uchar\<close>: the next character of a name in user space.\<close>

definition uchar :: "'a kproc_scheme \<Rightarrow> u8 \<times> 'a kproc_scheme" where
  "uchar k = (fubyte (u_dirp (u k)) k, upd_u (\<lambda>w. w\<lparr>u_dirp := u_dirp w + 1\<rparr>) k)"

text \<open>\<open>while(c == '/') c = (*func)();\<close>\<close>

partial_function (option) skip_slash :: "('k \<Rightarrow> u8 \<times> 'k) \<Rightarrow> u8 \<Rightarrow> 'k \<Rightarrow> (u8 \<times> 'k) option" where
  "skip_slash func c k = (if c = slash then (let (c, k) = func k in skip_slash func c k) else Some (c, k))"

text \<open>The characters of a component; only the first fourteen are kept.\<close>

partial_function (option) gather ::
  "('a kproc_scheme \<Rightarrow> u8 \<times> 'a kproc_scheme) \<Rightarrow> u8 list \<Rightarrow> u8 \<Rightarrow> 'a kproc_scheme \<Rightarrow> (u8 list \<times> u8 \<times> 'a kproc_scheme) option" where
  "gather func nm c k =
     (if c \<noteq> slash \<and> c \<noteq> 0 \<and> u_error (u k) = 0 then
        let (c', k) = func k in gather func (if length nm < DIRSIZ then nm @ [c] else nm) c' k
      else Some (nm, c, k))"

definition pad_name :: "u8 list \<Rightarrow> u8 list" where
  "pad_name nm = nm @ replicate (DIRSIZ - length nm) 0"

text \<open>The inode number and the name in the directory entry of the user area.\<close>

definition dent_ino :: "u8 list \<Rightarrow> u16" where "dent_ino d = bytes2 (d ! 0) (d ! 1)"

definition dent_name :: "u8 list \<Rightarrow> u8 list" where "dent_name d = take DIRSIZ (drop 2 d)"

definition brelse_opt :: "bp \<Rightarrow> 'a kbio_scheme \<Rightarrow> 'a kbio_scheme" where
  "brelse_opt p k = (if p = BNull then k else brelse p k)"

text \<open>
  The search of a directory (\<open>eloop\<close>): whether the name was found and the end of the first empty
  entry.  \<open>p\<close> is the buffer held, \<open>BNull\<close> at first.
\<close>

partial_function (option) dirsearch ::
  "('a kfs_scheme \<Rightarrow> 'a kfs_scheme option) \<Rightarrow> nat \<Rightarrow> u16 \<Rightarrow> bp \<Rightarrow> 'a kfs_scheme \<Rightarrow> ((bool \<times> u16) \<times> 'a kfs_scheme) option" where
  "dirsearch away dd eo p k =
     (if u_count (u k) = 0 then Some ((False, eo), brelse_opt p k)
      else do {
        (p, k) \<leftarrow> (if snd (u_offset (u k)) AND 0x1FF = 0 then do {
            let k = brelse_opt p k;
            lbn \<leftarrow> ldiv (snd (u_offset (u k))) 512;
            (bn, k) \<leftarrow> bmap away dd lbn k;
            bread away (i_dev (inode k dd)) bn k }
          else Some (p, k));
        let a = b_addr p + unat (snd (u_offset (u k)) AND 0x1FF);
        let k = upd_u (\<lambda>w. w\<lparr>u_dent := map (\<lambda>i. buffers k (a + i)) [0..<DIRSIZ + 2],
                            u_offset := (fst (u_offset w), snd (u_offset w) + 16), u_count := u_count w - 1\<rparr>) k;
        if dent_ino (u_dent (u k)) = 0 then dirsearch away dd (if eo = 0 then snd (u_offset (u k)) else eo) p k
        else if u_dbuf (u k) = dent_name (u_dent (u k)) then Some ((True, eo), brelse_opt p k)
        else dirsearch away dd eo p k })"

text \<open>\<open>out: iput(dp); return(NULL)\<close>\<close>

definition namei_out ::
  "('a kfs_scheme \<Rightarrow> 'a kfs_scheme option) \<Rightarrow> nat \<Rightarrow> 'a kfs_scheme \<Rightarrow> (nat option \<times> 'a kfs_scheme) option" where
  "namei_out away dd k = do { k \<leftarrow> iput away dd k; Some (None, k) }"

text \<open>One component: the name is gathered and looked up in the directory \<open>dd\<close>.\<close>

definition namei_comp ::
  "('a kfs_scheme \<Rightarrow> 'a kfs_scheme option) \<Rightarrow> ('a kfs_scheme \<Rightarrow> u8 \<times> 'a kfs_scheme) \<Rightarrow> nat \<Rightarrow> u8 \<Rightarrow> 'a kfs_scheme \<Rightarrow>
     (((bool \<times> u16) option \<times> u8) \<times> 'a kfs_scheme) option" where
  "namei_comp away func dd c k = do {
     (nm, c, k) \<leftarrow> gather func [] c k;
     let k = upd_u (\<lambda>w. w\<lparr>u_dbuf := pad_name nm\<rparr>) k;
     (c, k) \<leftarrow> skip_slash func c k;
     if u_error (u k) \<noteq> 0 then Some ((None, c), k)
     else do {
       cnt \<leftarrow> ldiv (i_size1 (inode k dd)) 16;
       let k = upd_u (\<lambda>w. w\<lparr>u_offset := (0, 0), u_segflg := True, u_count := cnt\<rparr>) k;
       (r, k) \<leftarrow> dirsearch away dd 0 BNull k;
       Some ((Some r, c), k) } }"

text \<open>\<open>cloop\<close>; \<open>fl\<close> is 0 to seek, 1 to create and 2 to delete.\<close>

partial_function (option) namei_loop ::
  "('a kfs_scheme \<Rightarrow> 'a kfs_scheme option) \<Rightarrow> ('a kfs_scheme \<Rightarrow> u8 \<times> 'a kfs_scheme) \<Rightarrow> nat \<Rightarrow> nat \<Rightarrow> u8 \<Rightarrow> 'a kfs_scheme \<Rightarrow>
     (nat option \<times> 'a kfs_scheme) option" where
  "namei_loop away func fl dd c k =
     (if u_error (u k) \<noteq> 0 then namei_out away dd k
      else if c = 0 then Some (Some dd, k)
      else if filetype dd k \<noteq> IFDIR then namei_out away dd (set_error ENOTDIR k)
      else do {
        (deny, k) \<leftarrow> access dd IEXEC k;
        if deny then namei_out away dd k
        else do {
          ((r, c), k) \<leftarrow> namei_comp away func dd c k;
          case r of
            None \<Rightarrow> namei_out away dd k
          | Some (found, eo) \<Rightarrow>
              if \<not> found then
                if fl = 1 \<and> c = 0 then do {
                  (deny, k) \<leftarrow> access dd IWRITE k;
                  if deny then namei_out away dd k
                  else do {
                    let k = upd_u (\<lambda>w. w\<lparr>u_pdir := Some dd\<rparr>) k;
                    Some (None, if eo \<noteq> 0 then upd_u (\<lambda>w. w\<lparr>u_offset := (fst (u_offset w), eo - 16)\<rparr>) k
                                else iflag_set dd IUPD k) } }
                else namei_out away dd (set_error ENOENT k)
              else if fl = 2 \<and> c = 0 then do {
                (deny, k) \<leftarrow> access dd IWRITE k;
                if deny then namei_out away dd k else Some (Some dd, k) }
              else do {
                let d = i_dev (inode k dd);
                k \<leftarrow> iput away dd k;
                (r, k) \<leftarrow> iget away d (dent_ino (u_dent (u k))) k;
                case r of None \<Rightarrow> Some (None, k) | Some dd \<Rightarrow> namei_loop away func fl dd c k } } })"

definition namei ::
  "('a kfs_scheme \<Rightarrow> 'a kfs_scheme option) \<Rightarrow> ('a kfs_scheme \<Rightarrow> u8 \<times> 'a kfs_scheme) \<Rightarrow> nat \<Rightarrow> 'a kfs_scheme \<Rightarrow>
     (nat option \<times> 'a kfs_scheme) option" where
  "namei away func fl k = do {
     let dd = u_cdir (u k);
     let (c, k) = func k;
     let dd = (if c = slash then rootdir k else dd);
     (_, k) \<leftarrow> iget away (i_dev (inode k dd)) (i_number (inode k dd)) k;
     (c, k) \<leftarrow> skip_slash func c k;
     if c = 0 \<and> fl \<noteq> 0 then namei_out away dd (set_error ENOENT k)
     else namei_loop away func fl dd c k }"

subsection \<open>Directory entries and new files\<close>

definition wdir ::
  "('a kfs_scheme \<Rightarrow> 'a kfs_scheme option) \<Rightarrow> nat \<Rightarrow> 'a kfs_scheme \<Rightarrow> (unit, 'a kfs_scheme) outcome option" where
  "wdir away ip k = do {
     let n = i_number (inode k ip);
     let k = upd_u (\<lambda>w. w\<lparr>u_dent := [byte0 n, byte1 n] @ u_dbuf w, u_count := 16, u_segflg := True, u_base := KDent 0\<rparr>) k;
     pd \<leftarrow> u_pdir (u k);
     andthen (writei away pd k) (\<lambda>_ k. do {
       pd \<leftarrow> u_pdir (u k);
       surely (iput away pd k) }) }"

definition maknode ::
  "('a kfs_scheme \<Rightarrow> 'a kfs_scheme option) \<Rightarrow> u16 \<Rightarrow> 'a kfs_scheme \<Rightarrow> (nat option, 'a kfs_scheme) outcome option" where
  "maknode away mode k = do {
     pd \<leftarrow> u_pdir (u k);
     (r, k) \<leftarrow> ialloc away (i_dev (inode k pd)) k;
     case r of
       None \<Rightarrow> Some (Ret None k)
     | Some ip \<Rightarrow> do {
         let k = upd_inode ip (\<lambda>i. i\<lparr>i_flag := setf (i_flag i) (IACC OR IUPD), i_mode := mode OR IALLOC, i_nlink := 1,
                                  i_uid := u_uid (u k), i_gid := u_gid (u k)\<rparr>) k;
         andthen (wdir away ip k) (\<lambda>_ k. Some (Ret (Some ip) k)) } }"

definition owner ::
  "('a kfs_scheme \<Rightarrow> 'a kfs_scheme option) \<Rightarrow> 'a kfs_scheme \<Rightarrow> (nat option \<times> 'a kfs_scheme) option" where
  "owner away k = do {
     (r, k) \<leftarrow> namei away uchar 0 k;
     case r of
       None \<Rightarrow> Some (None, k)
     | Some ip \<Rightarrow>
         if u_uid (u k) = i_uid (inode k ip) then Some (Some ip, k)
         else do {
           let (su, k) = suser k;
           if su then Some (Some ip, k)
           else do { k \<leftarrow> iput away ip k; Some (None, k) } } }"

subsection \<open>Opening and closing\<close>

definition openi :: "nat \<Rightarrow> 'a kfs_scheme \<Rightarrow> 'a kfs_scheme option" where
  "openi ip k =
     (let dev = i_addr (inode k ip) 0 in
      if filetype ip k = IFCHR then
        if major dev \<ge> sint (nchrdev k) then Some (set_error ENXIO k) else cdev_open dev k
      else if filetype ip k = IFBLK then
        if major dev \<ge> sint (nblkdev k) then Some (set_error ENXIO k) else bdev_null dev k
      else Some k)"

definition closei ::
  "('a kfs_scheme \<Rightarrow> 'a kfs_scheme option) \<Rightarrow> nat \<Rightarrow> 'a kfs_scheme \<Rightarrow> (unit, 'a kfs_scheme) outcome option" where
  "closei away ip k =
     (let dev = i_addr (inode k ip) 0 in
      andthen
        (if sint (i_count (inode k ip)) \<le> 1 then
           if filetype ip k = IFCHR then cdev_close away dev k
           else if filetype ip k = IFBLK then surely (bdev_null dev k)
           else ret k
         else ret k)
        (\<lambda>_ k. surely (iput away ip k)))"

definition closef ::
  "('a kfs_scheme \<Rightarrow> 'a kfs_scheme option) \<Rightarrow> nat \<Rightarrow> 'a kfs_scheme \<Rightarrow> (unit, 'a kfs_scheme) outcome option" where
  "closef away fp k =
     (let ip = f_inode (filetab k fp);
          k = (if flag (f_flag (filetab k fp)) FPIPE
               then wakeup (ChInode (ip + 2)) (wakeup (ChInode (ip + 1))
                      (upd_inode ip (\<lambda>i. i\<lparr>i_mode := clrf (i_mode i) (IREAD OR IWRITE)\<rparr>) k))
               else k)
      in andthen
           (if sint (f_count (filetab k fp)) \<le> 1 then closei away (f_inode (filetab k fp)) k else ret k)
           (\<lambda>_ k. ret (upd_file fp (\<lambda>f. f\<lparr>f_count := f_count f - 1\<rparr>) k)))"

subsection \<open>Pipes\<close>

abbreviation "PIPSIZ \<equiv> (4096 :: u16)"

definition pipe :: "('a kfs_scheme \<Rightarrow> 'a kfs_scheme option) \<Rightarrow> 'a kfs_scheme \<Rightarrow> 'a kfs_scheme option" where
  "pipe away k = do {
     (r, k) \<leftarrow> ialloc away (rootdev k) k;
     case r of
       None \<Rightarrow> Some k
     | Some ip \<Rightarrow> do {
         (rdf, k) \<leftarrow> falloc k;
         case rdf of
           None \<Rightarrow> iput away ip k
         | Some rdf \<Rightarrow> do {
             let r = u_ar0 (u k) 0;
             (wrf, k) \<leftarrow> falloc k;
             case wrf of
               None \<Rightarrow> iput away ip (upd_u (\<lambda>w. w\<lparr>u_ofile := (u_ofile w)(unat r := None)\<rparr>) (upd_file rdf (\<lambda>f. f\<lparr>f_count := 0\<rparr>) k))
             | Some wrf \<Rightarrow> do {
                 let k = upd_u (\<lambda>w. w\<lparr>u_ar0 := (u_ar0 w)(1 := u_ar0 w 0, 0 := r)\<rparr>) k;
                 let k = upd_file wrf (\<lambda>f. f\<lparr>f_flag := FWRITE OR FPIPE, f_inode := ip\<rparr>) k;
                 let k = upd_file rdf (\<lambda>f. f\<lparr>f_flag := FREAD OR FPIPE, f_inode := ip\<rparr>) k;
                 Some (upd_inode ip (\<lambda>i. i\<lparr>i_count := 2, i_flag := IACC OR IUPD, i_mode := IALLOC\<rparr>) k) } } } }"

text \<open>\<open>rp->f_offset[1] = v\<close>\<close>

definition set_foff :: "nat \<Rightarrow> u16 \<Rightarrow> 'a kfs_scheme \<Rightarrow> 'a kfs_scheme" where
  "set_foff rp v = upd_file rp (\<lambda>f. f\<lparr>f_offset := (fst (f_offset f), v)\<rparr>)"

text \<open>The reader has caught up with the writer: both places are reset, and a waiting writer wakes.\<close>

definition pipe_reset :: "nat \<Rightarrow> nat \<Rightarrow> 'a kfs_scheme \<Rightarrow> 'a kfs_scheme" where
  "pipe_reset rp ip k =
     (if snd (f_offset (filetab k rp)) \<noteq> 0 then
        let k = upd_inode ip (\<lambda>i. i\<lparr>i_size1 := 0\<rparr>) (set_foff rp 0 k)
        in if flag (i_mode (inode k ip)) IWRITE
           then wakeup (ChInode (ip + 1)) (upd_inode ip (\<lambda>i. i\<lparr>i_mode := clrf (i_mode i) IWRITE\<rparr>) k)
           else k
      else k)"

partial_function (option) readp ::
  "('a kfs_scheme \<Rightarrow> 'a kfs_scheme option) \<Rightarrow> nat \<Rightarrow> 'a kfs_scheme \<Rightarrow> (unit, 'a kfs_scheme) outcome option" where
  "readp away rp k =
     (let ip = f_inode (filetab k rp) in
      andthen (plock away ip k) (\<lambda>_ k.
        if snd (f_offset (filetab k rp)) = i_size1 (inode k ip) then
          let k = prele ip (pipe_reset rp ip k) in
          if sint (i_count (inode k ip)) < 2 then ret k
          else do {
            w \<leftarrow> sleep away (ChInode (ip + 2)) PPIPE (upd_inode ip (\<lambda>i. i\<lparr>i_mode := setf (i_mode i) IREAD\<rparr>) k);
            case w of Qsav k \<Rightarrow> Some (Intr k) | Woken k \<Rightarrow> readp away rp k }
        else
          let k = upd_u (\<lambda>w. w\<lparr>u_offset := (0, snd (f_offset (filetab k rp)))\<rparr>) k in
          andthen (readi away ip k) (\<lambda>_ k. ret (prele ip (set_foff rp (snd (u_offset (u k))) k)))))"

partial_function (option) writep_loop ::
  "('a kfs_scheme \<Rightarrow> 'a kfs_scheme option) \<Rightarrow> nat \<Rightarrow> u16 \<Rightarrow> 'a kfs_scheme \<Rightarrow> (unit, 'a kfs_scheme) outcome option" where
  "writep_loop away ip c k =
     andthen (plock away ip k) (\<lambda>_ k.
       if c = 0 then ret (upd_u (\<lambda>w. w\<lparr>u_count := 0\<rparr>) (prele ip k))
       else if sint (i_count (inode k ip)) < 2 then
         ret (psignal (u_procp (u k)) (sint SIGPIPE) (set_error EPIPE (prele ip k)))
       else if i_size1 (inode k ip) = PIPSIZ then do {
         w \<leftarrow> sleep away (ChInode (ip + 1)) PPIPE
               (prele ip (upd_inode ip (\<lambda>i. i\<lparr>i_mode := setf (i_mode i) IWRITE\<rparr>) k));
         case w of Qsav k \<Rightarrow> Some (Intr k) | Woken k \<Rightarrow> writep_loop away ip c k }
       else
         let k = upd_u (\<lambda>w. w\<lparr>u_offset := (0, i_size1 (inode k ip))\<rparr>) k;
             n = imin c (PIPSIZ - snd (u_offset (u k)));
             k = upd_u (\<lambda>w. w\<lparr>u_count := n\<rparr>) k
         in andthen (writei away ip k) (\<lambda>_ k.
              let k = prele ip k;
                  k = (if flag (i_mode (inode k ip)) IREAD
                       then wakeup (ChInode (ip + 2)) (upd_inode ip (\<lambda>i. i\<lparr>i_mode := clrf (i_mode i) IREAD\<rparr>) k)
                       else k)
              in writep_loop away ip (c - n) k))"

definition writep ::
  "('a kfs_scheme \<Rightarrow> 'a kfs_scheme option) \<Rightarrow> nat \<Rightarrow> 'a kfs_scheme \<Rightarrow> (unit, 'a kfs_scheme) outcome option" where
  "writep away rp k = writep_loop away (f_inode (filetab k rp)) (u_count (u k)) k"

end
