(* ===== verification/Balance.thy ===== *)
theory Balance
  imports Cache Nami
begin

unbundle bit_operations_syntax

text \<open>
  The file system as a client of the buffer cache.  The interface of the cache is a locale: who owns
  which buffers, and how reading, writing and releasing change that.  Over it, every operation of the
  file system that reads or writes blocks is balanced: it gives back every buffer it obtains, on every
  path, and keeps the invariant of the cache.
\<close>

subsection \<open>The interface of the cache\<close>

locale block_cache =
  fixes inv :: "'p set \<Rightarrow> 's \<Rightarrow> bool"
    and getb readb :: "'d \<Rightarrow> 'b \<Rightarrow> 's \<Rightarrow> ('p \<times> 's) option"
    and rel dwr :: "'p \<Rightarrow> 's \<Rightarrow> 's"
    and wrt :: "'p \<Rightarrow> 's \<Rightarrow> 's option"
  assumes getb: "inv W k \<Longrightarrow> results (\<lambda>(p, k'). p \<notin> W \<and> inv (insert p W) k') (getb d b k)"
    and readb: "inv W k \<Longrightarrow> results (\<lambda>(p, k'). p \<notin> W \<and> inv (insert p W) k') (readb d b k)"
    and rel: "inv W k \<Longrightarrow> p \<in> W \<Longrightarrow> inv (W - {p}) (rel p k)"
    and dwr: "inv W k \<Longrightarrow> p \<in> W \<Longrightarrow> inv (W - {p}) (dwr p k)"
    and wrt: "inv W k \<Longrightarrow> p \<in> W \<Longrightarrow> results (inv (W - {p})) (wrt p k)"
begin

lemma give_back:
  assumes "p \<notin> W" "inv (insert p W) k"
  shows "inv W (rel p k)" "inv W (dwr p k)" "results (inv W) (wrt p k)"
  using rel [OF assms(2) insertI1] dwr [OF assms(2) insertI1] wrt [OF assms(2) insertI1] assms(1) by simp_all

lemma with_block:
  assumes "inv W k" "\<And>p k. p \<notin> W \<Longrightarrow> inv (insert p W) k \<Longrightarrow> results P (body p k)"
  shows "results P (Option.bind (getb d b k) (\<lambda>(p, k). body p k))" "results P (Option.bind (readb d b k) (\<lambda>(p, k). body p k))"
  by (rule results_bind_pair [OF getb [OF assms(1)]]; use assms(2) in blast)
    (rule results_bind_pair [OF readb [OF assms(1)]]; use assms(2) in blast)

lemma read_release:
  assumes "inv W k" "\<And>p k. p \<notin> W \<Longrightarrow> inv (insert p W) k \<Longrightarrow> results (inv (insert p W)) (body p k)"
  shows "results (inv W) (Option.bind (readb d b k) (\<lambda>(p, k). Option.bind (body p k) (\<lambda>k. Some (rel p k))))"
  by (rule with_block(2) [OF assms(1)], rule results_bind [OF assms(2)]) (auto intro: give_back)

lemma write_back:
  assumes "inv W k" "\<And>p k. p \<notin> W \<Longrightarrow> inv (insert p W) k \<Longrightarrow> inv (insert p W) (body p k)"
  shows "results (inv W) (Option.bind (getb d b k) (\<lambda>(p, k). wrt p (body p k)))"
    "results (inv W) (Option.bind (readb d b k) (\<lambda>(p, k). wrt p (body p k)))"
  by (rule with_block [OF assms(1)], blast intro: give_back assms(2))+

end

subsection \<open>The cache provides it\<close>

lemma getblk_device:
  assumes "getblk away dev blkno k = Some r" "cache_ok W V k"
  shows "sint dev < 0 \<or> major dev = 0"
proof -
  have "nblkdev k = 1" using assms(2) by (auto simp: cache_ok_def cache_inv_def)
  then have "major dev < 1" using assms(1) by (subst (asm) getblk.simps) (auto split: if_splits)
  then have "sint dev < 256" by (simp add: major_def)
  then show ?thesis by (cases "sint dev < 0") (simp_all add: major_def)
qed

lemma bread_device:
  assumes "bread away dev blkno k = Some r" "cache_ok W V k"
  shows "sint dev < 0 \<or> major dev = 0"
  using assms getblk_device by (fastforce simp: bread_def split: Option.bind_splits)

lemma cache_provides:
  fixes away :: "'a kbio_scheme \<Rightarrow> 'a kbio_scheme option"
  assumes "keeps_cache away"
  shows "block_cache (\<lambda>W. cache_ok W V) (getblk away) (bread away) brelse bdwrite (bwrite away)"
proof
  fix W d b and k :: "'a kbio_scheme"
  assume ok: "cache_ok W V k"
  show "results (\<lambda>(p, k'). p \<notin> W \<and> cache_ok (insert p W) V k') (getblk away d b k)"
    using getblk_obtains [OF _ assms ok getblk_device [OF _ ok]] by (auto simp: results_def obtained_def held_def)
  show "results (\<lambda>(p, k'). p \<notin> W \<and> cache_ok (insert p W) V k') (bread away d b k)"
    using bread_obtains(1) [OF _ assms ok bread_device [OF _ ok]] by (auto simp: results_def held_def)
next
  fix W p and k :: "'a kbio_scheme"
  assume ok: "cache_ok W V k" and p: "p \<in> W"
  show "cache_ok (W - {p}) V (brelse p k)" "cache_ok (W - {p}) V (bdwrite p k)" "results (cache_ok (W - {p}) V) (bwrite away p k)"
    using brelse_releases [OF ok p] bdwrite_releases [OF ok p] bwrite_releases [OF _ assms ok p] by (auto simp: results_def)
qed

interpretation disk: block_cache "\<lambda>W. cache_ok W {}" "getblk disk_only" "bread disk_only" brelse bdwrite "bwrite disk_only"
  by (rule cache_provides [OF ideintr_keeps])

subsection \<open>What the invariant does not depend on\<close>

named_theorems cache_frame

lemma cache_ok_iff:
  assumes "b_flags k' = b_flags k" "b_forw k' = b_forw k" "b_back k' = b_back k" "av_forw k' = av_forw k"
    "av_back k' = av_back k" "b_dev k' = b_dev k" "b_blkno k' = b_blkno k"
    "d_actf k' = d_actf k" "d_actl k' = d_actl k" "d_active k' = d_active k" "nblkdev k' = nblkdev k"
  shows "cache_ok W V k' = cache_ok W V k"
  using cache_ok_cong [of W V k k'] cache_ok_cong [of W V k' k] assms by auto

lemma cache_frame_proc [cache_frame]:
  fixes k :: "'a kbio_scheme"
  shows "c \<noteq> NoChan \<Longrightarrow> cache_ok W V (wakeup c k) = cache_ok W V k" "cache_ok W V (spl n k) = cache_ok W V k"
    "cache_ok W V (upd_u g k) = cache_ok W V k" "cache_ok W V (set_error e k) = cache_ok W V k"
    "cache_ok W V (k\<lparr>mem := m\<rparr>) = cache_ok W V k" "cache_ok W V (k\<lparr>time := t\<rparr>) = cache_ok W V k"
  by (rule cache_ok_iff; simp add: set_error_def)+

lemma cache_frame_bio [cache_frame]:
  fixes k :: "'a kbio_scheme"
  shows "cache_ok W V (k\<lparr>buffers := b\<rparr>) = cache_ok W V k" "cache_ok W V (k\<lparr>rablock := r\<rparr>) = cache_ok W V k"
    "cache_ok W V (set_bword a v k) = cache_ok W V k" "cache_ok W V (set_bbyte a c k) = cache_ok W V k"
    "cache_ok W V (clrbuf p k) = cache_ok W V k" "cache_ok W V (k\<lparr>b_wcount := w\<rparr>) = cache_ok W V k"
  by (rule cache_ok_iff; simp add: set_bword_def set_bbyte_def clrbuf_def)+

lemma cache_frame_super [cache_frame]:
  fixes k :: "'a kbio_scheme"
  shows "cache_ok W V (set_nfree fp n k) = cache_ok W V k" "cache_ok W V (set_free fp i n k) = cache_ok W V k"
    "cache_ok W V (set_ninode fp n k) = cache_ok W V k" "cache_ok W V (set_sinode fp i n k) = cache_ok W V k"
    "cache_ok W V (set_flock fp c k) = cache_ok W V k" "cache_ok W V (set_ilock fp c k) = cache_ok W V k"
    "cache_ok W V (set_fmod fp c k) = cache_ok W V k" "cache_ok W V (set_ronly fp c k) = cache_ok W V k"
    "cache_ok W V (set_stime fp t k) = cache_ok W V k"
  by (simp_all add: set_nfree_def set_free_def set_ninode_def set_sinode_def set_flock_def set_ilock_def set_fmod_def
      set_ronly_def set_stime_def cache_frame)

lemma cache_frame_fold:
  "(\<And>x k. cache_ok W V (f x k) = cache_ok W V k) \<Longrightarrow> cache_ok W V (fold f xs k) = cache_ok W V k"
  by (induction xs arbitrary: k) auto

lemma cache_frame_words [cache_frame]:
  "cache_ok W V (bcopy a b n k) = cache_ok W V k" "cache_ok W V (put_words a ws k) = cache_ok W V k"
  unfolding bcopy_def put_words_def by (rule cache_frame_fold; simp add: cache_frame split: prod.splits)+

lemma cache_frame_fs [cache_frame]:
  fixes k :: "'a kfs_scheme"
  shows "cache_ok W V (upd_inode p f k) = cache_ok W V k" "cache_ok W V (iflag_set p b k) = cache_ok W V k"
    "cache_ok W V (iflag_clr p b k) = cache_ok W V k" "cache_ok W V (k\<lparr>updlock := l\<rparr>) = cache_ok W V k"
    "cache_ok W V (upd_file q g k) = cache_ok W V k" "cache_ok W V (upd_mount m h k) = cache_ok W V k"
  by (rule cache_ok_iff; simp add: upd_inode_def iflag_set_def iflag_clr_def upd_file_def upd_mount_def)+

lemma cache_frame_prele [cache_frame]: "cache_ok W V (prele p k) = cache_ok W V k"
  by (simp add: prele_def Let_def cache_frame)

lemma kprint_cache:
  fixes k :: "'a ktty_scheme"
  assumes "cache_ok W V k"
  shows "results (cache_ok W V) (kprint s k)"
proof -
  have "cache_ok W V (k\<lparr>console := c\<rparr>) = cache_ok W V k" for c by (rule cache_ok_iff) simp_all
  then show ?thesis using assms by (auto simp: kprint_def results_def split: Option.bind_splits)
qed

lemma sleep_cache:
  fixes k :: "'a kbio_scheme"
  assumes "keeps_cache away" "cache_ok W V k" "pr < 0"
  shows "results (cache_ok W V) (sleep_neg away c pr k)"
  using cache_sleep(1) [OF assms(1,2) _ assms(3)] by (simp add: results_def)

subsection \<open>Super blocks and free blocks\<close>

lemma getfs_cache:
  assumes "cache_ok W V k"
  shows "results (\<lambda>(fp, k'). cache_ok W V k') (getfs dev k)"
  unfolding getfs_def Let_def
  by (intro results_intros results_bind [OF kprint_cache [OF assms]]) (simp_all add: assms cache_frame)

lemma badblock_cache:
  assumes "cache_ok W V k"
  shows "results (\<lambda>(bad, k'). cache_ok W V k') (badblock fp bn dev k)"
  unfolding badblock_def by (intro results_intros results_bind [OF kprint_cache [OF assms]]) (simp_all add: assms)

lemma access_cache:
  assumes "cache_ok W V k"
  shows "results (\<lambda>(deny, k'). cache_ok W V k') (access ip m k)"
proof -
  have "results (\<lambda>(ro, k'). cache_ok W V k') (if m = IWRITE then do {
         (fp, k) \<leftarrow> getfs (i_dev (inode k ip)) k;
         Some (s_ronly fp k \<noteq> 0, k) } else Some (False, k))"
    by (intro results_intros results_bind_pair [OF getfs_cache [OF assms]]) (simp_all add: assms)
  then show ?thesis unfolding access_def Let_def
    by (rule results_bind_pair) (intro results_intros; simp add: cache_frame)
qed

lemma lock_wait_cache:
  assumes "keeps_cache away" "cache_ok W V k"
  shows "results (cache_ok W V) (lock_wait away a c k)"
proof (rule resultsI)
  fix r assume r: "lock_wait away a c k = Some r"
  show "cache_ok W V r" using assms
  proof (induction rule: lock_wait.raw_induct [OF _ r])
    case (1 f away a c k r)
    have "PINOD < 0" by simp
    note s = sleep_cache [OF 1(3,4) this, of c]
    have IH: "cache_ok W V k \<Longrightarrow> results (cache_ok W V) (f away a c k)" for k using 1(1,3) by (blast intro: resultsI)
    show ?case by (rule resultsD [OF _ 1(2)]) (intro results_intros results_bind [OF s] IH; simp add: 1(4))
  qed
qed

lemma alloc_pop_cache:
  assumes "cache_ok W V k"
  shows "results (\<lambda>(r, k'). cache_ok W V k') (alloc_pop fp dev k)"
proof (rule resultsI)
  fix r assume r: "alloc_pop fp dev k = Some r"
  show "case r of (r, k') \<Rightarrow> cache_ok W V k'" using assms
  proof (induction rule: alloc_pop.raw_induct [OF _ r])
    case (1 f fp dev k r)
    have ok: "cache_ok W V (set_nfree fp (s_nfree fp k - 1) k)" using 1(3) by (simp add: cache_frame)
    have IH: "cache_ok W V k \<Longrightarrow> results (\<lambda>(r, k'). cache_ok W V k') (f fp dev k)" for k using 1(1) by (blast intro: resultsI)
    show ?case
      by (rule resultsD [OF _ 1(2)], unfold Let_def)
        (intro results_intros results_bind_pair [OF badblock_cache [OF ok]] IH; simp add: 1(3) ok)
  qed
qed

lemma alloc_refill_cache:
  assumes aw: "keeps_cache away" and ok: "cache_ok W V k"
  shows "results (cache_ok W V) (alloc_refill away fp dev bno k)"
proof -
  have "cache_ok W V (set_flock fp (s_flock fp k + 1) k)" using ok by (simp add: cache_frame)
  then show ?thesis unfolding alloc_refill_def Let_def
    by (rule block_cache.with_block(2) [OF cache_provides [OF aw]])
      (simp add: cache_frame block_cache.give_back(1) [OF cache_provides [OF aw]])
qed

lemma alloc_cache:
  assumes aw: "keeps_cache away" and ok: "cache_ok W V k"
  shows "results (\<lambda>(r, k'). case r of None \<Rightarrow> cache_ok W V k' | Some p \<Rightarrow> p \<notin> W \<and> cache_ok (insert p W) V k') (alloc away dev k)"
  unfolding alloc_def
proof (rule results_bind_pair [OF getfs_cache [OF ok]], rule results_bind [OF lock_wait_cache [OF aw]], assumption,
    rule results_bind_pair [OF alloc_pop_cache], assumption)
  fix fp r and k :: "'a kfs_scheme"
  assume ok: "cache_ok W V k"
  show "results (\<lambda>(r, k'). case r of None \<Rightarrow> cache_ok W V k' | Some p \<Rightarrow> p \<notin> W \<and> cache_ok (insert p W) V k')
    (case r of
       None \<Rightarrow> do {
         k \<leftarrow> kprint (prdev ''no space'' dev) (set_nfree fp 0 k);
         Some (None, set_error ENOSPC k) }
     | Some bno \<Rightarrow> do {
         k \<leftarrow> (if sint (s_nfree fp k) \<le> 0 then alloc_refill away fp dev bno k else Some k);
         (p, k) \<leftarrow> getblk away dev bno k;
         Some (Some p, set_fmod fp 1 (clrbuf p k)) })"
    by (intro results_intros results_bind [OF kprint_cache] results_bind [where Q = "cache_ok W V"] alloc_refill_cache aw
        block_cache.with_block(1) [OF cache_provides [OF aw]])
      (simp_all add: ok cache_frame)
qed

lemma free_spill_cache:
  assumes aw: "keeps_cache away" and ok: "cache_ok W V k"
  shows "results (cache_ok W V) (free_spill away fp dev bno k)"
proof -
  have "cache_ok W V (set_flock fp (s_flock fp k + 1) k)" using ok by (simp add: cache_frame)
  then show ?thesis unfolding free_spill_def Let_def
    by (rule block_cache.with_block(1) [OF cache_provides [OF aw]])
      (rule results_bind [OF block_cache.give_back(3) [OF cache_provides [OF aw]]]; simp add: cache_frame)
qed

lemma free_cache:
  assumes aw: "keeps_cache away" and ok: "cache_ok W V k"
  shows "results (cache_ok W V) (free away dev bno k)"
  unfolding free_def Let_def
proof (rule results_bind_pair [OF getfs_cache [OF ok]], rule results_bind [OF lock_wait_cache [OF aw]],
    simp add: cache_frame, rule results_bind_pair [OF badblock_cache], assumption)
  fix fp bad and k :: "'a kfs_scheme"
  assume ok: "cache_ok W V k"
  define k1 where "k1 = (if sint (s_nfree fp k) \<le> 0 then set_free fp 0 0 (set_nfree fp 1 k) else k)"
  have ok1: "cache_ok W V k1" using ok by (simp add: k1_def cache_frame)
  show "results (cache_ok W V) (if bad then Some k else do {
       k \<leftarrow> (if sint (s_nfree fp (if sint (s_nfree fp k) \<le> 0 then set_free fp 0 0 (set_nfree fp 1 k) else k)) \<ge> 100
             then free_spill away fp dev bno (if sint (s_nfree fp k) \<le> 0 then set_free fp 0 0 (set_nfree fp 1 k) else k)
             else Some (if sint (s_nfree fp k) \<le> 0 then set_free fp 0 0 (set_nfree fp 1 k) else k));
       Some (set_fmod fp 1 (set_nfree fp (s_nfree fp k + 1) (set_free fp (unat (s_nfree fp k)) bno k))) })"
    unfolding k1_def [symmetric]
    by (intro results_intros results_bind [where Q = "cache_ok W V"] free_spill_cache [OF aw ok1]) (simp_all add: ok ok1 cache_frame)
qed

lemma ifree_cache:
  assumes "cache_ok W V k"
  shows "results (cache_ok W V) (ifree dev ino k)"
  unfolding ifree_def Let_def
  by (rule results_bind_pair [OF getfs_cache [OF assms]]) (intro results_intros; simp add: cache_frame)

subsection \<open>Blocks of files\<close>

lemmas got_block = block_cache.with_block [OF cache_provides]
lemmas gone = block_cache.give_back [OF cache_provides]

lemma bmap_last_cache:
  assumes aw: "keeps_cache away" and p: "p \<notin> W" and ok: "cache_ok (insert p W) V k"
  shows "results (\<lambda>(nb, k'). cache_ok W V k') (bmap_last away d bn p k)"
  unfolding bmap_last_def Let_def
proof (rule results_bind_pair [where Q = "\<lambda>nb k'. cache_ok W V k'"], rule results_if)
  let ?a = "b_addr p + 2 * unat (bn AND 0xFF)"
  show "results (\<lambda>(nb, k'). cache_ok W V k') (do {
     (r, k) \<leftarrow> alloc away d k;
     case r of None \<Rightarrow> Some (0, brelse p k)
     | Some q \<Rightarrow> Some (b_blkno k q, bdwrite p (bdwrite q (set_bword ?a (b_blkno k q) k))) })"
  proof (rule results_bind_pair [OF alloc_cache [OF aw ok]], rule results_option)
    fix r and k :: "'a kfs_scheme"
    assume r: "case r of None \<Rightarrow> cache_ok (insert p W) V k | Some q \<Rightarrow> q \<notin> insert p W \<and> cache_ok (insert q (insert p W)) V k"
    show "results (\<lambda>(nb, k'). cache_ok W V k') (Some (0, brelse p k))" if "r = None"
      using r that gone(1) [OF aw p] by simp
    show "results (\<lambda>(nb, k'). cache_ok W V k') (Some (b_blkno k q, bdwrite p (bdwrite q (set_bword ?a (b_blkno k q) k))))" if "r = Some q" for q
      using r that by (simp add: gone(2) [OF aw] p cache_frame)
  qed
  show "results (\<lambda>(nb, k'). cache_ok W V k') (Some (bword ?a k, brelse p k))" using ok gone(1) [OF aw p] by simp
qed (simp_all add: cache_frame)

lemma bmap_huge_cache:
  assumes aw: "keeps_cache away" and p: "p \<notin> W" and ok: "cache_ok (insert p W) V k"
  shows "results (\<lambda>(r, k'). case r of None \<Rightarrow> cache_ok W V k' | Some q \<Rightarrow> q \<notin> W \<and> cache_ok (insert q W) V k') (bmap_huge away d bn p k)"
  unfolding bmap_huge_def Let_def
proof (rule results_if)
  let ?P = "\<lambda>(r, k'). case r of None \<Rightarrow> cache_ok W V k' | Some q \<Rightarrow> q \<notin> W \<and> cache_ok (insert q W) V k'"
  let ?a = "bap_addr p (huge_index bn)"
  show "results ?P (do { (r, k) \<leftarrow> alloc away d k;
     case r of None \<Rightarrow> Some (None, brelse p k) | Some q \<Rightarrow> Some (Some q, bdwrite p (set_bword ?a (b_blkno k q) k)) })"
  proof (rule results_bind_pair [OF alloc_cache [OF aw ok]], rule results_option)
    fix r and k :: "'a kfs_scheme"
    assume r: "case r of None \<Rightarrow> cache_ok (insert p W) V k | Some q \<Rightarrow> q \<notin> insert p W \<and> cache_ok (insert q (insert p W)) V k"
    show "results ?P (Some (None, brelse p k))" if "r = None" using r that gone(1) [OF aw p] by simp
    show "results ?P (Some (Some q, bdwrite p (set_bword ?a (b_blkno k q) k)))" if "r = Some q" for q
    proof -
      have "p \<notin> insert q W" "cache_ok (insert p (insert q W)) V (set_bword ?a (b_blkno k q) k)"
        using r that p by (auto simp: cache_frame insert_commute)
      from gone(2) [OF aw this] r that show ?thesis by simp
    qed
  qed
  show "results ?P (do { (q, k) \<leftarrow> bread away d (bword ?a k) (brelse p k); Some (Some q, k) })"
    by (rule got_block(2) [OF aw gone(1) [OF aw p ok]]) simp
qed

lemma bmap_large_cache:
  assumes aw: "keeps_cache away" and ok: "cache_ok W V k"
  shows "results (\<lambda>(nb, k'). cache_ok W V k') (bmap_large away ip d bn k)"
  unfolding bmap_large_def Let_def
proof (rule results_bind_pair [where Q = "\<lambda>r k'. case r of None \<Rightarrow> cache_ok W V k' | Some q \<Rightarrow> q \<notin> W \<and> cache_ok (insert q W) V k'"],
    rule results_if)
  let ?P = "\<lambda>(r, k'). case r of None \<Rightarrow> cache_ok W V k' | Some q \<Rightarrow> q \<notin> W \<and> cache_ok (insert q W) V k'"
  let ?i = "large_index bn"
  have ok1: "cache_ok W V (iflag_set ip IUPD k)" using ok by (simp add: cache_frame)
  show "results ?P (do { (r, k) \<leftarrow> alloc away d (iflag_set ip IUPD k);
       case r of None \<Rightarrow> Some (None, k) | Some p \<Rightarrow> Some (Some p, upd_inode ip (\<lambda>n. n\<lparr>i_addr := (i_addr n)(?i := b_blkno k p)\<rparr>) k) })"
    by (rule results_bind_pair [OF alloc_cache [OF aw ok1]]) (rule results_option; simp add: cache_frame)
  show "results ?P (do { (p, k) \<leftarrow> bread away d (i_addr (inode k ip) ?i) k; Some (Some p, k) })"
    by (rule got_block(2) [OF aw ok]) simp
next
  fix r and k :: "'a kfs_scheme"
  assume r: "case r of None \<Rightarrow> cache_ok W V k | Some q \<Rightarrow> q \<notin> W \<and> cache_ok (insert q W) V k"
  let ?P = "\<lambda>(r, k'). case r of None \<Rightarrow> cache_ok W V k' | Some q \<Rightarrow> q \<notin> W \<and> cache_ok (insert q W) V k'"
  have two: "results ?P (if large_index bn = 7 then bmap_huge away d bn p k else Some (Some p, k))" if "r = Some p" for p
    using r that bmap_huge_cache [OF aw] by simp
  show "results (\<lambda>(nb, k'). cache_ok W V k') (case r of None \<Rightarrow> Some (0, k) | Some p \<Rightarrow> do {
         (r, k) \<leftarrow> (if large_index bn = 7 then bmap_huge away d bn p k else Some (Some p, k));
         case r of None \<Rightarrow> Some (0, k) | Some p \<Rightarrow> bmap_last away d bn p k })"
    by (rule results_option; (rule results_bind_pair [OF two], assumption, rule results_option)?)
      (use r bmap_last_cache [OF aw] in simp_all)
qed

lemma bmap_cache:
  assumes aw: "keeps_cache away" and ok: "cache_ok W V k"
  shows "results (\<lambda>(nb, k'). cache_ok W V k') (bmap away ip bn k)"
  unfolding bmap_def Let_def
  by (intro results_intros results_bind_pair [OF alloc_cache [OF aw ok]] bmap_large_cache [OF aw]
      results_bind_pair [where Q = "\<lambda>nb k'. cache_ok W V k'"])
    (use ok in \<open>simp_all add: cache_frame gone(2) [OF aw]\<close>)

subsection \<open>Reading and writing\<close>

lemma passc_cache:
  fixes k :: "'a kbio_scheme"
  assumes "cache_ok W V k"
  shows "results (\<lambda>(more, k'). cache_ok W V k') (passc c k)"
  using assms unfolding passc_def u_step_def Let_def
  by (auto simp: results_def kput_def uput_def subyte_def cache_frame split: Option.bind_splits iobase.splits if_splits)

lemma cpass_cache:
  fixes k :: "'a kbio_scheme"
  assumes "cache_ok W V k"
  shows "results (\<lambda>(c, k'). cache_ok W V k') (cpass k)"
  using assms unfolding cpass_def u_step_def by (auto simp: results_def cache_frame split: Option.bind_splits)

lemma iomove_out_cache:
  fixes k :: "'a kbio_scheme"
  shows "cache_ok W V k \<Longrightarrow> results (cache_ok W V) (iomove_out m cp k)"
proof (induction m arbitrary: cp k)
  case (Suc m)
  show ?case unfolding iomove_out.simps
    by (intro results_intros results_bind_pair [OF passc_cache [OF Suc.prems]] Suc.IH) (simp_all add: Suc.prems)
qed simp

lemma iomove_in_cache:
  fixes k :: "'a kbio_scheme"
  shows "cache_ok W V k \<Longrightarrow> results (cache_ok W V) (iomove_in m cp k)"
proof (induction m arbitrary: cp k)
  case (Suc m)
  show ?case unfolding iomove_in.simps
    by (intro results_intros results_bind_pair [OF cpass_cache [OF Suc.prems]] Suc.IH) (simp_all add: cache_frame)
qed simp

lemma iomove_cache:
  fixes k :: "'a kbio_scheme"
  assumes "cache_ok W V k"
  shows "results (cache_ok W V) (iomove p on n wr k)"
  by (simp add: iomove_def Let_def iomove_out_cache iomove_in_cache assms)

text \<open>A transfer that is started and not waited for, with the flags \<open>fl\<close>.\<close>

lemma strategy_cache:
  fixes k :: "'a kbio_scheme"
  assumes ok: "cache_ok (insert p W) V k" and p: "p \<notin> W" and fl: "flag fl B_BUSY" "\<not> flag fl B_DONE"
  shows "results (cache_ok W (if flag fl B_ASYNC then V else insert p V)) (strategy p ((set_flags p fl k)\<lparr>b_wcount := w\<rparr>))"
proof -
  let ?k = "(set_flags p fl k)\<lparr>b_wcount := w\<rparr>"
  obtain av hl nl q where inv: "cache_inv (insert p W) V k av hl nl q" and act: "active_ok k q" using ok by (auto simp: cache_ok_def)
  from cache_inv_flags [OF inv insertI1 fl(1)] act have "cache_ok (insert p W) V (set_flags p fl k)" by (auto simp: cache_ok_def active_ok_def)
  then have "cache_ok (insert p W) V ?k" by (simp add: cache_frame)
  moreover have "\<not> flag (b_flags ?k p) B_DONE" using fl by simp
  moreover have "insert p W - {p} = W" using p by auto
  ultimately show ?thesis using cache_rkstrategy(1) [of "insert p W" V ?k p] by (auto simp: results_def strategy_def split: if_splits)
qed

lemma getblk_starts:
  fixes k :: "'a kbio_scheme"
  assumes aw: "keeps_cache away" and ok: "cache_ok W V k"
  shows "results (\<lambda>(p, k'). p \<notin> W \<and> p \<notin> V \<and> p \<noteq> BNull \<and> cache_ok (insert p W) V k' \<and> busy k' p \<and> \<not> flag (b_flags k' p) B_ASYNC)
    (getblk away dev blkno k)"
proof (rule resultsI)
  fix r assume g: "getblk away dev blkno k = Some r"
  have o: "obtained W V dev blkno k r" by (rule getblk_obtains [OF g aw ok getblk_device [OF g ok]])
  obtain p k' where r: "r = (p, k')" by fastforce
  have c: "cache_ok (insert p W) V k'" using o by (simp add: r obtained_def held_def)
  then have "busy k' p \<and> p \<in> bufs" using ownbusy by (fastforce simp: cache_ok_def)
  then show "case r of (p, k') \<Rightarrow> p \<notin> W \<and> p \<notin> V \<and> p \<noteq> BNull \<and> cache_ok (insert p W) V k' \<and> busy k' p \<and> \<not> flag (b_flags k' p) B_ASYNC"
    using o by (auto simp: r obtained_def held_def)
qed

lemma cache_ok_move: "cache_ok (insert p W) V k \<Longrightarrow> p \<notin> W \<Longrightarrow> cache_ok W (insert p V) k"
  unfolding cache_ok_def using cache_inv_move [of "insert p W" V k _ _ _ _ p] by fastforce

lemma iowait_cache:
  fixes k :: "'a kbio_scheme"
  assumes "keeps_cache away" "cache_ok W (insert p V) k" "p \<notin> V"
  shows "results (cache_ok (insert p W) V) (iowait away p k)"
  using iowait_returns(1) [OF _ assms] by (simp add: results_def)

lemma breada_cache:
  fixes k :: "'a kbio_scheme"
  assumes aw: "keeps_cache away" and ok: "cache_ok W V k"
  shows "results (\<lambda>(p, k'). p \<notin> W \<and> cache_ok (insert p W) V k') (breada away dev blkno rablkno k)"
proof -
  define Q where "Q = (\<lambda>p k'. p = BNull \<and> cache_ok W V k' \<or> p \<noteq> BNull \<and> p \<notin> W \<and> p \<notin> V \<and> cache_ok W (insert p V) (k' :: 'a kbio_scheme))"
  have first: "results (\<lambda>(p, k'). Q p k') (if \<not> inc then do {
         (p, k) \<leftarrow> getblk away dev blkno k;
         if \<not> flag (b_flags k p) B_DONE then do {
           let k = set_flags p (setf (b_flags k p) B_READ) k;
           k \<leftarrow> strategy p (k\<lparr>b_wcount := (b_wcount k)(p := -256)\<rparr>);
           Some (p, k) }
         else Some (p, k) } else Some (BNull, k))" for inc
    unfolding Let_def
  proof (intro results_if results_bind_pair [OF getblk_starts [OF aw ok]])
    fix p and k :: "'a kbio_scheme"
    assume g: "p \<notin> W \<and> p \<notin> V \<and> p \<noteq> BNull \<and> cache_ok (insert p W) V k \<and> busy k p \<and> \<not> flag (b_flags k p) B_ASYNC"
    then show "results (\<lambda>(p, k'). Q p k') (Some (p, k))" by (simp add: Q_def cache_ok_move)
    assume nd: "\<not> flag (b_flags k p) B_DONE"
    have fl: "flag (setf (b_flags k p) B_READ) B_BUSY" "\<not> flag (setf (b_flags k p) B_READ) B_DONE" "\<not> flag (setf (b_flags k p) B_READ) B_ASYNC"
      using g nd by (simp_all add: flag_setf flag_num_simps)
    show "results (\<lambda>(p, k'). Q p k') (do {
      k \<leftarrow> strategy p (set_flags p (setf (b_flags k p) B_READ) k\<lparr>b_wcount := (b_wcount (set_flags p (setf (b_flags k p) B_READ) k))(p := -256)\<rparr>);
      Some (p, k) })"
      by (rule results_bind [OF strategy_cache [OF _ _ fl(1,2)]]) (use g fl(3) in \<open>simp_all add: Q_def\<close>)
  qed (simp add: Q_def ok)
  have ahead: "results (cache_ok W V') (if rablkno \<noteq> 0 then do {
         inc \<leftarrow> incore dev rablkno k;
         if inc then Some k
         else do {
           (p, k) \<leftarrow> getblk away dev rablkno k;
           if flag (b_flags k p) B_DONE then Some (brelse p k)
           else do {
             let k = set_flags p (setf (b_flags k p) (B_READ OR B_ASYNC)) k;
             strategy p (k\<lparr>b_wcount := (b_wcount k)(p := -256)\<rparr>) } } }
       else Some k)" if okV: "cache_ok W V' k" for V' k
    unfolding Let_def
  proof (intro results_if results_bind_pair [OF getblk_starts [OF aw okV]] results_bind [where Q = "\<lambda>_. True"])
    fix p and k :: "'a kbio_scheme"
    assume g: "p \<notin> W \<and> p \<notin> V' \<and> p \<noteq> BNull \<and> cache_ok (insert p W) V' k \<and> busy k p \<and> \<not> flag (b_flags k p) B_ASYNC"
    then show "results (cache_ok W V') (Some (brelse p k))" using gone(1) [OF aw] by simp
    assume nd: "\<not> flag (b_flags k p) B_DONE"
    let ?fl = "setf (b_flags k p) (B_READ OR B_ASYNC)"
    have fl: "flag ?fl B_BUSY" "\<not> flag ?fl B_DONE" "flag ?fl B_ASYNC"
      using g nd by (simp_all add: flag_setf flag_num_simps)
    show "results (cache_ok W V') (strategy p (set_flags p ?fl k\<lparr>b_wcount := (b_wcount (set_flags p ?fl k))(p := -256)\<rparr>))"
      using strategy_cache [OF _ _ fl(1,2), where W = W and V = V' and k = k and p = p and w = "(b_wcount (set_flags p ?fl k))(p := -256)"] g fl(3) by simp
  qed (simp_all add: okV results_def)
  show ?thesis unfolding breada_def
  proof (rule results_bind [where Q = "\<lambda>_. True"], simp add: results_def, rule results_bind_pair [OF first])
    fix p and k :: "'a kbio_scheme"
    assume Q: "Q p k"
    show "results (\<lambda>(p, k'). p \<notin> W \<and> cache_ok (insert p W) V k') (do {
      k \<leftarrow> (if rablkno \<noteq> 0 then do {
         inc \<leftarrow> incore dev rablkno k;
         if inc then Some k
         else do {
           (p, k) \<leftarrow> getblk away dev rablkno k;
           if flag (b_flags k p) B_DONE then Some (brelse p k)
           else do {
             let k = set_flags p (setf (b_flags k p) (B_READ OR B_ASYNC)) k;
             strategy p (k\<lparr>b_wcount := (b_wcount k)(p := -256)\<rparr>) } } }
       else Some k);
      if p = BNull then bread away dev blkno k else do { k \<leftarrow> iowait away p k; Some (p, k) } })"
    proof (rule results_bind [OF ahead [where V' = "if p = BNull then V else insert p V"]])
      show "cache_ok W (if p = BNull then V else insert p V) k" using Q by (auto simp: Q_def)
    next
      fix k :: "'a kbio_scheme"
      assume ok': "cache_ok W (if p = BNull then V else insert p V) k"
      show "results (\<lambda>(p, k'). p \<notin> W \<and> cache_ok (insert p W) V k')
        (if p = BNull then bread away dev blkno k else do { k \<leftarrow> iowait away p k; Some (p, k) })"
      proof (rule results_if)
        show "results (\<lambda>(p, k'). p \<notin> W \<and> cache_ok (insert p W) V k') (bread away dev blkno k)" if "p = BNull"
          using block_cache.readb [OF cache_provides [OF aw]] ok' that by simp
        show "results (\<lambda>(p, k'). p \<notin> W \<and> cache_ok (insert p W) V k') (do { k \<leftarrow> iowait away p k; Some (p, k) })" if "p \<noteq> BNull"
          by (rule results_bind [OF iowait_cache [OF aw]]) (use ok' that Q in \<open>auto simp: Q_def\<close>)
      qed
    qed
  qed
qed

lemma read_where_cache:
  assumes aw: "keeps_cache away" and ok: "cache_ok W V k"
  shows "results (\<lambda>(r, k'). cache_ok W V k') (read_where away ip k)"
  unfolding read_where_def Let_def
  by (intro results_intros results_bind_pair [OF bmap_cache [OF aw ok]]) (simp_all add: ok cache_frame)

lemma readi_loop_cache:
  assumes "keeps_cache away" "cache_ok W V k"
  shows "results (cache_ok W V) (readi_loop away ip k)"
proof (rule resultsI)
  fix r assume r: "readi_loop away ip k = Some r"
  show "cache_ok W V r" using assms
  proof (induction rule: readi_loop.raw_induct [OF _ r])
    case (1 f away ip k r)
    note aw = 1(3) and ok = 1(4)
    have IH: "cache_ok W V k \<Longrightarrow> results (cache_ok W V) (f away ip k)" for k using 1(1) aw by (blast intro: resultsI)
    have get: "results (\<lambda>(p, k'). p \<notin> W \<and> cache_ok (insert p W) V k') (if c then breada away dn bn ra k else bread away dn bn k)"
      if "cache_ok W V k" for c dn bn ra and k :: "'a kfs_scheme"
      using breada_cache [OF aw that] block_cache.readb [OF cache_provides [OF aw] that] by simp
    show ?case
      by (rule resultsD [OF _ 1(2)], unfold Let_def)
        (intro results_intros results_bind_pair [OF read_where_cache [OF aw ok]] results_bind_pair [OF get]
          results_bind [OF iomove_cache] IH; (elim conjE)?; simp add: cache_frame; rule gone(1) [OF aw]; assumption)
  qed
qed

lemma bawrite_cache:
  fixes k :: "'a kbio_scheme"
  assumes aw: "keeps_cache away" and p: "p \<notin> W" and ok: "cache_ok (insert p W) V k"
  shows "results (cache_ok W V) (bawrite away p k)"
proof -
  obtain av hl nl q where inv: "cache_inv (insert p W) V k av hl nl q" and act: "active_ok k q" using ok by (auto simp: cache_ok_def)
  have "flag (setf (b_flags k p) B_ASYNC) B_BUSY" using ownbusy [OF inv, of p] by (simp add: flag_setf)
  from cache_inv_flags [OF inv insertI1 this] act have "cache_ok (insert p W) V (set_flags p (setf (b_flags k p) B_ASYNC) k)"
    by (auto simp: cache_ok_def active_ok_def)
  from gone(3) [OF aw p this] show ?thesis by (simp add: bawrite_def)
qed

lemma writei_loop_cache:
  assumes "keeps_cache away" "cache_ok W V k"
  shows "results (cache_ok W V) (writei_loop away ip k)"
proof (rule resultsI)
  fix r assume r: "writei_loop away ip k = Some r"
  show "cache_ok W V r" using assms
  proof (induction rule: writei_loop.raw_induct [OF _ r])
    case (1 f away ip k r)
    note aw = 1(3) and ok = 1(4)
    have IH: "cache_ok W V k \<Longrightarrow> results (cache_ok W V) (f away ip k)" for k using 1(1) aw by (blast intro: resultsI)
    have map: "results (\<lambda>(bn, dn, k'). cache_ok W V k') (if c then do {
         (bn, k) \<leftarrow> bmap away ip b k;
         Some (if bn = 0 then None else Some bn, i_dev (inode k ip), k) }
       else Some (Some b, i_addr (inode k ip) 0, k))" for c b
      by (intro results_if results_bind_pair [OF bmap_cache [OF aw ok]]) (simp_all add: ok)
    have get: "results (\<lambda>(p, k'). p \<notin> W \<and> cache_ok (insert p W) V k') (if c then getblk away dn bn k else bread away dn bn k)"
      if "cache_ok W V k" for c dn bn and k :: "'a kfs_scheme"
      using block_cache.getb [OF cache_provides [OF aw] that] block_cache.readb [OF cache_provides [OF aw] that] by simp
    have put: "results (cache_ok W V) (if e then Some (brelse b k) else if g then bawrite away b k else Some (bdwrite b k))"
      if "b \<notin> W" "cache_ok (insert b W) V k" for b e g and k :: "'a kfs_scheme"
      using gone(1,2) [OF aw that] bawrite_cache [OF aw that] by simp
    show ?case
      by (rule resultsD [OF _ 1(2)], unfold Let_def)
        (rule results_bind [OF map], intro results_intros results_bind_pair [OF get]
          results_bind [OF iomove_cache] results_bind [OF put] IH; (elim conjE)?; simp add: cache_frame)
  qed
qed

subsection \<open>Inodes\<close>

lemma iupdat_cache:
  assumes aw: "keeps_cache away" and ok: "cache_ok W V k"
  shows "results (cache_ok W V) (iupdat away p tm k)"
  unfolding iupdat_def Let_def
  by (intro results_intros results_bind_pair [OF getfs_cache [OF ok]] got_block(2) [OF aw] gone(3) [OF aw]
      results_bind [where Q = "\<lambda>_. True"])
    (simp_all add: ok cache_frame, simp_all add: results_def)

lemma itrunc_double_cache:
  assumes aw: "keeps_cache away" and ok: "cache_ok W V k"
  shows "results (cache_ok W V) (itrunc_double away dev blk k)"
  unfolding itrunc_double_def
  by (rule block_cache.read_release [OF cache_provides [OF aw] ok]) (rule results_each; simp add: free_cache [OF aw])

lemma itrunc_indirect_cache:
  assumes aw: "keeps_cache away" and ok: "cache_ok W V k"
  shows "results (cache_ok W V) (itrunc_indirect away dev dbl blk k)"
  unfolding itrunc_indirect_def
proof (rule block_cache.read_release [OF cache_provides [OF aw] ok], rule results_each, assumption)
  fix p x and k :: "'a kfs_scheme"
  assume "cache_ok (insert p W) V k"
  then show "results (cache_ok (insert p W) V)
     (if bword (b_addr p + x) k \<noteq> 0 then do {
           k \<leftarrow> (if dbl then itrunc_double away dev (bword (b_addr p + x) k) k else Some k);
           free away dev (bword (b_addr p + x) k) k } else Some k)"
    by (intro results_if results_bind [where Q = "cache_ok (insert p W) V"] free_cache [OF aw] itrunc_double_cache [OF aw]) simp_all
qed

lemma itrunc_cache:
  assumes aw: "keeps_cache away" and ok: "cache_ok W V k"
  shows "results (cache_ok W V) (itrunc away p k)"
proof -
  have "results (cache_ok W V) (if i_addr (inode k p) i \<noteq> 0 then do {
      k \<leftarrow> (if flag (i_mode (inode k p)) ILARG
            then itrunc_indirect away (i_dev (inode k p)) (i = 7) (i_addr (inode k p) i) k else Some k);
      k \<leftarrow> free away (i_dev (inode k p)) (i_addr (inode k p) i) k;
      Some (upd_inode p (\<lambda>n. n\<lparr>i_addr := (i_addr n)(i := 0)\<rparr>) k) } else Some k)" if "cache_ok W V k" for i and k :: "'a kfs_scheme"
    by (intro results_if results_bind [where Q = "cache_ok W V"] itrunc_indirect_cache [OF aw] free_cache [OF aw])
      (simp_all add: that cache_frame)
  note step = results_each [OF ok this]
  show ?thesis unfolding itrunc_def by (rule results_if) (simp add: ok, rule results_bind [OF step], simp_all add: cache_frame)
qed

lemma iput_cache:
  assumes aw: "keeps_cache away" and ok: "cache_ok W V k"
  shows "results (cache_ok W V) (iput away p k)"
  unfolding iput_def Let_def
  by (intro results_if results_bind [where Q = "cache_ok W V"] itrunc_cache [OF aw] ifree_cache iupdat_cache [OF aw])
    (simp_all add: ok cache_frame)

lemma iget_read_cache:
  assumes aw: "keeps_cache away" and ok: "cache_ok W V k"
  shows "results (\<lambda>(r, k'). cache_ok W V k') (iget_read away dev ino p k)"
  unfolding iget_read_def Let_def
proof (rule results_bind [where Q = "\<lambda>_. True"], simp add: results_def, rule got_block(2) [OF aw], simp add: cache_frame, rule ok)
  fix b and k :: "'a kfs_scheme"
  assume b: "b \<notin> W" "cache_ok (insert b W) V k"
  have "cache_ok W V (brelse b (upd_inode p f k))" for f using b by (intro gone(1) [OF aw]) (simp_all add: cache_frame)
  then show "results (\<lambda>(r, k'). cache_ok W V k') (if flag (b_flags k b) B_ERROR then do {
       k \<leftarrow> iput away p (brelse b k);
       Some (None, k) }
     else do { a \<leftarrow> itoo ino (b_addr b); Some (Some p, brelse b (upd_inode p (inode_read a k) k)) })"
    by (intro results_if results_bind [OF iput_cache [OF aw]] gone(1) [OF aw] results_bind [where Q = "\<lambda>_. True"])
      (use b in \<open>simp_all add: results_def\<close>)
qed

lemma iget_cache:
  assumes "keeps_cache away" "cache_ok W V k"
  shows "results (\<lambda>(r, k'). cache_ok W V k') (iget away dev ino k)"
proof (rule resultsI)
  fix r assume r: "iget away dev ino k = Some r"
  show "case r of (r, k') \<Rightarrow> cache_ok W V k'" using assms
  proof (induction rule: iget.raw_induct [OF _ r])
    case (1 f away dev ino k r)
    note aw = 1(3) and ok = 1(4)
    have IH: "cache_ok W V k \<Longrightarrow> results (\<lambda>(r, k'). cache_ok W V k') (f away d i k)" for k d i
      using 1(1) aw by (blast intro: resultsI)
    show ?case
      by (rule resultsD [OF _ 1(2)])
        (intro results_intros IH results_bind [OF sleep_cache [OF aw]] results_bind [OF kprint_cache] iget_read_cache [OF aw];
          simp add: ok cache_frame)
  qed
qed

subsection \<open>Directories and names\<close>

lemma brelse_opt_cache:
  fixes away :: "'a kbio_scheme \<Rightarrow> 'a kbio_scheme option"
  assumes "keeps_cache away" "p = BNull \<and> cache_ok W V k \<or> p \<noteq> BNull \<and> p \<notin> W \<and> cache_ok (insert p W) V (k :: 'a kbio_scheme)"
  shows "cache_ok W V (brelse_opt p k)"
  using assms(2) block_cache.give_back(1) [OF cache_provides [OF assms(1)]] by (auto simp: brelse_opt_def)

lemma dirsearch_cache:
  assumes "keeps_cache away" "p = BNull \<and> cache_ok W V k \<or> p \<noteq> BNull \<and> p \<notin> W \<and> cache_ok (insert p W) V k"
  shows "results (\<lambda>(r, k'). cache_ok W V k') (dirsearch away dd eo p k)"
proof (rule resultsI)
  fix r assume r: "dirsearch away dd eo p k = Some r"
  show "case r of (r, k') \<Rightarrow> cache_ok W V k'" using assms
  proof (induction rule: dirsearch.raw_induct [OF _ r])
    case (1 f away dd eo p k r)
    note aw = 1(3)
    let ?Q = "\<lambda>p k. p = BNull \<and> cache_ok W V k \<or> p \<noteq> BNull \<and> p \<notin> W \<and> cache_ok (insert p W) V k"
    have IH: "?Q p k \<Longrightarrow> results (\<lambda>(r, k'). cache_ok W V k') (f away dd eo p k)" for eo p k using 1(1) aw by (blast intro: resultsI)
    have nb: "p \<noteq> BNull" if "cache_ok (insert p W) V k" for p and k :: "'a kfs_scheme"
      using that ownbusy by (fastforce simp: cache_ok_def)
    have rd: "results (\<lambda>(p, k'). ?Q p k') (bread away d b k)" if "cache_ok W V k" for d b and k :: "'a kfs_scheme"
      by (rule results_mono [OF block_cache.readb [OF cache_provides [OF aw] that]]) (use nb in auto)
    have get: "results (\<lambda>(p, k'). ?Q p k') (if c then do {
            lbn \<leftarrow> l;
            (bn, k) \<leftarrow> bmap away dd lbn (brelse_opt p k);
            bread away (i_dev (inode k dd)) bn k }
          else Some (p, k))" for c l
      by (intro results_if results_bind [where m = l and Q = "\<lambda>_. True"] results_bind_pair [OF bmap_cache [OF aw brelse_opt_cache [OF aw 1(4)]]] rd)
        (use 1(4) in \<open>simp_all add: results_def\<close>)
    have frame: "?Q p (upd_u g k) = ?Q p k" for p g k by (simp add: cache_frame)
    show ?case
      by (rule resultsD [OF _ 1(2)], unfold Let_def)
        (rule results_if, simp add: brelse_opt_cache [OF aw 1(4)],
         rule results_bind_pair [OF get], intro results_intros IH; simp add: frame brelse_opt_cache [OF aw])
  qed
qed

lemma namei_out_cache:
  assumes "keeps_cache away" "cache_ok W V k"
  shows "results (\<lambda>(r, k'). cache_ok W V k') (namei_out away dd k)"
  unfolding namei_out_def by (rule results_bind [OF iput_cache [OF assms]]) simp

text \<open>The function that delivers the characters of a name leaves the cache alone.\<close>

definition plain_source :: "('a kfs_scheme \<Rightarrow> u8 \<times> 'a kfs_scheme) \<Rightarrow> bool" where
  "plain_source func \<longleftrightarrow> (\<forall>W V k. cache_ok W V (snd (func k)) = cache_ok W V k)"

lemma uchar_plain: "plain_source uchar"
  by (simp add: plain_source_def uchar_def cache_frame)

lemma skip_slash_cache:
  assumes "plain_source func" "cache_ok W V k"
  shows "results (\<lambda>(c, k'). cache_ok W V k') (skip_slash func c k)"
proof (rule resultsI)
  fix r assume r: "skip_slash func c k = Some r"
  show "case r of (c, k') \<Rightarrow> cache_ok W V k'" using assms
  proof (induction rule: skip_slash.raw_induct [OF _ r])
    case (1 f func c k r)
    have "cache_ok W V k'" if "func k = (c', k')" for c' k'
      using 1(3,4) that unfolding plain_source_def by (metis snd_conv)
    then show ?case using 1 by (auto split: if_splits prod.splits)
  qed
qed

lemma gather_cache:
  fixes k :: "'a kfs_scheme"
  assumes "plain_source func" "cache_ok W V k"
  shows "results (\<lambda>(nm, c, k'). cache_ok W V k') (gather func nm c k)"
proof (rule resultsI)
  fix r assume r: "gather func nm c k = Some r"
  show "case r of (nm, c, k') \<Rightarrow> cache_ok W V k'" using assms
  proof (induction rule: gather.raw_induct [OF _ r])
    case (1 f func nm c k r)
    have "cache_ok W V k'" if "func k = (c', k')" for c' k'
      using 1(3,4) that unfolding plain_source_def by (metis snd_conv)
    then show ?case using 1 by (auto split: if_splits prod.splits)
  qed
qed

lemma namei_comp_cache:
  assumes aw: "keeps_cache away" and fn: "plain_source func" and ok: "cache_ok W V k"
  shows "results (\<lambda>(r, k'). cache_ok W V k') (namei_comp away func dd c k)"
proof -
  have g: "results (\<lambda>(nm, ck). cache_ok W V (snd ck)) (gather func [] c k)"
    by (rule results_mono [OF gather_cache [OF fn ok]]) auto
  show ?thesis unfolding namei_comp_def Let_def
    by (rule results_bind_pair [OF g], rule results_pair, rule results_bind_pair [OF skip_slash_cache [OF fn]], simp add: cache_frame,
        intro results_intros results_bind [where Q = "\<lambda>_. True"] results_bind_pair [OF dirsearch_cache [OF aw]])
      (simp_all add: cache_frame, simp_all add: results_def)
qed

lemma namei_loop_cache:
  assumes "keeps_cache away" "plain_source func" "cache_ok W V k"
  shows "results (\<lambda>(r, k'). cache_ok W V k') (namei_loop away func fl dd c k)"
proof (rule resultsI)
  fix r assume r: "namei_loop away func fl dd c k = Some r"
  show "case r of (r, k') \<Rightarrow> cache_ok W V k'" using assms
  proof (induction rule: namei_loop.raw_induct [OF _ r])
    case (1 f away func fl dd c k r)
    note aw = 1(3) and fn = 1(4) and ok = 1(5)
    have IH: "cache_ok W V k \<Longrightarrow> results (\<lambda>(r, k'). cache_ok W V k') (f away func fl dd c k)" for k dd c
      using 1(1) aw fn by (blast intro: resultsI)
    show ?case
      by (rule resultsD [OF _ 1(2)], unfold Let_def)
        (intro results_intros IH namei_out_cache [OF aw] results_bind_pair [OF access_cache] results_bind_pair [OF namei_comp_cache [OF aw fn]]
          results_bind [OF iput_cache [OF aw]] results_bind_pair [OF iget_cache [OF aw]]; auto simp: ok cache_frame)
  qed
qed

lemma namei_cache:
  assumes aw: "keeps_cache away" and fn: "plain_source func" and ok: "cache_ok W V k"
  shows "results (\<lambda>(r, k'). cache_ok W V k') (namei away func fl k)"
proof -
  have "cache_ok W V k'" if "func k = (c', k')" for c' k'
    using fn ok that unfolding plain_source_def by (metis snd_conv)
  then show ?thesis unfolding namei_def Let_def
    by (intro results_intros namei_out_cache [OF aw] namei_loop_cache [OF aw fn] results_bind_pair [OF iget_cache [OF aw]]
        results_bind_pair [OF skip_slash_cache [OF fn]])
      (simp_all add: ok cache_frame)
qed

subsection \<open>A concrete file system state\<close>

definition no_tty :: tty where
  "no_tty = \<lparr>t_rawq = \<lparr>c_cc = 0, c_cf = 0, c_cl = 0\<rparr>, t_canq = \<lparr>c_cc = 0, c_cf = 0, c_cl = 0\<rparr>,
     t_outq = \<lparr>c_cc = 0, c_cf = 0, c_cl = 0\<rparr>, t_flags = 0, t_addr = False, t_delct = 0, t_col = 0, t_erase = 0, t_kill = 0,
     t_state = 0, t_speeds = 0, t_dev = 0\<rparr>"

definition no_inode :: inode where
  "no_inode = \<lparr>i_flag = 0, i_count = 0, i_dev = 0, i_number = 0, i_mode = 0, i_nlink = 0, i_uid = 0, i_gid = 0,
     i_size0 = 0, i_size1 = 0, i_addr = (\<lambda>_. 0), i_lastr = 0\<rparr>"

definition ex_fs :: kfs where
  "ex_fs = kbio.extend ex_disk \<lparr>console = [], clists = \<lparr>c_next = (\<lambda>_. 0), info = (\<lambda>_. 0), cfreelist = 0\<rparr>, canonb = (\<lambda>_. 0),
     kl11 = (\<lambda>_. no_tty), tttcsr = 0, kbd_shift = 0,
     inode = (\<lambda>_. no_inode)(7 := no_inode\<lparr>i_count := 2, i_number := 1, i_mode := 0xC1FF\<rparr>),
     filetab = (\<lambda>_. \<lparr>f_flag = 0, f_count = 0, f_inode = 0, f_offset = (0, 0)\<rparr>),
     mount = (\<lambda>_. \<lparr>m_dev = 0, m_bufp = BNull, m_inodp = None\<rparr>), rootdir = 7, rootdev = 0, updlock = 0, execnt = 0, nchrdev = 2\<rparr>"

lemma ex_fs_sel [simp]:
  "d_actf ex_fs = BNull" "d_active ex_fs = 0" "u ex_fs = no_user\<lparr>u_procp := 1\<rparr>"
  "inode ex_fs = (\<lambda>_. no_inode)(7 := no_inode\<lparr>i_count := 2, i_number := 1, i_mode := 0xC1FF\<rparr>)"
  "filetab ex_fs = (\<lambda>_. \<lparr>f_flag = 0, f_count = 0, f_inode = 0, f_offset = (0, 0)\<rparr>)"
  by (simp_all add: ex_fs_def ex_disk_def kbio.defs kproc.defs ex_kernel_def)

lemma binit_inode: "inode (binit k) = inode k" for k :: kfs
proof -
  have "inode (wakeup c k) = inode k" if "c \<noteq> NoChan" for c and k :: kfs
  proof -
    have "kproc.more (wakeup c k) = kproc.more k" using that by simp
    then show ?thesis by (cases k; cases "wakeup c k"; simp)
  qed
  then have "inode (brelse p k) = inode k" for p and k :: kfs by (simp add: brelse_def Let_def set_flags_def spl_def)
  then have "inode (binit_one i k) = inode k" for i and k :: kfs by (simp add: binit_one_def Let_def set_flags_def)
  then have "inode (fold binit_one xs k) = inode k" for xs and k :: kfs by (induction xs arbitrary: k) simp_all
  then show ?thesis by (simp add: binit_def Let_def del: upt_conv_Cons upt_rec_numeral)
qed

lemma ex_fs_cache: "cache_ok {} {} (binit ex_fs)"
  using binit_lists(1,3) [OF ex_fs_sel(1)] by (auto simp: cache_ok_def active_ok_def)

subsection \<open>Properties\<close>





end
