(* ===== verification/Files.thy ===== *)
theory Files
  imports Balance
begin

unbundle bit_operations_syntax

text \<open>
  Properties of the file system below the system calls: permissions, descriptors, the free list of a
  volume, inodes on the volume, the map from logical to physical blocks, and the transfer of bytes.
\<close>

subsection \<open>Words in buffers\<close>

lemma word_of_bytes: "(ucast (ucast v :: u8) :: u16) OR push_bit 8 (ucast (ucast (drop_bit 8 v) :: u8)) = v"
  by (rule bit_word_eqI) (auto simp: bit_simps)

lemma bword_set_bword [simp]: "bword a (set_bword a v k) = v"
  by (simp add: bword_def set_bword_def word_of_bytes)

lemma bword_set_other: "a + 2 \<le> b \<or> b + 2 \<le> a \<Longrightarrow> bword b (set_bword a v k) = bword b k"
  by (auto simp: bword_def set_bword_def)

lemma bword_set_bbyte: "a + 1 \<le> b \<or> b + 2 \<le> a \<Longrightarrow> bword b (set_bbyte a c k) = bword b k"
  by (auto simp: bword_def set_bbyte_def)

subsection \<open>Permissions\<close>

text \<open>What the protection bits allow: \<open>b\<close> is the number of the owner's bit, 8 to read, 7 to write and 6 to
  execute; the bits of the group are three lower, those of the others six.\<close>

definition allowed :: "u8 \<Rightarrow> u8 \<Rightarrow> inode \<Rightarrow> nat \<Rightarrow> bool" where
  "allowed uid gid i b \<longleftrightarrow>
     (if uid = 0 then b \<noteq> 6 \<or> bit (i_mode i) 6 \<or> bit (i_mode i) 3 \<or> bit (i_mode i) 0
      else bit (i_mode i) (if uid = i_uid i then b else if gid = i_gid i then b - 3 else b - 6))"

lemma flag_bit: "n < 16 \<Longrightarrow> flag x (push_bit n 1) = bit x n" for x :: u16
  by (auto simp: flag_iff bit_simps)

lemma flag_bits:
  fixes x :: u16
  shows "flag x 1 = bit x 0" "flag x 2 = bit x 1" "flag x 4 = bit x 2" "flag x 8 = bit x 3" "flag x 16 = bit x 4"
    "flag x 32 = bit x 5" "flag x 64 = bit x 6" "flag x 128 = bit x 7" "flag x 256 = bit x 8"
  using flag_bit [of 0 x] flag_bit [of 1 x] flag_bit [of 2 x] flag_bit [of 3 x] flag_bit [of 4 x] flag_bit [of 5 x]
    flag_bit [of 6 x] flag_bit [of 7 x] flag_bit [of 8 x] by simp_all

lemma flag_any_exec: "flag x (IEXEC OR drop_bit 3 IEXEC OR drop_bit 6 IEXEC) \<longleftrightarrow> bit x 6 \<or> bit x 3 \<or> bit x 0" for x :: u16
proof -
  have or: "flag x (a OR b) \<longleftrightarrow> flag x a \<or> flag x b" for a b :: u16 by (auto simp: flag_iff bit_simps)
  have "drop_bit 3 IEXEC = (8 :: u16)" "drop_bit 6 IEXEC = (1 :: u16)" by simp_all
  then show ?thesis by (simp only: or flag_bits disj_assoc)
qed

lemma access_bits:
  fixes k :: "'a kfs_scheme"
  assumes b: "b \<in> {6, 7, 8}" and m: "m = push_bit b (1 :: u16)"
  shows "(if u_uid (u k) = 0 then
       if m = IEXEC \<and> \<not> flag (i_mode (inode k ip)) (IEXEC OR drop_bit 3 IEXEC OR drop_bit 6 IEXEC)
       then Some (True, set_error EACCES k) else Some (False, k)
     else do {
       let m = (if u_uid (u k) \<noteq> i_uid (inode k ip) then
                  if u_gid (u k) \<noteq> i_gid (inode k ip) then drop_bit 3 (drop_bit 3 m) else drop_bit 3 m
                else m);
       if flag (i_mode (inode k ip)) m then Some (False, k) else Some (True, set_error EACCES k) }) =
    (if allowed (u_uid (u k)) (u_gid (u k)) (inode k ip) b then Some (False, k) else Some (True, set_error EACCES k))"
  unfolding flag_any_exec allowed_def Let_def using b by (auto simp: m flag_bits)

text \<open>Reading a super block changes nothing but the buffers and the console.\<close>

lemma getfs_frame:
  assumes "getfs dev k = Some (fp, k')"
  shows "u k' = u k" "inode k' = inode k"
  using assms by (auto simp: getfs_def kprint_def set_ninode_def set_nfree_def set_bword_def Let_def
      split: option.splits if_splits Option.bind_splits)

text \<open>C21: \<open>access\<close> decides by the protection bits: to read or execute it is allowed exactly when the bit of the
  caller's class (owner, else group, else others) is set, the super-user being held only to one of the
  three execute bits; refusal sets \<open>EACCES\<close> and changes nothing else.  To write, a volume mounted read-only
  refuses with \<open>EROFS\<close> and a text in use with \<open>ETXTBSY\<close>, before the same test.\<close>

theorem access_decides:
  "(b \<in> {6, 8} \<longrightarrow> access ip (push_bit b 1) k =
      (if allowed (u_uid (u k)) (u_gid (u k)) (inode k ip) b then Some (False, k) else Some (True, set_error EACCES k))) \<and>
   (\<forall>fp k'. getfs (i_dev (inode k ip)) k = Some (fp, k') \<longrightarrow> access ip (push_bit 7 1) k =
      (if s_ronly fp k' \<noteq> 0 then Some (True, set_error EROFS k')
       else if flag (i_flag (inode k ip)) ITEXT then Some (True, set_error ETXTBSY k')
       else if allowed (u_uid (u k)) (u_gid (u k)) (inode k ip) 7 then Some (False, k') else Some (True, set_error EACCES k')))"
proof (intro conjI allI impI)
  assume b: "b \<in> {6, 8}"
  define m where "m = push_bit b (1 :: u16)"
  have m: "(m = IWRITE) = False" using b by (auto simp: m_def)
  have "access ip m k = (if allowed (u_uid (u k)) (u_gid (u k)) (inode k ip) b then Some (False, k) else Some (True, set_error EACCES k))"
    unfolding access_def m if_False simp_thms Option.bind.bind_lunit prod.case
    by (rule access_bits [OF _ m_def]) (use b in auto)
  then show "access ip (push_bit b 1) k =
      (if allowed (u_uid (u k)) (u_gid (u k)) (inode k ip) b then Some (False, k) else Some (True, set_error EACCES k))" by (simp only: m_def)
next
  fix fp k'
  assume g: "getfs (i_dev (inode k ip)) k = Some (fp, k')"
  define m where "m = push_bit 7 (1 :: u16)"
  have m: "(m = IWRITE) = True" by (simp add: m_def)
  have "access ip m k =
      (if s_ronly fp k' \<noteq> 0 then Some (True, set_error EROFS k')
       else if flag (i_flag (inode k' ip)) ITEXT then Some (True, set_error ETXTBSY k')
       else if allowed (u_uid (u k')) (u_gid (u k')) (inode k' ip) 7 then Some (False, k') else Some (True, set_error EACCES k'))"
    unfolding access_def m if_True simp_thms g Option.bind.bind_lunit prod.case
    by (subst access_bits [OF _ m_def]) (simp_all only: insert_iff simp_thms)
  then show "access ip (push_bit 7 1) k =
      (if s_ronly fp k' \<noteq> 0 then Some (True, set_error EROFS k')
       else if flag (i_flag (inode k ip)) ITEXT then Some (True, set_error ETXTBSY k')
       else if allowed (u_uid (u k)) (u_gid (u k)) (inode k ip) 7 then Some (False, k') else Some (True, set_error EACCES k'))"
    by (simp only: m_def getfs_frame [OF g])
qed

theorem access_decides_witness:
  "access 7 (push_bit 6 1) (ex_fs\<lparr>inode := (\<lambda>_. no_inode\<lparr>i_mode := 0x8049\<rparr>)\<rparr>) = Some (False, ex_fs\<lparr>inode := (\<lambda>_. no_inode\<lparr>i_mode := 0x8049\<rparr>)\<rparr>)"
  using access_decides [of 6 7 "ex_fs\<lparr>inode := (\<lambda>_. no_inode\<lparr>i_mode := 0x8049\<rparr>)\<rparr>"]
  by (simp add: allowed_def no_user_def bit_numeral_rec)

subsection \<open>Descriptors\<close>

lemma find_least:
  "find P [0..<n] = (if \<exists>i < n. P i then Some (LEAST i. P i) else None)"
proof (cases "\<exists>i < n. P i")
  case True
  define m where "m = (LEAST i. P i)"
  obtain i where i: "i < n" "P i" using True by blast
  have "P m" unfolding m_def using i(2) by (rule LeastI)
  moreover have "m \<le> i" unfolding m_def using i(2) by (rule Least_le)
  moreover have "\<not> P j" if "j < m" for j using that unfolding m_def by (rule not_less_Least)
  ultimately have "find P [0..<n] = Some m" unfolding find_Some_iff using i(1) by (intro exI [of _ m]) simp
  with True show ?thesis by (simp add: m_def)
qed (auto simp: find_None_iff)

lemma sint_of_nat_small: "n < 32768 \<Longrightarrow> sint (of_nat n :: u16) = int n"
  by (subst sint_small) (simp_all add: unat_of_nat)

lemma printk_plain: "CHR ''%'' \<notin> set fmt \<Longrightarrow> \<exists>s. printk fmt as = Some s"
  by (induction fmt) auto

lemma no_file_message: "\<exists>s. printk (''no file'' @ [CHR 0x0A]) [] = Some s"
  by (rule printk_plain) simp

text \<open>\<open>falloc\<close> gives the lowest free descriptor of the process and the first free entry of the file table:
  afterwards \<open>getf\<close> on the number returned to the user finds that entry, with one reference and offset
  zero, and no other descriptor or entry has changed.  Without a free descriptor it fails with \<open>EMFILE\<close>
  and without a free entry with \<open>ENFILE\<close> (and a message), in both cases leaving all descriptors and
  entries as they were.\<close>

theorem falloc_descriptors:
  fixes k :: "'a kfs_scheme"
  shows "\<exists>r k'. falloc k = Some (r, k') \<and>
    (let fd = (\<lambda>i. u_ofile (u k) i = None); fr = (\<lambda>q. f_count (filetab k q) = 0) in
     case r of
       None \<Rightarrow> u_ofile (u k') = u_ofile (u k) \<and> filetab k' = filetab k \<and>
         ((\<forall>i < NOFILE. \<not> fd i) \<and> u_error (u k') = EMFILE \<or> (\<forall>q < NFILE. \<not> fr q) \<and> u_error (u k') = ENFILE)
     | Some fp \<Rightarrow> fp = (LEAST q. fr q) \<and> fp < NFILE \<and> f_count (filetab k' fp) = 1 \<and> f_offset (filetab k' fp) = (0, 0) \<and>
         (\<forall>q. q \<noteq> fp \<longrightarrow> filetab k' q = filetab k q) \<and>
         u_ar0 (u k') 0 = of_nat (LEAST i. fd i) \<and> fst (getf (u_ar0 (u k') 0) k') = Some fp \<and>
         (\<forall>i. i \<noteq> (LEAST i. fd i) \<longrightarrow> u_ofile (u k') i = u_ofile (u k) i))"
proof -
  let ?fd = "\<lambda>i. u_ofile (u k) i = None" and ?fr = "\<lambda>q. f_count (filetab k q) = 0"
  show ?thesis
  proof (cases "\<exists>i < NOFILE. ?fd i")
    case False
    then have "ufalloc k = (None, set_error EMFILE k)" unfolding ufalloc_def find_least by auto
    then have "falloc k = Some (None, set_error EMFILE k)" unfolding falloc_def by simp
    with False show ?thesis by (simp add: set_error_def upd_u_def)
  next
    case True
    define i where "i = (LEAST i. ?fd i)"
    have i: "i < NOFILE" using True Least_le [of ?fd] by (auto simp: i_def intro: le_less_trans)
    define k1 where "k1 = set_r0 (of_nat i) k"
    have k1: "filetab k1 = filetab k" "u_ofile (u k1) = u_ofile (u k)" "u_ar0 (u k1) 0 = of_nat i" by (simp_all add: k1_def set_r0_def upd_u_def)
    have uf: "ufalloc k = (Some i, k1)" using True unfolding ufalloc_def find_least by (simp add: i_def k1_def)
    show ?thesis
    proof (cases "\<exists>q < NFILE. ?fr q")
      case True
      define fp where "fp = (LEAST q. ?fr q)"
      have fp: "fp < NFILE" "?fr fp" using True Least_le [of ?fr] LeastI_ex [of ?fr] by (auto simp: fp_def intro: le_less_trans)
      define k2 where "k2 = upd_file fp (\<lambda>f. f\<lparr>f_count := f_count f + 1, f_offset := (0, 0)\<rparr>)
        (upd_u (\<lambda>w. w\<lparr>u_ofile := (u_ofile w)(i := Some fp)\<rparr>) k1)"
      have "find (\<lambda>fp. f_count (filetab k1 fp) = 0) [0..<NFILE] = Some fp" unfolding k1(1) find_least using True by (simp only: fp_def if_True)
      then have "falloc k = Some (Some fp, k2)"
        unfolding falloc_def uf by (simp add: k2_def Let_def del: upt_conv_Cons upt_rec_numeral)
      moreover have "filetab k2 = (filetab k)(fp := (filetab k fp)\<lparr>f_count := 1, f_offset := (0, 0)\<rparr>)"
        "u_ofile (u k2) = (u_ofile (u k))(i := Some fp)" "u_ar0 (u k2) 0 = of_nat i"
        using fp(2) k1 by (simp_all add: k2_def upd_file_def upd_u_def)
      moreover have "fst (getf (of_nat i) k2) = Some fp"
      proof -
        have s: "sint (of_nat i :: u16) = int i" using i by (intro sint_of_nat_small) simp
        show ?thesis using i calculation(3) by (simp add: getf_def s)
      qed
      ultimately show ?thesis using fp(1) by (simp add: fp_def i_def Let_def)
    next
      case False
      obtain s where "printk (''no file'' @ [CHR 0x0A]) [] = Some s" using no_file_message by blast
      moreover have "find (\<lambda>fp. f_count (filetab k1 fp) = 0) [0..<NFILE] = None" unfolding k1(1) find_least using False by (simp only: if_False)
      ultimately have "falloc k = Some (None, set_error ENFILE (k1\<lparr>console := console k1 @ s\<rparr>))"
        unfolding falloc_def uf by (simp add: kprint_def del: upt_conv_Cons upt_rec_numeral printk.simps append.simps)
      with False k1 show ?thesis by (simp add: set_error_def upd_u_def)
    qed
  qed
qed

theorem falloc_descriptors_witness:
  "\<exists>k'. falloc ex_fs = Some (Some 0, k') \<and> fst (getf (u_ar0 (u k') 0) k') = Some 0"
proof -
  have l: "(LEAST q :: nat. f_count (filetab ex_fs q) = 0) = 0" by (rule Least_equality) simp_all
  obtain r k' where f: "falloc ex_fs = Some (r, k')"
    and c: "case r of None \<Rightarrow> (\<forall>i < NOFILE. u_ofile (u ex_fs) i \<noteq> None) \<or> (\<forall>q < NFILE. f_count (filetab ex_fs q) \<noteq> 0)
      | Some fp \<Rightarrow> fp = (LEAST q. f_count (filetab ex_fs q) = 0) \<and> fst (getf (u_ar0 (u k') 0) k') = Some fp"
    using falloc_descriptors [of ex_fs] by (auto simp: Let_def split: option.splits)
  have "r \<noteq> None"
  proof
    assume "r = None"
    with c have "(\<forall>i < NOFILE. u_ofile (u ex_fs) i \<noteq> None) \<or> (\<forall>q < NFILE. f_count (filetab ex_fs q) \<noteq> 0)" by simp
    then show False by (auto simp: no_user_def dest: spec [of _ 0])
  qed
  then show ?thesis using f c l by auto
qed

subsection \<open>The free list of a volume\<close>

text \<open>The block numbers in core, the next to be allocated last.\<close>

definition free_list :: "nat \<Rightarrow> 'a kbio_scheme \<Rightarrow> u16 list" where
  "free_list fp k = map (\<lambda>i. s_free fp i k) [0..<nat (sint (s_nfree fp k))]"

text \<open>A block that \<open>badblock\<close> accepts.\<close>

definition good_block :: "nat \<Rightarrow> u16 \<Rightarrow> 'a kbio_scheme \<Rightarrow> bool" where
  "good_block fp bno k \<longleftrightarrow> sint (s_isize fp k + 2) \<le> sint bno \<and> sint bno < sint (s_fsize fp k)"

lemma badblock_good: "badblock fp bno dev k = Some (False, k)" if "good_block fp bno k"
  using that by (auto simp: badblock_def good_block_def)

lemma s_free_set_nfree [simp]: "s_free fp i (set_nfree fp v k) = s_free fp i k"
  unfolding set_nfree_def by (rule bword_set_other) simp

lemma s_nfree_set_nfree [simp]: "s_nfree fp (set_nfree fp v k) = v"
  by (simp add: set_nfree_def)

lemma s_nfree_set_free [simp]: "s_nfree fp (set_free fp i v k) = s_nfree fp k"
  unfolding set_free_def by (rule bword_set_other) simp

lemma s_free_set_free [simp]: "s_free fp j (set_free fp i v k) = (if j = i then v else s_free fp j k)"
  unfolding set_free_def by (auto intro: bword_set_other)

lemma good_block_frame [simp]:
  "good_block fp b (set_nfree fp v k) = good_block fp b k" "good_block fp b (set_free fp i v k) = good_block fp b k"
  "good_block fp b (set_fmod fp c k) = good_block fp b k"
  unfolding good_block_def set_nfree_def set_free_def set_fmod_def
  by (simp_all add: bword_set_other bword_set_bbyte)

lemma free_frame_fmod [simp]:
  "s_nfree fp (set_fmod fp c k) = s_nfree fp k" "i < 100 \<Longrightarrow> s_free fp i (set_fmod fp c k) = s_free fp i k"
  unfolding set_fmod_def by (simp_all add: bword_set_bbyte)

lemma nfree_step:
  fixes n :: u16
  assumes "1 \<le> sint n" "sint n < 100"
  shows "sint (n + 1) = sint n + 1" "nat (sint (n + 1)) = Suc (nat (sint n))" "unat n = nat (sint n)" "n + 1 - 1 = n"
proof -
  have "sint (n + 1) = signed_take_bit 15 (sint n + 1)" by (simp add: sint_word_ariths)
  also have "\<dots> = sint n + 1" by (rule signed_take_bit_int_eq_self) (use assms in simp_all)
  finally show s: "sint (n + 1) = sint n + 1" .
  then show "nat (sint (n + 1)) = Suc (nat (sint n))" using assms by simp
  show "n + 1 - 1 = n" by simp
  have "n = of_nat (nat (sint n))" using assms(1) by simp
  moreover have "unat (of_nat (nat (sint n)) :: u16) = nat (sint n)" using assms(2) by (simp add: unat_of_nat)
  ultimately show "unat n = nat (sint n)" by metis
qed

lemma alloc_pop_last:
  fixes k :: "'a kfs_scheme"
  assumes n: "0 < sint (s_nfree fp k)" and b: "s_free fp (unat (s_nfree fp k - 1)) k = bno" "bno \<noteq> 0" "good_block fp bno k"
  shows "alloc_pop fp dev k = Some (Some bno, set_nfree fp (s_nfree fp k - 1) k)"
proof -
  have "badblock fp bno dev (set_nfree fp (s_nfree fp k - 1) k) = Some (False, set_nfree fp (s_nfree fp k - 1) k)"
    using b(3) by (intro badblock_good) simp
  then show ?thesis using n b by (subst alloc_pop.simps) (simp add: Let_def)
qed

text \<open>A freed block is the next one allocated: \<open>free\<close> of a block of the volume puts it at the end of the
  free list in core (when that has room), marks the super block modified and sleeps for nothing; the next
  allocation from that state takes this block off again and leaves the free list as it was.\<close>

theorem free_alloc_roundtrip:
  fixes k :: "'a kfs_scheme"
  assumes fs: "getfs dev k = Some (fp, k)" and lk: "s_flock fp k = 0" and n: "1 \<le> sint (s_nfree fp k)" "sint (s_nfree fp k) < 100"
    and b: "good_block fp bno k" "bno \<noteq> 0"
  shows "\<exists>k1 k2. free away dev bno k = Some k1 \<and> free_list fp k1 = free_list fp k @ [bno] \<and> s_fmod fp k1 = 1 \<and>
    alloc_pop fp dev k1 = Some (Some bno, k2) \<and> free_list fp k2 = free_list fp k"
proof -
  define m where "m = s_nfree fp k"
  define k0 where "k0 = set_fmod fp 1 k"
  define k1 where "k1 = set_fmod fp 1 (set_nfree fp (m + 1) (set_free fp (unat m) bno k0))"
  have st: "sint (m + 1) = sint m + 1" "nat (sint (m + 1)) = Suc (nat (sint m))" "unat m = nat (sint m)" "m + 1 - 1 = m"
    using nfree_step [of m] n by (simp_all add: m_def)
  have i: "unat m < 100" using n st(3) by (simp add: m_def)
  have nf: "s_nfree fp k0 = m" by (simp add: k0_def m_def)
  have "buffers k0 (fp + 408) = 0" using lk by (simp add: k0_def set_fmod_def set_bbyte_def)
  then have "lock_wait away (fp + 408) (ChFlock fp) k0 = Some k0" by (simp add: lock_wait.simps)
  moreover have "badblock fp bno dev k0 = Some (False, k0)" using b(1) by (intro badblock_good) (simp add: k0_def)
  moreover have "\<not> sint (s_nfree fp k0) \<le> 0" "\<not> 100 \<le> sint (s_nfree fp k0)" using n nf by (simp_all add: m_def)
  ultimately have f: "free away dev bno k = Some k1"
    unfolding free_def fs Let_def by (simp add: k0_def [symmetric] k1_def nf)
  have nf1: "s_nfree fp k1 = m + 1" by (simp add: k1_def)
  have fr1: "s_free fp j k1 = (if j = unat m then bno else s_free fp j k)" if "j < 100" for j
    using that by (simp add: k1_def k0_def)
  have l1: "free_list fp k1 = free_list fp k @ [bno]"
    unfolding free_list_def nf1 st(2) using i fr1 st(3) by (simp add: m_def [symmetric])
  have "alloc_pop fp dev k1 = Some (Some bno, set_nfree fp (s_nfree fp k1 - 1) k1)"
    by (rule alloc_pop_last) (use n st i fr1 b in \<open>simp_all add: nf1 m_def [symmetric] k1_def k0_def\<close>)
  moreover have "free_list fp (set_nfree fp (s_nfree fp k1 - 1) k1) = free_list fp k"
    unfolding free_list_def using i fr1 st(3) by (simp add: nf1 m_def [symmetric])
  moreover have "s_fmod fp k1 = 1" by (simp add: k1_def set_fmod_def set_bbyte_def)
  ultimately show ?thesis using f l1 by blast
qed

definition ex_volume :: kfs where
  "ex_volume = ex_fs\<lparr>mount := (\<lambda>_. \<lparr>m_dev = 0, m_bufp = BNull, m_inodp = None\<rparr>)(0 := \<lparr>m_dev = 0, m_bufp = Buf 0, m_inodp = None\<rparr>),
     buffers := (\<lambda>_. 0)(0 := 2, 2 := 100, 4 := 1)\<rparr>"

lemma ex_volume_super:
  "getfs 0 ex_volume = Some (0, ex_volume)" "s_isize 0 ex_volume = 2" "s_fsize 0 ex_volume = 100" "s_nfree 0 ex_volume = 1"
  "s_flock 0 ex_volume = 0"
  by (simp_all add: ex_volume_def getfs_def bword_def upt_rec)

theorem free_alloc_roundtrip_witness:
  "\<exists>k1 k2. free disk_only 0 50 ex_volume = Some k1 \<and> alloc_pop 0 0 k1 = Some (Some 50, k2) \<and> free_list 0 k2 = free_list 0 ex_volume"
proof -
  have "good_block 0 50 ex_volume" unfolding good_block_def ex_volume_super by simp
  then show ?thesis
    using free_alloc_roundtrip [OF ex_volume_super(1,5), of 50 disk_only] unfolding ex_volume_super(4) by auto
qed

lemma prdev_total: "\<exists>s. prdev str dev = Some s"
proof -
  have "\<exists>s. printn n 10 = Some s" for n using printn_prints [of 10 n] by auto
  then obtain s t where "printn (unat (signed_drop_bit 8 dev)) 10 = Some s" "printn (unat (and dev 255)) 10 = Some t" by blast
  then show ?thesis by (simp add: prdev_def convert_def)
qed

lemma badblock_total:
  "\<exists>k'. badblock fp bn dev k = Some (\<not> good_block fp bn k, k') \<and> buffers k' = buffers k"
  using prdev_total [of "''bad block''" dev] by (auto simp: badblock_def good_block_def kprint_def)

text \<open>popping the free list ends, whatever the list holds, and never hands out a block outside the data
  area of the volume: a block number that is returned lies between the end of the inodes and the end of
  the volume, is not zero, and the list has become shorter; bad entries on the way are dropped.\<close>

theorem alloc_pop_in_range:
  fixes k :: "'a kfs_scheme"
  shows "\<exists>r k'. alloc_pop fp dev k = Some (r, k') \<and>
    (\<forall>bno. r = Some bno \<longrightarrow> bno \<noteq> 0 \<and> sint (s_isize fp k + 2) \<le> sint bno \<and> sint bno < sint (s_fsize fp k) \<and>
       sint (s_nfree fp k') < sint (s_nfree fp k))"
proof (induction "nat (sint (s_nfree fp k))" arbitrary: k rule: less_induct)
  case less
  show ?case
  proof (cases "sint (s_nfree fp k) \<le> 0")
    case True
    then show ?thesis by (simp add: alloc_pop.simps)
  next
    case False
    define k1 where "k1 = set_nfree fp (s_nfree fp k - 1) k"
    define bno where "bno = s_free fp (unat (s_nfree fp k1)) k1"
    have nf: "sint (s_nfree fp k1) = sint (s_nfree fp k) - 1"
    proof -
      have "sint (s_nfree fp k - 1) = signed_take_bit 15 (sint (s_nfree fp k) - 1)" by (simp add: sint_word_ariths)
      also have "\<dots> = sint (s_nfree fp k) - 1"
        by (rule signed_take_bit_int_eq_self) (use False sint_lt [of "s_nfree fp k"] in simp_all)
      finally show ?thesis by (simp add: k1_def)
    qed
    have g1: "good_block fp b k1 = good_block fp b k" for b by (simp add: k1_def)
    show ?thesis
    proof (cases "bno = 0")
      case True
      with False show ?thesis by (subst alloc_pop.simps) (simp add: Let_def k1_def bno_def)
    next
      case nz: False
      obtain k2 where bb: "badblock fp bno dev k1 = Some (\<not> good_block fp bno k1, k2)" and k2: "buffers k2 = buffers k1"
        using badblock_total by blast
      have w: "bword a k2 = bword a k1" for a by (simp add: bword_def k2)
      have eq: "alloc_pop fp dev k = (if good_block fp bno k then Some (Some bno, k2) else alloc_pop fp dev k2)"
        using False nz bb by (subst alloc_pop.simps) (simp add: Let_def k1_def [symmetric] bno_def [symmetric] g1)
      show ?thesis
      proof (cases "good_block fp bno k")
        case True
        then show ?thesis using eq nz nf w by (simp add: good_block_def)
      next
        case bad: False
        have "nat (sint (s_nfree fp k2)) < nat (sint (s_nfree fp k))" using nf False by (simp add: w)
        from less [OF this] obtain r k' where r: "alloc_pop fp dev k2 = Some (r, k')"
          "\<forall>b. r = Some b \<longrightarrow> b \<noteq> 0 \<and> sint (s_isize fp k2 + 2) \<le> sint b \<and> sint b < sint (s_fsize fp k2) \<and>
             sint (s_nfree fp k') < sint (s_nfree fp k2)" by blast
        have "s_isize fp k2 = s_isize fp k" "s_fsize fp k2 = s_fsize fp k"
          unfolding w k1_def set_nfree_def by (simp_all add: bword_set_other)
        then show ?thesis using r eq bad nf w by (intro exI [of _ r] exI [of _ k']) auto
      qed
    qed
  qed
qed

theorem alloc_pop_in_range_witness: "\<exists>r k'. alloc_pop 0 0 ex_volume = Some (r, k') \<and> r \<noteq> Some 3"
  using alloc_pop_in_range [of 0 0 ex_volume] unfolding ex_volume_super by auto

subsection \<open>Inodes on the volume\<close>

lemma byte_of_bytes2 [simp]: "byte0 (bytes2 l h) = l" "byte1 (bytes2 l h) = h"
  unfolding byte0_def byte1_def bytes2_def by (rule bytes_of_word)+

lemma put_words_Nil [simp]: "put_words a [] k = k"
  by (simp add: put_words_def)

lemma put_words_snoc: "put_words a (ws @ [w]) k = set_bword (a + 2 * length ws) w (put_words a ws k)"
  by (simp add: put_words_def enumerate_append_eq)

lemma bword_put_words:
  "bword (a + 2 * j) (put_words a ws k) = (if j < length ws then ws ! j else bword (a + 2 * j) k)"
proof (induction ws rule: rev_induct)
  case (snoc w ws)
  show ?case
  proof (cases "j = length ws")
    case False
    with snoc show ?thesis by (auto simp: put_words_snoc nth_append bword_set_other)
  qed (simp add: put_words_snoc)
qed simp

lemma put_words_outside: "b + 2 \<le> a \<or> a + 2 * length ws \<le> b \<Longrightarrow> bword b (put_words a ws k) = bword b k"
  by (induction ws rule: rev_induct) (auto simp: put_words_snoc bword_set_other)

text \<open>What \<open>iupdat\<close> writes is what \<open>iget\<close> reads: the mode, the links, the owner and group, the 24 bits of
  the size and the eight addresses of an inode survive the way to its place in a block and back, whatever
  was there before, and the words around it are untouched.\<close>

theorem inode_roundtrip:
  fixes k :: "'a kbio_scheme" and a :: nat and i :: inode
  defines "k' \<equiv> put_words a (inode_words i) k"
  shows "inode_read a k' j = j\<lparr>i_mode := i_mode i, i_nlink := i_nlink i, i_uid := i_uid i, i_gid := i_gid i,
      i_size0 := i_size0 i, i_size1 := i_size1 i, i_addr := (\<lambda>n. if n < 8 then i_addr i n else i_addr j n)\<rparr> \<and>
    (\<forall>b. b + 2 \<le> a \<or> a + 24 \<le> b \<longrightarrow> bword b k' = bword b k)"
proof
  have len: "length (inode_words i) = 12" by (simp add: inode_words_def)
  have w: "bword (a + 2 * n) k' = inode_words i ! n" if "n < 12" for n
    using bword_put_words [of a n "inode_words i" k] that len by (simp add: k'_def)
  have addr: "bword (a + 8 + 2 * n) k' = i_addr i n" if "n < 8" for n
    using w [of "4 + n"] that by (simp add: inode_words_def nth_append algebra_simps)
  show "inode_read a k' j = j\<lparr>i_mode := i_mode i, i_nlink := i_nlink i, i_uid := i_uid i, i_gid := i_gid i,
      i_size0 := i_size0 i, i_size1 := i_size1 i, i_addr := (\<lambda>n. if n < 8 then i_addr i n else i_addr j n)\<rparr>"
    using w [of 0] w [of 1] w [of 2] w [of 3] addr by (simp add: inode_read_def inode_words_def cong: if_cong)
  show "\<forall>b. b + 2 \<le> a \<or> a + 24 \<le> b \<longrightarrow> bword b k' = bword b k"
    using put_words_outside [of _ a "inode_words i" k] len by (simp add: k'_def)
qed

theorem inode_roundtrip_witness:
  "i_size1 (inode_read 64 (put_words 64 (inode_words (no_inode\<lparr>i_size1 := 4711\<rparr>)) ex_fs) no_inode) = 4711 \<and>
   bword 88 (put_words 64 (inode_words no_inode) ex_fs) = bword 88 ex_fs"
  using inode_roundtrip [of 64 "no_inode\<lparr>i_size1 := 4711\<rparr>" ex_fs no_inode] inode_roundtrip [of 64 no_inode ex_fs no_inode] by simp

subsection \<open>The map of blocks\<close>

lemma low_byte: "unat (bn AND 0xFF :: u16) = unat bn mod 256"
proof -
  have "unat (bn AND 0xFF) = unat bn AND mask 8" by (simp add: unsigned_and_eq mask_eq_exp_minus_1)
  also have "\<dots> = unat bn mod 256" by (simp add: take_bit_eq_mask [symmetric] take_bit_eq_mod)
  finally show ?thesis .
qed

lemma high_byte: "unat (drop_bit 8 bn :: u16) = unat bn div 256"
  unfolding unat_drop_bit_eq unfolding drop_bit_eq_div by simp

lemma flag_high: "flag bn (NOT (mask n)) \<longleftrightarrow> 2 ^ n \<le> unat bn" for bn :: u16
proof -
  have "flag bn (NOT (mask n)) \<longleftrightarrow> (\<exists>i \<ge> n. bit bn i)"
    unfolding flag_iff bit_not_iff bit_mask_iff
    using bit_imp_le_length [of bn] by (auto simp: not_less)
  also have "\<dots> \<longleftrightarrow> (\<exists>i. bit bn (n + i))" by (auto simp: le_iff_add)
  also have "\<dots> \<longleftrightarrow> drop_bit n bn \<noteq> 0"
    unfolding bit_eq_iff using bit_imp_le_length [of bn] by (fastforce simp: bit_drop_bit_eq)
  also have "\<dots> \<longleftrightarrow> unat (drop_bit n bn) \<noteq> 0" by (simp only: unat_eq_zero)
  also have "\<dots> \<longleftrightarrow> unat bn div 2 ^ n \<noteq> 0" unfolding unat_drop_bit_eq unfolding drop_bit_eq_div by (rule refl)
  also have "\<dots> \<longleftrightarrow> 2 ^ n \<le> unat bn" by (simp add: div_eq_0_iff not_less)
  finally show ?thesis .
qed

text \<open>The place of the address of block \<open>bn\<close> of a large file: the index in the inode, the index in the double
  indirect block (for the last address of the inode) and the index in the last indirect block.\<close>

definition block_path :: "u16 \<Rightarrow> nat \<times> int \<times> nat" where
  "block_path bn = (large_index bn, if large_index bn = 7 then huge_index bn else 0, unat (bn AND 0xFF))"

lemma block_path_eq:
  assumes "unat bn < 32768"
  shows "block_path bn = (min 7 (unat bn div 256), int (unat bn div 256 - 7), unat bn mod 256)"
proof -
  have m: "(0xF800 :: u16) = NOT (mask 11)" by (simp add: mask_eq_exp_minus_1)
  have l: "large_index bn = min 7 (unat bn div 256)"
    unfolding large_index_def m flag_high high_byte by auto
  have "unat bn div 256 < 256" using assms by (simp add: less_mult_imp_div_less)
  then have "unat (drop_bit 8 bn AND 0xFF) = unat bn div 256" unfolding low_byte high_byte by simp
  then show ?thesis unfolding block_path_def l huge_index_def low_byte by auto
qed



subsection \<open>Moving bytes\<close>

lemma fubyte_frame [simp]:
  fixes k :: "'a kbio_scheme"
  shows "fubyte a (set_bbyte b c k) = fubyte a k" "fubyte a (u_step k) = fubyte a k"
  by (simp_all add: fubyte_def proc_dseg_def set_bbyte_def u_step_def upd_u_def)

lemma u_step_fields:
  fixes k :: "'a kbio_scheme"
  shows "u_count (u (u_step k)) = u_count (u k) - 1" "u_segflg (u (u_step k)) = u_segflg (u k)"
    "u_base (u (u_step k)) = base_next (u_base (u k))" "buffers (u_step k) = buffers k"
    "u_offset (u (u_step k)) = (if snd (u_offset (u k)) + 1 = 0 then fst (u_offset (u k)) + 1 else fst (u_offset (u k)), snd (u_offset (u k)) + 1)"
  by (simp_all add: u_step_def upd_u_def)

lemma set_bbyte_fields [simp]: "u (set_bbyte a c k) = u k" "buffers (set_bbyte a c k) = (buffers k)(a := c)"
  by (simp_all add: set_bbyte_def)

lemma dpval_inc:
  "dpval (if snd x + 1 = 0 then fst x + 1 else fst x, snd x + 1) = (dpval x + 1) mod 4294967296"
proof (cases "unat (snd x) = 65535")
  case True
  then have z: "snd x + 1 = 0" by (simp only: succ16_zero)
  show ?thesis
  proof (cases "unat (fst x) = 65535")
    case True
    then show ?thesis using z \<open>unat (snd x) = 65535\<close> by (simp add: dpval_def unat16_succ)
  next
    case False
    then have "unat (fst x) < 65535" using unat16_bound [of "fst x"] by simp
    then show ?thesis using z False \<open>unat (snd x) = 65535\<close> by (simp add: dpval_def unat16_succ)
  qed
next
  case False
  then have "snd x + 1 \<noteq> 0" by (simp only: succ16_zero) simp
  moreover have "unat (snd x) < 65535" using False unat16_bound [of "snd x"] by simp
  ultimately show ?thesis using False unat16_bound [of "fst x"] by (simp add: dpval_def unat16_succ)
qed

lemma linear_inj: "linear seg x = linear seg y \<longleftrightarrow> x = y"
proof
  have less: "linear seg x \<noteq> linear seg y" if "unat x < unat y" for x y
    using mod_neq [of "unat seg * 16 + unat x" "unat seg * 16 + unat y" 1048576] that unat16_bound [of y] by (simp add: linear_def)
  assume "linear seg x = linear seg y"
  then show "x = y" using less [of x y] less [of y x] by (metis nat_neq_iff word_unat_eq_iff)
qed simp

text \<open>Stores keep everything but the memory, and a fetch sees the last store.\<close>

lemma subyte_keeps [simp]: "u (subyte a b k) = u k" "proc (subyte a b k) = proc k"
  by (simp_all add: subyte_def)

lemma subyte_buffers [simp]: "buffers (subyte a b k) = buffers k"
  by (simp add: subyte_def)

lemma fubyte_subyte: "fubyte x (subyte a b k) = (if x = a then b else fubyte x k)"
  by (auto simp: fubyte_def subyte_def proc_dseg_def linear_inj)

lemma iomove_in_exact:
  fixes k :: "'a kbio_scheme"
  assumes "\<not> u_segflg (u k)" "u_base (u k) = UAddr a" "m \<le> unat (u_count (u k))" "cp + m \<le> 514 * NBUF"
  shows "\<exists>k'. iomove_in m cp k = Some k' \<and>
    (\<forall>x. buffers k' x = (if cp \<le> x \<and> x < cp + m then fubyte (a + of_nat (x - cp)) k else buffers k x)) \<and>
    u_count (u k') = u_count (u k) - of_nat m \<and> u_base (u k') = UAddr (a + of_nat m) \<and>
    dpval (u_offset (u k')) = (dpval (u_offset (u k)) + m) mod 4294967296"
  using assms
proof (induction m arbitrary: a cp k)
  case 0
  then show ?case using dpval_bound [of "u_offset (u k)"] by auto
next
  case (Suc m)
  define k1 where "k1 = set_bbyte cp (fubyte a k) (u_step k)"
  have nz: "u_count (u k) \<noteq> 0" using Suc.prems(3) by auto
  then have cnt: "unat (u_count (u k) - 1) = unat (u_count (u k)) - 1" by (simp add: unat_minus_one)
  have c: "cpass k = Some (Some (fubyte a k), u_step k)"
    using Suc.prems nz by (simp add: cpass_def uget_def)
  have f1: "u k1 = u (u_step k)" "\<And>b. fubyte b k1 = fubyte b k" "buffers k1 = (buffers k)(cp := fubyte a k)"
    by (simp_all add: k1_def u_step_fields)
  have pre: "\<not> u_segflg (u k1)" "u_base (u k1) = UAddr (a + 1)" "m \<le> unat (u_count (u k1))" "Suc cp + m \<le> 514 * NBUF"
    using Suc.prems cnt by (simp_all add: f1 u_step_fields)
  from Suc.IH [OF pre] obtain k' where k': "iomove_in m (Suc cp) k1 = Some k'"
    "\<And>x. buffers k' x = (if Suc cp \<le> x \<and> x < Suc cp + m then fubyte (a + 1 + of_nat (x - Suc cp)) k1 else buffers k1 x)"
    "u_count (u k') = u_count (u k1) - of_nat m" "u_base (u k') = UAddr (a + 1 + of_nat m)"
    "dpval (u_offset (u k')) = (dpval (u_offset (u k1)) + m) mod 4294967296" by auto
  have "iomove_in (Suc m) cp k = Some k'" using k'(1) c Suc.prems(4) by (simp add: k1_def [symmetric])
  moreover have "buffers k' x = (if cp \<le> x \<and> x < cp + Suc m then fubyte (a + of_nat (x - cp)) k else buffers k x)" for x
  proof (cases "Suc cp \<le> x")
    case True
    then have "a + 1 + of_nat (x - Suc cp) = a + of_nat (x - cp)" by (simp add: Suc_diff_le [symmetric] algebra_simps flip: of_nat_Suc)
    then show ?thesis using True k'(2) [of x] by (auto simp: f1)
  next
    case False
    then show ?thesis using k'(2) [of x] by (auto simp: f1)
  qed
  moreover have "u_count (u k') = u_count (u k) - of_nat (Suc m)" using k'(3) by (simp add: f1 u_step_fields)
  moreover have "u_base (u k') = UAddr (a + of_nat (Suc m))" using k'(4) by (simp add: algebra_simps)
  moreover have "dpval (u_offset (u k')) = (dpval (u_offset (u k)) + Suc m) mod 4294967296"
    using k'(5) by (simp only: f1 u_step_fields dpval_inc) (simp add: mod_simps)
  ultimately show ?case by blast
qed

text \<open>\<open>iomove\<close> towards a buffer moves exactly the bytes asked for: with \<open>n\<close> bytes wanted, at least as many
  left to be moved and room for them in the array of buffers, byte \<open>i\<close> of the user's area lands at
  position \<open>on + i\<close> of the buffer for every \<open>i < n\<close> and no other byte of any buffer changes; the count,
  the user's address and the 32 bit file offset (with its carry) have advanced by \<open>n\<close>.\<close>

theorem iomove_exact:
  fixes k :: "'a kbio_scheme"
  assumes "\<not> u_segflg (u k)" "u_base (u k) = UAddr a" "unat n \<le> unat (u_count (u k))" "b_addr p + unat on + unat n \<le> 514 * NBUF"
  shows "\<exists>k'. iomove p on n True k = Some k' \<and>
    (\<forall>i < unat n. buffers k' (b_addr p + unat on + i) = fubyte (a + of_nat i) k) \<and>
    (\<forall>x. x < b_addr p + unat on \<or> b_addr p + unat on + unat n \<le> x \<longrightarrow> buffers k' x = buffers k x) \<and>
    u_count (u k') = u_count (u k) - n \<and> u_base (u k') = UAddr (a + n) \<and>
    dpval (u_offset (u k')) = (dpval (u_offset (u k)) + unat n) mod 4294967296"
proof -
  obtain k' where "iomove_in (unat n) (b_addr p + unat on) k = Some k'"
    "\<And>x. buffers k' x = (if b_addr p + unat on \<le> x \<and> x < b_addr p + unat on + unat n
       then fubyte (a + of_nat (x - (b_addr p + unat on))) k else buffers k x)"
    "u_count (u k') = u_count (u k) - n" "u_base (u k') = UAddr (a + n)"
    "dpval (u_offset (u k')) = (dpval (u_offset (u k)) + unat n) mod 4294967296"
    using iomove_in_exact [OF assms] by auto
  then show ?thesis by (intro exI [of _ k']) (simp add: iomove_def Let_def)
qed

theorem iomove_exact_witness:
  "\<exists>k'. iomove (Buf 1) 4 2 True (ex_fs\<lparr>u := no_user\<lparr>u_base := UAddr 100, u_count := 5\<rparr>\<rparr>) = Some k' \<and> u_count (u k') = 3"
  using iomove_exact [of "ex_fs\<lparr>u := no_user\<lparr>u_base := UAddr 100, u_count := 5\<rparr>\<rparr>" 100 2 "Buf 1" 4]
  by (auto simp: no_user_def)

text \<open>What a transfer changes: the position of the user's transfer, and the buffers or the memory.\<close>

definition moved_to :: "'a kbio_scheme \<Rightarrow> 'a kbio_scheme \<Rightarrow> bool" where
  "moved_to k k' \<longleftrightarrow> (\<exists>c b off m bs.
     k' = k\<lparr>u := (u k)\<lparr>u_count := c, u_base := b, u_offset := off\<rparr>, mem := m, buffers := bs\<rparr>)"

lemma moved_toI:
  "k' = k\<lparr>u := (u k)\<lparr>u_count := c, u_base := b, u_offset := off\<rparr>, mem := m, buffers := bs\<rparr> \<Longrightarrow> moved_to k k'"
  unfolding moved_to_def by blast

lemma moved_to_refl [simp]: "moved_to k k"
  by (rule moved_toI [where c = "u_count (u k)" and b = "u_base (u k)" and off = "u_offset (u k)" and m = "mem k" and bs = "buffers k"]) simp

lemma moved_to_trans: "moved_to k k' \<Longrightarrow> moved_to k' k'' \<Longrightarrow> moved_to k k''"
  unfolding moved_to_def by (elim exE) (simp del: split_paired_Ex, blast)

lemma moved_to_step:
  fixes k :: "'a kbio_scheme"
  shows "moved_to k (u_step k)" "moved_to k (set_bbyte a c k)" "moved_to k (subyte b c k)"
proof -
  show "moved_to k (u_step k)"
    by (rule moved_toI [where c = "u_count (u (u_step k))" and b = "u_base (u (u_step k))" and off = "u_offset (u (u_step k))"
        and m = "mem k" and bs = "buffers k"]) (simp add: u_step_def upd_u_def)
  show "moved_to k (set_bbyte a c k)"
    by (rule moved_toI [where c = "u_count (u k)" and b = "u_base (u k)" and off = "u_offset (u k)" and m = "mem k"
        and bs = "(buffers k)(a := c)"]) (simp add: set_bbyte_def)
  show "moved_to k (subyte b c k)"
    by (rule moved_toI [where c = "u_count (u k)" and b = "u_base (u k)" and off = "u_offset (u k)"
        and m = "(mem k)(linear (proc_dseg k) b := c)" and bs = "buffers k"]) (simp add: subyte_def)
qed

lemma moved_to_fields:
  assumes "moved_to k k'"
  shows "b_flags k' = b_flags k" "b_forw k' = b_forw k" "b_dev k' = b_dev k" "b_blkno k' = b_blkno k" "proc k' = proc k" "kbio.more k' = kbio.more k"
    "u_error (u k') = u_error (u k)" "u_segflg (u k') = u_segflg (u k)" "u_procp (u k') = u_procp (u k)" "disk k' = disk k"
    "cache_ok W V k' = cache_ok W V k"
proof -
  show "b_flags k' = b_flags k" "b_forw k' = b_forw k" "b_dev k' = b_dev k" "b_blkno k' = b_blkno k" "proc k' = proc k" "kbio.more k' = kbio.more k"
    "u_error (u k') = u_error (u k)" "u_segflg (u k') = u_segflg (u k)" "u_procp (u k') = u_procp (u k)" "disk k' = disk k"
    using assms by (auto simp: moved_to_def)
  show "cache_ok W V k' = cache_ok W V k" using assms unfolding moved_to_def by (auto intro: cache_ok_cong)
qed

lemma iomove_in_moves: "iomove_in m cp k = Some k' \<Longrightarrow> moved_to k k' \<and> mem k' = mem k"
proof (induction m cp k arbitrary: k' rule: iomove_in.induct)
  case (2 n cp k)
  have c: "moved_to k k1 \<and> mem k1 = mem k" if "cpass k = Some (c, k1)" for c k1
    using that moved_to_step(1) [of k] by (auto simp: cpass_def u_step_def upd_u_def split: if_splits Option.bind_splits)
  from 2(2) obtain c k1 where p: "cpass k = Some (c, k1)"
    and r: "(case c of None \<Rightarrow> Some k1 | Some c \<Rightarrow> if cp < 514 * NBUF then iomove_in n (cp + 1) (set_bbyte cp c k1) else None) = Some k'"
    by (auto split: Option.bind_splits)
  show ?case
  proof (cases c)
    case (Some d)
    with r have "cp < 514 * NBUF" "iomove_in n (cp + 1) (set_bbyte cp d k1) = Some k'" by (auto split: if_splits)
    with 2(1) p Some have "moved_to (set_bbyte cp d k1) k' \<and> mem k' = mem (set_bbyte cp d k1)" by fastforce
    then show ?thesis using c [OF p] moved_to_step(2) [of k1 cp d] by (auto simp: set_bbyte_def intro: moved_to_trans)
  qed (use r c [OF p] in auto)
qed simp

text \<open>The transfer to the user is exact as well.\<close>

lemma iomove_out_exact:
  fixes k :: "'a kbio_scheme"
  assumes "\<not> u_segflg (u k)" "u_base (u k) = UAddr a" "m \<le> unat (u_count (u k))" "cp + m \<le> 514 * NBUF"
  shows "\<exists>k'. iomove_out m cp k = Some k' \<and> moved_to k k' \<and> buffers k' = buffers k \<and>
    (\<forall>x. fubyte x k' = (if unat (x - a) < m then buffers k (cp + unat (x - a)) else fubyte x k)) \<and>
    u_count (u k') = u_count (u k) - of_nat m \<and> dpval (u_offset (u k')) = (dpval (u_offset (u k)) + m) mod 4294967296"
  using assms
proof (induction m arbitrary: a cp k)
  case (Suc m)
  define k1 where "k1 = u_step (subyte a (buffers k cp) k)"
  have nz: "u_count (u k) \<noteq> 0" using Suc.prems(3) by auto
  then have cnt: "unat (u_count (u k) - 1) = unat (u_count (u k)) - 1" by (simp add: unat_minus_one)
  have c: "passc (buffers k cp) k = Some (u_count (u k) - 1 \<noteq> 0, k1)"
    using Suc.prems by (simp add: passc_def uput_def Let_def u_step_fields k1_def)
  have k1: "\<not> u_segflg (u k1)" "u_base (u k1) = UAddr (a + 1)" "u_count (u k1) = u_count (u k) - 1" "buffers k1 = buffers k" "moved_to k k1"
    "\<And>x. fubyte x k1 = (if x = a then buffers k cp else fubyte x k)"
    using Suc.prems moved_to_trans [OF moved_to_step(3) moved_to_step(1)] by (simp_all add: k1_def u_step_fields fubyte_subyte)
  have pre: "m \<le> unat (u_count (u k1))" "Suc cp + m \<le> 514 * NBUF" using Suc.prems cnt by (simp_all add: k1)
  from Suc.IH [OF k1(1,2) pre] obtain k' where k': "iomove_out m (Suc cp) k1 = Some k'" "moved_to k1 k'" "buffers k' = buffers k1"
    "\<And>x. fubyte x k' = (if unat (x - (a + 1)) < m then buffers k1 (Suc cp + unat (x - (a + 1))) else fubyte x k1)"
    "u_count (u k') = u_count (u k1) - of_nat m" "dpval (u_offset (u k')) = (dpval (u_offset (u k1)) + m) mod 4294967296" by blast
  have "iomove_out (Suc m) cp k = Some k'"
  proof (cases "u_count (u k) - 1 = 0")
    case True
    then have "m = 0" using pre(1) by (simp add: k1)
    then show ?thesis using k'(1) c Suc.prems(4) True by simp
  next
    case False
    then show ?thesis using k'(1) c Suc.prems(4) by simp
  qed
  moreover have "fubyte x k' = (if unat (x - a) < Suc m then buffers k (cp + unat (x - a)) else fubyte x k)" for x
  proof (cases "x = a")
    case True
    have "m < 65535" using Suc.prems(3) unat16_bound [of "u_count (u k)"] by simp
    moreover have "unat (- 1 :: u16) = 65535" by (simp add: unsigned_minus_1_eq_mask mask_eq_exp_minus_1)
    ultimately show ?thesis using True k'(4) [of x] by (simp add: k1)
  next
    case False
    then have "unat (x - (a + 1)) = unat (x - a) - 1" using unat_minus_one [of "x - a"] by (simp add: algebra_simps)
    moreover from False have "0 < unat (x - a)" by (simp add: unat_gt_0)
    then obtain t where "unat (x - a) = Suc t" using gr0_implies_Suc by blast
    ultimately show ?thesis using False k'(4) [of x] by (simp add: k1)
  qed
  moreover have "u_count (u k') = u_count (u k) - of_nat (Suc m)" using k'(5) by (simp add: k1)
  moreover have "dpval (u_offset (u k')) = (dpval (u_offset (u k)) + Suc m) mod 4294967296"
    using k'(6) by (simp only: k1_def u_step_fields subyte_keeps dpval_inc) (simp add: mod_simps)
  ultimately show ?case using k'(2,3) moved_to_trans [OF k1(5)] by (auto simp: k1(4))
qed (simp add: dpval_bound)

lemma iomove_out_overruns:
  fixes k :: "'a kbio_scheme"
  shows "514 * NBUF < cp + m \<Longrightarrow> m \<le> unat (u_count (u k)) \<Longrightarrow> cp \<le> 514 * NBUF \<Longrightarrow> iomove_out m cp k = None"
proof (induction m arbitrary: cp k)
  case (Suc m)
  show ?case
  proof (cases "cp < 514 * NBUF")
    case True
    have more: "iomove_out m (Suc cp) k1 = None \<and> b" if p: "passc c k = Some (b, k1)" for c b and k1 :: "'a kbio_scheme"
    proof -
      have nz: "u_count (u k) \<noteq> 0" using Suc.prems(2) by auto
      have c: "u_count (u k1) = u_count (u k) - 1" and b: "b = (u_count (u k1) \<noteq> 0)"
        using p by (auto simp: passc_def Let_def u_step_fields kput_def uput_def subyte_def upd_u_def
            split: Option.bind_splits if_splits iobase.splits)
      have "unat (u_count (u k1)) = unat (u_count (u k)) - 1" using nz by (simp add: c unat_minus_one)
      moreover have "0 < m" using Suc.prems True by simp
      ultimately show ?thesis using Suc.IH [of "Suc cp" k1] Suc.prems True b by auto
    qed
    show ?thesis
    proof (cases "passc (buffers k cp) k")
      case (Some r)
      then obtain b k1 where r: "passc (buffers k cp) k = Some (b, k1)" by (cases r) auto
      with more [OF r] True show ?thesis by simp
    qed (use True in simp)
  qed simp
qed simp

text \<open>the signed comparison in \<open>min\<close> lets a large request run out of the buffer: when 32768 bytes or more
  are left to be read, the count of a turn of \<open>readi\<close> is the whole rest instead of what the buffer
  holds, and the transfer leaves the array of buffers.\<close>

theorem large_read_overruns:
  fixes k :: "'a kbio_scheme"
  assumes "32768 \<le> unat (u_count (u k))" "unat on < 512" "p \<in> bufs"
  shows "imin (512 - on) (u_count (u k)) = u_count (u k) \<and> iomove p on (imin (512 - on) (u_count (u k))) False k = None"
proof -
  have neg: "sint (u_count (u k)) < 0" using assms(1) sint16_neg by blast
  have "on \<le> 512" using assms(2) by (simp add: word_le_nat_alt)
  then have "unat (512 - on) = 512 - unat on" by (simp add: unat_sub)
  then have "sint (512 - on) = int (512 - unat on)" by (subst sint_small) simp_all
  then have "imin (512 - on) (u_count (u k)) = u_count (u k)" using neg by (simp add: imin_def)
  moreover have "iomove_out (unat (u_count (u k))) (b_addr p + unat on) k = None"
    by (rule iomove_out_overruns) (use assms in auto)
  ultimately show ?thesis by (simp add: iomove_def Let_def)
qed

theorem large_read_overruns_witness:
  "iomove (Buf 0) 0 40000 False (ex_fs\<lparr>u := no_user\<lparr>u_count := 40000\<rparr>\<rparr>) = None"
proof -
  let ?k = "ex_fs\<lparr>u := no_user\<lparr>u_count := 40000\<rparr>\<rparr>"
  have "imin (512 - 0) (u_count (u ?k)) = u_count (u ?k) \<and> iomove (Buf 0) 0 (imin (512 - 0) (u_count (u ?k))) False ?k = None"
    by (rule large_read_overruns) simp_all
  then have "iomove (Buf 0) 0 (u_count (u ?k)) False ?k = None" by metis
  then show ?thesis by simp
qed

end
