(* ===== verification/Sys1.thy ===== *)
theory Sys1
  imports Nami
begin

unbundle bit_operations_syntax

text \<open>
  \<open>ken/sys1.c\<close> and \<open>newproc\<close> of \<open>ken/slp.c\<close>: the creation, the execution and the end of processes.

  \<open>raw\<close> gives the bytes of a user area that nothing reads back (pointers and saved registers); the
  fields that the parent reads from the copy of a dead child's user area are laid out as in
  \<open>struct user\<close>.
\<close>

abbreviation "NEXEC \<equiv> (3 :: int)"
abbreviation "STRC \<equiv> (16 :: u8)"
abbreviation "SWTED \<equiv> (32 :: u8)"

subsection \<open>Creation\<close>

partial_function (option) newpid :: "'a kproc_scheme \<Rightarrow> 'a kproc_scheme option" where
  "newpid k =
     (let k = k\<lparr>mpid := mpid k + 1\<rparr> in
      if sint (mpid k) < 0 then newpid (k\<lparr>mpid := 0\<rparr>)
      else if \<exists>p \<in> set [0..<NPROC]. p_pid (proc k p) = mpid k then newpid k
      else Some k)"

text \<open>The entry of the new process and the references it shares with its parent.\<close>

definition proc_entry :: "proc \<Rightarrow> u16 \<Rightarrow> proc \<Rightarrow> proc" where
  "proc_entry rip pid r =
     r\<lparr>p_stat := SRUN, p_flag := SLOAD, p_uid := p_uid rip, p_ttyp := p_ttyp rip, p_nice := p_nice rip,
       p_pid := pid, p_ppid := p_pid rip, p_time := 0\<rparr>"

definition share_files :: "'a kfs_scheme \<Rightarrow> 'a kfs_scheme" where
  "share_files k =
     (let k = fold (\<lambda>i k. case u_ofile (u k) i of Some fp \<Rightarrow> upd_file fp (\<lambda>f. f\<lparr>f_count := f_count f + 1\<rparr>) k | None \<Rightarrow> k)
            [0..<NOFILE] k
      in upd_inode (u_cdir (u k)) (\<lambda>i. i\<lparr>i_count := i_count i + 1\<rparr>) k)"

text \<open>\<open>while(n--) copyseg(a1++, a2++)\<close>\<close>

definition copy_image :: "u16 \<Rightarrow> u16 \<Rightarrow> u16 \<Rightarrow> 'a kproc_scheme \<Rightarrow> 'a kproc_scheme" where
  "copy_image n a1 a2 k = fold (\<lambda>i k. copyseg (a1 + of_nat i) (a2 + of_nat i) k) [0..<unat n] k"

text \<open>The loop that waits for space on the swap device.\<close>

partial_function (option) swap_space ::
  "('a kproc_scheme \<Rightarrow> 'a kproc_scheme option) \<Rightarrow> nat \<Rightarrow> 'a kproc_scheme \<Rightarrow> (u16 \<times> 'a kproc_scheme) option" where
  "swap_space away rpp k = do {
     (a2, m) \<leftarrow> malloc (swapmap k) (p_size (proc k rpp) * 8);
     let k = k\<lparr>swapmap := m\<rparr>;
     if a2 \<noteq> 0 then Some (a2, k)
     else do { k \<leftarrow> sleep_neg away ChSwapmap PSWP k; swap_space away rpp k } }"

text \<open>\<open>newproc\<close> as the parent sees it; the result is the slot of the new process.\<close>

definition newproc :: "('a kfs_scheme \<Rightarrow> 'a kfs_scheme option) \<Rightarrow> 'a kfs_scheme \<Rightarrow> (nat \<times> 'a kfs_scheme) option" where
  "newproc away k = do {
     k \<leftarrow> newpid k;
     rpp \<leftarrow> find (\<lambda>p. p_stat (proc k p) = 0) [0..<NPROC];
     let rip = u_procp (u k);
     let k = upd_proc rpp (proc_entry (proc k rip) (mpid k)) k;
     let k = share_files k;
     let k = upd_u (\<lambda>w. w\<lparr>u_procp := rpp\<rparr>) k;
     let k = savu rip k;
     let n = p_size (proc k rip);
     let a1 = p_addr (proc k rip);
     let k = upd_proc rpp (\<lambda>r. r\<lparr>p_size := n\<rparr>) k;
     (a2, m) \<leftarrow> malloc (coremap k) n;
     let k = k\<lparr>coremap := m\<rparr>;
     k \<leftarrow> (if a2 = 0 then do {
         let k = upd_proc rpp (\<lambda>r. r\<lparr>p_addr := a1\<rparr>) (upd_proc rip (\<lambda>r. r\<lparr>p_stat := SIDL\<rparr>) k);
         let k = savu rip k;
         (a2, k) \<leftarrow> swap_space away rpp k;
         k \<leftarrow> xswap (swap away) rpp False a2 k;
         let k = upd_proc rpp (\<lambda>r. r\<lparr>p_flag := setf (p_flag r) SSWAP\<rparr>) k;
         Some (upd_proc rip (\<lambda>r. r\<lparr>p_stat := SRUN\<rparr>) k) }
       else do {
         let k = upd_proc rpp (\<lambda>r. r\<lparr>p_addr := a2\<rparr>) k;
         let k = copy_image n a1 a2 k;
         Some (estabur (p_addr (proc k rpp)) k) });
     Some (rpp, upd_u (\<lambda>w. w\<lparr>u_procp := rip\<rparr>) k) }"

definition fork :: "('a kfs_scheme \<Rightarrow> 'a kfs_scheme option) \<Rightarrow> 'a kfs_scheme \<Rightarrow> 'a kfs_scheme option" where
  "fork away k =
     (case find (\<lambda>p. p_stat (proc k p) = 0) [0..<NPROC] of
        None \<Rightarrow> Some (set_error EAGAIN k)
      | Some p2 \<Rightarrow> do {
          (_, k) \<leftarrow> newproc away k;
          Some (set_r0 (p_pid (proc k p2)) k) })"

text \<open>What the child does in \<open>fork\<close> when it first runs; \<open>p1\<close> is its parent.\<close>

definition fork_child :: "nat \<Rightarrow> 'a kproc_scheme \<Rightarrow> 'a kproc_scheme" where
  "fork_child p1 k =
     upd_u (\<lambda>w. w\<lparr>u_ar0 := (u_ar0 w)(0 := 0, 1 := p_pid (proc k p1)), u_cstime := (0, 0), u_stime := 0,
       u_cutime := (0, 0), u_utime := 0\<rparr>) k"

subsection \<open>Execution\<close>

partial_function (option) exec_wait ::
  "('a kfs_scheme \<Rightarrow> 'a kfs_scheme option) \<Rightarrow> 'a kfs_scheme \<Rightarrow> 'a kfs_scheme option" where
  "exec_wait away k =
     (if sint (execnt k) \<ge> NEXEC then do { k \<leftarrow> sleep_neg away ChExecnt (-1) k; exec_wait away k } else Some k)"

text \<open>
  The copy of the arguments into a buffer at \<open>b\<close>: \<open>nc\<close> characters so far.  The result is \<open>None\<close>
  where the code jumps to \<open>bad\<close>; a byte of 255 does so because \<open>fubyte\<close> returns it as \<open>-1\<close>.
\<close>

partial_function (option) exec_str :: "nat \<Rightarrow> u16 \<Rightarrow> nat \<Rightarrow> 'a kbio_scheme \<Rightarrow> (nat option \<times> 'a kbio_scheme) option" where
  "exec_str b ap nc k =
     (let c = fubyte ap k in
      if c = 255 then Some (None, k)
      else
        let k = set_bbyte (b + nc) c k in
        if nc + 1 > 510 then Some (None, set_error E2BIG k)
        else if c = 0 then Some (Some (nc + 1), k)
        else exec_str b (ap + 1) (nc + 1) k)"

partial_function (option) exec_args :: "nat \<Rightarrow> nat \<Rightarrow> nat \<Rightarrow> 'a kbio_scheme \<Rightarrow> ((nat \<times> nat) option \<times> 'a kbio_scheme) option" where
  "exec_args b na nc k =
     (let ap = fuword (u_arg (u k) 1) k in
      if ap = 0 then Some (Some (na, nc), k)
      else if ap = -1 then Some (None, k)
      else do {
        let k = upd_u (\<lambda>w. w\<lparr>u_arg := (u_arg w)(1 := u_arg w 1 + 2)\<rparr>) k;
        (r, k) \<leftarrow> exec_str b ap nc k;
        case r of None \<Rightarrow> Some (None, k) | Some nc \<Rightarrow> exec_args b (na + 1) nc k })"

text \<open>\<open>do subyte(c++, *cp); while(*cp++)\<close>, and the loop that stores the argument vector.\<close>

partial_function (option) put_string :: "nat \<Rightarrow> u16 \<Rightarrow> 'a kbio_scheme \<Rightarrow> (nat \<times> u16 \<times> 'a kbio_scheme) option" where
  "put_string cp c k =
     (let ch = buffers k cp;
          k = subyte c ch k
      in if ch \<noteq> 0 then put_string (cp + 1) (c + 1) k else Some (cp + 1, c + 1, k))"

fun put_argv :: "nat \<Rightarrow> u16 \<Rightarrow> nat \<Rightarrow> u16 \<Rightarrow> 'a kbio_scheme \<Rightarrow> 'a kbio_scheme option" where
  "put_argv 0 ap cp c k = Some k"
| "put_argv (Suc na) ap cp c k = do {
     (cp, c, k) \<leftarrow> put_string cp c (suword ap c k);
     put_argv na (ap + 2) cp c k }"

definition exec_stack :: "nat \<Rightarrow> nat \<Rightarrow> nat \<Rightarrow> 'a kbio_scheme \<Rightarrow> 'a kbio_scheme option" where
  "exec_stack b na nc k = do {
     let ap = (USTACK - 2) - of_nat nc - of_nat na * 2 - 4;
     let k = suword (USTACK - 2) ap k;
     let ts = ap - 24;
     let k = suword ap (of_nat na) k;
     let k = suword (ap + 2) (ap + 4) k;
     k \<leftarrow> put_argv na (ap + 4) b ((USTACK - 2) - of_nat nc) k;
     let ds = page_seg (p_addr (curproc k));
     let k = suword ts ds k;
     let k = suword (ts + 2) ds k;
     let k = suword (ts + 18) (u_hdr (u k) 10) k;
     let k = suword (ts + 20) (ds + DSIZE * 256) k;
     let k = suword (ts + 22) 0x200 k;
     Some (upd_u (\<lambda>w. w\<lparr>u_usp := ts\<rparr>) k) }"

text \<open>Set-user-id and set-group-id, and the signals that were caught.\<close>

definition exec_ids :: "nat \<Rightarrow> 'a kfs_scheme \<Rightarrow> 'a kfs_scheme" where
  "exec_ids ip k =
     (if flag (p_flag (curproc k)) STRC then k
      else
        let k = (if flag (i_mode (inode k ip)) ISUID \<and> u_uid (u k) \<noteq> 0
                 then upd_proc (u_procp (u k)) (\<lambda>r. r\<lparr>p_uid := i_uid (inode k ip)\<rparr>)
                        (upd_u (\<lambda>w. w\<lparr>u_uid := i_uid (inode k ip)\<rparr>) k) else k)
        in if flag (i_mode (inode k ip)) ISGID then upd_u (\<lambda>w. w\<lparr>u_gid := i_gid (inode k ip)\<rparr>) k else k)"

definition exec_sigs :: "'a kproc_scheme \<Rightarrow> 'a kproc_scheme" where
  "exec_sigs = upd_u (\<lambda>w. w\<lparr>u_signal := (\<lambda>n. if 0 \<le> n \<and> n < NSIG \<and> u_signal w n \<noteq> 1 then 0 else u_signal w n)\<rparr>)"

text \<open>\<open>bad: iput(ip); brelse(bp); \<dots>\<close>\<close>

definition exec_bad :: "('a kfs_scheme \<Rightarrow> 'a kfs_scheme option) \<Rightarrow> nat \<Rightarrow> bp \<Rightarrow> 'a kfs_scheme \<Rightarrow> (unit, 'a kfs_scheme) outcome option" where
  "exec_bad away ip b k = do {
     k \<leftarrow> iput away ip k;
     let k = brelse b k;
     let k = (if sint (execnt k) \<ge> NEXEC then wakeup ChExecnt k else k);
     ret (k\<lparr>execnt := execnt k - 1\<rparr>) }"

text \<open>The header of an executable file that is accepted.\<close>

definition exec_header_error :: "(nat \<Rightarrow> u16) \<Rightarrow> u8" where
  "exec_header_error h =
     (if h 0 \<noteq> 0x0301 \<or> h 1 \<noteq> 0x0430 \<or> h 2 \<noteq> 0x20 then ENOEXEC
      else if sint (h 4) \<ge> sint ((PSIZE - 16) * 4096) then E2BIG
      else 0)"

definition exec_load ::
  "('a kfs_scheme \<Rightarrow> 'a kfs_scheme option) \<Rightarrow> nat \<Rightarrow> 'a kfs_scheme \<Rightarrow> (unit, 'a kfs_scheme) outcome option" where
  "exec_load away ip k =
     (let k = fold (\<lambda>c k. clearseg (p_addr (curproc k) + of_nat c) k) [0..<unat PSIZE] k;
          k = upd_proc (u_procp (u k)) (\<lambda>r. r\<lparr>p_addr := p_addr r + DSIZE\<rparr>) k;
          k = upd_u (\<lambda>w. w\<lparr>u_base := UAddr 0, u_count := u_hdr w 4\<rparr>) k
      in andthen (readi away ip k) (\<lambda>_ k.
           let k = upd_proc (u_procp (u k)) (\<lambda>r. r\<lparr>p_addr := p_addr r - DSIZE\<rparr>) k;
               k = upd_u (\<lambda>w. w\<lparr>u_base := UAddr 0, u_count := u_hdr w 6\<rparr>) k
           in readi away ip k))"

definition exec_image ::
  "('a kfs_scheme \<Rightarrow> 'a kfs_scheme option) \<Rightarrow> nat \<Rightarrow> bp \<Rightarrow> nat \<Rightarrow> nat \<Rightarrow> 'a kfs_scheme \<Rightarrow> (unit, 'a kfs_scheme) outcome option" where
  "exec_image away ip b na nc k =
     (let k = upd_u (\<lambda>w. w\<lparr>u_base := KHdr 0, u_count := 32, u_offset := (0, 0), u_segflg := True\<rparr>) k in
      andthen (readi away ip k) (\<lambda>_ k.
        let k = upd_u (\<lambda>w. w\<lparr>u_segflg := False\<rparr>) k;
            e = exec_header_error (u_hdr (u k)) in
        if u_error (u k) \<noteq> 0 then exec_bad away ip b k
        else if e \<noteq> 0 then exec_bad away ip b (set_error e k)
        else andthen (exec_load away ip k) (\<lambda>_ k. do {
          k \<leftarrow> exec_stack (b_addr b) na nc k;
          exec_bad away ip b (exec_sigs (exec_ids ip k)) })))"

definition exec :: "('a kfs_scheme \<Rightarrow> 'a kfs_scheme option) \<Rightarrow> 'a kfs_scheme \<Rightarrow> (unit, 'a kfs_scheme) outcome option" where
  "exec away k = do {
     (r, k) \<leftarrow> namei away uchar 0 k;
     case r of
       None \<Rightarrow> ret k
     | Some ip \<Rightarrow> do {
         k \<leftarrow> exec_wait away k;
         (b, k) \<leftarrow> getblk away NODEV 0 (k\<lparr>execnt := execnt k + 1\<rparr>);
         (deny, k) \<leftarrow> access ip IEXEC k;
         if deny \<or> filetype ip k \<noteq> 0 then exec_bad away ip b k
         else do {
           (r, k) \<leftarrow> exec_args (b_addr b) 0 0 k;
           case r of
             None \<Rightarrow> exec_bad away ip b k
           | Some (na, nc) \<Rightarrow>
               let k = (if odd nc then set_bbyte (b_addr b + nc) 0 k else k);
                   nc = (if odd nc then nc + 1 else nc)
               in exec_image away ip b na nc k } } }"

subsection \<open>The end of a process\<close>

text \<open>\<open>&u\<close> as bytes: \<open>u_arg\<close> at 110, \<open>u_utime\<close> at 216, \<open>u_stime\<close>, \<open>u_cutime\<close> and \<open>u_cstime\<close> after it.\<close>

definition user_words :: "user \<Rightarrow> (nat \<times> u16) list" where
  "user_words w =
     [(110, u_arg w 0), (112, u_arg w 1), (114, u_arg w 2), (116, u_arg w 3), (118, u_arg w 4),
      (216, u_utime w), (218, u_stime w), (220, fst (u_cutime w)), (222, snd (u_cutime w)),
      (224, fst (u_cstime w)), (226, snd (u_cstime w))]"

definition put_user :: "(user \<Rightarrow> nat \<Rightarrow> u8) \<Rightarrow> nat \<Rightarrow> 'a kbio_scheme \<Rightarrow> 'a kbio_scheme" where
  "put_user raw a k =
     (let w = u k;
          k = k\<lparr>buffers := (\<lambda>x. if a \<le> x \<and> x < a + 512 then raw w (x - a) else buffers k x)\<rparr>
      in fold (\<lambda>(o1, v) k. set_bword (a + o1) v k) (user_words w) k)"

definition exit_close ::
  "('a kfs_scheme \<Rightarrow> 'a kfs_scheme option) \<Rightarrow> nat \<Rightarrow> (unit, 'a kfs_scheme) outcome option \<Rightarrow> (unit, 'a kfs_scheme) outcome option" where
  "exit_close away i m =
     andthen m (\<lambda>_ k.
       case u_ofile (u k) i of
         None \<Rightarrow> ret k
       | Some fp \<Rightarrow> closef away fp (upd_u (\<lambda>w. w\<lparr>u_ofile := (u_ofile w)(i := None)\<rparr>) k))"

text \<open>The part of \<open>exit\<close> after the label \<open>loop\<close>, up to the call of \<open>swtch\<close> that does not return.\<close>

definition orphan :: "nat \<Rightarrow> nat \<Rightarrow> 'a kproc_scheme \<Rightarrow> 'a kproc_scheme" where
  "orphan q p k =
     (if p_ppid (proc k p) = p_pid (proc k q) then
        let k = upd_proc p (\<lambda>r. r\<lparr>p_ppid := 1\<rparr>) k
        in if p_stat (proc k p) = SSTOP then setrun p k else k
      else k)"

partial_function (option) exit_notify :: "nat \<Rightarrow> 'a kproc_scheme \<Rightarrow> 'a kproc_scheme option" where
  "exit_notify q k =
     (case find (\<lambda>p. p_pid (proc k p) = p_ppid (proc k q)) [0..<NPROC] of
        Some p \<Rightarrow> Some (fold (orphan q) [0..<NPROC] (wakeup (ChProc p) (wakeup (ChProc 1) k)))
      | None \<Rightarrow> exit_notify q (upd_proc q (\<lambda>r. r\<lparr>p_ppid := 1\<rparr>) k))"

definition exit_zombie ::
  "(user \<Rightarrow> nat \<Rightarrow> u8) \<Rightarrow> ('a kfs_scheme \<Rightarrow> 'a kfs_scheme option) \<Rightarrow> 'a kfs_scheme \<Rightarrow> 'a kfs_scheme option" where
  "exit_zombie raw away k = do {
     (a, m) \<leftarrow> malloc (swapmap k) 1;
     if a = 0 then None
     else do {
       (b, k) \<leftarrow> getblk away (swapdev k) a (k\<lparr>swapmap := m\<rparr>);
       k \<leftarrow> bwrite away b (put_user raw (b_addr b) k);
       let q = u_procp (u k);
       m \<leftarrow> mfree (coremap k) (p_size (proc k q)) (p_addr (proc k q));
       let k = upd_proc q (\<lambda>r. r\<lparr>p_addr := a, p_stat := SZOMB\<rparr>) (k\<lparr>coremap := m\<rparr>);
       exit_notify q k } }"

definition exit ::
  "(user \<Rightarrow> nat \<Rightarrow> u8) \<Rightarrow> ('a kfs_scheme \<Rightarrow> 'a kfs_scheme option) \<Rightarrow> 'a kfs_scheme \<Rightarrow> (unit, 'a kfs_scheme) outcome option" where
  "exit raw away k =
     (let k = upd_proc (u_procp (u k)) (\<lambda>r. r\<lparr>p_flag := clrf (p_flag r) STRC\<rparr>) k;
          k = upd_u (\<lambda>w. w\<lparr>u_signal := (\<lambda>n. if 0 \<le> n \<and> n < NSIG then 1 else u_signal w n)\<rparr>) k
      in andthen (fold (exit_close away) [0..<NOFILE] (ret k)) (\<lambda>_ k. do {
           k \<leftarrow> iput away (u_cdir (u k)) k;
           k \<leftarrow> exit_zombie raw away k;
           ret k }))"

definition rexit ::
  "(user \<Rightarrow> nat \<Rightarrow> u8) \<Rightarrow> ('a kfs_scheme \<Rightarrow> 'a kfs_scheme option) \<Rightarrow> 'a kfs_scheme \<Rightarrow> (unit, 'a kfs_scheme) outcome option" where
  "rexit raw away k = exit raw away (upd_u (\<lambda>w. w\<lparr>u_arg := (u_arg w)(0 := u_ar0 w 0)\<rparr>) k)"

subsection \<open>Waiting for a child\<close>

text \<open>The words of the dead child's user area, at \<open>a\<close>, that are added to the parent's times.\<close>

definition collect_times :: "nat \<Rightarrow> 'a kbio_scheme \<Rightarrow> 'a kbio_scheme" where
  "collect_times a k =
     upd_u (\<lambda>w. w\<lparr>
       u_cstime := dpadd (dpadd (fst (u_cstime w) + bword (a + 224) k, snd (u_cstime w)) (bword (a + 226) k)) (bword (a + 218) k),
       u_cutime := dpadd (dpadd (fst (u_cutime w) + bword (a + 220) k, snd (u_cutime w)) (bword (a + 222) k)) (bword (a + 216) k),
       u_ar0 := (u_ar0 w)(1 := bword (a + 110) k)\<rparr>) k"

definition bury :: "('a kfs_scheme \<Rightarrow> 'a kfs_scheme option) \<Rightarrow> nat \<Rightarrow> 'a kfs_scheme \<Rightarrow> 'a kfs_scheme option" where
  "bury away p k = do {
     let k = set_r0 (p_pid (proc k p)) k;
     let f = p_addr (proc k p);
     (b, k) \<leftarrow> bread away (swapdev k) f k;
     m \<leftarrow> mfree (swapmap k) 1 f;
     let k = k\<lparr>swapmap := m\<rparr>;
     let k = upd_proc p (\<lambda>r. r\<lparr>p_stat := 0, p_pid := 0, p_ppid := 0, p_sig := 0, p_ttyp := None, p_flag := 0\<rparr>) k;
     Some (brelse b (collect_times (b_addr b) k)) }"

text \<open>The scan of the process table; the first result is whether the call is complete, the second
  whether a child was seen.\<close>

fun wait_scan ::
  "('a kfs_scheme \<Rightarrow> 'a kfs_scheme option) \<Rightarrow> nat list \<Rightarrow> bool \<Rightarrow> 'a kfs_scheme \<Rightarrow> ((bool \<times> bool) \<times> 'a kfs_scheme) option" where
  "wait_scan away [] f k = Some ((False, f), k)"
| "wait_scan away (p # ps) f k =
     (if p_ppid (proc k p) \<noteq> p_pid (curproc k) then wait_scan away ps f k
      else if p_stat (proc k p) = SZOMB then do { k \<leftarrow> bury away p k; Some ((True, True), k) }
      else if p_stat (proc k p) = SSTOP then
        if \<not> flag (p_flag (proc k p)) SWTED then
          let k = upd_proc p (\<lambda>r. r\<lparr>p_flag := setf (p_flag r) SWTED\<rparr>) k
          in Some ((True, True), upd_u (\<lambda>w. w\<lparr>u_ar0 := (u_ar0 w)(0 := p_pid (proc k p),
                 1 := push_bit 8 (scast (p_sig (proc k p))) OR 127)\<rparr>) k)
        else wait_scan away ps True (setrun p (upd_proc p (\<lambda>r. r\<lparr>p_flag := clrf (p_flag r) (STRC OR SWTED)\<rparr>) k))
      else wait_scan away ps True k)"

partial_function (option) wait_loop ::
  "('a kfs_scheme \<Rightarrow> 'a kfs_scheme option) \<Rightarrow> bool \<Rightarrow> 'a kfs_scheme \<Rightarrow> (unit, 'a kfs_scheme) outcome option" where
  "wait_loop away f k = do {
     ((fin, f), k) \<leftarrow> wait_scan away [0..<NPROC] f k;
     if fin then ret k
     else if f then do {
       w \<leftarrow> sleep away (ChProc (u_procp (u k))) PWAIT k;
       case w of Qsav k \<Rightarrow> Some (Intr k) | Woken k \<Rightarrow> wait_loop away f k }
     else ret (set_error ECHILD k) }"

definition wait :: "('a kfs_scheme \<Rightarrow> 'a kfs_scheme option) \<Rightarrow> 'a kfs_scheme \<Rightarrow> (unit, 'a kfs_scheme) outcome option" where
  "wait away k = wait_loop away False k"

end
