(* ===== verification/Sys2.thy ===== *)
theory Sys2
  imports Sys1
begin

unbundle bit_operations_syntax

text \<open>
  \<open>ken/sys2.c\<close>, \<open>ken/sys3.c\<close>, \<open>ken/sys4.c\<close>, the terminal calls of \<open>dmr/tty.c\<close>, \<open>ken/sysent.c\<close>
  and \<open>ken/trap.c\<close>: the system calls and the way into and out of them.
\<close>

subsection \<open>Reading, writing and seeking\<close>

definition rdwr :: "('a kfs_scheme \<Rightarrow> 'a kfs_scheme option) \<Rightarrow> u8 \<Rightarrow> 'a kfs_scheme \<Rightarrow> (unit, 'a kfs_scheme) outcome option" where
  "rdwr away m k =
     (case getf (u_ar0 (u k) 0) k of
        (None, k) \<Rightarrow> ret k
      | (Some fp, k) \<Rightarrow>
          if \<not> flag (f_flag (filetab k fp)) m then ret (set_error EBADF k)
          else
            let k = upd_u (\<lambda>w. w\<lparr>u_base := UAddr (u_arg w 0), u_count := u_arg w 1, u_segflg := False\<rparr>) k;
                fin = (\<lambda>_ k. ret (set_r0 (u_arg (u k) 1 - u_count (u k)) k)) in
            if flag (f_flag (filetab k fp)) FPIPE then
              andthen (if m = FREAD then readp away fp k else writep away fp k) fin
            else
              let k = upd_u (\<lambda>w. w\<lparr>u_offset := f_offset (filetab k fp)\<rparr>) k in
              andthen (if m = FREAD then readi away (f_inode (filetab k fp)) k else writei away (f_inode (filetab k fp)) k)
                (\<lambda>_ k. fin () (upd_file fp (\<lambda>f. f\<lparr>f_offset := dpadd (f_offset f) (u_arg (u k) 1 - u_count (u k))\<rparr>) k)))"

definition read_call :: "('a kfs_scheme \<Rightarrow> 'a kfs_scheme option) \<Rightarrow> 'a kfs_scheme \<Rightarrow> (unit, 'a kfs_scheme) outcome option" where
  "read_call away = rdwr away FREAD"

definition write_call :: "('a kfs_scheme \<Rightarrow> 'a kfs_scheme option) \<Rightarrow> 'a kfs_scheme \<Rightarrow> (unit, 'a kfs_scheme) outcome option" where
  "write_call away = rdwr away FWRITE"

text \<open>The offset that \<open>seek\<close> computes from its arguments, the offset of the file and its size.\<close>

definition seek_to :: "u16 \<Rightarrow> u16 \<Rightarrow> dword \<Rightarrow> dword \<Rightarrow> dword" where
  "seek_to a t off sz =
     (let n = (if sint t > 2 then
                 let n0 = signed_drop_bit 7 a in (if t = 3 then n0 AND 0x1FF else n0, push_bit 9 a)
               else (if t \<noteq> 0 \<and> sint a < 0 then -1 else 0, a))
      in if t = 1 \<or> t = 4 then dpadd (fst n + fst off, snd n) (snd off)
         else if t = 0 \<or> t = 3 then n
         else dpadd (fst n + fst sz, snd n) (snd sz))"

definition seek :: "'a kfs_scheme \<Rightarrow> 'a kfs_scheme" where
  "seek k =
     (case getf (u_ar0 (u k) 0) k of
        (None, k) \<Rightarrow> k
      | (Some fp, k) \<Rightarrow>
          if flag (f_flag (filetab k fp)) FPIPE then set_error ESPIPE k
          else
            let i = inode k (f_inode (filetab k fp))
            in upd_file fp (\<lambda>f. f\<lparr>f_offset := seek_to (u_arg (u k) 0) (u_arg (u k) 1) (f_offset f) (ucast (i_size0 i), i_size1 i)\<rparr>) k)"

subsection \<open>Opening and closing\<close>

definition open1 ::
  "('a kfs_scheme \<Rightarrow> 'a kfs_scheme option) \<Rightarrow> nat \<Rightarrow> u8 \<Rightarrow> nat \<Rightarrow> 'a kfs_scheme \<Rightarrow> 'a kfs_scheme option" where
  "open1 away ip m trf k = do {
     k \<leftarrow> (if trf \<noteq> 2 then do {
         k \<leftarrow> (if flag m FREAD then do { (_, k) \<leftarrow> access ip IREAD k; Some k } else Some k);
         if flag m FWRITE then do {
           (_, k) \<leftarrow> access ip IWRITE k;
           Some (if filetype ip k = IFDIR then set_error EISDIR k else k) }
         else Some k }
       else Some k);
     if u_error (u k) \<noteq> 0 then iput away ip k
     else do {
       k \<leftarrow> (if trf \<noteq> 0 then itrunc away ip k else Some k);
       (r, k) \<leftarrow> falloc (prele ip k);
       case r of
         None \<Rightarrow> iput away ip k
       | Some fp \<Rightarrow> do {
           let k = upd_file fp (\<lambda>f. f\<lparr>f_flag := m AND (FREAD OR FWRITE), f_inode := ip\<rparr>) k;
           let i = unat (u_ar0 (u k) 0);
           k \<leftarrow> openi ip k;
           if u_error (u k) = 0 then Some k
           else iput away ip (upd_file fp (\<lambda>f. f\<lparr>f_count := f_count f - 1\<rparr>)
                  (upd_u (\<lambda>w. w\<lparr>u_ofile := (u_ofile w)(i := None)\<rparr>) k)) } } }"

definition open_call :: "('a kfs_scheme \<Rightarrow> 'a kfs_scheme option) \<Rightarrow> 'a kfs_scheme \<Rightarrow> 'a kfs_scheme option" where
  "open_call away k = do {
     (r, k) \<leftarrow> namei away uchar 0 k;
     case r of
       None \<Rightarrow> Some k
     | Some ip \<Rightarrow> do {
         let k = upd_u (\<lambda>w. w\<lparr>u_arg := (u_arg w)(1 := u_arg w 1 + 1)\<rparr>) k;
         open1 away ip (ucast (u_arg (u k) 1)) 0 k } }"

definition creat :: "('a kfs_scheme \<Rightarrow> 'a kfs_scheme option) \<Rightarrow> 'a kfs_scheme \<Rightarrow> (unit, 'a kfs_scheme) outcome option" where
  "creat away k = do {
     (r, k) \<leftarrow> namei away uchar 1 k;
     case r of
       None \<Rightarrow>
         if u_error (u k) \<noteq> 0 then ret k
         else andthen (maknode away (u_arg (u k) 1 AND 0xFFF AND NOT ISVTX) k) (\<lambda>r k.
                case r of None \<Rightarrow> ret k | Some ip \<Rightarrow> surely (open1 away ip FWRITE 2 k))
     | Some ip \<Rightarrow> surely (open1 away ip FWRITE 1 k) }"

definition close_call :: "('a kfs_scheme \<Rightarrow> 'a kfs_scheme option) \<Rightarrow> 'a kfs_scheme \<Rightarrow> (unit, 'a kfs_scheme) outcome option" where
  "close_call away k =
     (case getf (u_ar0 (u k) 0) k of
        (None, k) \<Rightarrow> ret k
      | (Some fp, k) \<Rightarrow> closef away fp (upd_u (\<lambda>w. w\<lparr>u_ofile := (u_ofile w)(unat (u_ar0 w 0) := None)\<rparr>) k))"

definition dup :: "'a kfs_scheme \<Rightarrow> 'a kfs_scheme" where
  "dup k =
     (case getf (u_ar0 (u k) 0) k of
        (None, k) \<Rightarrow> k
      | (Some fp, k) \<Rightarrow>
          (case ufalloc k of
             (None, k) \<Rightarrow> k
           | (Some i, k) \<Rightarrow> upd_file fp (\<lambda>f. f\<lparr>f_count := f_count f + 1\<rparr>) (upd_u (\<lambda>w. w\<lparr>u_ofile := (u_ofile w)(i := Some fp)\<rparr>) k)))"

subsection \<open>Names\<close>

definition link :: "('a kfs_scheme \<Rightarrow> 'a kfs_scheme option) \<Rightarrow> 'a kfs_scheme \<Rightarrow> (unit, 'a kfs_scheme) outcome option" where
  "link away k = do {
     (r, k) \<leftarrow> namei away uchar 0 k;
     case r of
       None \<Rightarrow> ret k
     | Some ip \<Rightarrow> do {
         let out = (\<lambda>k. surely (iput away ip k));
         let (ok, k) = (if sint (i_nlink (inode k ip)) \<ge> 127 then (False, set_error EMLINK k)
                        else if filetype ip k = IFDIR then suser k else (True, k));
         if \<not> ok then out k
         else do {
           let k = upd_u (\<lambda>w. w\<lparr>u_dirp := u_arg w 1\<rparr>) (iflag_clr ip ILOCK k);
           (xp, k) \<leftarrow> namei away uchar 1 k;
           k \<leftarrow> (case xp of Some x \<Rightarrow> iput away x (set_error EEXIST k) | None \<Rightarrow> Some k);
           if u_error (u k) \<noteq> 0 then out k
           else do {
             pd \<leftarrow> u_pdir (u k);
             if i_dev (inode k pd) \<noteq> i_dev (inode k ip) then do {
               k \<leftarrow> iput away pd k;
               out (set_error EXDEV k) }
             else andthen (wdir away ip k) (\<lambda>_ k.
               out (upd_inode ip (\<lambda>i. i\<lparr>i_nlink := i_nlink i + 1, i_flag := setf (i_flag i) IUPD\<rparr>) k)) } } } }"

definition mknod :: "('a kfs_scheme \<Rightarrow> 'a kfs_scheme option) \<Rightarrow> 'a kfs_scheme \<Rightarrow> (unit, 'a kfs_scheme) outcome option" where
  "mknod away k = do {
     let (su, k) = suser k;
     (r, k) \<leftarrow> (if su then namei away uchar 1 k else Some (None, k));
     case r of
       Some ip \<Rightarrow> surely (iput away ip (set_error EEXIST k))
     | None \<Rightarrow>
         if u_error (u k) \<noteq> 0 then ret k
         else andthen (maknode away (u_arg (u k) 1) k) (\<lambda>r k.
           case r of
             None \<Rightarrow> ret k
           | Some ip \<Rightarrow> surely (iput away ip (upd_inode ip (\<lambda>i. i\<lparr>i_addr := (i_addr i)(0 := u_arg (u k) 2)\<rparr>) k))) }"

definition unlink :: "('a kfs_scheme \<Rightarrow> 'a kfs_scheme option) \<Rightarrow> 'a kfs_scheme \<Rightarrow> (unit, 'a kfs_scheme) outcome option" where
  "unlink away k = do {
     (r, k) \<leftarrow> namei away uchar 2 k;
     case r of
       None \<Rightarrow> ret k
     | Some pp \<Rightarrow> do {
         let k = prele pp k;
         (r, k) \<leftarrow> iget away (i_dev (inode k pp)) (dent_ino (u_dent (u k))) k;
         ip \<leftarrow> r;
         let out = (\<lambda>k. do { k \<leftarrow> iput away pp k; surely (iput away ip k) });
         let (ok, k) = (if filetype ip k = IFDIR then suser k else (True, k));
         if \<not> ok then out k
         else
           let k = upd_u (\<lambda>w. w\<lparr>u_offset := (fst (u_offset w), snd (u_offset w) - 16), u_base := KDent 0, u_count := 16,
                               u_dent := (u_dent w)[0 := 0, 1 := 0]\<rparr>) k
           in andthen (writei away pp k) (\<lambda>_ k.
                out (upd_inode ip (\<lambda>i. i\<lparr>i_nlink := i_nlink i - 1, i_flag := setf (i_flag i) IUPD\<rparr>) k)) } }"

definition chdir :: "('a kfs_scheme \<Rightarrow> 'a kfs_scheme option) \<Rightarrow> 'a kfs_scheme \<Rightarrow> 'a kfs_scheme option" where
  "chdir away k = do {
     (r, k) \<leftarrow> namei away uchar 0 k;
     case r of
       None \<Rightarrow> Some k
     | Some ip \<Rightarrow>
         if filetype ip k \<noteq> IFDIR then iput away ip (set_error ENOTDIR k)
         else do {
           (deny, k) \<leftarrow> access ip IEXEC k;
           if deny then iput away ip k
           else do {
             k \<leftarrow> iput away (u_cdir (u k)) k;
             Some (prele ip (upd_u (\<lambda>w. w\<lparr>u_cdir := ip\<rparr>) k)) } } }"

definition chmod :: "('a kfs_scheme \<Rightarrow> 'a kfs_scheme option) \<Rightarrow> 'a kfs_scheme \<Rightarrow> 'a kfs_scheme option" where
  "chmod away k = do {
     (r, k) \<leftarrow> owner away k;
     case r of
       None \<Rightarrow> Some k
     | Some ip \<Rightarrow> do {
         let k = (if u_uid (u k) \<noteq> 0 then upd_u (\<lambda>w. w\<lparr>u_arg := (u_arg w)(1 := clrf (u_arg w 1) ISVTX)\<rparr>) k else k);
         let k = upd_inode ip (\<lambda>i. i\<lparr>i_mode := clrf (i_mode i) 0xFFF OR (u_arg (u k) 1 AND 0xFFF),
                                    i_flag := setf (i_flag i) IUPD\<rparr>) k;
         iput away ip k } }"

definition chown :: "('a kfs_scheme \<Rightarrow> 'a kfs_scheme option) \<Rightarrow> 'a kfs_scheme \<Rightarrow> 'a kfs_scheme option" where
  "chown away k = do {
     let (su, k) = suser k;
     if \<not> su then Some k
     else do {
       (r, k) \<leftarrow> owner away k;
       case r of
         None \<Rightarrow> Some k
       | Some ip \<Rightarrow>
           iput away ip (upd_inode ip (\<lambda>i. i\<lparr>i_uid := byte0 (u_arg (u k) 1), i_gid := byte1 (u_arg (u k) 1),
             i_flag := setf (i_flag i) IUPD\<rparr>) k) } }"

subsection \<open>Status\<close>

definition put_uwords :: "u16 \<Rightarrow> u16 list \<Rightarrow> 'a kproc_scheme \<Rightarrow> 'a kproc_scheme" where
  "put_uwords a ws k = fold (\<lambda>(j, w) k. suword (a + of_nat (2 * j)) w k) (enumerate 0 ws) k"

definition stat1 :: "('a kfs_scheme \<Rightarrow> 'a kfs_scheme option) \<Rightarrow> nat \<Rightarrow> u16 \<Rightarrow> 'a kfs_scheme \<Rightarrow> 'a kfs_scheme option" where
  "stat1 away ip ub k = do {
     k \<leftarrow> iupdat away ip time k;
     let ino = i_number (inode k ip);
     blk \<leftarrow> itod ino;
     (b, k) \<leftarrow> bread away (i_dev (inode k ip)) blk k;
     let k = put_uwords ub ([i_dev (inode k ip), ino] @ inode_words (inode k ip)) k;
     a \<leftarrow> itoo ino (b_addr b);
     let k = put_uwords (ub + 28) (map (\<lambda>i. bword (a + 24 + 2 * i) k) [0..<4]) k;
     Some (brelse b k) }"

definition fstat :: "('a kfs_scheme \<Rightarrow> 'a kfs_scheme option) \<Rightarrow> 'a kfs_scheme \<Rightarrow> 'a kfs_scheme option" where
  "fstat away k =
     (case getf (u_ar0 (u k) 0) k of
        (None, k) \<Rightarrow> Some k
      | (Some fp, k) \<Rightarrow> stat1 away (f_inode (filetab k fp)) (u_arg (u k) 0) k)"

definition stat_call :: "('a kfs_scheme \<Rightarrow> 'a kfs_scheme option) \<Rightarrow> 'a kfs_scheme \<Rightarrow> 'a kfs_scheme option" where
  "stat_call away k = do {
     (r, k) \<leftarrow> namei away uchar 0 k;
     case r of
       None \<Rightarrow> Some k
     | Some ip \<Rightarrow> do {
         k \<leftarrow> stat1 away ip (u_arg (u k) 1) k;
         iput away ip k } }"

subsection \<open>Mounting\<close>

definition getmdev :: "('a kfs_scheme \<Rightarrow> 'a kfs_scheme option) \<Rightarrow> 'a kfs_scheme \<Rightarrow> (u16 \<times> 'a kfs_scheme) option" where
  "getmdev away k = do {
     (r, k) \<leftarrow> namei away uchar 0 k;
     case r of
       None \<Rightarrow> Some (-1, k)
     | Some ip \<Rightarrow> do {
         let k = (if filetype ip k \<noteq> IFBLK then set_error ENOTBLK k else k);
         let d = i_addr (inode k ip) 0;
         let k = (if major d \<ge> sint (nblkdev k) then set_error ENXIO k else k);
         k \<leftarrow> iput away ip k;
         Some (d, k) } }"

definition mount_super ::
  "('a kfs_scheme \<Rightarrow> 'a kfs_scheme option) \<Rightarrow> u16 \<Rightarrow> nat \<Rightarrow> nat \<Rightarrow> bp \<Rightarrow> 'a kfs_scheme \<Rightarrow> 'a kfs_scheme option" where
  "mount_super away d ip smp b k = do {
     let k = upd_mount smp (\<lambda>m. m\<lparr>m_inodp := Some ip, m_dev := d\<rparr>) k;
     (c, k) \<leftarrow> getblk away NODEV 0 k;
     let k = upd_mount smp (\<lambda>m. m\<lparr>m_bufp := c\<rparr>) k;
     let fp = b_addr c;
     let k = bcopy (b_addr b) fp 256 k;
     let k = set_ronly fp (ucast (u_arg (u k) 2 AND 1)) (set_flock fp 0 (set_ilock fp 0 k));
     Some (prele ip (iflag_set ip IMOUNT (brelse b k))) }"

definition smount :: "('a kfs_scheme \<Rightarrow> 'a kfs_scheme option) \<Rightarrow> 'a kfs_scheme \<Rightarrow> 'a kfs_scheme option" where
  "smount away k = do {
     (d, k) \<leftarrow> getmdev away k;
     if u_error (u k) \<noteq> 0 then Some k
     else do {
       (r, k) \<leftarrow> namei away uchar 0 (upd_u (\<lambda>w. w\<lparr>u_dirp := u_arg w 1\<rparr>) k);
       case r of
         None \<Rightarrow> Some k
       | Some ip \<Rightarrow>
           let out = (\<lambda>k. iput away ip (set_error EBUSY k)) in
           if i_count (inode k ip) \<noteq> 1 \<or> flag (i_mode (inode k ip)) (IFBLK AND IFCHR) then out k
           else if \<exists>m \<in> set [0..<NMOUNT]. m_bufp (mount k m) \<noteq> BNull \<and> m_dev (mount k m) = d then out k
           else (case find (\<lambda>m. m_bufp (mount k m) = BNull) [0..<NMOUNT] of
               None \<Rightarrow> out k
             | Some smp \<Rightarrow> do {
                 k \<leftarrow> bdev_null d k;
                 if u_error (u k) \<noteq> 0 then out k
                 else do {
                   (b, k) \<leftarrow> bread away d 1 k;
                   if u_error (u k) \<noteq> 0 then iput away ip (brelse b k)
                   else mount_super away d ip smp b k } }) } }"

definition sumount :: "('a kfs_scheme \<Rightarrow> 'a kfs_scheme option) \<Rightarrow> 'a kfs_scheme \<Rightarrow> 'a kfs_scheme option" where
  "sumount away k = do {
     k \<leftarrow> update away k;
     (d, k) \<leftarrow> getmdev away k;
     if u_error (u k) \<noteq> 0 then Some k
     else (case find (\<lambda>m. m_bufp (mount k m) \<noteq> BNull \<and> m_dev (mount k m) = d) [0..<NMOUNT] of
         None \<Rightarrow> Some (set_error EINVAL k)
       | Some m \<Rightarrow>
           if \<exists>p \<in> set [0..<NINODE]. i_number (inode k p) \<noteq> 0 \<and> i_dev (inode k p) = d then Some (set_error EBUSY k)
           else do {
             k \<leftarrow> bdev_null d k;
             ip \<leftarrow> m_inodp (mount k m);
             k \<leftarrow> iput away ip (iflag_clr ip IMOUNT k);
             let b = m_bufp (mount k m);
             Some (brelse b (upd_mount m (\<lambda>x. x\<lparr>m_bufp := BNull\<rparr>) k)) }) }"

subsection \<open>Terminal modes\<close>

text \<open>\<open>sgtty\<close> for \<open>gtty\<close>, which yields the three words if the device delivers them, and for \<open>stty\<close>.\<close>

definition gtty :: "'a kfs_scheme \<Rightarrow> (unit, 'a kfs_scheme) outcome option" where
  "gtty k =
     (case getf (u_ar0 (u k) 0) k of
        (None, k) \<Rightarrow> ret k
      | (Some fp, k) \<Rightarrow>
          let ip = f_inode (filetab k fp); dev = i_addr (inode k ip) 0 in
          if filetype ip k \<noteq> IFCHR then ret (set_error ENOTTY k)
          else if major dev = 0 then do {
            tp \<leftarrow> kl_minor dev;
            let (a, b, c) = ttystty_get tp k;
            ret (if u_error (u k) \<noteq> 0 then k else put_uwords (u_arg (u k) 0) [a, b, c] k) }
          else None)"

definition stty :: "('a kfs_scheme \<Rightarrow> 'a kfs_scheme option) \<Rightarrow> 'a kfs_scheme \<Rightarrow> (unit, 'a kfs_scheme) outcome option" where
  "stty away k =
     (let up = u_arg (u k) 0;
          k = upd_u (\<lambda>w. w\<lparr>u_arg := (u_arg w)(0 := fuword up k, 1 := fuword (up + 2) k, 2 := fuword (up + 4) k)\<rparr>) k in
      case getf (u_ar0 (u k) 0) k of
        (None, k) \<Rightarrow> ret k
      | (Some fp, k) \<Rightarrow>
          let ip = f_inode (filetab k fp); dev = i_addr (inode k ip) 0 in
          if filetype ip k \<noteq> IFCHR then ret (set_error ENOTTY k)
          else if major dev = 0 then do { tp \<leftarrow> kl_minor dev; ttystty_set away tp k }
          else if major dev = 1 then ret k
          else None)"

subsection \<open>Times and identities\<close>

partial_function (option) sslep_loop ::
  "('a kproc_scheme \<Rightarrow> 'a kproc_scheme option) \<Rightarrow> dword \<Rightarrow> 'a kproc_scheme \<Rightarrow> (unit, 'a kproc_scheme) outcome option" where
  "sslep_loop away d k =
     (if sint (dpcmp (fst d) (snd d) (fst (time k)) (snd (time k))) > 0 then do {
        let k = (if sint (dpcmp (fst (tout k)) (snd (tout k)) (fst (time k)) (snd (time k))) \<le> 0 \<or>
                    sint (dpcmp (fst (tout k)) (snd (tout k)) (fst d) (snd d)) > 0
                 then k\<lparr>tout := d\<rparr> else k);
        w \<leftarrow> sleep away ChTout PSLEP k;
        case w of Qsav k \<Rightarrow> Some (Intr k) | Woken k \<Rightarrow> sslep_loop away d k }
      else ret (spl 0 k))"

definition sslep :: "('a kproc_scheme \<Rightarrow> 'a kproc_scheme option) \<Rightarrow> 'a kproc_scheme \<Rightarrow> (unit, 'a kproc_scheme) outcome option" where
  "sslep away k = sslep_loop away (dpadd (time k) (u_ar0 (u k) 0)) (spl 7 k)"

definition set_r01 :: "u16 \<Rightarrow> u16 \<Rightarrow> 'a kproc_scheme \<Rightarrow> 'a kproc_scheme" where
  "set_r01 v w = upd_u (\<lambda>x. x\<lparr>u_ar0 := (u_ar0 x)(0 := v, 1 := w)\<rparr>)"

definition gtime :: "'a kproc_scheme \<Rightarrow> 'a kproc_scheme" where
  "gtime k = set_r01 (fst (time k)) (snd (time k)) k"

definition stime :: "'a kproc_scheme \<Rightarrow> 'a kproc_scheme" where
  "stime k =
     (case suser k of (su, k) \<Rightarrow>
      if su then wakeup ChTout (k\<lparr>time := (u_ar0 (u k) 0, u_ar0 (u k) 1)\<rparr>) else k)"

definition setuid :: "'a kproc_scheme \<Rightarrow> 'a kproc_scheme" where
  "setuid k =
     (let uid = byte0 (u_ar0 (u k) 0);
          (ok, k) = (if u_ruid (u k) = uid then (True, k) else suser k)
      in if ok then upd_proc (u_procp (u k)) (\<lambda>r. r\<lparr>p_uid := uid\<rparr>) (upd_u (\<lambda>w. w\<lparr>u_uid := uid, u_ruid := uid\<rparr>) k) else k)"

definition getuid :: "'a kproc_scheme \<Rightarrow> 'a kproc_scheme" where
  "getuid k = set_r0 (push_bit 8 (scast (u_uid (u k))) OR scast (u_ruid (u k))) k"

definition setgid :: "'a kproc_scheme \<Rightarrow> 'a kproc_scheme" where
  "setgid k =
     (let gid = byte0 (u_ar0 (u k) 0);
          (ok, k) = (if u_rgid (u k) = gid then (True, k) else suser k)
      in if ok then upd_u (\<lambda>w. w\<lparr>u_gid := gid, u_rgid := gid\<rparr>) k else k)"

definition getgid :: "'a kproc_scheme \<Rightarrow> 'a kproc_scheme" where
  "getgid k = set_r0 (push_bit 8 (scast (u_gid (u k))) + scast (u_rgid (u k))) k"

definition getpid :: "'a kproc_scheme \<Rightarrow> 'a kproc_scheme" where
  "getpid k = set_r0 (p_pid (curproc k)) k"

definition nice :: "'a kproc_scheme \<Rightarrow> 'a kproc_scheme" where
  "nice k =
     (let n = sint (u_ar0 (u k) 0);
          n = (if n > 20 then 20 else n);
          (ok, k) = (if n < 0 then suser k else (True, k));
          n = (if ok then n else 0)
      in upd_proc (u_procp (u k)) (\<lambda>r. r\<lparr>p_nice := word_of_int n\<rparr>) k)"

definition times :: "'a kproc_scheme \<Rightarrow> 'a kproc_scheme" where
  "times k =
     (let w = u k;
          a = u_arg w 0;
          k = put_uwords a [u_utime w, u_stime w, fst (u_cutime w), snd (u_cutime w), fst (u_cstime w), snd (u_cstime w)] k
      in upd_u (\<lambda>w. w\<lparr>u_arg := (u_arg w)(0 := a + 12)\<rparr>) k)"

text \<open>\<open>getswit\<close> and \<open>getkaddr\<close>, with the processor flags and the addresses of two kernel variables.\<close>

definition getswit :: "u16 \<Rightarrow> 'a kproc_scheme \<Rightarrow> 'a kproc_scheme" where
  "getswit ps k = set_r0 ps k"

definition getkaddr :: "u16 \<Rightarrow> u16 \<Rightarrow> 'a kproc_scheme \<Rightarrow> 'a kproc_scheme" where
  "getkaddr procaddr swapaddr k =
     (let i = u_ar0 (u k) 0 in set_r0 (if i = 0 then procaddr else if i = 1 then swapaddr else 0) k)"

end
