(* ===== verification/Kbd.thy ===== *)
theory Kbd
  imports Prelude
begin

unbundle bit_operations_syntax

text \<open>
  \<open>dmr/kbd.c\<close>: the scan codes of the keyboard.

  The tables are the initialisers of the source, extended by the entries that \<open>kbd_init\<close> stores; the
  other entries are zero.  \<open>shift\<close> is the static variable of \<open>kbd_getc\<close>, and the scan code read from
  the data port is an argument, \<open>None\<close> when the status port says that there is none.
\<close>

subsection \<open>Tables\<close>

abbreviation "SHIFT \<equiv> (1 :: u16)"
abbreviation "CTL \<equiv> (2 :: u16)"
abbreviation "ALT \<equiv> (4 :: u16)"
abbreviation "CAPSLOCK \<equiv> (8 :: u16)"
abbreviation "NUMLOCK \<equiv> (16 :: u16)"
abbreviation "SCROLLLOCK \<equiv> (32 :: u16)"
abbreviation "E0ESC \<equiv> (64 :: u16)"

definition table :: "u16 list \<Rightarrow> (nat \<times> u16) list \<Rightarrow> nat \<Rightarrow> u16" where
  "table base upds i = (case map_of upds i of Some v \<Rightarrow> v | None \<Rightarrow> if i < length base then base ! i else 0)"

definition normalmap :: "nat \<Rightarrow> u16" where
  "normalmap = table [
     0, 27, 49, 50, 51, 52, 53, 54, 55, 56, 57, 48, 45, 61, 8, 9,
     113, 119, 101, 114, 116, 121, 117, 105, 111, 112, 91, 93, 10, 0, 97, 115,
     100, 102, 103, 104, 106, 107, 108, 59, 39, 96, 0, 92, 122, 120, 99, 118,
     98, 110, 109, 44, 46, 47, 0, 42, 0, 32, 0, 0, 0, 0, 0, 0,
     0, 0, 0, 0, 0, 0, 0, 55, 56, 57, 45, 52, 53, 54, 43, 49,
     50, 51, 48, 46, 0, 0, 0, 0]
     [(0x9C, 10), (0xB5, 47), (0xC8, 226), (0xD0, 227), (0xC9, 230), (0xD1, 231), (0xCB, 228), (0xCD, 229), (0x97, 224), (0xCF, 225), (0xD2, 232), (0xD3, 233)]"

definition shiftmap :: "nat \<Rightarrow> u16" where
  "shiftmap = table [
     0, 27, 33, 64, 35, 36, 37, 94, 38, 42, 40, 41, 95, 43, 8, 9,
     81, 87, 69, 82, 84, 89, 85, 73, 79, 80, 123, 125, 10, 0, 65, 83,
     68, 70, 71, 72, 74, 75, 76, 58, 34, 126, 0, 124, 90, 88, 67, 86,
     66, 78, 77, 60, 62, 63, 0, 42, 0, 32, 0, 0, 0, 0, 0, 0,
     0, 0, 0, 0, 0, 0, 0, 55, 56, 57, 45, 52, 53, 54, 43, 49,
     50, 51, 48, 46, 0, 0, 0, 0]
     [(0x9C, 10), (0xB5, 47), (0xC8, 226), (0xD0, 227), (0xC9, 230), (0xD1, 231), (0xCB, 228), (0xCD, 229), (0x97, 224), (0xCF, 225), (0xD2, 232), (0xD3, 233)]"

definition ctlmap :: "nat \<Rightarrow> u16" where
  "ctlmap = table [
     0, 0, 0, 0, 0, 0, 0, 0, 0, 0, 0, 0, 0, 0, 0, 0,
     17, 23, 5, 18, 20, 25, 21, 9, 15, 16, 0, 0, 13, 0, 1, 19,
     4, 6, 7, 8, 10, 11, 12, 0, 0, 0, 0, 28, 26, 24, 3, 22,
     2, 14, 13, 0, 0, 239, 0, 0]
     [(0x9C, 13), (0xB5, 239), (0xC8, 226), (0xD0, 227), (0xC9, 230), (0xD1, 231), (0xCB, 228), (0xCD, 229), (0x97, 224), (0xCF, 225), (0xD2, 232), (0xD3, 233)]"

definition shiftcode :: "nat \<Rightarrow> u16" where
  "shiftcode = table [] [(0x1D, CTL), (0x2A, SHIFT), (0x36, SHIFT), (0x38, ALT), (0x9D, CTL), (0xB8, ALT)]"

definition togglecode :: "nat \<Rightarrow> u16" where
  "togglecode = table [] [(0x3A, CAPSLOCK), (0x45, NUMLOCK), (0x46, SCROLLLOCK)]"

definition charcode :: "u16 \<Rightarrow> nat \<Rightarrow> u16" where
  "charcode s = (if s = 0 then normalmap else if s = 1 then shiftmap else ctlmap)"

subsection \<open>Decoding\<close>

text \<open>\<open>'A' - 'a'\<close> is added to letters when the capitals lock is on.\<close>

definition caps :: "u16 \<Rightarrow> u16 \<Rightarrow> u16" where
  "caps shift c =
     (if flag shift CAPSLOCK then
        if 97 \<le> c \<and> c \<le> 122 then c - 32
        else if 65 \<le> c \<and> c \<le> 90 then c + 32 else c
      else c)"

text \<open>\<open>kbd_getc\<close>: the result of the code (as a signed number) and the new value of \<open>shift\<close>.\<close>

definition kbd_getc :: "u16 option \<Rightarrow> u16 \<Rightarrow> int \<times> u16" where
  "kbd_getc st shift =
     (case st of
        None \<Rightarrow> (-1, shift)
      | Some data \<Rightarrow>
          if data = 0xE0 then (0, shift OR E0ESC)
          else if flag data 0x80 then
            let data = (if flag shift E0ESC then data else data AND 0x7F)
            in (0, clrf shift (shiftcode (unat data) OR E0ESC))
          else
            let (data, shift) = (if flag shift E0ESC then (data OR 0x80, clrf shift E0ESC) else (data, shift));
                shift = shift OR shiftcode (unat data);
                shift = shift XOR togglecode (unat data)
            in (sint (caps shift (charcode (shift AND (CTL OR SHIFT)) (unat data))), shift))"

end
