(* ===== verification/Trap.thy ===== *)
theory Trap
  imports Sys2 Kbd
begin

unbundle bit_operations_syntax

text \<open>
  \<open>ken/sysent.c\<close>, \<open>ken/trap.c\<close> and \<open>ken/main.c\<close>: the table of system calls, the way into and out of
  a call, and the start of the system.

  The record of parameters names what is outside the modelled code: what the system does while the
  process is switched out, the bytes of a user area that nothing reads back, the writing of a core
  image, the processor flags and the addresses of two kernel variables.
\<close>

record 'k kenv =
  away :: "'k \<Rightarrow> 'k option"
  raw_user :: "user \<Rightarrow> nat \<Rightarrow> u8"
  coredump :: "'k \<Rightarrow> (bool \<times> 'k) option"
  psw :: u16
  kaddr_proc :: u16
  kaddr_swapdev :: u16

subsection \<open>Dispatch\<close>

definition nosys :: "'a kproc_scheme \<Rightarrow> 'a kproc_scheme" where
  "nosys k = set_error 100 k"

text \<open>A call returns to \<open>trap1\<close> (\<open>True\<close>) or the process is gone (\<open>False\<close>).\<close>

definition returns :: "(unit, 'k) outcome option \<Rightarrow> (bool, 'k) outcome option" where
  "returns m = andthen m (\<lambda>_ k. Some (Ret True k))"

text \<open>\<open>sysent[n]\<close>; beyond the 64 entries the code takes a word of other data for a routine.\<close>

definition sysent :: "'a kfs_scheme kenv \<Rightarrow> nat \<Rightarrow> 'a kfs_scheme \<Rightarrow> (bool, 'a kfs_scheme) outcome option" where
  "sysent e n k =
     (let aw = away e in
      if n = 0 then returns (ret k)
      else if n = 1 then andthen (rexit (raw_user e) aw k) (\<lambda>_ k. Some (Ret False k))
      else if n = 2 then returns (surely (fork aw k))
      else if n = 3 then returns (read_call aw k)
      else if n = 4 then returns (write_call aw k)
      else if n = 5 then returns (surely (open_call aw k))
      else if n = 6 then returns (close_call aw k)
      else if n = 7 then returns (wait aw k)
      else if n = 8 then returns (creat aw k)
      else if n = 9 then returns (link aw k)
      else if n = 10 then returns (unlink aw k)
      else if n = 11 then returns (exec aw k)
      else if n = 12 then returns (surely (chdir aw k))
      else if n = 13 then returns (ret (gtime k))
      else if n = 14 then returns (mknod aw k)
      else if n = 15 then returns (surely (chmod aw k))
      else if n = 16 then returns (surely (chown aw k))
      else if n = 17 then returns (ret k)
      else if n = 18 then returns (surely (stat_call aw k))
      else if n = 19 then returns (ret (seek k))
      else if n = 20 then returns (ret (getpid k))
      else if n = 21 then returns (surely (smount aw k))
      else if n = 22 then returns (surely (sumount aw k))
      else if n = 23 then returns (ret (setuid k))
      else if n = 24 then returns (ret (getuid k))
      else if n = 25 then returns (ret (stime k))
      else if n = 28 then returns (surely (fstat aw k))
      else if n = 30 then returns (ret k)
      else if n = 31 then returns (stty aw k)
      else if n = 32 then returns (gtty k)
      else if n = 34 then returns (ret (nice k))
      else if n = 35 then returns (sslep aw k)
      else if n = 36 then returns (surely (update aw k))
      else if n = 37 then returns (ret (kill k))
      else if n = 38 then returns (ret (getswit (psw e) k))
      else if n = 39 then returns (ret (getkaddr (kaddr_proc e) (kaddr_swapdev e) k))
      else if n = 41 then returns (ret (dup k))
      else if n = 42 then returns (surely (pipe aw k))
      else if n = 43 then returns (ret (times k))
      else if n = 46 then returns (ret (setgid k))
      else if n = 47 then returns (ret (getgid k))
      else if n = 48 then returns (ret (ssig k))
      else if n < 64 then returns (ret (nosys k))
      else None)"

text \<open>\<open>trap1\<close>: the result tells whether the process is still there.\<close>

definition trap1 ::
  "('a kfs_scheme \<Rightarrow> (bool, 'a kfs_scheme) outcome option) \<Rightarrow> 'a kfs_scheme \<Rightarrow> (bool \<times> 'a kfs_scheme) option" where
  "trap1 f k = do {
     r \<leftarrow> f (upd_u (\<lambda>w. w\<lparr>u_intflg := True\<rparr>) k);
     Some (case r of
         Intr k \<Rightarrow> (True, k)
       | Ret b k \<Rightarrow> (b, if b then upd_u (\<lambda>w. w\<lparr>u_intflg := False\<rparr>) k else k)) }"

definition trap_epilogue :: "'a kproc_scheme \<Rightarrow> 'a kproc_scheme" where
  "trap_epilogue k =
     (let sp = u_usp (u k);
          k = suword (sp + 10) (u_ar0 (u k) 0) k;
          k = suword (sp + 8) (u_ar0 (u k) 1) k;
          k = suword (sp + 6) (u_ar0 (u k) 2) k
      in suword (sp + 4) (u_ar0 (u k) 3) k)"

text \<open>\<open>psig\<close> with the action of a signal that is not caught.\<close>

definition psig_act :: "'a kfs_scheme kenv \<Rightarrow> 'a kfs_scheme \<Rightarrow> (bool \<times> 'a kfs_scheme) option" where
  "psig_act e k =
     (case psig k of
        Caught k \<Rightarrow> Some (True, k)
      | Killed n k \<Rightarrow> do {
          (n, k) \<leftarrow> (if core_signal n then do {
              (dumped, k) \<leftarrow> coredump e (upd_u (\<lambda>w. w\<lparr>u_arg := (u_arg w)(0 := word_of_int n)\<rparr>) k);
              Some (if dumped then n + 128 else n, k) }
            else Some (n, k));
          let k = upd_u (\<lambda>w. w\<lparr>u_arg := (u_arg w)(0 := push_bit 8 (u_ar0 w 0) OR word_of_int n)\<rparr>) k;
          r \<leftarrow> exit (raw_user e) (away e) k;
          case r of Ret _ k \<Rightarrow> Some (False, k) | Intr k \<Rightarrow> None })"

text \<open>How the result of a call is passed back, and \<open>trap\<close>.\<close>

definition trap_result :: "'a kproc_scheme \<Rightarrow> 'a kproc_scheme" where
  "trap_result k =
     (let k = (if u_intflg (u k) then set_error EINTR k else k);
          e = scast (u_error (u k)) in
      upd_u (\<lambda>w. w\<lparr>u_ar0 := (if e \<noteq> 0 then (u_ar0 w)(0 := - e, 3 := e) else (u_ar0 w)(3 := e))\<rparr>) k)"

definition trap :: "'a kfs_scheme kenv \<Rightarrow> 'a kfs_scheme \<Rightarrow> (bool \<times> 'a kfs_scheme) option" where
  "trap e k = do {
     let n = u_ar0 (u k) 3;
     let k = upd_u (\<lambda>w. w\<lparr>u_dirp := u_arg w 0\<rparr>) k;
     (here, k) \<leftarrow> trap1 (if sint n < 0 then (\<lambda>k. None) else sysent e (nat (sint n))) k;
     if \<not> here then Some (False, k)
     else do {
       let k = trap_epilogue (trap_result k);
       (here, k) \<leftarrow> (if issig k \<noteq> 0 then psig_act e k else Some (True, k));
       Some (here, if here then setpri (u_procp (u k)) k else k) } }"

text \<open>\<open>trap0\<close>: the registers and the stack words that the interrupt passes.\<close>

definition trap0 :: "u16 \<Rightarrow> u16 \<Rightarrow> u16 \<Rightarrow> u16 \<Rightarrow> u16 \<Rightarrow> u16 \<Rightarrow> u16 \<Rightarrow> 'a kproc_scheme \<Rightarrow> 'a kproc_scheme" where
  "trap0 ax bx cx dx arg0 arg1 arg2 k =
     upd_u (\<lambda>w. w\<lparr>u_ar0 := (u_ar0 w)(0 := ax, 1 := bx, 2 := cx, 3 := dx),
       u_arg := (u_arg w)(0 := arg0, 1 := arg1, 2 := arg2), u_dirp := arg0, u_error := 0\<rparr>) k"

subsection \<open>The keyboard interrupt\<close>

definition klrxintr :: "u16 option \<Rightarrow> 'a ktty_scheme \<Rightarrow> 'a ktty_scheme option" where
  "klrxintr st k = (let (c, s) = kbd_getc st (kbd_shift k) in klrint 0 c (k\<lparr>kbd_shift := s\<rparr>))"

subsection \<open>The start of the system\<close>

text \<open>\<open>main\<close> up to \<open>newproc\<close>: \<open>cfree\<close> is the address of the array of character blocks.\<close>

definition init_tables :: "nat \<Rightarrow> 'a kfs_scheme \<Rightarrow> 'a kfs_scheme option" where
  "init_tables cfree k = do {
     cm \<leftarrow> mfree (coremap k) 128 0x20;
     sm \<leftarrow> mfree (swapmap k) 872 4000;
     let k = k\<lparr>coremap := cm, swapmap := sm\<rparr>;
     let k = upd_proc 0 (\<lambda>r. r\<lparr>p_addr := 0x10, p_size := PSIZE, p_stat := SRUN, p_flag := setf (p_flag r) (SLOAD OR SSYS)\<rparr>) k;
     let k = upd_u (\<lambda>w. w\<lparr>u_procp := 0\<rparr>) k;
     let k = k\<lparr>clists := cinit_blocks cfree (clists k), nchrdev := 2\<rparr>;
     Some (binit k) }"

definition main_init :: "('a kfs_scheme \<Rightarrow> 'a kfs_scheme option) \<Rightarrow> nat \<Rightarrow> 'a kfs_scheme \<Rightarrow> (nat \<times> 'a kfs_scheme) option" where
  "main_init aw cfree k = do {
     k \<leftarrow> init_tables cfree k;
     k \<leftarrow> iinit aw k;
     (r, k) \<leftarrow> iget aw (rootdev k) ROOTINO k;
     rd \<leftarrow> r;
     let k = iflag_clr rd ILOCK (k\<lparr>rootdir := rd\<rparr>);
     (r, k) \<leftarrow> iget aw (rootdev k) ROOTINO k;
     cd \<leftarrow> r;
     let k = iflag_clr cd ILOCK (upd_u (\<lambda>w. w\<lparr>u_cdir := cd\<rparr>) k);
     k \<leftarrow> kprint (printk (''Unix Ready.'' @ [CHR 0x0A]) []) k;
     newproc aw k }"

text \<open>What the new process does in \<open>main\<close>: its first program and its data are copied out.\<close>

definition icode :: "u8 list" where
  "icode = [0xB8, 0x07, 0x00, 0x50, 0xB8, 0x02, 0x00, 0x50, 0xBA, 0x0B, 0x00, 0xCD, 0x81]"

definition idata :: "u8 list" where
  "idata = [0x00, 0x00, 0x69, 0x6E, 0x69, 0x74, 0x00, 0x02, 0x00, 0x00, 0x00]"

definition copyout :: "u8 list \<Rightarrow> u16 \<Rightarrow> u16 \<Rightarrow> 'a kproc_scheme \<Rightarrow> 'a kproc_scheme" where
  "copyout bs off seg k = fold (\<lambda>(i, b) k. k\<lparr>mem := (mem k)(linear seg (off + of_nat i) := b)\<rparr>) (enumerate 0 bs) k"

definition main_child :: "'a kproc_scheme \<Rightarrow> 'a kproc_scheme" where
  "main_child k =
     copyout idata 0 (page_seg (p_addr (curproc k)))
       (copyout icode 0 (page_seg (p_addr (curproc k) + DSIZE)) k)"

end
