(* ===== verification/Procs.thy ===== *)
theory Procs
  imports Files Trap
begin

unbundle bit_operations_syntax

text \<open>
  Properties of processes and system calls: process numbers, the way in and out of the kernel, and the
  end of a process.
\<close>

subsection \<open>Process numbers\<close>

text \<open>How many steps of the loop separate the number \<open>m\<close> from \<open>v\<close>.\<close>

definition pid_dist :: "nat \<Rightarrow> nat \<Rightarrow> nat" where
  "pid_dist v m = (if m < v then v - m else 32768 - m + v)"

lemma newpid_returns:
  fixes k :: "'a kproc_scheme"
  assumes "1 \<le> v" "v < 32768" "\<forall>p < NPROC. unat (p_pid (proc k p)) \<noteq> v" "unat (mpid k) < 32768"
  shows "\<exists>m. newpid k = Some (k\<lparr>mpid := m\<rparr>) \<and> 0 < unat m \<and> unat m < 32768 \<and> (\<forall>p < NPROC. p_pid (proc k p) \<noteq> m)"
  using assms(3,4)
proof (induction "pid_dist v (unat (mpid k))" arbitrary: k rule: less_induct)
  case less
  let ?m = "mpid k + 1"
  have u1: "unat ?m = unat (mpid k) + 1" using less.prems(2) by (simp add: unat16_succ)
  show ?case
  proof (cases "unat (mpid k) = 32767")
    case True
    then have "sint ?m < 0" by (simp add: sint16_neg u1)
    then have n: "newpid k = newpid (k\<lparr>mpid := 0\<rparr>)" by (subst newpid.simps) (simp add: Let_def)
    have "pid_dist v (unat (mpid (k\<lparr>mpid := 0\<rparr>))) < pid_dist v (unat (mpid k))"
      using True assms(1,2) by (simp add: pid_dist_def)
    from less.hyps [OF this] less.prems n show ?thesis by simp
  next
    case False
    then have pos: "\<not> sint ?m < 0" using less.prems(2) by (simp add: sint16_neg u1)
    show ?thesis
    proof (cases "\<exists>p < NPROC. p_pid (proc k p) = ?m")
      case True
      then have n: "newpid k = newpid (k\<lparr>mpid := ?m\<rparr>)" using pos
        by (subst newpid.simps) (auto simp: Let_def simp del: upt_conv_Cons upt_rec_numeral)
      have "unat ?m \<noteq> v" using True less.prems(1) by auto
      then have "pid_dist v (unat (mpid (k\<lparr>mpid := ?m\<rparr>))) < pid_dist v (unat (mpid k))"
        using False less.prems(2) u1 assms(1,2) by (auto simp: pid_dist_def)
      from less.hyps [OF this] less.prems n u1 False show ?thesis by simp
    next
      case free: False
      then have "newpid k = Some (k\<lparr>mpid := ?m\<rparr>)" using pos
        by (subst newpid.simps) (auto simp: Let_def simp del: upt_conv_Cons upt_rec_numeral)
      then show ?thesis using free u1 less.prems(2) False by (intro exI [of _ ?m]) auto
    qed
  qed
qed

text \<open>C23: the search for a process number ends and succeeds: whatever numbers the process table holds, as long
  as the last number given out is not negative, \<open>newpid\<close> returns with a positive number that no entry of
  the table has, and nothing else is changed.\<close>

theorem newpid_fresh:
  fixes k :: "'a kproc_scheme"
  assumes "unat (mpid k) < 32768"
  shows "\<exists>m. newpid k = Some (k\<lparr>mpid := m\<rparr>) \<and> 0 < sint m \<and> (\<forall>p < NPROC. p_pid (proc k p) \<noteq> m)"
proof -
  let ?used = "(\<lambda>p. unat (p_pid (proc k p))) ` {..<NPROC}"
  have "\<not> {1..<32768} \<subseteq> ?used"
  proof
    assume "{1..<32768} \<subseteq> ?used"
    then have "card {1..<32768 :: nat} \<le> card ?used" by (intro card_mono) simp_all
    also have "\<dots> \<le> card {..<NPROC}" by (rule card_image_le) simp
    finally show False by simp
  qed
  then obtain v where v: "1 \<le> v" "v < 32768" "v \<notin> ?used" by (meson atLeastLessThan_iff subsetI)
  then have "\<forall>p < NPROC. unat (p_pid (proc k p)) \<noteq> v" by auto
  from newpid_returns [OF v(1,2) this assms] obtain m where m: "newpid k = Some (k\<lparr>mpid := m\<rparr>)" "0 < unat m" "unat m < 32768"
    "\<forall>p < NPROC. p_pid (proc k p) \<noteq> m" by blast
  then have "sint m = int (unat m)" by (intro sint_small) simp
  then have "0 < sint m" using m(2) by linarith
  with m show ?thesis by blast
qed

theorem newpid_fresh_witness: "\<exists>m. newpid (ex_kernel\<lparr>mpid := 32767\<rparr>) = Some (ex_kernel\<lparr>mpid := m\<rparr>) \<and> 0 < sint m"
  using newpid_fresh [of "ex_kernel\<lparr>mpid := 32767\<rparr>"] by auto

subsection \<open>From a dying process to its parent\<close>

lemma dpval_high: "dpval (fst x + h, snd x) = (dpval x + 65536 * unat h) mod 4294967296"
proof -
  let ?A = "unat (fst x) + unat h" and ?s = "unat (snd x)"
  have "(a * 65536 + ?s) div 65536 = a" "(a * 65536 + ?s) mod 65536 = ?s" for a using unat16_bound [of "snd x"] by simp_all
  then have m: "(?A * 65536 + ?s) mod (65536 * 65536) = 65536 * (?A mod 65536) + ?s" by (simp only: mod_mult2_eq)
  have e: "(65536 :: nat) * 65536 = 4294967296" by simp
  have "dpval (fst x + h, snd x) = 65536 * (?A mod 65536) + ?s" by (simp add: dpval_def unat_word_ariths)
  also have "\<dots> = (?A * 65536 + ?s) mod 4294967296" using m unfolding e by (rule sym)
  also have "?A * 65536 + ?s = dpval x + 65536 * unat h" by (simp add: dpval_def)
  finally show ?thesis .
qed

text \<open>The sum of the three parts that \<open>wait\<close> adds to one of the parent's times.\<close>

lemma dpadd_three:
  "dpval (dpadd (dpadd (fst x + fst y, snd x) (snd y)) z) = (dpval x + dpval y + unat z) mod 4294967296"
proof -
  have "dpval (dpadd (dpadd (fst x + fst y, snd x) (snd y)) z) =
    (((dpval x + 65536 * unat (fst y)) mod 4294967296 + unat (snd y)) mod 4294967296 + unat z) mod 4294967296"
    by (simp only: dpadd_val dpval_high)
  also have "\<dots> = (dpval x + (65536 * unat (fst y) + unat (snd y)) + unat z) mod 4294967296" by (simp add: mod_simps ac_simps)
  finally show ?thesis by (simp add: dpval_def algebra_simps)
qed

lemma put_user_words:
  fixes k :: "'a kbio_scheme"
  shows "bword (a + 110) (put_user raw a k) = u_arg (u k) 0" "bword (a + 216) (put_user raw a k) = u_utime (u k)"
    "bword (a + 218) (put_user raw a k) = u_stime (u k)" "bword (a + 220) (put_user raw a k) = fst (u_cutime (u k))"
    "bword (a + 222) (put_user raw a k) = snd (u_cutime (u k))" "bword (a + 224) (put_user raw a k) = fst (u_cstime (u k))"
    "bword (a + 226) (put_user raw a k) = snd (u_cstime (u k))"
  unfolding put_user_def user_words_def Let_def by (simp_all add: bword_set_other)

text \<open>what a dying process leaves behind reaches its parent: if the block that \<open>wait\<close> reads holds the user
  area that \<open>exit\<close> wrote, the parent's accumulated user and system times grow by the child's own time
  and its accumulated time, as 32 bit numbers, and the exit status is delivered; nothing depends on the
  rest of the user area.\<close>

theorem exit_wait_accounts:
  fixes kc :: "'a kbio_scheme" and kp :: "'b kbio_scheme"
  assumes "\<forall>x. buffers kp x = buffers (put_user raw a kc) x"
  shows "dpval (u_cutime (u (collect_times a kp))) = (dpval (u_cutime (u kp)) + dpval (u_cutime (u kc)) + unat (u_utime (u kc))) mod 4294967296 \<and>
    dpval (u_cstime (u (collect_times a kp))) = (dpval (u_cstime (u kp)) + dpval (u_cstime (u kc)) + unat (u_stime (u kc))) mod 4294967296 \<and>
    u_ar0 (u (collect_times a kp)) 1 = u_arg (u kc) 0"
proof -
  have b: "bword x kp = bword x (put_user raw a kc)" for x using assms by (simp add: bword_def)
  show ?thesis
    unfolding collect_times_def b put_user_words by (simp add: upd_u_def dpadd_three)
qed

theorem exit_wait_accounts_witness:
  "u_ar0 (u (collect_times 514 (put_user (\<lambda>_ _. 7) 514 (ex_fs\<lparr>u := no_user\<lparr>u_arg := (\<lambda>_. 3)\<rparr>\<rparr>)))) 1 = 3"
  using exit_wait_accounts [of "put_user (\<lambda>_ _. 7) 514 (ex_fs\<lparr>u := no_user\<lparr>u_arg := (\<lambda>_. 3)\<rparr>\<rparr>)" "\<lambda>_ _. 7" 514
    "ex_fs\<lparr>u := no_user\<lparr>u_arg := (\<lambda>_. 3)\<rparr>\<rparr>"] by simp

end
