(* ===== verification/Swapping.thy ===== *)
theory Swapping
  imports Cache
begin

unbundle bit_operations_syntax

text \<open>
  The transfer of a process image to the swap device: what \<open>devstart\<close> and the interrupts of the controller
  that follow it write on the disk.  The image of a process is \<open>PSIZE\<close> pages of 4096 bytes, that is 144
  sectors, but the transfer address is an offset of 16 bits in one segment.
\<close>

text \<open>The disk after the sectors \<open>s\<close> to \<open>s + m\<close> of a transfer out of segment \<open>seg\<close>: the sectors at which the
  offset is zero are skipped.\<close>

definition swapped :: "u16 \<Rightarrow> nat \<Rightarrow> nat \<Rightarrow> 'a kbio_scheme \<Rightarrow> nat \<Rightarrow> nat \<Rightarrow> u8" where
  "swapped seg s m k x =
     (if s \<le> x \<and> x \<le> s + m \<and> (x - s) mod 128 \<noteq> 0
      then (\<lambda>i. if i < 512 then mem k (linear seg (of_nat (512 * ((x - s) mod 128) + i))) else 0)
      else disk k x)"

lemma offset_mod: "(of_nat (512 * (m mod 128) + i) :: u16) = of_nat (512 * m + i)"
proof -
  have "512 * (m mod 128) = (512 * m) mod 65536" for m :: nat using mult_mod_right [of 512 m 128] by simp
  then have "(512 * (m mod 128) + i) mod 65536 = (512 * m + i) mod 65536" by (simp only: mod_add_left_eq)
  then show ?thesis unfolding word_of_nat_eq_iff take_bit_eq_mod by simp
qed

lemma offset_zero: "(of_nat (512 * m) :: u16) = 0 \<longleftrightarrow> m mod 128 = 0"
proof -
  have "(65536 :: nat) dvd 512 * m \<longleftrightarrow> 128 dvd m" 
  proof -
    have "512 * m mod 65536 = 512 * (m mod 128)" using mult_mod_right [of 512 m 128] by simp
    then show ?thesis by (simp add: dvd_eq_mod_eq_0)
  qed
  then show ?thesis unfolding word_of_nat_eq_0_iff by (simp add: dvd_eq_mod_eq_0)
qed

text \<open>The state of the controller after \<open>m\<close> interrupts of a transfer of \<open>n\<close> sectors.\<close>

definition xfer :: "u16 \<Rightarrow> nat \<Rightarrow> u16 \<Rightarrow> nat \<Rightarrow> 'a kbio_scheme \<Rightarrow> 'a kbio_scheme" where
  "xfer s n seg m k = k\<lparr>io_sector := s + of_nat m, io_count := of_nat (n - m), io_buf := UMem seg (of_nat (512 * m)),
     io_cmd := 0, disk_sector := unat (s + of_nat m), disk := swapped seg (unat s) m k\<rparr>"

lemma swapped_Suc:
  "swapped seg s (Suc m) k = (if Suc m mod 128 = 0 then swapped seg s m k else
     (swapped seg s m k)(s + Suc m := (\<lambda>i. if i < 512 then mem k (linear seg (of_nat (512 * Suc m) + of_nat i)) else 0)))"
proof -
  have "(of_nat (512 * (Suc m mod 128) + i) :: u16) = of_nat (512 * Suc m) + of_nat i" for i
    unfolding offset_mod by simp
  moreover have "x \<le> s + Suc m \<longleftrightarrow> x \<le> s + m \<or> x = s + Suc m" for x by auto
  ultimately show ?thesis unfolding swapped_def by (intro ext) (auto simp del: of_nat_Suc of_nat_add of_nat_mult)
qed

lemma xfer_start: "ideio s (of_nat n) (UMem seg 0) 0 k = xfer s n seg 0 k"
proof -
  have "swapped seg (unat s) 0 k = disk k" by (intro ext) (auto simp: swapped_def)
  then show ?thesis by (simp add: ideio_def idestart_def io_null_def xfer_def Let_def)
qed

lemma ideintr_write:
  assumes "io_cmd k = 0" "io_buf k = UMem seg off" "\<not> sint (io_count k - 1) \<le> 0"
  shows "ideintr k = idestart (io_sector k + 1) (Some (UMem seg (off + 512)))
    (k\<lparr>io_sector := io_sector k + 1, io_count := io_count k - 1, io_buf := UMem seg (off + 512)\<rparr>)"
  using assms by (simp add: ideintr_def Let_def io_next_def add.commute)

lemma xfer_step:
  assumes "Suc m < n" "n < 32768" "unat s + n \<le> 65536"
  shows "ideintr (xfer s n seg m k) = xfer s n seg (Suc m) k"
proof -
  have c: "\<not> sint (of_nat (n - m) - 1 :: u16) \<le> 0" "of_nat (n - m) - 1 = (of_nat (n - Suc m) :: u16)"
  proof -
    show e: "of_nat (n - m) - 1 = (of_nat (n - Suc m) :: u16)" using assms by (simp add: of_nat_diff)
    have "unat (of_nat (n - Suc m) :: u16) = n - Suc m" using assms by (simp add: unat_of_nat del: of_nat_diff of_nat_Suc)
    then have "sint (of_nat (n - Suc m) :: u16) = int (n - Suc m)" using assms sint_small [of "of_nat (n - Suc m) :: u16"] by (simp del: of_nat_diff of_nat_Suc)
    then show "\<not> sint (of_nat (n - m) - 1 :: u16) \<le> 0" unfolding e using assms by simp
  qed
  define off :: u16 where "off = of_nat (512 * Suc m)"
  define t where "t = s + of_nat (Suc m)"
  have u: "unat t = unat s + Suc m" using assms by (simp add: t_def unat_word_ariths unat_of_nat del: of_nat_Suc)
  have o: "of_nat (512 * m) + 512 = off" "s + of_nat m + 1 = t" by (simp_all add: off_def t_def)
  have z: "off = 0 \<longleftrightarrow> Suc m mod 128 = 0" unfolding off_def by (rule offset_zero)
  let ?k = "xfer s n seg m k"
  have "ideintr ?k = idestart t (Some (UMem seg off)) (?k\<lparr>io_sector := t, io_count := of_nat (n - Suc m), io_buf := UMem seg off\<rparr>)"
    using ideintr_write [of ?k seg "of_nat (512 * m)"] c(1) unfolding o c(2) [symmetric] by (simp add: xfer_def o del: of_nat_mult)
  also have "\<dots> = xfer s n seg (Suc m) k"
    unfolding xfer_def swapped_Suc off_def [symmetric] t_def [symmetric] u [symmetric] idestart_def io_null_def Let_def
    using z by (cases "off = 0") (simp_all add: io_read_def cong: if_cong)
  finally show ?thesis .
qed

lemma xfer_steps:
  assumes "m < n" "n < 32768" "unat s + n \<le> 65536"
  shows "(ideintr ^^ m) (ideio s (of_nat n) (UMem seg 0) 0 k) = xfer s n seg m k"
  using assms(1)
proof (induction m)
  case 0
  show ?case by (simp add: xfer_start)
next
  case (Suc m)
  then show ?case using xfer_step [OF Suc.prems assms(2,3)] by simp
qed

text \<open>C26: what swapping a process out leaves on the swap device.  The image has 144 sectors.  When the
  controller has taken all of them, the sectors 1 to 127 and 129 to 143 of the area hold bytes of the
  image and the sectors 0 and 128 are as they were before, since the driver takes the offset zero for the
  absence of data and asks for a read.  The sectors from 129 on repeat the bytes at the start of the data segment, because the offset
  has wrapped: the text of the process, which lies behind the first 65536 bytes, is never written.  No
  sector outside of the area changes.\<close>

theorem swap_out_writes:
  fixes k :: "'a kbio_scheme"
  assumes "flag (b_flags k Swbuf) B_PHYS" "b_flags k Swbuf AND B_READ = 0" "b_wcount k Swbuf = PSIZE"
  defines "s \<equiv> unat (b_blkno k Swbuf + NRKBLK * minor (b_dev k Swbuf))"
  assumes "s + 144 \<le> 65536"
  shows "disk ((ideintr ^^ 143) (devstart Swbuf k)) =
    (\<lambda>x. if s \<le> x \<and> x < s + 144 \<and> x \<noteq> s \<and> x \<noteq> s + 128
         then (\<lambda>i. if i < 512 then mem k (linear (page_seg (b_xmem k Swbuf)) (of_nat (512 * ((x - s) mod 128) + i))) else 0)
         else disk k x)"
proof -
  let ?s = "b_blkno k Swbuf + NRKBLK * minor (b_dev k Swbuf)"
  have n: "8 * PSIZE = of_nat 144" by simp
  have "devstart Swbuf k = ideio ?s (of_nat 144) (UMem (page_seg (b_xmem k Swbuf)) 0) 0 k"
    using assms(1-3) unfolding n [symmetric] by (simp add: devstart_def Let_def)
  then have "(ideintr ^^ 143) (devstart Swbuf k) = xfer ?s 144 (page_seg (b_xmem k Swbuf)) 143 k"
    using xfer_steps [of 143 144 ?s, OF _ _ assms(5) [unfolded s_def]] by (simp only:) simp
  then have "disk ((ideintr ^^ 143) (devstart Swbuf k)) = swapped (page_seg (b_xmem k Swbuf)) s 143 k" by (simp add: xfer_def s_def)
  moreover have "s \<le> x \<and> x \<le> s + 143 \<and> (x - s) mod 128 \<noteq> 0 \<longleftrightarrow> s \<le> x \<and> x < s + 144 \<and> x \<noteq> s \<and> x \<noteq> s + 128" for x
  proof (cases "s \<le> x \<and> x < s + 144")
    case True
    then obtain d where d: "x = s + d" "d < 144" by (metis le_Suc_ex nat_add_left_cancel_less)
    then show ?thesis by (cases "d < 128") (auto simp: mod_if)
  qed auto
  ultimately show ?thesis unfolding swapped_def by presburger
qed

text \<open>A process in the pages from 32 on, swapped out to block 4000.\<close>

theorem swap_out_writes_witness:
  "disk ((ideintr ^^ 143) (devstart Swbuf (ex_disk\<lparr>b_flags := (\<lambda>_. 16), b_wcount := (\<lambda>_. 18), b_blkno := (\<lambda>_. 4000),
     b_dev := (\<lambda>_. 0), b_xmem := (\<lambda>_. 32), mem := (\<lambda>_. 7), disk := (\<lambda>_ _. 0)\<rparr>))) 4143 5 = 7 \<and>
   disk ((ideintr ^^ 143) (devstart Swbuf (ex_disk\<lparr>b_flags := (\<lambda>_. 16), b_wcount := (\<lambda>_. 18), b_blkno := (\<lambda>_. 4000),
     b_dev := (\<lambda>_. 0), b_xmem := (\<lambda>_. 32), mem := (\<lambda>_. 7), disk := (\<lambda>_ _. 0)\<rparr>))) 4000 5 = 0"
proof -
  let ?k = "ex_disk\<lparr>b_flags := (\<lambda>_. 16), b_wcount := (\<lambda>_. 18), b_blkno := (\<lambda>_. 4000),
     b_dev := (\<lambda>_. 0), b_xmem := (\<lambda>_. 32), mem := (\<lambda>_. 7), disk := (\<lambda>_ _. 0)\<rparr>"
  have "flag (b_flags ?k Swbuf) B_PHYS" "b_flags ?k Swbuf AND B_READ = 0" "b_wcount ?k Swbuf = PSIZE" by (simp_all add: flag_def)
  moreover have "unat (b_blkno ?k Swbuf + NRKBLK * minor (b_dev ?k Swbuf)) = 4000" by (simp add: minor_def)
  ultimately show ?thesis using swap_out_writes [of ?k] by (simp add: fun_eq_iff)
qed

end
