(* ===== verification/Term.thy ===== *)
theory Term
  imports Balance Kbd
begin

unbundle bit_operations_syntax

text \<open>
  Properties of the terminal driver: the editing of input lines (\<open>canon\<close>) against a function on lists,
  and the expansion of tabs on output.
\<close>

subsection \<open>The queues of a terminal\<close>

definition tty_rep :: "nat \<Rightarrow> nat \<Rightarrow> 'a ktty_scheme \<Rightarrow> u8 list \<Rightarrow> u8 list \<Rightarrow> u8 list \<Rightarrow> bool" where
  "tty_rep N tp k raw can out \<longleftrightarrow>
     queues N (clists k) [t_rawq (kl11 k tp), t_canq (kl11 k tp), t_outq (kl11 k tp)] [raw, can, out]"

text \<open>The settings of a terminal, which queue operations do not change.\<close>

definition settings :: "tty \<Rightarrow> u16 \<times> u8 \<times> u8 \<times> u8 \<times> u8 \<times> u8" where
  "settings t = (t_flags t, t_delct t, t_col t, t_erase t, t_kill t, t_state t)"

lemma tgetc_raw:
  assumes "tty_rep N tp k (y # raw) can out"
  shows "\<exists>k'. tgetc RawQ tp k = (uint y, k') \<and> tty_rep N tp k' raw can out \<and> canonb k' = canonb k \<and>
    settings (kl11 k' tp) = settings (kl11 k tp)"
proof -
  let ?t = "kl11 k tp"
  let ?qs = "[t_rawq ?t, t_canq ?t, t_outq ?t]"
  have "queues N (clists k) ?qs [y # raw, can, out]" using assms by (simp add: tty_rep_def)
  from cq.get_Cons [OF this, of 0 y raw] obtain q m where g: "getc (t_rawq ?t) (clists k) = (uint y, q, m)"
    "queues N m [q, t_canq ?t, t_outq ?t] [raw, can, out]" by auto
  then show ?thesis by (simp add: tgetc_def tty_rep_def upd_tty_def settings_def)
qed

lemma tputc_can:
  assumes "tty_rep N tp k raw can out" "length raw + length can + length out + 30 < 6 * N"
  shows "\<exists>k'. tputc c CanQ tp k = (0, k') \<and> tty_rep N tp k' raw (can @ [c]) out \<and> canonb k' = canonb k \<and>
    settings (kl11 k' tp) = settings (kl11 k tp)"
proof -
  let ?t = "kl11 k tp"
  let ?qs = "[t_rawq ?t, t_canq ?t, t_outq ?t]"
  have "queues N (clists k) ?qs [raw, can, out]" using assms by (simp add: tty_rep_def)
  from queues_putc [OF this, of 1 c] assms(2) obtain q m where g: "putc c (t_canq ?t) (clists k) = (0, q, m)"
    "queues N m [t_rawq ?t, q, t_outq ?t] [raw, can @ [c], out]" by auto
  then show ?thesis by (simp add: tputc_def tty_rep_def upd_tty_def settings_def)
qed

subsection \<open>Editing a line\<close>

text \<open>What one more character does to the line typed so far: the erase character removes the last one, the
  kill character all of them, and neither does after a backslash, which protects it and disappears; an
  upper case terminal writes some characters with a backslash.\<close>

definition edit :: "tty \<Rightarrow> u8 \<Rightarrow> u8 list \<Rightarrow> u8 list" where
  "edit t c ln =
     (let mc = maptab ! unat c in
      if flag (t_flags t) RAW then ln @ [c]
      else if ln \<noteq> [] \<and> last ln = 92 then
        if mc \<noteq> 0 \<and> (mc = c \<or> flag (t_flags t) LCASE)
        then butlast ln @ [if butlast ln \<noteq> [] \<and> last (butlast ln) = 92 then c else mc]
        else ln @ [c]
      else if c = t_erase t then butlast ln
      else if c = t_kill t then []
      else if c = 4 then ln
      else ln @ [c])"

text \<open>The line in \<open>canonb\<close>, from its third byte on.\<close>

definition canon_holds :: "'a ktty_scheme \<Rightarrow> u8 list \<Rightarrow> bool" where
  "canon_holds k ln \<longleftrightarrow> canonb k 1 \<noteq> 92 \<and> (\<forall>i < length ln. canonb k (2 + i) = ln ! i)"

lemma edit_length: "length (edit t c ln) \<le> Suc (length ln)"
  by (auto simp: edit_def Let_def)

lemma sint_eq_ascii:
  fixes c e :: u8
  assumes "unat c < 128"
  shows "uint c = sint e \<longleftrightarrow> c = e"
proof -
  have "sint c = uint c" using sint_small [of c] assms by simp
  then show ?thesis by (metis signed_word_eqI)
qed

lemma canon_prev:
  assumes "canon_holds k ln"
  shows "canonb k (2 + length ln - 1) = 92 \<longleftrightarrow> ln \<noteq> [] \<and> last ln = 92"
proof (cases ln rule: rev_cases)
  case (snoc xs x)
  have "canonb k (2 + length xs) = ln ! length xs" using assms snoc by (auto simp: canon_holds_def)
  with snoc show ?thesis by simp
qed (use assms in \<open>simp add: canon_holds_def\<close>)

lemma canon_prev2:
  assumes "canon_holds k ln" "ln \<noteq> []"
  shows "canonb k (2 + length ln - 2) = 92 \<longleftrightarrow> butlast ln \<noteq> [] \<and> last (butlast ln) = 92"
proof -
  have "canon_holds k (butlast ln)" using assms by (auto simp: canon_holds_def nth_butlast)
  from canon_prev [OF this] assms(2) show ?thesis by (cases ln rule: rev_cases) auto
qed

lemma canon_holds_append:
  assumes "canon_holds k ln" "length ln = n"
  shows "canon_holds (k\<lparr>canonb := (canonb k)(2 + n := c)\<rparr>) (ln @ [c])"
  using assms by (auto simp: canon_holds_def nth_append)

lemma canon_holds_butlast: "canon_holds k ln \<Longrightarrow> canon_holds k (butlast ln)"
  by (auto simp: canon_holds_def nth_butlast)

text \<open>What the action of one character does to the buffer.\<close>

definition acts :: "'a ktty_scheme \<Rightarrow> canon_act \<Rightarrow> u8 list \<Rightarrow> bool" where
  "acts k a ln \<longleftrightarrow> (case a of
       Kill \<Rightarrow> ln = []
     | Skip bp \<Rightarrow> bp = 2 + length ln \<and> canon_holds k ln
     | Store bp d \<Rightarrow> bp + 1 = 2 + length ln \<and> canon_holds (k\<lparr>canonb := (canonb k)(bp := word_of_int d)\<rparr>) ln)"

lemma canon_char_edit:
  assumes h: "canon_holds k ln" and c: "unat c < 128"
  shows "\<exists>a. canon_char t (canonb k) (2 + length ln) (uint c) = Some a \<and> acts k a (edit t c ln)"
proof -
  let ?mc = "maptab ! unat c"
  have store: "acts k (Store (2 + length ln) (uint c)) (ln @ [c])"
    using canon_holds_append [OF h refl, of c] by (simp add: acts_def)
  have n: "nat (uint c) = unat c" by simp
  have lt: "\<not> uint c \<ge> 128"
  proof -
    have "int (unat c) < 128" using c by linarith
    then show ?thesis by simp
  qed
  consider (raw) "flag (t_flags t) RAW" | (esc) "\<not> flag (t_flags t) RAW" "ln \<noteq> [] \<and> last ln = 92"
    | (plain) "\<not> flag (t_flags t) RAW" "\<not> (ln \<noteq> [] \<and> last ln = 92)" by blast
  then show ?thesis
  proof cases
    case raw
    then show ?thesis using store by (auto simp: canon_char_def edit_def)
  next
    case plain
    have prev: "canonb k (2 + length ln - 1) \<noteq> 92" using canon_prev [OF h] plain(2) by blast
    have "acts k (Skip (if 2 + length ln > 2 then 2 + length ln - 1 else 2 + length ln)) (butlast ln)"
      using canon_holds_butlast [OF h] by (auto simp: acts_def)
    moreover have "acts k Kill []" "acts k (Skip (2 + length ln)) ln" using h by (simp_all add: acts_def)
    moreover have "uint c = CEOT \<longleftrightarrow> c = 4" by (simp add: word_uint_eq_iff)
    ultimately show ?thesis using plain prev store unfolding canon_char_def edit_def Let_def sint_eq_ascii [OF c] by auto
  next
    case esc
    have prev: "canonb k (2 + length ln - 1) = 92" using canon_prev [OF h] esc(2) by blast
    have p2: "canonb k (2 + length ln - 2) = 92 \<longleftrightarrow> butlast ln \<noteq> [] \<and> last (butlast ln) = 92"
      using canon_prev2 [OF h] esc(2) by blast
    have len: "2 + length (butlast ln) = 2 + length ln - 1" using esc(2) by (cases ln rule: rev_cases) auto
    have "acts k (Store (2 + length ln - 1) d) (butlast ln @ [word_of_int d])" for d
      using canon_holds_append [OF canon_holds_butlast [OF h] refl, of "word_of_int d"] esc(2) unfolding acts_def len by (simp add: len)
    from this [of "sint ?mc"] this [of "uint c"]
    have st: "acts k (Store (2 + length ln - 1) (sint ?mc)) (butlast ln @ [?mc])" "acts k (Store (2 + length ln - 1) (uint c)) (butlast ln @ [c])"
      by simp_all
    have m: "sint ?mc = uint c \<longleftrightarrow> ?mc = c" using sint_eq_ascii [OF c, of ?mc] by auto
    show ?thesis using esc prev st store lt unfolding canon_char_def edit_def Let_def n m p2 by auto
  qed
qed

lemma canon_holds_cong: "canonb k' = canonb k \<Longrightarrow> canon_holds k' ln = canon_holds k ln"
  by (simp add: canon_holds_def)

lemma edit_cong: "settings t' = settings t \<Longrightarrow> edit t' = edit t"
  unfolding edit_def settings_def prod.inject by (elim conjE) (simp only:)

lemma canon_loop_edits:
  assumes "tty_rep N tp k (cs @ 255 # raw) can out" "\<forall>c \<in> set cs. unat c < 128" "canon_holds k ln" "length ln + length cs < 254"
  shows "\<exists>k'. canon_loop tp (2 + length ln) k = Some (2 + length (fold (edit (kl11 k tp)) cs ln), k') \<and>
    tty_rep N tp k' raw can out \<and> canon_holds k' (fold (edit (kl11 k tp)) cs ln) \<and> t_delct (kl11 k' tp) = t_delct (kl11 k tp) - 1"
  using assms
proof (induction cs arbitrary: k ln)
  case Nil
  then have "tty_rep N tp k (255 # raw) can out" by simp
  from tgetc_raw [OF this] obtain k1 where g: "tgetc RawQ tp k = (255, k1)" "tty_rep N tp k1 raw can out" "canonb k1 = canonb k"
    "settings (kl11 k1 tp) = settings (kl11 k tp)" by auto
  have "canon_loop tp (2 + length ln) k = Some (2 + length ln, upd_tty tp (\<lambda>t. t\<lparr>t_delct := t_delct t - 1\<rparr>) k1)"
    by (subst canon_loop.simps) (simp add: g(1))
  then show ?case using g(2-4) Nil.prems(3) by (simp add: tty_rep_def upd_tty_def canon_holds_def settings_def)
next
  case (Cons c cs)
  let ?t = "kl11 k tp"
  have "tty_rep N tp k (c # (cs @ 255 # raw)) can out" using Cons.prems(1) by simp
  from tgetc_raw [OF this] obtain k1 where g: "tgetc RawQ tp k = (uint c, k1)" "tty_rep N tp k1 (cs @ 255 # raw) can out" "canonb k1 = canonb k"
    "settings (kl11 k1 tp) = settings ?t" by auto
  have c: "unat c < 128" using Cons.prems(2) by simp
  have h1: "canon_holds k1 ln" using Cons.prems(3) canon_holds_cong [OF g(3)] by simp
  from canon_char_edit [OF h1 c, of "kl11 k1 tp"] obtain a where
    a: "canon_char (kl11 k1 tp) (canonb k1) (2 + length ln) (uint c) = Some a" "acts k1 a (edit ?t c ln)"
    using edit_cong [OF g(4)] by auto
  have u: "\<not> uint c < 0" "uint c \<noteq> 255"
  proof -
    have "int (unat c) < 128" using c by linarith
    then show "uint c \<noteq> 255" by simp
  qed simp
  have len: "length (edit ?t c ln) + length cs < 254" using edit_length [of ?t c ln] Cons.prems(4) by simp
  define k2 where "k2 = (case a of Store bp d \<Rightarrow> k1\<lparr>canonb := (canonb k1)(bp := word_of_int d)\<rparr> | _ \<Rightarrow> k1)"
  have k2: "tty_rep N tp k2 (cs @ 255 # raw) can out" "kl11 k2 = kl11 k1"
    using g(2) by (simp_all add: k2_def tty_rep_def split: canon_act.splits)
  have h2: "canon_holds k2 (edit ?t c ln)"
  proof (cases a)
    case Kill
    then show ?thesis using a(2) h1 by (simp add: k2_def acts_def canon_holds_def)
  qed (use a(2) in \<open>simp_all add: k2_def acts_def\<close>)
  have "canon_loop tp (2 + length ln) k = canon_loop tp (2 + length (edit ?t c ln)) k2"
    using a u len by (subst canon_loop.simps) (auto simp: g(1) acts_def k2_def Let_def numeral_2_eq_2 split: canon_act.splits)
  moreover have "edit (kl11 k2 tp) = edit ?t" "t_delct (kl11 k2 tp) = t_delct ?t"
    using edit_cong [OF g(4)] g(4) k2(2) by (simp_all add: settings_def)
  ultimately show ?case using Cons.IH [OF k2(1) _ h2 len] Cons.prems(2) by simp
qed

lemma canon_move_appends:
  fixes k :: "'a ktty_scheme"
  assumes "tty_rep N tp k raw can out" "length raw + length can + length out + length ln + 30 < 6 * N" "canon_holds k ln" "n \<le> length ln"
  shows "tty_rep N tp (canon_move tp (2 + n) k) raw (can @ take n ln) out \<and> canonb (canon_move tp (2 + n) k) = canonb k \<and>
    settings (kl11 (canon_move tp (2 + n) k) tp) = settings (kl11 k tp)"
  using assms(4)
proof (induction n)
  case 0
  then show ?case using assms by (simp add: canon_move_def)
next
  case (Suc n)
  let ?k = "canon_move tp (2 + n) k"
  have IH: "tty_rep N tp ?k raw (can @ take n ln) out" "canonb ?k = canonb k" "settings (kl11 ?k tp) = settings (kl11 k tp)" using Suc by auto
  have step: "canon_move tp (2 + Suc n) k = snd (tputc (canonb ?k (2 + n)) CanQ tp ?k)" by (simp add: canon_move_def)
  have v: "canonb ?k (2 + n) = ln ! n" using assms(3) Suc.prems IH(2) by (simp add: canon_holds_def)
  from tputc_can [OF IH(1), of "ln ! n"] assms(2) Suc.prems obtain k' where
    "tputc (ln ! n) CanQ tp ?k = (0, k')" "tty_rep N tp k' raw ((can @ take n ln) @ [ln ! n]) out" "canonb k' = canonb ?k"
    "settings (kl11 k' tp) = settings (kl11 ?k tp)" by auto
  then show ?case unfolding step v using Suc.prems IH by (simp add: take_Suc_conv_app_nth)
qed

text \<open>C24: reading a line from a terminal edits it as the manual says: with a complete line (ended by the mark
  that \<open>ttyinput\<close> sets) in the raw queue and room in the pool, \<open>canon\<close> returns without sleeping, takes
  the line off the raw queue, counts one line less, and appends to the queue of processed input exactly
  the line that results from applying erase, kill, escape and end-of-file characters one after the
  other; what follows in the raw queue stays there.\<close>

theorem canon_edits_line:
  fixes k :: "'a ktty_scheme"
  assumes "tty_rep N tp k (cs @ 255 # raw) can out" "\<forall>c \<in> set cs. unat c < 128" "canonb k 1 \<noteq> 92" "length cs < 254"
    "t_delct (kl11 k tp) \<noteq> 0" "length cs + length raw + length can + length out + 30 < 6 * N"
  shows "\<exists>k'. canon away tp k = Some (Ret True k') \<and>
    tty_rep N tp k' raw (can @ fold (edit (kl11 k tp)) cs []) out \<and> t_delct (kl11 k' tp) = t_delct (kl11 k tp) - 1"
proof -
  let ?ln = "fold (edit (kl11 k tp)) cs []"
  have le: "length (fold (edit t) cs ln) \<le> length ln + length cs" for t ln
  proof (induction cs arbitrary: ln)
    case (Cons c cs)
    show ?case using Cons [of "edit t c ln"] edit_length [of t c ln] by simp
  qed simp
  define k0 where "k0 = spl 0 (spl 5 k)"
  have k0: "tty_rep N tp k0 (cs @ 255 # raw) can out" "kl11 k0 = kl11 k" "canon_holds k0 []"
    using assms(1,3) by (simp_all add: k0_def spl_def tty_rep_def canon_holds_def)
  have w: "canon_wait away tp (spl 5 k) = Some (Ret True (spl 5 k))" using assms(5) by (subst canon_wait.simps) (simp add: spl_def)
  from canon_loop_edits [OF k0(1) assms(2) k0(3)] assms(4) obtain k1 where
    k1: "canon_loop tp 2 k0 = Some (2 + length ?ln, k1)" "tty_rep N tp k1 raw can out" "canon_holds k1 ?ln"
      "t_delct (kl11 k1 tp) = t_delct (kl11 k tp) - 1" by (auto simp: k0(2))
  have room: "length raw + length can + length out + length ?ln + 30 < 6 * N" using le [of "kl11 k tp" "[]"] assms(6) by simp
  have "canon away tp k = Some (Ret True (canon_move tp (2 + length ?ln) k1))"
    by (simp add: canon_def w k0_def [symmetric] k1(1))
  moreover note canon_move_appends [OF k1(2) room k1(3) order_refl]
  ultimately show ?thesis using k1(4) by (auto simp: settings_def)
qed

lemma fill_raw:
  fixes k :: "'a ktty_scheme"
  assumes "tty_rep N tp k raw can out" "length raw + length can + length out + length cs + 30 < 6 * N"
  shows "\<exists>m q. tty_rep N tp (upd_tty tp (ttq_set RawQ q) (k\<lparr>clists := m\<rparr>)) (raw @ cs) can out"
  using assms
proof (induction cs arbitrary: k raw)
  case Nil
  have "upd_tty tp (ttq_set RawQ (t_rawq (kl11 k tp))) (k\<lparr>clists := clists k\<rparr>) = k" by (simp add: upd_tty_def)
  with Nil show ?case by (metis append_Nil2)
next
  case (Cons c cs)
  let ?t = "kl11 k tp"
  have "queues N (clists k) [t_rawq ?t, t_canq ?t, t_outq ?t] [raw, can, out]" using Cons.prems by (simp add: tty_rep_def)
  from queues_putc [OF this, of 0 c] Cons.prems(2) obtain q m where
    "queues N m [q, t_canq ?t, t_outq ?t] [raw @ [c], can, out]" by auto
  then have "tty_rep N tp (upd_tty tp (ttq_set RawQ q) (k\<lparr>clists := m\<rparr>)) (raw @ [c]) can out" by (simp add: tty_rep_def upd_tty_def)
  moreover have "length (raw @ [c]) + length can + length out + length cs + 30 < 6 * N" using Cons.prems(2) by simp
  ultimately obtain m' q' where
    r: "tty_rep N tp (upd_tty tp (ttq_set RawQ q') ((upd_tty tp (ttq_set RawQ q) (k\<lparr>clists := m\<rparr>))\<lparr>clists := m'\<rparr>)) ((raw @ [c]) @ cs) can out"
    using Cons.IH by blast
  have "upd_tty tp (ttq_set RawQ q') ((upd_tty tp (ttq_set RawQ q) (k\<lparr>clists := m\<rparr>))\<lparr>clists := m'\<rparr>) =
    upd_tty tp (ttq_set RawQ q') (k\<lparr>clists := m'\<rparr>)" by (simp add: upd_tty_def)
  with r have "tty_rep N tp (upd_tty tp (ttq_set RawQ q') (k\<lparr>clists := m'\<rparr>)) (raw @ c # cs) can out" by simp
  then show ?case by blast
qed

text \<open>A terminal on which \<open>ab\<close>, the erase character, \<open>c\<close> and a newline have been typed.\<close>

theorem canon_edits_line_witness:
  "\<exists>(k :: kfs) k'. canon Some 0 k = Some (Ret True k') \<and> tty_rep 99 0 k' [] [97, 99, 10] []"
proof -
  let ?t = "no_tty\<lparr>t_delct := 1, t_erase := 8, t_kill := 24\<rparr>"
  let ?cm = "cinit_blocks 4 \<lparr>c_next = (\<lambda>_. 0), info = (\<lambda>_. 0), cfreelist = 0\<rparr>"
  let ?k = "ex_fs\<lparr>clists := ?cm, kl11 := (\<lambda>_. ?t)\<rparr>"
  let ?line = "[97, 98, 8, 99, 10] :: u8 list"
  have "queues 99 ?cm (replicate 3 clist_empty) (replicate 3 [])" using cinit_queues [of 4 "\<lparr>c_next = (\<lambda>_. 0), info = (\<lambda>_. 0), cfreelist = 0\<rparr>" 3] by simp
  then have "tty_rep 99 0 ?k [] [] []" by (simp add: tty_rep_def no_tty_def numeral_3_eq_3)
  from fill_raw [OF this, of "?line @ [255]"] obtain m q where
    r: "tty_rep 99 0 (upd_tty 0 (ttq_set RawQ q) (?k\<lparr>clists := m\<rparr>)) (?line @ 255 # []) [] []" by (auto simp del: ttq_set.simps)
  let ?k1 = "upd_tty 0 (ttq_set RawQ q) (?k\<lparr>clists := m\<rparr>)"
  have t: "kl11 ?k1 0 = ?t\<lparr>t_rawq := q\<rparr>" "canonb ?k1 1 = 0" by (simp_all add: upd_tty_def ex_fs_def kbio.defs)
  have e: "fold (edit (?t\<lparr>t_rawq := q\<rparr>)) ?line [] = [97, 99, 10]" by (simp add: edit_def no_tty_def)
  have h: "\<forall>c \<in> set ?line. unat c < 128" "canonb ?k1 1 \<noteq> 92" "t_delct (kl11 ?k1 0) \<noteq> 0" unfolding t by (simp_all add: no_tty_def)
  from canon_edits_line [OF r h(1,2) _ h(3), of Some] obtain k' where "canon Some 0 ?k1 = Some (Ret True k')"
    "tty_rep 99 0 k' [] ([] @ fold (edit (kl11 ?k1 0)) ?line []) []" by (simp only: list.size) auto
  then show ?thesis unfolding t e by auto
qed

subsection \<open>Output of characters\<close>

lemma partab_type [simp]:
  "(partab ! 32) AND 63 = 0" "(partab ! 92) AND 63 = 0" "(partab ! 13) AND 63 = 6"
  by (simp_all add: partab_def)

text \<open>The characters for which \<open>ttyoutput\<close> calls itself take none of its special ways.\<close>

lemma ttyoutput_plain:
  assumes "c \<in> {32, 92, 13}"
  shows "ttyoutput c tp k = Some (tty_put c tp k)"
proof -
  from assms consider "c = 32" | "c = 92" | "c = 13" by auto
  then show ?thesis by cases (simp_all add: ttyoutput_def Let_def)
qed

lemma tputc_out:
  assumes "tty_rep N tp k raw can out" "length raw + length can + length out + 30 < 6 * N"
  shows "\<exists>k'. tputc c OutQ tp k = (0, k') \<and> tty_rep N tp k' raw can (out @ [c]) \<and>
    settings (kl11 k' tp) = settings (kl11 k tp)"
proof -
  let ?t = "kl11 k tp"
  let ?qs = "[t_rawq ?t, t_canq ?t, t_outq ?t]"
  have "queues N (clists k) ?qs [raw, can, out]" using assms by (simp add: tty_rep_def)
  from queues_putc [OF this, of 2 c] assms(2) obtain q m where g: "putc c (t_outq ?t) (clists k) = (0, q, m)"
    "queues N m [t_rawq ?t, t_canq ?t, q] [raw, can, out @ [c]]" by (auto simp: numeral_2_eq_2)
  then show ?thesis by (simp add: tputc_def tty_rep_def upd_tty_def settings_def)
qed

lemma put_space:
  assumes "tty_rep N tp k raw can out" "length raw + length can + length out + 30 < 6 * N"
  shows "tty_rep N tp (tty_put 32 tp k) raw can (out @ [32]) \<and> t_col (kl11 (tty_put 32 tp k) tp) = t_col (kl11 k tp) + 1"
proof -
  from tputc_out [OF assms, of 32] obtain k' where k': "tputc 32 OutQ tp k = (0, k')" "tty_rep N tp k' raw can (out @ [32])"
    "settings (kl11 k' tp) = settings (kl11 k tp)" by auto
  have "tty_put 32 tp k = upd_tty tp (\<lambda>t. t\<lparr>t_col := t_col t + 1\<rparr>) k'"
    by (simp add: tty_put_def k'(1) tty_delay_def upd_tty_def)
  then show ?thesis using k'(2,3) by (simp add: tty_rep_def upd_tty_def settings_def)
qed

lemma and7: "w AND 7 = 0 \<longleftrightarrow> unat w mod 8 = 0" for w :: u8
proof -
  have "w AND 7 = take_bit 3 w" by (simp add: take_bit_eq_mask mask_eq_exp_minus_1)
  moreover have "unat (take_bit 3 w) = unat w mod 8" by (simp only: unsigned_take_bit_eq) (simp add: take_bit_eq_mod)
  ultimately show ?thesis by (simp add: word_unat_eq_iff)
qed

lemma unat_Suc_mod8: "unat (w + 1) mod 8 = Suc (unat w) mod 8" for w :: u8
  by (simp add: unat_word_ariths mod_mod_cancel)

lemma tab_loop_spaces:
  assumes "tty_rep N tp k raw can out" "length raw + length can + length out + 30 + n < 6 * N" "n = 8 - unat (t_col (kl11 k tp)) mod 8"
  shows "\<exists>k'. tab_loop tp k = Some k' \<and> tty_rep N tp k' raw can (out @ replicate n 32) \<and> t_col (kl11 k' tp) = t_col (kl11 k tp) + of_nat n"
  using assms
proof (induction n arbitrary: k out)
  case (Suc n)
  let ?k = "tty_put 32 tp k" and ?c = "t_col (kl11 k tp)"
  have p: "tty_rep N tp ?k raw can (out @ [32])" "t_col (kl11 ?k tp) = ?c + 1" using put_space [of N tp k raw can out] Suc.prems by auto
  have m: "unat (?c + 1) mod 8 = (if n = 0 then 0 else 8 - n)"
    unfolding unat_Suc_mod8 mod_Suc using Suc.prems(3) by auto
  show ?case
  proof (cases "n = 0")
    case True
    then have "tab_loop tp k = Some ?k" using m by (subst tab_loop.simps) (simp add: p(2) and7)
    then show ?thesis using p True by auto
  next
    case False
    then have "unat (?c + 1) mod 8 \<noteq> 0" using m Suc.prems(3) by simp
    then have "tab_loop tp k = tab_loop tp ?k" by (subst tab_loop.simps) (simp add: p(2) and7)
    moreover have "n = 8 - unat (t_col (kl11 ?k tp)) mod 8" unfolding p(2) m using False Suc.prems(3) by auto
    moreover have "length raw + length can + length (out @ [32 :: u8]) + 30 + n < 6 * N" using Suc.prems(2) by simp
    ultimately obtain k' where "tab_loop tp k = Some k'" "tty_rep N tp k' raw can ((out @ [32]) @ replicate n 32)"
      "t_col (kl11 k' tp) = t_col (kl11 ?k tp) + of_nat n" using Suc.IH [OF p(1)] by metis
    then show ?thesis unfolding p(2) by (simp add: add.assoc)
  qed
qed simp

text \<open>No block left for the output queue.\<close>

definition outq_stuck :: "nat \<Rightarrow> 'a ktty_scheme \<Rightarrow> bool" where
  "outq_stuck tp k \<longleftrightarrow> cfreelist (clists k) = 0 \<and> (let q = t_outq (kl11 k tp) in c_cl q = 0 \<or> c_cl q mod 8 = 0)"

lemma put_stuck:
  assumes "outq_stuck tp k"
  shows "outq_stuck tp (tty_put c tp k) \<and> t_col (kl11 (tty_put c tp k) tp) = t_col (kl11 k tp)"
  using assms by (auto simp: tty_put_def tputc_def putc_def outq_stuck_def Let_def upd_tty_def)

lemma tab_loop_stuck:
  assumes "tab_loop tp k = Some r"
  shows "\<not> (outq_stuck tp k \<and> unat (t_col (kl11 k tp)) mod 8 \<noteq> 0)"
proof (induction rule: tab_loop.raw_induct [OF _ assms])
  case (1 f tp k r)
  show ?case
  proof
    assume s: "outq_stuck tp k \<and> unat (t_col (kl11 k tp)) mod 8 \<noteq> 0"
    note p = put_stuck [of tp k 32]
    have "f tp (tty_put 32 tp k) = Some r" using 1(2) s p by (auto simp: and7 Let_def split: if_splits)
    from 1(1) [OF this] s p show False by simp
  qed
qed

text \<open>C25: with tabs expanded, \<open>ttyoutput\<close> of a tab ends and puts exactly the spaces up to the next column
  divisible by eight on the output queue, given room in the pool.  If the output queue cannot grow and the
  column is not divisible by eight it never returns: the loop waits for the column to advance, which only a
  successful \<open>putc\<close> does.\<close>

theorem tab_expands:
  fixes k :: "'a ktty_scheme"
  assumes "flag (t_flags (kl11 k tp)) XTABS"
  defines "n \<equiv> 8 - unat (t_col (kl11 k tp)) mod 8"
  shows "(tty_rep N tp k raw can out \<and> length raw + length can + length out + 40 < 6 * N \<longrightarrow>
      (\<exists>k'. ttyoutput 9 tp k = Some k' \<and> tty_rep N tp k' raw can (out @ replicate n 32) \<and>
         unat (t_col (kl11 k' tp)) = (unat (t_col (kl11 k tp)) + n) mod 256)) \<and>
    (outq_stuck tp k \<and> n < 8 \<longrightarrow> ttyoutput 9 tp k = None)"
proof -
  have t: "ttyoutput 9 tp k = tab_loop tp k" using assms(1) by (simp add: ttyoutput_def Let_def)
  have "unat (c + of_nat n) = (unat c + n) mod 256" for c :: u8 by (simp add: unat_word_ariths unat_of_nat mod_simps)
  moreover have "\<exists>k'. tab_loop tp k = Some k' \<and> tty_rep N tp k' raw can (out @ replicate n 32) \<and> t_col (kl11 k' tp) = t_col (kl11 k tp) + of_nat n"
    if "tty_rep N tp k raw can out" "length raw + length can + length out + 40 < 6 * N"
    using tab_loop_spaces [OF that(1) _ n_def [THEN meta_eq_to_obj_eq]] that(2) by (auto simp: n_def)
  moreover have "tab_loop tp k = None" if "outq_stuck tp k" "n < 8"
    using tab_loop_stuck [of tp k] that by (cases "tab_loop tp k") (auto simp: n_def)
  ultimately show ?thesis unfolding t by metis
qed

text \<open>A tab in column five of a terminal, first with the whole pool free and then with none of it.\<close>

theorem tab_expands_witness:
  "\<exists>k :: kfs. (\<exists>k'. ttyoutput 9 0 k = Some k' \<and> tty_rep 99 0 k' [] [] [32, 32, 32]) \<and>
     ttyoutput 9 0 (k\<lparr>clists := (clists k)\<lparr>cfreelist := 0\<rparr>\<rparr>) = None"
proof -
  let ?t = "no_tty\<lparr>t_col := 5, t_flags := XTABS\<rparr>"
  let ?cm = "cinit_blocks 4 \<lparr>c_next = (\<lambda>_. 0), info = (\<lambda>_. 0), cfreelist = 0\<rparr>"
  let ?k = "ex_fs\<lparr>clists := ?cm, kl11 := (\<lambda>_. ?t)\<rparr>"
  let ?z = "?k\<lparr>clists := (clists ?k)\<lparr>cfreelist := 0\<rparr>\<rparr>"
  have "queues 99 ?cm (replicate 3 clist_empty) (replicate 3 [])" using cinit_queues [of 4 "\<lparr>c_next = (\<lambda>_. 0), info = (\<lambda>_. 0), cfreelist = 0\<rparr>" 3] by simp
  then have r: "tty_rep 99 0 ?k [] [] []" by (simp add: tty_rep_def no_tty_def numeral_3_eq_3)
  have f: "flag (t_flags (kl11 ?k 0)) XTABS" "flag (t_flags (kl11 ?z 0)) XTABS" by (simp_all add: no_tty_def)
  have s: "outq_stuck 0 ?z" by (simp add: outq_stuck_def no_tty_def)
  have "\<exists>k'. ttyoutput 9 0 ?k = Some k' \<and> tty_rep 99 0 k' [] [] [32, 32, 32]"
    using tab_expands [OF f(1), of 99 "[]" "[]" "[]"] r by (auto simp: no_tty_def numeral_3_eq_3)
  moreover have "ttyoutput 9 0 ?z = None" using tab_expands [OF f(2)] s by (simp add: no_tty_def)
  ultimately show ?thesis by blast
qed

end
