(* ===== verification/Grep.thy ===== *)
theory Grep
  imports Main
begin

text \<open>
  \<open>usr/grep.c\<close>: the matcher for regular expressions with \<open>^ . * $\<close> and the loop over the lines of a file.

  A character string of the source is the list of its characters without the final NUL, so that
  \<open>s[0] == '\0'\<close> is \<open>s = []\<close> and \<open>s + 1\<close> is \<open>tl s\<close>.  The buffer of \<open>grep\<close>, which may hold NUL bytes of the file, is
  the list of its first \<open>m\<close> characters.
\<close>

subsection \<open>The matcher\<close>

function matchhere :: "string \<Rightarrow> string \<Rightarrow> bool"
  and matchstar :: "char \<Rightarrow> string \<Rightarrow> string \<Rightarrow> bool" where
  "matchhere re s =
     (if re = [] then True
      else if tl re \<noteq> [] \<and> hd (tl re) = CHR ''*'' then matchstar (hd re) (tl (tl re)) s
      else if hd re = CHR ''$'' \<and> tl re = [] then s = []
      else if s \<noteq> [] \<and> (hd re = CHR ''.'' \<or> hd re = hd s) then matchhere (tl re) (tl s)
      else False)"
| "matchstar c re s =
     (if matchhere re s then True
      else if s \<noteq> [] \<and> (hd s = c \<or> c = CHR ''.'') then matchstar c re (tl s)
      else False)"
  by pat_completeness auto
termination
proof (relation "measure (\<lambda>x. case x of Inl (re, s) \<Rightarrow> 2 * (length re + length s) | Inr (c, re, s) \<Rightarrow> 2 * (length re + length s) + 1)")
  fix re s :: string
  assume "re \<noteq> []" "tl re \<noteq> [] \<and> hd (tl re) = CHR ''*''"
  then show "(Inr (hd re, tl (tl re), s), Inl (re, s)) \<in> measure (\<lambda>x. case x of Inl (re, s) \<Rightarrow> 2 * (length re + length s) | Inr (c, re, s) \<Rightarrow> 2 * (length re + length s) + 1)"
    by (cases re; cases "tl re") auto
next
  fix re s :: string
  assume "re \<noteq> []" "s \<noteq> [] \<and> (hd re = CHR ''.'' \<or> hd re = hd s)"
  then show "(Inl (tl re, tl s), Inl (re, s)) \<in> measure (\<lambda>x. case x of Inl (re, s) \<Rightarrow> 2 * (length re + length s) | Inr (c, re, s) \<Rightarrow> 2 * (length re + length s) + 1)"
    by (cases re; cases s) auto
next
  fix c and re s :: string
  assume "s \<noteq> [] \<and> (hd s = c \<or> c = CHR ''.'')"
  then show "(Inr (c, re, tl s), Inr (c, re, s)) \<in> measure (\<lambda>x. case x of Inl (re, s) \<Rightarrow> 2 * (length re + length s) | Inr (c, re, s) \<Rightarrow> 2 * (length re + length s) + 1)"
    by (cases s) auto
qed simp_all

declare matchhere.simps [simp del] matchstar.simps [simp del]

text \<open>\<open>do { if(matchhere(re, text)) return 1; } while(*text++ != '\0')\<close>\<close>

fun match_from :: "string \<Rightarrow> string \<Rightarrow> bool" where
  "match_from re s = (if matchhere re s then True else if s \<noteq> [] then match_from re (tl s) else False)"

declare match_from.simps [simp del]

definition match :: "string \<Rightarrow> string \<Rightarrow> bool" where
  "match re s = (if re \<noteq> [] \<and> hd re = CHR ''^'' then matchhere (tl re) s else match_from re s)"

subsection \<open>The loop over a file\<close>

text \<open>\<open>strchr(p, '\n')\<close> on the buffer from \<open>p\<close> on, which the NUL at \<open>buf[m]\<close> ends: the line in front of the newline and
  what follows it.\<close>

fun strchr_nl :: "string \<Rightarrow> (string \<times> string) option" where
  "strchr_nl [] = None"
| "strchr_nl (c # s) =
     (if c = CHR 0x00 then None
      else if c = CHR 0x0A then Some ([], s)
      else map_option (\<lambda>(l, r). (c # l, r)) (strchr_nl s))"

lemma strchr_nl_length: "strchr_nl p = Some (l, r) \<Longrightarrow> length r < length p"
  by (induction p arbitrary: l) (auto split: if_splits)

text \<open>The inner loop: the lines that match are written, and the rest of the buffer from \<open>p\<close> on is returned.\<close>

function grep_lines :: "string \<Rightarrow> string \<Rightarrow> string \<times> string" where
  "grep_lines pattern p =
     (case strchr_nl p of
        None \<Rightarrow> ([], p)
      | Some (l, r) \<Rightarrow>
          let (w, rest) = grep_lines pattern r in ((if match pattern l then l @ [CHR 0x0A] else []) @ w, rest))"
  by pat_completeness auto
termination by (relation "measure (\<lambda>(_, p). length p)") (auto dest: strchr_nl_length)

declare grep_lines.simps [simp del]

text \<open>\<open>read(fd, buf+m, n)\<close>.  The successive reads deliver the pieces of \<open>cs\<close>, a piece that is longer than asked for in
  several parts, and then end of file.\<close>

fun read_piece :: "nat \<Rightarrow> string list \<Rightarrow> string \<times> string list" where
  "read_piece n [] = ([], [])"
| "read_piece n (c # cs) = (if length c \<le> n then (c, cs) else (take n c, drop n c # cs))"

text \<open>The outer loop with the first \<open>m\<close> characters of the buffer; \<open>if(p == buf) m = 0\<close> drops them all when there
  was no line.\<close>

function grep :: "string \<Rightarrow> string \<Rightarrow> string list \<Rightarrow> string" where
  "grep pattern buf cs =
     (case read_piece (1023 - length buf) cs of
        (c, cs') \<Rightarrow>
          if c = [] then []
          else
            let b = buf @ c;
                (w, p) = grep_lines pattern b
            in w @ grep pattern (if length p = length b then [] else p) cs')"
  by pat_completeness auto
termination
proof (relation "measure (\<lambda>(_, _, cs). sum_list (map length cs))")
  fix pattern buf :: string and cs c cs'
  assume "(c, cs') = read_piece (1023 - length buf) cs" "c \<noteq> []"
  then have "sum_list (map length cs') < sum_list (map length cs)"
    by (cases cs) (auto split: if_splits)
  then show "((pattern, b', cs'), (pattern, buf, cs)) \<in> measure (\<lambda>(_, _, cs). sum_list (map length cs))" for b' by simp
qed simp

declare grep.simps [simp del]

subsection \<open>The language of an expression\<close>

datatype item = One char | Many char

text \<open>The items of an expression without its anchors, and whether it ends in the anchor \<open>$\<close>.\<close>

fun items :: "string \<Rightarrow> item list \<times> bool" where
  "items [] = ([], False)"
| "items [c] = (if c = CHR ''$'' then ([], True) else ([One c], False))"
| "items (c # d # re) =
     (if d = CHR ''*'' then (case items re of (is, e) \<Rightarrow> (Many c # is, e))
      else (case items (d # re) of (is, e) \<Rightarrow> (One c # is, e)))"

definition stands_for :: "char \<Rightarrow> char \<Rightarrow> bool" where
  "stands_for c x \<longleftrightarrow> c = CHR ''.'' \<or> c = x"

fun lang :: "item list \<Rightarrow> string set" where
  "lang [] = {[]}"
| "lang (One c # is) = {x # w | x w. stands_for c x \<and> w \<in> lang is}"
| "lang (Many c # is) = {v @ w | v w. (\<forall>x \<in> set v. stands_for c x) \<and> w \<in> lang is}"

text \<open>A text begins with a word of the language, which is the whole text when the expression ends in \<open>$\<close>.\<close>

definition begins :: "item list \<times> bool \<Rightarrow> string \<Rightarrow> bool" where
  "begins r s \<longleftrightarrow> (\<exists>w t. s = w @ t \<and> w \<in> lang (fst r) \<and> (snd r \<longrightarrow> t = []))"

lemma beginsI: "w \<in> lang is \<Longrightarrow> (e \<Longrightarrow> t = []) \<Longrightarrow> begins (is, e) (w @ t)"
  unfolding begins_def fst_conv snd_conv by blast

lemma beginsE:
  assumes "begins (is, e) s"
  obtains w t where "s = w @ t" "w \<in> lang is" "e \<Longrightarrow> t = []"
  using assms unfolding begins_def fst_conv snd_conv by blast

lemma begins_One: "begins (One c # is, e) s \<longleftrightarrow> s \<noteq> [] \<and> stands_for c (hd s) \<and> begins (is, e) (tl s)"
proof
  assume "begins (One c # is, e) s"
  then obtain w' t where w': "s = w' @ t" "w' \<in> lang (One c # is)" "e \<Longrightarrow> t = []" using beginsE by blast
  then obtain x w where "w' = x # w" "stands_for c x" "w \<in> lang is" by auto
  with w' show "s \<noteq> [] \<and> stands_for c (hd s) \<and> begins (is, e) (tl s)" by (auto intro: beginsI)
next
  assume r: "s \<noteq> [] \<and> stands_for c (hd s) \<and> begins (is, e) (tl s)"
  then obtain w t where w: "tl s = w @ t" "w \<in> lang is" "e \<Longrightarrow> t = []" using beginsE by blast
  with r have "hd s # w \<in> lang (One c # is)" by auto
  from beginsI [OF this w(3)] r w(1) show "begins (One c # is, e) s" by (metis append_Cons hd_Cons_tl)
qed

lemma begins_Many:
  "begins (Many c # is, e) s \<longleftrightarrow> begins (is, e) s \<or> s \<noteq> [] \<and> stands_for c (hd s) \<and> begins (Many c # is, e) (tl s)"
proof
  assume "begins (Many c # is, e) s"
  then obtain w' t where w': "s = w' @ t" "w' \<in> lang (Many c # is)" "e \<Longrightarrow> t = []" using beginsE by blast
  then obtain v w where v: "w' = v @ w" "\<forall>x \<in> set v. stands_for c x" "w \<in> lang is" by auto
  show "begins (is, e) s \<or> s \<noteq> [] \<and> stands_for c (hd s) \<and> begins (Many c # is, e) (tl s)"
  proof (cases v)
    case Nil
    then show ?thesis using v w' by (auto intro: beginsI)
  next
    case (Cons x v')
    then have "v' @ w \<in> lang (Many c # is)" using v by auto
    from beginsI [OF this w'(3)] show ?thesis using Cons v w'(1) by simp
  qed
next
  assume "begins (is, e) s \<or> s \<noteq> [] \<and> stands_for c (hd s) \<and> begins (Many c # is, e) (tl s)"
  then show "begins (Many c # is, e) s"
  proof
    assume "begins (is, e) s"
    then obtain w t where w: "s = w @ t" "w \<in> lang is" "e \<Longrightarrow> t = []" using beginsE by blast
    then have "w \<in> lang (Many c # is)" by fastforce
    from beginsI [OF this w(3)] w(1) show ?thesis by simp
  next
    assume r: "s \<noteq> [] \<and> stands_for c (hd s) \<and> begins (Many c # is, e) (tl s)"
    then obtain w' t where w': "tl s = w' @ t" "w' \<in> lang (Many c # is)" "e \<Longrightarrow> t = []" using beginsE by blast
    then obtain v w where v: "w' = v @ w" "\<forall>x \<in> set v. stands_for c x" "w \<in> lang is" by auto
    with r have "\<forall>x \<in> set (hd s # v). stands_for c x" by simp
    with v(3) have "(hd s # v) @ w \<in> lang (Many c # is)" unfolding lang.simps by blast
    from beginsI [OF this w'(3)] show ?thesis using v(1) w'(1) r by (metis append_Cons append_assoc hd_Cons_tl)
  qed
qed

lemma items_Cons:
  "items (c # re) =
     (if re \<noteq> [] \<and> hd re = CHR ''*'' then (Many c # fst (items (tl re)), snd (items (tl re)))
      else if c = CHR ''$'' \<and> re = [] then ([], True)
      else (One c # fst (items re), snd (items re)))"
  by (cases re) (auto split: prod.splits)

lemma matcher_begins:
  "matchhere re s \<longleftrightarrow> begins (items re) s"
  "matchstar c re s \<longleftrightarrow> begins (Many c # fst (items re), snd (items re)) s"
proof (induction re s and c re s rule: matchhere_matchstar.induct)
  case (1 re s)
  show ?case
  proof (cases re)
    case Nil
    then show ?thesis by (simp add: matchhere.simps begins_def)
  next
    case (Cons c re')
    consider (star) "re' \<noteq> [] \<and> hd re' = CHR ''*''" | (anchor) "\<not> (re' \<noteq> [] \<and> hd re' = CHR ''*'')" "c = CHR ''$'' \<and> re' = []"
      | (one) "\<not> (re' \<noteq> [] \<and> hd re' = CHR ''*'')" "\<not> (c = CHR ''$'' \<and> re' = [])" by blast
    then show ?thesis
    proof cases
      case star
      then show ?thesis using 1(1) unfolding Cons matchhere.simps [of "c # re'"] items_Cons by simp
    next
      case anchor
      then show ?thesis unfolding Cons matchhere.simps [of "c # re'"] items_Cons by (simp add: begins_def)
    next
      case one
      then have "matchhere re s \<longleftrightarrow> s \<noteq> [] \<and> stands_for c (hd s) \<and> matchhere re' (tl s)"
        unfolding Cons matchhere.simps [of "c # re'"] stands_for_def by auto
      moreover have "items re = (One c # fst (items re'), snd (items re'))"
        using one Cons unfolding Cons items_Cons by (simp only: if_False)
      ultimately show ?thesis using 1(2) Cons one by (auto simp: begins_One stands_for_def)
    qed
  qed
next
  case (2 c re s)
  show ?case
    unfolding matchstar.simps [of c re s] begins_Many [of c _ _ s] using 2 by (auto simp: stands_for_def)
qed

lemma match_from_begins: "match_from re s \<longleftrightarrow> (\<exists>p t. s = p @ t \<and> begins (items re) t)"
proof (induction s)
  case Nil
  show ?case by (simp add: match_from.simps matcher_begins)
next
  case (Cons x s)
  have "(\<exists>p t. x # s = p @ t \<and> begins (items re) t) \<longleftrightarrow> begins (items re) (x # s) \<or> (\<exists>p t. s = p @ t \<and> begins (items re) t)"
    by (metis Cons_eq_append_conv append_Nil)
  then show ?case using Cons by (simp add: match_from.simps [of re "x # s"] matcher_begins)
qed

text \<open>C28: \<open>match\<close> decides the language of the expression: a line matches exactly when some part of it is a word of the
  language that the items of the expression denote (a character, \<open>.\<close> for any character, an item with \<open>*\<close> for any number of
  them), at the start of the line when the expression begins with \<open>^\<close> and at its end when it ends in \<open>$\<close>.\<close>

theorem match_decides:
  "match re s \<longleftrightarrow>
     (let anchored = (re \<noteq> [] \<and> hd re = CHR ''^'');
          (is, to_end) = items (if anchored then tl re else re)
      in \<exists>p w t. s = p @ w @ t \<and> w \<in> lang is \<and> (anchored \<longrightarrow> p = []) \<and> (to_end \<longrightarrow> t = []))"
  unfolding match_def Let_def matcher_begins match_from_begins begins_def by (auto split: prod.splits)

theorem match_decides_witness:
  "match ''^ab*$'' ''abb'' \<and> \<not> match ''^ab*$'' ''xab'' \<and>
   (\<exists>p w t. ''abb'' = p @ w @ t \<and> w \<in> lang [One CHR ''a'', Many CHR ''b''] \<and> p = [] \<and> t = [])"
proof -
  have m: "match ''^ab*$'' ''abb''" "\<not> match ''^ab*$'' ''xab''" by code_simp+
  have "items ''ab*$'' = ([One CHR ''a'', Many CHR ''b''], True)" by simp
  then show ?thesis using m(1) m match_decides [of "''^ab*$''" "''abb''"] by simp
qed

subsection \<open>The lines that are printed\<close>

abbreviation "nl \<equiv> CHR 0x0A"

text \<open>The complete lines of a text and the characters after the last newline.\<close>

fun split_lines :: "string \<Rightarrow> string list \<times> string" where
  "split_lines [] = ([], [])"
| "split_lines (c # s) =
     (case split_lines s of (ls, r) \<Rightarrow>
        if c = nl then ([] # ls, r) else case ls of [] \<Rightarrow> ([], c # r) | l # ls \<Rightarrow> ((c # l) # ls, r))"

definition print_matching :: "string \<Rightarrow> string \<Rightarrow> string" where
  "print_matching pattern s = concat (map (\<lambda>l. l @ [nl]) (filter (match pattern) (fst (split_lines s))))"

lemma split_lines_line: "nl \<notin> set l \<Longrightarrow> split_lines (l @ nl # r) = (l # fst (split_lines r), snd (split_lines r))"
  by (induction l) (auto split: prod.splits)

lemma split_lines_none: "nl \<notin> set s \<Longrightarrow> split_lines s = ([], s)"
  by (induction s) auto

lemma split_lines_rest: "nl \<notin> set (snd (split_lines s))"
  by (induction s) (auto split: prod.splits list.splits)

lemma strchr_nl_Some: "strchr_nl p = Some (l, r) \<Longrightarrow> p = l @ nl # r \<and> nl \<notin> set l"
  by (induction p arbitrary: l) (auto split: if_splits)

lemma strchr_nl_None: "strchr_nl p = None \<Longrightarrow> CHR 0x00 \<notin> set p \<Longrightarrow> nl \<notin> set p"
  by (induction p) (auto split: if_splits)

lemma grep_lines_prints:
  "CHR 0x00 \<notin> set p \<Longrightarrow> grep_lines pattern p = (print_matching pattern p, snd (split_lines p))"
proof (induction pattern p rule: grep_lines.induct)
  case (1 pattern p)
  show ?case
  proof (cases "strchr_nl p")
    case None
    then show ?thesis using strchr_nl_None [OF None 1(2)] by (simp add: grep_lines.simps [of pattern p] print_matching_def split_lines_none)
  next
    case (Some lr)
    obtain l r where lr: "lr = (l, r)" by fastforce
    note p = strchr_nl_Some [OF Some [unfolded lr]]
    then have "grep_lines pattern r = (print_matching pattern r, snd (split_lines r))"
      using 1(1) [OF Some [unfolded lr] refl] 1(2) by auto
    then have "grep_lines pattern p = ((if match pattern l then l @ [nl] else []) @ print_matching pattern r, snd (split_lines r))"
      unfolding grep_lines.simps [of pattern p] Some lr by simp
    then show ?thesis using p by (simp add: print_matching_def split_lines_line)
  qed
qed

lemma split_lines_append:
  "fst (split_lines (s @ t)) = fst (split_lines s) @ fst (split_lines (snd (split_lines s) @ t))"
proof (induction s rule: length_induct)
  case (1 s)
  show ?case
  proof (cases "nl \<in> set s")
    case False
    then show ?thesis by (simp add: split_lines_none)
  next
    case True
    then obtain l r where s: "s = l @ nl # r" "nl \<notin> set l" by (meson split_list_first)
    then have "fst (split_lines (r @ t)) = fst (split_lines r) @ fst (split_lines (snd (split_lines r) @ t))" using 1 by simp
    then show ?thesis using s by (simp add: split_lines_line)
  qed
qed

lemma print_matching_append:
  "print_matching pattern (s @ t) = print_matching pattern s @ print_matching pattern (snd (split_lines s) @ t)"
  unfolding print_matching_def split_lines_append [of s t] by simp

lemma print_matching_none: "nl \<notin> set s \<Longrightarrow> print_matching pattern s = []"
  by (simp add: print_matching_def split_lines_none)

lemma split_lines_rest_length: "length (snd (split_lines s)) \<le> length s \<and> (nl \<in> set s \<longrightarrow> length (snd (split_lines s)) < length s)"
  by (induction s) (auto split: prod.splits list.splits if_splits)

lemma split_lines_rest_set: "set (snd (split_lines s)) \<subseteq> set s"
  by (induction s) (auto split: prod.splits list.splits)

lemma grep_end [simp]: "grep pattern buf [] = []" "grep pattern buf [[]] = []"
  by (simp_all add: grep.simps)

lemma grep_step:
  assumes "length buf < 1023" "s \<noteq> []" "CHR 0x00 \<notin> set (buf @ s)" "nl \<notin> set buf"
  defines "n \<equiv> 1023 - length buf"
  shows "grep pattern buf [s] = print_matching pattern (buf @ take n s) @
    grep pattern (if nl \<in> set (take n s) then snd (split_lines (buf @ take n s)) else []) [drop n s]"
proof -
  define b where "b = buf @ take n s"
  have ne: "take n s \<noteq> []" using assms(1,2) by (simp add: n_def)
  have "CHR 0x00 \<notin> set b" using assms(3) by (auto simp: b_def dest: in_set_takeD)
  note g = grep_lines_prints [OF this, of pattern]
  have e: "length (snd (split_lines b)) = length b \<longleftrightarrow> nl \<notin> set (take n s)"
  proof (cases "nl \<in> set b")
    case True
    then show ?thesis using split_lines_rest_length [of b] assms(4) by (simp add: b_def)
  next
    case False
    then show ?thesis by (simp add: split_lines_none) (simp add: b_def)
  qed
  show ?thesis
  proof (cases "length s \<le> n")
    case True
    then have "grep pattern b' [drop n s] = grep pattern b' []" for b' by simp
    then show ?thesis using True ne g by (simp add: grep.simps [of pattern buf] n_def [symmetric] b_def)
  next
    case False
    have "grep pattern buf [s] = print_matching pattern b @ grep pattern (if length (snd (split_lines b)) = length b then [] else snd (split_lines b)) [drop n s]"
      using False ne g unfolding grep.simps [of pattern buf "[s]"] n_def [symmetric] b_def by (simp add: Let_def)
    then show ?thesis unfolding e unfolding b_def by simp
  qed
qed

lemma grep_prints:
  assumes "length buf < 1023" "CHR 0x00 \<notin> set (buf @ s)" "nl \<notin> set buf" "\<forall>l \<in> set (fst (split_lines (buf @ s))). length l < 1023"
  shows "grep pattern buf [s] = print_matching pattern (buf @ s)"
  using assms
proof (induction "length s" arbitrary: buf s rule: less_induct)
  case less
  show ?case
  proof (cases "s = []")
    case True
    then show ?thesis using less.prems by (simp add: print_matching_none)
  next
    case False
    let ?n = "1023 - length buf"
    let ?b = "buf @ take ?n s" and ?t = "drop ?n s"
    have bs: "buf @ s = ?b @ ?t" by simp
    have sh: "length ?t < length s" using False less.prems(1) by (cases s) auto
    note g = grep_step [OF less.prems(1) False less.prems(2,3), of pattern]
    show ?thesis
    proof (cases "nl \<in> set (take ?n s)")
      case True
      let ?r = "snd (split_lines ?b)"
      have "length ?r < length ?b" using split_lines_rest_length [of ?b] True by simp
      also have "length ?b \<le> 1023" using less.prems(1) by simp
      finally have "length ?r < 1023" .
      moreover have "CHR 0x00 \<notin> set (?r @ ?t)"
        using split_lines_rest_set [of ?b] less.prems(2) by (auto dest: in_set_takeD in_set_dropD)
      moreover have "\<forall>l \<in> set (fst (split_lines (?r @ ?t))). length l < 1023"
        using less.prems(4) unfolding bs split_lines_append [of ?b ?t] by simp
      ultimately have "grep pattern ?r [?t] = print_matching pattern (?r @ ?t)"
        using less.hyps [OF sh, of ?r] split_lines_rest by blast
      then show ?thesis using g True unfolding bs print_matching_append [of pattern ?b ?t] by simp
    next
      case no: False
      then have nb: "nl \<notin> set ?b" using less.prems(3) by simp
      have "print_matching pattern (?b @ ?t) = print_matching pattern ?t \<and> (\<forall>l \<in> set (fst (split_lines ?t)). length l < 1023)"
      proof (cases "nl \<in> set ?t")
        case True
        then have "length ?b = 1023" using less.prems(1) by (cases "length s \<le> ?n") auto
        moreover obtain l r where t: "?t = l @ nl # r" "nl \<notin> set l" using True by (meson split_list_first)
        then have "split_lines (?b @ ?t) = ((?b @ l) # fst (split_lines r), snd (split_lines r))"
          using split_lines_line [of "?b @ l" r] nb by simp
        then have "length (?b @ l) < 1023" using less.prems(4) unfolding bs by simp
        ultimately show ?thesis by simp
      next
        case False
        then have "nl \<notin> set (?b @ ?t)" "nl \<notin> set ?t" using nb unfolding set_append by blast+
        from print_matching_none [OF this(1)] print_matching_none [OF this(2)] split_lines_none [OF this(2)]
        show ?thesis by (simp only: fst_conv list.set ball_empty simp_thms)
      qed
      moreover have "CHR 0x00 \<notin> set ([] @ ?t)" using less.prems(2) by (auto dest: in_set_dropD)
      ultimately show ?thesis using g no less.hyps [OF sh, of "[]"] nb unfolding bs by (simp add: print_matching_none)
    qed
  qed
qed

text \<open>C29: \<open>grep\<close> prints the matching lines: from a file without NUL bytes, all of whose lines have fewer than 1023
  characters, it writes exactly the complete lines that match, each with its newline and in their order, however the lines
  fall into the buffer.  A read that delivers characters without a newline while the buffer is empty loses them.\<close>

theorem grep_prints_matching:
  "(CHR 0x00 \<notin> set s \<and> (\<forall>l \<in> set (fst (split_lines s)). length l < 1023) \<longrightarrow> grep pattern [] [s] = print_matching pattern s) \<and>
   (CHR 0x00 \<notin> set c \<and> nl \<notin> set c \<and> c \<noteq> [] \<and> length c \<le> 1023 \<longrightarrow> grep pattern [] (c # cs) = grep pattern [] cs)"
proof -
  have "grep pattern [] (c # cs) = grep pattern [] cs" if "CHR 0x00 \<notin> set c" "nl \<notin> set c" "c \<noteq> []" "length c \<le> 1023"
    using that grep_lines_prints [OF that(1), of pattern] by (simp add: grep.simps [of pattern "[]" "c # cs"] print_matching_none split_lines_none)
  then show ?thesis using grep_prints [of "[]" s pattern] by simp
qed

theorem grep_prints_matching_witness:
  "grep ''b*c'' [] [''ac'' @ [nl] @ ''xy'' @ [nl] @ ''bbc''] = ''ac'' @ [nl] \<and>
   grep ''c'' [] [''ab'', ''c'' @ [nl]] = ''c'' @ [nl]"
proof -
  let ?s = "''ac'' @ [nl] @ ''xy'' @ [nl] @ ''bbc''"
  have m: "match ''b*c'' ''ac''" "\<not> match ''b*c'' ''xy''" "match ''c'' ''c''" by code_simp+
  have "grep ''b*c'' [] [?s] = print_matching ''b*c'' ?s" using grep_prints_matching [of ?s "''b*c''" "''a''" "[]"] by simp
  moreover have "grep ''c'' [] [''ab'', ''c'' @ [nl]] = grep ''c'' [] [''c'' @ [nl]]"
    using grep_prints_matching [of "[]" "''c''" "''ab''" "[''c'' @ [nl]]"] by simp
  moreover have "\<dots> = print_matching ''c'' (''c'' @ [nl])" using grep_prints_matching [of "''c'' @ [nl]" "''c''" "''a''" "[]"] by simp
  ultimately show ?thesis by (simp add: print_matching_def m)
qed

end
