(* ===== verification/Ctime.thy ===== *)
theory Ctime
  imports Pc
begin

unbundle bit_operations_syntax

text \<open>
  \<open>usr/ctime.c\<close>: the conversion of the time, a number of 32 bits in a pair of words, to a date and to text.
  The array \<open>xtime\<close> of nine integers is a record with a field for each of the indices that the source names (\<open>SEC\<close>, \<open>MIN\<close>, and so on).
  The divisions are those of C (\<open>sdiv\<close>, \<open>smod\<close>).
\<close>

record tm =
  ct_sec :: int
  ct_min :: int
  ct_hour :: int
  ct_mday :: int
  ct_mon :: int
  ct_year :: int
  ct_wday :: int
  ct_yday :: int
  ct_isday :: int

subsection \<open>Arithmetic on pairs of words\<close>

definition ct_dpadd :: "dword \<Rightarrow> u16 \<Rightarrow> dword" where
  "ct_dpadd a b =
     (let (hi, lo) = a in
      if 0 \<le> sint b then let lo = lo + b in (if lo < b then hi + 1 else hi, lo)
      else let abs_b = - b in (if lo < abs_b then hi - 1 else hi, lo - abs_b))"

text \<open>One turn of the loop of \<open>ldiv\<close>, on the quotient and the remainder.\<close>

definition ct_ldiv_step :: "u16 \<Rightarrow> u16 \<Rightarrow> u16 \<Rightarrow> nat \<Rightarrow> u16 \<times> u16 \<Rightarrow> u16 \<times> u16" where
  "ct_ldiv_step ah al bl i qr =
     (let (quotient, remainder) = qr;
          remainder = push_bit 1 remainder OR (drop_bit (i mod 16) (if 16 \<le> i then ah else al) AND 1)
      in if bl \<le> remainder then (quotient OR push_bit (i mod 16) 1, remainder - bl) else (quotient, remainder))"

definition ct_ldiv :: "u16 \<Rightarrow> u16 \<Rightarrow> u16 \<Rightarrow> u16 \<times> u16" where
  "ct_ldiv ah al bl = fold (ct_ldiv_step ah al bl) (rev [0..<32]) (0, 0)"

subsection \<open>Dates\<close>

definition dysize :: "int \<Rightarrow> int" where
  "dysize y = (if y smod 4 = 0 then 366 else 365)"

definition dmsize :: "int list" where
  "dmsize = [31, 28, 31, 30, 31, 30, 31, 31, 30, 31, 30, 31]"

text \<open>\<open>for(d1=70; d0 >= dysize(d1); d1++) d0 -= dysize(d1);\<close>\<close>

function year_loop :: "int \<Rightarrow> int \<Rightarrow> int \<times> int" where
  "year_loop d0 d1 = (if dysize d1 \<le> d0 then year_loop (d0 - dysize d1) (d1 + 1) else (d0, d1))"
  by pat_completeness auto
termination by (relation "measure (\<lambda>(d0, d1). nat d0)") (auto simp: dysize_def split: if_splits)

declare year_loop.simps [simp del]

text \<open>\<open>for(d1=0; d0 >= dmsize[d1]; d1++) d0 -= dmsize[d1];\<close>  \<open>None\<close> is an index outside of the table.\<close>

fun month_loop :: "int list \<Rightarrow> int \<Rightarrow> int \<Rightarrow> (int \<times> int) option" where
  "month_loop [] d0 d1 = None"
| "month_loop (n # ms) d0 d1 = (if n \<le> d0 then month_loop ms (d0 - n) (d1 + 1) else Some (d0, d1))"

definition gmtime :: "dword \<Rightarrow> tm option" where
  "gmtime tim =
     (let (q, r) = ct_ldiv (fst tim) (snd tim) 28800;
          d0 = sint q;
          d1 = sint r;
          sec = d1 smod 60;
          d1 = d1 sdiv 60;
          mi = d1 smod 60;
          d1 = d1 sdiv 60;
          d1 = d1 + (d0 smod 3) * 8;
          d0 = d0 sdiv 3;
          wday = (d0 + 4) smod 7;
          (d0, y) = year_loop d0 70;
          ms = (if dysize y = 366 then dmsize[1 := 29] else dmsize)
      in map_option (\<lambda>(d, mo).
           \<lparr>ct_sec = sec, ct_min = mi, ct_hour = d1, ct_mday = d + 1, ct_mon = mo, ct_year = y, ct_wday = wday, ct_yday = d0, ct_isday = 0\<rparr>)
         (month_loop ms d0 0))"

definition sunday :: "tm \<Rightarrow> int \<Rightarrow> int" where
  "sunday t ad =
     (let d = (if 58 \<le> ad then ad + (dysize (ct_year t) - 365) else ad)
      in d - (d - ct_yday t + ct_wday t + 700) smod 7)"

definition daytab :: "(int \<times> int) list" where
  "daytab = [(5, 333), (58, 303)]"

text \<open>The call of \<open>dpadd\<close> with the time zone is commented out in the source.  \<open>daylight\<close> is 1.\<close>

definition localtime :: "dword \<Rightarrow> tm option" where
  "localtime tim = do {
     ct \<leftarrow> gmtime tim;
     let dayno = ct_yday ct;
     let (b, e) = (if ct_year ct = 74 \<or> ct_year ct = 75 then daytab ! nat (ct_year ct - 74) else (119, 303));
     let daylbegin = sunday ct b;
     let daylend = sunday ct e;
     if (daylbegin < dayno \<or> dayno = daylbegin \<and> 2 \<le> ct_hour ct) \<and> (dayno < daylend \<or> dayno = daylend \<and> ct_hour ct < 1)
     then do {
       ct \<leftarrow> gmtime (ct_dpadd tim 3600);
       Some (ct\<lparr>ct_isday := ct_isday ct + 1\<rparr>) }
     else Some ct }"

subsection \<open>Text\<close>

definition digit :: "int \<Rightarrow> char" where
  "digit n = char_of (nat (n + 48))"

text \<open>\<open>ct_numb(cp, n)\<close>, with the address as an index into \<open>cbuf\<close>.\<close>

definition ct_numb :: "string \<Rightarrow> nat \<Rightarrow> int \<Rightarrow> string \<times> nat" where
  "ct_numb b cp n =
     (b[cp + 1 := (if 10 \<le> n then digit ((n sdiv 10) smod 10) else CHR '' ''), cp + 2 := digit (n smod 10)], cp + 3)"

definition put3 :: "string \<Rightarrow> nat \<Rightarrow> string \<Rightarrow> nat \<Rightarrow> string" where
  "put3 b cp s i = b[cp := s ! i, cp + 1 := s ! (i + 1), cp + 2 := s ! (i + 2)]"

text \<open>\<open>None\<close> when an index falls in front of the table of names or behind it.\<close>

definition asctime :: "tm \<Rightarrow> string option" where
  "asctime t =
     (if ct_wday t < 0 \<or> 6 < ct_wday t \<or> ct_mon t < 0 \<or> 11 < ct_mon t then None
      else
        let b = ''Day Mon 00 00:00:00 1900'' @ [CHR 0x0A];
            b = put3 b 0 ''SunMonTueWedThuFriSat'' (nat (3 * ct_wday t));
            b = put3 b 4 ''JanFebMarAprMayJunJulAugSepOctNovDec'' (nat (ct_mon t * 3));
            (b, cp) = ct_numb b 7 (ct_mday t);
            (b, cp) = ct_numb b cp (ct_hour t + 100);
            (b, cp) = ct_numb b cp (ct_min t + 100);
            (b, cp) = ct_numb b cp (ct_sec t + 100);
            (b, cp) = ct_numb b (cp + 2) (ct_year t)
        in Some b)"

definition ctime :: "dword \<Rightarrow> string option" where
  "ctime at = do { t \<leftarrow> localtime at; asctime t }"

subsection \<open>The division\<close>

lemma unat_one_bit: "unat (drop_bit j w AND 1) = unat w div 2 ^ j mod 2" for w :: u16
  unfolding unsigned_and_eq unat_drop_bit_eq unfolding drop_bit_eq_div by (simp add: and_one_eq)

lemma bit_of_pair:
  assumes "i < 32"
  shows "unat (drop_bit (i mod 16) (if 16 \<le> i then fst n else snd n) AND 1 :: u16) = dpval n div 2 ^ i mod 2"
proof (cases "16 \<le> i")
  case True
  then obtain j where j: "i = 16 + j" "j < 16" using assms by (metis add_less_cancel_left le_Suc_ex numeral_Bit0)
  have "dpval n div 2 ^ i = dpval n div 65536 div 2 ^ j" unfolding j(1) power_add by (simp add: div_mult2_eq)
  then show ?thesis using j by (simp add: dpval_div_mod unat_one_bit)
next
  case False
  then obtain j where j: "16 = i + Suc j" by (metis add_Suc_right less_iff_Suc_add not_le)
  have "dpval n = unat (fst n) * 2 ^ Suc j * 2 ^ i + unat (snd n)"
  proof -
    have "(65536 :: nat) = 2 ^ (i + Suc j)" unfolding j [symmetric] by simp
    then show ?thesis by (simp add: dpval_def power_add mult.assoc mult.commute [of "2 ^ i"])
  qed
  then have "dpval n div 2 ^ i = unat (fst n) * 2 ^ Suc j + unat (snd n) div 2 ^ i" by simp
  then have "dpval n div 2 ^ i mod 2 = unat (snd n) div 2 ^ i mod 2" by (simp add: mod_add_left_eq [symmetric])
  then show ?thesis using False by (simp add: unat_one_bit)
qed

lemma unat_shift_in:
  fixes r c :: u16
  assumes "unat r < 32768"
  shows "unat (push_bit 1 r OR (c AND 1)) = 2 * unat r + unat (c AND 1)"
proof -
  have "push_bit 1 r OR (c AND 1) = push_bit 1 r + (c AND 1)"
    by (rule disjunctive_add [symmetric]) (simp only: bit_push_bit_iff bit_and_iff bit_1_iff, auto)
  moreover have "unat (push_bit 1 r) = 2 * unat r" using assms by (simp add: unat_word_ariths push_bit_eq_mult mult.commute)
  moreover have "unat (c AND 1) < 2" using unat_one_bit [of 0 c] by simp
  ultimately show ?thesis using assms by (simp add: unat_word_ariths)
qed

lemma unat_set_bit:
  fixes q :: u16
  assumes "2 ^ Suc i dvd unat q" "i < 16" "unat q + 2 ^ i < 65536"
  shows "unat (q OR push_bit i 1) = unat q + 2 ^ i"
proof -
  have "\<not> bit q i"
  proof -
    obtain m where "unat q = 2 ^ Suc i * m" using assms(1) by (auto elim: dvdE)
    then have "unat q div 2 ^ i = 2 * m" by simp
    then have "\<not> bit (unat q) i" by (simp add: bit_iff_odd)
    then show ?thesis using assms(2) by (simp add: bit_unsigned_iff)
  qed
  then have "q OR push_bit i 1 = q + push_bit i 1" by (intro disjunctive_add [symmetric]) (auto simp: bit_simps)
  moreover have "unat (push_bit i 1 :: u16) = 2 ^ i"
  proof -
    have "(push_bit i 1 :: u16) = of_nat (2 ^ i)" by (simp add: push_bit_eq_mult)
    moreover have "(2 :: nat) ^ i < 2 ^ 16" using assms(2) by (intro power_strict_increasing) simp_all
    ultimately show ?thesis by (simp only: unat_of_nat) simp
  qed
  ultimately show ?thesis using assms(3) by (simp add: unat_word_ariths)
qed

lemma div_bits: "N div 2 ^ i = 2 * (N div 2 ^ Suc i) + N div 2 ^ i mod 2" for N :: nat
proof -
  have "N div 2 ^ Suc i = N div 2 ^ i div 2" by (metis div_mult2_eq mult.commute power_Suc)
  then show ?thesis by presburger
qed

text \<open>The part of the dividend that has been taken in so far is divided.\<close>

definition ldiv_inv :: "nat \<Rightarrow> nat \<Rightarrow> nat \<Rightarrow> u16 \<times> u16 \<Rightarrow> bool" where
  "ldiv_inv N b k s \<longleftrightarrow> unat (snd s) = N div 2 ^ k mod b \<and> unat (fst s) = N div 2 ^ k div b * 2 ^ k"

lemma ldiv_step:
  assumes i: "i < 32" and b: "0 < unat bl" "unat bl \<le> 32768" and small: "unat (fst n) < unat bl"
    and inv: "ldiv_inv (dpval n) (unat bl) (Suc i) s"
  shows "ldiv_inv (dpval n) (unat bl) i (ct_ldiv_step (fst n) (snd n) bl i s)"
proof -
  obtain q r where s: "s = (q, r)" by fastforce
  define b where "b = unat bl"
  define V where "V = dpval n div 2 ^ Suc i"
  define c where "c = dpval n div 2 ^ i mod 2"
  define r2 where "r2 = push_bit 1 r OR (drop_bit (i mod 16) (if 16 \<le> i then fst n else snd n) AND 1)"
  have qr: "unat r = V mod b" "unat q = V div b * 2 ^ Suc i" using inv by (simp_all add: ldiv_inv_def s V_def b_def)
  have "unat r < b" using qr(1) b by (simp add: b_def)
  then have r2: "unat r2 = 2 * (V mod b) + c"
    using unat_shift_in [of r "drop_bit (i mod 16) (if 16 \<le> i then fst n else snd n)"] b(2) qr(1) bit_of_pair [OF i, of n]
    by (simp add: r2_def b_def c_def)
  have V: "dpval n div 2 ^ i = 2 * V + c" unfolding V_def c_def by (rule div_bits)
  have split: "2 * V + c = b * (2 * (V div b)) + (2 * (V mod b) + c)"
  proof -
    have "2 * V = 2 * (b * (V div b) + V mod b)" by simp
    then show ?thesis by (simp only: distrib_left mult.left_commute add.assoc)
  qed
  have lt: "2 * (V mod b) + c < 2 * b"
  proof -
    have "V mod b < b" "c < 2" using b by (simp_all add: b_def c_def)
    then show ?thesis by linarith
  qed
  have st: "ct_ldiv_step (fst n) (snd n) bl i s = (if bl \<le> r2 then (q OR push_bit (i mod 16) 1, r2 - bl) else (q, r2))"
    by (simp only: ct_ldiv_step_def s Let_def prod.case r2_def)
  show ?thesis
  proof (cases "bl \<le> r2")
    case False
    then have "2 * (V mod b) + c < b" using r2 by (simp add: word_le_nat_alt b_def)
    then have "(2 * V + c) mod b = 2 * (V mod b) + c" "(2 * V + c) div b = 2 * (V div b)" unfolding split by simp_all
    then show ?thesis using False qr r2 unfolding ldiv_inv_def st V b_def [symmetric] by simp
  next
    case True
    then have ge: "b \<le> 2 * (V mod b) + c" using r2 by (simp add: word_le_nat_alt b_def)
    then obtain d where d: "2 * (V mod b) + c = b + d" "d < b" using lt by (metis add_less_cancel_left le_Suc_ex mult_2)
    have md: "(2 * V + c) mod b = d" "(2 * V + c) div b = 2 * (V div b) + 1" unfolding split d(1) using d(2) by (simp_all add: div_add_self1)
    have i16: "i < 16"
    proof (rule ccontr)
      assume "\<not> i < 16"
      then obtain j where "i = 16 + j" by (metis le_Suc_ex not_less)
      then have "dpval n div 2 ^ i \<le> dpval n div 65536" by (simp add: power_add div_mult2_eq)
      also have "\<dots> < b" using small by (simp add: dpval_div_mod b_def)
      finally show False using md(2) unfolding V by simp
    qed
    have "(2 * V + c) div b * 2 ^ i < 65536"
    proof -
      have "(2 * V + c) div b * 2 ^ i \<le> dpval n div b"
        unfolding V [symmetric] by (metis div_mult2_eq div_times_less_eq_dividend mult.commute)
      also have "\<dots> < 65536"
      proof -
        have "dpval n < 65536 * b" using small unat16_bound [of "snd n"] by (simp add: dpval_def b_def)
        then show ?thesis by (simp add: less_mult_imp_div_less)
      qed
      finally show ?thesis .
    qed
    then have "unat q + 2 ^ i < 65536" unfolding md(2) qr(2) by simp
    then have "unat (q OR push_bit i 1) = (2 * V + c) div b * 2 ^ i"
      using unat_set_bit [of i q] i16 qr(2) by (simp add: md(2))
    moreover have "unat (r2 - bl) = d" using True r2 d by (simp add: unat_sub word_le_nat_alt b_def)
    ultimately show ?thesis using True i16 md(1) unfolding ldiv_inv_def st V b_def [symmetric] by (simp only: if_True fst_conv snd_conv mod_less simp_thms)
  qed
qed

lemma ct_ldiv_exact:
  assumes "0 < unat bl" "unat bl \<le> 32768" "unat ah < unat bl"
  shows "unat (fst (ct_ldiv ah al bl)) = dpval (ah, al) div unat bl" "unat (snd (ct_ldiv ah al bl)) = dpval (ah, al) mod unat bl"
proof -
  let ?s = "\<lambda>k. fold (ct_ldiv_step ah al bl) (rev [k..<32]) (0, 0)"
  have "ldiv_inv (dpval (ah, al)) (unat bl) k (?s k)" if "k \<le> 32" for k
    using that
  proof (induction k rule: inc_induct)
    case base
    have "dpval (ah, al) div 2 ^ 32 = 0" using dpval_bound [of "(ah, al)"] by simp
    then show ?case by (simp add: ldiv_inv_def)
  next
    case (step k)
    have "[k..<32] = k # [Suc k..<32]" using step.hyps by (simp add: upt_conv_Cons)
    then have "?s k = ct_ldiv_step ah al bl k (?s (Suc k))" by (simp del: upt_conv_Cons)
    then show ?case using ldiv_step [of k bl "(ah, al)" "?s (Suc k)"] assms step by simp
  qed
  from this [of 0] show "unat (fst (ct_ldiv ah al bl)) = dpval (ah, al) div unat bl" "unat (snd (ct_ldiv ah al bl)) = dpval (ah, al) mod unat bl"
    by (simp_all add: ldiv_inv_def ct_ldiv_def del: upt_rec_numeral)
qed

subsection \<open>The calendar\<close>

text \<open>The number of days of the years from 1970 to the year before \<open>1900 + y\<close>, and of the months before month \<open>mo\<close>.\<close>

definition days_before_year :: "int \<Rightarrow> int" where
  "days_before_year y = (\<Sum>i \<in> {70..<y}. dysize i)"

definition months :: "int \<Rightarrow> int list" where
  "months y = (if dysize y = 366 then dmsize[1 := 29] else dmsize)"

lemma dysize_bounds: "365 \<le> dysize y" "dysize y \<le> 366"
  by (simp_all add: dysize_def)

lemma days_before_Suc: "70 \<le> y \<Longrightarrow> days_before_year (y + 1) = days_before_year y + dysize y"
proof -
  assume "70 \<le> y"
  then have "{70..<y + 1} = insert y {70..<y}" by auto
  then show ?thesis by (simp add: days_before_year_def)
qed

lemma year_loop_days:
  assumes "year_loop d0 y0 = (d, y)" "0 \<le> d0" "70 \<le> y0"
  shows "0 \<le> d \<and> d < dysize y \<and> 70 \<le> y \<and> days_before_year y0 + d0 = days_before_year y + d"
  using assms
proof (induction d0 y0 rule: year_loop.induct)
  case (1 d0 y0)
  show ?case
  proof (cases "dysize y0 \<le> d0")
    case True
    then have "year_loop (d0 - dysize y0) (y0 + 1) = (d, y)" using 1(2) by (simp add: year_loop.simps [of d0])
    from 1(1) [OF True this] show ?thesis using True 1(4) days_before_Suc by simp
  next
    case False
    then show ?thesis using 1(2-4) by (simp add: year_loop.simps [of d0])
  qed
qed

lemma month_loop_days:
  assumes "0 \<le> d0" "d0 < sum_list ms" "\<forall>n \<in> set ms. 0 < n"
  shows "\<exists>k < length ms. \<exists>d. month_loop ms d0 m0 = Some (d, m0 + int k) \<and> 0 \<le> d \<and> d < ms ! k \<and> d0 = sum_list (take k ms) + d"
  using assms
proof (induction ms arbitrary: d0 m0)
  case (Cons n ms)
  show ?case
  proof (cases "n \<le> d0")
    case True
    with Cons.prems Cons.IH [of "d0 - n" "m0 + 1"] obtain k d where
      "k < length ms" "month_loop ms (d0 - n) (m0 + 1) = Some (d, m0 + 1 + int k)" "0 \<le> d" "d < ms ! k" "d0 - n = sum_list (take k ms) + d" by auto
    then show ?thesis using True by (intro exI [of _ "Suc k"]) (simp add: algebra_simps)
  next
    case False
    then show ?thesis using Cons.prems by (intro exI [of _ 0]) simp
  qed
qed simp

lemma months_sum: "sum_list (months y) = dysize y" "length (months y) = 12" "\<forall>n \<in> set (months y). 0 < n"
  using dysize_def [of y] by (auto simp: months_def dmsize_def)

text \<open>The day, the hour, the minute and the second of a time.\<close>

definition date_of :: "tm \<Rightarrow> nat \<Rightarrow> bool" where
  "date_of t n \<longleftrightarrow>
     0 \<le> ct_sec t \<and> ct_sec t < 60 \<and> 0 \<le> ct_min t \<and> ct_min t < 60 \<and> 0 \<le> ct_hour t \<and> ct_hour t < 24 \<and>
     70 \<le> ct_year t \<and> 0 \<le> ct_mon t \<and> ct_mon t < 12 \<and> 1 \<le> ct_mday t \<and> ct_mday t \<le> months (ct_year t) ! nat (ct_mon t) \<and>
     ct_yday t = sum_list (take (nat (ct_mon t)) (months (ct_year t))) + ct_mday t - 1 \<and>
     int n = ct_sec t + 60 * (ct_min t + 60 * (ct_hour t + 24 * (days_before_year (ct_year t) + ct_yday t))) \<and>
     ct_wday t = (days_before_year (ct_year t) + ct_yday t + 4) mod 7"

lemma gmtime_parts:
  assumes "ct_ldiv (fst tim) (snd tim) 28800 = (q, r)" "year_loop (sint q sdiv 3) 70 = (d, y)" "month_loop (months y) d 0 = Some (md, mo)"
  shows "gmtime tim = Some \<lparr>ct_sec = sint r smod 60, ct_min = sint r sdiv 60 smod 60, ct_hour = sint r sdiv 60 sdiv 60 + sint q smod 3 * 8,
    ct_mday = md + 1, ct_mon = mo, ct_year = y, ct_wday = (sint q sdiv 3 + 4) smod 7, ct_yday = d, ct_isday = 0\<rparr>"
  using assms by (simp add: gmtime_def months_def Let_def cong: if_cong)

lemma clock_sum:
  fixes N :: nat
  assumes "N = 28800 * Q + R" "R = a + 60 * R1" "R1 = b + 60 * R2" "Q = 3 * D + m"
  shows "N = a + 60 * (b + 60 * ((R2 + m * 8) + 24 * D))"
  using assms by simp

lemma clock_int: "N = a + 60 * (b + 60 * (h + 24 * D)) \<Longrightarrow> int N = int a + 60 * (int b + 60 * (int h + 24 * int D))"
  by simp

lemma clock_split:
  fixes N :: nat
  defines "Q \<equiv> N div 28800" and "R \<equiv> N mod 28800"
  shows "N = R mod 60 + 60 * (R div 60 mod 60 + 60 * ((R div 60 div 60 + Q mod 3 * 8) + 24 * (Q div 3)))"
    "R div 60 div 60 + Q mod 3 * 8 < 24"
proof -
  have N: "N = 28800 * Q + R" "R < 28800" by (simp_all add: Q_def R_def)
  show "N = R mod 60 + 60 * (R div 60 mod 60 + 60 * ((R div 60 div 60 + Q mod 3 * 8) + 24 * (Q div 3)))"
    by (rule clock_sum [OF N(1)]) simp_all
  have "R div 60 div 60 < 8" using N(2) by (simp add: div_mult2_eq [symmetric] less_mult_imp_div_less)
  moreover have "Q mod 3 \<le> 2" by simp
  ultimately show "R div 60 div 60 + Q mod 3 * 8 < 24" by linarith
qed



end
