(* ===== verification/Uprintf.thy ===== *)
theory Uprintf
  imports Pc
begin

text \<open>
  \<open>usr/printf.c\<close>: the formatted output of the user programs.  The result is the list of the characters that
  \<open>vsprintf\<close> stores, without the final NUL; the numbers are built in \<open>xbuf\<close> from its end, so that \<open>*cp-- = c\<close> is a
  character in front of a list.  \<open>None\<close> stands for reading behind the end of the format or of the arguments.
\<close>

datatype arg = Num u16 | Text string

text \<open>\<open>ljflg\<close>, \<open>fw\<close>, \<open>pr\<close>, \<open>prflg\<close> and \<open>pad\<close>.\<close>

record field =
  ljflg :: bool
  fw :: u16
  pr :: u16
  prflg :: bool
  pad :: char

subsection \<open>Numbers\<close>

definition dec_digit :: "nat \<Rightarrow> char" where
  "dec_digit n = char_of (n + 48)"

text \<open>\<open>while (x > 0) { *cp-- = x % 10 + '0'; x /= 10; }\<close> for a signed \<open>x\<close>.\<close>

function itoa_loop :: "int \<Rightarrow> string \<Rightarrow> string" where
  "itoa_loop x cp = (if 0 < x then itoa_loop (x sdiv 10) (dec_digit (nat (x smod 10)) # cp) else cp)"
  by pat_completeness auto
termination
proof (relation "measure (\<lambda>(x, _). nat x)")
  fix x :: int and cp :: string
  assume "0 < x"
  then show "((x sdiv 10, dec_digit (nat (x smod 10)) # cp), x, cp) \<in> measure (\<lambda>(x, _). nat x)"
    by (simp add: signed_divide_int_def)
qed simp

declare itoa_loop.simps [simp del]

definition itoa :: "u16 \<Rightarrow> string" where
  "itoa x =
     (if x = 0 then ''0''
      else if sint x < 0 then CHR ''-'' # itoa_loop (sint (- x)) []
      else itoa_loop (sint x) [])"

text \<open>\<open>while (x > 0) { *cp-- = hx[x % r]; x /= r; }\<close>; the callers have \<open>r\<close> 8, 10 or 16.\<close>

function utoa_loop :: "nat \<Rightarrow> nat \<Rightarrow> string \<Rightarrow> string" where
  "utoa_loop x r cp = (if 0 < x \<and> 1 < r then utoa_loop (x div r) r (''0123456789abcdef'' ! (x mod r) # cp) else cp)"
  by pat_completeness auto
termination by (relation "measure (\<lambda>(x, _, _). x)") auto

declare utoa_loop.simps [simp del]

definition utoa :: "u16 \<Rightarrow> nat \<Rightarrow> string" where
  "utoa x r = (if x = 0 then ''0'' else utoa_loop (unat x) r [])"

subsection \<open>Fields\<close>

text \<open>\<open>while (i--) putchar(pad)\<close> with \<open>i = fw - sl\<close>, which is done when \<open>sl < fw\<close>.\<close>

definition putpad :: "field \<Rightarrow> u16 \<Rightarrow> string" where
  "putpad f sl = replicate (unat (fw f - sl)) (pad f)"

text \<open>\<open>while (*cp) { putchar(*cp++); if (--pr <= 0 && prflg) break; }\<close>\<close>

fun putchars :: "bool \<Rightarrow> u16 \<Rightarrow> string \<Rightarrow> string" where
  "putchars fl p [] = []"
| "putchars fl p (c # cp) = c # (if sint (p - 1) \<le> 0 \<and> fl then [] else putchars fl (p - 1) cp)"

definition putsr :: "field \<Rightarrow> string \<Rightarrow> string" where
  "putsr f cp =
     (let sl = of_nat (length cp) :: u16;
          sl = (if sint (pr f) < sint sl \<and> prflg f then pr f else sl)
      in (if sint sl < sint (fw f) \<and> \<not> ljflg f then putpad f sl else []) @
         putchars (prflg f) (pr f) cp @
         (if sint sl < sint (fw f) \<and> ljflg f then putpad f sl else []))"

subsection \<open>Formats\<close>

definition is_dec :: "char \<Rightarrow> bool" where
  "is_dec c \<longleftrightarrow> 48 \<le> (of_char c :: nat) \<and> of_char c \<le> (57 :: nat)"

text \<open>\<open>while ('0' <= *fr && *fr <= '9') { n *= 10; n += *fr++ - '0'; }\<close>\<close>

fun number :: "u16 \<Rightarrow> string \<Rightarrow> u16 \<times> string" where
  "number n [] = (n, [])"
| "number n (c # fr) = (if is_dec c then number (n * 10 + (of_nat (of_char c) - 48)) fr else (n, c # fr))"

text \<open>The flags, the width and the precision of a directive, from the character after \<open>%\<close> on.\<close>

definition get_field :: "string \<Rightarrow> field \<times> string" where
  "get_field fr =
     (let lj = (fr \<noteq> [] \<and> hd fr = CHR ''-'');
          fr = (if lj then tl fr else fr);
          z = (fr \<noteq> [] \<and> hd fr = CHR ''0'');
          fr = (if z then tl fr else fr);
          (w, fr) = number 0 fr;
          d = (fr \<noteq> [] \<and> hd fr = CHR ''.'');
          (p, fr) = (if d then number 0 (tl fr) else (0, fr))
      in (\<lparr>ljflg = lj, fw = w, pr = p, prflg = d, pad = (if z then CHR ''0'' else CHR '' '')\<rparr>, fr))"

text \<open>The text of a conversion with character \<open>c\<close>, and the arguments left; \<open>None\<close> inside when \<open>c\<close> is no conversion.\<close>

definition convert_arg :: "char \<Rightarrow> arg list \<Rightarrow> (string option \<times> arg list) option" where
  "convert_arg c as =
     (if c \<in> {CHR ''d'', CHR ''o'', CHR ''x'', CHR ''c'', CHR ''u''} then
        case as of
          Num n # as \<Rightarrow>
            Some (Some (if c = CHR ''d'' then itoa n
                        else if c = CHR ''o'' then utoa n 8
                        else if c = CHR ''x'' then utoa n 16
                        else if c = CHR ''u'' then utoa n 10
                        else if (ucast n :: u8) = 0 then [] else [char_of (unat (ucast n :: u8))]), as)
        | _ \<Rightarrow> None
      else if c = CHR ''s'' then
        case as of Text s # as \<Rightarrow> Some (Some s, as) | _ \<Rightarrow> None
      else Some (None, as))"

lemma number_length: "length (snd (number n fr)) \<le> length fr"
  by (induction fr arbitrary: n) (auto intro: le_SucI)

lemma get_field_length: "length (snd (get_field fr)) \<le> length fr"
proof -
  have t: "length (tl fr) \<le> length fr" for fr :: string by simp
  show ?thesis unfolding get_field_def Let_def
    by (auto split: prod.splits) (metis number_length t le_trans snd_conv)+
qed

lemma get_field_less: "(f, c # fr2) = get_field fr1 \<Longrightarrow> length fr2 < Suc (length fr1)"
  using get_field_length [of fr1] by (metis Suc_le_eq le_SucI length_Cons snd_conv)

function vsprintf :: "string \<Rightarrow> arg list \<Rightarrow> string option" where
  "vsprintf fr as =
     (case fr of
        [] \<Rightarrow> Some []
      | c # fr1 \<Rightarrow>
          if c \<noteq> CHR ''%'' then map_option ((#) c) (vsprintf fr1 as)
          else
            case get_field fr1 of
              (f, []) \<Rightarrow> None
            | (f, c # fr2) \<Rightarrow>
                (case convert_arg c as of
                   None \<Rightarrow> None
                 | Some (Some s, as) \<Rightarrow> map_option ((@) (putsr f s)) (vsprintf fr2 as)
                 | Some (None, as) \<Rightarrow>
                     map_option ((@) (take (length fr1 - length fr2) fr1)) (vsprintf fr2 as)))"
  by pat_completeness auto
termination by (relation "measure (\<lambda>(fr, _). length fr)") (auto dest: get_field_less)

declare vsprintf.simps [simp del]

definition fprintf :: "string \<Rightarrow> arg list \<Rightarrow> string option" where
  "fprintf format as =
     do { str \<leftarrow> vsprintf format as; if length str < 200 then Some str else None }"

subsection \<open>Numerals\<close>

definition digit_val :: "char \<Rightarrow> nat" where
  "digit_val c = (if is_dec c then of_char c - 48 else of_char c - 87)"

definition numeral_val :: "nat \<Rightarrow> string \<Rightarrow> nat" where
  "numeral_val r s = foldl (\<lambda>n c. n * r + digit_val c) 0 s"

definition digit_chars :: "nat \<Rightarrow> char set" where
  "digit_chars r = {c. \<exists>n < r. c = ''0123456789abcdef'' ! n}"

lemma hx_digit: "n < 16 \<Longrightarrow> digit_val (''0123456789abcdef'' ! n) = n"
proof -
  assume "n < 16"
  then have "n \<in> set [0..<16]" by simp
  moreover have "\<forall>n \<in> set [0..<16]. digit_val (''0123456789abcdef'' ! n) = n" by (simp add: digit_val_def is_dec_def upt_rec)
  ultimately show ?thesis by blast
qed

lemma hx_dec: "n < 10 \<Longrightarrow> ''0123456789abcdef'' ! n = dec_digit n \<and> is_dec (dec_digit n)"
proof -
  assume "n < 10"
  then have "n \<in> set [0..<10]" by simp
  moreover have "\<forall>n \<in> set [0..<10]. ''0123456789abcdef'' ! n = dec_digit n \<and> is_dec (dec_digit n)"
    by code_simp
  ultimately show ?thesis by blast
qed

lemma foldl_numeral: "foldl (\<lambda>n c. n * r + digit_val c) a s = a * r ^ length s + numeral_val r s"
proof (induction s arbitrary: a)
  case (Cons c s)
  show ?case unfolding numeral_val_def foldl_Cons Cons.IH [of "a * r + digit_val c"] Cons.IH [of "0 * r + digit_val c"]
    by (simp add: algebra_simps)
qed (simp add: numeral_val_def)

lemma numeral_val_Cons: "numeral_val r (c # s) = digit_val c * r ^ length s + numeral_val r s"
  using foldl_numeral [of r "digit_val c" s] by (simp add: numeral_val_def)

text \<open>The loop puts the digits of \<open>x\<close> in front of what is there.\<close>

lemma utoa_loop_digits:
  assumes "1 < r" "r \<le> 16"
  shows "\<exists>s. utoa_loop x r cp = s @ cp \<and> numeral_val r s = x \<and> set s \<subseteq> digit_chars r \<and> (x \<noteq> 0 \<longrightarrow> s \<noteq> [] \<and> hd s \<noteq> CHR ''0'')"
  using assms
proof (induction x r cp rule: utoa_loop.induct)
  case (1 x r cp)
  show ?case
  proof (cases "x = 0")
    case True
    then show ?thesis by (simp add: utoa_loop.simps numeral_val_def)
  next
    case False
    let ?c = "''0123456789abcdef'' ! (x mod r)"
    from 1(1) [of] False 1(2,3) obtain s where s: "utoa_loop (x div r) r (?c # cp) = s @ ?c # cp" "numeral_val r s = x div r" "set s \<subseteq> digit_chars r"
      "x div r \<noteq> 0 \<longrightarrow> s \<noteq> [] \<and> hd s \<noteq> CHR ''0''" by auto
    have m: "x mod r < r" "x mod r < 16" using 1(2,3) by (auto intro: less_le_trans [OF mod_less_divisor])
    have "numeral_val r (s @ [?c]) = x"
      using s(2) hx_digit [OF m(2)] by (simp add: numeral_val_def)
    moreover have "?c \<in> digit_chars r" using m by (auto simp: digit_chars_def)
    moreover have "s @ [?c] \<noteq> [] \<and> hd (s @ [?c]) \<noteq> CHR ''0''"
    proof (cases "x div r = 0")
      case True
      have "s = []"
      proof -
        have "utoa_loop 0 r (?c # cp) = ?c # cp" by (simp add: utoa_loop.simps)
        then show ?thesis using s(1) True by simp
      qed
      have "x mod r \<noteq> 0" using True False by (metis add_0 div_mult_mod_eq mult_0)
      then have "?c \<noteq> CHR ''0''" using hx_digit [OF m(2)] by (auto simp: digit_val_def is_dec_def)
      then show ?thesis using \<open>s = []\<close> by simp
    next
      case False
      then show ?thesis using s(4) by simp
    qed
    moreover have "utoa_loop x r cp = (s @ [?c]) @ cp" using s(1) False 1(2) by (simp add: utoa_loop.simps [of x])
    ultimately show ?thesis using s(3) by (intro exI [of _ "s @ [?c]"]) simp
  qed
qed

lemma utoa_numeral:
  assumes "1 < r" "r \<le> 16"
  shows "numeral_val r (utoa x r) = unat x" "set (utoa x r) \<subseteq> digit_chars r" "x \<noteq> 0 \<Longrightarrow> utoa x r \<noteq> [] \<and> hd (utoa x r) \<noteq> CHR ''0''"
proof -
  from utoa_loop_digits [OF assms, of "unat x" "[]"] obtain s where
    s: "utoa_loop (unat x) r [] = s" "numeral_val r s = unat x" "set s \<subseteq> digit_chars r" "unat x \<noteq> 0 \<longrightarrow> s \<noteq> [] \<and> hd s \<noteq> CHR ''0''" by auto
  have "CHR ''0'' \<in> digit_chars r" using assms(1) by (auto simp: digit_chars_def intro: exI [of _ 0])
  moreover have "numeral_val r ''0'' = 0" by (simp add: numeral_val_def digit_val_def is_dec_def)
  ultimately show "numeral_val r (utoa x r) = unat x" "set (utoa x r) \<subseteq> digit_chars r" "x \<noteq> 0 \<Longrightarrow> utoa x r \<noteq> [] \<and> hd (utoa x r) \<noteq> CHR ''0''"
    using s by (auto simp: utoa_def unat_eq_0)
qed

lemma itoa_loop_utoa: "0 \<le> x \<Longrightarrow> itoa_loop x cp = utoa_loop (nat x) 10 cp"
proof (induction x cp rule: itoa_loop.induct)
  case (1 x cp)
  show ?case
  proof (cases "0 < x")
    case True
    obtain n where n: "x = int n" using 1(2) by (metis nonneg_int_cases)
    have e: "x sdiv 10 = int (n div 10)" "x smod 10 = int (n mod 10)" unfolding n using sdiv_smod_nat [of n 10] by simp_all
    have "itoa_loop x cp = itoa_loop (x sdiv 10) (dec_digit (nat (x smod 10)) # cp)" using True by (simp add: itoa_loop.simps [of x])
    also have "\<dots> = utoa_loop (n div 10) 10 (dec_digit (n mod 10) # cp)" using 1(1) [OF True] by (simp add: e)
    also have "\<dots> = utoa_loop n 10 cp" using True n hx_dec [of "n mod 10"] by (simp add: utoa_loop.simps [of n])
    finally show ?thesis using n by simp
  next
    case False
    then show ?thesis using 1(2) by (simp add: itoa_loop.simps utoa_loop.simps)
  qed
qed

lemma itoa_utoa:
  assumes "x \<noteq> 0x8000"
  shows "itoa x = (if sint x < 0 then CHR ''-'' # utoa (- x) 10 else utoa x 10)" "\<bar>sint x\<bar> = int (unat (if sint x < 0 then - x else x))"
proof -
  have pos: "itoa_loop (sint w) [] = utoa_loop (unat w) 10 []" if "unat w < 32768" for w :: u16
    using that sint16_small [of w] itoa_loop_utoa [of "sint w" "[]"] by simp
  have "itoa x = (if sint x < 0 then CHR ''-'' # utoa (- x) 10 else utoa x 10) \<and> \<bar>sint x\<bar> = int (unat (if sint x < 0 then - x else x))"
  proof (cases "sint x < 0")
    case True
    then have "32768 \<le> unat x" by (simp add: sint16_neg)
    moreover have "unat x \<noteq> 32768" using assms by (simp add: word_unat_eq_iff)
    ultimately have u: "32768 < unat x" by simp
    have "- x = of_nat (65536 - unat x)" using unat16_bound [of x] by (simp add: of_nat_diff)
    then have u: "unat (- x) = 65536 - unat x" "32768 < unat x" using u by (simp_all only: unat_of_nat) simp
    then have "unat (- x) < 32768" by simp
    then show ?thesis using True pos [of "- x"] u sint16_wrap [of x] unat16_bound [of x] by (auto simp: itoa_def utoa_def)
  next
    case False
    then have "unat x < 32768" using sint16_neg [of x] by simp
    then show ?thesis using False pos [of x] sint16_small [of x] by (auto simp: itoa_def utoa_def)
  qed
  then show "itoa x = (if sint x < 0 then CHR ''-'' # utoa (- x) 10 else utoa x 10)" "\<bar>sint x\<bar> = int (unat (if sint x < 0 then - x else x))"
    by blast+
qed

text \<open>the numbers that \<open>printf\<close> writes read back as the same numbers: \<open>utoa\<close> gives the digits of \<open>x\<close> in base 8, 10 or 16, without
  a leading zero except for zero itself, and \<open>itoa\<close> gives the decimal digits of the absolute value, with a minus sign for
  a negative number.  The one exception is the least number, for which \<open>itoa\<close> writes a minus sign alone.\<close>

theorem printf_numbers:
  "(r \<in> {8, 10, 16} \<longrightarrow> numeral_val r (utoa x r) = unat x \<and> set (utoa x r) \<subseteq> digit_chars r \<and> (x \<noteq> 0 \<longrightarrow> hd (utoa x r) \<noteq> CHR ''0'')) \<and>
   (x \<noteq> 0x8000 \<longrightarrow> (\<exists>s. itoa x = (if sint x < 0 then ''-'' else []) @ s \<and> int (numeral_val 10 s) = \<bar>sint x\<bar> \<and> set s \<subseteq> digit_chars 10)) \<and>
   itoa 0x8000 = ''-''"
proof (intro conjI impI)
  show "itoa 0x8000 = ''-''" by (simp add: itoa_def itoa_loop.simps)
next
  assume "x \<noteq> 0x8000"
  note i = itoa_utoa [OF this]
  let ?s = "utoa (if sint x < 0 then - x else x) 10"
  have "int (numeral_val 10 ?s) = \<bar>sint x\<bar>" "set ?s \<subseteq> digit_chars 10" using utoa_numeral(1,2) [of 10] i(2) by auto
  then show "\<exists>s. itoa x = (if sint x < 0 then ''-'' else []) @ s \<and> int (numeral_val 10 s) = \<bar>sint x\<bar> \<and> set s \<subseteq> digit_chars 10"
    using i(1) by (intro exI [of _ ?s]) simp
qed (use utoa_numeral [of r x] in auto)

theorem printf_numbers_witness: "numeral_val 16 (utoa 51966 16) = 51966 \<and> (\<exists>s. itoa (-5) = ''-'' @ s \<and> numeral_val 10 s = 5)"
  using printf_numbers [of 16 51966] printf_numbers [of 10 "-5"] by auto

subsection \<open>Justification\<close>

text \<open>A text cut to the precision and filled up to the width of its field.\<close>

definition justify :: "field \<Rightarrow> string \<Rightarrow> string" where
  "justify f s =
     (let t = (if prflg f then take (unat (pr f)) s else s);
          p = replicate (unat (fw f) - length t) (pad f)
      in if ljflg f then t @ p else p @ t)"

definition field_ok :: "field \<Rightarrow> bool" where
  "field_ok f \<longleftrightarrow> unat (fw f) < 32768 \<and> unat (pr f) < 32768 \<and> (prflg f \<longleftrightarrow> pr f \<noteq> 0) \<and> pad f \<in> {CHR '' '', CHR ''0''}"

lemma putchars_all [simp]: "putchars False p s = s"
  by (induction s arbitrary: p) auto

lemma putchars_take: "0 < unat p \<Longrightarrow> unat p < 32768 \<Longrightarrow> putchars True p s = take (unat p) s"
proof (induction s arbitrary: p)
  case (Cons c s)
  have u: "unat (p - 1) = unat p - 1" using Cons.prems by (simp add: unat_sub word_le_nat_alt)
  then have "sint (p - 1) = int (unat p - 1)" using Cons.prems sint16_small [of "p - 1"] by simp
  then show ?case using Cons.IH [of "p - 1"] Cons.prems u by (cases "unat p") (auto split: nat.splits)
qed simp

lemma putsr_justify:
  assumes "field_ok f" "length s < 32768"
  shows "putsr f s = justify f s"
proof -
  let ?t = "if prflg f then take (unat (pr f)) s else s"
  define sl where "sl = (if sint (pr f) < sint (of_nat (length s) :: u16) \<and> prflg f then pr f else of_nat (length s))"
  have l: "unat (of_nat (length s) :: u16) = length s" using assms(2) by (simp add: unat_of_nat)
  then have si: "sint (of_nat (length s) :: u16) = int (length s)" "sint (pr f) = int (unat (pr f))" "sint (fw f) = int (unat (fw f))"
    using assms sint16_small [of "of_nat (length s)"] sint16_small [of "pr f"] sint16_small [of "fw f"] by (simp_all add: field_ok_def)
  have "sint (pr f) < sint (of_nat (length s) :: u16) \<longleftrightarrow> unat (pr f) < length s" by (simp only: si of_nat_less_iff)
  then have sl: "unat sl = length ?t" using l by (auto simp: sl_def)
  then have "unat sl < 32768" using assms(2) by auto
  then have ssl: "sint sl = int (length ?t)" using sint16_small [of sl] sl by simp
  have "putchars (prflg f) (pr f) s = ?t"
    using assms(1) putchars_take [of "pr f" s] by (cases "prflg f") (auto simp: field_ok_def unat_gt_0)
  moreover have "putpad f sl = replicate (unat (fw f) - length ?t) (pad f)" if "length ?t < unat (fw f)"
    using that sl by (simp add: putpad_def unat_sub word_le_nat_alt)
  moreover have "sint sl < sint (fw f) \<longleftrightarrow> length ?t < unat (fw f)" by (simp only: ssl si(3) of_nat_less_iff)
  ultimately show ?thesis
    unfolding putsr_def justify_def Let_def sl_def [symmetric] by (cases "length ?t < unat (fw f)") auto
qed

subsection \<open>Formats and what they denote\<close>

datatype piece = Plain string | Conv field char

abbreviation "conversions \<equiv> {CHR ''d'', CHR ''o'', CHR ''x'', CHR ''c'', CHR ''u'', CHR ''s''}"

definition render_field :: "field \<Rightarrow> string" where
  "render_field f =
     (if ljflg f then ''-'' else []) @ (if pad f = CHR ''0'' then ''0'' else []) @
     (if fw f = 0 then [] else utoa (fw f) 10) @ (if prflg f then CHR ''.'' # utoa (pr f) 10 else [])"

fun render :: "piece \<Rightarrow> string" where
  "render (Plain s) = s"
| "render (Conv f c) = CHR ''%'' # render_field f @ [c]"

fun piece_ok :: "piece \<Rightarrow> bool" where
  "piece_ok (Plain s) = (CHR ''%'' \<notin> set s)"
| "piece_ok (Conv f c) = (field_ok f \<and> c \<in> conversions)"

fun expand :: "piece list \<Rightarrow> arg list \<Rightarrow> string option" where
  "expand [] as = Some []"
| "expand (Plain s # ps) as = map_option ((@) s) (expand ps as)"
| "expand (Conv f c # ps) as =
     (case convert_arg c as of
        Some (Some s, as) \<Rightarrow> map_option ((@) (justify f s)) (expand ps as)
      | _ \<Rightarrow> None)"

lemma dec_chars: "c \<in> digit_chars 10 \<Longrightarrow> is_dec c \<and> of_nat (of_char c) - 48 = (of_nat (digit_val c) :: u16)"
proof -
  assume "c \<in> digit_chars 10"
  then obtain n where n: "n < 10" "c = ''0123456789abcdef'' ! n" by (auto simp: digit_chars_def)
  then have d: "is_dec c" using hx_dec by metis
  then have "(48 :: nat) \<le> of_char c" by (simp add: is_dec_def)
  then have "(of_nat (of_char c - 48) :: u16) = of_nat (of_char c) - 48" by (simp add: of_nat_diff)
  then show ?thesis using d by (simp add: digit_val_def)
qed

lemma number_digits:
  assumes "set s \<subseteq> digit_chars 10" "rest = [] \<or> \<not> is_dec (hd rest)"
  shows "number n (s @ rest) = (n * 10 ^ length s + of_nat (numeral_val 10 s), rest)"
  using assms
proof (induction s arbitrary: n)
  case Nil
  then show ?case by (cases rest) (auto simp: numeral_val_def)
next
  case (Cons c s)
  have c: "is_dec c" "of_nat (of_char c) - 48 = (of_nat (digit_val c) :: u16)" using dec_chars [of c] Cons.prems(1) by auto
  have "number n ((c # s) @ rest) = number (n * 10 + of_nat (digit_val c)) (s @ rest)" using c by simp
  also have "\<dots> = ((n * 10 + of_nat (digit_val c)) * 10 ^ length s + of_nat (numeral_val 10 s), rest)" using Cons by simp
  finally show ?case by (simp add: numeral_val_Cons algebra_simps)
qed

lemma number_utoa: "rest = [] \<or> \<not> is_dec (hd rest) \<Longrightarrow> number 0 (utoa w 10 @ rest) = (w, rest)"
  using number_digits [of "utoa w 10" rest 0] utoa_numeral [of 10 w] by simp

lemma get_field_render:
  assumes "field_ok f" "c \<in> conversions"
  shows "get_field (render_field f @ c # rest) = (f, c # rest)"
proof -
  have c: "\<not> is_dec c" "c \<noteq> CHR ''-''" "c \<noteq> CHR ''0''" "c \<noteq> CHR ''.''" using assms(2) by (auto simp: is_dec_def)
  let ?p = "(if prflg f then CHR ''.'' # utoa (pr f) 10 else []) @ c # rest"
  let ?w = "(if fw f = 0 then [] else utoa (fw f) 10) @ ?p"
  let ?z = "(if pad f = CHR ''0'' then ''0'' else []) @ ?w"
  have dot: "\<not> is_dec (CHR ''.'')" by (simp add: is_dec_def)
  have w: "number 0 ?w = (fw f, ?p)"
  proof (cases "fw f = 0")
    case True
    then show ?thesis using c(1) dot by (cases "prflg f") simp_all
  next
    case False
    then show ?thesis using number_utoa [of ?p "fw f"] c(1) dot by auto
  qed
  have hw: "?w \<noteq> []" "hd ?w \<noteq> CHR ''0''" "hd ?w \<noteq> CHR ''-''"
  proof -
    have "hd (utoa (fw f) 10) \<in> digit_chars 10" if "fw f \<noteq> 0"
      using utoa_numeral(2,3) [of 10 "fw f"] that by (auto dest: hd_in_set)
    moreover have "CHR ''-'' \<notin> digit_chars 10" using dec_chars [of "CHR ''-''"] by (auto simp: is_dec_def)
    ultimately have "fw f \<noteq> 0 \<Longrightarrow> hd (utoa (fw f) 10) \<noteq> CHR ''-''" by auto
    then show "?w \<noteq> []" "hd ?w \<noteq> CHR ''0''" "hd ?w \<noteq> CHR ''-''" using utoa_numeral(3) [of 10 "fw f"] c by auto
  qed
  have p: "(if prflg f then number 0 (tl ?p) else (0, ?p)) = (pr f, c # rest)"
    using number_utoa [of "c # rest" "pr f"] c assms(1) by (auto simp: field_ok_def)
  have z: "(?z \<noteq> [] \<and> hd ?z = CHR ''0'') = (pad f = CHR ''0'')" "(if pad f = CHR ''0'' then tl ?z else ?z) = ?w" "?z \<noteq> []" "hd ?z \<noteq> CHR ''-''"
    using hw by (auto simp del: append_is_Nil_conv)
  let ?l = "(if ljflg f then ''-'' else []) @ ?z"
  have l: "(?l \<noteq> [] \<and> hd ?l = CHR ''-'') = ljflg f" "(if ljflg f then tl ?l else ?l) = ?z" using z(3,4) by (auto simp del: append_is_Nil_conv)
  have d: "(?p \<noteq> [] \<and> hd ?p = CHR ''.'') = prflg f" using c(4) by auto
  have "render_field f @ c # rest = ?l" by (simp add: render_field_def)
  moreover have "get_field ?l = (\<lparr>ljflg = ljflg f, fw = fw f, pr = pr f, prflg = prflg f, pad = if pad f = CHR ''0'' then CHR ''0'' else CHR '' ''\<rparr>, c # rest)"
    unfolding get_field_def Let_def l z w prod.case d p ..
  moreover have "(if pad f = CHR ''0'' then CHR ''0'' else CHR '' '') = pad f" using assms(1) by (auto simp: field_ok_def)
  ultimately show ?thesis by simp
qed

lemma utoa_power:
  assumes "1 < r" "r \<le> 16" "x \<noteq> 0"
  shows "r ^ (length (utoa x r) - 1) \<le> unat x"
proof -
  note u = utoa_numeral [OF assms(1,2), of x]
  obtain c s where cs: "utoa x r = c # s" using u(3) assms(3) by (cases "utoa x r") auto
  obtain n where n: "n < r" "c = ''0123456789abcdef'' ! n" using u(2) cs by (auto simp: digit_chars_def)
  have "n \<noteq> 0" using u(3) assms(3) cs n(2) by (cases n) auto
  then have "1 \<le> digit_val c" using hx_digit [of n] n assms(2) by simp
  then have "r ^ length s \<le> unat x" using u(1) unfolding cs numeral_val_Cons by (metis le_add1 le_trans mult_le_mono1 mult_1)
  then show ?thesis using cs by simp
qed

lemma length_utoa:
  assumes "1 < r" "r \<le> 16"
  shows "length (utoa x r) \<le> 16"
proof (cases "x = 0")
  case False
  then have "(2 :: nat) ^ (length (utoa x r) - 1) < 2 ^ 16"
    using power_mono [of 2 r "length (utoa x r) - 1"] utoa_power [OF assms False] assms(1) unat16_bound [of x] by simp
  then have "length (utoa x r) - 1 < 16" by (simp only: power_strict_increasing_iff)
  then show ?thesis by simp
qed (simp add: utoa_def)

lemma length_utoa_10: "length (utoa x 10) \<le> 5"
proof (cases "x = 0")
  case False
  then have "(10 :: nat) ^ (length (utoa x 10) - 1) < 10 ^ 5" using utoa_power [of 10 x] unat16_bound [of x] by simp
  then have "length (utoa x 10) - 1 < 5" by (simp only: power_strict_increasing_iff)
  then show ?thesis by simp
qed (simp add: utoa_def)

lemma convert_arg_length:
  assumes "convert_arg c as = Some (Some s, as')" "\<forall>t. Text t \<in> set as \<longrightarrow> length t < 32768"
  shows "length s < 32768 \<and> (\<forall>t. Text t \<in> set as' \<longrightarrow> length t < 32768)"
proof -
  have l: "length (utoa x r) < 32768" if "r \<in> {8, 10, 16}" for x r using length_utoa [of r x] that by auto
  have "length (itoa x) < 32768" for x
  proof (cases "x = 0x8000")
    case False
    then show ?thesis using itoa_utoa(1) [OF False] length_utoa [of 10 "- x"] length_utoa [of 10 x] by auto
  qed (simp add: itoa_def itoa_loop.simps)
  then show ?thesis using assms l by (auto simp: convert_arg_def split: if_splits list.splits arg.splits)
qed

lemma vsprintf_plain: "CHR ''%'' \<notin> set s \<Longrightarrow> vsprintf (s @ fr) as = map_option ((@) s) (vsprintf fr as)"
proof (induction s)
  case Nil
  show ?case by (simp add: option.map_ident)
next
  case (Cons c s)
  then show ?case by (auto simp: vsprintf.simps [of "c # s @ fr"] option.map_comp comp_def)
qed

lemma vsprintf_render:
  assumes "\<forall>p \<in> set ps. piece_ok p" "\<forall>t. Text t \<in> set as \<longrightarrow> length t < 32768"
  shows "vsprintf (concat (map render ps)) as = expand ps as"
  using assms
proof (induction ps arbitrary: as)
  case Nil
  show ?case by (simp add: vsprintf.simps)
next
  case (Cons p ps)
  show ?case
  proof (cases p)
    case (Plain s)
    then show ?thesis using Cons vsprintf_plain [of s] by simp
  next
    case (Conv f c)
    let ?r = "concat (map render ps)"
    have ok: "field_ok f" "c \<in> conversions" using Cons.prems(1) Conv by simp_all
    have v: "vsprintf (concat (map render (p # ps))) as = (case convert_arg c as of None \<Rightarrow> None
        | Some (Some s, as) \<Rightarrow> map_option ((@) (putsr f s)) (vsprintf ?r as)
        | Some (None, as) \<Rightarrow> map_option ((@) (take (length (render_field f @ c # ?r) - length ?r) (render_field f @ c # ?r))) (vsprintf ?r as))"
      using get_field_render [OF ok, of ?r] unfolding Conv by (simp add: vsprintf.simps [of "CHR ''%'' # render_field f @ c # ?r"])
    have "\<not> (\<exists>as'. convert_arg c as = Some (None, as'))" using ok(2) by (auto simp: convert_arg_def split: if_splits list.splits arg.splits)
    moreover have "putsr f s = justify f s \<and> vsprintf ?r as' = expand ps as'" if "convert_arg c as = Some (Some s, as')" for s as'
      using convert_arg_length [OF that Cons.prems(2)] putsr_justify [OF ok(1)] Cons.IH [of as'] Cons.prems(1) by auto
    ultimately show ?thesis unfolding v unfolding Conv by (auto split: option.splits)
  qed
qed



end
