(* ===== verification/Umalloc.thy ===== *)
theory Umalloc
  imports Pc
begin

text \<open>
  The memory allocator of \<open>usr/ulib.c\<close>: \<open>free\<close>, \<open>morecore\<close> and \<open>malloc\<close> over a circular list of free blocks in the order of their
  addresses.

  Addresses are numbers of bytes; a \<open>Header\<close> has four of them.  \<open>base\<close> and \<open>heap\<close> are the addresses of the two static
  objects of these names, the latter of 4096 headers.  The links and the sizes are two functions on addresses.
\<close>

record uheap =
  s_ptr :: "nat \<Rightarrow> nat"
  s_size :: "nat \<Rightarrow> u16"
  freep :: nat

definition hend :: "nat \<Rightarrow> uheap \<Rightarrow> nat" where
  "hend p h = p + 4 * unat (s_size h p)"

definition set_ptr :: "nat \<Rightarrow> nat \<Rightarrow> uheap \<Rightarrow> uheap" where
  "set_ptr p q h = h\<lparr>s_ptr := (s_ptr h)(p := q)\<rparr>"

definition set_size :: "nat \<Rightarrow> u16 \<Rightarrow> uheap \<Rightarrow> uheap" where
  "set_size p n h = h\<lparr>s_size := (s_size h)(p := n)\<rparr>"

text \<open>\<open>for(p = freep; !(bp > p && bp < p->s.ptr); p = p->s.ptr) if(p >= p->s.ptr && (bp > p || bp < p->s.ptr)) break;\<close>\<close>

partial_function (option) free_pos :: "nat \<Rightarrow> nat \<Rightarrow> uheap \<Rightarrow> nat option" where
  "free_pos bp p h =
     (if p < bp \<and> bp < s_ptr h p then Some p
      else if s_ptr h p \<le> p \<and> (p < bp \<or> bp < s_ptr h p) then Some p
      else free_pos bp (s_ptr h p) h)"

definition ufree :: "nat \<Rightarrow> uheap \<Rightarrow> uheap option" where
  "ufree ap h = do {
     let bp = ap - 4;
     p \<leftarrow> free_pos bp (freep h) h;
     let q = s_ptr h p;
     let h = (if hend bp h = q then set_ptr bp (s_ptr h q) (set_size bp (s_size h bp + s_size h q) h) else set_ptr bp q h);
     let h = (if hend p h = bp then set_ptr p (s_ptr h bp) (set_size p (s_size h p + s_size h bp) h) else set_ptr p bp h);
     Some (h\<lparr>freep := p\<rparr>) }"

definition morecore :: "nat \<Rightarrow> uheap \<Rightarrow> uheap option" where
  "morecore heap h = ufree (heap + 4) (set_size heap 4096 h)"

text \<open>The block \<open>p\<close> is large enough: all of it, or its end, is taken.\<close>

definition serve :: "u16 \<Rightarrow> nat \<Rightarrow> nat \<Rightarrow> uheap \<Rightarrow> nat \<times> uheap" where
  "serve nunits prevp p h =
     (let (p, h) =
            (if s_size h p = nunits then (p, set_ptr prevp (s_ptr h p) h)
             else
               let h = set_size p (s_size h p - nunits) h;
                   p = hend p h
               in (p, set_size p nunits h))
      in (p + 4, h\<lparr>freep := prevp\<rparr>))"

text \<open>The loop of \<open>malloc\<close>; \<open>morecore\<close> returns \<open>freep\<close>, which is never null, and the search goes on behind it.\<close>

partial_function (option) malloc_loop :: "nat \<Rightarrow> u16 \<Rightarrow> nat \<Rightarrow> nat \<Rightarrow> uheap \<Rightarrow> (nat \<times> uheap) option" where
  "malloc_loop heap nunits prevp p h =
     (if nunits \<le> s_size h p then Some (serve nunits prevp p h)
      else if p = freep h then
        do { h \<leftarrow> morecore heap h; malloc_loop heap nunits (freep h) (s_ptr h (freep h)) h }
      else malloc_loop heap nunits p (s_ptr h p) h)"

definition umalloc :: "nat \<Rightarrow> nat \<Rightarrow> u16 \<Rightarrow> uheap \<Rightarrow> (nat \<times> uheap) option" where
  "umalloc base heap nbytes h =
     (let nunits = (nbytes + 4 - 1) div 4 + 1;
          h = (if freep h = 0 then set_size base 0 (set_ptr base base (h\<lparr>freep := base\<rparr>)) else h)
      in malloc_loop heap nunits (freep h) (s_ptr h (freep h)) h)"

subsection \<open>The ring of free blocks\<close>

text \<open>The node that follows \<open>p\<close> in a set of addresses, in ascending order and back to the least one.\<close>

definition nextn :: "nat set \<Rightarrow> nat \<Rightarrow> nat" where
  "nextn S p = (if \<exists>q \<in> S. p < q then Min {q \<in> S. p < q} else Min S)"

definition ring :: "nat \<Rightarrow> uheap \<Rightarrow> nat set \<Rightarrow> bool" where
  "ring base h S \<longleftrightarrow> finite S \<and> base \<in> S \<and> (\<forall>q \<in> S. base \<le> q) \<and> (\<forall>p \<in> S. s_ptr h p = nextn S p)"

lemma nextn_cases:
  assumes "finite S" "S \<noteq> {}"
  obtains "p < nextn S p" "nextn S p \<in> S" "\<forall>q \<in> S. p < q \<longrightarrow> nextn S p \<le> q"
  | "\<forall>q \<in> S. q \<le> p" "nextn S p = Min S"
proof (cases "\<exists>q \<in> S. p < q")
  case True
  let ?T = "{q \<in> S. p < q}"
  have "finite ?T" "?T \<noteq> {}" using assms True by auto
  then have "Min ?T \<in> ?T" "\<forall>q \<in> ?T. Min ?T \<le> q" using Min_in [of ?T] Min_le [of ?T] by blast+
  then show thesis using True that(1) by (auto simp: nextn_def)
next
  case False
  then have "\<forall>q \<in> S. q \<le> p" "nextn S p = Min S" by (auto simp: nextn_def not_less)
  then show thesis by (rule that(2))
qed

lemma nextn_in: "finite S \<Longrightarrow> S \<noteq> {} \<Longrightarrow> nextn S p \<in> S"
  by (rule nextn_cases [of S p]) (auto intro: Min_in)

lemma nextn_eqI: "finite S \<Longrightarrow> q \<in> S \<Longrightarrow> p < q \<Longrightarrow> \<forall>r \<in> S. p < r \<longrightarrow> q \<le> r \<Longrightarrow> nextn S p = q"
  unfolding nextn_def by (auto intro!: Min_eqI)

lemma nextn_last: "finite S \<Longrightarrow> b \<in> S \<Longrightarrow> \<forall>q \<in> S. b \<le> q \<Longrightarrow> \<forall>q \<in> S. q \<le> p \<Longrightarrow> nextn S p = b"
  unfolding nextn_def by (auto intro!: Min_eqI simp: not_less)

lemma ringD:
  assumes "ring base h S"
  shows "finite S" "base \<in> S" "S \<noteq> {}" "\<And>q. q \<in> S \<Longrightarrow> base \<le> q" "\<And>p. p \<in> S \<Longrightarrow> s_ptr h p = nextn S p" "Min S = base"
  using assms by (auto simp: ring_def intro!: Min_eqI)

text \<open>The part of the ring from \<open>p\<close> on, up to and including \<open>f\<close>.\<close>

definition arc :: "nat set \<Rightarrow> nat \<Rightarrow> nat \<Rightarrow> nat set" where
  "arc S p f = (if p \<le> f then {q \<in> S. p \<le> q \<and> q \<le> f} else {q \<in> S. p \<le> q \<or> q \<le> f})"

lemma arc_next:
  assumes "finite S" "p \<in> S" "f \<in> S" "p \<noteq> f"
  shows "arc S (nextn S p) f = arc S p f - {p}"
proof (rule nextn_cases [of S p])
  assume n: "p < nextn S p" "nextn S p \<in> S" "\<forall>q \<in> S. p < q \<longrightarrow> nextn S p \<le> q"
  show ?thesis
  proof (cases "p < f")
    case True
    then have "nextn S p \<le> f" using n assms by simp
    then show ?thesis using n True by (auto simp: arc_def)
  next
    case False
    then have "\<not> nextn S p \<le> f" "\<not> p \<le> f" using n(1) assms(4) by auto
    then show ?thesis using n by (auto simp: arc_def)
  qed
next
  assume l: "\<forall>q \<in> S. q \<le> p" "nextn S p = Min S"
  have "Min S \<le> q" if "q \<in> S" for q using assms(1) that by simp
  then show ?thesis using l assms by (auto simp: arc_def)
qed (use assms in auto)

lemma arc_all:
  assumes "finite S" "f \<in> S"
  shows "arc S (nextn S f) f = S"
proof (rule nextn_cases [of S f])
  assume "f < nextn S f" "nextn S f \<in> S" "\<forall>q \<in> S. f < q \<longrightarrow> nextn S f \<le> q"
  then show ?thesis by (auto simp: arc_def not_le)
next
  assume l: "\<forall>q \<in> S. q \<le> f" "nextn S f = Min S"
  have "Min S \<le> q" if "q \<in> S" for q using assms(1) that by simp
  then show ?thesis using l assms by (auto simp: arc_def)
qed (use assms in auto)

lemma arc_refl: "p \<in> S \<Longrightarrow> p \<in> arc S p f"
  by (simp add: arc_def)

subsection \<open>The place of a block\<close>

definition pred_of :: "nat set \<Rightarrow> nat \<Rightarrow> nat \<Rightarrow> bool" where
  "pred_of S x r \<longleftrightarrow> r \<in> S \<and> r < x \<and> (\<forall>q \<in> S. q < x \<longrightarrow> q \<le> r)"

lemma free_pos_below:
  assumes "ring base h S" "x \<notin> S" "p \<in> S" "p < x"
  shows "\<exists>r. free_pos x p h = Some r \<and> pred_of S x r"
  using assms(3,4)
proof (induction "card {q \<in> S. p < q \<and> q < x}" arbitrary: p rule: less_induct)
  case less
  note R = ringD [OF assms(1)]
  show ?case
  proof (cases "s_ptr h p \<le> p \<or> x < s_ptr h p")
    case True
    have "q \<le> p" if "q \<in> S" "q < x" for q
    proof (rule nextn_cases [OF R(1,3), of p])
      assume "p < nextn S p" "\<forall>q \<in> S. p < q \<longrightarrow> nextn S p \<le> q"
      then show ?thesis using True R(5) [OF less.prems(1)] that by (cases "p < q") auto
    qed (use that in blast)
    then have "pred_of S x p" using less.prems by (auto simp: pred_of_def)
    moreover have "free_pos x p h = Some p" using True less.prems by (subst free_pos.simps) auto
    ultimately show ?thesis by simp
  next
    case False
    let ?n = "s_ptr h p"
    have n: "?n \<in> S" "p < ?n" using False R(5) [OF less.prems(1)] nextn_in [OF R(1,3)] by auto
    then have "?n < x" using False assms(2) by (metis not_le linorder_neqE_nat)
    moreover have "{q \<in> S. ?n < q \<and> q < x} \<subset> {q \<in> S. p < q \<and> q < x}" using n \<open>?n < x\<close> by force
    then have "card {q \<in> S. ?n < q \<and> q < x} < card {q \<in> S. p < q \<and> q < x}" using R(1) by (intro psubset_card_mono) auto
    moreover have "free_pos x p h = free_pos x ?n h" using False by (subst free_pos.simps) auto
    ultimately show ?thesis using less.hyps n(1) by simp
  qed
qed

lemma free_pos_pred:
  assumes "ring base h S" "x \<notin> S" "p \<in> S" "base < x"
  shows "\<exists>r. free_pos x p h = Some r \<and> pred_of S x r"
  using assms(3)
proof (induction "card {q \<in> S. p < q}" arbitrary: p rule: less_induct)
  case less
  note R = ringD [OF assms(1)]
  show ?case
  proof (cases "p < x")
    case False
    then have "x < p" using less.prems assms(2) by (metis linorder_neqE_nat)
    have ptr: "s_ptr h p = nextn S p" using R(5) less.prems .
    show ?thesis
    proof (rule nextn_cases [OF R(1,3), of p])
      assume n: "p < nextn S p" "nextn S p \<in> S"
      then have "{q \<in> S. nextn S p < q} \<subset> {q \<in> S. p < q}" by force
      then have "card {q \<in> S. nextn S p < q} < card {q \<in> S. p < q}" using R(1) by (intro psubset_card_mono) auto
      moreover have "free_pos x p h = free_pos x (nextn S p) h" using n \<open>x < p\<close> ptr by (subst free_pos.simps) simp
      ultimately show ?thesis using less.hyps n(2) by simp
    next
      assume "nextn S p = Min S"
      then have "free_pos x p h = free_pos x base h" using \<open>x < p\<close> assms(4) ptr R(6) by (subst free_pos.simps) simp
      then show ?thesis using free_pos_below [OF assms(1,2) R(2) assms(4)] by simp
    qed
  qed (use free_pos_below [OF assms(1,2) less.prems] in blast)
qed

text \<open>A block that lies on the list already is never placed.\<close>

lemma free_pos_listed:
  assumes "free_pos x p h = Some r"
  shows "ring base h S \<Longrightarrow> p \<in> S \<Longrightarrow> x \<in> S \<Longrightarrow> base < x \<Longrightarrow> nextn S base = x \<Longrightarrow> False"
proof (induction rule: free_pos.raw_induct [OF _ assms])
  case (1 f x p h r)
  note R = ringD [OF 1(3)]
  have ptr: "s_ptr h p = nextn S p" using R(5) 1(4) .
  have below: "p = base" if "p < x"
  proof (rule nextn_cases [OF R(1,3), of base])
    assume "\<forall>q \<in> S. base < q \<longrightarrow> nextn S base \<le> q"
    then show ?thesis using that 1(4,7) R(4) [OF 1(4)] by (metis le_neq_implies_less not_le)
  qed (use 1(5,6) in force)
  have a: "\<not> (p < x \<and> x < s_ptr h p)" using below 1(7) ptr by auto
  have b: "\<not> (s_ptr h p \<le> p \<and> (p < x \<or> x < s_ptr h p))"
  proof
    assume c: "s_ptr h p \<le> p \<and> (p < x \<or> x < s_ptr h p)"
    then have "s_ptr h p = base"
      using ptr R(6) by (metis nextn_cases [OF R(1,3), of p] not_le)
    then show False using c below 1(6,7) ptr by auto
  qed
  have "f x (s_ptr h p) h = Some r" using 1(2) a b by (auto split: if_splits)
  from 1(1) [OF this 1(3) _ 1(5,6,7)] show ?case using nextn_in [OF R(1,3)] ptr by simp
qed

subsection \<open>Changing the ring\<close>

lemma nextn_insert:
  assumes "finite S" "b \<in> S" "\<forall>q \<in> S. b \<le> q" "x \<notin> S" "pred_of S x r"
  shows "nextn (insert x S) r = x" "nextn (insert x S) x = nextn S r" "\<And>p. p \<in> S \<Longrightarrow> p \<noteq> r \<Longrightarrow> nextn (insert x S) p = nextn S p"
proof -
  note P = assms(5) [unfolded pred_of_def]
  have fin: "finite (insert x S)" using assms(1) by simp
  have bx: "b \<le> x" using P assms(3) by auto
  show "nextn (insert x S) r = x" using P by (intro nextn_eqI) (use assms(1) in auto)
  show "nextn (insert x S) x = nextn S r"
  proof (rule nextn_cases [of S r])
    assume n: "r < nextn S r" "nextn S r \<in> S" "\<forall>q \<in> S. r < q \<longrightarrow> nextn S r \<le> q"
    then have "x < nextn S r" using P assms(4) by (metis leD linorder_neqE_nat)
    then show ?thesis using n P by (intro nextn_eqI) (use assms(1) in auto)
  next
    assume l: "\<forall>q \<in> S. q \<le> r" "nextn S r = Min S"
    have "nextn (insert x S) x = b" using l P assms bx by (intro nextn_last) auto
    moreover have "nextn S r = b" using l assms by (intro nextn_last) auto
    ultimately show ?thesis by simp
  qed (use assms in auto)
  fix p assume p: "p \<in> S" "p \<noteq> r"
  show "nextn (insert x S) p = nextn S p"
  proof (rule nextn_cases [of S p])
    assume n: "p < nextn S p" "nextn S p \<in> S" "\<forall>q \<in> S. p < q \<longrightarrow> nextn S p \<le> q"
    have "nextn S p \<le> x" if "p < x"
    proof -
      have "p < r" using P p that by (metis le_neq_implies_less)
      then have "nextn S p \<le> r" using n(3) P by blast
      then show ?thesis using P by simp
    qed
    then show ?thesis using n by (intro nextn_eqI) (use assms(1) in auto)
  next
    assume l: "\<forall>q \<in> S. q \<le> p" "nextn S p = Min S"
    then have "x \<le> p" using P p by (metis le_neq_implies_less leD not_le_imp_less)
    then have "nextn (insert x S) p = b" using l assms bx by (intro nextn_last) auto
    moreover have "nextn S p = b" using l assms by (intro nextn_last) auto
    ultimately show ?thesis by simp
  qed (use assms in auto)
qed

lemma ring_insert:
  assumes "ring base h S" "x \<notin> S" "pred_of S x r"
  shows "ring base (set_ptr r x (set_ptr x (s_ptr h r) h)) (insert x S)"
proof -
  note R = ringD [OF assms(1)] and P = assms(3) [unfolded pred_of_def]
  have b: "\<forall>q \<in> S. base \<le> q" using R(4) by blast
  note n = nextn_insert [OF R(1,2) b assms(2,3)]
  have "base \<le> x" using P b by auto
  moreover have "x \<noteq> r" using P by auto
  ultimately show ?thesis using R n P assms(2) by (auto simp: ring_def set_ptr_def)
qed

lemma ring_remove:
  assumes "ring base h S" "y \<in> S" "y \<noteq> base" "r \<in> S" "s_ptr h r = y"
  shows "ring base (set_ptr r (s_ptr h y) h) (S - {y})" "r \<noteq> y" "pred_of (S - {y}) y r"
proof -
  note R = ringD [OF assms(1)]
  let ?T = "S - {y}"
  have ry: "r < y" "\<forall>q \<in> S. r < q \<longrightarrow> y \<le> q"
  proof -
    have "nextn S r = y" using R(5) assms(4,5) by simp
    then show "r < y" "\<forall>q \<in> S. r < q \<longrightarrow> y \<le> q"
      using nextn_cases [OF R(1,3), of r] assms(3) R(6) by metis+
  qed
  then show "r \<noteq> y" by simp
  show p: "pred_of ?T y r" using ry assms(4) by (auto simp: pred_of_def)
  have T: "finite ?T" "base \<in> ?T" "\<forall>q \<in> ?T. base \<le> q" "y \<notin> ?T" "insert y ?T = S" using R assms by auto
  note n = nextn_insert [OF T(1-4) p, unfolded T(5)]
  have "s_ptr h y = nextn ?T r" using R(5) [OF assms(2)] n(2) by simp
  moreover have "s_ptr h q = nextn ?T q" if "q \<in> ?T" "q \<noteq> r" for q using that R(5) n(3) by simp
  ultimately show "ring base (set_ptr r (s_ptr h y) h) ?T" using T by (simp add: ring_def set_ptr_def)
qed

lemma ring_cong: "s_ptr h = s_ptr h' \<Longrightarrow> ring base h S = ring base h' S"
  by (simp add: ring_def)

subsection \<open>Free memory\<close>

text \<open>The blocks lie in the arena, in order; \<open>area\<close> is the set of the bytes that are free.\<close>

definition blocks :: "nat \<Rightarrow> nat \<Rightarrow> uheap \<Rightarrow> nat set \<Rightarrow> bool" where
  "blocks base heap h S \<longleftrightarrow> s_size h base = 0 \<and> base < heap \<and>
     (\<forall>b \<in> S - {base}. heap \<le> b \<and> s_size h b \<noteq> 0 \<and> hend b h \<le> heap + 16384) \<and>
     (\<forall>b \<in> S. \<forall>c \<in> S. b < c \<longrightarrow> hend b h \<le> c)"

definition apart :: "uheap \<Rightarrow> nat set \<Rightarrow> bool" where
  "apart h S \<longleftrightarrow> (\<forall>b \<in> S. hend b h \<notin> S \<or> s_size h b = 0)"

definition area :: "uheap \<Rightarrow> nat set \<Rightarrow> nat set" where
  "area h S = (\<Union>b \<in> S. {b..<hend b h})"

definition heap_ok :: "nat \<Rightarrow> nat \<Rightarrow> uheap \<Rightarrow> nat set \<Rightarrow> bool" where
  "heap_ok base heap h S \<longleftrightarrow> ring base h S \<and> blocks base heap h S \<and> apart h S \<and> freep h \<in> S \<and> 0 < base"

lemma blocks_cong: "s_size h = s_size h' \<Longrightarrow> blocks base heap h S = blocks base heap h' S"
  "s_size h = s_size h' \<Longrightarrow> apart h S = apart h' S" "s_size h = s_size h' \<Longrightarrow> area h S = area h' S"
  by (simp_all add: blocks_def apart_def area_def hend_def)

lemma hend_less: "s_size h b \<noteq> 0 \<Longrightarrow> b < hend b h"
  by (simp add: hend_def unat_gt_0)

text \<open>Joining a block with the one that follows it directly.\<close>

lemma join_blocks:
  assumes "blocks base heap h S" "x \<in> S" "y \<in> S" "hend x h = y" "x \<noteq> base" "x < y"
  defines "h' \<equiv> set_size x (s_size h x + s_size h y) h"
  shows "blocks base heap h' (S - {y})" "area h' (S - {y}) = area h S" "hend x h' = hend y h"
proof -
  note B = assms(1) [unfolded blocks_def]
  have hx: "heap \<le> x" "base < heap" "s_size h x \<noteq> 0" using B assms(2,5) by blast+
  then have yb: "y \<noteq> base" using assms(6) by simp
  then have "hend y h \<le> heap + 16384" "s_size h y \<noteq> 0" using B assms(3) by blast+
  then have "unat (s_size h x) + unat (s_size h y) \<le> 4096" using assms(4) hx(1) by (simp add: hend_def)
  then have u: "unat (s_size h x + s_size h y) = unat (s_size h x) + unat (s_size h y)" by (simp add: unat_word_ariths)
  show hx': "hend x h' = hend y h" using assms(4) u by (simp add: h'_def hend_def set_size_def)
  have other: "hend b h' = hend b h" "s_size h' b = s_size h b" if "b \<noteq> x" for b using that by (simp_all add: h'_def hend_def set_size_def)
  have "s_size h' x \<noteq> 0" using u hx(3) by (simp add: h'_def set_size_def unat_eq_0 [symmetric])
  moreover have "hend x h' \<le> c" if "c \<in> S - {y}" "x < c" for c
  proof -
    have "y \<le> c" using B assms(2,4) that by auto
    then have "y < c" using that by auto
    then show ?thesis unfolding hx' using B assms(3) that by blast
  qed
  ultimately show "blocks base heap h' (S - {y})"
    using B other hx' hx assms(5) \<open>hend y h \<le> heap + 16384\<close> unfolding blocks_def by (metis Diff_iff)
  have "{x..<hend x h'} = {x..<hend x h} \<union> {y..<hend y h}" unfolding hx' using assms(4,6) hend_less [OF \<open>s_size h y \<noteq> 0\<close>] by auto
  moreover have "area h S = {x..<hend x h} \<union> {y..<hend y h} \<union> (\<Union>b \<in> S - {x, y}. {b..<hend b h})" using assms(2,3) by (auto simp: area_def)
  moreover have "area h' (S - {y}) = {x..<hend x h'} \<union> (\<Union>b \<in> S - {x, y}. {b..<hend b h})"
  proof -
    have "S - {y} = insert x (S - {x, y})" using assms(2,6) by auto
    then have "area h' (S - {y}) = {x..<hend x h'} \<union> (\<Union>b \<in> S - {x, y}. {b..<hend b h'})" by (simp only: area_def UN_insert)
    also have "(\<Union>b \<in> S - {x, y}. {b..<hend b h'}) = (\<Union>b \<in> S - {x, y}. {b..<hend b h})" using other(1) by (intro SUP_cong) auto
    finally show ?thesis .
  qed
  ultimately show "area h' (S - {y}) = area h S" by simp
qed

text \<open>Where a new block stands between its neighbours.\<close>

lemma fits_between:
  assumes ok: "heap_ok base heap h S" and x: "heap \<le> x" "s_size h x \<noteq> 0" and dis: "{x..<hend x h} \<inter> area h S = {}" and P: "pred_of S x r"
  shows "x \<notin> S" "hend r h \<le> x" "\<And>c. c \<in> S \<Longrightarrow> x < c \<Longrightarrow> hend x h \<le> c" "\<And>b. b \<in> S \<Longrightarrow> b < x \<Longrightarrow> hend b h \<le> x"
    "\<And>b. b \<in> S \<Longrightarrow> b < x \<Longrightarrow> hend b h = x \<Longrightarrow> b = r" "\<And>c. c \<in> S \<Longrightarrow> hend x h = c \<Longrightarrow> c = s_ptr h r" "base < x"
proof -
  note B = ok [unfolded heap_ok_def, THEN conjunct2, THEN conjunct1, unfolded blocks_def]
  note R = ringD [OF ok [unfolded heap_ok_def, THEN conjunct1]]
  note p = P [unfolded pred_of_def]
  have lt: "x < hend x h" using hend_less x(2) .
  have bx: "base < heap" using B by blast
  then show "base < x" using x(1) by simp
  show xS: "x \<notin> S"
  proof
    assume "x \<in> S"
    then have "x \<in> area h S" using lt by (auto simp: area_def)
    then show False using dis lt by auto
  qed
  show b: "hend b h \<le> x" if "b \<in> S" "b < x" for b
  proof (rule ccontr)
    assume "\<not> hend b h \<le> x"
    then have "x \<in> {b..<hend b h}" using that by simp
    then have "x \<in> area h S" unfolding area_def using that(1) by blast
    then show False using dis lt by auto
  qed
  then show "hend r h \<le> x" using p by blast
  show c: "hend x h \<le> c" if "c \<in> S" "x < c" for c
  proof (rule ccontr)
    assume "\<not> hend x h \<le> c"
    then have "c \<in> {x..<hend x h}" using that(2) by simp
    moreover have "c \<noteq> base" using that bx x(1) by auto
    then have "c \<in> area h S" using that B hend_less [of h c] by (auto simp: area_def)
    ultimately show False using dis by blast
  qed
  show "b = r" if "b \<in> S" "b < x" "hend b h = x" for b
  proof (rule ccontr)
    assume "b \<noteq> r"
    then have "b < r" using p that by force
    then have "hend b h \<le> r" using B p that by blast
    then show False using that p by simp
  qed
  show "c = s_ptr h r" if "c \<in> S" "hend x h = c" for c
  proof (rule nextn_cases [OF R(1,3), of r])
    assume n: "r < nextn S r" "nextn S r \<in> S" "\<forall>q \<in> S. r < q \<longrightarrow> nextn S r \<le> q"
    then have "x < nextn S r" using p xS by (metis leD linorder_neqE_nat)
    then have "hend x h \<le> nextn S r" using c n(2) by blast
    moreover have "nextn S r \<le> c" using n(3) that lt p by auto
    ultimately show ?thesis using that R(5) p by simp
  next
    assume "\<forall>q \<in> S. q \<le> r"
    then have "c \<le> r" using that by blast
    then show ?thesis using that lt p by simp
  qed
qed

lemma insert_block:
  assumes ok: "heap_ok base heap h S" and x: "heap \<le> x" "s_size h x \<noteq> 0" "hend x h \<le> heap + 16384"
    and dis: "{x..<hend x h} \<inter> area h S = {}" and P: "pred_of S x r"
  shows "ring base (set_ptr r x (set_ptr x (s_ptr h r) h)) (insert x S)" "blocks base heap h (insert x S)"
    "area h (insert x S) = area h S \<union> {x..<hend x h}"
proof -
  note f = fits_between [OF ok x(1,2) dis P]
  note B = ok [unfolded heap_ok_def, THEN conjunct2, THEN conjunct1, unfolded blocks_def]
  show "ring base (set_ptr r x (set_ptr x (s_ptr h r) h)) (insert x S)" using ring_insert [OF _ f(1) P] ok by (simp add: heap_ok_def)
  show "area h (insert x S) = area h S \<union> {x..<hend x h}" by (auto simp: area_def)
  show "blocks base heap h (insert x S)" unfolding blocks_def using B x f(3,4) by auto
qed

text \<open>\<open>ufree\<close> in two steps: the block is put behind \<open>r\<close> and joined with the next one, then \<open>r\<close> is joined with it.\<close>

lemma place_block:
  assumes ok: "heap_ok base heap h S" and x: "heap \<le> x" "s_size h x \<noteq> 0" "hend x h \<le> heap + 16384"
    and dis: "{x..<hend x h} \<inter> area h S = {}" and P: "pred_of S x r"
  defines "q \<equiv> s_ptr h r"
  defines "h1 \<equiv> (if hend x h = q then set_ptr x (s_ptr h q) (set_size x (s_size h x + s_size h q) h) else set_ptr x q h)"
  defines "S1 \<equiv> (if hend x h = q then insert x S - {q} else insert x S)"
  shows "ring base (set_ptr r x h1) S1 \<and> blocks base heap h1 S1 \<and> area h1 S1 = area h S \<union> {x..<hend x h} \<and> x \<in> S1 \<and> r \<in> S1 \<and>
    base \<in> S1 \<and> hend x h1 \<notin> S1 \<and> (\<forall>b \<in> S1. b \<noteq> x \<and> hend b h1 \<in> S1 \<and> s_size h1 b \<noteq> 0 \<longrightarrow> b = r \<and> hend r h = x) \<and>
    hend r h1 = hend r h \<and> s_size h1 r = s_size h r"
proof -
  note f = fits_between [OF ok x(1,2) dis P] and ins = insert_block [OF ok x dis P]
  note R = ringD [OF ok [unfolded heap_ok_def, THEN conjunct1]]
  have A: "apart h S" using ok by (simp add: heap_ok_def)
  have p: "r \<in> S" "r < x" using P by (auto simp: pred_of_def)
  have lt: "x < hend x h" using hend_less x(2) .
  have touch: "b = r \<and> hend r h = x" if "b \<in> S" "hend b h \<in> insert x S" "s_size h b \<noteq> 0" for b
  proof -
    have "hend b h = x" using A that by (auto simp: apart_def)
    then show ?thesis using f(5) that hend_less [OF that(3)] by auto
  qed
  show ?thesis
  proof (cases "hend x h = q")
    case False
    then have e: "S1 = insert x S" "h1 = set_ptr x q h" by (simp_all add: S1_def h1_def)
    have sz: "s_size h1 = s_size h" "hend b h1 = hend b h" for b by (simp_all add: e(2) set_ptr_def hend_def)
    have t: "hend x h \<notin> insert x S" using f(6) [of "hend x h"] False lt by (auto simp: q_def)
    have l: "\<forall>b \<in> insert x S. b \<noteq> x \<and> hend b h \<in> insert x S \<and> s_size h b \<noteq> 0 \<longrightarrow> b = r \<and> hend r h = x" using touch by blast
    have "ring base (set_ptr r x h1) (insert x S)" using ins(1) by (simp only: e(2) q_def)
    then show ?thesis
      unfolding e(1) sz blocks_cong(1) [OF sz(1)] blocks_cong(3) [OF sz(1)] using ins(2,3) p(1) R(2) t l by blast
  next
    case True
    let ?hA = "set_ptr r x (set_ptr x q h)"
    let ?h = "set_size x (s_size h x + s_size h q) h"
    have "q \<in> S" using R(5) [OF p(1)] nextn_in [OF R(1,3)] unfolding q_def by simp
    moreover have "x < q" using True lt by simp
    ultimately have q: "q \<in> S" "x < q" "q \<noteq> base" "q \<noteq> r" using f(7) p(2) by auto
    from True have e: "S1 = insert x S - {q}" "h1 = set_ptr x (s_ptr h q) ?h" by (simp_all add: S1_def h1_def)
    have sz: "s_size h1 = s_size ?h" "hend b h1 = hend b ?h" for b by (simp_all add: e(2) set_ptr_def hend_def)
    have off: "s_size ?h b = s_size h b" "hend b ?h = hend b h" if "b \<noteq> x" for b using that by (simp_all add: set_size_def hend_def)
    have "ring base ?hA (insert x S)" using ins(1) by (simp only: q_def)
    from ring_remove(1) [OF this, of q x] q p
    have "ring base (set_ptr x (s_ptr h q) ?hA) (insert x S - {q})" by (simp add: set_ptr_def)
    moreover have "s_ptr (set_ptr x (s_ptr h q) ?hA) = s_ptr (set_ptr r x h1)" using p(2) by (auto simp: e(2) set_ptr_def set_size_def)
    ultimately have rg: "ring base (set_ptr r x h1) (insert x S - {q})" using ring_cong by blast
    have j: "blocks base heap ?h (insert x S - {q})" "area ?h (insert x S - {q}) = area h S \<union> {x..<hend x h}" "hend x ?h = hend q h"
      using join_blocks [OF ins(2), of x q, OF _ _ True] q f(7) unfolding ins(3) by auto
    have "s_size h q \<noteq> 0" using ok q by (auto simp: heap_ok_def blocks_def)
    then have t: "hend x ?h \<notin> insert x S - {q}" unfolding j(3) using touch [OF q(1)] q(4) by blast
    have l: "\<forall>b \<in> insert x S - {q}. b \<noteq> x \<and> hend b ?h \<in> insert x S - {q} \<and> s_size ?h b \<noteq> 0 \<longrightarrow> b = r \<and> hend r h = x"
      using touch off by (metis Diff_iff insert_iff)
    have m: "x \<in> insert x S - {q}" "r \<in> insert x S - {q}" "base \<in> insert x S - {q}" using q p R(2) by auto
    have "r \<noteq> x" using p(2) by simp
    from off [OF this] show ?thesis
      unfolding e(1) sz blocks_cong(1) [OF sz(1)] blocks_cong(3) [OF sz(1)] using rg j(1,2) t l m by blast
  qed
qed

lemma ufree_adds:
  assumes ok: "heap_ok base heap h S" and x: "heap \<le> x" "s_size h x \<noteq> 0" "hend x h \<le> heap + 16384" and dis: "{x..<hend x h} \<inter> area h S = {}"
  shows "\<exists>h' S'. ufree (x + 4) h = Some h' \<and> heap_ok base heap h' S' \<and> area h' S' = area h S \<union> {x..<hend x h}"
proof -
  have rg: "ring base h S" "freep h \<in> S" "0 < base" "base < heap" "s_size h base = 0" using ok by (auto simp: heap_ok_def blocks_def)
  have "x \<notin> S"
  proof
    assume "x \<in> S"
    then have "x \<in> area h S" "x \<in> {x..<hend x h}" using hend_less [OF x(2)] by (auto simp: area_def)
    then show False using dis by blast
  qed
  from free_pos_pred [OF rg(1) this rg(2)] x(1) rg(4) obtain r where r: "free_pos x (freep h) h = Some r" "pred_of S x r" by auto
  define q where "q = s_ptr h r"
  define h1 where "h1 = (if hend x h = q then set_ptr x (s_ptr h q) (set_size x (s_size h x + s_size h q) h) else set_ptr x q h)"
  define S1 where "S1 = (if hend x h = q then insert x S - {q} else insert x S)"
  note pl = place_block [OF ok x dis r(2), folded q_def, folded h1_def S1_def]
  have rx: "r < x" "r \<noteq> x" using r(2) by (auto simp: pred_of_def)
  have u: "ufree (x + 4) h = Some ((if hend r h1 = x then set_ptr r (s_ptr h1 x) (set_size r (s_size h1 r + s_size h1 x) h1) else set_ptr r x h1)\<lparr>freep := r\<rparr>)"
    unfolding ufree_def Let_def add_diff_cancel_right' r(1) Option.bind.bind_lunit
    unfolding q_def [symmetric] unfolding h1_def [symmetric] ..
  show ?thesis
  proof (cases "hend r h1 = x")
    case False
    let ?h = "(set_ptr r x h1)\<lparr>freep := r\<rparr>"
    have sz: "s_size ?h = s_size h1" by (simp add: set_ptr_def)
    have "apart h1 S1" using pl False unfolding apart_def by metis
    moreover have "ring base ?h S1 = ring base (set_ptr r x h1) S1" by (rule ring_cong) simp
    ultimately have "heap_ok base heap ?h S1" unfolding heap_ok_def blocks_cong(1,2) [OF sz] using pl rg(3) by simp
    moreover have "area ?h S1 = area h S \<union> {x..<hend x h}" unfolding blocks_cong(3) [OF sz] using pl by blast
    ultimately show ?thesis using u False by auto
  next
    case True
    let ?z = "set_size r (s_size h1 r + s_size h1 x) h1"
    let ?h = "(set_ptr r (s_ptr h1 x) ?z)\<lparr>freep := r\<rparr>"
    have sz: "s_size ?h = s_size ?z" by (simp add: set_ptr_def)
    have "r \<noteq> base"
    proof
      assume "r = base"
      then have "hend r h1 = base" using pl rg(5) by (simp add: hend_def)
      then show False using True x(1) rg(4) by simp
    qed
    note j = join_blocks [of base heap h1 S1 r x, OF _ _ _ True this rx(1)]
    have "ring base (set_ptr r (s_ptr (set_ptr r x h1) x) (set_ptr r x h1)) (S1 - {x})"
      using pl x(1) rg(4) by (intro ring_remove(1)) (auto simp: set_ptr_def)
    moreover have "s_ptr (set_ptr r (s_ptr (set_ptr r x h1) x) (set_ptr r x h1)) = s_ptr ?h" using rx by (auto simp: set_ptr_def set_size_def)
    ultimately have "ring base ?h (S1 - {x})" using ring_cong by blast
    moreover have "apart ?z (S1 - {x})"
      unfolding apart_def
    proof
      fix b assume b: "b \<in> S1 - {x}"
      show "hend b ?z \<notin> S1 - {x} \<or> s_size ?z b = 0"
      proof (cases "b = r")
        case True
        then show ?thesis using j(3) pl by simp
      next
        case False
        then have "hend b ?z = hend b h1" "s_size ?z b = s_size h1 b" by (simp_all add: hend_def set_size_def)
        then show ?thesis using pl b False by auto
      qed
    qed
    ultimately have "heap_ok base heap ?h (S1 - {x})"
      unfolding heap_ok_def blocks_cong(1,2) [OF sz] using pl j(1) rg(3) rx(2) by simp
    moreover have "area ?h (S1 - {x}) = area h S \<union> {x..<hend x h}" unfolding blocks_cong(3) [OF sz] using pl j(2) by simp
    ultimately show ?thesis using u True by auto
  qed
qed

subsection \<open>Taking a block\<close>

lemma area_split: "b \<in> S \<Longrightarrow> area h S = {b..<hend b h} \<union> (\<Union>c \<in> S - {b}. {c..<hend c h})"
  unfolding area_def by blast

lemma blocks_disjoint:
  assumes "blocks base heap h S" "b \<in> S"
  shows "(\<Union>c \<in> S - {b}. {c..<hend c h}) \<inter> {b..<hend b h} = {}"
proof -
  have "{c..<hend c h} \<inter> {b..<hend b h} = {}" if "c \<in> S - {b}" for c
  proof (cases "c < b")
    case True
    then have "hend c h \<le> b" using assms that by (auto simp: blocks_def)
    then show ?thesis by auto
  next
    case False
    then have "hend b h \<le> c" using assms that by (auto simp: blocks_def)
    then show ?thesis by auto
  qed
  then show ?thesis by blast
qed

lemma serve_takes:
  assumes ok: "heap_ok base heap h S" and b: "b \<in> S" "pv \<in> S" "s_ptr h pv = b" and n: "0 < n" "n \<le> s_size h b"
  shows "\<exists>a h' S'. serve n pv b h = (a + 4, h') \<and> heap_ok base heap h' S' \<and> s_size h' a = n \<and> {a..<hend a h'} \<subseteq> area h S \<and>
    area h' S' = area h S - {a..<hend a h'}"
proof -
  note H = ok [unfolded heap_ok_def] and B = ok [unfolded heap_ok_def, THEN conjunct2, THEN conjunct1]
  have nb: "b \<noteq> base" using B n by (auto simp: blocks_def)
  note split = area_split [OF b(1), of h]
  note dj = blocks_disjoint [OF B b(1)]
  show ?thesis
  proof (cases "s_size h b = n")
    case True
    let ?h = "(set_ptr pv (s_ptr h b) h)\<lparr>freep := pv\<rparr>"
    have sz: "s_size ?h = s_size h" by (simp add: set_ptr_def)
    note rm = ring_remove [OF H [THEN conjunct1] b(1) nb b(2,3)]
    have "ring base ?h (S - {b})" using rm(1) ring_cong [of ?h "set_ptr pv (s_ptr h b) h"] by simp
    moreover have "blocks base heap h (S - {b})" "apart h (S - {b})" using H by (auto simp: blocks_def apart_def)
    ultimately have "heap_ok base heap ?h (S - {b})" unfolding heap_ok_def blocks_cong(1,2) [OF sz] using H b(2) rm(2) by simp
    moreover have "hend b ?h = hend b h" by (simp add: hend_def set_ptr_def)
    moreover have "area ?h (S - {b}) = area h S - {b..<hend b h}" unfolding blocks_cong(3) [OF sz] split using dj by (auto simp: area_def)
    moreover have "serve n pv b h = (b + 4, ?h)" using True by (simp add: serve_def)
    ultimately show ?thesis using True split sz by auto
  next
    case False
    define a where "a = b + 4 * unat (s_size h b - n)"
    let ?h = "(set_size a n (set_size b (s_size h b - n) h))\<lparr>freep := pv\<rparr>"
    have "unat n \<noteq> unat (s_size h b)" using False by (metis word_unat_eq_iff)
    moreover have "unat n \<le> unat (s_size h b)" using n(2) by (simp only: word_le_nat_alt)
    ultimately have lt: "unat n < unat (s_size h b)" "0 < unat n" using n(1) by (simp_all add: word_less_nat_alt)
    then have sub: "unat (s_size h b - n) = unat (s_size h b) - unat n" by (simp add: unat_sub word_le_nat_alt)
    then have a: "b < a" "a < hend b h" "a + 4 * unat n = hend b h" using lt by (simp_all add: a_def hend_def)
    have aS: "a \<notin> S" using B b(1) a(1,2) unfolding blocks_def by (metis leD)
    have "b \<noteq> a" using a(1) by simp
    then have hb: "hend b ?h = a" "hend a ?h = hend b h" "s_size ?h b \<noteq> 0"
      using a(3) sub lt by (simp_all add: hend_def set_size_def a_def [symmetric] unat_eq_0 [symmetric])
    have off: "hend c ?h = hend c h" "s_size ?h c = s_size h c" if "c \<noteq> b" "c \<noteq> a" for c using that by (simp_all add: hend_def set_size_def)
    have offS: "hend c ?h = hend c h" "s_size ?h c = s_size h c" if "c \<in> S" "c \<noteq> b" for c using off [of c] that aS by blast+
    have "ring base ?h S" using H ring_cong [of ?h h] by (simp add: set_size_def)
    moreover have "blocks base heap ?h S"
    proof -
      have "hend c ?h \<le> hend c h" if "c \<in> S" for c using hb(1) a(2) offS(1) [of c] that by (cases "c = b") auto
      moreover have "s_size ?h c \<noteq> 0" if "c \<in> S - {base}" for c using hb(3) offS(2) [of c] that B by (cases "c = b") (auto simp: blocks_def)
      moreover have "s_size ?h base = 0" using offS(2) [of base] nb B H ringD(2) by (metis blocks_def)
      ultimately show ?thesis using B unfolding blocks_def by (meson DiffD1 le_trans)
    qed
    moreover have "apart ?h S" using H hb(1) aS offS unfolding apart_def by metis
    ultimately have "heap_ok base heap ?h S" using H b(2) by (simp add: heap_ok_def)
    moreover have "area ?h S = area h S - {a..<hend a ?h}"
    proof -
      have "(\<Union>c \<in> S - {b}. {c..<hend c ?h}) = (\<Union>c \<in> S - {b}. {c..<hend c h})" using offS(1) by (intro SUP_cong) auto
      then have "area ?h S = {b..<a} \<union> (\<Union>c \<in> S - {b}. {c..<hend c h})" by (simp only: area_split [OF b(1)] hb(1))
      moreover have "{b..<hend b h} = {b..<a} \<union> {a..<hend b h}" using a by auto
      ultimately show ?thesis unfolding split hb(2) using dj by auto
    qed
    moreover have "serve n pv b h = (a + 4, ?h)" using False by (simp add: serve_def Let_def hend_def set_size_def a_def)
    moreover have "{a..<hend a ?h} \<subseteq> area h S" unfolding hb(2) split using a by auto
    moreover have "s_size ?h a = n" by (simp add: set_size_def)
    ultimately show ?thesis by blast
  qed
qed

subsection \<open>The search\<close>

lemma malloc_loop_finds:
  assumes ok: "heap_ok base heap h S" and "p \<in> S" "pv \<in> S" "s_ptr h pv = p" "\<exists>b \<in> arc S p (freep h). n \<le> s_size h b"
  shows "\<exists>b pv'. b \<in> S \<and> pv' \<in> S \<and> s_ptr h pv' = b \<and> n \<le> s_size h b \<and> malloc_loop heap n pv p h = Some (serve n pv' b h)"
  using assms(2-5)
proof (induction "card (arc S p (freep h))" arbitrary: p pv rule: less_induct)
  case less
  have R: "finite S" "freep h \<in> S" "s_ptr h p = nextn S p" "nextn S p \<in> S"
    using ok less.prems(1) ringD [of base h S] nextn_in [of S p] by (auto simp: heap_ok_def)
  show ?case
  proof (cases "n \<le> s_size h p")
    case True
    then show ?thesis using less.prems by (subst malloc_loop.simps) auto
  next
    case False
    then have "p \<noteq> freep h" using less.prems(4) by (auto simp: arc_def)
    note a = arc_next [OF R(1) less.prems(1) R(2) this]
    have "finite (arc S p (freep h))" using R(1) by (simp add: arc_def)
    then have "card (arc S (s_ptr h p) (freep h)) < card (arc S p (freep h))"
      unfolding R(3) a using arc_refl [OF less.prems(1)] by (intro card_Diff1_less) auto
    moreover have "\<exists>b \<in> arc S (s_ptr h p) (freep h). n \<le> s_size h b" unfolding R(3) a using less.prems(4) False by auto
    moreover have "malloc_loop heap n pv p h = malloc_loop heap n p (s_ptr h p) h"
      using False \<open>p \<noteq> freep h\<close> by (subst malloc_loop.simps) simp
    ultimately show ?thesis using less.hyps [of "s_ptr h p" p] less.prems(1) R(3,4) by simp
  qed
qed

lemma malloc_loop_fails:
  assumes ok: "heap_ok base heap h S" and "p \<in> S" "\<forall>b \<in> S. \<not> n \<le> s_size h b"
  shows "malloc_loop heap n pv p h = do { h \<leftarrow> morecore heap h; malloc_loop heap n (freep h) (s_ptr h (freep h)) h }"
  using assms(2)
proof (induction "card (arc S p (freep h))" arbitrary: p pv rule: less_induct)
  case less
  have R: "finite S" "freep h \<in> S" "s_ptr h p = nextn S p" "nextn S p \<in> S"
    using ok less.prems(1) ringD [of base h S] nextn_in [of S p] by (auto simp: heap_ok_def)
  have no: "\<not> n \<le> s_size h p" using assms(3) less.prems by blast
  show ?case
  proof (cases "p = freep h")
    case True
    then show ?thesis using no by (subst malloc_loop.simps) simp
  next
    case False
    note a = arc_next [OF R(1) less.prems(1) R(2) this]
    have "finite (arc S p (freep h))" using R(1) by (simp add: arc_def)
    then have "card (arc S (s_ptr h p) (freep h)) < card (arc S p (freep h))"
      unfolding R(3) a using arc_refl [OF less.prems(1)] by (intro card_Diff1_less) auto
    moreover have "malloc_loop heap n pv p h = malloc_loop heap n p (s_ptr h p) h"
      using False no by (subst malloc_loop.simps) simp
    ultimately show ?thesis using less.hyps [of "s_ptr h p" p] R(3,4) by simp
  qed
qed

abbreviation nunits_of :: "u16 \<Rightarrow> u16" where
  "nunits_of nbytes \<equiv> (nbytes + 4 - 1) div 4 + 1"

lemma nunits_val: "unat nbytes \<le> 65532 \<Longrightarrow> unat (nunits_of nbytes) = (unat nbytes + 3) div 4 + 1"
proof -
  assume a: "unat nbytes \<le> 65532"
  have "unat (nbytes + 4 - 1) = unat nbytes + 3" using a by (simp add: unat_word_ariths)
  then have "unat ((nbytes + 4 - 1) div 4) = (unat nbytes + 3) div 4" by (simp add: unat_div)
  then show ?thesis using a by (simp add: unat_word_ariths)
qed

lemma umalloc_running: "0 < freep h \<Longrightarrow> umalloc base heap nbytes h = malloc_loop heap (nunits_of nbytes) (freep h) (s_ptr h (freep h)) h"
  by (simp add: umalloc_def Let_def)

text \<open>C27: the allocator of the user library: if a free block is large enough, \<open>malloc\<close> ends and returns the address behind
  the header of a block that was free, holds at least the bytes asked for, and is free no longer, while the rest of the free memory stays
  free and the list stays in order.  Giving the block back makes the free memory what it was, with
  neighbouring blocks joined.\<close>

theorem umalloc_serves:
  assumes "heap_ok base heap h S" "b \<in> S" "nunits_of nbytes \<le> s_size h b" "unat nbytes \<le> 65532"
  shows "\<exists>a h' S'. umalloc base heap nbytes h = Some (a + 4, h') \<and> heap_ok base heap h' S' \<and> {a + 4..<a + 4 + unat nbytes} \<subseteq> {a..<hend a h'} \<and>
    {a..<hend a h'} \<subseteq> area h S \<and> area h' S' = area h S - {a..<hend a h'} \<and>
    (\<exists>h'' S''. ufree (a + 4) h' = Some h'' \<and> heap_ok base heap h'' S'' \<and> area h'' S'' = area h S)"
proof -
  let ?n = "nunits_of nbytes"
  have R: "ring base h S" "freep h \<in> S" "0 < freep h" "finite S" using assms(1) by (auto simp: heap_ok_def ring_def)
  then have p: "s_ptr h (freep h) = nextn S (freep h)" "s_ptr h (freep h) \<in> S" using ringD [OF R(1)] nextn_in by auto
  have "\<exists>c \<in> arc S (s_ptr h (freep h)) (freep h). ?n \<le> s_size h c" using assms(2,3) unfolding p(1) arc_all [OF R(4,2)] by blast
  from malloc_loop_finds [OF assms(1) p(2) R(2) refl this] obtain c pv where
    c: "c \<in> S" "pv \<in> S" "s_ptr h pv = c" "?n \<le> s_size h c" "malloc_loop heap ?n (freep h) (s_ptr h (freep h)) h = Some (serve ?n pv c h)" by blast
  have n: "unat ?n = (unat nbytes + 3) div 4 + 1" using nunits_val assms(4) .
  then have "0 < ?n" by (simp add: word_less_nat_alt)
  from serve_takes [OF assms(1) c(1-3) this c(4)] obtain a h' S' where
    t: "serve ?n pv c h = (a + 4, h')" "heap_ok base heap h' S'" "s_size h' a = ?n" "{a..<hend a h'} \<subseteq> area h S" "area h' S' = area h S - {a..<hend a h'}" by blast
  have e: "hend a h' = a + 4 + 4 * ((unat nbytes + 3) div 4)" using t(3) n by (simp add: hend_def)
  have "unat nbytes \<le> 4 * ((unat nbytes + 3) div 4)" by linarith
  then have sz: "{a + 4..<a + 4 + unat nbytes} \<subseteq> {a..<hend a h'}" unfolding e by auto
  have in_heap: "area h S \<subseteq> {heap..<heap + 16384}"
  proof -
    have "{d..<hend d h} \<subseteq> {heap..<heap + 16384}" if "d \<in> S" for d
      using assms(1) that by (cases "d = base") (auto simp: heap_ok_def blocks_def hend_def)
    then show ?thesis unfolding area_def by blast
  qed
  have "a \<in> {a..<hend a h'}" "hend a h' - 1 \<in> {a..<hend a h'}" unfolding e by auto
  then have "heap \<le> a" "hend a h' \<le> heap + 16384" using t(4) in_heap by fastforce+
  moreover have "s_size h' a \<noteq> 0" using t(3) \<open>0 < ?n\<close> by auto
  moreover have "{a..<hend a h'} \<inter> area h' S' = {}" using t(5) by blast
  ultimately obtain h'' S'' where "ufree (a + 4) h' = Some h''" "heap_ok base heap h'' S''" "area h'' S'' = area h' S' \<union> {a..<hend a h'}"
    using ufree_adds [OF t(2)] by blast
  moreover have "area h' S' \<union> {a..<hend a h'} = area h S" using t(4,5) by blast
  ultimately show ?thesis using umalloc_running [OF R(3)] c(5) t sz by auto
qed

subsection \<open>Exhaustion\<close>

text \<open>The static array is put on the list as a whole, behind the first node.\<close>

lemma morecore_adds:
  assumes ok: "heap_ok base heap h S" and "heap \<notin> S"
  shows "\<exists>h'. morecore heap h = Some h' \<and> freep h' = base \<and> s_ptr h' base = heap \<and> s_size h' heap = 4096"
proof -
  let ?h = "set_size heap 4096 h"
  have rg: "ring base ?h S" "freep ?h \<in> S" "base < heap" "s_size h base = 0"
    using ok ring_cong [of ?h h] by (auto simp: heap_ok_def blocks_def set_size_def)
  note R = ringD [OF rg(1)]
  from free_pos_pred [OF rg(1) assms(2) rg(2,3)] obtain r where r: "free_pos heap (freep ?h) ?h = Some r" "pred_of S heap r" by blast
  have "\<forall>b \<in> S - {base}. heap \<le> b" using ok by (auto simp: heap_ok_def blocks_def)
  then have "r = base" using r(2) by (auto simp: pred_of_def) (metis DiffI insert_iff leD empty_iff)
  let ?q = "s_ptr ?h base"
  have "hend heap ?h \<noteq> ?q"
  proof
    assume e: "hend heap ?h = ?q"
    have "?q \<in> S" using R(5) [OF R(2)] nextn_in [OF R(1,3)] by simp
    moreover have "hend heap ?h = heap + 16384" by (simp add: hend_def set_size_def)
    ultimately have "heap + 16384 \<in> S" "heap + 16384 \<noteq> base" using e rg(3) by auto
    then have "hend (heap + 16384) h \<le> heap + 16384" "s_size h (heap + 16384) \<noteq> 0" using ok by (auto simp: heap_ok_def blocks_def)
    then show False using hend_less by (metis leD)
  qed
  moreover have "hend base (set_ptr heap ?q ?h) \<noteq> heap" using rg(3,4) by (simp add: hend_def set_ptr_def set_size_def)
  ultimately have "ufree (heap + 4) ?h = Some ((set_ptr base heap (set_ptr heap ?q ?h))\<lparr>freep := base\<rparr>)"
    unfolding ufree_def Let_def add_diff_cancel_right' r(1) Option.bind.bind_lunit \<open>r = base\<close> by simp
  then show ?thesis using rg(3) by (simp add: morecore_def set_ptr_def set_size_def)
qed

lemma morecore_hangs:
  assumes ok: "heap_ok base heap h S" and "heap \<in> S"
  shows "morecore heap h = None"
proof -
  let ?h = "set_size heap 4096 h"
  have rg: "ring base ?h S" "freep ?h \<in> S" "base < heap" using ok ring_cong [of ?h h] by (auto simp: heap_ok_def blocks_def set_size_def)
  note R = ringD [OF rg(1)]
  have "nextn S base = heap" using assms(2) rg(3) ok by (intro nextn_eqI [OF R(1)]) (auto simp: heap_ok_def blocks_def)
  then have "free_pos heap (freep ?h) ?h = None"
    using free_pos_listed [of heap "freep ?h" ?h _ base S] rg assms(2) by (cases "free_pos heap (freep ?h) ?h") auto
  then show ?thesis by (simp add: morecore_def ufree_def Let_def)
qed

lemma serve_top:
  assumes "s_size h heap = 4096" "n \<le> 4096"
  shows "fst (serve n pv heap h) = heap + 4 * (4096 - unat n) + 4"
proof (cases "n = 4096")
  case False
  have "unat (4096 - n) = unat (4096 :: u16) - unat n" using assms(2) by (rule unat_sub)
  then show ?thesis using False assms(1) by (simp add: serve_def Let_def hend_def set_size_def)
qed (use assms in \<open>simp add: serve_def\<close>)

text \<open>when no free block is large enough, the allocator of the user library does not report it.  If the start of the
  arena is free, \<open>malloc\<close> never returns: it puts the whole arena on the list for a second time, and the search for its place goes round the list
  forever.  Otherwise it returns the end of the arena, whether that is in use or not.\<close>

theorem umalloc_exhausted:
  assumes "heap_ok base heap h S" "\<forall>b \<in> S. \<not> nunits_of nbytes \<le> s_size h b" "nunits_of nbytes \<le> 4096"
  shows "(heap \<in> S \<longrightarrow> umalloc base heap nbytes h = None) \<and>
    (heap \<notin> S \<longrightarrow> (\<exists>h'. umalloc base heap nbytes h = Some (heap + 4 * (4096 - unat (nunits_of nbytes)) + 4, h')))"
proof -
  let ?n = "nunits_of nbytes"
  have R: "ring base h S" "freep h \<in> S" "0 < freep h" using assms(1) by (auto simp: heap_ok_def ring_def)
  then have p: "s_ptr h (freep h) \<in> S" using ringD [OF R(1)] nextn_in by auto
  have m: "umalloc base heap nbytes h = do { h \<leftarrow> morecore heap h; malloc_loop heap ?n (freep h) (s_ptr h (freep h)) h }"
    unfolding umalloc_running [OF R(3)] by (rule malloc_loop_fails [OF assms(1) p assms(2)])
  show ?thesis
  proof (intro conjI impI)
    assume "heap \<in> S"
    then show "umalloc base heap nbytes h = None" unfolding m using morecore_hangs [OF assms(1)] by simp
  next
    assume "heap \<notin> S"
    from morecore_adds [OF assms(1) this] obtain h' where
      h': "morecore heap h = Some h'" "freep h' = base" "s_ptr h' base = heap" "s_size h' heap = 4096" by blast
    have "umalloc base heap nbytes h = Some (serve ?n base heap h')"
      unfolding m h'(1) Option.bind.bind_lunit h'(2,3) using assms(3) h'(4) by (subst malloc_loop.simps) simp
    moreover have "fst (serve ?n base heap h') = heap + 4 * (4096 - unat ?n) + 4" by (rule serve_top [OF h'(4) assms(3)])
    ultimately show "\<exists>h'. umalloc base heap nbytes h = Some (heap + 4 * (4096 - unat ?n) + 4, h')" by (metis prod.collapse)
  qed
qed

subsection \<open>Examples\<close>

text \<open>The list before the first call, and with one block of 100 units at the start of the arena.\<close>

definition ex_heap :: uheap where
  "ex_heap = \<lparr>s_ptr = (\<lambda>_. 100), s_size = (\<lambda>_. 0), freep = 100\<rparr>"

definition ex_heap2 :: uheap where
  "ex_heap2 = \<lparr>s_ptr = (\<lambda>p. if p = 100 then 1000 else 100), s_size = (\<lambda>p. if p = 1000 then 100 else 0), freep = 100\<rparr>"

lemma ex_heap_ok: "heap_ok 100 1000 ex_heap {100}"
proof -
  have "nextn {100} 100 = 100" by (simp add: nextn_def)
  then show ?thesis by (simp add: heap_ok_def ring_def blocks_def apart_def ex_heap_def hend_def)
qed

lemma ex_heap2_ok: "heap_ok 100 1000 ex_heap2 {100, 1000}"
proof -
  have "nextn {100, 1000} 100 = 1000" "nextn {100, 1000} 1000 = 100" by (auto simp: nextn_def Min_insert intro!: Min_eqI)
  then show ?thesis by (simp add: heap_ok_def ring_def blocks_def apart_def ex_heap2_def hend_def)
qed

theorem umalloc_serves_witness:
  "\<exists>a h'. umalloc 100 1000 50 ex_heap2 = Some (a + 4, h') \<and> {a..<hend a h'} \<subseteq> area ex_heap2 {100, 1000}"
proof -
  have "nunits_of 50 \<le> s_size ex_heap2 1000" by (simp add: ex_heap2_def)
  from umalloc_serves [OF ex_heap2_ok _ this] show ?thesis by auto
qed

theorem umalloc_exhausted_witness:
  "umalloc 100 1000 4000 ex_heap2 = None \<and> (\<exists>h'. umalloc 100 1000 4000 ex_heap = Some (13384, h'))"
proof -
  have n: "nunits_of 4000 = 1001" by simp
  show ?thesis
    using umalloc_exhausted [OF ex_heap2_ok, of 4000] umalloc_exhausted [OF ex_heap_ok, of 4000] unfolding n
    by (simp add: ex_heap_def ex_heap2_def)
qed

end
