(* ===== verification/Ulib.thy ===== *)
theory Ulib
  imports Pc "HOL-Library.List_Lexorder"
begin

text \<open>
  The string and memory functions of \<open>usr/ulib.c\<close>.  The memory of a program is a function from addresses of 16 bits to
  bytes, so that pointers wrap as on the machine; a function that stores returns the new memory.  A loop that runs until
  it meets a NUL is a partial function: without one it goes through the memory forever.
\<close>

type_synonym umem = "u16 \<Rightarrow> u8"

subsection \<open>Strings\<close>

partial_function (option) strcpy_loop :: "u16 \<Rightarrow> u16 \<Rightarrow> umem \<Rightarrow> umem option" where
  "strcpy_loop s t m =
     (let c = m t; m = m(s := c) in if c \<noteq> 0 then strcpy_loop (s + 1) (t + 1) m else Some m)"

definition strcpy :: "u16 \<Rightarrow> u16 \<Rightarrow> umem \<Rightarrow> (u16 \<times> umem) option" where
  "strcpy s t m = map_option (Pair s) (strcpy_loop s t m)"

partial_function (option) strcmp :: "u16 \<Rightarrow> u16 \<Rightarrow> umem \<Rightarrow> int option" where
  "strcmp p q m = (if m p \<noteq> 0 \<and> m p = m q then strcmp (p + 1) (q + 1) m else Some (uint (m p) - uint (m q)))"

partial_function (option) strlen_from :: "u16 \<Rightarrow> u16 \<Rightarrow> umem \<Rightarrow> u16 option" where
  "strlen_from n s m = (if m (s + n) \<noteq> 0 then strlen_from (n + 1) s m else Some n)"

definition strlen :: "u16 \<Rightarrow> umem \<Rightarrow> u16 option" where
  "strlen s m = strlen_from 0 s m"

text \<open>\<open>while (*s1++) ; --s1;\<close>\<close>

partial_function (option) strend :: "u16 \<Rightarrow> umem \<Rightarrow> u16 option" where
  "strend s m = (if m s \<noteq> 0 then strend (s + 1) m else Some s)"

definition strcat :: "u16 \<Rightarrow> u16 \<Rightarrow> umem \<Rightarrow> (u16 \<times> umem) option" where
  "strcat s1 s2 m = do { e \<leftarrow> strend s1 m; m \<leftarrow> strcpy_loop e s2 m; Some (s1, m) }"

fun strncmp_loop :: "nat \<Rightarrow> u16 \<Rightarrow> u16 \<Rightarrow> umem \<Rightarrow> int" where
  "strncmp_loop 0 p q m = 0"
| "strncmp_loop (Suc n) p q m =
     (if m p \<noteq> 0 \<and> m p = m q then strncmp_loop n (p + 1) (q + 1) m else uint (m p) - uint (m q))"

definition strncmp :: "u16 \<Rightarrow> u16 \<Rightarrow> u16 \<Rightarrow> umem \<Rightarrow> int" where
  "strncmp p q n m = strncmp_loop (unat n) p q m"

text \<open>\<open>while(n-- > 0 && (*s++ = *t++) != 0); while(n-- > 0) *s++ = 0;\<close>  The two loops are one recursion each on the value of \<open>n\<close>
  while it is positive; \<open>n\<close> is not so small that counting it down twice overflows.\<close>

fun strncpy_pad :: "nat \<Rightarrow> u16 \<Rightarrow> umem \<Rightarrow> umem" where
  "strncpy_pad 0 s m = m"
| "strncpy_pad (Suc n) s m = strncpy_pad n (s + 1) (m(s := 0))"

fun strncpy_copy :: "nat \<Rightarrow> u16 \<Rightarrow> u16 \<Rightarrow> umem \<Rightarrow> umem" where
  "strncpy_copy 0 s t m = m"
| "strncpy_copy (Suc n) s t m =
     (let c = m t; m = m(s := c) in if c \<noteq> 0 then strncpy_copy n (s + 1) (t + 1) m else strncpy_pad n (s + 1) m)"

definition strncpy :: "u16 \<Rightarrow> u16 \<Rightarrow> u16 \<Rightarrow> umem \<Rightarrow> (u16 \<times> umem) option" where
  "strncpy s t n m = (if n = 0x8000 \<or> n = 0x8001 then None else Some (s, strncpy_copy (nat (sint n)) s t m))"

text \<open>\<open>while(--n > 0 && (*s++ = *t++) != 0); *s = 0;\<close>\<close>

fun safestrcpy_loop :: "nat \<Rightarrow> u16 \<Rightarrow> u16 \<Rightarrow> umem \<Rightarrow> umem" where
  "safestrcpy_loop 0 s t m = m(s := 0)"
| "safestrcpy_loop (Suc n) s t m =
     (let c = m t; m = m(s := c) in if c \<noteq> 0 then safestrcpy_loop n (s + 1) (t + 1) m else m(s + 1 := 0))"

definition safestrcpy :: "u16 \<Rightarrow> u16 \<Rightarrow> u16 \<Rightarrow> umem \<Rightarrow> u16 \<times> umem" where
  "safestrcpy s t n m = (s, if sint n \<le> 0 then m else safestrcpy_loop (nat (sint n - 1)) s t m)"

text \<open>The result 0 is the null pointer.\<close>

partial_function (option) strchr :: "u16 \<Rightarrow> u8 \<Rightarrow> umem \<Rightarrow> u16 option" where
  "strchr s c m = (if m s = 0 then Some 0 else if m s = c then Some s else strchr (s + 1) c m)"

partial_function (option) atoi_loop :: "u16 \<Rightarrow> u16 \<Rightarrow> umem \<Rightarrow> u16 option" where
  "atoi_loop n s m =
     (if 48 \<le> sint (m s) \<and> sint (m s) \<le> 57 then atoi_loop (n * 10 + ucast (m s) - 48) (s + 1) m else Some n)"

definition atoi :: "u16 \<Rightarrow> umem \<Rightarrow> u16 option" where
  "atoi s m = atoi_loop 0 s m"

text \<open>\<open>gets\<close> reads from \<open>inp\<close>, the bytes that \<open>read(0, &c, 1)\<close> delivers before it returns 0; \<open>n\<close> is how often \<open>i+1 < max\<close> still holds.\<close>

fun gets_loop :: "nat \<Rightarrow> u16 \<Rightarrow> u8 list \<Rightarrow> umem \<Rightarrow> u8 list \<times> umem" where
  "gets_loop 0 p inp m = (inp, m(p := 0))"
| "gets_loop (Suc n) p [] m = ([], m(p := 0))"
| "gets_loop (Suc n) p (c # inp) m =
     (let m = m(p := c) in if c = 10 \<or> c = 13 then (inp, m(p + 1 := 0)) else gets_loop n (p + 1) inp m)"

definition gets :: "u16 \<Rightarrow> u16 \<Rightarrow> u8 list \<Rightarrow> umem \<Rightarrow> u16 \<times> u8 list \<times> umem" where
  "gets buf mx inp m = (buf, gets_loop (nat (sint mx - 1)) buf inp m)"

subsection \<open>Memory\<close>

fun memset_loop :: "nat \<Rightarrow> u16 \<Rightarrow> u8 \<Rightarrow> umem \<Rightarrow> umem" where
  "memset_loop 0 p c m = m"
| "memset_loop (Suc n) p c m = memset_loop n (p + 1) c (m(p := c))"

definition memset :: "u16 \<Rightarrow> u8 \<Rightarrow> u16 \<Rightarrow> umem \<Rightarrow> u16 \<times> umem" where
  "memset dst c n m = (dst, memset_loop (unat n) dst c m)"

fun memcmp_loop :: "nat \<Rightarrow> u16 \<Rightarrow> u16 \<Rightarrow> umem \<Rightarrow> int" where
  "memcmp_loop 0 p q m = 0"
| "memcmp_loop (Suc n) p q m = (if m p \<noteq> m q then uint (m p) - uint (m q) else memcmp_loop n (p + 1) (q + 1) m)"

definition memcmp :: "u16 \<Rightarrow> u16 \<Rightarrow> u16 \<Rightarrow> umem \<Rightarrow> int" where
  "memcmp v1 v2 n m = memcmp_loop (unat n) v1 v2 m"

fun copy_down :: "nat \<Rightarrow> u16 \<Rightarrow> u16 \<Rightarrow> umem \<Rightarrow> umem" where
  "copy_down 0 d s m = m"
| "copy_down (Suc n) d s m = copy_down n (d - 1) (s - 1) (m(d - 1 := m (s - 1)))"

fun copy_up :: "nat \<Rightarrow> u16 \<Rightarrow> u16 \<Rightarrow> umem \<Rightarrow> umem" where
  "copy_up 0 d s m = m"
| "copy_up (Suc n) d s m = copy_up n (d + 1) (s + 1) (m(d := m s))"

definition memmove :: "u16 \<Rightarrow> u16 \<Rightarrow> u16 \<Rightarrow> umem \<Rightarrow> u16 \<times> umem" where
  "memmove d s n m =
     (d, if s < d \<and> d < s + n then copy_down (unat n) (d + n) (s + n) m else copy_up (unat n) d s m)"

definition memcpy :: "u16 \<Rightarrow> u16 \<Rightarrow> u16 \<Rightarrow> umem \<Rightarrow> u16 \<times> umem" where
  "memcpy dst src n m = memmove dst src n m"

subsection \<open>Moving memory\<close>

lemma of_nat16_inj: "i < 65536 \<Longrightarrow> j < 65536 \<Longrightarrow> (of_nat i :: u16) = of_nat j \<longleftrightarrow> i = j"
proof
  assume ij: "i < 65536" "j < 65536" and e: "(of_nat i :: u16) = of_nat j"
  have "unat (of_nat i :: u16) = i" "unat (of_nat j :: u16) = j" using ij by (simp_all add: unat_of_nat)
  then show "i = j" unfolding e by simp
qed simp

lemma unat_offset: "unat d + i < 65536 \<Longrightarrow> unat (d + of_nat i) = unat d + i" for d :: u16
  by (simp add: unat_word_ariths unat_of_nat mod_simps)

text \<open>What a block of memory holds after a move: the bytes of the source as they were, and nothing else has changed.\<close>

definition moved :: "nat \<Rightarrow> u16 \<Rightarrow> u16 \<Rightarrow> umem \<Rightarrow> umem \<Rightarrow> bool" where
  "moved n d s m m' \<longleftrightarrow> (\<forall>i < n. m' (d + of_nat i) = m (s + of_nat i)) \<and> (\<forall>x. (\<forall>i < n. x \<noteq> d + of_nat i) \<longrightarrow> m' x = m x)"

lemma copy_up_moves:
  assumes "n \<le> 65536" "\<And>i j. i < j \<Longrightarrow> j < n \<Longrightarrow> s + of_nat j \<noteq> d + of_nat i"
  shows "moved n d s m (copy_up n d s m)"
  using assms
proof (induction n arbitrary: d s m)
  case (Suc n)
  let ?m = "m(d := m s)"
  have IH: "moved n (d + 1) (s + 1) ?m (copy_up n (d + 1) (s + 1) ?m)"
  proof (rule Suc.IH)
    fix i j assume "i < j" "j < n"
    then have "s + of_nat (Suc j) \<noteq> d + of_nat (Suc i)" using Suc.prems(2) [of "Suc i" "Suc j"] by simp
    then show "s + 1 + of_nat j \<noteq> d + 1 + of_nat i" by (simp add: add.assoc)
  qed (use Suc.prems in simp)
  have first: "d \<noteq> d + 1 + of_nat i" if "i < n" for i
  proof
    assume "d = d + 1 + of_nat i"
    then have "(of_nat (Suc i) :: u16) = of_nat 0" by (simp add: add.assoc)
    then show False using of_nat16_inj [of "Suc i" 0] that Suc.prems(1) by simp
  qed
  have "copy_up n (d + 1) (s + 1) ?m (d + of_nat i) = m (s + of_nat i)" if "i < Suc n" for i
  proof (cases i)
    case 0
    then show ?thesis using IH first by (simp add: moved_def)
  next
    case (Suc k)
    then have "copy_up n (d + 1) (s + 1) ?m (d + 1 + of_nat k) = ?m (s + 1 + of_nat k)" using IH that by (simp add: moved_def)
    moreover have "s + 1 + of_nat k \<noteq> d" using Suc.prems(2) [of 0 "Suc k"] Suc that by (simp add: add.assoc)
    ultimately show ?thesis using Suc by (simp add: add.assoc)
  qed
  moreover have "copy_up n (d + 1) (s + 1) ?m x = m x" if "\<forall>i < Suc n. x \<noteq> d + of_nat i" for x
  proof -
    have "x \<noteq> d" using that [rule_format, of 0] by simp
    moreover have "x \<noteq> d + 1 + of_nat i" if "i < n" for i
      using \<open>\<forall>i < Suc n. x \<noteq> d + of_nat i\<close> [rule_format, of "Suc i"] that by (simp add: add.assoc)
    ultimately show ?thesis using IH by (simp add: moved_def)
  qed
  ultimately show ?case by (simp add: moved_def)
qed (simp add: moved_def)

text \<open>Copying from the end is copying to the mirrored addresses.\<close>

lemma copy_down_up: "copy_down n d s m = (\<lambda>x. copy_up n (- d) (- s) (\<lambda>y. m (- y - 1)) (- x - 1))"
proof (induction n arbitrary: d s m)
  case (Suc n)
  have "(\<lambda>y. (m(d - 1 := m (s - 1))) (- y - 1)) = (\<lambda>y. m (- y - 1))(- d := m (s - 1))"
    by (rule ext) (auto simp: algebra_simps)
  then show ?case by (simp add: Suc.IH algebra_simps)
qed simp

lemma copy_down_moves:
  assumes "n \<le> 65536" "\<And>i j. i < j \<Longrightarrow> j < n \<Longrightarrow> s + of_nat i \<noteq> d + of_nat j"
  shows "moved n d s m (copy_down n (d + of_nat n) (s + of_nat n) m)"
proof -
  let ?M = "\<lambda>y. m (- y - 1)" and ?d = "- (d + of_nat n)" and ?s = "- (s + of_nat n)"
  have neg: "?d + of_nat i = - (d + of_nat (n - Suc i)) - 1" "?s + of_nat i = - (s + of_nat (n - Suc i)) - 1" if "i < n" for i
    using that by (simp_all add: of_nat_diff algebra_simps)
  have "moved n ?d ?s ?M (copy_up n ?d ?s ?M)"
  proof (rule copy_up_moves [OF assms(1)])
    fix i j assume ij: "i < j" "j < n"
    have "s + of_nat (n - Suc j) \<noteq> d + of_nat (n - Suc i)" using ij by (intro assms(2)) auto
    then show "?s + of_nat j \<noteq> ?d + of_nat i"
      unfolding neg(1) [OF less_trans [OF ij]] neg(2) [OF ij(2)] by (simp only: diff_eq_eq diff_add_cancel neg_equal_iff_equal) simp
  qed
  then have u: "\<And>i. i < n \<Longrightarrow> copy_up n ?d ?s ?M (?d + of_nat i) = ?M (?s + of_nat i)"
    "\<And>x. (\<forall>i < n. x \<noteq> ?d + of_nat i) \<Longrightarrow> copy_up n ?d ?s ?M x = ?M x" by (auto simp: moved_def)
  show ?thesis
    unfolding moved_def copy_down_up
  proof (intro conjI allI impI)
    fix i assume "i < n"
    then show "copy_up n ?d ?s ?M (- (d + of_nat i) - 1) = m (s + of_nat i)"
      using u(1) [of "n - Suc i"] neg [of "n - Suc i"] by (simp add: algebra_simps)
  next
    fix x assume x: "\<forall>i < n. x \<noteq> d + of_nat i"
    have "- x - 1 \<noteq> ?d + of_nat i" if "i < n" for i
      using x [rule_format, of "n - Suc i"] that neg(1) [OF that] by (simp add: algebra_simps)
    then show "copy_up n ?d ?s ?M (- x - 1) = m x" using u(2) [of "- x - 1"] by simp
  qed
qed

text \<open>\<open>memmove\<close> moves memory whether or not the two blocks overlap: unless the source reaches the end of the address space,
  the destination holds what the source held before, and every other byte is as before.\<close>

theorem memmove_exact:
  assumes "unat s + unat n < 65536" "unat d + unat n \<le> 65536"
  shows "fst (memmove d s n m) = d \<and> moved (unat n) d s m (snd (memmove d s n m))"
proof -
  have u: "unat (s + of_nat i) = unat s + i" "unat (d + of_nat i) = unat d + i" if "i < unat n" for i
    using assms that by (simp_all add: unat_offset)
  have sn: "unat (s + n) = unat s + unat n" using assms(1) by (simp add: unat_word_ariths)
  show ?thesis
  proof (cases "s < d \<and> d < s + n")
    case True
    have "s + of_nat i \<noteq> d + of_nat j" if "i < j" "j < unat n" for i j
      using True that u [of i] u [of j] by (auto simp: word_less_nat_alt dest!: arg_cong [of _ _ unat])
    from copy_down_moves [of "unat n" s d m, OF _ this] True unat16_bound [of n] show ?thesis by (simp add: memmove_def)
  next
    case False
    have "s + of_nat j \<noteq> d + of_nat i" if "i < j" "j < unat n" for i j
      using False that u [of i] u [of j] sn by (auto simp: word_less_nat_alt dest!: arg_cong [of _ _ unat])
    from copy_up_moves [of "unat n" s d m, OF _ this] False unat16_bound [of n] show ?thesis by (auto simp: memmove_def)
  qed
qed

theorem memmove_exact_witness:
  "snd (memmove 102 100 4 (\<lambda>x. ucast x)) 105 = 103 \<and> snd (memmove 100 102 4 (\<lambda>x. ucast x)) 100 = 102"
proof -
  have a: "moved 4 102 100 (\<lambda>x. ucast x) (snd (memmove 102 100 4 (\<lambda>x. ucast x)))" using memmove_exact [of 100 4 102] by simp
  have b: "moved 4 100 102 (\<lambda>x. ucast x) (snd (memmove 100 102 4 (\<lambda>x. ucast x)))" using memmove_exact [of 102 4 100] by simp
  have "snd (memmove 102 100 4 (\<lambda>x. ucast x)) (102 + of_nat 3) = ucast (100 + of_nat 3 :: u16)" using a [unfolded moved_def, THEN conjunct1, rule_format, of 3] by simp
  moreover have "snd (memmove 100 102 4 (\<lambda>x. ucast x)) (100 + of_nat 0) = ucast (102 + of_nat 0 :: u16)" using b [unfolded moved_def, THEN conjunct1, rule_format, of 0] by simp
  ultimately show ?thesis by simp
qed

end
