(* ===== verification/Sh.thy ===== *)
theory Sh
  imports Main
begin

text \<open>
  The parser of the shell, \<open>usr/sh.c\<close>: tokens, the recursive descent and \<open>nulterminate\<close>.

  The command line is the list of its characters without the final NUL; the pointers \<open>ps\<close> and \<open>es\<close> are indices into it, and
  \<open>es\<close> is its length.  A token is the pair \<open>q\<close>, \<open>eq\<close>.  The nodes that the source allocates are the constructors of a datatype; the
  allocation itself, at most a few units for each character of a line of a hundred, is not modelled.  \<open>Inl\<close> is the text that is
  written before the process exits.
\<close>

datatype omode = O_READ | O_WRITE | O_APPEND

datatype 'a cmd =
    EXEC "'a list"
  | REDIR "'a cmd" 'a omode nat
  | PIPE "'a cmd" "'a cmd"
  | LIST "'a cmd" "'a cmd"
  | BACK "'a cmd"

type_synonym token = "nat \<times> nat"

type_synonym 'a parsed = "string + (token cmd \<times> 'a)"

abbreviation (input) "NUL \<equiv> CHR 0x00"

subsection \<open>Tokens\<close>

definition ch :: "string \<Rightarrow> nat \<Rightarrow> char" where
  "ch buf s = (if s < length buf then buf ! s else NUL)"

definition whitespace :: string where
  "whitespace = [CHR '' '', CHR 0x09, CHR 0x0D, CHR 0x0A, CHR 0x0B]"

definition symbols :: string where
  "symbols = ''<|>&;()''"

function skip_white :: "string \<Rightarrow> nat \<Rightarrow> nat" where
  "skip_white buf s = (if s < length buf \<and> ch buf s \<in> set whitespace then skip_white buf (s + 1) else s)"
  by pat_completeness auto
termination by (relation "measure (\<lambda>(buf, s). length buf - s)") auto

function skip_word :: "string \<Rightarrow> nat \<Rightarrow> nat" where
  "skip_word buf s =
     (if s < length buf \<and> ch buf s \<notin> set whitespace \<and> ch buf s \<notin> set symbols then skip_word buf (s + 1) else s)"
  by pat_completeness auto
termination by (relation "measure (\<lambda>(buf, s). length buf - s)") auto

declare skip_white.simps [simp del] skip_word.simps [simp del]

text \<open>The kind of the token, its bounds and the new \<open>*ps\<close>.\<close>

definition gettoken :: "string \<Rightarrow> nat \<Rightarrow> char \<times> token \<times> nat" where
  "gettoken buf ps =
     (let s = skip_white buf ps;
          q = s;
          c = ch buf s;
          (ret, s) =
            (if c = NUL then (c, s)
             else if c \<in> set ''|();&<'' then (c, s + 1)
             else if c = CHR ''>'' then
               (if ch buf (s + 1) = CHR ''>'' then (CHR ''+'', s + 2) else (c, s + 1))
             else (CHR ''a'', skip_word buf s));
          eq = s
      in (ret, (q, eq), skip_white buf s))"

definition peek :: "string \<Rightarrow> nat \<Rightarrow> string \<Rightarrow> bool \<times> nat" where
  "peek buf ps toks =
     (let s = skip_white buf ps in (ch buf s \<noteq> NUL \<and> ch buf s \<in> set toks, s))"

subsection \<open>The parser\<close>

definition panic :: "string \<Rightarrow> string" where
  "panic s = s @ [CHR 0x0A]"

lemma skip_white_ge: "s \<le> skip_white buf s"
proof (induction buf s rule: skip_white.induct)
  case (1 buf s)
  then show ?case by (subst skip_white.simps) auto
qed

lemma skip_word_ge: "s \<le> skip_word buf s"
proof (induction buf s rule: skip_word.induct)
  case (1 buf s)
  then show ?case by (subst skip_word.simps) auto
qed

lemma gettoken_ge: "ps \<le> snd (snd (gettoken buf ps))"
  unfolding gettoken_def Let_def
  by (auto split: prod.splits if_splits) (meson le_SucI le_trans skip_white_ge skip_word_ge)+

lemma skip_white_stops: "ch buf (skip_white buf s) \<notin> set whitespace"
proof (induction buf s rule: skip_white.induct)
  case (1 buf s)
  show ?case
  proof (cases "s < length buf \<and> ch buf s \<in> set whitespace")
    case True
    then show ?thesis using 1 by (subst skip_white.simps) simp
  next
    case False
    then show ?thesis by (subst skip_white.simps) (auto simp: ch_def whitespace_def)
  qed
qed

lemma skip_white_id: "ch buf s \<notin> set whitespace \<Longrightarrow> skip_white buf s = s"
  by (subst skip_white.simps) simp

lemma skip_white_idem [simp]: "skip_white buf (skip_white buf s) = skip_white buf s"
  by (rule skip_white_id) (rule skip_white_stops)

lemma ch_in: "ch buf s \<noteq> NUL \<Longrightarrow> s < length buf"
  by (auto simp: ch_def split: if_splits)

lemma peek_eq: "peek buf ps toks = (b, p) \<longleftrightarrow> p = skip_white buf ps \<and> (b \<longleftrightarrow> ch buf p \<noteq> NUL \<and> ch buf p \<in> set toks)"
  by (auto simp: peek_def Let_def)

lemma gettoken_sym:
  "ch buf s \<in> set ''|();&<'' \<Longrightarrow> gettoken buf s = (ch buf s, (s, s + 1), skip_white buf (s + 1))"
  "ch buf s = CHR ''>'' \<Longrightarrow> ch buf (s + 1) \<noteq> CHR ''>'' \<Longrightarrow> gettoken buf s = (CHR ''>'', (s, s + 1), skip_white buf (s + 1))"
  "ch buf s = CHR ''>'' \<Longrightarrow> ch buf (s + 1) = CHR ''>'' \<Longrightarrow> gettoken buf s = (CHR ''+'', (s, s + 2), skip_white buf (s + 2))"
  by (auto simp: gettoken_def skip_white_id whitespace_def)

lemma peek_gettoken:
  assumes "peek buf ps toks = (True, p)" "set toks \<subseteq> set symbols"
  shows "ps \<le> p \<and> p < length buf \<and> p < snd (snd (gettoken buf p))"
proof -
  have p: "p = skip_white buf ps" "ch buf p \<noteq> NUL" "ch buf p \<in> set symbols" using assms by (auto simp: peek_eq)
  then consider "ch buf p \<in> set ''|();&<''" | "ch buf p = CHR ''>''" "ch buf (p + 1) \<noteq> CHR ''>''" | "ch buf p = CHR ''>''" "ch buf (p + 1) = CHR ''>''"
    by (auto simp: symbols_def)
  then have "p < snd (snd (gettoken buf p))"
    by cases (use skip_white_ge [of "p + 1" buf] skip_white_ge [of "p + 2" buf] in \<open>auto simp: gettoken_sym\<close>)
  then show ?thesis using p skip_white_ge [of ps buf] ch_in [OF p(2)] by simp
qed

definition add_redir :: "char \<Rightarrow> token cmd \<Rightarrow> token \<Rightarrow> token cmd" where
  "add_redir tok cmd t =
     (if tok = CHR ''<'' then REDIR cmd t O_READ 0
      else if tok = CHR ''>'' then REDIR cmd t O_WRITE 1
      else if tok = CHR ''+'' then REDIR cmd t O_APPEND 1
      else cmd)"

function parseredirs :: "string \<Rightarrow> token cmd \<Rightarrow> nat \<Rightarrow> nat parsed" where
  "parseredirs buf cmd ps =
     (case peek buf ps ''<>'' of
        (False, ps) \<Rightarrow> Inr (cmd, ps)
      | (True, ps) \<Rightarrow>
          (case gettoken buf ps of
             (tok, _, ps) \<Rightarrow>
               (case gettoken buf ps of
                  (k, t, ps) \<Rightarrow>
                    if k \<noteq> CHR ''a'' then Inl (panic ''missing file for redirection'')
                    else parseredirs buf (add_redir tok cmd t) ps)))"
  by pat_completeness auto
termination
proof (relation "measure (\<lambda>(buf, _, ps). length buf - ps)")
  fix buf cmd ps b p1 tok r t1 p2 k r' t p3
  assume "(b, p1) = peek buf ps ''<>''" "b = True" "(tok, r) = gettoken buf p1" "(t1, p2) = r" "(k, r') = gettoken buf p2" "(t, p3) = r'"
  then have "ps < length buf \<and> ps < p3"
    using peek_gettoken [of buf ps "''<>''" p1] gettoken_ge [of p2 buf] by (auto simp: symbols_def dest!: sym [of _ "gettoken _ _"] sym [of _ "peek _ _ _"])
  then show "((buf, add_redir tok cmd t, p3), (buf, cmd, ps)) \<in> measure (\<lambda>(buf, _, ps). length buf - ps)" by auto
qed simp

declare parseredirs.simps [simp del]

text \<open>\<open>cmd->argv[argc] = q; cmd->eargv[argc] = eq\<close>, where \<open>cmd\<close> is the \<open>EXEC\<close> node below the redirections of \<open>ret\<close>.\<close>

fun add_arg :: "token \<Rightarrow> token cmd \<Rightarrow> token cmd" where
  "add_arg t (EXEC ts) = EXEC (ts @ [t])"
| "add_arg t (REDIR cmd f md fd) = REDIR (add_arg t cmd) f md fd"
| "add_arg t cmd = cmd"

definition MAXARGS :: nat where
  "MAXARGS = 10"

function arg_loop :: "string \<Rightarrow> token cmd \<Rightarrow> nat \<Rightarrow> nat \<Rightarrow> nat parsed" where
  "arg_loop buf ret argc ps =
     (case peek buf ps ''|)&;'' of
        (True, ps) \<Rightarrow> Inr (ret, ps)
      | (False, ps) \<Rightarrow>
          (case gettoken buf ps of
             (tok, t, ps) \<Rightarrow>
               if tok = NUL then Inr (ret, ps)
               else if tok \<noteq> CHR ''a'' then Inl (panic ''syntax'')
               else if MAXARGS \<le> argc + 1 then Inl (panic ''too many args'')
               else
                 (case parseredirs buf (add_arg t ret) ps of
                    Inl e \<Rightarrow> Inl e
                  | Inr (ret, ps) \<Rightarrow> arg_loop buf ret (argc + 1) ps)))"
  by pat_completeness auto
termination by (relation "measure (\<lambda>(_, _, argc, _). MAXARGS - argc)") auto

declare arg_loop.simps [simp del]

text \<open>The part of \<open>parseexec\<close> after the test for a block.\<close>

definition parsesimple :: "string \<Rightarrow> nat \<Rightarrow> nat parsed" where
  "parsesimple buf ps =
     (case parseredirs buf (EXEC []) ps of
        Inl e \<Rightarrow> Inl e
      | Inr (ret, ps) \<Rightarrow> arg_loop buf ret 0 ps)"

text \<open>\<open>while(peek(ps, es, "&")){ gettoken(ps, es, 0, 0); cmd = backcmd(cmd); }\<close>\<close>

function back_loop :: "string \<Rightarrow> token cmd \<Rightarrow> nat \<Rightarrow> token cmd \<times> nat" where
  "back_loop buf cmd ps =
     (case peek buf ps ''&'' of
        (True, ps) \<Rightarrow> (case gettoken buf ps of (_, _, ps) \<Rightarrow> back_loop buf (BACK cmd) ps)
      | (False, ps) \<Rightarrow> (cmd, ps))"
  by pat_completeness auto
termination
proof (relation "measure (\<lambda>(buf, _, ps). length buf - ps)")
  fix buf cmd ps b p1 tok r t1 p2
  assume "(b, p1) = peek buf ps ''&''" "b = True" "(tok, r) = gettoken buf p1" "(t1, p2) = r"
  then have "ps < length buf \<and> ps < p2"
    using peek_gettoken [of buf ps "''&''" p1] by (auto simp: symbols_def dest!: sym [of _ "gettoken _ _"] sym [of _ "peek _ _ _"])
  then show "((buf, BACK cmd, p2), (buf, cmd, ps)) \<in> measure (\<lambda>(buf, _, ps). length buf - ps)" by auto
qed simp

declare back_loop.simps [simp del]

function parseline :: "string \<Rightarrow> nat \<Rightarrow> nat parsed"
  and parsepipe :: "string \<Rightarrow> nat \<Rightarrow> nat parsed"
  and parseexec :: "string \<Rightarrow> nat \<Rightarrow> nat parsed"
  and parseblock :: "string \<Rightarrow> nat \<Rightarrow> nat parsed" where
  "parseline buf ps =
     (case parsepipe buf ps of
        Inl e \<Rightarrow> Inl e
      | Inr (cmd, ps) \<Rightarrow>
          (case back_loop buf cmd ps of
             (cmd, ps) \<Rightarrow>
               (case peek buf ps '';'' of
                  (False, ps) \<Rightarrow> Inr (cmd, ps)
                | (True, ps) \<Rightarrow>
                    (case parseline buf (snd (snd (gettoken buf ps))) of
                       Inl e \<Rightarrow> Inl e
                     | Inr (right, ps) \<Rightarrow> Inr (LIST cmd right, ps)))))"
| "parsepipe buf ps =
     (case parseexec buf ps of
        Inl e \<Rightarrow> Inl e
      | Inr (cmd, ps) \<Rightarrow>
          (case peek buf ps ''|'' of
             (False, ps) \<Rightarrow> Inr (cmd, ps)
           | (True, ps) \<Rightarrow>
               (case parsepipe buf (snd (snd (gettoken buf ps))) of
                  Inl e \<Rightarrow> Inl e
                | Inr (right, ps) \<Rightarrow> Inr (PIPE cmd right, ps))))"
| "parseexec buf ps =
     (case peek buf ps ''('' of
        (True, ps) \<Rightarrow> parseblock buf ps
      | (False, ps) \<Rightarrow> parsesimple buf ps)"
| "parseblock buf ps =
     (case peek buf ps ''('' of
        (False, ps) \<Rightarrow> Inl (panic ''parseblock'')
      | (True, ps) \<Rightarrow>
          (case parseline buf (snd (snd (gettoken buf ps))) of
             Inl e \<Rightarrow> Inl e
           | Inr (cmd, ps) \<Rightarrow>
               (case peek buf ps '')'' of
                  (False, ps) \<Rightarrow> Inl (panic ''syntax - missing )'')
                | (True, ps) \<Rightarrow> parseredirs buf cmd (snd (snd (gettoken buf ps))))))"
  by pat_completeness auto

lemma peek_ge: "peek buf ps toks = (b, p) \<Longrightarrow> ps \<le> p"
  by (auto simp: peek_eq skip_white_ge)

lemma gettoken_le: "gettoken buf ps = (k, t, p) \<Longrightarrow> ps \<le> p"
  using gettoken_ge [of ps buf] by simp

text \<open>The successful runs of the loops.\<close>

lemma parseredirs_cases:
  assumes "parseredirs buf cmd ps = Inr (c, p)"
  obtains (stop) "peek buf ps ''<>'' = (False, p)" "c = cmd"
  | (redir) p1 tok t1 p2 t p3 where "peek buf ps ''<>'' = (True, p1)" "gettoken buf p1 = (tok, t1, p2)" "gettoken buf p2 = (CHR ''a'', t, p3)"
      "parseredirs buf (add_redir tok cmd t) p3 = Inr (c, p)"
  using assms unfolding parseredirs.simps [of buf cmd ps] by (auto split: prod.splits bool.splits if_splits)

lemma arg_loop_cases:
  assumes "arg_loop buf ret argc ps = Inr (c, p)"
  obtains (stop) "peek buf ps ''|)&;'' = (True, p)" "c = ret"
  | (end_of_line) p1 t where "peek buf ps ''|)&;'' = (False, p1)" "gettoken buf p1 = (NUL, t, p)" "c = ret"
  | (arg) p1 t p2 ret' p3 where "peek buf ps ''|)&;'' = (False, p1)" "gettoken buf p1 = (CHR ''a'', t, p2)" "argc + 1 < MAXARGS"
      "parseredirs buf (add_arg t ret) p2 = Inr (ret', p3)" "arg_loop buf ret' (argc + 1) p3 = Inr (c, p)"
  using assms unfolding arg_loop.simps [of buf ret argc ps] by (auto split: prod.splits bool.splits if_splits sum.splits)

lemma back_loop_cases:
  assumes "back_loop buf cmd ps = (c, p)"
  obtains (stop) "peek buf ps ''&'' = (False, p)" "c = cmd"
  | (turn) p1 tok t p2 where "peek buf ps ''&'' = (True, p1)" "gettoken buf p1 = (tok, t, p2)" "back_loop buf (BACK cmd) p2 = (c, p)"
  using assms unfolding back_loop.simps [of buf cmd ps] by (auto split: prod.splits bool.splits)

lemma peek_symbol_less:
  "peek buf ps toks = (True, p1) \<Longrightarrow> set toks \<subseteq> set symbols \<Longrightarrow> gettoken buf p1 = (k, t, p2) \<Longrightarrow> ps \<le> p1 \<and> p1 < p2 \<and> p1 < length buf"
  using peek_gettoken [of buf ps toks p1] by simp

lemma parseredirs_induct [consumes 1, case_names stop redir]:
  assumes "parseredirs buf cmd ps = Inr (c, p)"
    and "\<And>cmd ps. peek buf ps ''<>'' = (False, p) \<Longrightarrow> P cmd ps cmd p"
    and "\<And>cmd ps p1 tok t1 p2 t p3 c. peek buf ps ''<>'' = (True, p1) \<Longrightarrow> gettoken buf p1 = (tok, t1, p2) \<Longrightarrow>
      gettoken buf p2 = (CHR ''a'', t, p3) \<Longrightarrow> P (add_redir tok cmd t) p3 c p \<Longrightarrow> P cmd ps c p"
  shows "P cmd ps c p"
  using assms(1)
proof (induction "length buf - ps" arbitrary: cmd ps rule: less_induct)
  case less
  from less.prems show ?case
  proof (cases rule: parseredirs_cases)
    case stop
    then show ?thesis using assms(2) by simp
  next
    case (redir p1 tok t1 p2 t p3)
    then have "length buf - p3 < length buf - ps"
      using peek_symbol_less [OF redir(1) _ redir(2)] gettoken_le [OF redir(3)] by (auto simp: symbols_def)
    then show ?thesis using less.hyps redir assms(3) by blast
  qed
qed

lemma parseredirs_ge: "parseredirs buf cmd ps = Inr (c, p) \<Longrightarrow> ps \<le> p"
  by (induction rule: parseredirs_induct) (auto dest!: peek_ge gettoken_le)

lemma arg_loop_ge: "arg_loop buf ret argc ps = Inr (c, p) \<Longrightarrow> ps \<le> p"
proof (induction "MAXARGS - argc" arbitrary: ret argc ps rule: less_induct)
  case less
  from less.prems show ?case
  proof (cases rule: arg_loop_cases)
    case (arg p1 t p2 ret' p3)
    then have "p3 \<le> p" using less.hyps [of "argc + 1"] by simp
    then show ?thesis using arg by (auto dest!: peek_ge gettoken_le parseredirs_ge)
  qed (auto dest!: peek_ge gettoken_le)
qed

lemma back_loop_ge: "back_loop buf cmd ps = (c, p) \<Longrightarrow> ps \<le> p"
proof (induction "length buf - ps" arbitrary: cmd ps rule: less_induct)
  case less
  from less.prems show ?case
  proof (cases rule: back_loop_cases)
    case (turn p1 tok t p2)
    then have "ps < p2 \<and> ps < length buf" using peek_symbol_less [OF turn(1) _ turn(2)] by (auto simp: symbols_def)
    then show ?thesis using less.hyps [of p2] turn(3) by fastforce
  qed (auto dest!: peek_ge)
qed

lemma parsesimple_ge: "parsesimple buf ps = Inr (c, p) \<Longrightarrow> ps \<le> p"
  unfolding parsesimple_def by (auto split: sum.splits prod.splits dest!: parseredirs_ge arg_loop_ge)

lemma parse_ge:
  "parseline_parsepipe_parseexec_parseblock_dom (Inl (Inl (buf, ps))) \<Longrightarrow> parseline buf ps = Inr (c, p) \<Longrightarrow> ps \<le> p"
  "parseline_parsepipe_parseexec_parseblock_dom (Inl (Inr (buf, ps))) \<Longrightarrow> parsepipe buf ps = Inr (c, p) \<Longrightarrow> ps \<le> p"
  "parseline_parsepipe_parseexec_parseblock_dom (Inr (Inl (buf, ps))) \<Longrightarrow> parseexec buf ps = Inr (c, p) \<Longrightarrow> ps \<le> p"
  "parseline_parsepipe_parseexec_parseblock_dom (Inr (Inr (buf, ps))) \<Longrightarrow> parseblock buf ps = Inr (c, p) \<Longrightarrow> ps \<le> p"
proof (induction buf ps and buf ps and buf ps and buf ps arbitrary: c p and c p and c p and c p rule: parseline_parsepipe_parseexec_parseblock.pinduct)
  case (1 buf ps)
  obtain l p1 where l: "parsepipe buf ps = Inr (l, p1)" using 1(4) unfolding parseline.psimps [OF 1(1)] by (auto split: sum.splits)
  obtain l' p2 where b: "back_loop buf l p1 = (l', p2)" by fastforce
  obtain s p3 where k: "peek buf p2 '';'' = (s, p3)" by fastforce
  have le: "ps \<le> p3" using 1(2) [OF l] back_loop_ge [OF b] peek_ge [OF k] by linarith
  show ?case
  proof (cases s)
    case True
    then obtain r where "parseline buf (snd (snd (gettoken buf p3))) = Inr (r, p)"
      using 1(4) unfolding parseline.psimps [OF 1(1)] l by (auto simp: b k split: sum.splits)
    from 1(3) [OF l refl b [symmetric] k [symmetric] eqTrueI [OF True] this] le gettoken_ge [of p3 buf] show ?thesis by linarith
  next
    case False
    then show ?thesis using 1(4) le unfolding parseline.psimps [OF 1(1)] l by (simp add: b k)
  qed
next
  case (2 buf ps)
  obtain l p1 where l: "parseexec buf ps = Inr (l, p1)" using 2(4) unfolding parsepipe.psimps [OF 2(1)] by (auto split: sum.splits)
  obtain s p3 where k: "peek buf p1 ''|'' = (s, p3)" by fastforce
  have le: "ps \<le> p3" using 2(2) [OF l] peek_ge [OF k] by linarith
  show ?case
  proof (cases s)
    case True
    then obtain r where "parsepipe buf (snd (snd (gettoken buf p3))) = Inr (r, p)"
      using 2(4) unfolding parsepipe.psimps [OF 2(1)] l by (auto simp: k split: sum.splits)
    from 2(3) [OF l refl k [symmetric] eqTrueI [OF True] this] le gettoken_ge [of p3 buf] show ?thesis by linarith
  next
    case False
    then show ?thesis using 2(4) le unfolding parsepipe.psimps [OF 2(1)] l by (simp add: k)
  qed
next
  case (3 buf ps)
  obtain s p1 where k: "peek buf ps ''('' = (s, p1)" by fastforce
  show ?case
  proof (cases s)
    case True
    then show ?thesis using 3(2) [OF k [symmetric] eqTrueI [OF True]] 3(3) peek_ge [OF k] unfolding parseexec.psimps [OF 3(1)] by (simp add: k)
  next
    case False
    then show ?thesis using 3(3) peek_ge [OF k] parsesimple_ge [of buf p1 c p] unfolding parseexec.psimps [OF 3(1)] by (simp add: k)
  qed
next
  case (4 buf ps)
  obtain s p1 where k: "peek buf ps ''('' = (s, p1)" by fastforce
  with 4(3) have s: s unfolding parseblock.psimps [OF 4(1)] by (cases s) auto
  then obtain l p2 where l: "parseline buf (snd (snd (gettoken buf p1))) = Inr (l, p2)"
    using 4(3) unfolding parseblock.psimps [OF 4(1)] by (auto simp: k split: sum.splits)
  obtain s' p3 where k': "peek buf p2 '')'' = (s', p3)" by fastforce
  with 4(3) k l s have "parseredirs buf l (snd (snd (gettoken buf p3))) = Inr (c, p)"
    unfolding parseblock.psimps [OF 4(1)] by (auto split: bool.splits)
  from parseredirs_ge [OF this] gettoken_ge [of p3 buf] peek_ge [OF k'] 4(2) [OF k [symmetric] eqTrueI [OF s] l] gettoken_ge [of p1 buf] peek_ge [OF k]
  show ?case by linarith
qed

termination parseline
proof (relation "measure (\<lambda>x. case x of Inl (Inl (buf, ps)) \<Rightarrow> 4 * (length buf - ps) + 3
     | Inl (Inr (buf, ps)) \<Rightarrow> 4 * (length buf - ps) + 2 | Inr (Inl (buf, ps)) \<Rightarrow> 4 * (length buf - ps) + 1
     | Inr (Inr (buf, ps)) \<Rightarrow> 4 * (length buf - ps))", simp_all only: in_measure sum.case prod.case)
  fix buf ps b c p1 l p2 p3
  assume "parsepipe buf ps = Inr b" "(c, p1) = b" "(l, p2) = back_loop buf c p1" and k: "(True, p3) = peek buf p2 '';''"
    and "parseline_parsepipe_parseexec_parseblock_dom (Inl (Inr (buf, ps)))"
  then have "ps \<le> p2" using parse_ge(2) [of buf ps c p1] back_loop_ge [of buf c p1 l p2] by auto
  with peek_gettoken [OF k [symmetric]]
  show "4 * (length buf - snd (snd (gettoken buf p3))) + 3 < 4 * (length buf - ps) + 3" by (auto simp: symbols_def)
next
  fix buf ps b c p1 p3
  assume "parseexec buf ps = Inr b" "(c, p1) = b" and k: "(True, p3) = peek buf p1 ''|''"
    and "parseline_parsepipe_parseexec_parseblock_dom (Inr (Inl (buf, ps)))"
  then have "ps \<le> p1" using parse_ge(3) [of buf ps c p1] by auto
  with peek_gettoken [OF k [symmetric]]
  show "4 * (length buf - snd (snd (gettoken buf p3))) + 2 < 4 * (length buf - ps) + 2" by (auto simp: symbols_def)
next
  fix buf ps p
  assume k: "(True, p) = peek buf ps ''(''"
  from peek_gettoken [OF k [symmetric]]
  show "4 * (length buf - p) < 4 * (length buf - ps) + 1" "4 * (length buf - snd (snd (gettoken buf p))) + 3 < 4 * (length buf - ps)"
    by (auto simp: symbols_def)
qed simp

declare parseline.simps [simp del] parsepipe.simps [simp del] parseexec.simps [simp del] parseblock.simps [simp del]

text \<open>\<open>nulterminate\<close> stores a NUL behind every word, in the buffer with the final NUL.\<close>

fun nulterminate :: "token cmd \<Rightarrow> string \<Rightarrow> string" where
  "nulterminate (EXEC ts) b = fold (\<lambda>(q, eq) b. b[eq := NUL]) ts b"
| "nulterminate (REDIR cmd (file, efile) md fd) b = (nulterminate cmd b)[efile := NUL]"
| "nulterminate (PIPE l r) b = nulterminate r (nulterminate l b)"
| "nulterminate (LIST l r) b = nulterminate r (nulterminate l b)"
| "nulterminate (BACK cmd) b = nulterminate cmd b"

definition parsecmd :: "string \<Rightarrow> string parsed" where
  "parsecmd buf =
     (case parseline buf 0 of
        Inl e \<Rightarrow> Inl e
      | Inr (cmd, s) \<Rightarrow>
          (case peek buf s [] of
             (_, s) \<Rightarrow>
               if s \<noteq> length buf then Inl (''leftovers: '' @ drop s buf @ [CHR 0x0A] @ panic ''syntax'')
               else Inr (cmd, nulterminate cmd (buf @ [NUL]))))"

subsection \<open>The words of a command\<close>

definition wordchar :: "char \<Rightarrow> bool" where
  "wordchar c \<longleftrightarrow> c \<notin> set whitespace \<and> c \<notin> set symbols \<and> c \<noteq> NUL"

text \<open>A token is a maximal sequence of word characters.\<close>

definition is_word :: "string \<Rightarrow> token \<Rightarrow> bool" where
  "is_word buf t \<longleftrightarrow> fst t < snd t \<and> snd t \<le> length buf \<and>
     (\<forall>i. fst t \<le> i \<and> i < snd t \<longrightarrow> wordchar (buf ! i)) \<and> (snd t < length buf \<longrightarrow> \<not> wordchar (buf ! snd t))"

lemma skip_word_stops: "skip_word buf s < length buf \<Longrightarrow> \<not> wordchar (buf ! skip_word buf s)"
proof (induction buf s rule: skip_word.induct)
  case (1 buf s)
  then show ?case unfolding skip_word.simps [of buf s] by (auto simp: wordchar_def ch_def split: if_splits)
qed

lemma skip_word_over:
  "NUL \<notin> set buf \<Longrightarrow> s \<le> length buf \<Longrightarrow> skip_word buf s \<le> length buf \<and> (\<forall>i. s \<le> i \<and> i < skip_word buf s \<longrightarrow> wordchar (buf ! i))"
proof (induction buf s rule: skip_word.induct)
  case (1 buf s)
  show ?case
  proof (cases "s < length buf \<and> ch buf s \<notin> set whitespace \<and> ch buf s \<notin> set symbols")
    case True
    moreover from True have "wordchar (buf ! s)" using 1(2) by (auto simp: wordchar_def ch_def in_set_conv_nth)
    moreover have "i = s \<or> s + 1 \<le> i" if "s \<le> i" for i using that by linarith
    ultimately show ?thesis using 1(1) [OF True 1(2)] by (subst (1 2) skip_word.simps) (auto simp del: skip_word.simps)
  next
    case False
    then show ?thesis using 1(3) by (subst (1 2) skip_word.simps) auto
  qed
qed

lemma gettoken_word:
  assumes "gettoken buf ps = (CHR ''a'', t, p)" "NUL \<notin> set buf"
  shows "is_word buf t"
proof -
  let ?s = "skip_white buf ps"
  have c: "ch buf ?s \<noteq> NUL" "ch buf ?s \<notin> set symbols" "t = (?s, skip_word buf ?s)"
    using assms(1) unfolding gettoken_def Let_def by (auto simp: symbols_def split: if_splits)
  then have "?s < length buf" "ch buf ?s \<notin> set whitespace" using skip_white_stops by (auto dest: ch_in)
  then have "?s < skip_word buf ?s" using c(2) skip_word_ge [of "?s + 1" buf] by (subst skip_word.simps) auto
  then show ?thesis using c(3) skip_word_over [OF assms(2), of ?s] skip_word_stops [of buf ?s] \<open>?s < length buf\<close> by (auto simp: is_word_def)
qed

lemma set_add_redir: "set_cmd (add_redir tok cmd t) \<subseteq> insert t (set_cmd cmd)"
  by (auto simp: add_redir_def)

lemma set_add_arg: "set_cmd (add_arg t cmd) \<subseteq> insert t (set_cmd cmd)"
  by (induction t cmd rule: add_arg.induct) auto

definition words_ok :: "string \<Rightarrow> token cmd \<Rightarrow> bool" where
  "words_ok buf cmd \<longleftrightarrow> (\<forall>t \<in> set_cmd cmd. is_word buf t)"

lemma parseredirs_words: "parseredirs buf cmd ps = Inr (c, p) \<Longrightarrow> NUL \<notin> set buf \<Longrightarrow> words_ok buf cmd \<Longrightarrow> words_ok buf c"
proof (induction rule: parseredirs_induct)
  case (redir cmd ps p1 tok t1 p2 t p3 c)
  then show ?case using gettoken_word [OF redir(3)] set_add_redir [of tok cmd t] by (auto simp: words_ok_def)
qed simp

lemma arg_loop_words: "arg_loop buf ret argc ps = Inr (c, p) \<Longrightarrow> NUL \<notin> set buf \<Longrightarrow> words_ok buf ret \<Longrightarrow> words_ok buf c"
proof (induction "MAXARGS - argc" arbitrary: ret argc ps rule: less_induct)
  case less
  from less.prems(1) show ?case
  proof (cases rule: arg_loop_cases)
    case (arg p1 t p2 ret' p3)
    have "words_ok buf (add_arg t ret)" using gettoken_word [OF arg(2)] set_add_arg [of t ret] less.prems(2,3) by (auto simp: words_ok_def)
    then have "words_ok buf ret'" using parseredirs_words [OF arg(4)] less.prems(2) by blast
    then show ?thesis using less.hyps [of "argc + 1" ret' p3] arg(3,5) less.prems(2) by simp
  qed (use less.prems in auto)
qed

lemma back_loop_words: "back_loop buf cmd ps = (c, p) \<Longrightarrow> set_cmd c = set_cmd cmd"
proof (induction "length buf - ps" arbitrary: cmd ps rule: less_induct)
  case less
  from less.prems show ?case
  proof (cases rule: back_loop_cases)
    case (turn p1 tok t p2)
    then have "length buf - p2 < length buf - ps" using peek_symbol_less [OF turn(1) _ turn(2)] by (auto simp: symbols_def)
    then show ?thesis using less.hyps [of p2] turn(3) by simp
  qed simp
qed

lemma parse_words:
  "parseline buf ps = Inr (c, p) \<Longrightarrow> NUL \<notin> set buf \<Longrightarrow> words_ok buf c"
  "parsepipe buf ps = Inr (c, p) \<Longrightarrow> NUL \<notin> set buf \<Longrightarrow> words_ok buf c"
  "parseexec buf ps = Inr (c, p) \<Longrightarrow> NUL \<notin> set buf \<Longrightarrow> words_ok buf c"
  "parseblock buf ps = Inr (c, p) \<Longrightarrow> NUL \<notin> set buf \<Longrightarrow> words_ok buf c"
proof (induction buf ps and buf ps and buf ps and buf ps arbitrary: c p and c p and c p and c p rule: parseline_parsepipe_parseexec_parseblock.induct)
  case (1 buf ps)
  obtain l p1 where l: "parsepipe buf ps = Inr (l, p1)" using 1(3) unfolding parseline.simps [of buf ps] by (auto split: sum.splits)
  obtain l' p2 where b: "back_loop buf l p1 = (l', p2)" by fastforce
  obtain s p3 where k: "peek buf p2 '';'' = (s, p3)" by fastforce
  have w: "words_ok buf l'" using 1(1) [OF l 1(4)] back_loop_words [OF b] by (simp add: words_ok_def)
  show ?case
  proof (cases s)
    case True
    then obtain r where r: "parseline buf (snd (snd (gettoken buf p3))) = Inr (r, p)" "c = LIST l' r"
      using 1(3) unfolding parseline.simps [of buf ps] l by (auto simp: b k split: sum.splits)
    from 1(2) [OF l refl b [symmetric] k [symmetric] eqTrueI [OF True] r(1) 1(4)] w r(2) show ?thesis by (auto simp: words_ok_def)
  next
    case False
    then show ?thesis using 1(3) w unfolding parseline.simps [of buf ps] l by (simp add: b k)
  qed
next
  case (2 buf ps)
  obtain l p1 where l: "parseexec buf ps = Inr (l, p1)" using 2(3) unfolding parsepipe.simps [of buf ps] by (auto split: sum.splits)
  obtain s p3 where k: "peek buf p1 ''|'' = (s, p3)" by fastforce
  note w = 2(1) [OF l 2(4)]
  show ?case
  proof (cases s)
    case True
    then obtain r where r: "parsepipe buf (snd (snd (gettoken buf p3))) = Inr (r, p)" "c = PIPE l r"
      using 2(3) unfolding parsepipe.simps [of buf ps] l by (auto simp: k split: sum.splits)
    from 2(2) [OF l refl k [symmetric] eqTrueI [OF True] r(1) 2(4)] w r(2) show ?thesis by (auto simp: words_ok_def)
  next
    case False
    then show ?thesis using 2(3) w unfolding parsepipe.simps [of buf ps] l by (simp add: k)
  qed
next
  case (3 buf ps)
  obtain s p1 where k: "peek buf ps ''('' = (s, p1)" by fastforce
  show ?case
  proof (cases s)
    case True
    then show ?thesis using 3(1) [OF k [symmetric] eqTrueI [OF True]] 3(2,3) unfolding parseexec.simps [of buf ps] by (simp add: k)
  next
    case False
    then obtain ret p2 where "parseredirs buf (EXEC []) p1 = Inr (ret, p2)" "arg_loop buf ret 0 p2 = Inr (c, p)"
      using 3(2) unfolding parseexec.simps [of buf ps] parsesimple_def by (auto simp: k split: sum.splits)
    then show ?thesis using parseredirs_words arg_loop_words 3(3) by (fastforce simp: words_ok_def)
  qed
next
  case (4 buf ps)
  obtain s p1 where k: "peek buf ps ''('' = (s, p1)" by fastforce
  with 4(2) have s: s unfolding parseblock.simps [of buf ps] by (cases s) auto
  then obtain l p2 where l: "parseline buf (snd (snd (gettoken buf p1))) = Inr (l, p2)"
    using 4(2) unfolding parseblock.simps [of buf ps] by (auto simp: k split: sum.splits)
  obtain s' p3 where k': "peek buf p2 '')'' = (s', p3)" by fastforce
  with 4(2) k l s have "parseredirs buf l (snd (snd (gettoken buf p3))) = Inr (c, p)"
    unfolding parseblock.simps [of buf ps] by (auto split: bool.splits)
  from parseredirs_words [OF this 4(3) 4(1) [OF k [symmetric] eqTrueI [OF s] l 4(3)]] show ?case .
qed

lemma nulterminate_nth:
  "length (nulterminate c b) = length b \<and>
   (i < length b \<longrightarrow> nulterminate c b ! i = (if i \<in> snd ` set_cmd c then NUL else b ! i))"
proof (induction c b rule: nulterminate.induct)
  case (1 ts b)
  show ?case by (induction ts arbitrary: b) (auto simp: nth_list_update split: prod.splits)
next
  case (2 cmd f efile md fd b)
  then show ?case by (cases "i = efile") (auto simp: image_iff)
qed auto

text \<open>The string that starts at an address of the buffer.\<close>

definition cstring :: "string \<Rightarrow> nat \<Rightarrow> string" where
  "cstring b q = takeWhile (\<lambda>c. c \<noteq> NUL) (drop q b)"

definition token_text :: "string \<Rightarrow> token \<Rightarrow> string" where
  "token_text buf t = take (snd t - fst t) (drop (fst t) buf)"

lemma takeWhile_prefix: "\<forall>x \<in> set xs. P x \<Longrightarrow> ys = [] \<or> \<not> P (hd ys) \<Longrightarrow> takeWhile P (xs @ ys) = xs"
  by (cases ys) (auto simp: takeWhile_tail)

lemma nulterminate_string:
  assumes "words_ok buf c" "t \<in> set_cmd c"
  shows "cstring (nulterminate c (buf @ [NUL])) (fst t) = token_text buf t"
proof -
  let ?b = "nulterminate c (buf @ [NUL])"
  have w: "is_word buf t" using assms by (auto simp: words_ok_def)
  have nth: "length ?b = length buf + 1" "\<And>i. i < length buf + 1 \<Longrightarrow> ?b ! i = (if i \<in> snd ` set_cmd c then NUL else (buf @ [NUL]) ! i)"
    using nulterminate_nth [of c "buf @ [NUL]"] by auto
  have inside: "?b ! i = buf ! i \<and> buf ! i \<noteq> NUL" if "fst t \<le> i" "i < snd t" for i
  proof -
    have i: "i < length buf" "wordchar (buf ! i)" using w that by (auto simp: is_word_def)
    moreover have "i \<notin> snd ` set_cmd c"
    proof
      assume "i \<in> snd ` set_cmd c"
      then obtain u where "u \<in> set_cmd c" "i = snd u" by blast
      then show False using assms(1) i by (auto simp: words_ok_def is_word_def)
    qed
    ultimately show ?thesis using nth(2) [of i] by (auto simp: nth_append wordchar_def)
  qed
  have "take (snd t - fst t) (drop (fst t) ?b) = token_text buf t"
    using w inside nth(1) by (intro nth_equalityI) (auto simp: token_text_def is_word_def)
  then have d: "drop (fst t) ?b = token_text buf t @ drop (snd t) ?b"
    using w by (metis append_take_drop_id drop_drop is_word_def le_add_diff_inverse2 less_imp_le)
  have "drop (snd t) ?b \<noteq> [] \<and> hd (drop (snd t) ?b) = NUL"
    using w nth(1) nth(2) [of "snd t"] assms(2) by (auto simp: is_word_def hd_drop_conv_nth)
  moreover have "\<forall>x \<in> set (token_text buf t). x \<noteq> NUL"
  proof
    fix x assume "x \<in> set (token_text buf t)"
    then obtain i where "i < snd t - fst t" "x = buf ! (fst t + i)" using w by (auto simp: token_text_def in_set_conv_nth is_word_def)
    then show "x \<noteq> NUL" using inside [of "fst t + i"] by simp
  qed
  ultimately show ?thesis unfolding cstring_def d by (intro takeWhile_prefix) auto
qed

subsection \<open>Printing and parsing\<close>

definition redir_text :: "string \<Rightarrow> omode \<Rightarrow> string" where
  "redir_text f md = (case md of O_READ \<Rightarrow> '' <'' | O_WRITE \<Rightarrow> '' >'' | O_APPEND \<Rightarrow> '' >>'') @ f"

definition redir_fd :: "omode \<Rightarrow> nat" where
  "redir_fd md = (if md = O_READ then 0 else 1)"

text \<open>A command as text, at one of the levels of the grammar: 0 is a line, 1 a part of a list, 2 a pipeline, 3 a part of a pipeline.
  A command that does not stand at its level is put in parentheses.\<close>

definition paren :: "bool \<Rightarrow> string \<Rightarrow> string" where
  "paren b s = (if b then ''('' @ s @ '')'' else s)"

fun show_cmd :: "nat \<Rightarrow> string cmd \<Rightarrow> string" where
  "show_cmd lv (EXEC ws) = concat (map ((#) CHR '' '') ws)"
| "show_cmd lv (REDIR c f md fd) = show_cmd 3 c @ redir_text f md"
| "show_cmd lv (PIPE l r) = paren (2 < lv) (show_cmd 3 l @ ''|'' @ show_cmd 2 r)"
| "show_cmd lv (LIST l r) = paren (0 < lv) (show_cmd 1 l @ '';'' @ show_cmd 0 r)"
| "show_cmd lv (BACK c) = paren (1 < lv) (show_cmd 1 c @ ''&'')"

definition word :: "string \<Rightarrow> bool" where
  "word w \<longleftrightarrow> w \<noteq> [] \<and> (\<forall>c \<in> set w. wordchar c)"

fun wf_cmd :: "string cmd \<Rightarrow> bool" where
  "wf_cmd (EXEC ws) \<longleftrightarrow> length ws < MAXARGS \<and> (\<forall>w \<in> set ws. word w)"
| "wf_cmd (REDIR c f md fd) \<longleftrightarrow> wf_cmd c \<and> word f \<and> fd = redir_fd md"
| "wf_cmd (PIPE l r) \<longleftrightarrow> wf_cmd l \<and> wf_cmd r"
| "wf_cmd (LIST l r) \<longleftrightarrow> wf_cmd l \<and> wf_cmd r"
| "wf_cmd (BACK c) \<longleftrightarrow> wf_cmd c"

abbreviation white :: "char \<Rightarrow> bool" where
  "white c \<equiv> c \<in> set whitespace"

text \<open>What stands at a position of the buffer, and its first character that is no white space.\<close>

definition at :: "string \<Rightarrow> nat \<Rightarrow> string \<Rightarrow> bool" where
  "at buf p r \<longleftrightarrow> p \<le> length buf \<and> drop p buf = r"

definition first :: "string \<Rightarrow> char" where
  "first r = (case dropWhile white r of [] \<Rightarrow> NUL | c # _ \<Rightarrow> c)"

definition ends :: "string \<Rightarrow> bool" where
  "ends r \<longleftrightarrow> r = [] \<or> \<not> wordchar (hd r)"

lemma white_nul [simp]: "\<not> white NUL"
  by (simp add: whitespace_def)

lemma first_Nil [simp]: "first [] = NUL"
  by (simp add: first_def)

lemma first_Cons: "first (c # r) = (if white c then first r else c)"
  by (simp add: first_def)

lemma first_ends: "\<not> wordchar (first r) \<Longrightarrow> ends r"
  by (cases r) (auto simp: ends_def first_Cons wordchar_def split: if_splits)

lemma at_append: "at buf p (xs @ r) \<Longrightarrow> at buf (p + length xs) r"
proof -
  assume "at buf p (xs @ r)"
  then have p: "p \<le> length buf" "drop p buf = xs @ r" by (auto simp: at_def)
  then have "length buf - p = length xs + length r" by (metis length_append length_drop)
  moreover have "drop (p + length xs) buf = drop (length xs) (drop p buf)" by (simp add: add.commute)
  ultimately show ?thesis using p by (simp add: at_def)
qed

lemma at_Cons: "at buf p (c # r) \<Longrightarrow> ch buf p = c \<and> at buf (p + 1) r \<and> p < length buf"
  using at_append [of buf p "[c]" r] by (cases "p < length buf") (auto simp: at_def ch_def nth_via_drop)

lemma at_Nil: "at buf p [] \<Longrightarrow> p = length buf"
  by (simp add: at_def)

lemma at_skip_white: "at buf p r \<Longrightarrow> at buf (skip_white buf p) (dropWhile white r)"
proof (induction r arbitrary: p)
  case Nil
  then show ?case by (subst skip_white.simps) (auto dest: at_Nil)
next
  case (Cons c r)
  then show ?case using at_Cons [OF Cons.prems] by (subst skip_white.simps) auto
qed

lemma at_first: "at buf p r \<Longrightarrow> ch buf (skip_white buf p) = first r"
  using at_skip_white [of buf p r] unfolding first_def
  by (cases "dropWhile white r") (auto simp: ch_def simp del: dropWhile_eq_Nil_conv dest: at_Nil at_Cons)

lemma peek_at: "at buf p r \<Longrightarrow> peek buf p toks = (first r \<noteq> NUL \<and> first r \<in> set toks, skip_white buf p)"
  by (simp add: peek_eq at_first)

lemma at_skip_word: "at buf p (w @ r) \<Longrightarrow> \<forall>c \<in> set w. wordchar c \<Longrightarrow> ends r \<Longrightarrow> NUL \<notin> set r \<Longrightarrow> skip_word buf p = p + length w"
proof (induction w arbitrary: p)
  case Nil
  then show ?case
    by (cases r) (subst skip_word.simps; auto simp: ends_def wordchar_def dest: at_Nil at_Cons)+
next
  case (Cons c w)
  then show ?case using at_Cons [of buf p c "w @ r"] by (subst skip_word.simps) (auto simp: wordchar_def)
qed

lemma gettoken_at_word:
  assumes "at buf p (w @ r)" "word w" "ends r" "NUL \<notin> set r"
  shows "gettoken buf p = (CHR ''a'', (p, p + length w), skip_white buf (p + length w)) \<and> token_text buf (p, p + length w) = w"
proof -
  obtain c w' where w: "w = c # w'" using assms(2) by (cases w) (auto simp: word_def)
  have c: "ch buf p = c" "wordchar c" using at_Cons [of buf p c "w' @ r"] assms(1,2) w by (auto simp: word_def)
  then have "skip_white buf p = p" by (simp add: skip_white_id wordchar_def)
  moreover have "skip_word buf p = p + length w" using assms by (intro at_skip_word) (auto simp: word_def)
  ultimately show ?thesis using c assms(1) by (auto simp: gettoken_def wordchar_def symbols_def token_text_def at_def)
qed

text \<open>All functions of the parser skip white space first.\<close>

lemma peek_skip [simp]: "peek buf (skip_white buf p) toks = peek buf p toks"
  by (simp add: peek_def)

lemma gettoken_skip [simp]: "gettoken buf (skip_white buf p) = gettoken buf p"
  by (simp add: gettoken_def)

lemma parse_skip [simp]:
  "parseredirs buf c (skip_white buf p) = parseredirs buf c p"
  "arg_loop buf c n (skip_white buf p) = arg_loop buf c n p"
  "back_loop buf c (skip_white buf p) = back_loop buf c p"
  "parsesimple buf (skip_white buf p) = parsesimple buf p"
  "parseblock buf (skip_white buf p) = parseblock buf p"
  "parseexec buf (skip_white buf p) = parseexec buf p"
  "parsepipe buf (skip_white buf p) = parsepipe buf p"
  "parseline buf (skip_white buf p) = parseline buf p"
proof -
  show r: "parseredirs buf c (skip_white buf p) = parseredirs buf c p" for c by (subst (1 2) parseredirs.simps) simp
  show "arg_loop buf c n (skip_white buf p) = arg_loop buf c n p" by (subst (1 2) arg_loop.simps) simp
  show "back_loop buf c (skip_white buf p) = back_loop buf c p" by (subst (1 2) back_loop.simps) simp
  show "parsesimple buf (skip_white buf p) = parsesimple buf p" by (simp add: parsesimple_def r)
  show "parseblock buf (skip_white buf p) = parseblock buf p" by (subst (1 2) parseblock.simps) simp
  show e: "parseexec buf (skip_white buf p) = parseexec buf p" by (subst (1 2) parseexec.simps) simp
  show p: "parsepipe buf (skip_white buf p) = parsepipe buf p" by (subst (1 2) parsepipe.simps) (simp add: e)
  show "parseline buf (skip_white buf p) = parseline buf p" by (subst (1 2) parseline.simps) (simp add: p)
qed

abbreviation texts :: "string \<Rightarrow> token cmd \<Rightarrow> string cmd" where
  "texts buf \<equiv> map_cmd (token_text buf)"

definition add_redirs :: "string cmd \<Rightarrow> (string \<times> omode) list \<Rightarrow> string cmd" where
  "add_redirs c rs = foldl (\<lambda>c (f, md). REDIR c f md (redir_fd md)) c rs"

definition redirs_text :: "(string \<times> omode) list \<Rightarrow> string" where
  "redirs_text rs = concat (map (\<lambda>(f, md). redir_text f md) rs)"

lemma parseredirs_step:
  "peek buf p ''<>'' = (True, p1) \<Longrightarrow> gettoken buf p1 = (tok, t1, p2) \<Longrightarrow> gettoken buf p2 = (CHR ''a'', t, p3) \<Longrightarrow>
   parseredirs buf c p = parseredirs buf (add_redir tok c t) p3"
  by (subst parseredirs.simps) simp

text \<open>One redirection.\<close>

lemma parseredirs_one:
  assumes "at buf p (redir_text f md @ r)" "word f" "ends r" "NUL \<notin> set r"
  obtains t where "parseredirs buf c p = parseredirs buf t (p + length (redir_text f md))" "texts buf t = REDIR (texts buf c) f md (redir_fd md)"
proof -
  define op where "op = (case md of O_READ \<Rightarrow> ''<'' | O_WRITE \<Rightarrow> ''>'' | O_APPEND \<Rightarrow> ''>>'')"
  have rt: "redir_text f md = CHR '' '' # op @ f" by (cases md) (auto simp: redir_text_def op_def)
  obtain x f' where f: "f = x # f'" "wordchar x" using assms(2) by (cases f) (auto simp: word_def)
  have a1: "at buf (p + 1) (op @ f @ r)" using assms(1) at_Cons [of buf p "CHR '' ''" "op @ f @ r"] by (simp add: rt)
  then have a2: "at buf (p + 1 + length op) (f @ r)" by (rule at_append)
  have p1: "skip_white buf p = p + 1"
  proof -
    have "ch buf p = CHR '' ''" "p < length buf" using assms(1) at_Cons [of buf p "CHR '' ''" "op @ f @ r"] by (simp_all add: rt)
    moreover have "ch buf (p + 1) \<notin> set whitespace"
      using a1 by (cases md) (auto simp: op_def whitespace_def dest: at_Cons)
    ultimately show ?thesis by (subst skip_white.simps) (simp add: skip_white_id, simp add: whitespace_def)
  qed
  let ?tok = "if md = O_APPEND then CHR ''+'' else hd op"
  have chs: "ch buf (p + 1) = hd op" "ch buf (p + 1 + 1) = (if md = O_APPEND then CHR ''>'' else x)" "hd op = (if md = O_READ then CHR ''<'' else CHR ''>'')"
    using a1 a2 at_Cons [of buf "p + 1" "hd op" "tl op @ f @ r"] at_Cons [of buf "p + 1 + 1" _ "_ @ _"] f(1)
    by (cases md; auto simp: op_def dest: at_Cons)+
  have x: "x \<noteq> CHR ''>''" using f(2) by (auto simp: wordchar_def symbols_def)
  have g1: "gettoken buf (p + 1) = (?tok, (p + 1, p + 1 + length op), skip_white buf (p + 1 + length op))"
    using chs x by (cases md) (auto simp: gettoken_sym op_def)
  define t where "t = (p + 1 + length op, p + 1 + length op + length f)"
  have g2: "gettoken buf (p + 1 + length op) = (CHR ''a'', t, skip_white buf (p + length (redir_text f md)))" "token_text buf t = f"
    using gettoken_at_word [OF a2 assms(2,3,4)] by (auto simp: t_def rt add.assoc)
  have "peek buf p ''<>'' = (True, p + 1)" using p1 chs by (simp add: peek_eq)
  then have "parseredirs buf c p = parseredirs buf (add_redir ?tok c t) (p + length (redir_text f md))"
    using parseredirs_step [OF _ g1, of p t] g2(1) by simp
  moreover have "texts buf (add_redir ?tok c t) = REDIR (texts buf c) f md (redir_fd md)"
    using chs(3) g2(2) by (cases md) (auto simp: add_redir_def redir_fd_def)
  ultimately show thesis using that by blast
qed

lemma redirs_ends: "ends r \<Longrightarrow> ends (redirs_text rs @ r)"
  by (cases rs) (auto simp: redirs_text_def redir_text_def ends_def wordchar_def whitespace_def split: omode.splits)

lemma word_nul: "word w \<Longrightarrow> NUL \<notin> set w"
  by (auto simp: word_def wordchar_def)

lemma redirs_nul: "\<forall>(f, md) \<in> set rs. word f \<Longrightarrow> NUL \<notin> set (redirs_text rs)"
  by (auto simp: redirs_text_def redir_text_def dest: word_nul split: omode.splits)

lemma parseredirs_text:
  assumes "at buf p (redirs_text rs @ r)" "\<forall>(f, md) \<in> set rs. word f" "ends r" "NUL \<notin> set r" "first r \<notin> set ''<>''"
  shows "\<exists>t. parseredirs buf c p = Inr (t, skip_white buf (p + length (redirs_text rs))) \<and> texts buf t = add_redirs (texts buf c) rs"
  using assms(1,2)
proof (induction rs arbitrary: p c)
  case Nil
  then have "at buf p r" by (simp add: redirs_text_def)
  then show ?case using assms(5) by (subst parseredirs.simps) (simp add: peek_at redirs_text_def add_redirs_def)
next
  case (Cons fm rs)
  obtain f md where fm: "fm = (f, md)" by fastforce
  have rt: "redirs_text (fm # rs) = redir_text f md @ redirs_text rs" by (simp add: redirs_text_def fm)
  have a: "at buf p (redir_text f md @ (redirs_text rs @ r))" using Cons.prems(1) by (simp add: rt)
  have rs: "\<forall>(f, md) \<in> set rs. word f" "word f" using Cons.prems(2) by (auto simp: fm)
  obtain t where t: "parseredirs buf c p = parseredirs buf t (p + length (redir_text f md))" "texts buf t = REDIR (texts buf c) f md (redir_fd md)"
    using parseredirs_one [OF a rs(2) redirs_ends [OF assms(3)]] redirs_nul [OF rs(1)] assms(4) by auto
  from Cons.IH [OF at_append [OF a] rs(1), of t] show ?case using t by (auto simp: rt [unfolded fm] add.assoc add_redirs_def fm)
qed

text \<open>The rest of the line goes on with one of the given symbols, or has only white space.\<close>

definition follow :: "string \<Rightarrow> string \<Rightarrow> bool" where
  "follow S r \<longleftrightarrow> NUL \<notin> set r \<and> (first r = NUL \<or> first r \<in> set S)"

abbreviation "after_exec \<equiv> ''|)&;''"
abbreviation "after_pipe \<equiv> '')&;''"
abbreviation "after_back \<equiv> '');''"
abbreviation "after_line \<equiv> '')''"

lemma follow_ends: "follow S r \<Longrightarrow> set S \<subseteq> set symbols \<Longrightarrow> ends r"
  by (rule first_ends) (auto simp: follow_def wordchar_def)

lemma arg_loop_stop:
  assumes "at buf p r" "follow after_exec r"
  shows "arg_loop buf c n p = Inr (c, skip_white buf p)"
proof (cases "first r = NUL")
  case True
  then have "gettoken buf p = (NUL, (skip_white buf p, skip_white buf p), skip_white buf p)"
    using at_first [OF assms(1)] by (simp add: gettoken_def Let_def)
  then show ?thesis using True by (subst arg_loop.simps) (simp add: peek_at [OF assms(1)])
next
  case False
  then show ?thesis using assms(2) by (subst arg_loop.simps) (auto simp: peek_at [OF assms(1)] follow_def)
qed

abbreviation words_text :: "string list \<Rightarrow> string" where
  "words_text ws \<equiv> concat (map ((#) CHR '' '') ws)"

lemma at_blank: "at buf p (CHR '' '' # w @ r) \<Longrightarrow> word w \<Longrightarrow> skip_white buf p = p + 1 \<and> at buf (p + 1) (w @ r) \<and> wordchar (ch buf (p + 1))"
proof -
  assume a: "at buf p (CHR '' '' # w @ r)" and w: "word w"
  obtain x w' where x: "w = x # w'" "wordchar x" using w by (cases w) (auto simp: word_def)
  note c = at_Cons [OF a]
  then have "ch buf (p + 1) = x" using x(1) by (auto dest: at_Cons)
  then show ?thesis using c x(2) by (subst skip_white.simps) (auto simp: skip_white_id wordchar_def, simp add: whitespace_def)
qed

lemma parseredirs_none: "at buf p r \<Longrightarrow> first r \<notin> set ''<>'' \<Longrightarrow> parseredirs buf c p = Inr (c, skip_white buf p)"
  by (subst parseredirs.simps) (auto simp: peek_at)

lemma first_word: "word w \<Longrightarrow> wordchar (first (CHR '' '' # w @ r))"
  by (cases w) (auto simp: first_Cons word_def wordchar_def whitespace_def)

lemma wordchar_not: "wordchar c \<Longrightarrow> c \<notin> set ''<>'' \<and> c \<notin> set after_exec \<and> c \<notin> set ''(''"
  by (auto simp: wordchar_def symbols_def)

lemma arg_loop_text:
  assumes "at buf p (words_text (w # ws) @ redirs_text rs @ r)" "\<forall>w \<in> set (w # ws). word w" "\<forall>(f, md) \<in> set rs. word f"
    "follow after_exec r" "n + length (w # ws) < MAXARGS"
  shows "\<exists>t. arg_loop buf (EXEC ts) n p = Inr (t, skip_white buf (p + length (words_text (w # ws)) + length (redirs_text rs))) \<and>
    texts buf t = add_redirs (EXEC (map (token_text buf) ts @ w # ws)) rs"
  using assms(1,2,5)
proof (induction ws arbitrary: p n w ts)
  case Nil
  let ?r = "redirs_text rs @ r"
  have e: "ends r" "NUL \<notin> set r" "first r \<notin> set ''<>''" using follow_ends [OF assms(4)] assms(4) by (auto simp: follow_def symbols_def)
  have w: "word w" using Nil by simp
  have a: "at buf p (CHR '' '' # w @ ?r)" using Nil.prems(1) by simp
  note b = at_blank [OF a w]
  define t where "t = (p + 1, p + 1 + length w)"
  have g: "gettoken buf (p + 1) = (CHR ''a'', t, skip_white buf (p + 1 + length w))" "token_text buf t = w"
    using gettoken_at_word [of buf "p + 1" w ?r] b w redirs_ends [OF e(1)] redirs_nul [OF assms(3)] e(2) by (auto simp: t_def)
  have "peek buf p after_exec = (False, p + 1)" using b wordchar_not by (auto simp: peek_eq)
  then have "arg_loop buf (EXEC ts) n p = (case parseredirs buf (EXEC (ts @ [t])) (p + 1 + length w) of Inl e \<Rightarrow> Inl e | Inr (ret, ps) \<Rightarrow> arg_loop buf ret (n + 1) ps)"
    using g(1) Nil.prems(3) by (subst arg_loop.simps) simp
  moreover obtain t' where "parseredirs buf (EXEC (ts @ [t])) (p + 1 + length w) = Inr (t', skip_white buf (p + 1 + length w + length (redirs_text rs)))"
      "texts buf t' = add_redirs (EXEC (map (token_text buf) ts @ [w])) rs"
    using parseredirs_text [of buf "p + 1 + length w" rs r "EXEC (ts @ [t])"] at_append [of buf "p + 1" w ?r] b e assms(3) g(2) by auto
  moreover have "at buf (p + 1 + length w + length (redirs_text rs)) r" using at_append [of buf "p + 1" w ?r] at_append [of buf "p + 1 + length w" "redirs_text rs" r] b by auto
  ultimately show ?case using arg_loop_stop [OF _ assms(4), of buf "p + 1 + length w + length (redirs_text rs)"] by (simp add: add.assoc)
next
  case (Cons w' ws)
  let ?r = "words_text (w' # ws) @ redirs_text rs @ r"
  have w: "word w" "word w'" using Cons.prems by auto
  have a: "at buf p (CHR '' '' # w @ ?r)" using Cons.prems(1) by simp
  note b = at_blank [OF a w(1)]
  have n: "NUL \<notin> set ?r" using Cons.prems(2) redirs_nul [OF assms(3)] assms(4) by (auto dest: word_nul simp: follow_def)
  have "ends ?r" by (simp add: ends_def wordchar_def whitespace_def)
  define t where "t = (p + 1, p + 1 + length w)"
  have g: "gettoken buf (p + 1) = (CHR ''a'', t, skip_white buf (p + 1 + length w))" "token_text buf t = w"
    using gettoken_at_word [of buf "p + 1" w ?r] b w n \<open>ends ?r\<close> by (auto simp: t_def)
  have a': "at buf (p + 1 + length w) ?r" using at_append [of buf "p + 1" w ?r] b by auto
  have "first ?r \<notin> set ''<>''" using first_word [OF w(2), of "words_text ws @ redirs_text rs @ r"] wordchar_not by auto
  then have "parseredirs buf (EXEC (ts @ [t])) (p + 1 + length w) = Inr (EXEC (ts @ [t]), skip_white buf (p + 1 + length w))" using parseredirs_none [OF a'] by blast
  moreover have "peek buf p after_exec = (False, p + 1)" using b wordchar_not by (auto simp: peek_eq)
  ultimately have "arg_loop buf (EXEC ts) n p = arg_loop buf (EXEC (ts @ [t])) (n + 1) (p + 1 + length w)"
    using g(1) Cons.prems(3) by (subst arg_loop.simps) simp
  then show ?case using Cons.IH [OF a', of "n + 1" "ts @ [t]"] Cons.prems(2,3) g(2) by (simp add: add.assoc)
qed

lemma parsesimple_text:
  assumes "at buf p (words_text ws @ redirs_text rs @ r)" "\<forall>w \<in> set ws. word w" "\<forall>(f, md) \<in> set rs. word f" "follow after_exec r" "length ws < MAXARGS"
  shows "\<exists>t. parsesimple buf p = Inr (t, skip_white buf (p + length (words_text ws) + length (redirs_text rs))) \<and> texts buf t = add_redirs (EXEC ws) rs"
proof (cases ws)
  case Nil
  have e: "ends r" "NUL \<notin> set r" "first r \<notin> set ''<>''" using follow_ends [OF assms(4)] assms(4) by (auto simp: follow_def symbols_def)
  have a: "at buf p (redirs_text rs @ r)" using assms(1) Nil by simp
  then obtain t where t: "parseredirs buf (EXEC []) p = Inr (t, skip_white buf (p + length (redirs_text rs)))" "texts buf t = add_redirs (EXEC []) rs"
    using parseredirs_text [OF a assms(3) e, of "EXEC []"] by auto
  then show ?thesis using arg_loop_stop [OF at_append [OF a] assms(4)] Nil by (simp add: parsesimple_def)
next
  case (Cons w ws')
  have "first (words_text ws @ redirs_text rs @ r) \<notin> set ''<>''"
    using first_word [of w "words_text ws' @ redirs_text rs @ r"] wordchar_not assms(2) Cons by auto
  from parseredirs_none [OF assms(1) this] have "parsesimple buf p = arg_loop buf (EXEC []) 0 p" by (simp add: parsesimple_def)
  then show ?thesis using arg_loop_text [of buf p w ws' rs r 0 "[]"] assms Cons by simp
qed

text \<open>The levels of the grammar: what each of the functions makes of the text of a command at its level.\<close>

definition exec_reads :: "string cmd \<Rightarrow> bool" where
  "exec_reads c \<longleftrightarrow> (\<forall>buf p r. at buf p (show_cmd 3 c @ r) \<longrightarrow> follow after_exec r \<longrightarrow>
     (\<exists>t. parseexec buf p = Inr (t, skip_white buf (p + length (show_cmd 3 c))) \<and> texts buf t = c))"

definition pipe_reads :: "string cmd \<Rightarrow> bool" where
  "pipe_reads c \<longleftrightarrow> (\<forall>buf p r. at buf p (show_cmd 2 c @ r) \<longrightarrow> follow after_pipe r \<longrightarrow>
     (\<exists>t. parsepipe buf p = Inr (t, skip_white buf (p + length (show_cmd 2 c))) \<and> texts buf t = c))"

definition back_reads :: "string cmd \<Rightarrow> bool" where
  "back_reads c \<longleftrightarrow> (\<forall>buf p r. at buf p (show_cmd 1 c @ r) \<longrightarrow> follow after_pipe r \<longrightarrow>
     (\<exists>t0 p0 t. parsepipe buf p = Inr (t0, p0) \<and> back_loop buf t0 p0 = back_loop buf t (p + length (show_cmd 1 c)) \<and> texts buf t = c))"

definition line_reads :: "string cmd \<Rightarrow> bool" where
  "line_reads c \<longleftrightarrow> (\<forall>buf p r. at buf p (show_cmd 0 c @ r) \<longrightarrow> follow after_line r \<longrightarrow>
     (\<exists>t. parseline buf p = Inr (t, skip_white buf (p + length (show_cmd 0 c))) \<and> texts buf t = c))"

lemma follow_mono: "follow S r \<Longrightarrow> set S \<subseteq> set T \<Longrightarrow> follow T r"
  by (auto simp: follow_def)

lemma peek_not: "at buf p r \<Longrightarrow> follow S r \<Longrightarrow> set S \<inter> set toks = {} \<Longrightarrow> peek buf p toks = (False, skip_white buf p)"
  by (auto simp: peek_at follow_def)

lemma symbol_at:
  assumes "at buf p (c # r)" "c \<in> set symbols" "c \<notin> set ''<>''"
  shows "skip_white buf p = p" "peek buf p toks = (c \<in> set toks, p)" "gettoken buf p = (c, (p, p + 1), skip_white buf (p + 1))"
proof -
  have c: "ch buf p = c" "c \<noteq> NUL" "c \<notin> set whitespace" "c \<in> set ''|();&<''" using at_Cons [OF assms(1)] assms(2,3) by (auto simp: symbols_def whitespace_def)
  then show s: "skip_white buf p = p" by (simp add: skip_white_id)
  show "peek buf p toks = (c \<in> set toks, p)" using c s by (simp add: peek_def)
  show "gettoken buf p = (c, (p, p + 1), skip_white buf (p + 1))" using c(1,4) gettoken_sym(1) [of buf p] by simp
qed

lemma pipe_of_exec: "exec_reads c \<Longrightarrow> show_cmd 2 c = show_cmd 3 c \<Longrightarrow> pipe_reads c"
  unfolding pipe_reads_def
proof (intro allI impI)
  fix buf p r
  assume e: "exec_reads c" and s: "show_cmd 2 c = show_cmd 3 c" and a: "at buf p (show_cmd 2 c @ r)" and f: "follow after_pipe r"
  from e a f s obtain t where t: "parseexec buf p = Inr (t, skip_white buf (p + length (show_cmd 3 c)))" "texts buf t = c"
    unfolding exec_reads_def using follow_mono [OF f, of after_exec] by fastforce
  then show "\<exists>t. parsepipe buf p = Inr (t, skip_white buf (p + length (show_cmd 2 c))) \<and> texts buf t = c"
    using peek_not [OF at_append [OF a] f, of "''|''"] by (subst parsepipe.simps) (auto simp: s)
qed

lemma back_of_pipe: "pipe_reads c \<Longrightarrow> show_cmd 1 c = show_cmd 2 c \<Longrightarrow> back_reads c"
  unfolding back_reads_def pipe_reads_def by (metis parse_skip(3))

lemma line_of_back: "back_reads c \<Longrightarrow> show_cmd 0 c = show_cmd 1 c \<Longrightarrow> line_reads c"
  unfolding line_reads_def
proof (intro allI impI)
  fix buf p r
  assume e: "back_reads c" and s: "show_cmd 0 c = show_cmd 1 c" and a: "at buf p (show_cmd 0 c @ r)" and f: "follow after_line r"
  from e a f s obtain t0 p0 t where t: "parsepipe buf p = Inr (t0, p0)" "back_loop buf t0 p0 = back_loop buf t (p + length (show_cmd 1 c))" "texts buf t = c"
    unfolding back_reads_def using follow_mono [OF f, of after_pipe] by fastforce
  have "back_loop buf t (p + length (show_cmd 1 c)) = (t, skip_white buf (p + length (show_cmd 1 c)))"
    using peek_not [OF at_append [OF a] f, of "''&''"] by (subst back_loop.simps) (simp add: s)
  then show "\<exists>t. parseline buf p = Inr (t, skip_white buf (p + length (show_cmd 0 c))) \<and> texts buf t = c"
    using peek_not [OF at_append [OF a] f, of "'';''"] t by (subst parseline.simps) (auto simp: s)
qed

text \<open>A block, with redirections after it.\<close>

lemma block_reads:
  assumes "line_reads c" "at buf p (''('' @ show_cmd 0 c @ '')'' @ redirs_text rs @ r)" "\<forall>(f, md) \<in> set rs. word f" "follow after_exec r"
  shows "\<exists>t. parseexec buf p = Inr (t, skip_white buf (p + (length (show_cmd 0 c) + 2) + length (redirs_text rs))) \<and> texts buf t = add_redirs c rs"
proof -
  let ?q = "p + 1 + length (show_cmd 0 c)" and ?r = "redirs_text rs @ r"
  have a: "at buf p (CHR ''('' # show_cmd 0 c @ '')'' @ ?r)" using assms(2) by simp
  note open_at = symbol_at [OF a]
  have a1: "at buf (p + 1) (show_cmd 0 c @ CHR '')'' # ?r)" using at_Cons [OF a] by simp
  then have a2: "at buf ?q (CHR '')'' # ?r)" by (rule at_append)
  note close_at = symbol_at [OF a2]
  have e: "ends r" "NUL \<notin> set r" "first r \<notin> set ''<>''" using follow_ends [OF assms(4)] assms(4) by (auto simp: follow_def symbols_def)
  have "follow after_line (CHR '')'' # ?r)" using redirs_nul [OF assms(3)] e(2) by (auto simp: follow_def first_Cons whitespace_def)
  with assms(1) a1 obtain t where t: "parseline buf (p + 1) = Inr (t, skip_white buf ?q)" "texts buf t = c"
    unfolding line_reads_def by blast
  have "parseexec buf p = parseblock buf p" using open_at by (subst parseexec.simps) (simp add: symbols_def)
  also have "\<dots> = parseredirs buf t (?q + 1)"
    using open_at close_at t(1) by (subst parseblock.simps) (simp add: symbols_def)
  finally have "parseexec buf p = parseredirs buf t (?q + 1)" .
  moreover have "at buf (?q + 1) ?r" using at_Cons [OF a2] by simp
  ultimately show ?thesis using parseredirs_text [OF _ assms(3) e, of buf "?q + 1" t] t(2) by (simp add: add.assoc)
qed

lemma show_nul: "wf_cmd c \<Longrightarrow> NUL \<notin> set (show_cmd lv c)"
  by (induction c arbitrary: lv) (auto simp: paren_def redir_text_def dest: word_nul split: omode.splits)

lemma exec_of_line:
  assumes "line_reads c" "show_cmd 3 c = ''('' @ show_cmd 0 c @ '')''"
  shows "exec_reads c"
  unfolding exec_reads_def
proof (intro allI impI)
  fix buf p r
  assume "at buf p (show_cmd 3 c @ r)" "follow after_exec r"
  then show "\<exists>t. parseexec buf p = Inr (t, skip_white buf (p + length (show_cmd 3 c))) \<and> texts buf t = c"
    using block_reads [OF assms(1), of buf p "[]" r] assms(2) by (simp add: redirs_text_def add_redirs_def)
qed

lemma pipe_reads_PIPE:
  assumes "exec_reads l" "pipe_reads r" "wf_cmd r"
  shows "pipe_reads (PIPE l r)"
  unfolding pipe_reads_def
proof (intro allI impI)
  fix buf p x
  assume "at buf p (show_cmd 2 (PIPE l r) @ x)" and f: "follow after_pipe x"
  then have a: "at buf p (show_cmd 3 l @ CHR ''|'' # show_cmd 2 r @ x)" by (simp add: paren_def)
  let ?q = "p + length (show_cmd 3 l)"
  have "follow after_exec (CHR ''|'' # show_cmd 2 r @ x)" using f show_nul [OF assms(3)] by (auto simp: follow_def first_Cons whitespace_def)
  with assms(1) a obtain t where t: "parseexec buf p = Inr (t, skip_white buf ?q)" "texts buf t = l" unfolding exec_reads_def by blast
  note bar = symbol_at [OF at_append [OF a]]
  have "at buf (?q + 1) (show_cmd 2 r @ x)" using at_Cons [OF at_append [OF a]] by simp
  with assms(2) f obtain u where "parsepipe buf (?q + 1) = Inr (u, skip_white buf (?q + 1 + length (show_cmd 2 r)))" "texts buf u = r"
    unfolding pipe_reads_def by blast
  then show "\<exists>t. parsepipe buf p = Inr (t, skip_white buf (p + length (show_cmd 2 (PIPE l r)))) \<and> texts buf t = PIPE l r"
    using t bar by (subst parsepipe.simps) (simp add: symbols_def paren_def add.assoc)
qed

lemma back_reads_BACK:
  assumes "back_reads c"
  shows "back_reads (BACK c)"
  unfolding back_reads_def
proof (intro allI impI)
  fix buf p x
  assume "at buf p (show_cmd 1 (BACK c) @ x)" and f: "follow after_pipe x"
  then have a: "at buf p (show_cmd 1 c @ CHR ''&'' # x)" by (simp add: paren_def)
  let ?q = "p + length (show_cmd 1 c)"
  have "follow after_pipe (CHR ''&'' # x)" using f by (auto simp: follow_def first_Cons whitespace_def)
  with assms a obtain t0 p0 t where t: "parsepipe buf p = Inr (t0, p0)" "back_loop buf t0 p0 = back_loop buf t ?q" "texts buf t = c"
    unfolding back_reads_def by blast
  have "back_loop buf t ?q = back_loop buf (BACK t) (?q + 1)"
    using symbol_at [OF at_append [OF a]] by (subst back_loop.simps) (simp add: symbols_def)
  then show "\<exists>t0 p0 t. parsepipe buf p = Inr (t0, p0) \<and> back_loop buf t0 p0 = back_loop buf t (p + length (show_cmd 1 (BACK c))) \<and> texts buf t = BACK c"
    using t by (intro exI [of _ t0] exI [of _ p0] exI [of _ "BACK t"]) (simp add: paren_def add.assoc)
qed

lemma line_reads_LIST:
  assumes "back_reads l" "line_reads r" "wf_cmd r"
  shows "line_reads (LIST l r)"
  unfolding line_reads_def
proof (intro allI impI)
  fix buf p x
  assume "at buf p (show_cmd 0 (LIST l r) @ x)" and f: "follow after_line x"
  then have a: "at buf p (show_cmd 1 l @ CHR '';'' # show_cmd 0 r @ x)" by (simp add: paren_def)
  let ?q = "p + length (show_cmd 1 l)"
  have "follow after_pipe (CHR '';'' # show_cmd 0 r @ x)" using f show_nul [OF assms(3)] by (auto simp: follow_def first_Cons whitespace_def)
  with assms(1) a obtain t0 p0 t where t: "parsepipe buf p = Inr (t0, p0)" "back_loop buf t0 p0 = back_loop buf t ?q" "texts buf t = l"
    unfolding back_reads_def by blast
  note semi = symbol_at [OF at_append [OF a]]
  have "back_loop buf t ?q = (t, ?q)" using semi by (subst back_loop.simps) (simp add: symbols_def)
  moreover have "at buf (?q + 1) (show_cmd 0 r @ x)" using at_Cons [OF at_append [OF a]] by simp
  with assms(2) f obtain u where "parseline buf (?q + 1) = Inr (u, skip_white buf (?q + 1 + length (show_cmd 0 r)))" "texts buf u = r"
    unfolding line_reads_def by blast
  ultimately show "\<exists>t. parseline buf p = Inr (t, skip_white buf (p + length (show_cmd 0 (LIST l r)))) \<and> texts buf t = LIST l r"
    using t semi by (subst parseline.simps) (simp add: symbols_def paren_def add.assoc)
qed

text \<open>The redirections around a command.\<close>

definition split_at :: "string cmd \<Rightarrow> string cmd \<Rightarrow> (string \<times> omode) list \<Rightarrow> bool" where
  "split_at c b rs \<longleftrightarrow> c = add_redirs b rs \<and> wf_cmd b \<and> (\<forall>(f, md) \<in> set rs. word f) \<and> show_cmd 3 c = show_cmd 3 b @ redirs_text rs \<and>
     (\<forall>c' f md fd. b \<noteq> REDIR c' f md fd) \<and> size b \<le> size c \<and> (rs \<noteq> [] \<longrightarrow> size b < size c)"

lemma split_self: "wf_cmd c \<Longrightarrow> (\<And>c' f md fd. c \<noteq> REDIR c' f md fd) \<Longrightarrow> \<exists>b rs. split_at c b rs"
  by (rule exI [of _ c], rule exI [of _ "[]"]) (simp add: split_at_def add_redirs_def redirs_text_def)

lemma redirs_split: "wf_cmd c \<Longrightarrow> \<exists>b rs. split_at c b rs"
proof (induction c)
  case (REDIR c f md fd)
  then obtain b rs where "split_at c b rs" by auto
  then have "split_at (REDIR c f md fd) b (rs @ [(f, md)])" using REDIR.prems by (auto simp: split_at_def add_redirs_def redirs_text_def)
  then show ?case by blast
qed (rule split_self; simp)+

lemma first_simple:
  assumes "\<forall>w \<in> set ws. word w" "follow after_exec r"
  shows "first (words_text ws @ redirs_text rs @ r) \<noteq> CHR ''(''"
proof (cases ws)
  case Nil
  then show ?thesis
  proof (cases rs)
    case (Cons fm rs')
    then show ?thesis using Nil
      by (cases fm; cases "snd fm") (auto simp: redirs_text_def redir_text_def first_Cons whitespace_def)
  qed (use assms(2) in \<open>auto simp: redirs_text_def follow_def\<close>)
next
  case (Cons w ws')
  then have "wordchar (first (words_text ws @ redirs_text rs @ r))" using first_word [of w "words_text ws' @ redirs_text rs @ r"] assms(1) by simp
  then show ?thesis by (auto simp: wordchar_def symbols_def)
qed

lemma simple_reads:
  assumes "at buf p (words_text ws @ redirs_text rs @ r)" "wf_cmd (EXEC ws)" "\<forall>(f, md) \<in> set rs. word f" "follow after_exec r"
  shows "\<exists>t. parseexec buf p = Inr (t, skip_white buf (p + length (words_text ws) + length (redirs_text rs))) \<and> texts buf t = add_redirs (EXEC ws) rs"
proof -
  have "parseexec buf p = parsesimple buf p"
    using peek_at [OF assms(1), of "''(''"] first_simple [of ws r rs] assms by (subst parseexec.simps) simp
  then show ?thesis using parsesimple_text [OF assms(1) _ assms(3,4)] assms(2) by simp
qed

lemma levels_read:
  "wf_cmd c \<Longrightarrow> exec_reads c \<and> pipe_reads c \<and> back_reads c \<and> line_reads c"
proof (induction c rule: measure_induct_rule [of size])
  case (less c)
  have up: "exec_reads c \<Longrightarrow> show_cmd 2 c = show_cmd 3 c \<Longrightarrow> show_cmd 1 c = show_cmd 2 c \<Longrightarrow> show_cmd 0 c = show_cmd 1 c \<Longrightarrow> ?case"
    using pipe_of_exec back_of_pipe line_of_back by blast
  have simple: "exec_reads c" if c: "\<And>l r. c \<noteq> PIPE l r" "\<And>l r. c \<noteq> LIST l r" "\<And>b. c \<noteq> BACK b"
    unfolding exec_reads_def
  proof (intro allI impI)
    fix buf p r
    assume a: "at buf p (show_cmd 3 c @ r)" and f: "follow after_exec r"
    obtain b rs where "split_at c b rs" using redirs_split [OF less.prems] by blast
    then have b: "c = add_redirs b rs" "wf_cmd b" "\<forall>(f, md) \<in> set rs. word f" "show_cmd 3 c = show_cmd 3 b @ redirs_text rs"
      "\<And>c' f md fd. b \<noteq> REDIR c' f md fd" "rs \<noteq> [] \<Longrightarrow> size b < size c" unfolding split_at_def by auto
    show "\<exists>t. parseexec buf p = Inr (t, skip_white buf (p + length (show_cmd 3 c))) \<and> texts buf t = c"
    proof (cases "\<exists>ws. b = EXEC ws")
      case True
      then show ?thesis using simple_reads [of buf p _ rs r] a b f by (auto simp: add.assoc)
    next
      case False
      then have p: "show_cmd 3 b = ''('' @ show_cmd 0 b @ '')''" using b(5) by (cases b) (auto simp: paren_def)
      have "rs \<noteq> []"
      proof
        assume "rs = []"
        then have "c = b" using b(1) by (simp add: add_redirs_def)
        then show False using False b(5) c by (cases b) auto
      qed
      then have "line_reads b" using less.IH b by blast
      then show ?thesis using block_reads [of b buf p rs r] a b(1,3,4) f p by (simp add: add.assoc)
    qed
  qed
  show ?case
  proof (cases c)
    case (PIPE l r)
    then have "pipe_reads c" using less by (simp add: pipe_reads_PIPE)
    moreover from this have "back_reads c" "line_reads c" using PIPE back_of_pipe line_of_back by (auto simp: paren_def)
    ultimately show ?thesis using exec_of_line PIPE by (auto simp: paren_def)
  next
    case (LIST l r)
    then have "line_reads c" using less by (simp add: line_reads_LIST)
    moreover from this have "exec_reads c" using exec_of_line LIST by (auto simp: paren_def)
    moreover from this have "pipe_reads c" "back_reads c" using LIST pipe_of_exec back_of_pipe by (auto simp: paren_def)
    ultimately show ?thesis by blast
  next
    case (BACK b)
    then have "back_reads c" using less by (simp add: back_reads_BACK)
    moreover from this have "line_reads c" using BACK line_of_back by (auto simp: paren_def)
    moreover from this have "exec_reads c" using exec_of_line BACK by (auto simp: paren_def)
    moreover from this have "pipe_reads c" using BACK pipe_of_exec by (auto simp: paren_def)
    ultimately show ?thesis by blast
  qed (use simple up in auto)
qed

text \<open>C32: The shell reads what it is told.  Every command whose words consist of word characters, with fewer than ten words for a
  program, has a text that \<open>parsecmd\<close> turns back into it, with white space behind it such as the newline: the tree is the
  same, and the strings that \<open>nulterminate\<close> leaves in the buffer at the addresses of the tree are its words.\<close>

theorem parsecmd_roundtrip:
  assumes "wf_cmd c" "set w \<subseteq> set whitespace"
  shows "\<exists>t b. parsecmd (show_cmd 0 c @ w) = Inr (t, b) \<and> map_cmd (\<lambda>(q, eq). cstring b q) t = c"
proof -
  let ?buf = "show_cmd 0 c @ w"
  have nw: "NUL \<notin> set w" using assms(2) white_nul by blast
  have f: "first w = NUL" "dropWhile white w = []" using assms(2) by (induction w) (auto simp: first_Cons)
  have a: "at ?buf 0 ?buf" by (simp add: at_def)
  obtain t where t: "parseline ?buf 0 = Inr (t, skip_white ?buf (length (show_cmd 0 c)))" "texts ?buf t = c"
    using levels_read [OF assms(1)] a f(1) nw unfolding line_reads_def by (fastforce simp: follow_def)
  have "at ?buf (skip_white ?buf (length (show_cmd 0 c))) []"
    using at_skip_white [OF at_append [OF a], simplified] f(2) by simp
  then have l: "skip_white ?buf (length (show_cmd 0 c)) = length ?buf" by (rule at_Nil)
  let ?b = "nulterminate t (?buf @ [NUL])"
  have "parsecmd ?buf = Inr (t, ?b)" using t(1) l by (simp add: parsecmd_def peek_def Let_def skip_white_id ch_def)
  moreover have "words_ok ?buf t" using parse_words(1) [OF t(1)] show_nul [OF assms(1)] nw by auto
  then have "map_cmd (\<lambda>(q, eq). cstring ?b q) t = texts ?buf t"
    using nulterminate_string [of ?buf t] by (intro cmd.map_cong) (auto simp: split_beta)
  ultimately show ?thesis using t(2) by (intro exI [of _ t] exI [of _ ?b]) simp
qed

theorem parsecmd_roundtrip_witness:
  "\<exists>t b. parsecmd (''( ls -l; who) >>f| wc <g&'' @ [CHR 0x0A]) = Inr (t, b) \<and> map_cmd (\<lambda>(q, eq). cstring b q) t =
     BACK (PIPE (REDIR (LIST (EXEC [''ls'', ''-l'']) (EXEC [''who''])) ''f'' O_APPEND 1) (REDIR (EXEC [''wc'']) ''g'' O_READ 0))"
proof -
  let ?c = "BACK (PIPE (REDIR (LIST (EXEC [''ls'', ''-l'']) (EXEC [''who''])) ''f'' O_APPEND 1) (REDIR (EXEC [''wc'']) ''g'' O_READ 0))"
  have "show_cmd 0 ?c = ''( ls -l; who) >>f| wc <g&''" by (simp add: paren_def redir_text_def)
  moreover have "wf_cmd ?c" by (simp add: word_def wordchar_def whitespace_def symbols_def redir_fd_def MAXARGS_def)
  ultimately show ?thesis using parsecmd_roundtrip [of ?c "[CHR 0x0A]"] by (simp add: whitespace_def)
qed

text \<open>The words of any command line.  Whenever \<open>parsecmd\<close> accepts a line, every word of the command is a
  maximal sequence of word characters of the line, and the string that stands at its address afterwards is exactly this word: no NUL that
  \<open>nulterminate\<close> stores falls into another word.\<close>

theorem parsecmd_words:
  assumes "NUL \<notin> set buf" "parsecmd buf = Inr (t, b)" "(q, eq) \<in> set_cmd t"
  shows "is_word buf (q, eq) \<and> cstring b q = take (eq - q) (drop q buf)"
proof -
  obtain s where t: "parseline buf 0 = Inr (t, s)" "b = nulterminate t (buf @ [NUL])"
    using assms(2) by (auto simp: parsecmd_def split: sum.splits prod.splits if_splits)
  then have "words_ok buf t" using parse_words(1) assms(1) by blast
  then show ?thesis using nulterminate_string [OF _ assms(3)] assms(3) t(2) by (auto simp: words_ok_def token_text_def)
qed

theorem parsecmd_words_witness:
  "parsecmd ''ls>f'' = Inr (REDIR (EXEC [(0, 2)]) (3, 4) O_WRITE 1, [CHR ''l'', CHR ''s'', NUL, CHR ''f'', NUL]) \<and>
   cstring [CHR ''l'', CHR ''s'', NUL, CHR ''f'', NUL] 0 = ''ls''"
proof -
  have p: "parsecmd ''ls>f'' = Inr (REDIR (EXEC [(0, 2)]) (3, 4) O_WRITE 1, [CHR ''l'', CHR ''s'', NUL, CHR ''f'', NUL])" by code_simp
  show ?thesis using p parsecmd_words [OF _ p, of 0 2] by simp
qed

end
