(* ===== verification/Shrun.thy ===== *)
theory Shrun
  imports Sh Uprintf
begin

text \<open>
  The execution of commands by the shell: \<open>runcmd\<close> and the main loop of \<open>usr/sh.c\<close>.

  A process is the tree of what it does: it forks, waits, writes a message, becomes another program or exits.  Its table of open
  files is the list of its slots; a new descriptor is the lowest free slot.  A pipe is named by the process that creates it, and a process by
  the path of forks that leads to it: a process that has created a pipe creates no other.  Whether a program can be executed, a file opened or a child
  created is a parameter: the number of the error, or 0.  A failing call returns the negated number (\<open>trap\<close> of the kernel).
\<close>

subsection \<open>Open files\<close>

datatype ofile = Term nat | Opened string omode | Pipe_read "nat list" | Pipe_write "nat list"

type_synonym fdtab = "ofile option list"

fun free_slot :: "fdtab \<Rightarrow> nat option" where
  "free_slot [] = None"
| "free_slot (None # fds) = Some 0"
| "free_slot (Some f # fds) = map_option Suc (free_slot fds)"

text \<open>The calls \<open>open\<close> and \<open>creat\<close>, \<open>dup\<close>, \<open>close\<close> and \<open>pipe\<close> on the table.\<close>

definition sys_new :: "ofile \<Rightarrow> fdtab \<Rightarrow> (nat \<times> fdtab) option" where
  "sys_new f fds = map_option (\<lambda>i. (i, fds[i := Some f])) (free_slot fds)"

definition sys_close :: "nat \<Rightarrow> fdtab \<Rightarrow> fdtab" where
  "sys_close i fds = fds[i := None]"

definition sys_dup :: "nat \<Rightarrow> fdtab \<Rightarrow> fdtab" where
  "sys_dup i fds =
     (if i < length fds then
        case fds ! i of None \<Rightarrow> fds | Some f \<Rightarrow> (case sys_new f fds of None \<Rightarrow> fds | Some (_, fds) \<Rightarrow> fds)
      else fds)"

definition sys_pipe :: "nat list \<Rightarrow> fdtab \<Rightarrow> (nat \<times> nat \<times> fdtab) option" where
  "sys_pipe me fds =
     (case sys_new (Pipe_read me) fds of
        None \<Rightarrow> None
      | Some (p0, fds) \<Rightarrow> (case sys_new (Pipe_write me) fds of None \<Rightarrow> None | Some (p1, fds) \<Rightarrow> Some (p0, p1, fds)))"

subsection \<open>Running a command\<close>

record shenv =
  exec_ok :: "string \<Rightarrow> bool"
  open_err :: "string \<Rightarrow> omode \<Rightarrow> nat"
  fork_err :: "nat list \<Rightarrow> nat"

datatype process =
    Exit
  | Run string "string list" fdtab
  | Fork process process
  | Wait process
  | Msg string process

definition newline :: string where
  "newline = [CHR 0x0A]"

text \<open>The static buffer \<open>bincmd\<close> has room for 19 characters behind its prefix.\<close>

definition bincmd :: "string \<Rightarrow> string" where
  "bincmd w = ''/bin/'' @ take 19 w"

definition open_msg :: "string \<Rightarrow> nat \<Rightarrow> process" where
  "open_msg f e = Msg (''open '' @ f @ '' failed, error '' @ itoa (- of_nat e) @ newline) Exit"

text \<open>\<open>if(fork1() == 0) child; parent\<close>: \<open>fork1\<close> exits with a message when \<open>fork\<close> returns -1; with any other error the parent goes on without
  a child.\<close>

definition fork1 :: "shenv \<Rightarrow> nat list \<Rightarrow> process \<Rightarrow> process \<Rightarrow> process" where
  "fork1 E child c p =
     (if fork_err E child = 0 then Fork c p
      else if - int (fork_err E child) = -1 then Msg (panic ''fork'') Exit
      else p)"

fun runcmd :: "shenv \<Rightarrow> nat list \<Rightarrow> nat \<Rightarrow> fdtab \<Rightarrow> string cmd \<Rightarrow> process" where
  "runcmd E me n fds (EXEC []) = Exit"
| "runcmd E me n fds (EXEC (w # ws)) =
     (let path = (if w \<noteq> [] \<and> hd w = CHR ''/'' then w else bincmd w)
      in if exec_ok E path then Run path (w # ws) fds else Msg (''exec '' @ w @ '' failed'' @ newline) Exit)"
| "runcmd E me n fds (REDIR c f md fd) =
     (let fds = sys_close fd fds
      in if open_err E f md = 0 then
           (case sys_new (Opened f md) fds of
              None \<Rightarrow> open_msg f 24
            | Some (_, fds) \<Rightarrow> runcmd E me n fds c)
         else open_msg f (open_err E f md))"
| "runcmd E me n fds (LIST l r) =
     fork1 E (me @ [n]) (runcmd E (me @ [n]) 0 fds l) (Wait (runcmd E me (n + 1) fds r))"
| "runcmd E me n fds (PIPE l r) =
     (case sys_pipe me fds of
        None \<Rightarrow> Msg (panic ''pipe'') Exit
      | Some (p0, p1, fds) \<Rightarrow>
          fork1 E (me @ [n])
            (runcmd E (me @ [n]) 0 (sys_close p1 (sys_close p0 (sys_dup p1 (sys_close 1 fds)))) l)
            (fork1 E (me @ [n + 1])
              (runcmd E (me @ [n + 1]) 0 (sys_close p1 (sys_close p0 (sys_dup p0 (sys_close 0 fds)))) r)
              (Wait (Wait Exit))))"
| "runcmd E me n fds (BACK c) = fork1 E (me @ [n]) (runcmd E (me @ [n]) 0 fds c) Exit"

subsection \<open>The main loop\<close>

text \<open>\<open>gets(buf, 100)\<close>: a line with its newline or carriage return, at most 99 characters of it.\<close>

fun read_line :: "nat \<Rightarrow> string \<Rightarrow> string \<times> string" where
  "read_line 0 inp = ([], inp)"
| "read_line (Suc n) [] = ([], [])"
| "read_line (Suc n) (c # inp) =
     (if c = CHR 0x0A \<or> c = CHR 0x0D then ([c], inp)
      else case read_line n inp of (l, inp) \<Rightarrow> (c # l, inp))"

datatype action = Chdir string | Child process | Quit

text \<open>One turn of the loop, on the line as a C string.  The child of the \<open>n\<close>th turn has the name \<open>[n]\<close>.\<close>

definition turn :: "shenv \<Rightarrow> nat \<Rightarrow> fdtab \<Rightarrow> string \<Rightarrow> action" where
  "turn E n fds buf =
     (if take 3 buf = ''cd '' then Chdir (drop 3 (butlast buf))
      else if buf = ''exit'' @ newline then Quit
      else
        Child (case parsecmd buf of
            Inl e \<Rightarrow> Msg e Exit
          | Inr (t, b) \<Rightarrow> runcmd E [n] 0 fds (map_cmd (\<lambda>(q, eq). cstring b q) t)))"

function sh_main :: "shenv \<Rightarrow> nat \<Rightarrow> fdtab \<Rightarrow> string \<Rightarrow> action list" where
  "sh_main E n fds inp =
     (case read_line 99 inp of
        (l, rest) \<Rightarrow>
          let buf = cstring (l @ [CHR 0x00]) 0
          in if buf = [] then []
             else if turn E n fds buf = Quit then [Quit]
             else turn E n fds buf # sh_main E (n + 1) fds rest)"
  by pat_completeness auto

lemma read_line_length: "read_line n inp = (l, rest) \<Longrightarrow> length inp = length l + length rest"
  by (induction n inp arbitrary: l rest rule: read_line.induct) (auto split: if_splits prod.splits)

termination sh_main
proof (relation "measure (\<lambda>(_, _, _, inp). length inp)")
  fix E n fds inp l rest buf
  assume g: "(l, rest) = read_line 99 inp" and b: "buf = cstring (l @ [CHR 0x00]) 0" "buf \<noteq> []"
  then have "l \<noteq> []" by (auto simp: cstring_def)
  then show "((E, n + 1, fds, rest), (E, n, fds, inp)) \<in> measure (\<lambda>(_, _, _, inp). length inp)"
    using read_line_length [of 99 inp l rest] g by (cases l) auto
qed simp

declare sh_main.simps [simp del]

subsection \<open>The plumbing\<close>

text \<open>What a command means: the programs run with the table of the shell, in which a redirection replaces the descriptor it names and a pipe
  the standard output of its left and the standard input of its right part.\<close>

fun plumb :: "shenv \<Rightarrow> nat list \<Rightarrow> nat \<Rightarrow> fdtab \<Rightarrow> string cmd \<Rightarrow> process" where
  "plumb E me n fds (EXEC ws) = runcmd E me n fds (EXEC ws)"
| "plumb E me n fds (REDIR c f md fd) =
     (if open_err E f md = 0 then plumb E me n (fds[fd := Some (Opened f md)]) c else open_msg f (open_err E f md))"
| "plumb E me n fds (LIST l r) = fork1 E (me @ [n]) (plumb E (me @ [n]) 0 fds l) (Wait (plumb E me (n + 1) fds r))"
| "plumb E me n fds (PIPE l r) =
     fork1 E (me @ [n]) (plumb E (me @ [n]) 0 (fds[1 := Some (Pipe_write me)]) l)
       (fork1 E (me @ [n + 1]) (plumb E (me @ [n + 1]) 0 (fds[0 := Some (Pipe_read me)]) r) (Wait (Wait Exit)))"
| "plumb E me n fds (BACK c) = fork1 E (me @ [n]) (plumb E (me @ [n]) 0 fds c) Exit"

definition std_open :: "fdtab \<Rightarrow> bool" where
  "std_open fds \<longleftrightarrow> 2 \<le> length fds \<and> fds ! 0 \<noteq> None \<and> fds ! 1 \<noteq> None"

definition two_free :: "fdtab \<Rightarrow> bool" where
  "two_free fds \<longleftrightarrow> (\<exists>i j. i < j \<and> j < length fds \<and> fds ! i = None \<and> fds ! j = None)"

lemma free_slot_least:
  "i < length fds \<Longrightarrow> fds ! i = None \<Longrightarrow> \<forall>j < i. fds ! j \<noteq> None \<Longrightarrow> free_slot fds = Some i"
proof (induction fds arbitrary: i rule: free_slot.induct)
  case (2 fds)
  then show ?case by (cases i) auto
next
  case (3 f fds)
  then obtain k where k: "i = Suc k" by (cases i) auto
  have "\<forall>j < k. fds ! j \<noteq> None" using 3(4) k by (metis Suc_mono nth_Cons_Suc)
  then show ?case using 3(1) [of k] 3(2,3) k by simp
qed simp

lemma least_free:
  assumes "i < length fds" "fds ! i = None"
  obtains j where "j \<le> i" "j < length fds" "fds ! j = None" "\<forall>k < j. fds ! k \<noteq> None"
proof -
  let ?j = "LEAST j. j < length fds \<and> fds ! j = None"
  have "?j < length fds \<and> fds ! ?j = None" using LeastI [of "\<lambda>j. j < length fds \<and> fds ! j = None" i] assms by blast
  moreover have "?j \<le> i" using Least_le [of "\<lambda>j. j < length fds \<and> fds ! j = None" i] assms by blast
  moreover have "\<forall>k < ?j. fds ! k \<noteq> None"
  proof (intro allI impI notI)
    fix k assume "k < ?j" "fds ! k = None"
    then show False using not_less_Least [of k "\<lambda>j. j < length fds \<and> fds ! j = None"] calculation by auto
  qed
  ultimately show thesis using that by blast
qed

lemma new_at:
  "i < length fds \<Longrightarrow> fds ! i = None \<Longrightarrow> \<forall>j < i. fds ! j \<noteq> None \<Longrightarrow> sys_new f fds = Some (i, fds[i := Some f])"
  by (simp add: sys_new_def free_slot_least)

lemma pipe_at:
  assumes "two_free fds" "std_open fds"
  obtains i j where "2 \<le> i" "i < j" "j < length fds" "fds ! i = None" "fds ! j = None"
    "sys_pipe me fds = Some (i, j, fds[i := Some (Pipe_read me), j := Some (Pipe_write me)])"
proof -
  obtain a b where ab: "a < b" "b < length fds" "fds ! a = None" "fds ! b = None" using assms(1) by (auto simp: two_free_def)
  then obtain i where i: "i \<le> a" "i < length fds" "fds ! i = None" "\<forall>k < i. fds ! k \<noteq> None" using least_free [of a fds] by auto
  let ?f = "fds[i := Some (Pipe_read me)]"
  have "?f ! b = None" "b < length ?f" using ab i by auto
  then obtain j where j: "j < length fds" "?f ! j = None" "\<forall>k < j. ?f ! k \<noteq> None" using least_free [of b ?f] by (metis length_list_update)
  have "j \<noteq> i" "\<not> j < i" using i j by (auto simp: nth_list_update split: if_splits)
  moreover have "i \<noteq> 0" "i \<noteq> 1" using i(3) assms(2) by (metis std_open_def)+
  moreover have "sys_pipe me fds = Some (i, j, fds[i := Some (Pipe_read me), j := Some (Pipe_write me)])"
    using new_at [OF i(2,3,4)] new_at [of j ?f "Pipe_write me"] j by (simp add: sys_pipe_def)
  moreover have "2 \<le> i" "i < j" "fds ! j = None" using calculation(1-4) j(2) by auto
  ultimately show thesis using that i j by blast
qed

fun std_redirs :: "'a cmd \<Rightarrow> bool" where
  "std_redirs (EXEC ws) \<longleftrightarrow> True"
| "std_redirs (REDIR c f md fd) \<longleftrightarrow> fd < 2 \<and> std_redirs c"
| "std_redirs (PIPE l r) \<longleftrightarrow> std_redirs l \<and> std_redirs r"
| "std_redirs (LIST l r) \<longleftrightarrow> std_redirs l \<and> std_redirs r"
| "std_redirs (BACK c) \<longleftrightarrow> std_redirs c"

lemma std_update: "std_open fds \<Longrightarrow> std_open (fds[i := Some f])"
  by (cases fds; cases "tl fds"; cases i; cases "i - 1") (auto simp: std_open_def)

lemma two_free_update:
  assumes "two_free fds" "std_open fds" "i < 2"
  shows "two_free (fds[i := Some f])"
proof -
  obtain a b where ab: "a < b" "b < length fds" "fds ! a = None" "fds ! b = None" using assms(1) by (auto simp: two_free_def)
  have "i = 0 \<or> i = 1" using assms(3) by linarith
  then have "i \<noteq> a" "i \<noteq> b" using ab(3,4) assms(2) by (auto simp: std_open_def intro!: notI)
  with ab show ?thesis unfolding two_free_def by (intro exI [of _ a] exI [of _ b]) simp
qed

lemma reopen:
  assumes "std_open fds" "fd < 2"
  shows "sys_new f (sys_close fd fds) = Some (fd, fds[fd := Some f])"
proof -
  have "\<forall>j < fd. (sys_close fd fds) ! j \<noteq> None" using assms by (auto simp: sys_close_def std_open_def less_Suc_eq numeral_2_eq_2)
  then show ?thesis using new_at [of fd "sys_close fd fds" f] assms by (simp add: sys_close_def std_open_def)
qed

lemma plumbed:
  assumes "std_open fds" "fd < 2" "2 \<le> i" "i < j" "j < length fds" "fds ! i = None" "fds ! j = None" "k = i \<and> f = g \<or> k = j \<and> f = h"
  shows "sys_close j (sys_close i (sys_dup k (sys_close fd (fds[i := Some g, j := Some h])))) = fds[fd := Some f]"
proof -
  let ?fds = "fds[i := Some g, j := Some h]"
  have "sys_close fd ?fds ! k = Some f" "k < length fds" using assms by (auto simp: sys_close_def nth_list_update)
  then have "sys_dup k (sys_close fd ?fds) = ?fds[fd := Some f]"
    using reopen [OF std_update [OF std_update [OF assms(1)]] assms(2)] by (simp add: sys_dup_def sys_close_def)
  then show ?thesis
    using assms by (intro nth_equalityI) (auto simp: sys_close_def nth_list_update)
qed



end
