(* ===== verification/Mkfs.thy ===== *)
theory Mkfs
  imports Pc
begin

unbundle bit_operations_syntax

text \<open>
  \<open>tools/mkfs.c\<close>: the program that builds the image of a file system from a description.  It is compiled on the
  host with \<open>int\<close> defined as \<open>short\<close>: the declared integers have 16 bits, while functions and parameters without a
  declared type have the \<open>int\<close> of the host, which is unbounded here.

  The image is a function from block numbers to the 256 words of a block, with the number of blocks that the file has.
  \<open>None\<close> stands for an exit with a message and for leaving the bounds of an array or the end of the description.
\<close>

abbreviation (input) "NUL \<equiv> CHR 0x00"

definition BLK :: nat where
  "BLK = 256"

record mkfs =
  s_isize :: u16
  s_fsize :: u16
  s_nfree :: u16
  s_free :: "u16 list"
  mbuf :: "u16 list"
  image :: "int \<Rightarrow> u16 list"
  nblocks :: int
  ino :: int
  inp :: string
  f_n :: nat
  f_m :: nat

subsection \<open>Blocks\<close>

definition rdfs :: "int \<Rightarrow> mkfs \<Rightarrow> mkfs option" where
  "rdfs bno m = (if 0 \<le> bno \<and> bno < nblocks m then Some (m\<lparr>mbuf := image m bno\<rparr>) else None)"

definition wtfs :: "int \<Rightarrow> u16 list \<Rightarrow> mkfs \<Rightarrow> mkfs option" where
  "wtfs bno bf m =
     (if 0 \<le> bno then Some (m\<lparr>image := (image m)(bno := bf), nblocks := max (nblocks m) (bno + 1)\<rparr>) else None)"

definition alloc :: "mkfs \<Rightarrow> (u16 \<times> mkfs) option" where
  "alloc m =
     (let n = s_nfree m - 1 in
      if sint n < 0 \<or> 100 \<le> sint n then None
      else
        let bno = s_free m ! unat n;
            m = m\<lparr>s_nfree := n, s_free := (s_free m)[unat n := 0]\<rparr>
        in if bno = 0 then None
           else if sint n \<le> 0 then do {
             m \<leftarrow> rdfs (sint bno) m;
             Some (bno, m\<lparr>s_nfree := mbuf m ! 0, s_free := map (\<lambda>i. mbuf m ! (i + 1)) [0..<100]\<rparr>) }
           else Some (bno, m))"

definition bfree :: "int \<Rightarrow> mkfs \<Rightarrow> mkfs option" where
  "bfree bno m = do {
     m \<leftarrow> (if 100 \<le> sint (s_nfree m) then do {
             let m = m\<lparr>mbuf := s_nfree m # map (\<lambda>i. s_free m ! i) [0..<100] @ drop 101 (mbuf m)\<rparr>;
             m \<leftarrow> wtfs bno (mbuf m) m;
             Some (m\<lparr>s_nfree := 0\<rparr>) }
           else Some m);
     if sint (s_nfree m) < 0 then None
     else Some (m\<lparr>s_free := (s_free m)[unat (s_nfree m) := of_int bno], s_nfree := s_nfree m + 1\<rparr>) }"

subsection \<open>The free list\<close>

text \<open>\<open>while(flg[i]) i = (i+1)%f_n;\<close>\<close>

partial_function (option) probe :: "bool list \<Rightarrow> nat \<Rightarrow> nat option" where
  "probe flg i = (if flg ! i then probe flg ((i + 1) mod length flg) else Some i)"

text \<open>The loop that fills \<open>adr\<close>; \<open>k\<close> is the number of turns left.\<close>

fun interleave :: "nat \<Rightarrow> nat \<Rightarrow> bool list \<Rightarrow> nat \<Rightarrow> nat list option" where
  "interleave fm 0 flg i = Some []"
| "interleave fm (Suc k) flg i = do {
     i \<leftarrow> probe flg i;
     adr \<leftarrow> interleave fm k (flg[i := True]) ((i + fm) mod length flg);
     Some (i # adr) }"

text \<open>\<open>for(i=high; lrem(0,i+1,f_n); i--) { if(i < low) break; bfree(i); }\<close>\<close>

function align_loop :: "int \<Rightarrow> int \<Rightarrow> int \<Rightarrow> mkfs \<Rightarrow> (int \<times> mkfs) option" where
  "align_loop low fn i m =
     (if (i + 1) smod fn = 0 \<or> i < low then Some (i, m)
      else do { m \<leftarrow> bfree i m; align_loop low fn (i - 1) m })"
  by pat_completeness auto
termination by (relation "measure (\<lambda>(low, fn, i, m). nat (i - low + 1))") auto

fun free_all :: "int list \<Rightarrow> mkfs \<Rightarrow> mkfs option" where
  "free_all [] m = Some m"
| "free_all (b # bs) m = do { m \<leftarrow> bfree b m; free_all bs m }"

text \<open>\<open>for(; i >= low+f_n; i -= f_n) for(j=0; j<f_n; j++) bfree(i-adr[j]);\<close>\<close>

function group_loop :: "int \<Rightarrow> nat list \<Rightarrow> int \<Rightarrow> mkfs \<Rightarrow> (int \<times> mkfs) option" where
  "group_loop low adr i m =
     (if low + int (length adr) \<le> i \<and> adr \<noteq> [] then do {
        m \<leftarrow> free_all (map (\<lambda>a. i - int a) adr) m;
        group_loop low adr (i - int (length adr)) m }
      else Some (i, m))"
  by pat_completeness auto
termination by (relation "measure (\<lambda>(low, adr, i, m). nat (i - low + 1))") (auto simp: neq_Nil_conv)

function rest_loop :: "int \<Rightarrow> int \<Rightarrow> mkfs \<Rightarrow> mkfs option" where
  "rest_loop low i m = (if low \<le> i then do { m \<leftarrow> bfree i m; rest_loop low (i - 1) m } else Some m)"
  by pat_completeness auto
termination by (relation "measure (\<lambda>(low, i, m). nat (i - low + 1))") auto

declare align_loop.simps [simp del] group_loop.simps [simp del] rest_loop.simps [simp del]

definition bflist :: "mkfs \<Rightarrow> mkfs option" where
  "bflist m = do {
     let m = m\<lparr>f_n := min (f_n m) 100\<rparr>;
     adr \<leftarrow> interleave (f_m m) (f_n m) (replicate (f_n m) False) 0;
     let high = uint (s_fsize m - 1);
     let low = uint (s_isize m + 2);
     m \<leftarrow> bfree 0 m;
     (i, m) \<leftarrow> align_loop low (int (f_n m)) high m;
     (i, m) \<leftarrow> group_loop low adr i m;
     rest_loop low i m }"

subsection \<open>The description\<close>

abbreviation "blank c \<equiv> c = CHR '' '' \<or> c = CHR 0x09 \<or> c = CHR 0x0A"

text \<open>\<open>while(getch() != '\n');\<close>\<close>

fun skip_line :: "string \<Rightarrow> string option" where
  "skip_line [] = None"
| "skip_line (c # s) = (if c = CHR 0x0A then Some s else skip_line s)"

lemma skip_line_length: "skip_line s = Some r \<Longrightarrow> length r < length s"
  by (induction s) (auto split: if_splits)

function find_str :: "string \<Rightarrow> (char \<times> string) option" where
  "find_str s =
     (case s of
        [] \<Rightarrow> None
      | c # s \<Rightarrow>
          if blank c then find_str s
          else if c = NUL then None
          else if c = CHR '':'' then (case skip_line s of None \<Rightarrow> None | Some s \<Rightarrow> find_str s)
          else Some (c, s))"
  by pat_completeness auto
termination by (relation "measure length") (auto dest: skip_line_length)

declare find_str.simps [simp del]

fun rest_str :: "string \<Rightarrow> (string \<times> string) option" where
  "rest_str [] = None"
| "rest_str (c # s) = (if blank c \<or> c = NUL then Some ([], s) else map_option (\<lambda>(w, r). (c # w, r)) (rest_str s))"

text \<open>\<open>string\<close> has room for 50 characters.\<close>

definition getstr :: "mkfs \<Rightarrow> (string \<times> mkfs) option" where
  "getstr m = do {
     (c, s) \<leftarrow> find_str (inp m);
     (w, s) \<leftarrow> rest_str s;
     if 50 \<le> length (c # w) then None else Some (c # w, m\<lparr>inp := s\<rparr>) }"

fun get_digits :: "u16 \<Rightarrow> string \<Rightarrow> u16 option" where
  "get_digits n [] = Some n"
| "get_digits n (c # s) =
     (if (of_char c :: nat) < 48 \<or> 57 < (of_char c :: nat) then None else get_digits (n * 10 + of_nat (of_char c) - 48) s)"

definition getnum :: "mkfs \<Rightarrow> (u16 \<times> mkfs) option" where
  "getnum m = do { (str, m) \<leftarrow> getstr m; n \<leftarrow> get_digits 0 str; Some (n, m) }"

fun gmode :: "char \<Rightarrow> (char \<times> u16) list \<Rightarrow> u16 option" where
  "gmode c [] = (if c = CHR ''-'' then Some 0 else None)"
| "gmode c ((s, v) # vs) = (if c = s then Some v else gmode c vs)"

subsection \<open>Files\<close>

text \<open>The block under construction with its length in words, and the blocks of the file so far.\<close>

record fbuf =
  dbc :: nat
  db :: "u16 list"
  ibc :: nat
  ib :: "u16 list"

definition zeros :: "u16 list" where
  "zeros = replicate BLK 0"

definition newblk :: "fbuf \<Rightarrow> mkfs \<Rightarrow> (fbuf \<times> mkfs) option" where
  "newblk b m = do {
     (bno, m) \<leftarrow> alloc m;
     m \<leftarrow> wtfs (sint bno) (db b) m;
     let b = b\<lparr>db := zeros, dbc := 0, ib := (ib b)[ibc b := bno], ibc := ibc b + 1\<rparr>;
     if 256 \<le> ibc b then None else Some (b, m) }"

definition str_char :: "string \<Rightarrow> nat \<Rightarrow> u16" where
  "str_char s i = (if i < length s then of_nat (of_char (s ! i)) else 0)"

text \<open>An entry of a directory: the number and fourteen characters of the name, two in a word.\<close>

definition entry_words :: "u16 \<Rightarrow> string \<Rightarrow> u16 list" where
  "entry_words n str = n # map (\<lambda>k. str_char str (2 * k) OR push_bit 8 (str_char str (2 * k + 1))) [0..<7]"

definition entry :: "int \<Rightarrow> string \<Rightarrow> fbuf \<Rightarrow> mkfs \<Rightarrow> (fbuf \<times> mkfs) option" where
  "entry n str b m =
     (let b = b\<lparr>db := take (dbc b) (db b) @ entry_words (of_int n) str @ drop (dbc b + 8) (db b), dbc := dbc b + 8\<rparr>
      in if 256 \<le> dbc b then newblk b m else Some (b, m))"

text \<open>\<open>read(f, db, 512)\<close> of the bytes that are left: they fill the block from its start.\<close>

fun pack :: "u8 list \<Rightarrow> u16 list" where
  "pack [] = []"
| "pack [x] = [ucast x]"
| "pack (x # y # bs) = (ucast x OR push_bit 8 (ucast y)) # pack bs"

definition read_block :: "u8 list \<Rightarrow> u16 list \<Rightarrow> u16 list" where
  "read_block bs d = (let ws = pack (take 512 bs) in ws @ drop (length ws) d)"

function file_loop :: "u8 list \<Rightarrow> u16 \<Rightarrow> fbuf \<Rightarrow> mkfs \<Rightarrow> (u16 \<times> fbuf \<times> mkfs) option" where
  "file_loop bs size1 b m =
     (if bs = [] then Some (size1, b, m)
      else do {
        (b, m) \<leftarrow> newblk (b\<lparr>db := read_block bs (db b)\<rparr>) m;
        file_loop (drop 512 bs) (size1 + of_nat (min 512 (length bs))) b m })"
  by pat_completeness auto
termination by (relation "measure (\<lambda>(bs, _). length bs)") auto

declare file_loop.simps [simp del]

record minode =
  mi_number :: int
  mi_mode :: u16
  mi_nlink :: u8
  mi_uid :: u8
  mi_gid :: u8
  mi_size0 :: u8
  mi_size1 :: u16
  mi_addr :: "u16 list"

definition minode_words :: "minode \<Rightarrow> u16 list" where
  "minode_words i =
     [mi_mode i, ucast (mi_nlink i) OR push_bit 8 (ucast (mi_uid i)), ucast (mi_gid i) OR push_bit 8 (ucast (mi_size0 i)), mi_size1 i] @ mi_addr i @ [0, 0, 0, 0]"

text \<open>The inode goes to its place in the blocks of inodes.\<close>

definition put_inode :: "minode \<Rightarrow> mkfs \<Rightarrow> mkfs option" where
  "put_inode i m = do {
     let n = mi_number i + 31;
     m \<leftarrow> rdfs (n sdiv 16) m;
     let p = nat (n smod 16) * 16;
     let m = m\<lparr>mbuf := take p (mbuf m) @ minode_words i @ drop (p + 16) (mbuf m)\<rparr>;
     wtfs (n sdiv 16) (mbuf m) m }"

abbreviation (input) "ILARG \<equiv> (0x1000 :: u16)"

definition finish_file :: "minode \<Rightarrow> fbuf \<Rightarrow> mkfs \<Rightarrow> mkfs option" where
  "finish_file i b m = do {
     (b, m) \<leftarrow> (if dbc b \<noteq> 0 then newblk b m else Some (b, m));
     (i, m) \<leftarrow> (if 8 < ibc b then do {
                 (bno, m) \<leftarrow> alloc m;
                 m \<leftarrow> wtfs (sint bno) (ib b) m;
                 Some (i\<lparr>mi_mode := mi_mode i OR ILARG, mi_addr := (mi_addr i)[0 := bno]\<rparr>, m) }
               else Some (i\<lparr>mi_addr := take (ibc b) (ib b) @ drop (ibc b) (mi_addr i)\<rparr>, m));
     put_inode i m }"

text \<open>Mode, user and group at the start of the description of a file.\<close>

definition octal :: "char \<Rightarrow> u16 option" where
  "octal c = (if (of_char c :: nat) < 48 \<or> 55 < (of_char c :: nat) then None else Some (of_nat (of_char c) - 48))"

definition mode_of :: "string \<Rightarrow> u16 option" where
  "mode_of str =
     (let c = (\<lambda>i. if i < length str then str ! i else NUL) in do {
        t \<leftarrow> gmode (c 0) [(CHR ''b'', 0x6000), (CHR ''c'', 0x2000), (CHR ''d'', 0x4000)];
        u \<leftarrow> gmode (c 1) [(CHR ''u'', 0x800)];
        g \<leftarrow> gmode (c 2) [(CHR ''g'', 0x400)];
        x \<leftarrow> octal (c 3);
        y \<leftarrow> octal (c 4);
        z \<leftarrow> octal (c 5);
        Some (0x8000 OR t OR u OR g OR push_bit 6 x OR push_bit 3 y OR z) })"

definition new_inode :: "mkfs \<Rightarrow> (minode \<times> mkfs) option" where
  "new_inode m = do {
     (str, m) \<leftarrow> getstr m;
     mode \<leftarrow> mode_of str;
     (uid, m) \<leftarrow> getnum m;
     (gid, m) \<leftarrow> getnum m;
     let m = m\<lparr>ino := ino m + 1\<rparr>;
     if uint (s_isize m) < ino m sdiv 16 then None
     else Some (\<lparr>mi_number = ino m, mi_mode = mode, mi_nlink = 1, mi_uid = ucast uid, mi_gid = ucast gid, mi_size0 = 0, mi_size1 = 0,
                 mi_addr = replicate 8 0\<rparr>, m) }"

definition no_blocks :: fbuf where
  "no_blocks = \<lparr>dbc = 0, db = zeros, ibc = 0, ib = zeros\<rparr>"

text \<open>A regular file, whose content is a file of the host, and a special file.\<close>

definition plain_file :: "(string \<Rightarrow> u8 list option) \<Rightarrow> minode \<Rightarrow> mkfs \<Rightarrow> mkfs option" where
  "plain_file files i m =
     (if mi_mode i AND 0x6000 = 0 then do {
        (str, m) \<leftarrow> getstr m;
        (n, b, m) \<leftarrow> (case files str of None \<Rightarrow> Some (mi_size1 i, no_blocks, m) | Some bs \<Rightarrow> file_loop bs (mi_size1 i) no_blocks m);
        finish_file (i\<lparr>mi_size1 := n\<rparr>) b m }
      else do {
        (x, m) \<leftarrow> getnum m;
        (y, m) \<leftarrow> getnum m;
        finish_file (i\<lparr>mi_addr := (mi_addr i)[0 := push_bit 8 x OR y]\<rparr>) no_blocks m })"

text \<open>The first two entries of a directory; \<open>par\<close> is the number of its parent, and the root is its own parent.\<close>

definition dir_start :: "int option \<Rightarrow> minode \<Rightarrow> mkfs \<Rightarrow> (minode \<times> fbuf \<times> mkfs) option" where
  "dir_start par i m = do {
     let i = (if par = None then i\<lparr>mi_nlink := mi_nlink i + 1\<rparr> else i);
     (b, m) \<leftarrow> entry (case par of None \<Rightarrow> mi_number i | Some p \<Rightarrow> p) ''..'' no_blocks m;
     let i = i\<lparr>mi_nlink := mi_nlink i + 1\<rparr>;
     (b, m) \<leftarrow> entry (mi_number i) ''.'' b m;
     Some (i\<lparr>mi_size1 := 32\<rparr>, b, m) }"

lemma find_str_length: "find_str s = Some (c, r) \<Longrightarrow> length r < length s"
proof (induction s rule: find_str.induct)
  case (1 s)
  show ?case
  proof (cases s)
    case Nil
    then show ?thesis using 1(3) by (simp add: find_str.simps)
  next
    case (Cons x s')
    consider "blank x" | "\<not> blank x" "x = CHR '':''" | "\<not> blank x" "x \<noteq> CHR '':''" by blast
    then show ?thesis
    proof cases
      case 1
      then show ?thesis using "1.IH"(1) [OF Cons] "1.prems" Cons by (auto simp: find_str.simps [of "x # s'"] intro: less_SucI)
    next
      case 2
      then obtain t where "skip_line s' = Some t" "find_str t = Some (c, r)"
        using "1.prems" Cons by (auto simp: find_str.simps [of "CHR '':'' # s'"] split: option.splits if_splits)
      then show ?thesis using "1.IH"(2) [OF Cons] 2 skip_line_length Cons by fastforce
    next
      case 3
      then show ?thesis using "1.prems" Cons by (auto simp: find_str.simps [of "x # s'"] split: if_splits)
    qed
  qed
qed

lemma rest_str_length: "rest_str s = Some (w, r) \<Longrightarrow> length r < length s"
  by (induction s arbitrary: w) (auto split: if_splits)

lemma getstr_inp: "getstr m = Some (str, m') \<Longrightarrow> length (inp m') < length (inp m)"
  unfolding getstr_def
  by (auto simp: bind_eq_Some_conv split: if_splits dest!: find_str_length rest_str_length)

lemma getnum_inp: "getnum m = Some (n, m') \<Longrightarrow> length (inp m') < length (inp m)"
  unfolding getnum_def by (auto simp: bind_eq_Some_conv dest: getstr_inp)

lemma new_inode_inp: "new_inode m = Some (i, m') \<Longrightarrow> length (inp m') < length (inp m)"
  unfolding new_inode_def by (auto simp: bind_eq_Some_conv Let_def split: if_splits dest!: getstr_inp getnum_inp)

lemma alloc_inp: "alloc m = Some (b, m') \<Longrightarrow> inp m' = inp m"
  unfolding alloc_def by (auto simp: bind_eq_Some_conv Let_def rdfs_def split: if_splits)

lemma newblk_inp: "newblk b m = Some (b', m') \<Longrightarrow> inp m' = inp m"
  unfolding newblk_def by (auto simp: bind_eq_Some_conv Let_def wtfs_def split: if_splits dest!: alloc_inp)

lemma entry_inp: "entry n str b m = Some (b', m') \<Longrightarrow> inp m' = inp m"
  unfolding entry_def by (auto simp: Let_def split: if_splits dest!: newblk_inp)

lemma dir_start_inp: "dir_start par i m = Some (i', b', m') \<Longrightarrow> inp m' = inp m"
  unfolding dir_start_def by (auto simp: bind_eq_Some_conv Let_def dest!: entry_inp)

lemma put_inode_inp: "put_inode i m = Some m' \<Longrightarrow> inp m' = inp m"
  unfolding put_inode_def by (auto simp: bind_eq_Some_conv Let_def rdfs_def wtfs_def split: if_splits)

lemma finish_file_inp: "finish_file i b m = Some m' \<Longrightarrow> inp m' = inp m"
  unfolding finish_file_def
  by (auto simp: bind_eq_Some_conv wtfs_def split: if_splits dest!: newblk_inp alloc_inp put_inode_inp)

lemma file_loop_inp: "file_loop bs n b m = Some (n', b', m') \<Longrightarrow> inp m' = inp m"
proof (induction "length bs" arbitrary: bs n b m rule: less_induct)
  case less
  show ?case
  proof (cases "bs = []")
    case True
    then show ?thesis using less.prems by (simp add: file_loop.simps)
  next
    case False
    then obtain b1 m1 where "newblk (b\<lparr>db := read_block bs (db b)\<rparr>) m = Some (b1, m1)"
      "file_loop (drop 512 bs) (n + of_nat (min 512 (length bs))) b1 m1 = Some (n', b', m')"
      using less.prems unfolding file_loop.simps [of bs] by (auto simp: bind_eq_Some_conv)
    then show ?thesis using less.hyps [of "drop 512 bs"] False newblk_inp by fastforce
  qed
qed

lemma plain_file_inp: "plain_file files i m = Some m' \<Longrightarrow> length (inp m') < length (inp m)"
  unfolding plain_file_def
  by (auto simp: bind_eq_Some_conv split: if_splits option.splits dest!: getstr_inp getnum_inp finish_file_inp file_loop_inp)

text \<open>A file; \<open>par\<close> is the number of its directory, and the result says whether it is a directory, so that the caller counts
  the link.  \<open>files\<close> are the files of the host.\<close>

function cfile :: "(string \<Rightarrow> u8 list option) \<Rightarrow> int option \<Rightarrow> mkfs \<Rightarrow> (bool \<times> mkfs) option"
  and dir_loop :: "(string \<Rightarrow> u8 list option) \<Rightarrow> minode \<Rightarrow> fbuf \<Rightarrow> mkfs \<Rightarrow> (minode \<times> fbuf \<times> mkfs) option" where
  "cfile files par m =
     (case new_inode m of
        None \<Rightarrow> None
      | Some (i, m) \<Rightarrow>
          let i = (if par = None then i\<lparr>mi_nlink := mi_nlink i - 1\<rparr> else i) in
          if mi_mode i AND 0x6000 = 0x4000 then
            (case dir_start par i m of
               None \<Rightarrow> None
             | Some (i, b, m) \<Rightarrow>
                 (case dir_loop files i b m of
                    None \<Rightarrow> None
                  | Some (i, b, m) \<Rightarrow> map_option (Pair True) (finish_file i b m)))
          else map_option (Pair False) (plain_file files i m))"
| "dir_loop files i b m =
     (case getstr m of
        None \<Rightarrow> None
      | Some (str, m) \<Rightarrow>
          if str = ''$'' then Some (i, b, m)
          else
            (case entry (ino m + 1) str b m of
               None \<Rightarrow> None
             | Some (b, m) \<Rightarrow>
                 (case cfile files (Some (mi_number i)) m of
                    None \<Rightarrow> None
                  | Some (d, m) \<Rightarrow>
                      dir_loop files (i\<lparr>mi_size1 := mi_size1 i + 16, mi_nlink := (if d then mi_nlink i + 1 else mi_nlink i)\<rparr>) b m)))"
  by pat_completeness auto

lemma cfile_inp:
  "cfile_dir_loop_dom (Inl (files, par, m)) \<Longrightarrow> cfile files par m = Some (d, m') \<Longrightarrow> length (inp m') < length (inp m)"
  "cfile_dir_loop_dom (Inr (files, i, b, m)) \<Longrightarrow> dir_loop files i b m = Some (i', b', m') \<Longrightarrow> length (inp m') < length (inp m)"
proof (induction files par m and files i b m arbitrary: d m' and i' b' m' rule: cfile_dir_loop.pinduct)
  case (1 files par m)
  obtain i m1 where n: "new_inode m = Some (i, m1)" using 1(3) unfolding cfile.psimps [OF 1(1)] by (auto split: option.splits)
  let ?i = "if par = None then i\<lparr>mi_nlink := mi_nlink i - 1\<rparr> else i"
  show ?case
  proof (cases "mi_mode ?i AND 0x6000 = 0x4000")
    case True
    then obtain i2 b2 m2 i3 b3 m3 where d: "dir_start par ?i m1 = Some (i2, b2, m2)" "dir_loop files i2 b2 m2 = Some (i3, b3, m3)" "finish_file i3 b3 m3 = Some m'"
      using 1(3) n unfolding cfile.psimps [OF 1(1)] by (auto simp: Let_def split: option.splits)
    then have "length (inp m3) < length (inp m2)" using 1(2) [OF n refl refl True d(1) refl refl] by blast
    then show ?thesis using new_inode_inp [OF n] dir_start_inp [OF d(1)] finish_file_inp [OF d(3)] by simp
  next
    case False
    then have "plain_file files ?i m1 = Some m'" using 1(3) n unfolding cfile.psimps [OF 1(1)] by (auto simp: Let_def)
    then show ?thesis using new_inode_inp [OF n] plain_file_inp by fastforce
  qed
next
  case (2 files i b m)
  obtain str m1 where g: "getstr m = Some (str, m1)" using 2(4) unfolding dir_loop.psimps [OF 2(1)] by (auto split: option.splits)
  show ?case
  proof (cases "str = ''$''")
    case True
    then show ?thesis using 2(4) g getstr_inp [OF g] unfolding dir_loop.psimps [OF 2(1)] by simp
  next
    case False
    then obtain b2 m2 d3 m3 where e: "entry (ino m1 + 1) str b m1 = Some (b2, m2)" and c: "cfile files (Some (mi_number i)) m2 = Some (d3, m3)"
      and l: "dir_loop files (i\<lparr>mi_size1 := mi_size1 i + 16, mi_nlink := (if d3 then mi_nlink i + 1 else mi_nlink i)\<rparr>) b2 m3 = Some (i', b', m')"
      using 2(4) g unfolding dir_loop.psimps [OF 2(1)] by (auto split: option.splits)
    note c2 = 2(2) [OF g refl False e refl c] 
    note l2 = 2(3) [OF g refl False e refl c refl l]
    show ?thesis using getstr_inp [OF g] entry_inp [OF e] c2 l2 by simp
  qed
qed

termination cfile
proof (relation "measure (\<lambda>x. case x of Inl (files, par, m) \<Rightarrow> length (inp m) | Inr (files, i, b, m) \<Rightarrow> length (inp m))",
    simp_all only: in_measure sum.case prod.case)
  fix par m r r' i i' b m1 m2 x y
  assume "new_inode m = Some r" "(i, m1) = r" "dir_start par x m1 = Some r'" "(i', y) = r'" "(b, m2) = y"
  then show "(case r' of (i, b, m) \<Rightarrow> length (inp m)) < length (inp m)"
    using new_inode_inp [of m i m1] dir_start_inp [of par x m1 i' b m2] by auto
next
  fix i b m r str m1 r' b2 m2
  assume "getstr m = Some r" "(str, m1) = r" "entry (ino m1 + 1) str b m1 = Some r'" "(b2, m2) = r'"
  then show "length (inp m2) < length (inp m)" using getstr_inp [of m str m1] entry_inp [of _ str b m1 b2 m2] by auto
next
  fix files i b m r str m1 r' b2 m2 r'' d m3
  assume "getstr m = Some r" "(str, m1) = r" "entry (ino m1 + 1) str b m1 = Some r'" "(b2, m2) = r'"
    "cfile files (Some (mi_number i)) m2 = Some r''" "(d, m3) = r''" "cfile_dir_loop_dom (Inl (files, Some (mi_number i), m2))"
  then show "length (inp m3) < length (inp m)"
    using getstr_inp [of m str m1] entry_inp [of _ str b m1 b2 m2] cfile_inp(1) [of files "Some (mi_number i)" m2 d m3] by auto
qed simp

declare cfile.simps [simp del] dir_loop.simps [simp del]

subsection \<open>The file system\<close>

text \<open>The words of the super block; the lists of inodes and the locks are empty and the time is not set.\<close>

definition super_words :: "mkfs \<Rightarrow> u16 list" where
  "super_words m = [s_isize m, s_fsize m, s_nfree m] @ s_free m @ replicate 153 0"

definition zero_inodes :: "mkfs \<Rightarrow> mkfs option" where
  "zero_inodes m = fold (\<lambda>n r. Option.bind r (wtfs (int n + 2) zeros)) [0..<unat (s_isize m)] (Some (m\<lparr>mbuf := zeros\<rparr>))"

text \<open>From the label \<open>f3\<close> on; \<open>n\<close>, the last block of the image, is a \<open>short\<close>.\<close>

definition build :: "(string \<Rightarrow> u8 list option) \<Rightarrow> u16 \<Rightarrow> mkfs \<Rightarrow> mkfs option" where
  "build files swap m =
     (if s_isize m > s_fsize m \<or> uint (s_fsize m) - uint (s_isize m) - 2 < uint (s_isize m) then None
      else do {
        m \<leftarrow> bflist m;
        m \<leftarrow> zero_inodes m;
        m \<leftarrow> wtfs (sint (s_fsize m + swap - 1)) (mbuf m) m;
        (_, m) \<leftarrow> cfile files None m;
        wtfs 1 (super_words m) (m\<lparr>mbuf := zeros\<rparr>) })"

definition empty_image :: "nat \<Rightarrow> nat \<Rightarrow> string \<Rightarrow> mkfs" where
  "empty_image fn fm s =
     \<lparr>s_isize = 0, s_fsize = 0, s_nfree = 0, s_free = replicate 100 0, mbuf = zeros, image = (\<lambda>_. zeros), nblocks = 0, ino = 0,
      inp = s, f_n = fn, f_m = fm\<rparr>"

text \<open>The name of the image chooses the interleaving.\<close>

fun spacing :: "string \<Rightarrow> nat \<times> nat \<Rightarrow> nat \<times> nat" where
  "spacing (c # d # s) nm = spacing (d # s) (if c = CHR ''r'' \<and> d = CHR ''k'' then (24, 3) else if c = CHR ''r'' \<and> d = CHR ''p'' then (10, 4) else nm)"
| "spacing s nm = nm"

text \<open>\<open>main\<close> with a description that can be opened, and with a number in its place.\<close>

definition mkfs_proto :: "(string \<Rightarrow> u8 list option) \<Rightarrow> string \<Rightarrow> string \<Rightarrow> mkfs option" where
  "mkfs_proto files name s = do {
     let m = (case spacing name (1, 1) of (fn, fm) \<Rightarrow> empty_image fn fm s);
     (str, m) \<leftarrow> getstr m;
     m \<leftarrow> (case files str of
             None \<Rightarrow> Some m
           | Some bs \<Rightarrow> let m = m\<lparr>mbuf := read_block bs (mbuf m)\<rparr> in wtfs 0 (mbuf m) m);
     (n, m) \<leftarrow> getnum m;
     (k, m) \<leftarrow> getnum m;
     (swap, m) \<leftarrow> getnum m;
     build files swap (m\<lparr>s_fsize := n, s_isize := k\<rparr>) }"

definition mkfs_size :: "string \<Rightarrow> string \<Rightarrow> mkfs option" where
  "mkfs_size name number = do {
     n \<leftarrow> get_digits 0 number;
     let k = sint n sdiv (43 + sint n sdiv 1000);
     build (\<lambda>_. None) 0 ((case spacing name (1, 1) of (fn, fm) \<Rightarrow> empty_image fn fm (''d--777 0 0 $ '' @ [NUL]))\<lparr>s_fsize := n, s_isize := of_int k\<rparr>) }"

subsection \<open>What the free list holds\<close>

text \<open>The list as a stack: the entries from the top down, and behind the first entry those of the block that it names.\<close>

inductive listed :: "(int \<Rightarrow> u16 list) \<Rightarrow> int \<Rightarrow> u16 \<Rightarrow> u16 list \<Rightarrow> u16 list \<Rightarrow> bool" for img nb where
  listed_end: "length fr = 100 \<Longrightarrow> 1 \<le> unat nf \<Longrightarrow> unat nf \<le> 100 \<Longrightarrow> fr ! 0 = 0 \<Longrightarrow> listed img nb nf fr (rev (take (unat nf - 1) (tl fr)))"
| listed_link: "length fr = 100 \<Longrightarrow> 1 \<le> unat nf \<Longrightarrow> unat nf \<le> 100 \<Longrightarrow> fr ! 0 = b \<Longrightarrow> sint b < nb \<Longrightarrow>
    listed img nb (img (sint b) ! 0) (map (\<lambda>i. img (sint b) ! (i + 1)) [0..<100]) ys \<Longrightarrow>
    listed img nb nf fr (rev (take (unat nf - 1) (tl fr)) @ b # ys)"

definition free_list :: "mkfs \<Rightarrow> u16 list \<Rightarrow> bool" where
  "free_list m xs \<longleftrightarrow> listed (image m) (nblocks m) (s_nfree m) (s_free m) xs \<and> (\<forall>x \<in> set xs. 0 < sint x)"

lemma listed_nf: "listed img nb nf fr xs \<Longrightarrow> length fr = 100 \<and> 1 \<le> unat nf \<and> unat nf \<le> 100"
  by (induction rule: listed.induct) auto

lemma listed_cong:
  "listed img nb nf fr xs \<Longrightarrow> (\<And>x. x \<in> set xs \<Longrightarrow> img' (sint x) = img (sint x)) \<Longrightarrow> nb \<le> nb' \<Longrightarrow> listed img' nb' nf fr xs"
proof (induction rule: listed.induct)
  case (listed_end fr nf)
  then show ?case by (intro listed.listed_end)
next
  case (listed_link fr nf b ys)
  have "img' (sint b) = img (sint b)" using listed_link.prems(1) by simp
  then show ?case using listed_link by (intro listed.listed_link) auto
qed

lemma sint_count: "unat nf \<le> 100 \<Longrightarrow> sint nf = int (unat nf)" for nf :: u16
  by (simp add: sint16_small)

lemma sint_of_int16: "0 \<le> b \<Longrightarrow> b < 32768 \<Longrightarrow> sint (of_int b :: u16) = b"
proof -
  assume b: "0 \<le> b" "b < 32768"
  then have "uint (of_int b :: u16) = b" by (simp add: uint_word_of_int)
  moreover from this b have "unat (of_int b :: u16) < 32768" by (simp add: unat_eq_nat_uint)
  ultimately show ?thesis using sint16_small [of "of_int b"] by simp
qed

lemma push_top:
  assumes "length fr = 100" "1 \<le> n" "n < 100"
  shows "rev (take n (tl (fr[n := b]))) = b # rev (take (n - 1) (tl fr))" "fr[n := b] ! 0 = fr ! 0"
proof -
  obtain k where k: "n = Suc k" using assms(2) by (cases n) auto
  obtain f fs where "fr = f # fs" using assms(1) by (cases fr) auto
  then show "rev (take n (tl (fr[n := b]))) = b # rev (take (n - 1) (tl fr))" "fr[n := b] ! 0 = fr ! 0"
    using k assms by (auto simp: take_Suc_conv_app_nth)
qed

lemma listed_push:
  assumes "listed img nb nf fr xs" "unat nf < 100"
  shows "listed img nb (nf + 1) (fr[unat nf := b]) (b # xs)"
  using assms
proof (cases rule: listed.cases)
  case listed_end
  have n: "unat (nf + 1) = unat nf + 1" using assms(2) by (simp add: unat16_succ)
  show ?thesis using listed.listed_end [of "fr[unat nf := b]" "nf + 1" img nb] push_top [of fr "unat nf" b] listed_end assms(2) n by simp
next
  case (listed_link c ys)
  have n: "unat (nf + 1) = unat nf + 1" using assms(2) by (simp add: unat16_succ)
  show ?thesis using listed.listed_link [of "fr[unat nf := b]" "nf + 1" c nb img ys] push_top [of fr "unat nf" b] listed_link assms(2) n by simp
qed

text \<open>Parts of the state that the operations on blocks keep.\<close>

definition same_head :: "mkfs \<Rightarrow> mkfs \<Rightarrow> bool" where
  "same_head m m' \<longleftrightarrow> s_isize m' = s_isize m \<and> s_fsize m' = s_fsize m \<and> f_n m' = f_n m \<and> ino m' = ino m \<and> inp m' = inp m \<and> nblocks m \<le> nblocks m'"

lemma bfree_pushes:
  assumes "free_list m xs" "0 < b" "b < 32768" "b \<notin> sint ` set xs"
  obtains m' where "bfree b m = Some m'" "free_list m' (of_int b # xs)" "\<And>x. x \<noteq> b \<Longrightarrow> image m' x = image m x" "same_head m m'"
proof -
  have L: "listed (image m) (nblocks m) (s_nfree m) (s_free m) xs" and pos: "\<forall>x \<in> set xs. 0 < sint x" using assms(1) by (auto simp: free_list_def)
  note n = listed_nf [OF L]
  have sb: "sint (of_int b :: u16) = b" using assms by (simp add: sint_of_int16)
  show thesis
  proof (cases "unat (s_nfree m) < 100")
    case True
    then have "\<not> 100 \<le> sint (s_nfree m)" "\<not> sint (s_nfree m) < 0" using n sint_count [of "s_nfree m"] by linarith+
    then have "bfree b m = Some (m\<lparr>s_free := (s_free m)[unat (s_nfree m) := of_int b], s_nfree := s_nfree m + 1\<rparr>)"
      by (simp add: bfree_def)
    then show thesis using that listed_push [OF L True, of "of_int b"] pos sb assms(2) by (simp add: free_list_def same_head_def)
  next
    case False
    then have nf: "unat (s_nfree m) = 100" using n by simp
    define w where "w = s_nfree m # map (\<lambda>i. s_free m ! i) [0..<100] @ drop 101 (mbuf m)"
    define m' where "m' = m\<lparr>mbuf := w, image := (image m)(b := w), nblocks := max (nblocks m) (b + 1), s_free := (s_free m)[0 := of_int b], s_nfree := 1\<rparr>"
    have "bfree b m = Some m'" using nf assms(2) by (simp add: bfree_def sint_count wtfs_def w_def m'_def Let_def)
    moreover have "listed (image m') (nblocks m') (s_nfree m') (s_free m') (of_int b # xs)"
    proof -
      have w0: "w ! 0 = s_nfree m" and im: "image m' b = w" by (simp_all add: w_def m'_def)
      have wf: "map (\<lambda>i. w ! (i + 1)) [0..<100] = s_free m"
        using n by (intro nth_equalityI) (auto simp: w_def nth_append simp del: upt_conv_Cons_Cons)
      have "listed (image m') (nblocks m') (s_nfree m) (s_free m) xs"
        by (rule listed_cong [OF L]) (use assms(4) in \<open>auto simp: m'_def\<close>)
      then have "listed (image m') (nblocks m') (image m' (sint (of_int b :: u16)) ! 0) (map (\<lambda>i. image m' (sint (of_int b :: u16)) ! (i + 1)) [0..<100]) xs"
        unfolding sb im w0 wf .
      from listed.listed_link [OF _ _ _ _ _ this, of "s_free m'" "s_nfree m'"] show ?thesis
        using n sb by (simp add: m'_def nth_list_update)
    qed
    ultimately show thesis using that pos sb assms(2) by (auto simp: free_list_def m'_def same_head_def)
  qed
qed

lemma pop_top:
  assumes "length fr = 100" "Suc 0 < n" "n \<le> 100"
  shows "rev (take (n - 1) (tl fr)) = fr ! (n - 1) # rev (take (n - 1 - 1) (tl (fr[n - 1 := 0])))" "fr[n - 1 := 0] ! 0 = fr ! 0"
proof -
  obtain k where k: "n = Suc (Suc k)" using assms(2) by (cases n; cases "n - 1") auto
  obtain f fs where "fr = f # fs" using assms(1) by (cases fr) auto
  then show "rev (take (n - 1) (tl fr)) = fr ! (n - 1) # rev (take (n - 1 - 1) (tl (fr[n - 1 := 0])))" "fr[n - 1 := 0] ! 0 = fr ! 0"
    using k assms by (auto simp: take_Suc_conv_app_nth)
qed

lemma unat16_pred: "1 \<le> unat (w :: u16) \<Longrightarrow> unat (w - 1) = unat w - 1"
  by (metis One_nat_def unat_1 unat_sub word_le_nat_alt)

lemma alloc_pops:
  assumes "free_list m (x # xs)"
  obtains m' where "alloc m = Some (x, m')" "free_list m' xs" "image m' = image m" "nblocks m' = nblocks m" "same_head m m'"
proof -
  let ?n = "unat (s_nfree m)" and ?fr = "s_free m"
  have L: "listed (image m) (nblocks m) (s_nfree m) ?fr (x # xs)" and pos: "\<forall>y \<in> set (x # xs). 0 < sint y" using assms by (auto simp: free_list_def)
  note n = listed_nf [OF L]
  then have p1: "unat (s_nfree m - 1) = ?n - 1" by (simp add: unat16_pred)
  have "sint (s_nfree m - 1) = int (unat (s_nfree m - 1))" using p1 n by (intro sint16_small) linarith
  note p = p1 this [unfolded p1]
  have x0: "x \<noteq> 0" "0 < sint x" using pos by auto
  show thesis
  proof (cases "?n = 1")
    case True
    from L obtain b ys where b: "?fr ! 0 = b" "sint b < nblocks m" "x # xs = b # ys"
      "listed (image m) (nblocks m) (image m (sint b) ! 0) (map (\<lambda>i. image m (sint b) ! (i + 1)) [0..<100]) ys"
      by (cases rule: listed.cases) (use True in auto)
    define m' where "m' = m\<lparr>s_nfree := image m (sint x) ! 0, s_free := map (\<lambda>i. image m (sint x) ! (i + 1)) [0..<100], mbuf := image m (sint x)\<rparr>"
    have "alloc m = Some (x, m')" using True p b x0 by (simp add: alloc_def rdfs_def m'_def Let_def)
    moreover have "free_list m' xs" using b pos by (simp add: free_list_def m'_def)
    ultimately show thesis using that by (simp add: m'_def same_head_def)
  next
    case False
    then have n1: "Suc 0 < ?n" using n by simp
    define m' where "m' = m\<lparr>s_nfree := s_nfree m - 1, s_free := ?fr[?n - 1 := 0]\<rparr>"
    note t = pop_top [of ?fr ?n]
    have "x = ?fr ! (?n - 1) \<and> listed (image m) (nblocks m) (s_nfree m - 1) (?fr[?n - 1 := 0]) xs"
      using L
    proof (cases rule: listed.cases)
      case listed_end
      then show ?thesis using t n1 n p listed.listed_end [of "?fr[?n - 1 := 0]" "s_nfree m - 1" "image m" "nblocks m"] by auto
    next
      case (listed_link b ys)
      then show ?thesis using t n1 n p listed.listed_link [of "?fr[?n - 1 := 0]" "s_nfree m - 1" b "nblocks m" "image m" ys] by auto
    qed
    moreover have "\<not> sint (s_nfree m - 1) < 0" "\<not> 100 \<le> sint (s_nfree m - 1)" "\<not> sint (s_nfree m - 1) \<le> 0" using n1 n p(2) by linarith+
    then have "alloc m = Some (x, m')" using calculation p(1) x0 by (simp add: alloc_def m'_def Let_def)
    ultimately show thesis using that pos by (simp add: m'_def same_head_def free_list_def)
  qed
qed

lemma alloc_empty: "free_list m [] \<Longrightarrow> alloc m = None"
proof -
  assume "free_list m []"
  then have "listed (image m) (nblocks m) (s_nfree m) (s_free m) []" by (simp add: free_list_def)
  then have "unat (s_nfree m) = 1 \<and> s_free m ! 0 = 0" by (cases rule: listed.cases) (auto dest: arg_cong [of _ _ length])
  then show ?thesis using unat16_pred [of "s_nfree m"] by (simp add: alloc_def Let_def)
qed

subsection \<open>Building the free list\<close>

text \<open>The blocks on the free list, each of them once.\<close>

definition holds :: "mkfs \<Rightarrow> int set \<Rightarrow> bool" where
  "holds m A \<longleftrightarrow> (\<exists>xs. free_list m xs \<and> distinct xs \<and> sint ` set xs = A)"

lemma bfree_adds:
  assumes "holds m A" "0 < b" "b < 32768" "b \<notin> A"
  shows "\<exists>m'. bfree b m = Some m' \<and> holds m' (insert b A) \<and> same_head m m'"
proof -
  obtain xs where xs: "free_list m xs" "distinct xs" "sint ` set xs = A" using assms(1) by (auto simp: holds_def)
  obtain m' where m': "bfree b m = Some m'" "free_list m' (of_int b # xs)" "same_head m m'"
    using bfree_pushes [OF xs(1) assms(2,3)] xs(3) assms(4) by blast
  have sb: "sint (of_int b :: u16) = b" using assms(2,3) by (simp add: sint_of_int16)
  then have "of_int b \<notin> set xs" using xs(3) assms(4) by (metis image_eqI)
  then have "distinct (of_int b # xs)" "sint ` set (of_int b # xs) = insert b A" using xs sb by auto
  then show ?thesis using m' unfolding holds_def by blast
qed

lemma same_head_trans: "same_head m m' \<Longrightarrow> same_head m' m'' \<Longrightarrow> same_head m m''"
  by (simp add: same_head_def)

lemma same_head_refl [simp]: "same_head m m"
  by (simp add: same_head_def)

lemma free_all_adds:
  "holds m A \<Longrightarrow> distinct bs \<Longrightarrow> \<forall>b \<in> set bs. 0 < b \<and> b < 32768 \<and> b \<notin> A \<Longrightarrow>
   \<exists>m'. free_all bs m = Some m' \<and> holds m' (A \<union> set bs) \<and> same_head m m'"
proof (induction bs arbitrary: m A)
  case (Cons b bs)
  then obtain m1 where m1: "bfree b m = Some m1" "holds m1 (insert b A)" "same_head m m1" using bfree_adds [of m A b] by auto
  then obtain m2 where "free_all bs m1 = Some m2" "holds m2 (insert b A \<union> set bs)" "same_head m1 m2"
    using Cons.IH [OF m1(2)] Cons.prems by auto
  then show ?case using m1 same_head_trans by auto
qed simp

text \<open>The three loops go down from the end of the volume.\<close>

lemma align_loop_adds:
  assumes "holds m {i + 1..high}" "0 < low" "low - 1 \<le> i" "i \<le> high" "high < 32768"
  shows "\<exists>i' m'. align_loop low fn i m = Some (i', m') \<and> low - 1 \<le> i' \<and> i' \<le> high \<and> holds m' {i' + 1..high} \<and> same_head m m'"
  using assms
proof (induction low fn i m rule: align_loop.induct)
  case (1 low fn i m)
  show ?case
  proof (cases "(i + 1) smod fn = 0 \<or> i < low")
    case True
    then show ?thesis using 1 by (subst align_loop.simps) auto
  next
    case False
    obtain m1 where m1: "bfree i m = Some m1" "holds m1 (insert i {i + 1..high})" "same_head m m1"
      using bfree_adds [OF 1(2), of i] 1(3-6) False by auto
    have "insert i {i + 1..high} = {i - 1 + 1..high}" using 1(5) by auto
    then have "\<exists>i' m'. align_loop low fn (i - 1) m1 = Some (i', m') \<and> low - 1 \<le> i' \<and> i' \<le> high \<and> holds m' {i' + 1..high} \<and> same_head m1 m'"
      using 1(1) [OF False m1(1)] m1(2) 1(3-6) False by simp
    then show ?thesis using False m1 same_head_trans by (subst align_loop.simps) fastforce
  qed
qed

lemma group_loop_adds:
  assumes "holds m {i + 1..high}" "0 < low" "low - 1 \<le> i" "i \<le> high" "high < 32768" "distinct adr" "set adr = {0..<length adr}"
  shows "\<exists>i' m'. group_loop low adr i m = Some (i', m') \<and> low - 1 \<le> i' \<and> i' \<le> high \<and> holds m' {i' + 1..high} \<and> same_head m m'"
  using assms
proof (induction low adr i m rule: group_loop.induct)
  case (1 low adr i m)
  let ?n = "int (length adr)" and ?bs = "map (\<lambda>a. i - int a) adr"
  show ?case
  proof (cases "low + ?n \<le> i \<and> adr \<noteq> []")
    case True
    have s: "set ?bs = {i - ?n + 1..i}"
    proof
      show "{i - ?n + 1..i} \<subseteq> set ?bs"
      proof
        fix x assume "x \<in> {i - ?n + 1..i}"
        then have "nat (i - x) \<in> {0..<length adr}" "x = i - int (nat (i - x))" by auto
        then show "x \<in> set ?bs" unfolding set_map 1(8) by blast
      qed
    qed (use 1(8) in auto)
    have "distinct ?bs" using 1(7) by (simp add: distinct_map inj_on_def)
    moreover have "\<forall>b \<in> set ?bs. 0 < b \<and> b < 32768 \<and> b \<notin> {i + 1..high}" unfolding s using True 1(3-6) by auto
    ultimately obtain m1 where m1: "free_all ?bs m = Some m1" "holds m1 ({i + 1..high} \<union> set ?bs)" "same_head m m1"
      using free_all_adds [OF 1(2)] by blast
    have "{i + 1..high} \<union> set ?bs = {i - ?n + 1..high}" using s 1(5) True by auto
    then have "\<exists>i' m'. group_loop low adr (i - ?n) m1 = Some (i', m') \<and> low - 1 \<le> i' \<and> i' \<le> high \<and> holds m' {i' + 1..high} \<and> same_head m1 m'"
      using 1(1) [OF True m1(1)] m1(2) 1(3-8) True by simp
    then show ?thesis using True m1 same_head_trans by (subst group_loop.simps) fastforce
  next
    case False
    then show ?thesis using 1 by (subst group_loop.simps) auto
  qed
qed

lemma rest_loop_adds:
  assumes "holds m {i + 1..high}" "0 < low" "low - 1 \<le> i" "i \<le> high" "high < 32768"
  shows "\<exists>m'. rest_loop low i m = Some m' \<and> holds m' {low..high} \<and> same_head m m'"
  using assms
proof (induction low i m rule: rest_loop.induct)
  case (1 low i m)
  show ?case
  proof (cases "low \<le> i")
    case True
    obtain m1 where m1: "bfree i m = Some m1" "holds m1 (insert i {i + 1..high})" "same_head m m1"
      using bfree_adds [OF 1(2), of i] 1(3-6) True by auto
    have "insert i {i + 1..high} = {i - 1 + 1..high}" using 1(5) by auto
    then have "\<exists>m'. rest_loop low (i - 1) m1 = Some m' \<and> holds m' {low..high} \<and> same_head m1 m'"
      using 1(1) [OF True m1(1)] m1(2) 1(3-6) True by simp
    then show ?thesis using True m1 same_head_trans by (subst rest_loop.simps) fastforce
  next
    case False
    then have "i + 1 = low" using 1(4) by simp
    then show ?thesis using 1(2) False by (subst rest_loop.simps) simp
  qed
qed

text \<open>The interleaving is a permutation.\<close>

lemma probe_reaches: "\<not> flg ! ((i + d) mod length flg) \<Longrightarrow> i < length flg \<Longrightarrow> \<exists>j. probe flg i = Some j \<and> j < length flg \<and> \<not> flg ! j"
proof (induction d arbitrary: i)
  case 0
  then show ?case by (subst probe.simps) auto
next
  case (Suc d)
  have "\<not> flg ! (((i + 1) mod length flg + d) mod length flg)" using Suc.prems(1) by (simp add: mod_simps)
  moreover have "(i + 1) mod length flg < length flg" using Suc.prems(2) by (cases flg) auto
  ultimately show ?case using Suc.IH [of "(i + 1) mod length flg"] Suc.prems(2) by (subst probe.simps) auto
qed

lemma probe_finds: "i < length flg \<Longrightarrow> j < length flg \<Longrightarrow> \<not> flg ! j \<Longrightarrow> \<exists>k. probe flg i = Some k \<and> k < length flg \<and> \<not> flg ! k"
  using probe_reaches [of flg i "j + length flg - i"] by simp

lemma interleave_permutes:
  "k \<le> card {j. j < length flg \<and> \<not> flg ! j} \<Longrightarrow> i < length flg \<Longrightarrow>
   \<exists>adr. interleave fm k flg i = Some adr \<and> length adr = k \<and> distinct adr \<and> set adr \<subseteq> {j. j < length flg \<and> \<not> flg ! j}"
proof (induction k arbitrary: flg i)
  case (Suc k)
  let ?F = "\<lambda>flg. {j. j < length flg \<and> \<not> flg ! j}"
  have "?F flg \<noteq> {}" using Suc.prems(1) by (metis card.empty not_less_eq_eq zero_le)
  then obtain x where x: "probe flg i = Some x" "x < length flg" "\<not> flg ! x" using probe_finds [OF Suc.prems(2)] by blast
  have F: "?F (flg[x := True]) = ?F flg - {x}" using x(2) by (auto simp: nth_list_update split: if_splits)
  have "k \<le> card (?F (flg[x := True]))" unfolding F using Suc.prems(1) x by simp
  moreover have "(x + fm) mod length flg < length (flg[x := True])" using x(2) mod_less_divisor [of "length flg" "x + fm"] by (simp only: length_list_update)
  ultimately obtain adr where "interleave fm k (flg[x := True]) ((x + fm) mod length flg) = Some adr" "length adr = k" "distinct adr" "set adr \<subseteq> ?F flg - {x}"
    using Suc.IH [of "flg[x := True]"] unfolding F by blast
  then show ?case using x by auto
qed simp

lemma interleave_all: "0 < n \<Longrightarrow> \<exists>adr. interleave fm n (replicate n False) 0 = Some adr \<and> length adr = n \<and> distinct adr \<and> set adr = {0..<n}"
proof -
  assume n: "0 < n"
  have F: "{j. j < length (replicate n False) \<and> \<not> replicate n False ! j} = {0..<n}" by auto
  obtain adr where adr: "interleave fm n (replicate n False) 0 = Some adr" "length adr = n" "distinct adr" "set adr \<subseteq> {0..<n}"
    using interleave_permutes [of n "replicate n False" 0 fm] n unfolding F by auto
  then have "set adr = {0..<n}" by (intro card_subset_eq) (auto simp: distinct_card)
  with adr show ?thesis by blast
qed

text \<open>C34: \<open>bflist\<close> puts every block behind the inodes on the free list exactly once, whatever the interleaving: on a volume of at most 32768 blocks
  the list that the super block starts holds the numbers from \<open>s_isize + 2\<close> up to the size of the volume, without duplicates,
  and none of the blocks that carry the list is lost.\<close>

theorem bflist_frees_all:
  assumes "s_nfree m = 0" "length (s_free m) = 100" "0 < f_n m"
    "unat (s_isize m) + 2 \<le> unat (s_fsize m)" "unat (s_fsize m) \<le> 32768"
  shows "\<exists>m'. bflist m = Some m' \<and> holds m' {int (unat (s_isize m)) + 2..<int (unat (s_fsize m))}"
proof -
  define m0 where "m0 = m\<lparr>f_n := min (f_n m) 100\<rparr>"
  define high where "high = uint (s_fsize m - 1)"
  define low where "low = uint (s_isize m + 2)"
  have fn: "0 < f_n m0" using assms(3) by (simp add: m0_def)
  obtain adr where adr: "interleave (f_m m0) (f_n m0) (replicate (f_n m0) False) 0 = Some adr" "length adr = f_n m0" "distinct adr" "set adr = {0..<f_n m0}"
    using interleave_all [OF fn] by blast
  have "high = int (unat (s_fsize m - 1))" by (simp add: high_def)
  also have "\<dots> = int (unat (s_fsize m)) - 1" using unat16_pred [of "s_fsize m"] assms(4) by linarith
  finally have high: "high = int (unat (s_fsize m)) - 1" .
  have "low = int (unat (s_isize m + 2))" by (simp add: low_def)
  also have "\<dots> = int (unat (s_isize m)) + 2" using assms(4,5) by (simp add: unat_word_ariths)
  finally have low: "low = int (unat (s_isize m)) + 2" .
  define m1 where "m1 = m0\<lparr>s_free := (s_free m)[0 := 0], s_nfree := 1\<rparr>"
  have m1: "bfree 0 m0 = Some m1" "same_head m0 m1" using assms(1) by (simp_all add: bfree_def m1_def m0_def same_head_def)
  have "listed (image m1) (nblocks m1) 1 (s_free m1) (rev (take (unat (1 :: u16) - 1) (tl (s_free m1))))"
    by (rule listed.listed_end) (use assms(2) in \<open>simp_all add: m1_def\<close>)
  then have "holds m1 {}" by (auto simp: holds_def free_list_def m1_def)
  then have h1: "holds m1 {high + 1..high}" by simp
  have b: "0 < low" "low - 1 \<le> high" "high < 32768" using low high assms(4,5) by linarith+
  obtain i2 m2 where m2: "align_loop low (int (f_n m1)) high m1 = Some (i2, m2)" "low - 1 \<le> i2" "i2 \<le> high" "holds m2 {i2 + 1..high}" "same_head m1 m2"
    using align_loop_adds [OF h1 b(1,2) order_refl b(3)] by blast
  obtain i3 m3 where m3: "group_loop low adr i2 m2 = Some (i3, m3)" "low - 1 \<le> i3" "i3 \<le> high" "holds m3 {i3 + 1..high}" "same_head m2 m3"
    using group_loop_adds [OF m2(4) b(1) m2(2,3) b(3) adr(3)] adr(2,4) by auto
  obtain m4 where m4: "rest_loop low i3 m3 = Some m4" "holds m4 {low..high}"
    using rest_loop_adds [OF m3(4) b(1) m3(2,3) b(3)] by blast
  have "bflist m = Some m4"
    unfolding bflist_def using adr(1) m1 m2(1) m3(1) m4(1) by (simp add: m0_def high_def low_def Let_def same_head_def)
  moreover have "{low..high} = {int (unat (s_isize m)) + 2..<int (unat (s_fsize m))}" using low high by auto
  ultimately show ?thesis using m4(2) by auto
qed

theorem bflist_frees_all_witness:
  "\<exists>m'. bflist ((empty_image 24 3 [])\<lparr>s_isize := 88, s_fsize := 4872\<rparr>) = Some m' \<and> holds m' {90..<4872}"
  using bflist_frees_all [of "(empty_image 24 3 [])\<lparr>s_isize := 88, s_fsize := 4872\<rparr>"] by (simp add: empty_image_def)

subsection \<open>The content of a file\<close>

lemma newblk_stores:
  assumes "free_list m (x # xs)" "distinct (x # xs)" "ibc b < 255"
  obtains m' where "newblk b m = Some (b\<lparr>db := zeros, dbc := 0, ib := (ib b)[ibc b := x], ibc := ibc b + 1\<rparr>, m')"
    "free_list m' xs" "image m' = (image m)(sint x := db b)" "same_head m m'"
proof -
  obtain m1 where m1: "alloc m = Some (x, m1)" "free_list m1 xs" "image m1 = image m" "nblocks m1 = nblocks m" "same_head m m1"
    using alloc_pops [OF assms(1)] by blast
  define m2 where "m2 = m1\<lparr>image := (image m1)(sint x := db b), nblocks := max (nblocks m1) (sint x + 1)\<rparr>"
  have "0 < sint x" using assms(1) by (simp add: free_list_def)
  then have "newblk b m = Some (b\<lparr>db := zeros, dbc := 0, ib := (ib b)[ibc b := x], ibc := ibc b + 1\<rparr>, m2)"
    using m1(1) assms(3) by (simp add: newblk_def wtfs_def m2_def Let_def)
  moreover have "free_list m2 xs"
  proof -
    have "listed (image m2) (nblocks m2) (s_nfree m1) (s_free m1) xs"
    proof (rule listed_cong)
      show "listed (image m1) (nblocks m1) (s_nfree m1) (s_free m1) xs" using m1(2) by (simp add: free_list_def)
      fix y assume "y \<in> set xs"
      then have "sint y \<noteq> sint x" using assms(2) by (metis distinct.simps(2) signed_word_eqI)
      then show "image m2 (sint y) = image m1 (sint y)" by (simp add: m2_def)
    qed (simp add: m2_def)
    then show ?thesis using m1(2) by (simp add: free_list_def m2_def)
  qed
  ultimately show thesis using that m1 by (simp add: m2_def same_head_def)
qed

text \<open>The blocks of a content, and the bytes of a sequence of words.\<close>

function blocks_of :: "u8 list \<Rightarrow> u16 list list" where
  "blocks_of bs = (if bs = [] then [] else read_block bs zeros # blocks_of (drop 512 bs))"
  by pat_completeness auto
termination by (relation "measure length") auto

declare blocks_of.simps [simp del]

definition unpack :: "u16 list \<Rightarrow> u8 list" where
  "unpack ws = concat (map (\<lambda>w. [ucast w, ucast (drop_bit 8 w)]) ws)"

lemma unpack_simps [simp]: "unpack [] = []" "unpack (w # ws) = ucast w # ucast (drop_bit 8 w) # unpack ws" "unpack (ws @ vs) = unpack ws @ unpack vs"
  by (simp_all add: unpack_def)

lemma length_unpack [simp]: "length (unpack ws) = 2 * length ws"
  by (induction ws) auto

lemma unpack_pack: "take (length bs) (unpack (pack bs)) = bs"
proof (induction bs rule: pack.induct)
  case (2 x)
  have "(ucast (ucast x :: u16) :: u8) = x" by (rule bit_word_eqI) (auto simp: bit_simps dest: bit_imp_le_length)
  then show ?case by simp
qed (simp_all add: bytes_of_word del: drop_bit_or)

lemma length_pack: "length (pack bs) = (length bs + 1) div 2"
  by (induction bs rule: pack.induct) auto

lemma read_block_length: "length (read_block bs zeros) = 256"
  by (simp add: read_block_def Let_def length_pack zeros_def BLK_def min_def)

lemma read_block_bytes: "take (min 512 (length bs)) (unpack (read_block bs zeros)) = take 512 bs"
proof -
  let ?t = "take 512 bs"
  have "take (length ?t) (unpack (pack ?t) @ z) = ?t" for z
    using unpack_pack [of ?t] by (simp add: length_pack)
  then show ?thesis by (simp add: read_block_def Let_def min.commute)
qed

lemma blocks_bytes: "take (length bs) (unpack (concat (blocks_of bs))) = bs"
proof (induction bs rule: blocks_of.induct)
  case (1 bs)
  show ?case
  proof (cases "bs = []")
    case False
    let ?u = "unpack (read_block bs zeros)"
    have l: "length ?u = 512" by (simp add: read_block_length)
    show ?thesis
    proof (cases "512 \<le> length bs")
      case True
      then have "?u = take 512 bs" using read_block_bytes [of bs] l by (simp add: min_def)
      then have "take (length bs) (?u @ z) = take 512 bs @ take (length (drop 512 bs)) z" for z using True by (simp add: min_def)
      then show ?thesis using 1 False by (subst blocks_of.simps) simp
    next
      case short: False
      then have "take (length bs) (?u @ z) = bs" for z using read_block_bytes [of bs] l by (simp add: min_def)
      then show ?thesis using False by (subst blocks_of.simps) simp
    qed
  qed simp
qed

lemma length_blocks: "length (blocks_of bs) = (length bs + 511) div 512"
proof (induction bs rule: blocks_of.induct)
  case (1 bs)
  show ?case
  proof (cases "bs = []")
    case False
    then have "length (blocks_of bs) = Suc ((length bs - 512 + 511) div 512)" using 1 by (subst blocks_of.simps) simp
    moreover have "0 < length bs" using False by simp
    ultimately show ?thesis by (cases "512 \<le> length bs") (auto simp: div_if le_div_geq)
  qed (simp add: blocks_of.simps)
qed

lemma file_loop_stores:
  assumes "free_list m xs" "distinct xs" "length (blocks_of bs) \<le> length xs" "ibc b + length (blocks_of bs) \<le> 255" "db b = zeros" "length (ib b) = 256"
  defines "k \<equiv> length (blocks_of bs)"
  shows "\<exists>b' m'. file_loop bs n b m = Some (n + of_nat (length bs), b', m') \<and> ibc b' = ibc b + k \<and> (dbc b = 0 \<longrightarrow> dbc b' = 0) \<and> length (ib b') = 256 \<and>
     ib b' = take (ibc b) (ib b) @ take k xs @ drop (ibc b + k) (ib b) \<and>
     map (\<lambda>x. image m' (sint x)) (take k xs) = blocks_of bs \<and> free_list m' (drop k xs) \<and>
     (\<forall>y. y \<notin> sint ` set (take k xs) \<longrightarrow> image m' y = image m y) \<and> same_head m m'"
  using assms(1-6) unfolding k_def
proof (induction bs arbitrary: m xs b n rule: blocks_of.induct)
  case (1 bs)
  show ?case
  proof (cases "bs = []")
    case True
    then show ?thesis using 1 by (simp add: file_loop.simps blocks_of.simps)
  next
    case False
    let ?d = "drop 512 bs"
    have B: "blocks_of bs = read_block bs zeros # blocks_of ?d" using False by (subst blocks_of.simps) simp
    obtain x xs' where xs: "xs = x # xs'" using 1(4) B by (cases xs) auto
    let ?b = "b\<lparr>db := read_block bs (db b)\<rparr>"
    let ?b1 = "b\<lparr>db := zeros, dbc := 0, ib := (ib b)[ibc b := x], ibc := ibc b + 1\<rparr>"
    obtain m1 where m1: "newblk ?b m = Some (?b1, m1)" "free_list m1 xs'" "image m1 = (image m)(sint x := read_block bs zeros)" "same_head m m1"
      using newblk_stores [of m x xs' ?b] 1(2,3,5,6) xs B by auto
    have "\<exists>b' m'. file_loop ?d (n + of_nat (min 512 (length bs))) ?b1 m1 = Some (n + of_nat (min 512 (length bs)) + of_nat (length ?d), b', m') \<and>
      ibc b' = ibc ?b1 + length (blocks_of ?d) \<and> (dbc ?b1 = 0 \<longrightarrow> dbc b' = 0) \<and> length (ib b') = 256 \<and>
      ib b' = take (ibc ?b1) (ib ?b1) @ take (length (blocks_of ?d)) xs' @ drop (ibc ?b1 + length (blocks_of ?d)) (ib ?b1) \<and>
      map (\<lambda>x. image m' (sint x)) (take (length (blocks_of ?d)) xs') = blocks_of ?d \<and> free_list m' (drop (length (blocks_of ?d)) xs') \<and>
      (\<forall>y. y \<notin> sint ` set (take (length (blocks_of ?d)) xs') \<longrightarrow> image m' y = image m1 y) \<and> same_head m1 m'"
      by (rule 1(1) [OF False m1(2)]) (use 1(3-7) xs B in simp_all)
    then obtain b' m' where r: "file_loop ?d (n + of_nat (min 512 (length bs))) ?b1 m1 = Some (n + of_nat (min 512 (length bs)) + of_nat (length ?d), b', m')"
      "ibc b' = ibc ?b1 + length (blocks_of ?d)" "dbc b' = 0" "length (ib b') = 256"
      "ib b' = take (ibc ?b1) (ib ?b1) @ take (length (blocks_of ?d)) xs' @ drop (ibc ?b1 + length (blocks_of ?d)) (ib ?b1)"
      "map (\<lambda>x. image m' (sint x)) (take (length (blocks_of ?d)) xs') = blocks_of ?d" "free_list m' (drop (length (blocks_of ?d)) xs')"
      "\<forall>y. y \<notin> sint ` set (take (length (blocks_of ?d)) xs') \<longrightarrow> image m' y = image m1 y" "same_head m1 m'" by auto
    have "file_loop bs n b m = Some (n + of_nat (length bs), b', m')"
    proof -
      have "(of_nat (min 512 (length bs)) :: u16) + of_nat (length ?d) = of_nat (length bs)" by (simp flip: of_nat_add add: min_def)
      then show ?thesis using False m1(1) r(1) by (subst file_loop.simps) (simp add: add.assoc)
    qed
    moreover have "ib b' = take (ibc b) (ib b) @ take (length (blocks_of bs)) xs @ drop (ibc b + length (blocks_of bs)) (ib b)"
      using r(5) 1(5,7) B xs by (simp add: take_Suc_conv_app_nth)
    moreover have "sint x \<notin> sint ` set (take (length (blocks_of ?d)) xs')"
      using 1(3) xs by (auto dest: in_set_takeD signed_word_eqI)
    then have "map (\<lambda>x. image m' (sint x)) (take (length (blocks_of bs)) xs) = blocks_of bs" using r(6,8) m1(3) B xs by simp
    moreover have "\<forall>y. y \<notin> sint ` set (take (length (blocks_of bs)) xs) \<longrightarrow> image m' y = image m y" using r(8) m1(3) B xs by simp
    ultimately show ?thesis using r(2,3,4,7,9) m1(4) same_head_trans B xs by auto
  qed
qed

subsection \<open>A file is found again\<close>

text \<open>The words of an inode on the image, and the content of the file that they describe: the blocks are the addresses in the inode or, for
  a large file, those in the block that its first address names.\<close>

definition inode_at :: "(int \<Rightarrow> u16 list) \<Rightarrow> int \<Rightarrow> u16 list" where
  "inode_at img n = take 16 (drop (nat ((n + 31) mod 16) * 16) (img ((n + 31) div 16)))"

definition content :: "(int \<Rightarrow> u16 list) \<Rightarrow> u16 list \<Rightarrow> u8 list" where
  "content img w =
     (let bl = takeWhile (\<lambda>x. x \<noteq> 0) (if w ! 0 AND ILARG = 0 then take 8 (drop 4 w) else img (sint (w ! 4)))
      in take (unat (w ! 3)) (unpack (concat (map (\<lambda>x. img (sint x)) bl))))"

lemma put_inode_at:
  assumes "0 < mi_number i" "length (mi_addr i) = 8" "(mi_number i + 31) div 16 < nblocks m" "length (image m ((mi_number i + 31) div 16)) = 256"
  obtains m' where "put_inode i m = Some m'" "inode_at (image m') (mi_number i) = minode_words i"
    "\<And>y. y \<noteq> (mi_number i + 31) div 16 \<Longrightarrow> image m' y = image m y"
proof -
  let ?n = "mi_number i + 31" and ?B = "(mi_number i + 31) div 16"
  have d: "?n sdiv 16 = ?B" "?n smod 16 = ?n mod 16" using assms(1) by (simp_all add: signed_divide_int_def signed_modulo_int_def)
  define p where "p = nat (?n mod 16) * 16"
  have "nat (?n mod 16) \<le> 15" by simp
  then have p: "p + 16 \<le> 256" by (simp add: p_def)
  define w where "w = take p (image m ?B) @ minode_words i @ drop (p + 16) (image m ?B)"
  have B: "0 \<le> ?B" using assms(1) by simp
  have "put_inode i m = Some (m\<lparr>mbuf := w, image := (image m)(?B := w), nblocks := max (nblocks m) (?B + 1)\<rparr>)"
    using assms(3) B unfolding put_inode_def Let_def d by (simp add: rdfs_def wtfs_def w_def p_def)
  moreover have "length (minode_words i) = 16" using assms(2) by (simp add: minode_words_def)
  then have "take 16 (drop p w) = minode_words i" using p assms(4) by (simp add: w_def)
  ultimately show thesis using that by (simp add: inode_at_def p_def)
qed

lemma getstr_keeps: "getstr m = Some (str, m') \<Longrightarrow> m' = m\<lparr>inp := inp m'\<rparr>"
  unfolding getstr_def by (auto simp: bind_eq_Some_conv split: if_splits)

lemma getnum_keeps: "getnum m = Some (n, m') \<Longrightarrow> m' = m\<lparr>inp := inp m'\<rparr>"
  unfolding getnum_def by (auto simp: bind_eq_Some_conv dest!: getstr_keeps)

lemma free_list_inp [simp]: "free_list (m\<lparr>inp := s\<rparr>) xs = free_list m xs"
  by (simp add: free_list_def)

lemma takeWhile_blocks: "\<forall>x \<in> set bl. x \<noteq> 0 \<Longrightarrow> takeWhile (\<lambda>x. x \<noteq> 0) (bl @ replicate n (0 :: u16)) = bl"
  by (cases n) (auto simp: takeWhile_tail)

lemma and_or_same: "(x OR c) AND c = c" for x c :: u16
  by (rule bit_word_eqI) (auto simp: bit_simps)

lemma content_reads:
  assumes "takeWhile (\<lambda>x. x \<noteq> 0) (if w ! 0 AND ILARG = 0 then take 8 (drop 4 w) else img (sint (w ! 4))) = bl"
    "map (\<lambda>x. img (sint x)) bl = blocks_of bs" "w ! 3 = of_nat (length bs)" "length bs < 65536"
  shows "content img w = bs"
  using assms blocks_bytes [of bs] by (simp add: content_def unat_of_nat)

text \<open>C35: A file of the host is found again on the image.  With enough free blocks, \<open>cfile\<close> on a regular file of fewer than 65536 bytes ends,
  and the content that the inode at the place of its number describes, directly or through an indirect block, is the content of the file.\<close>

theorem regular_file_stored:
  assumes "free_list m xs" "distinct xs" "length (blocks_of bs) < length xs" "length bs < 65536"
    and i: "mi_mode i AND 0x6000 = 0" "mi_mode i AND ILARG = 0" "mi_addr i = replicate 8 0" "mi_size1 i = 0" "0 < mi_number i"
    and B: "(mi_number i + 31) div 16 < nblocks m" "(mi_number i + 31) div 16 \<notin> sint ` set xs" "length (image m ((mi_number i + 31) div 16)) = 256"
    and "getstr m = Some (str, m0)" "files str = Some bs"
  shows "\<exists>m'. plain_file files i m = Some m' \<and> content (image m') (inode_at (image m') (mi_number i)) = bs"
proof -
  let ?B = "(mi_number i + 31) div 16"
  define k where "k = length (blocks_of bs)"
  have k: "k \<le> 128" using assms(4) by (simp add: k_def length_blocks)
  obtain s where s: "m0 = m\<lparr>inp := s\<rparr>" using getstr_keeps [OF assms(13)] by blast
  have m0: "free_list m0 xs" "image m0 = image m" "nblocks m0 = nblocks m" using assms(1) by (simp_all add: s)
  obtain b m1 where f: "file_loop bs 0 no_blocks m0 = Some (of_nat (length bs), b, m1)" "ibc b = k" "dbc b = 0"
    "ib b = take k xs @ replicate (256 - k) 0" "map (\<lambda>x. image m1 (sint x)) (take k xs) = blocks_of bs" "free_list m1 (drop k xs)"
    "\<forall>y. y \<notin> sint ` set (take k xs) \<longrightarrow> image m1 y = image m0 y" "same_head m0 m1"
    using file_loop_stores [OF m0(1) assms(2), of bs no_blocks 0] assms(3) k unfolding k_def by (auto simp: no_blocks_def zeros_def BLK_def)
  have nz: "\<forall>x \<in> set xs. x \<noteq> 0" using assms(1) by (auto simp: free_list_def)
  then have bl: "takeWhile (\<lambda>x. x \<noteq> 0) (take k xs @ replicate n 0) = take k xs" for n by (intro takeWhile_blocks) (auto dest: in_set_takeD)
  have away: "sint x \<noteq> ?B" if "x \<in> set xs" for x using B(2) that by (metis image_eqI)
  have in_xs: "set (take k xs) \<subseteq> set xs" by (rule set_take_subset)
  let ?i = "i\<lparr>mi_size1 := of_nat (length bs)\<rparr>"
  have plain: "plain_file files i m = finish_file ?i b m1" using assms(13,14) i(1,4) f(1) by (simp add: plain_file_def)
  have "?B \<notin> sint ` set (take k xs)" using B(2) in_xs by blast
  then have img1: "image m1 ?B = image m ?B" using f(7) m0(2) by simp
  have nb1: "?B < nblocks m1" using B(1) m0(3) f(8) by (simp add: same_head_def)
  show ?thesis
  proof (cases "8 < k")
    case False
    let ?j = "?i\<lparr>mi_addr := take k xs @ replicate (8 - k) 0\<rparr>"
    have "finish_file ?i b m1 = put_inode ?j m1" using False f(2,3,4) i(3) assms(3) by (simp add: finish_file_def k_def)
    moreover obtain m2 where m2: "put_inode ?j m1 = Some m2" "inode_at (image m2) (mi_number i) = minode_words ?j" "\<And>y. y \<noteq> ?B \<Longrightarrow> image m2 y = image m1 y"
      using put_inode_at [of ?j m1] i(5) False assms(3) nb1 B(3) img1 by (auto simp: k_def)
    moreover have "content (image m2) (minode_words ?j) = bs"
    proof (rule content_reads)
      show "takeWhile (\<lambda>x. x \<noteq> 0) (if minode_words ?j ! 0 AND ILARG = 0 then take 8 (drop 4 (minode_words ?j)) else image m2 (sint (minode_words ?j ! 4))) = take k xs"
        using i(2) bl False assms(3) by (simp add: minode_words_def k_def)
      show "map (\<lambda>x. image m2 (sint x)) (take k xs) = blocks_of bs" unfolding f(5) [symmetric] using m2(3) away in_xs by (intro map_cong) auto
    qed (use assms(4) in \<open>simp_all add: minode_words_def\<close>)
    ultimately show ?thesis using plain by simp
  next
    case True
    obtain y ys where y: "drop k xs = y # ys" using assms(3) by (cases "drop k xs") (auto simp: k_def)
    obtain m2 where m2: "alloc m1 = Some (y, m2)" "image m2 = image m1" "nblocks m2 = nblocks m1" using alloc_pops [of m1 y ys] f(6) y by auto
    define m3 where "m3 = m2\<lparr>image := (image m2)(sint y := ib b), nblocks := max (nblocks m2) (sint y + 1)\<rparr>"
    let ?j = "?i\<lparr>mi_mode := mi_mode i OR ILARG, mi_addr := (replicate 8 0)[0 := y]\<rparr>"
    have yx: "y \<in> set xs" using y by (metis in_set_dropD list.set_intros(1))
    then have sy: "0 < sint y" "sint y \<noteq> ?B" using assms(1) away by (auto simp: free_list_def)
    have dis: "sint x \<noteq> sint y" if "x \<in> set (take k xs)" for x
    proof -
      have "set (take k xs) \<inter> set (drop k xs) = {}" using assms(2) by (metis append_take_drop_id distinct_append)
      then show ?thesis using that y by (auto dest: signed_word_eqI)
    qed
    have pre: "0 < mi_number ?j" "length (mi_addr ?j) = 8" "(mi_number ?j + 31) div 16 < nblocks m3" "length (image m3 ((mi_number ?j + 31) div 16)) = 256"
      using i(5) nb1 B(3) img1 sy(2) m2(2,3) by (simp_all add: m3_def less_max_iff_disj)
    have "finish_file ?i b m1 = put_inode ?j m3" using True f(2,3) i(3) m2(1) sy(1) by (simp add: finish_file_def wtfs_def m3_def)
    moreover obtain m4 where m4: "put_inode ?j m3 = Some m4" "inode_at (image m4) (mi_number i) = minode_words ?j" "\<And>z. z \<noteq> ?B \<Longrightarrow> image m4 z = image m3 z"
      using put_inode_at [OF pre] by auto
    moreover have "content (image m4) (minode_words ?j) = bs"
    proof (rule content_reads)
      have "image m4 (sint y) = ib b" using m4(3) [OF sy(2)] by (simp add: m3_def)
      then show "takeWhile (\<lambda>x. x \<noteq> 0) (if minode_words ?j ! 0 AND ILARG = 0 then take 8 (drop 4 (minode_words ?j)) else image m4 (sint (minode_words ?j ! 4))) = take k xs"
        using bl f(4) and_or_same [of "mi_mode i" ILARG] by (simp add: minode_words_def nth_append)
      show "map (\<lambda>x. image m4 (sint x)) (take k xs) = blocks_of bs"
        unfolding f(5) [symmetric] using m4(3) away in_xs dis m2(2) by (intro map_cong) (auto simp: m3_def)
    qed (use assms(4) in \<open>simp_all add: minode_words_def\<close>)
    ultimately show ?thesis using plain by simp
  qed
qed

definition ex_image :: mkfs where
  "ex_image = (empty_image 1 1 ''f '')\<lparr>s_isize := 2, s_fsize := 10, s_nfree := 3, s_free := [0, 5, 6] @ replicate 97 0, nblocks := 10\<rparr>"

theorem regular_file_stored_witness:
  "\<exists>m'. plain_file (\<lambda>_. Some [1, 2, 3]) \<lparr>mi_number = 1, mi_mode = 0x81FF, mi_nlink = 1, mi_uid = 0, mi_gid = 0, mi_size0 = 0, mi_size1 = 0, mi_addr = replicate 8 0\<rparr> ex_image = Some m' \<and>
     content (image m') (inode_at (image m') 1) = [1, 2, 3]"
proof -
  let ?i = "\<lparr>mi_number = 1, mi_mode = 0x81FF, mi_nlink = 1, mi_uid = 0, mi_gid = 0, mi_size0 = 0, mi_size1 = 0, mi_addr = replicate 8 0\<rparr>"
  have "listed (image ex_image) (nblocks ex_image) 3 (s_free ex_image) (rev (take (unat (3 :: u16) - 1) (tl (s_free ex_image))))"
    by (rule listed.listed_end) (simp_all add: ex_image_def)
  then have fl: "free_list ex_image [6, 5]" by (simp add: free_list_def ex_image_def)
  have str: "getstr ex_image = Some (''f'', ex_image\<lparr>inp := []\<rparr>)"
    by (simp add: getstr_def ex_image_def empty_image_def find_str.simps)
  have "length (blocks_of [1, 2, 3]) < length [6, 5 :: u16]" by (simp add: length_blocks)
  from regular_file_stored [OF fl _ this _ _ _ _ _ _ _ _ _ str, of ?i "\<lambda>_. Some [1, 2, 3]"] show ?thesis
    by (simp add: ex_image_def empty_image_def zeros_def BLK_def)
qed

end
