(* ===== verification/Volume.thy ===== *)
theory Volume
  imports Mkfs Files
begin

unbundle bit_operations_syntax

text \<open>
  The format of a volume, on which \<open>tools/mkfs.c\<close> and the kernel have to agree: the place of an inode and its words.
\<close>

lemma unat_of_int16: "0 \<le> n \<Longrightarrow> n < 65536 \<Longrightarrow> unat (of_int n :: u16) = nat n"
  by (simp add: unat_eq_nat_uint uint_word_of_int)

lemma inode_place:
  assumes "0 < n" "n < 32000"
  shows "itod (of_int n) = Some (of_int ((n + 31) div 16))" "itoo (of_int n) b = Some (b + 32 * nat ((n + 31) mod 16))"
proof -
  have "(of_int n :: u16) + 31 = of_int (n + 31)" by simp
  then have u: "unat ((of_int n :: u16) + 31) = nat (n + 31)" using unat_of_int16 [of "n + 31"] assms by simp
  have d: "ldiv (of_int n + 31) 16 = Some (of_nat (nat (n + 31) div 16))" "lrem (of_int n + 31) 16 = Some (of_nat (nat (n + 31) mod 16))"
    using ldiv_lrem_nonneg [of "of_int n + 31" 16] u assms by simp_all
  have "nat (n + 31) div 16 = nat ((n + 31) div 16)" using assms by (simp add: nat_div_distrib)
  then show "itod (of_int n) = Some (of_int ((n + 31) div 16))" using d(1) assms by (simp add: itod_def)
  have "nat (n + 31) mod 16 < 16" by simp
  then have "sint (of_nat (nat (n + 31) mod 16) :: u16) = int (nat (n + 31) mod 16)"
    using sint16_small [of "of_nat (nat (n + 31) mod 16)"] by (simp add: unat_of_nat)
  moreover have "nat (n + 31) mod 16 = nat ((n + 31) mod 16)" using assms by (simp add: nat_mod_distrib)
  ultimately show "itoo (of_int n) b = Some (b + 32 * nat ((n + 31) mod 16))" using d(2) by (simp add: itoo_def nat_add_distrib nat_mult_distrib)
qed

text \<open>The test of \<open>mkfs\<close> accepts fifteen numbers too many: their inodes go to the first data block.\<close>

lemma new_inode_overruns:
  assumes "getstr m = Some (str, m1)" "mode_of str \<noteq> None" "getnum m1 = Some (x, m2)" "getnum m2 = Some (y, m3)" "mkfs.ino m = 16 * uint (mkfs.s_isize m)"
  shows "\<exists>i m'. new_inode m = Some (i, m') \<and> (mi_number i + 31) div 16 = uint (mkfs.s_isize m) + 2"
proof -
  obtain s1 s2 s3 where "m1 = m\<lparr>inp := s1\<rparr>" "m2 = m1\<lparr>inp := s2\<rparr>" "m3 = m2\<lparr>inp := s3\<rparr>"
    using getstr_keeps [OF assms(1)] getnum_keeps [OF assms(3)] getnum_keeps [OF assms(4)] by blast
  then have keep: "mkfs.ino m3 = mkfs.ino m" "mkfs.s_isize m3 = mkfs.s_isize m" by simp_all
  have "\<not> uint (mkfs.s_isize m) < (16 * uint (mkfs.s_isize m) + 1) sdiv 16" by (simp add: signed_divide_int_def)
  then show ?thesis using assms keep by (auto simp: new_inode_def)
qed


definition ex_inode :: minode where
  "ex_inode = \<lparr>mi_number = 17, mi_mode = 0x81FF, mi_nlink = 1, mi_uid = 2, mi_gid = 3, mi_size0 = 0, mi_size1 = 4711, mi_addr = replicate 8 0\<rparr>"


end
