(* ===== verification/Wc.thy ===== *)
theory Wc
  imports Uprintf
begin

text \<open>
  \<open>usr/wc.c\<close>: lines, words and characters.  The reads deliver the pieces of a list; the counters are integers of 16 bits.
\<close>

record counts =
  wl :: u16
  ww :: u16
  wc_c :: u16
  inword :: bool

definition separators :: string where
  "separators = [CHR '' '', CHR 0x0D, CHR 0x09, CHR 0x0A, CHR 0x0B]"

definition wc_char :: "char \<Rightarrow> counts \<Rightarrow> counts" where
  "wc_char x s =
     (let s = s\<lparr>wc_c := wc_c s + 1\<rparr>;
          s = (if x = CHR 0x0A then s\<lparr>wl := wl s + 1\<rparr> else s)
      in if x \<in> set separators then s\<lparr>inword := False\<rparr>
         else if \<not> inword s then s\<lparr>ww := ww s + 1, inword := True\<rparr>
         else s)"

text \<open>The loops over the pieces and over the characters of a piece.\<close>

definition wc_counts :: "string list \<Rightarrow> counts" where
  "wc_counts pieces = fold (\<lambda>buf s. fold wc_char buf s) pieces \<lparr>wl = 0, ww = 0, wc_c = 0, inword = False\<rparr>"

text \<open>\<open>failed\<close> says that the last read returned an error.\<close>

definition wc :: "string list \<Rightarrow> bool \<Rightarrow> string \<Rightarrow> string option" where
  "wc pieces failed name =
     (if failed then fprintf (''wc: read error'' @ [CHR 0x0A]) []
      else
        let s = wc_counts pieces
        in fprintf (''%d %d %d %s'' @ [CHR 0x0A]) [Num (wl s), Num (ww s), Num (wc_c s), Text name])"

subsection \<open>The counts\<close>

text \<open>The words of a text: the parts between separators that are not empty.\<close>

fun split_at_seps :: "string \<Rightarrow> string list" where
  "split_at_seps [] = [[]]"
| "split_at_seps (x # s) =
     (if x \<in> set separators then [] # split_at_seps s
      else case split_at_seps s of w # ws \<Rightarrow> (x # w) # ws)"

definition words_of :: "string \<Rightarrow> string list" where
  "words_of s = filter (\<lambda>w. w \<noteq> []) (split_at_seps s)"

lemma split_not_empty: "split_at_seps s \<noteq> []"
  by (induction s) (auto split: list.splits)

lemma wc_fold:
  "fold wc_char s c = \<lparr>wl = wl c + of_nat (count_list s (CHR 0x0A)),
     ww = ww c + of_nat (length (words_of s)) - (if inword c \<and> s \<noteq> [] \<and> hd s \<notin> set separators then 1 else 0),
     wc_c = wc_c c + of_nat (length s), inword = (if s = [] then inword c else last s \<notin> set separators)\<rparr>"
proof (induction s arbitrary: c)
  case Nil
  then show ?case by (simp add: words_of_def)
next
  case (Cons x s)
  obtain w ws where w: "split_at_seps s = w # ws" using split_not_empty by (cases "split_at_seps s") auto
  have e: "w = [] \<longleftrightarrow> s = [] \<or> hd s \<in> set separators" using w by (cases s) (auto simp: split_not_empty split: if_splits list.splits)
  show ?case
  proof (cases "x \<in> set separators")
    case True
    then have "words_of (x # s) = words_of s" by (simp add: words_of_def)
    then show ?thesis using True Cons.IH [of "wc_char x c"] by (simp add: wc_char_def Let_def separators_def)
  next
    case False
    then have "length (words_of (x # s)) = length (words_of s) + (if s = [] \<or> hd s \<in> set separators then 1 else 0)"
      using e by (auto simp: words_of_def w)
    moreover have "x \<noteq> CHR 0x0A" using False by (auto simp: separators_def)
    ultimately show ?thesis using False Cons.IH [of "wc_char x c"] by (auto simp: wc_char_def Let_def)
  qed
qed

lemma fold_pieces: "fold (\<lambda>buf s. fold f buf s) pieces s = fold f (concat pieces) s"
  by (induction pieces arbitrary: s) auto

text \<open>\<open>wc\<close> counts the newlines, the words and the characters of its input modulo 65536, however the input falls into pieces.\<close>

theorem wc_counts_text:
  "wl (wc_counts pieces) = of_nat (count_list (concat pieces) (CHR 0x0A)) \<and>
   ww (wc_counts pieces) = of_nat (length (words_of (concat pieces))) \<and>
   wc_c (wc_counts pieces) = of_nat (length (concat pieces))"
  unfolding wc_counts_def fold_pieces wc_fold by simp

end
