(* ===== verification/Fib.thy ===== *)
theory Fib
  imports Prelude
begin

text \<open>
  \<open>usr/fib.c\<close>: Fibonacci numbers as arrays of 65 decimal digits, the least significant one first.  The additions are counted in an array of
  the same kind.
\<close>

type_synonym bignum = "u8 list"

definition MAX_DIGITS :: nat where
  "MAX_DIGITS = 65"

fun inc_loop :: "u8 \<Rightarrow> bignum \<Rightarrow> bignum" where
  "inc_loop carry [] = []"
| "inc_loop carry (d # ds) =
     (let sum = (ucast d + ucast carry :: u16) in ucast (sum mod 10) # inc_loop (ucast (sum div 10)) ds)"

definition inc_big_numbers :: "bignum \<Rightarrow> bignum" where
  "inc_big_numbers number = inc_loop 1 number"

fun add_loop :: "u8 \<Rightarrow> bignum \<Rightarrow> bignum \<Rightarrow> bignum" where
  "add_loop carry (x # a) (y # b) =
     (let sum = (ucast x + ucast y + ucast carry :: u16) in ucast (sum mod 10) # add_loop (ucast (sum div 10)) a b)"
| "add_loop carry _ _ = []"

text \<open>The sum, and the new number of additions.\<close>

definition add_big_numbers :: "bignum \<Rightarrow> bignum \<Rightarrow> bignum \<Rightarrow> bignum \<times> bignum" where
  "add_big_numbers a b ops = (add_loop 0 a b, inc_big_numbers ops)"

definition small :: "nat \<Rightarrow> bignum" where
  "small n = of_nat n # replicate (MAX_DIGITS - 1) 0"

fun fibonacci :: "nat \<Rightarrow> bignum \<Rightarrow> bignum \<times> bignum" where
  "fibonacci 0 ops = (small 0, ops)"
| "fibonacci (Suc 0) ops = (small 1, ops)"
| "fibonacci (Suc (Suc n)) ops =
     (let (a, ops) = fibonacci (Suc n) ops;
          (b, ops) = fibonacci n ops
      in add_big_numbers a b ops)"

text \<open>The results of the loop of \<open>fibonacci_sequence\<close>; \<open>k\<close> is the number of turns left.\<close>

fun sequence :: "nat \<Rightarrow> bignum \<Rightarrow> bignum \<Rightarrow> bignum list" where
  "sequence 0 a b = []"
| "sequence (Suc k) a b = (let result = add_loop 0 a b in result # sequence k b result)"

definition fibonacci_sequence :: "bignum list" where
  "fibonacci_sequence = small 0 # small 1 # sequence 254 (small 0) (small 1)"

text \<open>\<open>print_big_number\<close>: the digits from the first that is not 0 on.\<close>

definition print_big_number :: "bignum \<Rightarrow> string" where
  "print_big_number number =
     (let s = dropWhile (\<lambda>d. d = 0) (rev number)
      in (if s = [] then ''0'' else map (\<lambda>d. char_of (unat d + 48)) s) @ [CHR 0x0A])"

subsection \<open>The values\<close>

fun val :: "bignum \<Rightarrow> nat" where
  "val [] = 0"
| "val (d # ds) = unat d + 10 * val ds"

definition decimal :: "bignum \<Rightarrow> bool" where
  "decimal ds \<longleftrightarrow> (\<forall>d \<in> set ds. unat d < 10)"

lemma val_bound: "decimal ds \<Longrightarrow> val ds < 10 ^ length ds"
proof (induction ds)
  case (Cons d ds)
  then have "unat d < 10" "val ds < 10 ^ length ds" by (auto simp: decimal_def)
  then have "val ds + 1 \<le> 10 ^ length ds" by simp
  then have "10 * val ds + 10 \<le> 10 * 10 ^ length ds" by linarith
  then show ?case using \<open>unat d < 10\<close> by simp
qed simp

text \<open>One digit of a sum.\<close>

lemma digit_sum:
  assumes "unat (x :: u8) < 10" "unat (y :: u8) < 10" "unat (c :: u8) \<le> 1"
  defines "sm \<equiv> (ucast x + ucast y + ucast c :: u16)"
  shows "unat (ucast (sm mod 10) :: u8) = (unat x + unat y + unat c) mod 10" "unat (ucast (sm div 10) :: u8) = (unat x + unat y + unat c) div 10"
proof -
  have "unat sm = unat x + unat y + unat c"
    using assms unfolding sm_def by (simp add: unat_word_ariths unsigned_ucast_eq take_bit_nat_eq_self)
  then have "unat (sm mod 10) = (unat x + unat y + unat c) mod 10" "unat (sm div 10) = (unat x + unat y + unat c) div 10"
    by (simp_all add: unat_mod unat_div)
  then show "unat (ucast (sm mod 10) :: u8) = (unat x + unat y + unat c) mod 10" "unat (ucast (sm div 10) :: u8) = (unat x + unat y + unat c) div 10"
    using assms by (simp_all add: unsigned_ucast_eq take_bit_nat_def)
qed

lemma carry_mod: "s mod 10 + 10 * ((v + s div 10) mod m) = (s + 10 * v) mod (10 * m)" for s v m :: nat
  by (simp add: mod_mult2_eq add.commute)

lemma add_loop_val:
  "length a = length b \<Longrightarrow> decimal a \<Longrightarrow> decimal b \<Longrightarrow> unat c \<le> 1 \<Longrightarrow>
   length (add_loop c a b) = length a \<and> decimal (add_loop c a b) \<and> val (add_loop c a b) = (val a + val b + unat c) mod 10 ^ length a"
proof (induction c a b rule: add_loop.induct)
  case (1 c x a y b)
  let ?s = "unat x + unat y + unat c" and ?c = "ucast ((ucast x + ucast y + ucast c :: u16) div 10) :: u8"
  have xy: "unat x < 10" "unat y < 10" using 1(3,4) by (auto simp: decimal_def)
  note d = digit_sum [OF xy 1(5)]
  have "unat ?c \<le> 1" using xy 1(5) d(2) by simp
  then have ih: "length (add_loop ?c a b) = length a" "decimal (add_loop ?c a b)" "val (add_loop ?c a b) = (val a + val b + unat ?c) mod 10 ^ length a"
    using 1 by (auto simp: decimal_def)
  have "val (add_loop c (x # a) (y # b)) = ?s mod 10 + 10 * ((val a + val b + ?s div 10) mod 10 ^ length a)" using ih(3) d by (simp add: Let_def)
  also have "\<dots> = (?s + 10 * (val a + val b)) mod (10 * 10 ^ length a)" by (rule carry_mod)
  finally show ?case using ih(1,2) d(1) by (auto simp: Let_def decimal_def algebra_simps)
qed (auto simp: decimal_def)

lemma inc_as_add: "inc_loop c ds = add_loop c ds (replicate (length ds) 0)"
  by (induction c ds rule: inc_loop.induct) (simp_all add: Let_def)

fun fibo :: "nat \<Rightarrow> nat" where
  "fibo 0 = 0"
| "fibo (Suc 0) = 1"
| "fibo (Suc (Suc n)) = fibo (Suc n) + fibo n"

text \<open>The number of additions of the recursive routine.\<close>

fun adds :: "nat \<Rightarrow> nat" where
  "adds 0 = 0"
| "adds (Suc 0) = 0"
| "adds (Suc (Suc n)) = adds (Suc n) + adds n + 1"

lemma fibo_mono: "fibo n \<le> fibo (Suc n)"
  by (cases n) auto

lemma fibo_ten: "fibo (n + 10) \<le> 144 * fibo n + 55"
proof -
  have "fibo (n + 10) = 55 * fibo (Suc n) + 34 * fibo n" by (simp add: eval_nat_numeral)
  moreover have "fibo (Suc n) \<le> 2 * fibo n + 1" using fibo_mono [of "n - 1"] by (cases n) auto
  ultimately show ?thesis by linarith
qed

lemma fibo_tens: "fibo (n + 10 * k) + 1 \<le> 144 ^ k * (fibo n + 1)"
proof (induction k)
  case (Suc k)
  have "fibo (n + 10 * Suc k) + 1 \<le> 144 * (fibo (n + 10 * k) + 1)" using fibo_ten [of "n + 10 * k"] by (simp add: ac_simps)
  also have "\<dots> \<le> 144 * (144 ^ k * (fibo n + 1))" using Suc by (intro mult_le_mono2)
  finally show ?case by (simp add: mult.assoc)
qed simp

lemma fibo_fits: "n \<le> 255 \<Longrightarrow> fibo n < 10 ^ 65"
proof -
  assume "n \<le> 255"
  then have "fibo n \<le> fibo 255" using lift_Suc_mono_le [of fibo n 255] fibo_mono by blast
  also have "fibo 255 + 1 \<le> 144 ^ 25 * (fibo 5 + 1)" using fibo_tens [of 5 25] by simp
  moreover have "fibo 5 = 5" by (simp add: eval_nat_numeral)
  ultimately show ?thesis by simp
qed

definition wf_number :: "bignum \<Rightarrow> bool" where
  "wf_number ds \<longleftrightarrow> length ds = 65 \<and> decimal ds"

lemma number_small: "n < 10 \<Longrightarrow> wf_number (small n) \<and> val (small n) = n"
proof -
  have "val (replicate k 0) = 0" for k by (induction k) auto
  then show "n < 10 \<Longrightarrow> wf_number (small n) \<and> val (small n) = n" by (auto simp: wf_number_def small_def MAX_DIGITS_def decimal_def unat_of_nat)
qed

lemma number_add: "wf_number a \<Longrightarrow> wf_number b \<Longrightarrow> wf_number (add_loop 0 a b) \<and> val (add_loop 0 a b) = (val a + val b) mod 10 ^ 65"
  using add_loop_val [of a b 0] by (simp add: wf_number_def)

lemma number_inc: "wf_number ds \<Longrightarrow> wf_number (inc_big_numbers ds) \<and> val (inc_big_numbers ds) = (val ds + 1) mod 10 ^ 65"
proof -
  have "val (replicate k 0) = 0" for k by (induction k) auto
  then show "wf_number ds \<Longrightarrow> wf_number (inc_big_numbers ds) \<and> val (inc_big_numbers ds) = (val ds + 1) mod 10 ^ 65"
    using add_loop_val [of ds "replicate (length ds) 0" 1] by (auto simp: wf_number_def inc_big_numbers_def inc_as_add decimal_def)
qed

text \<open>The recursive routine computes the Fibonacci number for every argument of eight bits, and counts its additions.\<close>

theorem fibonacci_value:
  "n \<le> 255 \<Longrightarrow> wf_number ops \<Longrightarrow>
   wf_number (fst (fibonacci n ops)) \<and> val (fst (fibonacci n ops)) = fibo n \<and>
   wf_number (snd (fibonacci n ops)) \<and> val (snd (fibonacci n ops)) = (val ops + adds n) mod 10 ^ 65"
proof (induction n ops rule: fibonacci.induct)
  case (1 ops)
  then show ?case using number_small [of 0] val_bound [of ops] by (simp add: wf_number_def)
next
  case (2 ops)
  then show ?case using number_small [of 1] val_bound [of ops] by (simp add: wf_number_def)
next
  case (3 n ops)
  obtain a o1 where a: "fibonacci (Suc n) ops = (a, o1)" by fastforce
  obtain b o2 where b: "fibonacci n o1 = (b, o2)" by fastforce
  have ia: "wf_number a" "val a = fibo (Suc n)" "wf_number o1" "val o1 = (val ops + adds (Suc n)) mod 10 ^ 65" using 3(1,3,4) a by auto
  have ib: "wf_number b" "val b = fibo n" "wf_number o2" "val o2 = (val o1 + adds n) mod 10 ^ 65" using 3(2) [OF a [symmetric] refl] 3(3) ia(3) b by auto
  have f: "fibonacci (Suc (Suc n)) ops = (add_loop 0 a b, inc_big_numbers o2)" using a b by (simp add: add_big_numbers_def)
  have "val (add_loop 0 a b) = fibo (Suc (Suc n))" using number_add [OF ia(1) ib(1)] ia(2) ib(2) fibo_fits [OF 3(3)] by simp
  moreover have "val (inc_big_numbers o2) = (val ops + adds (Suc (Suc n))) mod 10 ^ 65"
    using number_inc [OF ib(3)] ib(4) ia(4) by (simp add: mod_simps add.assoc)
  ultimately show ?case unfolding f using number_add [OF ia(1) ib(1)] number_inc [OF ib(3)] by simp
qed

lemma sequence_value:
  "wf_number a \<Longrightarrow> wf_number b \<Longrightarrow> val a = fibo n \<Longrightarrow> val b = fibo (Suc n) \<Longrightarrow> n + k \<le> 254 \<Longrightarrow>
   map val (sequence k a b) = map fibo [n + 2..<n + 2 + k]"
proof (induction k arbitrary: a b n)
  case (Suc k)
  let ?r = "add_loop 0 a b"
  have r: "wf_number ?r" "val ?r = fibo (Suc (Suc n))"
    using number_add [OF Suc.prems(1,2)] Suc.prems(3,4,5) fibo_fits [of "Suc (Suc n)"] by (auto simp: add.commute)
  have "map val (sequence k b ?r) = map fibo [Suc n + 2..<Suc n + 2 + k]"
    using Suc.IH [OF Suc.prems(2) r(1) Suc.prems(4) r(2)] Suc.prems(5) by simp
  moreover have "[n + 2..<n + 2 + Suc k] = Suc (Suc n) # [Suc n + 2..<Suc n + 2 + k]" by (subst upt_conv_Cons) simp_all
  ultimately show ?case using r(2) by (simp only: sequence.simps Let_def list.map)
qed simp

text \<open>The fast routine prints the Fibonacci numbers from 0 to 255.\<close>

theorem fibonacci_sequence_values: "map val fibonacci_sequence = map fibo [0..<256]"
proof -
  have "map val (sequence 254 (small 0) (small 1)) = map fibo [2..<256]"
    using sequence_value [of "small 0" "small 1" 0 254] number_small [of 0] number_small [of 1] by (simp add: numeral_2_eq_2 del: upt_rec_numeral)
  moreover have "[0..<256] = [0..<2] @ [2..<256]" using upt_add_eq_append [of 0 2 254] by (simp del: upt_rec_numeral)
  moreover have "map fibo [0..<2] = [0, 1]" by (simp add: upt_rec)
  moreover have "val (small 0) = 0" "val (small 1) = 1" using number_small [of 0] number_small [of 1] by simp_all
  ultimately show ?thesis by (simp only: fibonacci_sequence_def list.map map_append append.simps)
qed

end
