(* ===== verification/Stty.thy ===== *)
theory Stty
  imports Uprintf
begin

unbundle bit_operations_syntax

text \<open>
  \<open>usr/stty.c\<close>: the modes of a terminal in words.  The array \<open>mode\<close> is three integers of 16 bits, of which the first two hold two
  characters each: the speeds, and the erase and kill characters.
\<close>

record sgtty =
  mode0 :: u16
  mode1 :: u16
  mode2 :: u16

definition speeds :: "(string \<times> u16) list" where
  "speeds =
     [(''0'', 0), (''50'', 257), (''75'', 514), (''110'', 771), (''134'', 1028), (''134.5'', 1028), (''150'', 1285), (''200'', 1542),
      (''300'', 1799), (''600'', 2056), (''1200'', 2313), (''1800'', 2570), (''2400'', 2827), (''4800'', 3084), (''9600'', 3341),
      (''exta'', 3598), (''extb'', 3855)]"

text \<open>The flags and the fields of the delays.\<close>

abbreviation (input) "HUPCL \<equiv> (0x1 :: u16)"
abbreviation (input) "XTABS \<equiv> (0x2 :: u16)"
abbreviation (input) "LCASE \<equiv> (0x4 :: u16)"
abbreviation (input) "ECHO \<equiv> (0x8 :: u16)"
abbreviation (input) "CRMOD \<equiv> (0x10 :: u16)"
abbreviation (input) "RAW \<equiv> (0x20 :: u16)"
abbreviation (input) "ODDP \<equiv> (0x40 :: u16)"
abbreviation (input) "EVENP \<equiv> (0x80 :: u16)"
abbreviation (input) "NL1 \<equiv> (0x100 :: u16)"
abbreviation (input) "NL2 \<equiv> (0x200 :: u16)"
abbreviation (input) "NL3 \<equiv> (0x300 :: u16)"
abbreviation (input) "TAB1 \<equiv> (0x400 :: u16)"
abbreviation (input) "TAB2 \<equiv> (0x800 :: u16)"
abbreviation (input) "TAB3 \<equiv> (0xC00 :: u16)"
abbreviation (input) "CR1 \<equiv> (0x1000 :: u16)"
abbreviation (input) "CR2 \<equiv> (0x2000 :: u16)"
abbreviation (input) "CR3 \<equiv> (0x3000 :: u16)"
abbreviation (input) "FF1 \<equiv> (0x4000 :: u16)"
abbreviation (input) "BS1 \<equiv> (0x8000 :: u16)"
abbreviation (input) "ALLM \<equiv> (0xFF00 :: u16)"

text \<open>A word with the bits it sets and the bits it resets first.\<close>

definition modes :: "(string \<times> u16 \<times> u16) list" where
  "modes =
     [(''even'', EVENP, 0), (''-even'', 0, EVENP), (''odd'', ODDP, 0), (''-odd'', 0, ODDP), (''raw'', RAW, 0), (''-raw'', 0, RAW),
      (''cooked'', 0, RAW), (''-nl'', CRMOD, 0), (''nl'', 0, CRMOD), (''echo'', ECHO, 0), (''-echo'', 0, ECHO), (''LCASE'', LCASE, 0),
      (''lcase'', LCASE, 0), (''-LCASE'', 0, LCASE), (''-lcase'', 0, LCASE), (''-tabs'', XTABS, 0), (''tabs'', 0, XTABS),
      (''hup'', HUPCL, 0), (''-hup'', 0, HUPCL),
      (''cr0'', 0, CR3), (''cr1'', CR1, CR3), (''cr2'', CR2, CR3), (''cr3'', CR3, CR3),
      (''tab0'', 0, TAB3), (''tab1'', TAB1, TAB3), (''tab2'', TAB2, TAB3), (''tab3'', TAB3, TAB3),
      (''nl0'', 0, NL3), (''nl1'', NL1, NL3), (''nl2'', NL2, NL3), (''nl3'', NL3, NL3),
      (''ff0'', 0, FF1), (''ff1'', FF1, FF1), (''bs0'', 0, BS1), (''bs1'', BS1, BS1),
      (''33'', CR1, ALLM), (''tty33'', CR1, ALLM), (''37'', FF1 + CR2 + TAB1 + NL1, ALLM), (''tty37'', FF1 + CR2 + TAB1 + NL1, ALLM),
      (''05'', NL2, ALLM), (''vt05'', NL2, ALLM), (''tn'', CR1, ALLM), (''tn300'', CR1, ALLM), (''ti'', CR2, ALLM), (''ti700'', CR2, ALLM),
      (''tek'', FF1, ALLM)]"

subsection \<open>Setting modes\<close>

text \<open>\<open>eq(string)\<close>: the variable \<open>arg\<close> is cleared, here to \<open>None\<close>, when it has been recognised.\<close>

definition eq :: "string \<Rightarrow> string option \<Rightarrow> bool \<times> string option" where
  "eq str arg = (if arg = Some str then (True, None) else (False, arg))"

definition set_speed :: "string \<times> u16 \<Rightarrow> string option \<times> sgtty \<Rightarrow> string option \<times> sgtty" where
  "set_speed e s =
     (let (arg, m) = s; (hit, arg) = eq (fst e) arg in (arg, if hit then m\<lparr>mode0 := snd e\<rparr> else m))"

definition set_mode :: "string \<times> u16 \<times> u16 \<Rightarrow> string option \<times> sgtty \<Rightarrow> string option \<times> sgtty" where
  "set_mode e s =
     (let (arg, m) = s; (hit, arg) = eq (fst e) arg
      in (arg, if hit then m\<lparr>mode2 := (mode2 m AND NOT (snd (snd e))) OR fst (snd e)\<rparr> else m))"

text \<open>The first character of an argument, and the two halves of \<open>mode[1]\<close>.\<close>

definition first_char :: "string \<Rightarrow> u8" where
  "first_char s = (if s = [] then 0 else of_nat (of_char (hd s)))"

definition set_lo :: "u8 \<Rightarrow> u16 \<Rightarrow> u16" where
  "set_lo c w = (w AND 0xFF00) OR ucast c"

definition set_hi :: "u8 \<Rightarrow> u16 \<Rightarrow> u16" where
  "set_hi c w = (w AND 0xFF) OR push_bit 8 (ucast c)"

text \<open>
  One turn of the loop in \<open>main\<close>: the messages, the arguments left and the modes; \<open>None\<close> for \<open>erase\<close> or \<open>kill\<close> as the last argument, where
  the null pointer behind the arguments is followed.  The value of the constant \<open>'#@'\<close> is up to the compiler: \<open>ek\<close>.
\<close>

definition stty_arg :: "u16 \<Rightarrow> string \<Rightarrow> string list \<Rightarrow> sgtty \<Rightarrow> (string \<times> string list \<times> sgtty) option" where
  "stty_arg ek a argv m = do {
     let arg = Some a;
     let (hit, arg) = eq ''ek'' arg;
     let m = (if hit then m\<lparr>mode1 := ek\<rparr> else m);
     let (hit, arg) = eq ''erase'' arg;
     (argv, m) \<leftarrow> (if hit then case argv of [] \<Rightarrow> None | c # argv \<Rightarrow> Some (argv, m\<lparr>mode1 := set_lo (first_char c) (mode1 m)\<rparr>)
                   else Some (argv, m));
     let (hit, arg) = eq ''kill'' arg;
     (argv, m) \<leftarrow> (if hit then case argv of [] \<Rightarrow> None | c # argv \<Rightarrow> Some (argv, m\<lparr>mode1 := set_hi (first_char c) (mode1 m)\<rparr>)
                   else Some (argv, m));
     let (arg, m) = fold set_speed speeds (arg, m);
     let (arg, m) = fold set_mode modes (arg, m);
     msg \<leftarrow> (case arg of None \<Rightarrow> Some [] | Some x \<Rightarrow> fprintf (''unknown mode: %s'' @ [CHR 0x0A]) [Text x]);
     Some (msg, argv, m) }"

lemma stty_arg_shorter: "stty_arg ek a argv m = Some (msg, argv', m') \<Longrightarrow> length argv' \<le> length argv"
  unfolding stty_arg_def by (auto split: bind_splits if_splits list.splits prod.splits simp: Let_def)

function stty_args :: "u16 \<Rightarrow> string list \<Rightarrow> sgtty \<Rightarrow> (string \<times> sgtty) option" where
  "stty_args ek [] m = Some ([], m)"
| "stty_args ek (a # argv) m =
     (case stty_arg ek a argv m of
        None \<Rightarrow> None
      | Some (msg, argv, m) \<Rightarrow> (case stty_args ek argv m of None \<Rightarrow> None | Some (out, m) \<Rightarrow> Some (msg @ out, m)))"
  by pat_completeness auto
termination stty_args
  by (relation "measure (\<lambda>(_, argv, _). length argv)") (auto dest!: stty_arg_shorter)

subsection \<open>Printing modes\<close>

definition speed :: "u16 list" where
  "speed = [0, 50, 75, 110, 134, 150, 200, 300, 600, 1200, 1800, 2400, 4800, 9600, 0, 0]"

text \<open>\<open>None\<close> for a speed outside of the table.\<close>

definition prspeed :: "string \<Rightarrow> u8 \<Rightarrow> string option" where
  "prspeed c s =
     (if 0 \<le> sint s \<and> sint s < 16 then fprintf (''%s%d baud'' @ [CHR 0x0A]) [Text c, Num (speed ! nat (sint s))] else None)"

definition delay :: "u16 \<Rightarrow> string \<Rightarrow> string option" where
  "delay m s = (let m = m AND 3 in if m \<noteq> 0 then fprintf ''%s%d '' [Text s, Num m] else Some [])"

definition flag_word :: "u16 \<Rightarrow> u16 \<Rightarrow> string \<Rightarrow> string option" where
  "flag_word m b s = (if m AND b \<noteq> 0 then fprintf s [] else Some [])"

definition pr_flags :: "u16 \<Rightarrow> string option" where
  "pr_flags m = do {
     a \<leftarrow> flag_word m 0x80 ''even '';
     b \<leftarrow> flag_word m 0x40 ''odd '';
     c \<leftarrow> flag_word m 0x20 ''raw '';
     d \<leftarrow> flag_word m 0x10 ''-nl '';
     e \<leftarrow> flag_word m 0x8 ''echo '';
     f \<leftarrow> flag_word m 0x4 ''lcase '';
     g \<leftarrow> flag_word m 0x2 ''-tabs '';
     h \<leftarrow> flag_word m 0x1 ''hup '';
     i \<leftarrow> delay (signed_drop_bit 8 m) ''nl'';
     j \<leftarrow> delay (signed_drop_bit 10 m) ''tab'';
     k \<leftarrow> delay (signed_drop_bit 12 m) ''cr'';
     l \<leftarrow> delay (signed_drop_bit 14 m AND 1) ''ff'';
     n \<leftarrow> delay (signed_drop_bit 15 m AND 1) ''bs'';
     Some (a @ b @ c @ d @ e @ f @ g @ h @ i @ j @ k @ l @ n @ [CHR 0x0A]) }"

definition prmodes :: "sgtty \<Rightarrow> string option" where
  "prmodes m = do {
     let (lo, hi) = (ucast (mode0 m) :: u8, ucast (drop_bit 8 (mode0 m)) :: u8);
     sp \<leftarrow> (if lo \<noteq> hi then do { a \<leftarrow> prspeed ''input speed  '' lo; b \<leftarrow> prspeed ''output speed '' hi; Some (a @ b) }
            else prspeed ''speed '' lo);
     ek \<leftarrow> fprintf (''erase = '' @ [CHR 0x27] @ ''%c'' @ [CHR 0x27] @ ''; kill = '' @ [CHR 0x27] @ ''%c'' @ [CHR 0x27, CHR 0x0A])
             [Num (scast (ucast (mode1 m) :: u8)), Num (scast (ucast (drop_bit 8 (mode1 m)) :: u8))];
     fl \<leftarrow> pr_flags (mode2 m);
     Some (sp @ ek @ fl) }"

text \<open>\<open>main\<close> without the calls of \<open>gtty\<close> and \<open>stty\<close>: what it prints, and the modes it sets, if any.\<close>

definition stty_main :: "u16 \<Rightarrow> string list \<Rightarrow> sgtty \<Rightarrow> (string \<times> sgtty option) option" where
  "stty_main ek argv m =
     (if argv = [] then map_option (\<lambda>out. (out, None)) (prmodes m)
      else map_option (\<lambda>(out, m). (out, Some m)) (stty_args ek argv m))"

subsection \<open>What is printed sets the modes again\<close>

definition when_set :: "u16 \<Rightarrow> u16 \<Rightarrow> string \<Rightarrow> string list" where
  "when_set m b w = (if m AND b \<noteq> 0 then [w] else [])"

definition delay_words :: "u16 \<Rightarrow> string \<Rightarrow> string list" where
  "delay_words j s = (if j AND 3 = 0 then [] else [s @ [dec_digit (unat (j AND 3))]])"

definition mode_words :: "u16 \<Rightarrow> string list" where
  "mode_words m =
     when_set m 0x80 ''even'' @ when_set m 0x40 ''odd'' @ when_set m 0x20 ''raw'' @ when_set m 0x10 ''-nl'' @
     when_set m 0x8 ''echo'' @ when_set m 0x4 ''lcase'' @ when_set m 0x2 ''-tabs'' @ when_set m 0x1 ''hup'' @
     delay_words (signed_drop_bit 8 m) ''nl'' @ delay_words (signed_drop_bit 10 m) ''tab'' @
     delay_words (signed_drop_bit 12 m) ''cr'' @ delay_words (signed_drop_bit 14 m AND 1) ''ff'' @
     delay_words (signed_drop_bit 15 m AND 1) ''bs''"

definition spaced :: "string list \<Rightarrow> string" where
  "spaced ws = concat (map (\<lambda>w. w @ '' '') ws)"

lemma spaced_append: "spaced (xs @ ys) = spaced xs @ spaced ys"
  by (simp add: spaced_def)

lemma and_3_cases: "(j :: u16) AND 3 = 0 \<or> j AND 3 = 1 \<or> j AND 3 = 2 \<or> j AND 3 = 3"
proof -
  have "j AND 3 = take_bit 2 j" by (simp add: take_bit_eq_mask mask_eq_exp_minus_1)
  then have "unat (j AND 3) < 4" by (simp add: unsigned_take_bit_eq take_bit_nat_def)
  then have "unat (j AND 3) \<in> {0, 1, 2, 3}" by auto
  then show ?thesis by (auto simp: word_unat_eq_iff)
qed

lemma flag_word_spaced:
  "flag_word m b ''even '' = Some (spaced (when_set m b ''even''))" "flag_word m b ''odd '' = Some (spaced (when_set m b ''odd''))"
  "flag_word m b ''raw '' = Some (spaced (when_set m b ''raw''))" "flag_word m b ''-nl '' = Some (spaced (when_set m b ''-nl''))"
  "flag_word m b ''echo '' = Some (spaced (when_set m b ''echo''))" "flag_word m b ''lcase '' = Some (spaced (when_set m b ''lcase''))"
  "flag_word m b ''-tabs '' = Some (spaced (when_set m b ''-tabs''))" "flag_word m b ''hup '' = Some (spaced (when_set m b ''hup''))"
  by (simp_all add: flag_word_def when_set_def spaced_def fprintf_def vsprintf.simps)

lemma delay_spaced:
  assumes "s \<in> {''nl'', ''tab'', ''cr'', ''ff'', ''bs''}"
  shows "delay j s = Some (spaced (delay_words j s))"
proof -
  have "\<forall>s \<in> set [''nl'', ''tab'', ''cr'', ''ff'', ''bs'']. \<forall>n \<in> set [1, 2, 3 :: u16].
      fprintf ''%s%d '' [Text s, Num n] = Some ((s @ [dec_digit (unat n)]) @ '' '')"
    by code_simp
  then have "fprintf ''%s%d '' [Text s, Num n] = Some ((s @ [dec_digit (unat n)]) @ '' '')" if "n = 1 \<or> n = 2 \<or> n = 3" for n
    using assms that by auto
  then show ?thesis using and_3_cases [of j] by (auto simp: delay_def delay_words_def spaced_def Let_def)
qed

lemma pr_flags_words: "pr_flags m = Some (spaced (mode_words m) @ [CHR 0x0A])"
  by (simp add: pr_flags_def flag_word_spaced delay_spaced mode_words_def spaced_append)

lemma fold_speed: "fold set_speed T (arg, m) = (case arg of None \<Rightarrow> (None, m) | Some w \<Rightarrow>
    (case map_of T w of None \<Rightarrow> (Some w, m) | Some v \<Rightarrow> (None, m\<lparr>mode0 := v\<rparr>)))"
  by (induction T arbitrary: arg m) (auto simp: set_speed_def eq_def split: option.splits)

lemma fold_mode: "fold set_mode T (arg, m) = (case arg of None \<Rightarrow> (None, m) | Some w \<Rightarrow>
    (case map_of T w of None \<Rightarrow> (Some w, m) | Some (s, r) \<Rightarrow> (None, m\<lparr>mode2 := (mode2 m AND NOT r) OR s\<rparr>)))"
  by (induction T arbitrary: arg m) (auto simp: set_mode_def eq_def split: option.splits)

text \<open>A word of the table of modes does what its entry says.\<close>

lemma stty_arg_mode:
  assumes "map_of modes w = Some (s, r)"
  shows "stty_arg ek w argv m = Some ([], argv, m\<lparr>mode2 := (mode2 m AND NOT r) OR s\<rparr>)"
proof -
  have "\<forall>e \<in> set modes. fst e \<notin> {''ek'', ''erase'', ''kill''} \<and> map_of speeds (fst e) = None" by code_simp
  then have "w \<notin> {''ek'', ''erase'', ''kill''}" "map_of speeds w = None" using map_of_SomeD [OF assms] by force+
  then show ?thesis using assms by (simp add: stty_arg_def eq_def fold_speed fold_mode Let_def)
qed

definition sets :: "string list \<Rightarrow> u16 \<Rightarrow> u16 \<Rightarrow> bool" where
  "sets ws x y \<longleftrightarrow> (\<forall>ek m rest. mode2 m = x \<longrightarrow> stty_args ek (ws @ rest) m = stty_args ek rest (m\<lparr>mode2 := y\<rparr>))"

lemma sets_append: "sets ws x y \<Longrightarrow> sets vs y z \<Longrightarrow> sets (ws @ vs) x z"
  by (simp add: sets_def)

lemma sets_nil: "sets [] x x"
  by (auto simp: sets_def)

lemma sets_word: "map_of modes w = Some (s, r) \<Longrightarrow> sets [w] x ((x AND NOT r) OR s)"
  by (auto simp: sets_def stty_arg_mode split: option.splits)

lemma and_push_bit_1: "m AND push_bit n 1 = (if bit m n then push_bit n 1 else 0)" for m :: u16
  by (rule bit_word_eqI) (auto simp: bit_simps simp del: push_bit_of_1)

text \<open>The word of a flag, and the word of a field of two bits, put the field of \<open>m\<close> into a field that is clear.\<close>

lemma sets_flag:
  assumes "map_of modes w = Some (push_bit n 1, 0)"
  shows "sets (when_set m (push_bit n 1) w) x (x OR (m AND push_bit n 1))"
proof (cases "m AND push_bit n 1 = 0")
  case False
  then have "m AND push_bit n 1 = push_bit n 1"
    using and_push_bit_1 [of m n] by metis
  then show ?thesis using sets_word [OF assms] False by (simp add: when_set_def)
qed (simp add: when_set_def sets_nil)

lemma push_drop_field: "push_bit n (signed_drop_bit n m AND k) = m AND push_bit n k" for m k :: u16
  by (rule bit_word_eqI) (auto simp: bit_simps min_def)

lemma sets_delay:
  assumes "\<forall>j \<in> {1, 2, 3}. map_of modes (s @ [dec_digit (unat j)]) = Some (push_bit n j, push_bit n 3)" "x AND push_bit n 3 = 0"
  shows "sets (delay_words (signed_drop_bit n m) s) x (x OR (m AND push_bit n 3))"
proof (cases "signed_drop_bit n m AND 3 = 0")
  case True
  then show ?thesis using push_drop_field [of n m 3] by (simp add: delay_words_def sets_nil)
next
  case False
  let ?j = "signed_drop_bit n m AND 3"
  have "x AND NOT (push_bit n 3) = x" using assms(2) by (auto simp: bit_eq_iff bit_simps)
  moreover have "map_of modes (s @ [dec_digit (unat ?j)]) = Some (push_bit n ?j, push_bit n 3)"
    using and_3_cases [of "signed_drop_bit n m"]
  proof (elim disjE)
    show ?thesis if "?j = 0" using False that by simp
    show ?thesis if "?j = 1" unfolding that using assms(1) by blast
    show ?thesis if "?j = 2" unfolding that using assms(1) by blast
    show ?thesis if "?j = 3" unfolding that using assms(1) by blast
  qed
  ultimately have "sets [s @ [dec_digit (unat ?j)]] x (x OR push_bit n ?j)" using sets_word [of "s @ [dec_digit (unat ?j)]" _ _ x] by metis
  then show ?thesis unfolding push_drop_field using False by (simp add: delay_words_def)
qed

lemma sets_delay_flag:
  assumes "map_of modes (s @ ''1'') = Some (push_bit n 1, push_bit n 1)" "x AND push_bit n 1 = 0"
  shows "sets (delay_words (signed_drop_bit n m AND 1) s) x (x OR (m AND push_bit n 1))"
proof -
  have j: "signed_drop_bit n m AND 1 AND 3 = signed_drop_bit n m AND 1" by (simp add: and.assoc)
  consider "signed_drop_bit n m AND 1 = 0" | "signed_drop_bit n m AND 1 = 1" by (cases "odd (signed_drop_bit n m)") (auto simp: and_one_eq mod_2_eq_odd)
  then show ?thesis
  proof cases
    case 1
    then show ?thesis using push_drop_field [of n m 1] by (simp add: delay_words_def sets_nil)
  next
    case 2
    have "x AND NOT (push_bit n 1) = x" using assms(2) by (auto simp: bit_eq_iff bit_simps)
    moreover have "m AND push_bit n 1 = push_bit n 1" using push_drop_field [of n m 1] 2 by simp
    moreover have "dec_digit (unat (1 :: u16)) = CHR ''1''" by code_simp
    ultimately show ?thesis using sets_word [OF assms(1), of x] 2 j by (simp add: delay_words_def)
  qed
qed

text \<open>The same, when the modes so far are those of \<open>m\<close> under a mask.\<close>

lemma sets_masked:
  "map_of modes w = Some (push_bit n 1, 0) \<Longrightarrow> sets (when_set m (push_bit n 1) w) (m AND k) (m AND (k OR push_bit n 1))"
  "\<forall>j \<in> {1, 2, 3}. map_of modes (s @ [dec_digit (unat j)]) = Some (push_bit n j, push_bit n 3) \<Longrightarrow> k AND push_bit n 3 = 0 \<Longrightarrow>
   sets (delay_words (signed_drop_bit n m) s) (m AND k) (m AND (k OR push_bit n 3))"
  "map_of modes (s @ ''1'') = Some (push_bit n 1, push_bit n 1) \<Longrightarrow> k AND push_bit n 1 = 0 \<Longrightarrow>
   sets (delay_words (signed_drop_bit n m AND 1) s) (m AND k) (m AND (k OR push_bit n 1))"
  unfolding bit.conj_disj_distrib
  by (rule sets_flag, assumption) (rule sets_delay sets_delay_flag, assumption, simp only: and.assoc and_zero_eq)+

lemma delay_entries:
  "\<forall>j \<in> {1, 2, 3}. map_of modes (''nl'' @ [dec_digit (unat (j :: u16))]) = Some (push_bit 8 j, push_bit 8 3)"
  "\<forall>j \<in> {1, 2, 3}. map_of modes (''tab'' @ [dec_digit (unat (j :: u16))]) = Some (push_bit 10 j, push_bit 10 3)"
  "\<forall>j \<in> {1, 2, 3}. map_of modes (''cr'' @ [dec_digit (unat (j :: u16))]) = Some (push_bit 12 j, push_bit 12 3)"
  by code_simp+

lemma mode_words_set: "sets (mode_words m) 0 m"
proof -
  have h1: "sets (when_set m 0x80 ''even'') (m AND 0) (m AND 0x80)" using sets_masked(1) [of "''even''" 7 m 0] by (simp add: modes_def)
  have h2: "sets (when_set m 0x40 ''odd'') (m AND 0x80) (m AND 0xC0)" using sets_masked(1) [of "''odd''" 6 m "0x80"] by (simp add: modes_def)
  have h3: "sets (when_set m 0x20 ''raw'') (m AND 0xC0) (m AND 0xE0)" using sets_masked(1) [of "''raw''" 5 m "0xC0"] by (simp add: modes_def)
  have h4: "sets (when_set m 0x10 ''-nl'') (m AND 0xE0) (m AND 0xF0)" using sets_masked(1) [of "''-nl''" 4 m "0xE0"] by (simp add: modes_def)
  have h5: "sets (when_set m 0x8 ''echo'') (m AND 0xF0) (m AND 0xF8)" using sets_masked(1) [of "''echo''" 3 m "0xF0"] by (simp add: modes_def)
  have h6: "sets (when_set m 0x4 ''lcase'') (m AND 0xF8) (m AND 0xFC)" using sets_masked(1) [of "''lcase''" 2 m "0xF8"] by (simp add: modes_def)
  have h7: "sets (when_set m 0x2 ''-tabs'') (m AND 0xFC) (m AND 0xFE)" using sets_masked(1) [of "''-tabs''" 1 m "0xFC"] by (simp add: modes_def)
  have h8: "sets (when_set m 0x1 ''hup'') (m AND 0xFE) (m AND 0xFF)" using sets_masked(1) [of "''hup''" 0 m "0xFE"] by (simp add: modes_def)
  have h9: "sets (delay_words (signed_drop_bit 8 m) ''nl'') (m AND 0xFF) (m AND 0x3FF)"
    using sets_masked(2) [OF delay_entries(1), of "0xFF" m] by simp
  have h10: "sets (delay_words (signed_drop_bit 10 m) ''tab'') (m AND 0x3FF) (m AND 0xFFF)"
    using sets_masked(2) [OF delay_entries(2), of "0x3FF" m] by simp
  have h11: "sets (delay_words (signed_drop_bit 12 m) ''cr'') (m AND 0xFFF) (m AND 0x3FFF)"
    using sets_masked(2) [OF delay_entries(3), of "0xFFF" m] by simp
  have h12: "sets (delay_words (signed_drop_bit 14 m AND 1) ''ff'') (m AND 0x3FFF) (m AND 0x7FFF)"
    using sets_masked(3) [of "''ff''" 14 "0x3FFF" m] by (simp add: modes_def)
  have h13: "sets (delay_words (signed_drop_bit 15 m AND 1) ''bs'') (m AND 0x7FFF) (m AND 0xFFFF)"
    using sets_masked(3) [of "''bs''" 15 "0x7FFF" m] by (simp add: modes_def)
  have "(0xFFFF :: u16) = - 1" by code_simp
  then have f: "m AND 0xFFFF = m" by (simp only: word_and_max)
  have "sets (mode_words m) (m AND 0) (m AND 0xFFFF)"
    unfolding mode_words_def
    by (intro sets_append [OF h1] sets_append [OF h2] sets_append [OF h3] sets_append [OF h4] sets_append [OF h5] sets_append [OF h6]
        sets_append [OF h7] sets_append [OF h8] sets_append [OF h9] sets_append [OF h10] sets_append [OF h11] sets_append [OF h12] h13)
  then show ?thesis by (simp only: f and_zero_eq)
qed

text \<open>The modes that \<open>stty\<close> prints are arguments to \<open>stty\<close> that set them again: the line of words that \<open>prmodes\<close> writes for \<open>m\<close> is made of the
  words \<open>mode_words\<close>, and giving these to \<open>stty\<close> at a terminal with all flags clear sets the flags of \<open>m\<close>, without a message and without a change of
  the speeds and the characters.
\<close>

theorem stty_restores:
  assumes "prmodes m = Some out" "mode2 m0 = 0"
  shows "(\<exists>h. out = h @ spaced (mode_words (mode2 m)) @ [CHR 0x0A]) \<and>
    stty_args ek (mode_words (mode2 m)) m0 = Some ([], m0\<lparr>mode2 := mode2 m\<rparr>)"
proof
  show "\<exists>h. out = h @ spaced (mode_words (mode2 m)) @ [CHR 0x0A]"
    using assms(1) by (auto simp: prmodes_def pr_flags_words Let_def split: bind_splits if_splits)
  have "stty_args ek (mode_words (mode2 m) @ []) m0 = stty_args ek [] (m0\<lparr>mode2 := mode2 m\<rparr>)"
    using mode_words_set [of "mode2 m"] assms(2) unfolding sets_def by blast
  then show "stty_args ek (mode_words (mode2 m)) m0 = Some ([], m0\<lparr>mode2 := mode2 m\<rparr>)" by simp
qed

theorem stty_restores_witness:
  "stty_args 0x2340 [''even'', ''-nl'', ''echo'', ''cr2''] \<lparr>mode0 = 1, mode1 = 2, mode2 = 0\<rparr> = Some ([], \<lparr>mode0 = 1, mode1 = 2, mode2 = 0x2098\<rparr>)"
proof -
  have "prmodes \<lparr>mode0 = 3341, mode1 = 0x4023, mode2 = 0x2098\<rparr> =
      Some (''speed 9600 baud'' @ [CHR 0x0A] @ ''erase = '' @ [CHR 0x27] @ ''#'' @ [CHR 0x27] @ ''; kill = '' @ [CHR 0x27] @ ''@'' @ [CHR 0x27, CHR 0x0A] @
        ''even -nl echo cr2 '' @ [CHR 0x0A])"
    by code_simp
  moreover have "mode_words 0x2098 = [''even'', ''-nl'', ''echo'', ''cr2'']" by code_simp
  ultimately show ?thesis using stty_restores [of "\<lparr>mode0 = 3341, mode1 = 0x4023, mode2 = 0x2098\<rparr>" _ "\<lparr>mode0 = 1, mode1 = 2, mode2 = 0\<rparr>" "0x2340"] by simp
qed

end
