(* ===== verification/Pwd.thy ===== *)
theory Pwd
  imports Prelude
begin

text \<open>
  \<open>usr/pwd.c\<close>: the name of the working directory, found by climbing to the root and looking each directory up in its parent.

  What the calls \<open>stat\<close>, \<open>open\<close> with \<open>read\<close>, and \<open>chdir\<close> answer in a working directory is the argument \<open>world\<close>; a directory is opened as
  the list of its entries, with names of at most 14 characters and no NUL.  A failing call is \<open>None\<close>.  The results are the texts that
  are written.
\<close>

record 'd world =
  pstat :: "'d \<Rightarrow> string \<Rightarrow> (u16 \<times> u16 \<times> u16) option"
  popen :: "'d \<Rightarrow> string \<Rightarrow> (u16 \<times> string) list option"
  pchdir :: "'d \<Rightarrow> string \<Rightarrow> 'd option"

text \<open>The globals \<open>name\<close> (512 characters) and \<open>off\<close>, \<open>x\<close> with the device, the number and the mode of an inode, and \<open>y\<close>.\<close>

record pwdst =
  pname :: string
  poff :: int
  xdevn :: u16
  xinum :: u16
  xmode :: u16
  jnum :: u16
  yname :: string

definition prname :: "pwdst \<Rightarrow> string" where
  "prname s =
     (let s = (if poff s < 0 then s\<lparr>poff := 0\<rparr> else s);
          name = (pname s)[nat (poff s) := CHR 0x0A]
      in take (nat (poff s) + 1) name)"

text \<open>\<open>cat\<close>: the name of \<open>y\<close> and a slash in front of what has been found; \<open>Inl\<close> for the exit through \<open>prname\<close>.\<close>

definition cat_shift :: "nat \<Rightarrow> nat \<Rightarrow> string \<Rightarrow> string" where
  "cat_shift i m name = fold (\<lambda>j name. name[j + i + 1 := name ! j]) (rev [0..<m]) name"

definition cat_copy :: "string \<Rightarrow> nat \<Rightarrow> string \<Rightarrow> string" where
  "cat_copy y i name = fold (\<lambda>j name. name[j := y ! j]) (rev [0..<i]) name"

definition cat :: "pwdst \<Rightarrow> string + pwdst" where
  "cat s =
     (let i = length (yname s) in
      if poff s + int i + 2 > 511 then Inl (prname s)
      else
        let name = cat_shift i (nat (poff s + 2)) (pname s);
            name = name[i := CHR ''/''];
            name = cat_copy (yname s) i name
        in Inr (s\<lparr>pname := name, poff := int i + poff s + 1\<rparr>))"

text \<open>The loop of \<open>ckroot\<close>: the entry that leads to the device \<open>i\<close>; \<open>None\<close> at the end of the directory or when \<open>stat\<close> fails.\<close>

fun ckroot_loop :: "'d world \<Rightarrow> 'd \<Rightarrow> u16 \<Rightarrow> (u16 \<times> string) list \<Rightarrow> (u16 \<times> string) option" where
  "ckroot_loop w d i [] = None"
| "ckroot_loop w d i (e # es) =
     (if fst e = 0 then ckroot_loop w d i es
      else case pstat w d (snd e) of
        None \<Rightarrow> None
      | Some (dev, ino, mode) \<Rightarrow>
          if dev \<noteq> i then ckroot_loop w d i es
          else if mode AND 0x6000 \<noteq> 0x4000 then ckroot_loop w d i es
          else Some e)"

text \<open>\<open>ckroot\<close> never returns.\<close>

definition ckroot :: "'d world \<Rightarrow> 'd \<Rightarrow> pwdst \<Rightarrow> string" where
  "ckroot w d s =
     (case pstat w d (yname s) of
        None \<Rightarrow> prname s
      | Some (i, _, _) \<Rightarrow>
          (case pchdir w d ''/'' of
             None \<Rightarrow> prname s
           | Some d \<Rightarrow>
               (case popen w d ''/'' of
                  None \<Rightarrow> prname s
                | Some es \<Rightarrow>
                    (case ckroot_loop w d i es of
                       None \<Rightarrow> prname s
                     | Some (n, y) \<Rightarrow>
                         let s = s\<lparr>jnum := n, yname := y\<rparr> in
                         if y = ''.'' \<or> y = ''..'' then ''/'' @ prname s
                         else case cat s of Inl out \<Rightarrow> out | Inr s \<Rightarrow> ''/'' @ prname s))))"

text \<open>The loop of \<open>main\<close>.\<close>

partial_function (option) pwd_loop :: "'d world \<Rightarrow> 'd \<Rightarrow> pwdst \<Rightarrow> string option" where
  "pwd_loop w d s =
     (let s = (case pstat w d ''.'' of None \<Rightarrow> s | Some (dev, ino, mode) \<Rightarrow> s\<lparr>xdevn := dev, xinum := ino, xmode := mode\<rparr>) in
      case popen w d ''..'' of
        None \<Rightarrow> Some (prname s)
      | Some es \<Rightarrow>
          (case find (\<lambda>e. fst e = xinum s) es of
             None \<Rightarrow> Some (prname s)
           | Some (n, y) \<Rightarrow>
               let s = s\<lparr>jnum := n, yname := y\<rparr> in
               if n = 1 then Some (ckroot w d s)
               else case cat s of
                 Inl out \<Rightarrow> Some out
               | Inr s \<Rightarrow> pwd_loop w (case pchdir w d ''..'' of None \<Rightarrow> d | Some d \<Rightarrow> d) s))"

definition pwd0 :: pwdst where
  "pwd0 = \<lparr>pname = replicate 512 (CHR 0x00), poff = -1, xdevn = 0, xinum = 0, xmode = 0, jnum = 0, yname = []\<rparr>"

definition pwd :: "'d world \<Rightarrow> 'd \<Rightarrow> string option" where
  "pwd w d = pwd_loop w d pwd0"

subsection \<open>The buffer\<close>

text \<open>The text that has been found: components, each with a slash behind it.\<close>

definition holds :: "pwdst \<Rightarrow> string \<Rightarrow> bool" where
  "holds s t \<longleftrightarrow> length (pname s) = 512 \<and> poff s = int (length t) - 1 \<and> length t \<le> 511 \<and> take (length t) (pname s) = t"

lemma cat_shift_length [simp]: "length (cat_shift i m name) = length name"
proof -
  have "length (fold (\<lambda>j name. name[j + i + 1 := name ! j]) js name) = length name" for js by (induction js arbitrary: name) simp_all
  then show ?thesis by (simp add: cat_shift_def)
qed

lemma cat_shift_nth: "m + i + 1 \<le> length name \<Longrightarrow> k < length name \<Longrightarrow>
  cat_shift i m name ! k = (if i < k \<and> k < m + i + 1 then name ! (k - i - 1) else name ! k)"
proof (induction m arbitrary: name)
  case (Suc m)
  have "cat_shift i (Suc m) name = cat_shift i m (name[m + i + 1 := name ! m])" by (simp add: cat_shift_def)
  moreover have "cat_shift i m (name[m + i + 1 := name ! m]) ! k =
      (if i < k \<and> k < m + i + 1 then name[m + i + 1 := name ! m] ! (k - i - 1) else name[m + i + 1 := name ! m] ! k)"
    using Suc by simp
  ultimately show ?case using Suc.prems by (auto simp: nth_list_update)
qed (auto simp: cat_shift_def)

lemma cat_copy_nth: "i \<le> length name \<Longrightarrow> k < length name \<Longrightarrow> cat_copy y i name ! k = (if k < i then y ! k else name ! k)"
proof (induction i arbitrary: name)
  case (Suc i)
  have "cat_copy y (Suc i) name = cat_copy y i (name[i := y ! i])" by (simp add: cat_copy_def)
  then show ?case using Suc by (auto simp: nth_list_update less_Suc_eq)
qed (simp add: cat_copy_def)

lemma cat_copy_length [simp]: "length (cat_copy y i name) = length name"
proof -
  have "length (fold (\<lambda>j name. name[j := y ! j]) js name) = length name" for js by (induction js arbitrary: name) simp_all
  then show ?thesis by (simp add: cat_copy_def)
qed

lemma cat_holds:
  assumes "holds s t" "length (yname s) + 1 + length t \<le> 511"
  obtains s' where "cat s = Inr s'" "holds s' (yname s @ ''/'' @ t)"
proof -
  let ?i = "length (yname s)" and ?n = "cat_copy (yname s) (length (yname s)) ((cat_shift (length (yname s)) (length t + 1) (pname s))[length (yname s) := CHR ''/''])"
  have l: "length (pname s) = 512" "poff s = int (length t) - 1" and t: "take (length t) (pname s) = t" using assms(1) by (auto simp: holds_def)
  have c: "cat s = Inr (s\<lparr>pname := ?n, poff := int ?i + poff s + 1\<rparr>)"
    using assms(2) l(2) by (simp add: cat_def Let_def nat_add_distrib add.commute)
  have "take (?i + 1 + length t) ?n = yname s @ ''/'' @ t"
  proof (rule nth_equalityI)
    show "length (take (?i + 1 + length t) ?n) = length (yname s @ ''/'' @ t)" using assms(2) l by simp
  next
    fix k assume "k < length (take (?i + 1 + length t) ?n)"
    then have k: "k < ?i + 1 + length t" "k < 512" using l by simp_all
    have "?n ! k = (if k < ?i then yname s ! k else if k = ?i then CHR ''/'' else pname s ! (k - ?i - 1))"
      using k assms(2) l by (auto simp: cat_copy_nth cat_shift_nth nth_list_update)
    moreover have "pname s ! j = t ! j" if "j < length t" for j using t that by (metis nth_take)
    ultimately show "take (?i + 1 + length t) ?n ! k = (yname s @ ''/'' @ t) ! k" using k by (auto simp: nth_append nth_Cons')
  qed
  then have "holds (s\<lparr>pname := ?n, poff := int ?i + poff s + 1\<rparr>) (yname s @ ''/'' @ t)"
    using assms(2) l by (simp add: holds_def)
  then show ?thesis using c that by blast
qed

lemma prname_holds:
  assumes "holds s t" "t = [] \<or> last t = CHR ''/''"
  shows "prname s = butlast t @ [CHR 0x0A]"
proof (cases "t = []")
  case True
  then have "pname s \<noteq> []" "poff s = -1" using assms(1) by (auto simp: holds_def)
  then show ?thesis using True by (cases "pname s") (auto simp: prname_def)
next
  case False
  have l: "length (pname s) = 512" "poff s = int (length t) - 1" "length t \<le> 511" "take (length t) (pname s) = t" using assms(1) by (auto simp: holds_def)
  have p: "nat (poff s) = length t - 1" "\<not> poff s < 0" using l(2) False by (auto simp: Suc_le_eq)
  have "take (length t - 1 + 1) ((pname s)[length t - 1 := CHR 0x0A]) = (take (length t) (pname s))[length t - 1 := CHR 0x0A]"
    using False by (simp add: take_update_swap Suc_le_eq)
  also have "\<dots> = butlast t @ [CHR 0x0A]" unfolding l(4) using False by (cases t rule: rev_cases) auto
  finally show ?thesis using p by (simp add: prname_def)
qed

subsection \<open>The path\<close>

text \<open>
  \<open>path_to w r p d\<close>: following the names \<open>p\<close> leads from \<open>r\<close>, the root of a volume, down to \<open>d\<close>.  Each directory has a number of its own that
  is not 1 and is entered in its parent, which is what \<open>..\<close> names.
\<close>

inductive path_to :: "'d world \<Rightarrow> 'd \<Rightarrow> string list \<Rightarrow> 'd \<Rightarrow> bool" for w r where
  at_root: "path_to w r [] r"
| down: "path_to w r p d \<Longrightarrow> pchdir w d' ''..'' = Some d \<Longrightarrow> pstat w d' ''.'' = Some (dev, ino, mode) \<Longrightarrow> ino \<noteq> 1 \<Longrightarrow>
    popen w d' ''..'' = Some es \<Longrightarrow> find (\<lambda>e. fst e = ino) es = Some (ino, c) \<Longrightarrow> path_to w r (p @ [c]) d'"

text \<open>
  At the root \<open>r\<close> of a volume, the entries lead back to \<open>r\<close> itself, and the root directory has the name \<open>mnt\<close> for the volume: no name for the
  root volume, which the entry of the root directory itself shows.
\<close>

definition root_at :: "'d world \<Rightarrow> 'd \<Rightarrow> string list \<Rightarrow> bool" where
  "root_at w r mnt \<longleftrightarrow>
     (\<exists>dev mode es y ino' mode' dev' q es' n c.
        pstat w r ''.'' = Some (dev, 1, mode) \<and> popen w r ''..'' = Some es \<and> find (\<lambda>e. fst e = 1) es = Some (1, y) \<and>
        pstat w r y = Some (dev', ino', mode') \<and> pchdir w r ''/'' = Some q \<and> popen w q ''/'' = Some es' \<and>
        ckroot_loop w q dev' es' = Some (n, c) \<and> mnt = (if c = ''.'' \<or> c = ''..'' then [] else [c]))"

definition slashed :: "string list \<Rightarrow> string" where
  "slashed p = concat (map (\<lambda>c. c @ ''/'') p)"

lemma slashed_simps: "slashed [] = []" "slashed (c # p) = c @ ''/'' @ slashed p" "slashed (p @ q) = slashed p @ slashed q"
  by (simp_all add: slashed_def)

lemma slashed_end: "slashed p = [] \<or> last (slashed p) = CHR ''/''"
  by (induction p rule: rev_induct) (simp_all add: slashed_simps)

lemma ckroot_holds:
  assumes "root_at w r mnt" "holds s (slashed p)" "length (slashed (mnt @ p)) \<le> 511"
    "popen w r ''..'' = Some es" "find (\<lambda>e. fst e = 1) es = Some (n, y)"
  shows "ckroot w r (s\<lparr>jnum := n, yname := y\<rparr>) = ''/'' @ butlast (slashed (mnt @ p)) @ [CHR 0x0A]"
proof -
  obtain ino' mode' dev' q es' m c where h: "pstat w r y = Some (dev', ino', mode')" "pchdir w r ''/'' = Some q" "popen w q ''/'' = Some es'"
      "ckroot_loop w q dev' es' = Some (m, c)" "mnt = (if c = ''.'' \<or> c = ''..'' then [] else [c])"
    using assms(1,4,5) by (auto simp: root_at_def)
  let ?s = "s\<lparr>jnum := m, yname := c\<rparr>"
  have hs: "holds ?s (slashed p)" using assms(2) by (simp add: holds_def)
  show ?thesis
  proof (cases "c = ''.'' \<or> c = ''..''")
    case True
    then show ?thesis using h prname_holds [OF hs slashed_end] by (simp add: ckroot_def Let_def slashed_simps)
  next
    case False
    then have mnt: "mnt = [c]" using h(5) by simp
    then obtain s' where "cat ?s = Inr s'" "holds s' (slashed (mnt @ p))"
      using cat_holds [OF hs] assms(3) by (auto simp: slashed_simps)
    then show ?thesis using h False prname_holds [of s' "slashed (mnt @ p)"] slashed_end [of "mnt @ p"] by (simp add: ckroot_def Let_def)
  qed
qed

lemma pwd_loop_path:
  assumes "path_to w r p d"
  shows "root_at w r mnt \<Longrightarrow> holds s (slashed q) \<Longrightarrow> length (slashed (mnt @ p @ q)) \<le> 511 \<Longrightarrow>
    pwd_loop w d s = Some (''/'' @ butlast (slashed (mnt @ p @ q)) @ [CHR 0x0A])"
  using assms
proof (induction arbitrary: s q rule: path_to.induct)
  case at_root
  obtain dev mode es y where r: "pstat w r ''.'' = Some (dev, 1, mode)" "popen w r ''..'' = Some es" "find (\<lambda>e. fst e = 1) es = Some (1, y)"
    using at_root(1) by (auto simp: root_at_def)
  let ?s = "s\<lparr>xdevn := dev, xinum := 1, xmode := mode\<rparr>"
  have "holds ?s (slashed q)" using at_root(2) by (simp add: holds_def)
  from ckroot_holds [OF at_root(1) this _ r(2,3)] show ?case using at_root(3) r by (subst pwd_loop.simps) (simp add: Let_def)
next
  case (down p d d' dev ino mode es c)
  let ?s = "s\<lparr>xdevn := dev, xinum := ino, xmode := mode, jnum := ino, yname := c\<rparr>"
  have "holds ?s (slashed q)" using down.prems(2) by (simp add: holds_def)
  moreover have "length (yname ?s) + 1 + length (slashed q) \<le> 511" using down.prems(3) by (simp add: slashed_simps)
  ultimately obtain s' where s': "cat ?s = Inr s'" "holds s' (slashed (c # q))" by (rule cat_holds) (simp add: slashed_simps)
  have "pwd_loop w d' s = pwd_loop w d s'" using down.hyps s'(1) by (subst pwd_loop.simps) (simp add: Let_def)
  also have "\<dots> = Some (''/'' @ butlast (slashed (mnt @ p @ c # q)) @ [CHR 0x0A])"
    by (rule down.IH [OF down.prems(1) s'(2)]) (use down.prems(3) in simp)
  finally show ?case by simp
qed


text \<open>A second volume, mounted on \<open>mnt\<close> in the root directory (0); its directories are 1, the root, and 2, \<open>src\<close> in it.\<close>

definition ex_world :: "nat world" where
  "ex_world =
     \<lparr>pstat = (\<lambda>d n. if n = ''.'' \<or> (n = ''..'' \<and> d < 2) then [Some (0, 1, 0xC1FF), Some (1, 1, 0xC1FF), Some (1, 7, 0xC1FF)] ! d
        else if d = 0 \<and> n = ''mnt'' then Some (1, 1, 0xC1FF) else if d = 0 \<and> n = ''a'' then Some (1, 9, 0x81FF) else None),
      popen = (\<lambda>d n. if n = ''/'' \<or> d = 0 then Some [(1, ''.''), (1, ''..''), (4, ''a''), (0, ''b''), (5, ''mnt'')]
        else Some [(1, ''.''), (1, ''..''), (7, ''src'')]),
      pchdir = (\<lambda>d n. if n = ''/'' then Some 0 else Some (if d = 2 then 1 else d))\<rparr>"


end
