(* ===== verification/Usys.thy ===== *)
theory Usys
  imports Clock Trap Balance
begin

unbundle bit_operations_syntax

text \<open>
  \<open>usr/syscall.c\<close>: how a user program makes a system call.  The entry \<open>_syscall\<close> of \<open>usr/startup.asm\<close> loads the number of the call into DX and
  its first operand into AX, leaves the other operands on the stack and interrupts; afterwards the registers go to \<open>r0\<close>, \<open>r1\<close> and \<open>r3\<close>, and a
  DX that is not 0 to \<open>errno\<close>.

  What the interrupt does is the argument \<open>gate\<close> of the functions: it takes DX, AX, the operands and the state of the kernel and returns
  AX, BX, DX and the new state, or \<open>None\<close> if it does not return.  \<open>kernel_call\<close> is the gate that the kernel of this library provides.
\<close>

type_synonym 'k gate = "u16 \<Rightarrow> u16 \<Rightarrow> u16 list \<Rightarrow> 'k \<Rightarrow> ((u16 \<times> u16 \<times> u16) \<times> 'k) option"

record lib =
  lr0 :: u16
  lr1 :: u16
  lr3 :: u16
  errno :: u16

type_synonym ('r, 'k) stub = "lib \<times> 'k \<Rightarrow> ('r \<times> lib \<times> 'k) option"

definition syscall :: "'k gate \<Rightarrow> u16 \<Rightarrow> u16 \<Rightarrow> u16 list \<Rightarrow> (u16, 'k) stub" where
  "syscall gate fn r0 args s =
     (let (l, k) = s in
      case gate fn r0 args k of
        None \<Rightarrow> None
      | Some ((ax, bx, dx), k) \<Rightarrow>
          let (l, dx) = (if dx \<noteq> 0 then (l\<lparr>errno := dx\<rparr>, - 1) else (l, dx))
          in Some (ax, l\<lparr>lr0 := ax, lr1 := bx, lr3 := dx\<rparr>, k))"

text \<open>The two ways to return: the value of \<open>syscall\<close>, and \<open>r3\<close>.\<close>

definition r3_of :: "(u16, 'k) stub \<Rightarrow> (u16, 'k) stub" where
  "r3_of f s = (case f s of None \<Rightarrow> None | Some (_, l, k) \<Rightarrow> Some (lr3 l, l, k))"

subsection \<open>The calls\<close>

definition exit_u :: "'k gate \<Rightarrow> (u16, 'k) stub" where
  "exit_u g = syscall g 1 0 []"

definition exit1 :: "'k gate \<Rightarrow> u16 \<Rightarrow> (u16, 'k) stub" where
  "exit1 g code = syscall g 1 code []"

definition fork_u :: "'k gate \<Rightarrow> (u16, 'k) stub" where
  "fork_u g = syscall g 2 (- 1) []"

definition open_u :: "'k gate \<Rightarrow> u16 \<Rightarrow> u16 \<Rightarrow> (u16, 'k) stub" where
  "open_u g filename mode = syscall g 5 (- 1) [filename, mode]"

definition read_u :: "'k gate \<Rightarrow> u16 \<Rightarrow> u16 \<Rightarrow> u16 \<Rightarrow> (u16, 'k) stub" where
  "read_u g fd buf len = syscall g 3 fd [buf, len]"

definition write_u :: "'k gate \<Rightarrow> u16 \<Rightarrow> u16 \<Rightarrow> u16 \<Rightarrow> (u16, 'k) stub" where
  "write_u g fd buf len = syscall g 4 fd [buf, len]"

definition close_u :: "'k gate \<Rightarrow> u16 \<Rightarrow> (u16, 'k) stub" where
  "close_u g fd = r3_of (syscall g 6 fd [])"

definition pid_or_error :: "u16 \<Rightarrow> u16" where
  "pid_or_error r = (if sint r < 0 then - 1 else r)"

definition wait_u :: "'k gate \<Rightarrow> (u16, 'k) stub" where
  "wait_u g s = (case syscall g 7 (- 1) [] s of None \<Rightarrow> None | Some (_, l, k) \<Rightarrow> Some (pid_or_error (lr0 l), l, k))"

text \<open>\<open>waits\<close> also returns what is stored at \<open>status\<close>, if \<open>status\<close> is not null.\<close>

definition waits :: "'k gate \<Rightarrow> u16 \<Rightarrow> (u16 \<times> u16 option, 'k) stub" where
  "waits g status s =
     (case syscall g 7 (- 1) [] s of
        None \<Rightarrow> None
      | Some (_, l, k) \<Rightarrow> Some ((pid_or_error (lr0 l), if status \<noteq> 0 then Some (lr1 l) else None), l, k))"

definition creat_u :: "'k gate \<Rightarrow> u16 \<Rightarrow> u16 \<Rightarrow> (u16, 'k) stub" where
  "creat_u g fileName mode = syscall g 8 (- 1) [fileName, mode]"

definition link_u :: "'k gate \<Rightarrow> u16 \<Rightarrow> u16 \<Rightarrow> (u16, 'k) stub" where
  "link_u g filelink filenew = r3_of (syscall g 9 (- 1) [filelink, filenew])"

definition unlink_u :: "'k gate \<Rightarrow> u16 \<Rightarrow> (u16, 'k) stub" where
  "unlink_u g filename = r3_of (syscall g 10 (- 1) [filename])"

definition exec_u :: "'k gate \<Rightarrow> u16 \<Rightarrow> u16 \<Rightarrow> (u16, 'k) stub" where
  "exec_u g file argv = syscall g 11 (- 1) [file, argv]"

definition chdir_u :: "'k gate \<Rightarrow> u16 \<Rightarrow> (u16, 'k) stub" where
  "chdir_u g dirname = r3_of (syscall g 12 (- 1) [dirname])"

text \<open>\<open>time\<close> returns 1 and stores two words.\<close>

definition time_u :: "'k gate \<Rightarrow> (u16 \<times> u16 \<times> u16, 'k) stub" where
  "time_u g s = (case syscall g 13 (- 1) [] s of None \<Rightarrow> None | Some (_, l, k) \<Rightarrow> Some ((1, lr0 l, lr1 l), l, k))"

definition mknod_u :: "'k gate \<Rightarrow> u16 \<Rightarrow> u16 \<Rightarrow> u16 \<Rightarrow> (u16, 'k) stub" where
  "mknod_u g filename mode dev = r3_of (syscall g 14 (- 1) [filename, mode, dev])"

definition chmod_u :: "'k gate \<Rightarrow> u16 \<Rightarrow> u16 \<Rightarrow> (u16, 'k) stub" where
  "chmod_u g filename mode = r3_of (syscall g 15 (- 1) [filename, mode])"

definition chown_u :: "'k gate \<Rightarrow> u16 \<Rightarrow> u16 \<Rightarrow> u16 \<Rightarrow> (u16, 'k) stub" where
  "chown_u g filename uid gid = (let owner = push_bit 8 gid OR uid in r3_of (syscall g 16 (- 1) [filename, owner]))"

definition stat_u :: "'k gate \<Rightarrow> u16 \<Rightarrow> u16 \<Rightarrow> (u16, 'k) stub" where
  "stat_u g filename buf = r3_of (syscall g 18 (- 1) [filename, buf])"

definition seek_u :: "'k gate \<Rightarrow> u16 \<Rightarrow> u16 \<Rightarrow> u16 \<Rightarrow> (u16, 'k) stub" where
  "seek_u g fd offset fl = syscall g 19 fd [offset, fl]"

definition getpid_u :: "'k gate \<Rightarrow> (u16, 'k) stub" where
  "getpid_u g = syscall g 20 (- 1) []"

definition mount_u :: "'k gate \<Rightarrow> u16 \<Rightarrow> u16 \<Rightarrow> u16 \<Rightarrow> (u16, 'k) stub" where
  "mount_u g pDevFile pMountDir fl = r3_of (syscall g 21 (- 1) [pDevFile, pMountDir, fl])"

definition umount_u :: "'k gate \<Rightarrow> u16 \<Rightarrow> (u16, 'k) stub" where
  "umount_u g pDevFile = r3_of (syscall g 22 (- 1) [pDevFile])"

definition setuid_u :: "'k gate \<Rightarrow> u16 \<Rightarrow> (u16, 'k) stub" where
  "setuid_u g uid = r3_of (syscall g 23 uid [])"

definition getuid_u :: "'k gate \<Rightarrow> (u16, 'k) stub" where
  "getuid_u g = syscall g 24 (- 1) []"

definition fstat_u :: "'k gate \<Rightarrow> u16 \<Rightarrow> u16 \<Rightarrow> (u16, 'k) stub" where
  "fstat_u g fd buf = r3_of (syscall g 28 fd [buf])"

definition stty_u :: "'k gate \<Rightarrow> u16 \<Rightarrow> u16 \<Rightarrow> (u16, 'k) stub" where
  "stty_u g fd buf = r3_of (syscall g 31 fd [buf])"

definition gtty_u :: "'k gate \<Rightarrow> u16 \<Rightarrow> u16 \<Rightarrow> (u16, 'k) stub" where
  "gtty_u g fd buf = r3_of (syscall g 32 fd [buf])"

definition nice_u :: "'k gate \<Rightarrow> u16 \<Rightarrow> (u16, 'k) stub" where
  "nice_u g val = r3_of (syscall g 34 val [])"

definition sleep_u :: "'k gate \<Rightarrow> u16 \<Rightarrow> (u16, 'k) stub" where
  "sleep_u g nTicks = r3_of (syscall g 35 nTicks [])"

definition sync_u :: "'k gate \<Rightarrow> (u16, 'k) stub" where
  "sync_u g = r3_of (syscall g 36 (- 1) [])"

definition kill_u :: "'k gate \<Rightarrow> u16 \<Rightarrow> u16 \<Rightarrow> (u16, 'k) stub" where
  "kill_u g pid signalNo = r3_of (syscall g 37 pid [signalNo])"

definition getkaddr_u :: "'k gate \<Rightarrow> u16 \<Rightarrow> (u16, 'k) stub" where
  "getkaddr_u g i = syscall g 39 i []"

definition dup_u :: "'k gate \<Rightarrow> u16 \<Rightarrow> (u16, 'k) stub" where
  "dup_u g fd = syscall g 41 fd []"

text \<open>\<open>pipe\<close> also returns what is stored in \<open>fd\<close>.\<close>

definition pipe_u :: "'k gate \<Rightarrow> (u16 \<times> (u16 \<times> u16) option, 'k) stub" where
  "pipe_u g s =
     (case syscall g 42 (- 1) [] s of
        None \<Rightarrow> None
      | Some (_, l, k) \<Rightarrow> Some ((lr3 l, if lr3 l = 0 then Some (lr0 l, lr1 l) else None), l, k))"

definition setgid_u :: "'k gate \<Rightarrow> u16 \<Rightarrow> (u16, 'k) stub" where
  "setgid_u g gid = r3_of (syscall g 46 gid [])"

definition getgid_u :: "'k gate \<Rightarrow> (u16, 'k) stub" where
  "getgid_u g = syscall g 47 (- 1) []"

definition signal_u :: "'k gate \<Rightarrow> u16 \<Rightarrow> u16 \<Rightarrow> (u16, 'k) stub" where
  "signal_u g signalNo Handler = syscall g 48 (- 1) [signalNo, Handler]"

subsection \<open>The gate of the kernel\<close>

text \<open>
  The interrupt: \<open>trap0\<close> with the registers and three words of the stack, of which the operands are the first, and \<open>trap\<close>.  BX, CX and the words
  behind the operands are what they happen to be.
\<close>

definition kernel_call :: "'a kfs_scheme kenv \<Rightarrow> u16 \<Rightarrow> u16 \<Rightarrow> u16 list \<Rightarrow> 'a kfs_scheme gate" where
  "kernel_call e bx cx behind fn r0 args k =
     (let st = args @ behind @ [0, 0, 0] in
      case trap e (trap0 r0 bx cx fn (st ! 0) (st ! 1) (st ! 2) k) of
        Some (True, k) \<Rightarrow> Some ((u_ar0 (u k) 0, u_ar0 (u k) 1, u_ar0 (u k) 3), k)
      | _ \<Rightarrow> None)"

subsection \<open>Numbers and operands\<close>

text \<open>The first column of the table \<open>sysent\<close>: the number of operands of each call.\<close>

definition sysent_args :: "nat list" where
  "sysent_args =
     [0, 0, 0, 2, 2, 2, 0, 0, 2, 2, 1, 2, 1, 0, 3, 2, 2, 1, 2, 2, 0, 3, 1, 0, 0, 0, 3, 0, 1, 0, 1, 1,
      1, 0, 0, 0, 0, 1, 0, 0, 0, 0, 0, 1, 4, 0, 0, 0, 2, 0, 0, 0, 0, 0, 0, 0, 0, 0, 0, 0, 0, 0, 0, 0]"

text \<open>A gate that records the calls.\<close>

definition recorder :: "(nat \<times> nat) list gate" where
  "recorder fn r0 args k = Some ((0, 0, 0), (unat fn, length args) # k)"

definition calls :: "('r, (nat \<times> nat) list) stub \<Rightarrow> (nat \<times> nat) list" where
  "calls f = (case f (\<lparr>lr0 = 0, lr1 = 0, lr3 = 0, errno = 0\<rparr>, []) of None \<Rightarrow> [] | Some (_, _, k) \<Rightarrow> k)"

text \<open>Every function of \<open>usr/syscall.c\<close> makes one system call, with the number of the routine it is named after in the table of the kernel, and
  passes as many operands on the stack as the table says.
\<close>

theorem stubs_match_sysent:
  "\<forall>(n, c) \<in> set [(1, calls (exit_u recorder)), (1, calls (exit1 recorder a)), (2, calls (fork_u recorder)), (3, calls (read_u recorder a b c)),
     (4, calls (write_u recorder a b c)), (5, calls (open_u recorder a b)), (6, calls (close_u recorder a)), (7, calls (wait_u recorder)),
     (7, calls (waits recorder a)), (8, calls (creat_u recorder a b)), (9, calls (link_u recorder a b)), (10, calls (unlink_u recorder a)),
     (11, calls (exec_u recorder a b)), (12, calls (chdir_u recorder a)), (13, calls (time_u recorder)), (14, calls (mknod_u recorder a b c)),
     (15, calls (chmod_u recorder a b)), (16, calls (chown_u recorder a b c)), (18, calls (stat_u recorder a b)), (19, calls (seek_u recorder a b c)),
     (20, calls (getpid_u recorder)), (21, calls (mount_u recorder a b c)), (22, calls (umount_u recorder a)), (23, calls (setuid_u recorder a)),
     (24, calls (getuid_u recorder)), (28, calls (fstat_u recorder a b)), (31, calls (stty_u recorder a b)), (32, calls (gtty_u recorder a b)),
     (34, calls (nice_u recorder a)), (35, calls (sleep_u recorder a)), (36, calls (sync_u recorder)), (37, calls (kill_u recorder a b)),
     (39, calls (getkaddr_u recorder a)), (41, calls (dup_u recorder a)), (42, calls (pipe_u recorder)), (46, calls (setgid_u recorder a)),
     (47, calls (getgid_u recorder)), (48, calls (signal_u recorder a b))]. c = [(n, sysent_args ! n)]"
  by (simp add: calls_def recorder_def syscall_def r3_of_def sysent_args_def exit_u_def exit1_def fork_u_def read_u_def write_u_def open_u_def close_u_def
      wait_u_def waits_def creat_u_def link_u_def unlink_u_def exec_u_def chdir_u_def time_u_def mknod_u_def chmod_u_def chown_u_def stat_u_def seek_u_def
      getpid_u_def mount_u_def umount_u_def setuid_u_def getuid_u_def fstat_u_def stty_u_def gtty_u_def nice_u_def sleep_u_def sync_u_def kill_u_def
      getkaddr_u_def dup_u_def pipe_u_def setgid_u_def getgid_u_def signal_u_def)

subsection \<open>Errors\<close>

text \<open>What the library relies on: a call that reports an error in DX has its negative in AX.\<close>

locale system_calls =
  fixes gate :: "'k gate"
  assumes error_negated: "gate fn r0 args k = Some ((ax, bx, dx), k') \<Longrightarrow> dx \<noteq> 0 \<Longrightarrow> ax = - dx"
begin

text \<open>The value of \<open>syscall\<close> is the negative of \<open>errno\<close> after an error, and otherwise \<open>errno\<close> is not touched.\<close>

lemma syscall_error:
  "syscall gate fn r0 args (l, k) = Some (v, l', k') \<Longrightarrow>
   if lr3 l' = 0 then errno l' = errno l \<and> lr0 l' = v else lr3 l' = - 1 \<and> errno l' \<noteq> 0 \<and> v = - errno l' \<and> lr0 l' = v"
  using error_negated by (auto simp: syscall_def Let_def split: option.splits prod.splits if_splits)

lemma r3_error:
  "r3_of (syscall gate fn r0 args) (l, k) = Some (v, l', k') \<Longrightarrow> if v = 0 then errno l' = errno l else v = - 1 \<and> errno l' \<noteq> 0"
  using syscall_error [of fn r0 args l k] by (fastforce simp: r3_of_def split: option.splits prod.splits)

end

subsection \<open>The kernel keeps the contract\<close>

lemma suword_keeps: "u (suword a v k) = u k" "proc (suword a v k) = proc k"
  by (simp_all add: suword_def wrword_def)

lemma fmemcpy_keeps: "u (fmemcpy d s g n k) = u k" "proc (fmemcpy d s g n k) = proc k"
proof -
  have "u (fold (\<lambda>i k. k\<lparr>mem := (mem k)(linear g (d + of_nat i) := mem k (linear g (s + of_nat i)))\<rparr>) js k) = u k \<and>
      proc (fold (\<lambda>i k. k\<lparr>mem := (mem k)(linear g (d + of_nat i) := mem k (linear g (s + of_nat i)))\<rparr>) js k) = proc k" for js
    by (induction js arbitrary: k) simp_all
  then show "u (fmemcpy d s g n k) = u k" "proc (fmemcpy d s g n k) = proc k" by (simp_all add: fmemcpy_def)
qed

lemma psig_frame_u: "u (psig_frame h k) = (u k)\<lparr>u_usp := u_usp (u k) - 24\<rparr>"
  by (simp add: psig_frame_def Let_def suword_keeps fmemcpy_keeps)

lemma psig_caught: "psig k = Caught k' \<Longrightarrow> u_ar0 (u k') = u_ar0 (u k) \<and> u_uid (u k') = u_uid (u k) \<and> u_ruid (u k') = u_ruid (u k) \<and> u_procp (u k') = u_procp (u k)"
  by (auto simp: psig_def Let_def psig_frame_u set_error_def split: if_splits)

text \<open>The way back to the user does not change the registers that a call has set, nor who the process is.\<close>

lemma trap_back:
  assumes "trap e k = Some (True, k')"
  obtains k1 where
    "trap1 (if sint (u_ar0 (u k) 3) < 0 then (\<lambda>k. None) else sysent e (nat (sint (u_ar0 (u k) 3)))) (upd_u (\<lambda>w. w\<lparr>u_dirp := u_arg w 0\<rparr>) k) = Some (True, k1)"
    "u_ar0 (u k') = u_ar0 (u (trap_result k1))" "u_uid (u k') = u_uid (u k1)" "u_ruid (u k') = u_ruid (u k1)" "u_procp (u k') = u_procp (u k1)"
proof -
  obtain k1 where k1: "trap1 (if sint (u_ar0 (u k) 3) < 0 then (\<lambda>k. None) else sysent e (nat (sint (u_ar0 (u k) 3)))) (upd_u (\<lambda>w. w\<lparr>u_dirp := u_arg w 0\<rparr>) k) = Some (True, k1)"
    using assms by (auto simp: trap_def Let_def split: bind_splits if_splits)
  let ?k = "trap_epilogue (trap_result k1)"
  obtain k2 where k2: "(if issig ?k \<noteq> 0 then psig_act e ?k else Some (True, ?k)) = Some (True, k2)" "k' = setpri (u_procp (u k2)) k2"
    using assms k1 by (auto simp: trap_def Let_def split: bind_splits)
  have t: "u_uid (u ?k) = u_uid (u k1)" "u_ruid (u ?k) = u_ruid (u k1)" "u_procp (u ?k) = u_procp (u k1)" "u ?k = u (trap_result k1)"
    by (simp_all add: trap_epilogue_def trap_result_def Let_def suword_keeps set_error_def)
  have "u_ar0 (u k2) = u_ar0 (u ?k) \<and> u_uid (u k2) = u_uid (u ?k) \<and> u_ruid (u k2) = u_ruid (u ?k) \<and> u_procp (u k2) = u_procp (u ?k)"
  proof (cases "issig ?k \<noteq> 0")
    case True
    then have "psig ?k = Caught k2" using k2(1) by (auto simp: psig_act_def Let_def split: psig_result.splits bind_splits outcome.splits)
    then show ?thesis by (rule psig_caught)
  qed (use k2(1) in simp)
  then show ?thesis using that [OF k1] k2(2) t by simp
qed

lemma trap_back_registers: "trap e k = Some (True, k') \<Longrightarrow> \<exists>k1. u_ar0 (u k') = u_ar0 (u (trap_result (k1 :: 'a kfs_scheme)))"
  for e :: "'a kfs_scheme kenv"
  by (erule trap_back, rule exI, assumption)

lemma kernel_call_inv:
  assumes "kernel_call e bx cx behind fn r0 args k = Some ((ax, bx', dx), k')"
  obtains k0 where "trap e k0 = Some (True, k')" "ax = u_ar0 (u k') 0" "bx' = u_ar0 (u k') 1" "dx = u_ar0 (u k') 3"
    "k0 = trap0 r0 bx cx fn ((args @ behind @ [0, 0, 0]) ! 0) ((args @ behind @ [0, 0, 0]) ! 1) ((args @ behind @ [0, 0, 0]) ! 2) k"
  using assms that by (auto simp: kernel_call_def Let_def split: option.splits prod.splits bool.splits)

lemma kernel_error_negated:
  fixes e :: "'a kfs_scheme kenv"
  assumes "kernel_call e bx cx behind fn r0 args k = Some ((ax, bx', dx), k')" "dx \<noteq> 0"
  shows "ax = - dx"
proof -
  from kernel_call_inv [OF assms(1)] obtain k0 where k0: "trap e k0 = Some (True, k')" "ax = u_ar0 (u k') 0" "dx = u_ar0 (u k') 3" .
  obtain k1 :: "'a kfs_scheme" where "u_ar0 (u k') = u_ar0 (u (trap_result k1))" using trap_back_registers [OF k0(1)] by blast
  then show ?thesis using k0(2,3) assms(2) by (auto simp: trap_result_def Let_def split: if_splits)
qed

interpretation kernel: system_calls "kernel_call e bx cx behind"
  by unfold_locales (rule kernel_error_negated)

text \<open>A call whose routine always returns, in a process without a signal: what the registers and the kernel are afterwards.\<close>

definition after :: "('a kfs_scheme \<Rightarrow> 'a kfs_scheme) \<Rightarrow> 'a kfs_scheme \<Rightarrow> 'a kfs_scheme" where
  "after f k = trap_result (upd_u (\<lambda>w. w\<lparr>u_intflg := False\<rparr>) (f (upd_u (\<lambda>w. w\<lparr>u_intflg := True\<rparr>) (upd_u (\<lambda>w. w\<lparr>u_dirp := u_arg w 0\<rparr>) k))))"

lemma kernel_call_plain:
  fixes e :: "'a kfs_scheme kenv" and k :: "'a kfs_scheme"
  assumes "0 \<le> sint fn" "\<And>k. sysent e (nat (sint fn)) k = returns (ret (f k))"
    and "k0 = trap0 r0 bx cx fn ((args @ behind @ [0, 0, 0]) ! 0) ((args @ behind @ [0, 0, 0]) ! 1) ((args @ behind @ [0, 0, 0]) ! 2) k"
    and "p_sig (curproc (after f k0)) = 0"
  shows "kernel_call e bx cx behind fn r0 args k =
    Some ((u_ar0 (u (after f k0)) 0, u_ar0 (u (after f k0)) 1, u_ar0 (u (after f k0)) 3), setpri (u_procp (u (after f k0))) (trap_epilogue (after f k0)))"
proof -
  have s: "sysent e (nat (sint fn)) = (\<lambda>k. returns (ret (f k)))" by (rule ext) (rule assms(2))
  have n: "u_ar0 (u k0) 3 = fn" using assms(3) by (simp add: trap0_def)
  have e: "u (trap_epilogue (after f k0)) = u (after f k0)" "proc (trap_epilogue (after f k0)) = proc (after f k0)"
    by (simp_all add: trap_epilogue_def Let_def suword_keeps)
  have "trap1 (\<lambda>k. returns (ret (f k))) (upd_u (\<lambda>w. w\<lparr>u_dirp := u_arg w 0\<rparr>) k0) =
      Some (True, upd_u (\<lambda>w. w\<lparr>u_intflg := False\<rparr>) (f (upd_u (\<lambda>w. w\<lparr>u_intflg := True\<rparr>) (upd_u (\<lambda>w. w\<lparr>u_dirp := u_arg w 0\<rparr>) k0))))"
    by (simp add: trap1_def returns_def ret_def andthen_def)
  then have "trap e k0 = Some (True, setpri (u_procp (u (after f k0))) (trap_epilogue (after f k0)))"
    using assms(1,4) n e s by (simp add: trap_def after_def issig_def Let_def)
  then show ?thesis using assms(3) e by (simp add: kernel_call_def Let_def)
qed

lemma stub_plain:
  fixes e :: "'a kfs_scheme kenv" and k :: "'a kfs_scheme"
  assumes "0 \<le> sint fn" "\<And>k. sysent e (nat (sint fn)) k = returns (ret (f k))"
    and "k0 = trap0 r0 bx cx fn ((args @ behind @ [0, 0, 0]) ! 0) ((args @ behind @ [0, 0, 0]) ! 1) ((args @ behind @ [0, 0, 0]) ! 2) k"
    and "p_sig (curproc (after f k0)) = 0"
  obtains l' k' where "syscall (kernel_call e bx cx behind) fn r0 args (l, k) = Some (u_ar0 (u (after f k0)) 0, l', k')"
    "u k' = u (after f k0)" "\<And>q. p_sig (proc k' q) = p_sig (proc (after f k0) q)" "\<And>q. p_pid (proc k' q) = p_pid (proc (after f k0) q)"
    "lr3 l' = (if u_ar0 (u (after f k0)) 3 = 0 then 0 else - 1)" "u_ar0 (u (after f k0)) 3 \<noteq> 0 \<longrightarrow> errno l' = u_ar0 (u (after f k0)) 3"
proof -
  let ?k = "after f k0"
  have e: "u (trap_epilogue ?k) = u ?k" "proc (trap_epilogue ?k) = proc ?k" by (simp_all add: trap_epilogue_def Let_def suword_keeps)
  note c = kernel_call_plain [OF assms]
  let ?k' = "setpri (u_procp (u ?k)) (trap_epilogue ?k)"
  let ?l = "(if u_ar0 (u ?k) 3 \<noteq> 0 then l\<lparr>errno := u_ar0 (u ?k) 3\<rparr> else l)\<lparr>lr0 := u_ar0 (u ?k) 0, lr1 := u_ar0 (u ?k) 1,
      lr3 := if u_ar0 (u ?k) 3 \<noteq> 0 then - 1 else u_ar0 (u ?k) 3\<rparr>"
  have "syscall (kernel_call e bx cx behind) fn r0 args (l, k) = Some (u_ar0 (u ?k) 0, ?l, ?k')" by (simp add: syscall_def c)
  moreover have "u ?k' = u ?k" "p_sig (proc ?k' q) = p_sig (proc ?k q)" "p_pid (proc ?k' q) = p_pid (proc ?k q)" for q
    using e by (simp_all add: setpri_def Let_def)
  ultimately show ?thesis by (rule that) simp_all
qed

lemma after_setuid:
  assumes "k0 = trap0 uid bx cx 23 a b c k"
  defines "ok \<equiv> u_uid (u k) = 0 \<or> u_ruid (u k) = ucast uid"
  shows "u_ar0 (u (after setuid k0)) 3 = (if ok then 0 else 1)" "u_uid (u (after setuid k0)) = (if ok then ucast uid else u_uid (u k))"
    "u_ruid (u (after setuid k0)) = (if ok then ucast uid else u_ruid (u k))" "p_sig (proc (after setuid k0) q) = p_sig (proc k q)"
    "u_procp (u (after setuid k0)) = u_procp (u k)"
  unfolding assms after_def setuid_def trap0_def trap_result_def
  by (auto simp: Let_def suser_def byte0_def set_error_def)

lemma after_getuid:
  assumes "k0 = trap0 r0 bx cx 24 a b c k"
  shows "u_ar0 (u (after getuid k0)) 3 = 0" "u_ar0 (u (after getuid k0)) 0 = push_bit 8 (scast (u_uid (u k))) OR scast (u_ruid (u k))"
    "p_sig (proc (after getuid k0) q) = p_sig (proc k q)" "u_procp (u (after getuid k0)) = u_procp (u k)"
  unfolding assms after_def getuid_def trap0_def trap_result_def set_r0_def by (auto simp: Let_def)

lemma take_bit_word_eq_self_low: "w < 128 \<Longrightarrow> take_bit 7 w = w" for w :: u16
  by (simp add: word_unat_eq_iff unsigned_take_bit_eq take_bit_nat_eq_self word_less_nat_alt)

lemma scast_ucast_low: "take_bit 7 w = w \<Longrightarrow> scast (ucast w :: u8) = w" for w :: u16
proof (rule bit_word_eqI)
  fix n assume w: "take_bit 7 w = w" and n: "n < LENGTH(16)"
  have "\<not> bit w m" if "7 \<le> m" for m using that by (subst w [symmetric]) (simp add: bit_simps)
  then show "bit (scast (ucast w :: u8) :: u16) n = bit w n" using n by (cases "n < 7") (auto simp: bit_simps)
qed

lemma setuid_getuid_lib:
  fixes e :: "'a kfs_scheme kenv" and k :: "'a kfs_scheme"
  assumes "p_sig (curproc k) = 0" "uid < 128"
  shows "\<exists>l1 k1 l2 k2. if u_uid (u k) = 0 \<or> u_ruid (u k) = ucast uid
    then setuid_u (kernel_call e bx cx behind) uid (l, k) = Some (0, l1, k1) \<and>
      getuid_u (kernel_call e bx cx behind) (l1, k1) = Some (push_bit 8 uid OR uid, l2, k2)
    else setuid_u (kernel_call e bx cx behind) uid (l, k) = Some (- 1, l1, k1) \<and> errno l1 = 1 \<and>
      getuid_u (kernel_call e bx cx behind) (l1, k1) = Some (push_bit 8 (scast (u_uid (u k))) OR scast (u_ruid (u k)), l2, k2)"
proof -
  let ?ok = "u_uid (u k) = 0 \<or> u_ruid (u k) = ucast uid"
  define k0 where "k0 = trap0 uid bx cx 23 (([] @ behind @ [0, 0, 0]) ! 0) (([] @ behind @ [0, 0, 0]) ! 1) (([] @ behind @ [0, 0, 0]) ! 2) k"
  note s = after_setuid [OF k0_def]
  have p: "p_sig (curproc (after setuid k0)) = 0" using s(4,5) assms(1) by simp
  obtain l1 k1 where 1: "syscall (kernel_call e bx cx behind) 23 uid [] (l, k) = Some (u_ar0 (u (after setuid k0)) 0, l1, k1)"
      "u k1 = u (after setuid k0)" "\<And>q. p_sig (proc k1 q) = p_sig (proc (after setuid k0) q)" "lr3 l1 = (if u_ar0 (u (after setuid k0)) 3 = 0 then 0 else - 1)"
      "u_ar0 (u (after setuid k0)) 3 \<noteq> 0 \<longrightarrow> errno l1 = u_ar0 (u (after setuid k0)) 3"
    by (rule stub_plain [of 23 e setuid k0 uid bx cx "[]" behind k l, OF _ _ k0_def p]) (simp_all add: sysent_def)
  define k2 where "k2 = trap0 (- 1) bx cx 24 (([] @ behind @ [0, 0, 0]) ! 0) (([] @ behind @ [0, 0, 0]) ! 1) (([] @ behind @ [0, 0, 0]) ! 2) k1"
  note g = after_getuid [OF k2_def]
  have q: "p_sig (curproc (after getuid k2)) = 0" using g(3,4) 1(2,3) p by simp
  obtain l2 k3 where 2: "syscall (kernel_call e bx cx behind) 24 (- 1) [] (l1, k1) = Some (u_ar0 (u (after getuid k2)) 0, l2, k3)"
    by (rule stub_plain [of 24 e getuid k2 "- 1" bx cx "[]" behind k1 l1, OF _ _ k2_def q]) (simp_all add: sysent_def)
  have "take_bit 7 uid = uid" using assms(2) by (rule take_bit_word_eq_self_low)
  then have b: "scast (ucast uid :: u8) = uid" using scast_ucast_low [of uid] by simp
  show ?thesis
    by (rule exI [of _ l1], rule exI [of _ k1], rule exI [of _ l2], rule exI [of _ k3])
       (use 1 2 g s b in \<open>auto simp: setuid_u_def r3_of_def getuid_u_def\<close>)
qed

lemma setuid_denied:
  fixes e :: "'a kfs_scheme kenv" and k :: "'a kfs_scheme"
  assumes "p_sig (curproc k) = 0" "uid < 128" "u_uid (u k) \<noteq> 0" "u_ruid (u k) \<noteq> ucast uid"
  shows "\<exists>l1 k1. setuid_u (kernel_call e bx cx behind) uid (l, k) = Some (- 1, l1, k1)"
  using setuid_getuid_lib [OF assms(1,2), of e bx cx behind l] assms(3,4) by auto

text \<open>\<open>setuid\<close> and \<open>getuid\<close> of the library agree across the kernel: in a process without a signal both return; \<open>setuid\<close> succeeds
  for the super-user and for the real user's own number, and then \<open>getuid\<close> returns that number in both bytes; otherwise \<open>setuid\<close> returns \<open>-1\<close> with \<open>errno\<close>
  1 and the identity is what it was.
\<close>

theorem setuid_getuid:
  fixes e :: "'a kfs_scheme kenv" and k :: "'a kfs_scheme"
  assumes "p_sig (curproc k) = 0" "uid < 128"
  shows "\<exists>l1 k1 l2 k2. if u_uid (u k) = 0 \<or> u_ruid (u k) = ucast uid
    then setuid_u (kernel_call e bx cx behind) uid (l, k) = Some (0, l1, k1) \<and>
      getuid_u (kernel_call e bx cx behind) (l1, k1) = Some (push_bit 8 uid OR uid, l2, k2)
    else setuid_u (kernel_call e bx cx behind) uid (l, k) = Some (- 1, l1, k1) \<and> errno l1 = 1 \<and>
      getuid_u (kernel_call e bx cx behind) (l1, k1) = Some (push_bit 8 (scast (u_uid (u k))) OR scast (u_ruid (u k)), l2, k2)"
  using setuid_getuid_lib [OF assms] .

definition ex_env :: "kfs kenv" where
  "ex_env = \<lparr>away = Some, raw_user = (\<lambda>_ _. 0), coredump = (\<lambda>k. Some (False, k)), psw = 0, kaddr_proc = 0, kaddr_swapdev = 0\<rparr>"

abbreviation ex_lib :: lib where
  "ex_lib \<equiv> \<lparr>lr0 = 0, lr1 = 0, lr3 = 0, errno = 0\<rparr>"

lemma ex_fs_sig: "p_sig (curproc ex_fs) = 0"
  by (simp add: ex_fs_def ex_disk_def kbio.defs kproc.defs ex_kernel_def ex_procs_def no_proc_def)

theorem setuid_getuid_witness:
  "\<exists>l1 k1 l2 k2. setuid_u (kernel_call ex_env 0 0 []) 5 (ex_lib, ex_fs) = Some (0, l1, k1) \<and>
     getuid_u (kernel_call ex_env 0 0 []) (l1, k1) = Some (0x505, l2, k2)"
  using setuid_getuid [OF ex_fs_sig, of 5 ex_env 0 0 "[]" ex_lib] by (simp add: no_user_def)



end
