(* ===== verification/More.thy ===== *)
theory More
  imports Prelude
begin

unbundle bit_operations_syntax

text \<open>
  \<open>usr/more.c\<close>: a text in screens of 24 lines.  The text is the list of the characters that the reads of the input deliver, the keys are what the reads
  of the console deliver, with \<open>None\<close> for a read that does not return one character, as is every read after the last element.
\<close>

definition LINES_PER_SCREEN :: nat where
  "LINES_PER_SCREEN = 24"

definition PROMPT :: string where
  "PROMPT = ''--More--''"

definition ERASE_PROMPT :: string where
  "ERASE_PROMPT = [CHR 0x0D] @ ''         '' @ [CHR 0x0D]"

text \<open>What is written, whether to quit, and the keys left.\<close>

fun await_loop :: "char option list \<Rightarrow> string \<times> bool \<times> char option list" where
  "await_loop [] = ([], True, [])"
| "await_loop (None # keys) = ([], True, keys)"
| "await_loop (Some c # keys) =
     (if c = CHR ''q'' \<or> c = CHR ''Q'' then (ERASE_PROMPT, True, keys)
      else if c = CHR '' '' then (ERASE_PROMPT, False, keys)
      else await_loop keys)"

definition await_user_command :: "char option list \<Rightarrow> string \<times> bool \<times> char option list" where
  "await_user_command keys = (let (out, quit, keys) = await_loop keys in (PROMPT @ out, quit, keys))"

text \<open>The loop of \<open>main\<close>: what is written.\<close>

fun more_loop :: "string \<Rightarrow> char option list \<Rightarrow> nat \<Rightarrow> string" where
  "more_loop [] keys line_count = []"
| "more_loop (c # cs) keys line_count =
     c # (if c = CHR 0x0A then
            let line_count = line_count + 1 in
            if LINES_PER_SCREEN \<le> line_count then
              let (out, quit, keys) = await_user_command keys in out @ (if quit then [] else more_loop cs keys 0)
            else more_loop cs keys line_count
          else more_loop cs keys line_count)"

record sgttyb =
  sg_ispeed :: u8
  sg_ospeed :: u8
  sg_erase :: u8
  sg_kill :: u8
  sg_flags :: u16

text \<open>
  Where the text and the keys come from: the descriptors of the input and of the console, or a message.  \<open>arg\<close> is the first argument with the result
  of opening it, \<open>console\<close> the result of opening the console, and \<open>s_stdin\<close> and \<open>s_console\<close> the device and the number of the inodes.
\<close>

definition more_open :: "(string \<times> int) option \<Rightarrow> int \<Rightarrow> u16 \<times> u16 \<Rightarrow> u16 \<times> u16 \<Rightarrow> string + int \<times> int" where
  "more_open arg console s_stdin s_console =
     (case arg of
        None \<Rightarrow>
          if console < 0 then Inl (''Error: Cannot open /dev/console'' @ [CHR 0x0A])
          else if s_stdin = s_console then Inl (''Usage: more <filename>'' @ [CHR 0x0A] @ ''Or: some_command | more'' @ [CHR 0x0A])
          else Inr (0, console)
      | Some (name, fd) \<Rightarrow> if fd < 0 then Inl (''Error: Cannot open file '' @ name @ [CHR 0x0A]) else Inr (fd, 0))"

text \<open>The rest of \<open>main\<close>: the settings that are given to \<open>stty\<close> in turn, the text that is written, and the descriptors that are closed.\<close>

definition more_main :: "sgttyb \<Rightarrow> int \<times> int \<Rightarrow> string \<Rightarrow> char option list \<Rightarrow> sgttyb list \<times> string \<times> int list" where
  "more_main original fds input keys =
     (let (input_fd, console_fd) = fds;
          raw_settings = original\<lparr>sg_flags := sg_flags original OR 0x20\<rparr>
      in ([raw_settings, original], more_loop input keys 0,
          (if input_fd \<noteq> 0 then [input_fd] else []) @ (if console_fd \<noteq> 0 then [console_fd] else [])))"

subsection \<open>Screens\<close>

text \<open>How many prompts are answered with a blank before the first end, and what the end writes.\<close>

fun gos :: "char option list \<Rightarrow> nat" where
  "gos [] = 0"
| "gos (None # keys) = 0"
| "gos (Some c # keys) = (if c = CHR ''q'' \<or> c = CHR ''Q'' then 0 else if c = CHR '' '' then Suc (gos keys) else gos keys)"

fun quit_out :: "char option list \<Rightarrow> string" where
  "quit_out [] = []"
| "quit_out (None # keys) = []"
| "quit_out (Some c # keys) = (if c = CHR ''q'' \<or> c = CHR ''Q'' then ERASE_PROMPT else quit_out keys)"

lemma await_loop_spec:
  "await_loop keys = (out, quit, keys') \<Longrightarrow>
   if quit then gos keys = 0 \<and> out = quit_out keys else out = ERASE_PROMPT \<and> gos keys = Suc (gos keys') \<and> quit_out keys = quit_out keys'"
  by (induction keys rule: await_loop.induct) (auto split: if_splits)

text \<open>The number of complete lines.\<close>

abbreviation nls :: "string \<Rightarrow> nat" where
  "nls t \<equiv> count_list t (CHR 0x0A)"

text \<open>A text that does not fill the screen is shown as it is; the line that fills it is followed by the prompt.\<close>

lemma more_short: "n + nls t < 24 \<Longrightarrow> more_loop t keys n = t"
  by (induction t arbitrary: n) (auto simp: LINES_PER_SCREEN_def Let_def)

lemma more_screen:
  assumes "n + nls t = 23"
  shows "more_loop (t @ CHR 0x0A # cs) keys n =
    t @ CHR 0x0A # PROMPT @ (let (out, quit, keys) = await_loop keys in out @ (if quit then [] else more_loop cs keys 0))"
  using assms
proof (induction t arbitrary: n)
  case (Cons c t)
  then show ?case by (cases "c = CHR 0x0A") (auto simp: LINES_PER_SCREEN_def Let_def)
qed (simp add: LINES_PER_SCREEN_def await_user_command_def Let_def split: prod.splits)

lemma split_screen: "m < nls t \<Longrightarrow> \<exists>a cs. t = a @ CHR 0x0A # cs \<and> nls a = m"
proof (induction t arbitrary: m)
  case (Cons c t)
  show ?case
  proof (cases "c = CHR 0x0A \<and> m = 0")
    case True
    then show ?thesis by (intro exI [of _ "[]"] exI [of _ t]) simp
  next
    case False
    then have "(if c = CHR 0x0A then m - 1 else m) < nls t" using Cons.prems by (auto split: if_splits)
    then obtain a cs where "t = a @ CHR 0x0A # cs" "nls a = (if c = CHR 0x0A then m - 1 else m)" using Cons.IH by blast
    then show ?thesis using False by (intro exI [of _ "c # a"] exI [of _ cs]) (auto split: if_splits)
  qed
qed simp

text \<open>A full screen: 24 lines.\<close>

definition screen :: "string \<Rightarrow> bool" where
  "screen s \<longleftrightarrow> s \<noteq> [] \<and> nls s = 24 \<and> last s = CHR 0x0A"

text \<open>\<open>more\<close> shows the text in screens of 24 lines: the text is a number of full screens and a rest of less than 24 lines; each screen that is
  followed by a key to go on is shown with the prompt erased behind it, the output ends with the prompt behind the screen at which the user quits, and with
  the rest if the user never does.  The settings of the terminal are changed once and set back to what they were.\<close>

theorem more_pages:
  "\<exists>ss rest. t = concat ss @ rest \<and> (\<forall>s \<in> set ss. screen s) \<and> nls rest < 24 \<and>
     fst (snd (more_main original fds t keys)) =
       concat (map (\<lambda>s. s @ PROMPT @ ERASE_PROMPT) (take (gos keys) ss)) @
       (if gos keys < length ss then ss ! gos keys @ PROMPT @ quit_out keys else rest) \<and>
     last (fst (more_main original fds t keys)) = original"
proof -
  have "\<exists>ss rest. t = concat ss @ rest \<and> (\<forall>s \<in> set ss. screen s) \<and> nls rest < 24 \<and>
      more_loop t keys 0 = concat (map (\<lambda>s. s @ PROMPT @ ERASE_PROMPT) (take (gos keys) ss)) @
        (if gos keys < length ss then ss ! gos keys @ PROMPT @ quit_out keys else rest)"
  proof (induction "length t" arbitrary: t keys rule: less_induct)
    case less
    show ?case
    proof (cases "nls t < 24")
      case True
      then show ?thesis using more_short [of 0 t keys] by (intro exI [of _ "[]"] exI [of _ t]) simp
    next
      case False
      then obtain a cs where t: "t = a @ CHR 0x0A # cs" "nls a = 23" using split_screen [of 23 t] by auto
      obtain out quit keys' where k: "await_loop keys = (out, quit, keys')" using prod_cases3 by blast
      obtain ss rest where ih: "cs = concat ss @ rest" "\<forall>s \<in> set ss. screen s" "nls rest < 24"
          "more_loop cs keys' 0 = concat (map (\<lambda>s. s @ PROMPT @ ERASE_PROMPT) (take (gos keys') ss)) @
            (if gos keys' < length ss then ss ! gos keys' @ PROMPT @ quit_out keys' else rest)"
        using less [of cs keys'] t(1) by auto
      have "screen (a @ [CHR 0x0A])" using t(2) by (simp add: screen_def)
      then show ?thesis using ih t more_screen [of 0 a cs keys] k await_loop_spec [OF k]
        by (intro exI [of _ "(a @ [CHR 0x0A]) # ss"] exI [of _ rest]) (auto split: if_splits)
    qed
  qed
  moreover have "fst (snd (more_main original fds t keys)) = more_loop t keys 0 \<and> last (fst (more_main original fds t keys)) = original"
    by (simp add: more_main_def Let_def split: prod.splits)
  ultimately show ?thesis by simp
qed

end
