(* ===== verification/Ls.thy ===== *)
theory Ls
  imports Ctime Uprintf
begin

unbundle bit_operations_syntax

text \<open>
  \<open>usr/ls.c\<close>: the lines of a listing.  What \<open>stat\<close>, \<open>open\<close> and the reads of a directory answer are the arguments \<open>st\<close> and \<open>dir\<close>; the
  name of an entry is at most 14 characters without NUL.  \<open>None\<close> stands for storing behind the end of \<open>buf\<close>, and for a date that \<open>ctime\<close> has no name for.
\<close>

record statb =
  s_dev :: u16
  s_inumber :: u16
  s_flags :: u16
  s_nlinks :: u8
  s_uid :: u8
  s_gid :: u8
  s_size0 :: u8
  s_size1 :: u16
  s_addr0 :: u16
  s_modtime :: dword

definition DIRSIZ :: nat where
  "DIRSIZ = 14"

definition fmtname :: "string \<Rightarrow> string" where
  "fmtname path =
     (let p = rev (takeWhile (\<lambda>c. c \<noteq> CHR ''/'') (rev path)) in
      if length p \<ge> DIRSIZ then p else p @ replicate (DIRSIZ - length p) (CHR '' ''))"

datatype ftype = T_FILE | T_DIR | T_DEV

definition stat_type :: "statb \<Rightarrow> ftype" where
  "stat_type p =
     (let t = s_flags p AND 0x6000 in if t = 0 then T_FILE else if t = 0x4000 then T_DIR else T_DEV)"

text \<open>A character as an argument of \<open>sprintf\<close>.\<close>

abbreviation chr_arg :: "char \<Rightarrow> arg" where
  "chr_arg c \<equiv> Num (of_nat (of_char c))"

abbreviation bit_char :: "u16 \<Rightarrow> u16 \<Rightarrow> char \<Rightarrow> arg" where
  "bit_char m b c \<equiv> chr_arg (if m AND b \<noteq> 0 then c else CHR ''-'')"

definition type_char :: "u16 \<Rightarrow> char" where
  "type_char m =
     (let t = m AND 0x6000 in
      if t = 0 then CHR ''-'' else if t = 0x4000 then CHR ''d'' else if t = 0x2000 then CHR ''c'' else CHR ''b'')"

definition exec_char :: "u16 \<Rightarrow> u16 \<Rightarrow> u16 \<Rightarrow> char" where
  "exec_char m x s = (if m AND x \<noteq> 0 then (if m AND s \<noteq> 0 then CHR ''s'' else CHR ''x'') else CHR ''-'')"

definition mode_column :: "u16 \<Rightarrow> string option" where
  "mode_column m = do {
     a \<leftarrow> vsprintf ''%c%c%c'' [bit_char m 0x100 (CHR ''r''), bit_char m 0x80 (CHR ''w''), chr_arg (exec_char m 0x40 0x800)];
     b \<leftarrow> vsprintf ''%c%c%c'' [bit_char m 0x20 (CHR ''r''), bit_char m 0x10 (CHR ''w''), chr_arg (exec_char m 0x8 0x400)];
     c \<leftarrow> vsprintf ''%c%c%c '' [bit_char m 0x4 (CHR ''r''), bit_char m 0x2 (CHR ''w''), bit_char m 0x1 (CHR ''x'')];
     Some (type_char m # a @ b @ c) }"

text \<open>The counts are signed characters, which are widened to integers for \<open>%u\<close>.\<close>

definition count_column :: "statb \<Rightarrow> string option" where
  "count_column st =
     (if s_flags st AND 0x6000 \<noteq> 0x2000 \<and> s_flags st AND 0x6000 \<noteq> 0x6000 then do {
        a \<leftarrow> vsprintf ''%3u %u/%u '' [Num (scast (s_nlinks st)), Num (scast (s_gid st)), Num (scast (s_uid st))];
        b \<leftarrow> vsprintf ''%7u '' [Num (s_size1 st)];
        Some (a @ b) }
      else vsprintf ''%3u %u/%u         '' [Num (scast (s_nlinks st)), Num (signed_drop_bit 8 (s_addr0 st)), Num (s_addr0 st AND 0xFF)])"

definition date_column :: "u16 \<Rightarrow> dword \<Rightarrow> string option" where
  "date_column year t = do {
     cp \<leftarrow> ctime t;
     if fst t < year then vsprintf '' %-7.7s %-4.4s'' [Text (drop 4 cp), Text (drop 20 cp)]
     else vsprintf '' %-12.12s'' [Text (drop 4 cp)] }"

definition lsfile :: "(string \<Rightarrow> statb option) \<Rightarrow> u16 \<Rightarrow> string \<Rightarrow> string option" where
  "lsfile st year path =
     (case st path of
        None \<Rightarrow> fprintf (''ls: cannot stat %s'' @ [CHR 0x0A]) [Text path]
      | Some s \<Rightarrow> do {
          m \<leftarrow> mode_column (s_flags s);
          c \<leftarrow> count_column s;
          d \<leftarrow> date_column year (s_modtime s);
          n \<leftarrow> vsprintf ('' %s'' @ [CHR 0x0A]) [Text (fmtname path)];
          let buf = m @ c @ d @ n;
          if length buf < 80 then Some buf else None })"

text \<open>The loop over the entries of a directory.\<close>

fun ls_loop :: "(string \<Rightarrow> statb option) \<Rightarrow> u16 \<Rightarrow> string \<Rightarrow> (u16 \<times> string) list \<Rightarrow> string option" where
  "ls_loop st year path [] = Some []"
| "ls_loop st year path ((inum, nm) # es) =
     (if inum = 0 then ls_loop st year path es
      else do {
        let buf = path @ ''/'' @ nm;
        a \<leftarrow> (if st buf = None then fprintf (''ls: cannot stat %s'' @ [CHR 0x0A]) [Text buf] else lsfile st year buf);
        b \<leftarrow> ls_loop st year path es;
        Some (a @ b) })"

text \<open>\<open>dir\<close> is the result of opening the argument: what \<open>fstat\<close> says of it, and its entries if it is a directory.\<close>

definition ls :: "(string \<Rightarrow> statb option) \<Rightarrow> (string \<Rightarrow> (statb option \<times> (u16 \<times> string) list) option) \<Rightarrow> dword \<Rightarrow> string \<Rightarrow> string option" where
  "ls st dir now path =
     (case dir path of
        None \<Rightarrow> fprintf (''ls: cannot open %s'' @ [CHR 0x0A]) [Text path]
      | Some (fst_s, es) \<Rightarrow>
          let year = fst now - 245 in
          case fst_s of
            None \<Rightarrow> fprintf (''ls: cannot stat %s'' @ [CHR 0x0A]) [Text path]
          | Some s \<Rightarrow>
              (case stat_type s of
                 T_FILE \<Rightarrow> lsfile st year path
               | T_DIR \<Rightarrow>
                   if length path + 1 + DIRSIZ + 1 > 512 then fprintf (''ls: path too long'' @ [CHR 0x0A]) []
                   else ls_loop st year path es
               | T_DEV \<Rightarrow> Some []))"

subsection \<open>The columns\<close>

text \<open>The characters of the mode.\<close>

definition mode_chars :: "char set" where
  "mode_chars = {CHR ''r'', CHR ''w'', CHR ''x'', CHR ''s'', CHR ''-''}"

lemma chr_arg_convert: "c \<in> mode_chars \<Longrightarrow> convert_arg (CHR ''c'') (chr_arg c # as) = Some (Some [c], as)"
proof -
  have "\<forall>c \<in> set ''rwxs-''. (ucast (of_nat (of_char c) :: u16) :: u8) \<noteq> 0 \<and> char_of (unat (ucast (of_nat (of_char c) :: u16) :: u8)) = c" by code_simp
  moreover have "mode_chars = set ''rwxs-''" by (simp add: mode_chars_def)
  ultimately show "c \<in> mode_chars \<Longrightarrow> convert_arg (CHR ''c'') (chr_arg c # as) = Some (Some [c], as)" unfolding convert_arg_def by (simp only:) simp
qed

lemma get_field_c: "get_field (CHR ''c'' # fr) = (\<lparr>ljflg = False, fw = 0, pr = 0, prflg = False, pad = CHR '' ''\<rparr>, CHR ''c'' # fr)"
  by (simp add: get_field_def is_dec_def)

lemma putsr_one: "putsr \<lparr>ljflg = False, fw = 0, pr = 0, prflg = False, pad = CHR '' ''\<rparr> [c] = [c]"
  by (simp add: putsr_def)

lemma vsprintf_c: "c \<in> mode_chars \<Longrightarrow>
    vsprintf (CHR ''%'' # CHR ''c'' # fr) (chr_arg c # as) = map_option ((#) c) (vsprintf fr as)"
  by (subst vsprintf.simps) (simp add: get_field_c chr_arg_convert putsr_one del: One_nat_def)

lemma vsprintf_ccc:
  assumes "a \<in> mode_chars" "b \<in> mode_chars" "c \<in> mode_chars"
  shows "vsprintf ''%c%c%c'' [chr_arg a, chr_arg b, chr_arg c] = Some [a, b, c]"
    "vsprintf ''%c%c%c '' [chr_arg a, chr_arg b, chr_arg c] = Some [a, b, c, CHR '' '']"
proof -
  have v: "vsprintf [] [] = Some []" "vsprintf '' '' [] = Some '' ''" by (simp_all add: vsprintf.simps)
  show "vsprintf ''%c%c%c'' [chr_arg a, chr_arg b, chr_arg c] = Some [a, b, c]"
    "vsprintf ''%c%c%c '' [chr_arg a, chr_arg b, chr_arg c] = Some [a, b, c, CHR '' '']"
    by (simp_all only: vsprintf_c assms v option.map append.simps)
qed

lemma mode_column_text:
  "mode_column m = Some [type_char m,
     if bit m 8 then CHR ''r'' else CHR ''-'', if bit m 7 then CHR ''w'' else CHR ''-'', exec_char m 0x40 0x800,
     if bit m 5 then CHR ''r'' else CHR ''-'', if bit m 4 then CHR ''w'' else CHR ''-'', exec_char m 0x8 0x400,
     if bit m 2 then CHR ''r'' else CHR ''-'', if bit m 1 then CHR ''w'' else CHR ''-'', if bit m 0 then CHR ''x'' else CHR ''-'', CHR '' '']"
proof -
  have b: "m AND push_bit n 1 \<noteq> 0 \<longleftrightarrow> bit m n" for n
    by (simp add: bit_iff_and_push_bit_not_eq_0)
  note bs = b [of 8, simplified] b [of 7, simplified] b [of 5, simplified] b [of 4, simplified] b [of 2, simplified] b [of 1, simplified] b [of 0, simplified]
  have e: "exec_char m x s \<in> mode_chars" for x s by (simp add: exec_char_def mode_chars_def)
  have i: "(if P then CHR ''r'' else CHR ''-'') \<in> mode_chars" "(if P then CHR ''w'' else CHR ''-'') \<in> mode_chars"
    "(if P then CHR ''x'' else CHR ''-'') \<in> mode_chars" for P
    by (simp_all add: mode_chars_def)
  show ?thesis unfolding mode_column_def bs vsprintf_ccc(1) [OF i(1,2) e] vsprintf_ccc(2) [OF i] by simp
qed

abbreviation plain_field :: field where
  "plain_field \<equiv> \<lparr>ljflg = False, fw = 0, pr = 0, prflg = False, pad = CHR '' ''\<rparr>"

definition pad_left :: "nat \<Rightarrow> string \<Rightarrow> string" where
  "pad_left n s = replicate (n - length s) (CHR '' '') @ s"

lemma justify_plain: "justify (plain_field\<lparr>fw := w\<rparr>) s = pad_left (unat w) s"
  by (simp add: justify_def pad_left_def)

lemma count_formats:
  "vsprintf ''%3u %u/%u '' [Num a, Num b, Num c] = Some (pad_left 3 (utoa a 10) @ '' '' @ utoa b 10 @ ''/'' @ utoa c 10 @ '' '')"
  "vsprintf ''%7u '' [Num a] = Some (pad_left 7 (utoa a 10) @ '' '')"
  "vsprintf ''%3u %u/%u         '' [Num a, Num b, Num c] =
    Some (pad_left 3 (utoa a 10) @ '' '' @ utoa b 10 @ ''/'' @ utoa c 10 @ ''         '')"
proof -
  let ?w3 = "Conv (plain_field\<lparr>fw := 3\<rparr>) (CHR ''u'')" and ?w7 = "Conv (plain_field\<lparr>fw := 7\<rparr>) (CHR ''u'')" and ?u = "Conv plain_field (CHR ''u'')"
  have f: "concat (map render [?w3, Plain '' '', ?u, Plain ''/'', ?u, Plain '' '']) = ''%3u %u/%u ''" "concat (map render [?w7, Plain '' '']) = ''%7u ''"
    "concat (map render [?w3, Plain '' '', ?u, Plain ''/'', ?u, Plain ''         '']) = ''%3u %u/%u         ''"
    by code_simp+
  have c: "convert_arg (CHR ''u'') (Num n # as) = Some (Some (utoa n 10), as)" for n as by (simp add: convert_arg_def)
  have p: "justify plain_field s = s" "justify (plain_field\<lparr>fw := 3\<rparr>) s = pad_left 3 s" "justify (plain_field\<lparr>fw := 7\<rparr>) s = pad_left 7 s" for s
    using justify_plain [of 0 s] justify_plain [of 3 s] justify_plain [of 7 s] by (simp_all add: pad_left_def)
  note p = p(1) p(2,3) [simplified]
  note r = vsprintf_render [of "[?w3, Plain '' '', ?u, Plain ''/'', ?u, Plain '' '']" "[Num a, Num b, Num c]", unfolded f]
    vsprintf_render [of "[?w7, Plain '' '']" "[Num a]", unfolded f]
    vsprintf_render [of "[?w3, Plain '' '', ?u, Plain ''/'', ?u, Plain ''         '']" "[Num a, Num b, Num c]", unfolded f]
  show "vsprintf ''%3u %u/%u '' [Num a, Num b, Num c] = Some (pad_left 3 (utoa a 10) @ '' '' @ utoa b 10 @ ''/'' @ utoa c 10 @ '' '')"
    "vsprintf ''%7u '' [Num a] = Some (pad_left 7 (utoa a 10) @ '' '')"
    "vsprintf ''%3u %u/%u         '' [Num a, Num b, Num c] =
      Some (pad_left 3 (utoa a 10) @ '' '' @ utoa b 10 @ ''/'' @ utoa c 10 @ ''         '')"
    by (simp_all add: r field_ok_def c p)
qed

lemma text_formats:
  assumes "length s < 32768" "length t < 32768"
  shows "vsprintf '' %-7.7s %-4.4s'' [Text s, Text t] =
      Some ('' '' @ take 7 s @ replicate (7 - length s) (CHR '' '') @ '' '' @ take 4 t @ replicate (4 - length t) (CHR '' ''))"
    "vsprintf '' %-12.12s'' [Text s] = Some ('' '' @ take 12 s @ replicate (12 - length s) (CHR '' ''))"
    "vsprintf ('' %s'' @ [CHR 0x0A]) [Text s] = Some ('' '' @ s @ [CHR 0x0A])"
proof -
  let ?f = "\<lambda>w. Conv \<lparr>ljflg = True, fw = w, pr = w, prflg = True, pad = CHR '' ''\<rparr> (CHR ''s'')" and ?s = "Conv plain_field (CHR ''s'')"
  have f: "concat (map render [Plain '' '', ?f 7, Plain '' '', ?f 4]) = '' %-7.7s %-4.4s''" "concat (map render [Plain '' '', ?f 12]) = '' %-12.12s''"
    "concat (map render [Plain '' '', ?s, Plain [CHR 0x0A]]) = '' %s'' @ [CHR 0x0A]"
    by code_simp+
  have c: "convert_arg (CHR ''s'') (Text x # as) = Some (Some x, as)" for x as by (simp add: convert_arg_def)
  note r = vsprintf_render [of "[Plain '' '', ?f 7, Plain '' '', ?f 4]" "[Text s, Text t]", unfolded f]
    vsprintf_render [of "[Plain '' '', ?f 12]" "[Text s]", unfolded f] vsprintf_render [of "[Plain '' '', ?s, Plain [CHR 0x0A]]" "[Text s]", unfolded f]
  have m: "replicate (n - min (length x) n) y = replicate (n - length x) y" for x :: string and n and y :: char by (cases "length x \<le> n") simp_all
  show "vsprintf '' %-7.7s %-4.4s'' [Text s, Text t] =
      Some ('' '' @ take 7 s @ replicate (7 - length s) (CHR '' '') @ '' '' @ take 4 t @ replicate (4 - length t) (CHR '' ''))"
    using assms r(1) by (auto simp: field_ok_def c justify_def m)
  show "vsprintf '' %-12.12s'' [Text s] = Some ('' '' @ take 12 s @ replicate (12 - length s) (CHR '' ''))"
    using assms r(2) by (auto simp: field_ok_def c justify_def m)
  show "vsprintf ('' %s'' @ [CHR 0x0A]) [Text s] = Some ('' '' @ s @ [CHR 0x0A])"
    using assms r(3) by (auto simp: field_ok_def c justify_def)
qed

lemma ctime_length: "ctime t = Some ct \<Longrightarrow> length ct = 25"
  by (auto simp: ctime_def asctime_def put3_def ct_numb_def Let_def split: bind_splits if_splits)

subsection \<open>The lines\<close>

definition base_name :: "string \<Rightarrow> string" where
  "base_name path = rev (takeWhile (\<lambda>c. c \<noteq> CHR ''/'') (rev path))"

lemma fmtname_text: "fmtname path = base_name path @ replicate (14 - length (base_name path)) (CHR '' '')"
  by (auto simp: fmtname_def base_name_def DIRSIZ_def Let_def)

text \<open>The three columns behind the mode.\<close>

definition counts_text :: "statb \<Rightarrow> string" where
  "counts_text s =
     (if s_flags s AND 0x6000 = 0x2000 \<or> s_flags s AND 0x6000 = 0x6000
      then pad_left 3 (utoa (scast (s_nlinks s)) 10) @ '' '' @ utoa (signed_drop_bit 8 (s_addr0 s)) 10 @ ''/'' @ utoa (s_addr0 s AND 0xFF) 10 @ ''         ''
      else pad_left 3 (utoa (scast (s_nlinks s)) 10) @ '' '' @ utoa (scast (s_gid s)) 10 @ ''/'' @ utoa (scast (s_uid s)) 10 @ '' '' @
        pad_left 7 (utoa (s_size1 s) 10) @ '' '')"

definition date_text :: "bool \<Rightarrow> string \<Rightarrow> string" where
  "date_text old ct = '' '' @ (if old then take 7 (drop 4 ct) @ '' '' @ take 4 (drop 20 ct) else take 12 (drop 4 ct))"

lemma count_column_text: "count_column s = Some (counts_text s)"
  by (simp add: count_column_def counts_text_def count_formats)

lemma date_column_text: "ctime t = Some ct \<Longrightarrow> date_column year t = Some (date_text (fst t < year) ct)"
  using ctime_length [of t ct] text_formats(1) [of "drop 4 ct" "drop 20 ct"] text_formats(2) [of "drop 4 ct" "[]"]
  by (simp add: date_column_def date_text_def)

lemma counts_text_length: "length (counts_text s) \<le> 26"
  using length_utoa_10 [of "scast (s_nlinks s)"] length_utoa_10 [of "signed_drop_bit 8 (s_addr0 s)"] length_utoa_10 [of "s_addr0 s AND 0xFF"]
    length_utoa_10 [of "scast (s_gid s)"] length_utoa_10 [of "scast (s_uid s)"] length_utoa_10 [of "s_size1 s"]
  by (auto simp: counts_text_def pad_left_def)

lemma date_text_length: "length (date_text old ct) \<le> 13"
  by (simp add: date_text_def min_def)

text \<open>The line of a file: the mode, the number of links, the owner or the device, the size, the date and the last component of the path filled up to 14
  characters. For every file whose last component has at most 14 characters it fits into the buffer of 80 characters, whatever the counts are.\<close>

theorem lsfile_line:
  assumes "st path = Some s" "ctime (s_modtime s) = Some ct" "length (base_name path) \<le> 14"
  shows "\<exists>m. mode_column (s_flags s) = Some m \<and> length m = 11 \<and>
    lsfile st year path = Some (m @ counts_text s @ date_text (fst (s_modtime s) < year) ct @ '' '' @
      base_name path @ replicate (14 - length (base_name path)) (CHR '' '') @ [CHR 0x0A]) \<and>
    length (m @ counts_text s @ date_text (fst (s_modtime s) < year) ct @ '' '' @
      base_name path @ replicate (14 - length (base_name path)) (CHR '' '') @ [CHR 0x0A]) < 80"
proof -
  obtain m where m: "mode_column (s_flags s) = Some m" "length m = 11" using mode_column_text [of "s_flags s"] by simp
  have n: "vsprintf ('' %s'' @ [CHR 0x0A]) [Text (fmtname path)] = Some ('' '' @ fmtname path @ [CHR 0x0A])"
    using text_formats(3) [of "fmtname path" "[]"] assms(3) by (simp add: fmtname_text)
  have l: "length (m @ counts_text s @ date_text (fst (s_modtime s) < year) ct @ '' '' @ fmtname path @ [CHR 0x0A]) < 80"
    using m(2) counts_text_length [of s] date_text_length [of "fst (s_modtime s) < year" ct] assms(3) by (simp add: fmtname_text)
  show ?thesis using m l assms(1) n
    by (intro exI [of _ m]) (simp add: lsfile_def count_column_text date_column_text [OF assms(2)] Let_def fmtname_text)
qed

theorem lsfile_line_witness:
  "lsfile (\<lambda>_. Some \<lparr>s_dev = 0, s_inumber = 9, s_flags = 0x81A4, s_nlinks = 1, s_uid = 3, s_gid = 3, s_size0 = 0, s_size1 = 512, s_addr0 = 40, s_modtime = (0, 0)\<rparr>)
     0 ''usr/wc.c'' = Some (''-rw-r--r--   1 3/3     512  Jan  1 00:00 wc.c          '' @ [CHR 0x0A])"
proof -
  let ?s = "\<lparr>s_dev = 0, s_inumber = 9, s_flags = 0x81A4, s_nlinks = 1, s_uid = 3, s_gid = 3, s_size0 = 0, s_size1 = 512, s_addr0 = 40, s_modtime = (0, 0)\<rparr>"
  have c: "ctime (0, 0) = Some (''Thu Jan  1 00:00:00 1970'' @ [CHR 0x0A])" by code_simp
  have m: "mode_column 0x81A4 = Some ''-rw-r--r-- ''" by code_simp
  have t: "counts_text ?s = ''  1 3/3     512 ''" "date_text False (''Thu Jan  1 00:00:00 1970'' @ [CHR 0x0A]) = '' Jan  1 00:00''"
    "base_name ''usr/wc.c'' = ''wc.c''"
    by code_simp+
  show ?thesis using lsfile_line [of "\<lambda>_. Some ?s" "''usr/wc.c''" ?s _ 0] c m t by (simp add: numeral_eq_Suc)
qed

text \<open>The mode column tells modes apart by the type, the permissions, and the set-user and set-group bits of what is executable.\<close>

lemma type_char_eq: "type_char m = type_char n \<longleftrightarrow> (bit m 13 \<longleftrightarrow> bit n 13) \<and> (bit m 14 \<longleftrightarrow> bit n 14)"
proof -
  have "w AND 0x6000 = (if bit w 13 then 0x2000 else 0) OR (if bit w 14 then 0x4000 else 0)" for w :: u16
  proof -
    have "w AND 0x6000 = (w AND push_bit 13 1) OR (w AND push_bit 14 1)" by (simp flip: bit.conj_disj_distrib)
    also have "w AND push_bit 13 1 = (if bit w 13 then push_bit 13 1 else 0)" by (rule bit_word_eqI) (auto simp: bit_simps simp del: push_bit_of_1 push_bit_numeral)
    also have "w AND push_bit 14 1 = (if bit w 14 then push_bit 14 1 else 0)" by (rule bit_word_eqI) (auto simp: bit_simps simp del: push_bit_of_1 push_bit_numeral)
    finally show ?thesis by simp
  qed
  then show ?thesis by (simp add: type_char_def)
qed

lemma exec_char_eq: "exec_char m (push_bit i 1) (push_bit j 1) = exec_char n (push_bit i 1) (push_bit j 1) \<longleftrightarrow>
  (bit m i \<longleftrightarrow> bit n i) \<and> (bit m i \<longrightarrow> (bit m j \<longleftrightarrow> bit n j))"
proof -
  have b: "w AND push_bit k 1 \<noteq> 0 \<longleftrightarrow> bit w k" for w :: u16 and k by (simp add: bit_iff_and_push_bit_not_eq_0)
  show ?thesis unfolding exec_char_def b by auto
qed

theorem mode_column_faithful:
  "mode_column m = mode_column n \<longleftrightarrow>
     (\<forall>i \<in> set [0, 1, 2, 3, 4, 5, 6, 7, 8, 13, 14]. bit m i = bit n i) \<and> (bit m 6 \<longrightarrow> bit m 11 = bit n 11) \<and> (bit m 3 \<longrightarrow> bit m 10 = bit n 10)"
  using exec_char_eq [of m 6 11 n] exec_char_eq [of m 3 10 n]
  by (simp add: mode_column_text type_char_eq del: bit_0 bit_Suc) blast

end
