(* ===== verification/Ps.thy ===== *)
theory Ps
  imports Ls Sys1 Sys2 Files
begin

unbundle bit_operations_syntax

text \<open>
  \<open>usr/ps.c\<close>: the table of processes and their command lines, which \<open>ps\<close> reads from the memory of the processes through \<open>/dev/mem\<close>, or from the
  swap area.  \<open>rd\<close> stands for a read of either file: it takes whether the file is \<open>/dev/mem\<close>, the offset and the number of bytes.  The offsets of the two
  seeks are those of the kernel (\<open>seek_to\<close>).
\<close>

definition readproc :: "(bool \<Rightarrow> dword \<Rightarrow> nat \<Rightarrow> u8 list) \<Rightarrow> proc \<Rightarrow> u16 \<Rightarrow> nat \<Rightarrow> u8 list option" where
  "readproc rd p addr len =
     (let (mf, base_block) = (if p_flag p AND SLOAD \<noteq> 0 then (True, p_addr p * 8) else (False, p_addr p));
          blk_off = drop_bit 9 addr AND 0x7F;
          byte_off = addr AND 0x1FF;
          off = seek_to (base_block + blk_off) 3 (0, 0) (0, 0);
          off = seek_to byte_off 1 off (0, 0);
          result = rd mf off len
      in if length result \<noteq> len then None else Some result)"

definition readword :: "(bool \<Rightarrow> dword \<Rightarrow> nat \<Rightarrow> u8 list) \<Rightarrow> proc \<Rightarrow> u16 \<Rightarrow> u16 option" where
  "readword rd p addr = map_option (\<lambda>bs. ucast (bs ! 0) OR push_bit 8 (ucast (bs ! 1))) (readproc rd p addr 2)"

text \<open>The characters of a buffer up to its first NUL.\<close>

definition cstring :: "u8 list \<Rightarrow> string" where
  "cstring bs = map (\<lambda>b. char_of (unat b)) (takeWhile (\<lambda>b. b \<noteq> 0) bs)"

text \<open>The loop over the arguments from the \<open>j\<close>th on, for at most \<open>n\<close> more.\<close>

fun prcom_args :: "(bool \<Rightarrow> dword \<Rightarrow> nat \<Rightarrow> u8 list) \<Rightarrow> proc \<Rightarrow> u16 \<Rightarrow> u16 \<Rightarrow> nat \<Rightarrow> nat \<Rightarrow> string" where
  "prcom_args rd p argc argv j 0 = []"
| "prcom_args rd p argc argv j (Suc n) =
     (if int j < sint argc then
        case readword rd p (argv + of_nat j * 2) of
          None \<Rightarrow> []
        | Some argvi \<Rightarrow>
            (case readproc rd p argvi 16 of
               None \<Rightarrow> []
             | Some argbuf \<Rightarrow>
                 cstring argbuf @ (if int j < sint argc - 1 then '' '' else []) @ prcom_args rd p argc argv (j + 1) n)
      else [])"

definition prcom :: "(bool \<Rightarrow> dword \<Rightarrow> nat \<Rightarrow> u8 list) \<Rightarrow> int \<Rightarrow> proc \<Rightarrow> string" where
  "prcom rd swp p =
     (if p_pid p = 0 then '' swapper''
      else if p_pid p = 1 then '' init''
      else if p_flag p AND SLOAD = 0 \<and> swp < 0 then '' ???''
      else case readword rd p (USTACK - 2) of
        None \<Rightarrow> []
      | Some sp \<Rightarrow>
          (case readword rd p sp of
             None \<Rightarrow> []
           | Some argc \<Rightarrow>
               (case readword rd p (sp + 2) of
                  None \<Rightarrow> []
                | Some argv \<Rightarrow> '' '' @ prcom_args rd p argc argv 0 8)))"

text \<open>The line of a process; \<open>wchan\<close> is the address that it waits for.\<close>

definition stat_chars :: string where
  "stat_chars = ''0SWRIZT'' @ [CHR 0x00]"

definition ps_line :: "(bool \<Rightarrow> dword \<Rightarrow> nat \<Rightarrow> u8 list) \<Rightarrow> int \<Rightarrow> u16 \<Rightarrow> proc \<Rightarrow> string option" where
  "ps_line rd swp wchan p =
     (if p_stat p = 0 then Some []
      else if sint (p_stat p) < 0 \<or> 7 < sint (p_stat p) then None
      else do {
        let puid = ucast (p_uid p) AND 0xFF;
        a \<leftarrow> fprintf ''%2x %c%4d'' [arg.Num (scast (p_flag p)), chr_arg (stat_chars ! unat (p_stat p)), arg.Num puid];
        b \<leftarrow> fprintf ''%6u'' [arg.Num (p_pid p)];
        c \<leftarrow> fprintf ''%6d%5x'' [arg.Num (scast (p_pri p)), arg.Num (p_addr p)];
        d \<leftarrow> (if wchan \<noteq> 0 then fprintf ''%7x'' [arg.Num wchan] else fprintf ''       '' []);
        Some (a @ b @ c @ d @ (if p_stat p = 5 then '' <defunct>'' else prcom rd swp p) @ [CHR 0x0A]) })"

text \<open>The search for the swap device among the entries of \<open>/dev\<close>; \<open>op\<close> opens a file.\<close>

definition getdev_step :: "(string \<Rightarrow> statb option) \<Rightarrow> (string \<Rightarrow> int) \<Rightarrow> u16 \<Rightarrow> u16 \<times> string \<Rightarrow> int \<Rightarrow> int" where
  "getdev_step st op swap_dev_num e swp =
     (if fst e = 0 then swp
      else if 0 \<le> swp then swp
      else case st (snd e) of
        None \<Rightarrow> swp
      | Some s \<Rightarrow>
          if s_flags s AND 0x6000 \<noteq> 0x6000 then swp
          else if s_addr0 s = swap_dev_num then op (snd e) else swp)"

definition getdev :: "(string \<Rightarrow> statb option) \<Rightarrow> (string \<Rightarrow> int) \<Rightarrow> u16 \<Rightarrow> (u16 \<times> string) list \<Rightarrow> string + int" where
  "getdev st op swap_dev_num es =
     (let swp = fold (getdev_step st op swap_dev_num) es (- 1)
      in if swp < 0 then Inl (''no swap device'' @ [CHR 0x0A]) else Inr swp)"

subsection \<open>The memory of a process\<close>

text \<open>What the memory device delivers from an offset on.\<close>

definition memdev :: "'a kproc_scheme \<Rightarrow> dword \<Rightarrow> nat \<Rightarrow> u8 list" where
  "memdev k off len = map (\<lambda>i. mem k (mm_addr (upd_u (\<lambda>w. w\<lparr>u_offset := dpadd off (of_nat i)\<rparr>) k))) [0..<len]"

lemma lshift_para: "dpval x < 1048576 \<Longrightarrow> unat (lshift x (-4)) = dpval x div 16"
proof -
  assume a: "dpval x < 1048576"
  let ?w = "signed_drop_bit 4 (dp x)"
  have "sint ?w = drop_bit 4 (sint (dp x))" by (simp add: sint_signed_drop_bit_eq)
  then have s: "sint ?w = int (dpval x div 16)" using a by (simp add: sint_dp drop_bit_eq_div zdiv_int)
  have "uint ?w = take_bit 32 (sint ?w)" by (simp add: uint_sint)
  also have "\<dots> = int (dpval x div 16)" using a by (simp add: s take_bit_int_eq_self)
  finally have u: "unat ?w = dpval x div 16" by (metis nat_int nat_uint_eq)
  have "unat (ucast ?w :: u16) = dpval x div 16" using a by (simp add: unat_ucast_32_16 u less_mult_imp_div_less)
  then show ?thesis by (simp add: lshift_def)
qed

lemma mm_addr_linear: "dpval off < 1048576 \<Longrightarrow> mm_addr (upd_u (\<lambda>w. w\<lparr>u_offset := off\<rparr>) k) = dpval off"
proof -
  assume a: "dpval off < 1048576"
  have "snd off AND 0xF = take_bit 4 (snd off)" by (simp add: take_bit_eq_mask mask_eq_exp_minus_1)
  then have "unat (snd off AND 0xF) = unat (snd off) mod 16" by (simp add: unsigned_take_bit_eq take_bit_nat_def)
  moreover have "unat (snd off) mod 16 = dpval off mod 16"
  proof -
    have "dpval off = 16 * (unat (fst off) * 4096) + unat (snd off)" by (simp add: dpval_def)
    then show ?thesis by (metis mod_mult_self2 add.commute)
  qed
  ultimately show ?thesis using lshift_para [OF a] a by (simp add: mm_addr_def linear_def)
qed

lemma seek_block: "dpval (seek_to a 3 off sz) = unat a * 512"
proof -
  have "signed_drop_bit 7 a AND 0x1FF = drop_bit 7 a"
  proof (rule bit_word_eqI)
    fix n assume "n < LENGTH(16)"
    have m: "signed_drop_bit 7 a AND 0x1FF = take_bit 9 (signed_drop_bit 7 a)" by (simp add: take_bit_eq_mask mask_eq_exp_minus_1)
    have "bit a (7 + n) \<Longrightarrow> n < 9" using bit_imp_le_length [of a "7 + n"] by simp
    then show "bit (signed_drop_bit 7 a AND 0x1FF) n = bit (drop_bit 7 a) n"
      using \<open>n < LENGTH(16)\<close> unfolding m by (auto simp: bit_simps min_def)
  qed
  then have s: "seek_to a 3 off sz = (drop_bit 7 a, push_bit 9 a)" by (simp add: seek_to_def Let_def)
  have d: "unat (drop_bit 7 a) = unat a div 128" using unat16_bound [of a] by (simp only: unsigned_drop_bit_eq) (simp add: drop_bit_eq_div take_bit_eq_mod)
  have p: "unat (push_bit 9 a) = (unat a * 512) mod 65536" by (simp only: unsigned_push_bit_eq) (simp add: push_bit_eq_mult take_bit_eq_mod mult.commute)
  have "unat a * 512 = (unat a div 128) * 65536 + (unat a * 512) mod 65536"
    using div_mult_mod_eq [of "unat a * 512" 65536] by simp
  then show ?thesis by (simp only: s dpval_def fst_conv snd_conv d p)
qed

lemma seek_rel: "unat a < 32768 \<Longrightarrow> dpval (seek_to a 1 off sz) = (dpval off + unat a) mod 4294967296"
proof -
  assume "unat a < 32768"
  then have "0 \<le> sint a" using sint16_small [of a] by simp
  then have "seek_to a 1 off sz = dpadd (fst off, a) (snd off)" by (simp add: seek_to_def)
  then show ?thesis by (simp add: dpadd_val) (simp add: dpval_def ac_simps)
qed

text \<open>The two seeks and the memory device find the bytes of a process in core.\<close>

lemma readproc_mem:
  assumes "p_flag p AND SLOAD \<noteq> 0" "unat (p_addr p) \<le> 240" "unat addr + len \<le> 65536"
  shows "readproc (\<lambda>_. memdev k) p addr len = Some (map (\<lambda>i. mem k (linear (page_seg (p_addr p)) (addr + of_nat i))) [0..<len])"
proof -
  have "drop_bit 9 addr AND 0x7F = take_bit 7 (drop_bit 9 addr)" "addr AND 0x1FF = take_bit 9 addr"
    by (simp_all add: take_bit_eq_mask mask_eq_exp_minus_1)
  then have b: "unat (drop_bit 9 addr AND 0x7F) = unat addr div 512" "unat (addr AND 0x1FF) = unat addr mod 512"
    using unat16_bound [of addr] by (simp_all only: unsigned_take_bit_eq unsigned_drop_bit_eq) (simp_all add: drop_bit_eq_div take_bit_eq_mod less_mult_imp_div_less)
  let ?o = "seek_to (p_addr p * 8 + (drop_bit 9 addr AND 0x7F)) 3 (0, 0) (0, 0)"
  let ?off = "seek_to (addr AND 0x1FF) 1 ?o (0, 0)"
  have "unat (p_addr p * 8 + (drop_bit 9 addr AND 0x7F)) = unat (p_addr p) * 8 + unat addr div 512"
    using assms(2) b(1) unat16_bound [of addr] by (simp add: unat_word_ariths)
  then have "dpval ?o = unat (p_addr p) * 4096 + unat addr div 512 * 512" by (simp add: seek_block)
  moreover have "dpval ?off = (dpval ?o + unat addr mod 512) mod 4294967296" using b(2) by (subst seek_rel) simp_all
  ultimately have off: "dpval ?off = unat (p_addr p) * 4096 + unat addr"
    using assms(2) unat16_bound [of addr] div_mult_mod_eq [of "unat addr" 512] by simp
  have "mm_addr (upd_u (\<lambda>w. w\<lparr>u_offset := dpadd ?off (of_nat i)\<rparr>) k) = linear (page_seg (p_addr p)) (addr + of_nat i)" if "i < len" for i
  proof -
    have i: "unat addr + i < 65536" using that assms(3) by simp
    then have "dpval (dpadd ?off (of_nat i)) = unat (p_addr p) * 4096 + (unat addr + i)" using off assms(2) by (simp add: dpadd_val unat_of_nat)
    moreover have "unat (addr + of_nat i) = unat addr + i" using i by (simp add: unat_word_ariths unat_of_nat)
    moreover have "unat (page_seg (p_addr p)) = unat (p_addr p) * 256" using assms(2) by (simp add: page_seg_def unat_word_ariths)
    ultimately show ?thesis using i assms(2) by (simp add: mm_addr_linear linear_def)
  qed
  then have "memdev k ?off len = map (\<lambda>i. mem k (linear (page_seg (p_addr p)) (addr + of_nat i))) [0..<len]"
    by (simp add: memdev_def)
  then show ?thesis using assms(1) by (simp add: readproc_def Let_def)
qed

text \<open>For the running process these are the bytes and words that the kernel fetches for it.\<close>

lemma readword_fuword:
  assumes "p_flag (curproc k) AND SLOAD \<noteq> 0" "unat (p_addr (curproc k)) \<le> 240" "unat addr \<le> 65534"
  shows "readword (\<lambda>_. memdev k) (curproc k) addr = Some (fuword addr k)"
  using readproc_mem [OF assms(1,2), of addr 2 k] assms(3) by (simp add: readword_def fuword_def rdword_def proc_dseg_def upt_rec)

lemma readproc_fubyte:
  assumes "p_flag (curproc k) AND SLOAD \<noteq> 0" "unat (p_addr (curproc k)) \<le> 240" "unat addr + len \<le> 65536"
  shows "readproc (\<lambda>_. memdev k) (curproc k) addr len = Some (map (\<lambda>i. fubyte (addr + of_nat i) k) [0..<len])"
  using readproc_mem [OF assms, of k] by (simp add: fubyte_def proc_dseg_def)

subsection \<open>The stack that \<open>exec\<close> builds\<close>

lemma suword_subytes: "suword a v k = subyte (a + 1) (ucast (drop_bit 8 v)) (subyte a (ucast v) k)"
  by (simp add: suword_def wrword_def subyte_def proc_dseg_def)

lemma fuword_fubytes: "fuword a k = ucast (fubyte a k) OR push_bit 8 (ucast (fubyte (a + 1) k))"
  by (simp add: fuword_def rdword_def fubyte_def)

text \<open>Bytes stored one behind the other.\<close>

primrec store :: "u16 \<Rightarrow> u8 list \<Rightarrow> 'a kproc_scheme \<Rightarrow> 'a kproc_scheme" where
  "store c [] k = k"
| "store c (b # bs) k = store (c + 1) bs (subyte c b k)"

lemma store_keeps [simp]: "u (store c bs k) = u k" "proc (store c bs k) = proc k"
  by (induction bs arbitrary: c k) simp_all

lemma store_buffers [simp]: "buffers (store c bs k) = buffers k"
  by (induction bs arbitrary: c k) simp_all

text \<open>\<open>lies x c n\<close>: the address \<open>x\<close> is one of the \<open>n\<close> from \<open>c\<close> on.\<close>

definition lies :: "u16 \<Rightarrow> u16 \<Rightarrow> nat \<Rightarrow> bool" where
  "lies x c n \<longleftrightarrow> unat c \<le> unat x \<and> unat x < unat c + n"

lemma unat_succ: "unat c < 65535 \<Longrightarrow> unat (c + 1) = unat c + 1" for c :: u16
  by (simp add: unat_word_ariths)

lemma fubyte_store:
  "unat c + length bs \<le> 65536 \<Longrightarrow> fubyte x (store c bs k) = (if lies x c (length bs) then bs ! (unat x - unat c) else fubyte x k)"
proof (induction bs arbitrary: c k)
  case (Cons b bs)
  show ?case
  proof (cases "bs = []")
    case True
    then show ?thesis by (auto simp: fubyte_subyte lies_def word_unat_eq_iff)
  next
    case False
    then have c: "unat c < 65535" using Cons.prems by (cases bs) auto
    have "fubyte x (store (c + 1) bs (subyte c b k)) =
        (if lies x (c + 1) (length bs) then bs ! (unat x - unat (c + 1)) else fubyte x (subyte c b k))"
      using Cons.prems unat_succ [OF c] by (intro Cons.IH) simp
    then show ?thesis using unat_succ [OF c] by (auto simp: fubyte_subyte lies_def word_unat_eq_iff nth_Cons')
  qed
qed (auto simp: lies_def)

lemma store_mem: "mem k1 = mem k2 \<Longrightarrow> proc_dseg k1 = proc_dseg k2 \<Longrightarrow> mem (store c bs k1) = mem (store c bs k2)"
  by (induction bs arbitrary: c k1 k2) (simp_all add: subyte_def proc_dseg_def)

subsection \<open>The memory device\<close>

text \<open>\<open>memdev\<close> is what a read through \<open>mmread\<close> stores in the memory of the reader: as long as the bytes it stores are not among those it still has to
  read, they are the bytes of \<open>memdev\<close>, from \<open>u_base\<close> on, and the count ends at 0.\<close>

lemma mm_addr_upd: "mm_addr (upd_u (\<lambda>w. w\<lparr>u_offset := off\<rparr>) k) = linear (lshift off (-4)) (snd off AND 0xF)"
  by (simp add: mm_addr_def)

lemma memdev_alt: "memdev k off len = map (\<lambda>i. mem k (linear (lshift (dpadd off (of_nat i)) (-4)) (snd (dpadd off (of_nat i)) AND 0xF))) [0..<len]"
  by (simp add: memdev_def mm_addr_upd)

lemma inc_dpadd: "(if snd x + 1 = 0 then fst x + 1 else fst x, snd x + 1) = dpadd x 1"
  by (simp only: dpval_inject [symmetric] dpval_inc dpadd_val) simp

lemma dpadd_0 [simp]: "dpadd x 0 = x"
  by (simp add: dpadd_def Let_def dpval_split unat_dp flip: dpval_inject)

lemma dpadd_Suc: "i < 65535 \<Longrightarrow> dpadd (dpadd x 1) (of_nat i) = dpadd x (of_nat (Suc i))"
  by (simp add: dpval_inject [symmetric] dpadd_val unat_of_nat mod_simps del: of_nat_Suc)

lemma mmread_stores:
  assumes "u_error (u k) = 0" "\<not> u_segflg (u k)" "u_base (u k) = UAddr a" "u_count (u k) = of_nat (Suc n)" "n < 65535"
    and "\<forall>i \<le> n. \<forall>j \<le> n. i < j \<longrightarrow> linear (proc_dseg k) (a + of_nat i) \<noteq>
      linear (lshift (dpadd (u_offset (u k)) (of_nat j)) (-4)) (snd (dpadd (u_offset (u k)) (of_nat j)) AND 0xF)"
  shows "\<exists>k'. mmread_loop k = Some k' \<and> u_count (u k') = 0 \<and> mem k' = mem (store a (memdev k (u_offset (u k)) (Suc n)) k)"
  using assms
proof (induction n arbitrary: k a)
  case 0
  then show ?case
    by (subst mmread_loop.simps) (simp add: passc_def uput_def Let_def u_step_def upd_u_def memdev_alt mm_addr_def subyte_def)
next
  case (Suc n)
  let ?off = "u_offset (u k)"
  define k1 where "k1 = u_step (subyte a (mem k (mm_addr k)) k)"
  have k1: "u_error (u k1) = 0" "\<not> u_segflg (u k1)" "u_base (u k1) = UAddr (a + 1)" "u_count (u k1) = of_nat (Suc n)" "u_offset (u k1) = dpadd ?off 1"
      "proc_dseg k1 = proc_dseg k" "mem k1 = mem (subyte a (mem k (mm_addr k)) k)"
    using Suc.prems(1-4) by (simp_all add: k1_def u_step_def upd_u_def inc_dpadd proc_dseg_def)
  have c: "(of_nat (Suc n) :: u16) \<noteq> 0" using Suc.prems(5) by (simp add: word_unat_eq_iff unat_of_nat del: of_nat_Suc)
  have ap: "\<forall>i \<le> n. \<forall>j \<le> n. i < j \<longrightarrow> linear (proc_dseg k1) (a + 1 + of_nat i) \<noteq>
      linear (lshift (dpadd (u_offset (u k1)) (of_nat j)) (-4)) (snd (dpadd (u_offset (u k1)) (of_nat j)) AND 0xF)"
  proof (intro allI impI)
    fix i j assume ij: "i \<le> n" "j \<le> n" "i < j"
    have "linear (proc_dseg k) (a + of_nat (Suc i)) \<noteq> linear (lshift (dpadd ?off (of_nat (Suc j))) (-4)) (snd (dpadd ?off (of_nat (Suc j))) AND 0xF)"
      using Suc.prems(6) ij by blast
    moreover have "a + of_nat (Suc i) = a + 1 + of_nat i" by (simp add: ac_simps)
    ultimately show "linear (proc_dseg k1) (a + 1 + of_nat i) \<noteq>
      linear (lshift (dpadd (u_offset (u k1)) (of_nat j)) (-4)) (snd (dpadd (u_offset (u k1)) (of_nat j)) AND 0xF)"
      using dpadd_Suc [of j ?off] ij Suc.prems(5) by (simp only: k1) simp
  qed
  have n: "n < 65535" using Suc.prems(5) by simp
  obtain k' where k': "mmread_loop k1 = Some k'" "u_count (u k') = 0" "mem k' = mem (store (a + 1) (memdev k1 (dpadd ?off 1) (Suc n)) k1)"
    using Suc.IH [OF k1(1-4) n ap] k1(5) by auto
  have "memdev k1 (dpadd ?off 1) (Suc n) = map (\<lambda>i. mem k (linear (lshift (dpadd ?off (of_nat (Suc i))) (-4)) (snd (dpadd ?off (of_nat (Suc i))) AND 0xF))) [0..<Suc n]"
    unfolding memdev_alt
  proof (intro map_cong refl)
    fix i assume "i \<in> set [0..<Suc n]"
    then have i: "i \<le> n" by auto
    have "linear (proc_dseg k) (a + of_nat 0) \<noteq> linear (lshift (dpadd ?off (of_nat (Suc i))) (-4)) (snd (dpadd ?off (of_nat (Suc i))) AND 0xF)"
      using Suc.prems(6) i by blast
    then show "mem k1 (linear (lshift (dpadd (dpadd ?off 1) (of_nat i)) (-4)) (snd (dpadd (dpadd ?off 1) (of_nat i)) AND 0xF)) =
        mem k (linear (lshift (dpadd ?off (of_nat (Suc i))) (-4)) (snd (dpadd ?off (of_nat (Suc i))) AND 0xF))"
      using i n by (simp add: k1(7) dpadd_Suc subyte_def del: of_nat_Suc)
  qed
  then have m: "memdev k ?off (Suc (Suc n)) = mem k (mm_addr k) # memdev k1 (dpadd ?off 1) (Suc n)"
    by (simp add: memdev_alt mm_addr_def upt_conv_Cons map_Suc_upt [symmetric] del: upt_Suc of_nat_Suc)
  have "mem (store (a + 1) bs k1) = mem (store (a + 1) bs (subyte a (mem k (mm_addr k)) k))" for bs
    by (rule store_mem) (use k1(6,7) in \<open>simp_all add: proc_dseg_def\<close>)
  moreover have "mmread_loop k = mmread_loop k1"
    using Suc.prems(1-3) k1(4) c by (subst mmread_loop.simps) (simp add: passc_def uput_def Let_def k1_def [symmetric] del: of_nat_Suc)
  ultimately show ?case using k' m by simp
qed

text \<open>The buffer holds bytes from an index on.\<close>

definition inbuf :: "'a kbio_scheme \<Rightarrow> nat \<Rightarrow> u8 list \<Rightarrow> bool" where
  "inbuf k cp bs \<longleftrightarrow> (\<forall>i < length bs. buffers k (cp + i) = bs ! i)"

lemma inbuf_simps: "inbuf k cp (b # bs) \<longleftrightarrow> buffers k cp = b \<and> inbuf k (cp + 1) bs"
  "inbuf k cp (as @ bs) \<longleftrightarrow> inbuf k cp as \<and> inbuf k (cp + length as) bs"
proof -
  show "inbuf k cp (b # bs) \<longleftrightarrow> buffers k cp = b \<and> inbuf k (cp + 1) bs" by (auto simp: inbuf_def nth_Cons All_less_Suc2 split: nat.splits)
  show "inbuf k cp (as @ bs) \<longleftrightarrow> inbuf k cp as \<and> inbuf k (cp + length as) bs"
  proof (induction as arbitrary: cp)
    case (Cons a as)
    have "inbuf k cp (x # xs) \<longleftrightarrow> buffers k cp = x \<and> inbuf k (cp + 1) xs" for x xs cp by (auto simp: inbuf_def nth_Cons All_less_Suc2 split: nat.splits)
    then show ?case using Cons by simp
  qed (simp add: inbuf_def)
qed

lemma inbuf_keeps: "buffers k' = buffers k \<Longrightarrow> inbuf k' cp bs = inbuf k cp bs"
  by (simp add: inbuf_def)

lemma inbuf_subyte [simp]: "inbuf (subyte c a k) cp bs = inbuf k cp bs"
  by (rule inbuf_keeps) simp

lemma put_string_store:
  "inbuf k cp (s @ [0]) \<Longrightarrow> 0 \<notin> set s \<Longrightarrow>
   put_string cp c k = Some (cp + length s + 1, c + of_nat (length s) + 1, store c (s @ [0]) k)"
proof (induction s arbitrary: cp c k)
  case Nil
  then show ?case by (subst put_string.simps) (simp add: inbuf_simps Let_def)
next
  case (Cons a s)
  then have a: "buffers k cp = a" "a \<noteq> 0" "inbuf (subyte c a k) (cp + 1) (s @ [0])" by (auto simp: inbuf_simps inbuf_subyte)
  have "put_string cp c k = put_string (cp + 1) (c + 1) (subyte c a k)" by (subst put_string.simps) (simp add: Let_def a)
  also have "\<dots> = Some (cp + 1 + length s + 1, c + 1 + of_nat (length s) + 1, store (c + 1) (s @ [0]) (subyte c a k))"
    by (rule Cons.IH [OF a(3)]) (use Cons.prems(2) in simp)
  finally show ?case by (simp add: add.assoc add.left_commute)
qed

text \<open>The argument strings, one after the other, and the addresses of strings that lie from \<open>c\<close> on.\<close>

definition flat :: "u8 list list \<Rightarrow> u8 list" where
  "flat args = concat (map (\<lambda>a. a @ [0]) args)"

fun arg_ptrs :: "u16 \<Rightarrow> u8 list list \<Rightarrow> u8 list" where
  "arg_ptrs c [] = []"
| "arg_ptrs c (a # as) = ucast c # ucast (drop_bit 8 c) # arg_ptrs (c + of_nat (length a) + 1) as"

lemma flat_simps: "flat [] = []" "flat (a # as) = a @ 0 # flat as"
  by (simp_all add: flat_def)

lemma length_arg_ptrs [simp]: "length (arg_ptrs c as) = 2 * length as"
  by (induction c as rule: arg_ptrs.induct) simp_all

lemma put_argv_bytes:
  "inbuf k cp (flat args) \<Longrightarrow> \<forall>a \<in> set args. 0 \<notin> set a \<Longrightarrow> unat ap + 2 * length args \<le> unat c \<Longrightarrow>
   unat c + length (flat args) < 65536 \<Longrightarrow>
   \<exists>k'. put_argv (length args) ap cp c k = Some k' \<and> u k' = u k \<and> proc k' = proc k \<and>
     (\<forall>x. fubyte x k' = (if lies x c (length (flat args)) then flat args ! (unat x - unat c)
        else if lies x ap (2 * length args) then arg_ptrs c args ! (unat x - unat ap) else fubyte x k))"
proof (induction args arbitrary: k cp ap c)
  case Nil
  then show ?case by (auto simp: flat_simps lies_def)
next
  case (Cons a args)
  let ?c = "c + of_nat (length a) + 1" and ?k1 = "suword ap c k" and ?l = "length (flat args)"
  let ?k2 = "store c (a @ [0]) ?k1"
  have cb: "unat c + length a + 1 + ?l < 65536" using Cons.prems(4) by (simp add: flat_simps)
  then have uc: "unat ?c = unat c + length a + 1" by (simp add: unat_word_ariths unat_of_nat)
  have ua: "unat (ap + 2) = unat ap + 2" "unat (ap + 1) = unat ap + 1" using Cons.prems(3) cb by (simp_all add: unat_word_ariths)
  have sb: "buffers ?k1 = buffers k" by (simp add: suword_subytes)
  have ib: "inbuf ?k1 cp (a @ [0])" "inbuf ?k2 (cp + length a + 1) (flat args)"
    using Cons.prems(1) sb inbuf_keeps [of ?k1 k] inbuf_keeps [of ?k2 k]
    by (simp_all add: flat_simps inbuf_simps inbuf_def [of _ _ "[]"] ac_simps)
  have p: "put_string cp c ?k1 = Some (cp + length a + 1, ?c, ?k2)"
    using put_string_store [OF ib(1), of c] Cons.prems(2) by simp
  obtain k' where k': "put_argv (length args) (ap + 2) (cp + length a + 1) ?c ?k2 = Some k'" "u k' = u ?k2" "proc k' = proc ?k2"
      "\<And>x. fubyte x k' = (if lies x ?c ?l then flat args ! (unat x - unat ?c)
        else if lies x (ap + 2) (2 * length args) then arg_ptrs ?c args ! (unat x - unat (ap + 2)) else fubyte x ?k2)"
    using Cons.IH [OF ib(2), of "ap + 2" ?c] Cons.prems(2,3) uc ua cb by auto
  have "put_argv (length (a # args)) ap cp c k = Some k'" using p k'(1) by simp
  moreover have "u k' = u k" "proc k' = proc k" using k'(2,3) by (simp_all add: suword_subytes)
  moreover have "fubyte x k' = (if lies x c (length (flat (a # args))) then flat (a # args) ! (unat x - unat c)
        else if lies x ap (2 * length (a # args)) then arg_ptrs c (a # args) ! (unat x - unat ap) else fubyte x k)" for x
  proof -
    have f2: "fubyte x ?k2 = (if lies x c (length a + 1) then (a @ [0]) ! (unat x - unat c)
        else if unat x = unat ap + 1 then ucast (drop_bit 8 c) else if unat x = unat ap then ucast c else fubyte x k)"
      using cb fubyte_store [of c "a @ [0]" x ?k1] ua(2) by (auto simp: suword_subytes fubyte_subyte word_unat_eq_iff)
    consider "lies x c (length a + 1)" | "lies x ?c ?l" | "lies x ap 2" | "lies x (ap + 2) (2 * length args)"
      | "\<not> lies x c (length a + 1 + ?l)" "\<not> lies x ap (2 + 2 * length args)"
      using uc ua unfolding lies_def by linarith
    then show ?thesis
    proof cases
      case 1
      then have "\<not> lies x ?c ?l" "\<not> lies x (ap + 2) (2 * length args)" using uc ua Cons.prems(3) by (auto simp: lies_def)
      then show ?thesis using 1 k'(4) [of x] f2 by (auto simp: flat_simps lies_def nth_append)
    next
      case 2
      then have "flat (a # args) ! (unat x - unat c) = flat args ! (unat x - unat ?c)" using uc
        by (auto simp: flat_simps lies_def nth_append nth_Cons' diff_diff_left)
      then show ?thesis using 2 k'(4) [of x] uc by (auto simp: flat_simps lies_def)
    next
      case 3
      then have "\<not> lies x ?c ?l" "\<not> lies x c (length a + 1)" "\<not> lies x (ap + 2) (2 * length args)" using uc ua Cons.prems(3) by (auto simp: lies_def)
      then show ?thesis using 3 k'(4) [of x] f2 uc Cons.prems(3) by (auto simp: flat_simps lies_def nth_Cons' le_Suc_eq)
    next
      case 4
      then have "\<not> lies x ?c ?l" "\<not> lies x c (length a + 1)" using uc ua Cons.prems(3) by (auto simp: lies_def)
      then show ?thesis using 4 k'(4) [of x] uc ua Cons.prems(3) by (auto simp: flat_simps lies_def nth_Cons' diff_diff_left)
    next
      case 5
      then show ?thesis using k'(4) [of x] f2 uc ua Cons.prems(3) by (auto simp: flat_simps lies_def)
    qed
  qed
  ultimately show ?case by blast
qed

lemma fubyte_suword: "fubyte x (suword a v k) = (if x = a + 1 then ucast (drop_bit 8 v) else if x = a then ucast v else fubyte x k)"
  by (simp add: suword_subytes fubyte_subyte)

lemma suword_keeps_all [simp]: "u (suword a v k) = u k" "proc (suword a v k) = proc k"
  by (simp_all add: suword_subytes)

lemma suword_buffers [simp]: "buffers (suword a v k) = buffers k"
  by (simp add: suword_subytes)

text \<open>What is stored below an address does not change the bytes from there on.\<close>

lemma fubyte_suword_below: "unat a + 1 < n \<Longrightarrow> n \<le> unat x \<Longrightarrow> fubyte x (suword a v k) = fubyte x k"
  using unat16_bound [of x] unat_succ [of a] by (auto simp: fubyte_suword)

lemma exec_stack_bytes:
  assumes "inbuf k b (flat args)" "\<forall>a \<in> set args. 0 \<notin> set a" "length (flat args) \<le> nc" "nc \<le> 512" "length args \<le> 250"
  defines "ap \<equiv> USTACK - 2 - of_nat nc - of_nat (length args) * 2 - 4" and "c \<equiv> USTACK - 2 - of_nat nc"
  obtains k' where "exec_stack b (length args) nc k = Some k'" "proc k' = proc k" "u_procp (u k') = u_procp (u k)"
    "unat ap = 64510 - nc - 2 * length args - 4" "unat c = 64510 - nc"
    "fuword (USTACK - 2) k' = ap" "fuword ap k' = of_nat (length args)" "fuword (ap + 2) k' = ap + 4"
    "\<forall>x. lies x c (length (flat args)) \<longrightarrow> fubyte x k' = flat args ! (unat x - unat c)"
    "\<forall>x. lies x (ap + 4) (2 * length args) \<longrightarrow> fubyte x k' = arg_ptrs c args ! (unat x - unat (ap + 4))"
proof -
  let ?n = "length args"
  have uc: "unat c = 64510 - nc" using assms(4) by (simp add: c_def unat_sub word_le_nat_alt unat_of_nat)
  have "of_nat ?n * (2 :: u16) = of_nat (2 * ?n)" by simp
  moreover have "unat (of_nat (2 * ?n) :: u16) = 2 * ?n" using assms(5) by (simp only: unat_of_nat) simp
  ultimately have "unat (c - of_nat ?n * 2) = 64510 - nc - 2 * ?n" using uc assms(4,5) by (simp only: unat_sub word_le_nat_alt)
  then have ua: "unat ap = 64510 - nc - 2 * ?n - 4" using assms(4,5) unfolding ap_def c_def [symmetric] by (subst unat_sub) (simp_all add: word_le_nat_alt)
  then have up: "unat (ap + 1) = unat ap + 1" "unat (ap + 2) = unat ap + 2" "unat (ap + 3) = unat ap + 3" "unat (ap + 4) = unat ap + 4" by (simp_all add: unat_word_ariths)
  let ?k3 = "suword (ap + 2) (ap + 4) (suword ap (of_nat ?n) (suword (USTACK - 2) ap k))"
  have "inbuf ?k3 b (flat args)" using assms(1) inbuf_keeps [of ?k3 k] by simp
  moreover have "unat (ap + 4) + 2 * ?n \<le> unat c" "unat c + length (flat args) < 65536" using uc ua up assms(3,4,5) by simp_all
  ultimately obtain k4 where k4: "put_argv ?n (ap + 4) b c ?k3 = Some k4" "u k4 = u ?k3" "proc k4 = proc ?k3"
      "\<And>x. fubyte x k4 = (if lies x c (length (flat args)) then flat args ! (unat x - unat c)
        else if lies x (ap + 4) (2 * ?n) then arg_ptrs c args ! (unat x - unat (ap + 4)) else fubyte x ?k3)"
    using put_argv_bytes [of ?k3 b args "ap + 4" c] assms(2) by blast
  let ?ts = "ap - 24" and ?ds = "page_seg (p_addr (curproc k4))"
  let ?k5 = "suword (?ts + 22) 0x200 (suword (?ts + 20) (?ds + DSIZE * 256) (suword (?ts + 18) (u_hdr (u k4) 10) (suword (?ts + 2) ?ds (suword ?ts ?ds k4))))"
  let ?k' = "upd_u (\<lambda>w. w\<lparr>u_usp := ?ts\<rparr>) ?k5"
  have e: "exec_stack b ?n nc k = Some ?k'" using k4(1) by (simp add: exec_stack_def Let_def ap_def c_def)
  have ut: "unat ?ts = unat ap - 24" "unat (?ts + 2) = unat ap - 22" "unat (?ts + 18) = unat ap - 6" "unat (?ts + 20) = unat ap - 4" "unat (?ts + 22) = unat ap - 2"
    using ua assms(4,5) by (simp_all add: unat_sub unat_word_ariths word_le_nat_alt)
  have f: "fubyte x ?k' = fubyte x k4" if "unat ap \<le> unat x" for x
  proof -
    have "fubyte x ?k' = fubyte x ?k5" by (simp add: fubyte_def proc_dseg_def)
    also have "\<dots> = fubyte x k4" using that ut ua assms(4,5) by (simp add: fubyte_suword_below [of _ "unat ap"])
    finally show ?thesis .
  qed
  have g: "fubyte x ?k' = fubyte x ?k3" if "unat ap \<le> unat x" "\<not> lies x c (length (flat args))" "\<not> lies x (ap + 4) (2 * ?n)" for x
    using f [OF that(1)] k4(4) [of x] that(2,3) by simp
  have out: "\<not> lies y c (length (flat args)) \<and> \<not> lies y (ap + 4) (2 * ?n) \<and> unat ap \<le> unat y" if "y \<in> {ap, ap + 1, ap + 2, ap + 3, 0xFBFE, 0xFBFF}" for y
    using that up uc ua assms(3,4,5) by (auto simp: lies_def)
  have w: "fuword y ?k' = fuword y ?k3" if "y \<in> {ap, ap + 2, 0xFBFE}" for y
  proof -
    have "y \<in> {ap, ap + 1, ap + 2, ap + 3, 0xFBFE, 0xFBFF}" "y + 1 \<in> {ap, ap + 1, ap + 2, ap + 3, 0xFBFE, 0xFBFF}" using that by (auto simp: add.assoc)
    then have "fubyte y ?k' = fubyte y ?k3" "fubyte (y + 1) ?k' = fubyte (y + 1) ?k3" using g out by metis+
    then show ?thesis by (simp only: fuword_fubytes)
  qed
  have ne: "ap \<noteq> 0xFBFE" "ap + 1 \<noteq> 0xFBFE" "ap \<noteq> 0xFBFF" "ap + 1 \<noteq> 0xFBFF" "ap + 2 \<noteq> 0xFBFE" "ap + 3 \<noteq> 0xFBFE" "ap + 2 \<noteq> 0xFBFF" "ap + 3 \<noteq> 0xFBFF"
    using up ua assms(4,5) by (auto simp: word_unat_eq_iff)
  have j: "ucast (ucast v :: u8) OR push_bit 8 (ucast (ucast (drop_bit 8 v) :: u8)) = (v :: u16)" for v by (rule byte_join)
  have "fuword (USTACK - 2) ?k' = ap" using w [of "0xFBFE"] ne by (simp add: fuword_fubytes fubyte_suword j)
  moreover have "fuword ap ?k' = of_nat ?n" using w [of ap] by (simp add: fuword_fubytes fubyte_suword j)
  moreover have "fuword (ap + 2) ?k' = ap + 4" using w [of "ap + 2"] by (simp add: fuword_fubytes fubyte_suword j)
  moreover have "fubyte x ?k' = flat args ! (unat x - unat c)" if "lies x c (length (flat args))" for x
  proof -
    have "unat ap \<le> unat x" using that uc ua by (auto simp: lies_def)
    then show ?thesis using that f [of x] k4(4) [of x] by simp
  qed
  moreover have "fubyte x ?k' = arg_ptrs c args ! (unat x - unat (ap + 4))" if "lies x (ap + 4) (2 * ?n)" for x
  proof -
    have "unat ap \<le> unat x" "\<not> lies x c (length (flat args))" using that uc ua up assms(4,5) by (auto simp: lies_def)
    then show ?thesis using that f [of x] k4(4) [of x] by simp
  qed
  moreover have "proc ?k' = proc k" "u_procp (u ?k') = u_procp (u k)" using k4(2,3) by simp_all
  ultimately show ?thesis using that [OF e _ _ ua uc] by blast
qed

subsection \<open>What is shown of a program\<close>

text \<open>The address of an argument among the strings, and the argument there.\<close>

definition arg_pos :: "u8 list list \<Rightarrow> nat \<Rightarrow> nat" where
  "arg_pos args j = length (flat (take j args))"

lemma arg_ptrs_nth:
  "j < length args \<Longrightarrow> arg_ptrs c args ! (2 * j) = ucast (c + of_nat (arg_pos args j)) \<and>
     arg_ptrs c args ! (2 * j + 1) = ucast (drop_bit 8 (c + of_nat (arg_pos args j)))"
proof (induction c args arbitrary: j rule: arg_ptrs.induct)
  case (2 c a as)
  show ?case
  proof (cases j)
    case (Suc i)
    then show ?thesis using 2 by (simp add: arg_pos_def flat_simps ac_simps)
  qed (simp add: arg_pos_def flat_simps)
qed simp

lemma flat_append: "flat (as @ bs) = flat as @ flat bs"
  by (simp add: flat_def)

lemma flat_at: "j < length args \<Longrightarrow> flat args = flat (take j args) @ args ! j @ 0 # flat (drop (Suc j) args)"
  using id_take_nth_drop [of j args] by (metis flat_append flat_simps(2))

lemma arg_pos_le: "j < length args \<Longrightarrow> arg_pos args j + length (args ! j) < length (flat args)"
  using flat_at [of j args] by (simp add: arg_pos_def)

definition text_of :: "u8 list \<Rightarrow> string" where
  "text_of a = map (\<lambda>b. char_of (unat b)) a"

lemma cstring_prefix:
  assumes "0 \<notin> set a" "length a \<le> 16" "\<And>i. i < length a \<Longrightarrow> f i = a ! i" "length a < 16 \<Longrightarrow> f (length a) = 0"
  shows "cstring (map f [0..<16]) = text_of a"
proof -
  have "takeWhile (\<lambda>b. b \<noteq> 0) (map f [0..<16]) = a"
  proof (rule takeWhile_eq_take_P_nth [of "length a", THEN trans])
    show "i < length a \<Longrightarrow> i < length (map f [0..<16]) \<Longrightarrow> map f [0..<16] ! i \<noteq> 0" for i using assms(1,3) by (metis diff_zero length_map length_upt nth_map_upt add_0 nth_mem)
    show "length a < length (map f [0..<16]) \<Longrightarrow> \<not> map f [0..<16] ! length a \<noteq> 0" using assms(4) by simp
    show "take (length a) (map f [0..<16]) = a" using assms(2,3) by (intro nth_equalityI) simp_all
  qed
  then show ?thesis by (simp add: cstring_def text_of_def)
qed

primrec blanks_between :: "string list \<Rightarrow> string" where
  "blanks_between [] = []"
| "blanks_between (s # ss) = s @ (if ss = [] then [] else '' '' @ blanks_between ss)"

lemma prcom_args_text:
  fixes k :: "'a kbio_scheme"
  assumes sload: "p_flag (curproc k) AND SLOAD \<noteq> 0" "unat (p_addr (curproc k)) \<le> 240"
    and args: "\<forall>a \<in> set args. 0 \<notin> set a \<and> length a \<le> 16" "length args \<le> 8" "unat c + length (flat args) < 65500" "unat ap + 2 * length args < 65500"
    and strs: "\<And>x. lies x c (length (flat args)) \<Longrightarrow> fubyte x k = flat args ! (unat x - unat c)"
    and ptrs: "\<And>x. lies x ap (2 * length args) \<Longrightarrow> fubyte x k = arg_ptrs c args ! (unat x - unat ap)"
  shows "j + n = 8 \<Longrightarrow> j \<le> length args \<Longrightarrow>
    prcom_args (\<lambda>_. memdev k) (curproc k) (of_nat (length args)) ap j n = blanks_between (map text_of (drop j args))"
proof (induction n arbitrary: j)
  case (Suc n)
  have argc: "sint (of_nat (length args) :: u16) = int (length args)" using args(2) sint16_small [of "of_nat (length args)"] by (simp add: unat_of_nat)
  show ?case
  proof (cases "j < length args")
    case False
    then show ?thesis using argc by simp
  next
    case True
    let ?a = "args ! j" and ?p = "ap + of_nat j * 2" and ?q = "c + of_nat (arg_pos args j)"
    have a: "0 \<notin> set ?a" "length ?a \<le> 16" using True args(1) by auto
    have le: "arg_pos args j + length ?a < length (flat args)" using arg_pos_le [OF True] .
    have "of_nat j * (2 :: u16) = of_nat (2 * j)" by simp
    moreover have "unat (ap + of_nat (2 * j)) = unat ap + 2 * j" using True args(4) by (simp only: unat_word_ariths unat_of_nat) simp
    ultimately have up: "unat ?p = unat ap + 2 * j" by (simp only:)
    then have up1: "unat (?p + 1) = unat ap + 2 * j + 1" using True args(4) unat_succ [of ?p] by simp
    have uq: "unat (?q + of_nat i) = unat c + arg_pos args j + i" if "i \<le> 16" for i
      using le args(3) that by (simp add: unat_word_ariths unat_of_nat)
    have "fubyte ?p k = ucast ?q" "fubyte (?p + 1) k = ucast (drop_bit 8 ?q)"
      using ptrs [of ?p] ptrs [of "?p + 1"] arg_ptrs_nth [OF True, of c] True by (simp_all add: lies_def up up1)
    then have "fuword ?p k = ?q" by (simp add: fuword_fubytes byte_join)
    then have rw: "readword (\<lambda>_. memdev k) (curproc k) ?p = Some ?q" using readword_fuword [OF sload, of ?p] up True args(4) by simp
    have rp: "readproc (\<lambda>_. memdev k) (curproc k) ?q 16 = Some (map (\<lambda>i. fubyte (?q + of_nat i) k) [0..<16])"
      using readproc_fubyte [OF sload, of ?q 16] uq [of 0] le args(3) by simp
    have fl: "flat args ! (arg_pos args j + i) = (?a @ [0]) ! i" if "i \<le> length ?a" for i
      using flat_at [OF True] that by (auto simp: arg_pos_def nth_append)
    have fb: "fubyte (?q + of_nat i) k = (?a @ [0]) ! i" if "i \<le> length ?a" for i
      using strs [of "?q + of_nat i"] uq [of i] that a(2) le fl [OF that] by (simp add: lies_def)
    have cs: "cstring (map (\<lambda>i. fubyte (?q + of_nat i) k) [0..<16]) = text_of ?a"
      by (rule cstring_prefix [OF a]) (use fb in \<open>simp_all add: nth_append\<close>)
    have "prcom_args (\<lambda>_. memdev k) (curproc k) (of_nat (length args)) ap j (Suc n) =
        text_of ?a @ (if int j < int (length args) - 1 then '' '' else []) @ blanks_between (map text_of (drop (Suc j) args))"
      using True argc rw rp cs Suc.IH [of "Suc j"] Suc.prems by simp
    moreover have "drop j args = ?a # drop (Suc j) args" using True by (simp add: Cons_nth_drop_Suc)
    ultimately show ?thesis by (auto simp: drop_eq_Nil)
  qed
qed (use args(2) in simp)

text \<open>C38: \<open>ps\<close> shows the arguments that \<open>exec\<close> was given: when \<open>exec\<close> has built the stack of a program from the strings in its buffer, the
  routine of \<open>ps\<close> that follows the stack pointer through \<open>/dev/mem\<close> prints these strings, with blanks between them.  There are at most eight, of at
  most 16 characters each, which is what \<open>ps\<close> reads.\<close>

theorem ps_shows_arguments:
  fixes k :: "'a kbio_scheme"
  assumes "inbuf k b (flat args)" "\<forall>a \<in> set args. 0 \<notin> set a \<and> length a \<le> 16" "length args \<le> 8" "length (flat args) \<le> nc" "nc \<le> 512"
    and "p_flag (curproc k) AND SLOAD \<noteq> 0" "unat (p_addr (curproc k)) \<le> 240" "p_pid (curproc k) \<noteq> 0" "p_pid (curproc k) \<noteq> 1"
  shows "\<exists>k'. exec_stack b (length args) nc k = Some k' \<and>
    prcom (\<lambda>_. memdev k') swp (curproc k') = '' '' @ blanks_between (map text_of args)"
proof -
  define ap c :: u16 where "ap = USTACK - 2 - of_nat nc - of_nat (length args) * 2 - 4" and "c = USTACK - 2 - of_nat nc"
  have z: "\<forall>a \<in> set args. 0 \<notin> set a" "length args \<le> 250" using assms(2,3) by auto
  show ?thesis
  proof (rule exec_stack_bytes [OF assms(1) z(1) assms(4,5) z(2), folded ap_def c_def])
    fix k' assume k': "exec_stack b (length args) nc k = Some k'" "proc k' = proc k" "u_procp (u k') = u_procp (u k)"
      "unat ap = 64510 - nc - 2 * length args - 4" "unat c = 64510 - nc"
      "fuword (USTACK - 2) k' = ap" "fuword ap k' = of_nat (length args)" "fuword (ap + 2) k' = ap + 4"
      "\<forall>x. lies x c (length (flat args)) \<longrightarrow> fubyte x k' = flat args ! (unat x - unat c)"
      "\<forall>x. lies x (ap + 4) (2 * length args) \<longrightarrow> fubyte x k' = arg_ptrs c args ! (unat x - unat (ap + 4))"
    have s: "p_flag (curproc k') AND SLOAD \<noteq> 0" "unat (p_addr (curproc k')) \<le> 240" "p_pid (curproc k') \<noteq> 0" "p_pid (curproc k') \<noteq> 1"
      using assms(6-9) k'(2,3) by simp_all
    have up: "unat (ap + 2) = unat ap + 2" "unat (ap + 4) = unat ap + 4" using k'(4) by (simp_all add: unat_word_ariths)
    have r: "readword (\<lambda>_. memdev k') (curproc k') (USTACK - 2) = Some ap" "readword (\<lambda>_. memdev k') (curproc k') ap = Some (of_nat (length args))"
      "readword (\<lambda>_. memdev k') (curproc k') (ap + 2) = Some (ap + 4)"
      using readword_fuword [OF s(1,2), of "USTACK - 2"] readword_fuword [OF s(1,2), of ap] readword_fuword [OF s(1,2), of "ap + 2"] k'(4,6-8) up by simp_all
    have "unat c + length (flat args) < 65500" "unat (ap + 4) + 2 * length args < 65500" using k'(4,5) up assms(3,4,5) by simp_all
    from prcom_args_text [OF s(1,2) assms(2,3) this k'(9,10) [rule_format], of 0 8]
    have "prcom (\<lambda>_. memdev k') swp (curproc k') = '' '' @ blanks_between (map text_of args)" using s(1,3,4) r by (simp add: prcom_def)
    then show ?thesis using k'(1) by blast
  qed
qed

theorem ps_shows_arguments_witness:
  "\<exists>k' :: kbio. exec_stack 0 2 6 (ex_disk\<lparr>proc := (\<lambda>_. no_proc\<lparr>p_flag := 1, p_addr := 0x40, p_pid := 7\<rparr>),
       buffers := (\<lambda>i. [108, 115, 0, 47, 0] ! i)\<rparr>) = Some k' \<and>
     prcom (\<lambda>_. memdev k') (- 1) (curproc k') = '' ls /''"
proof -
  let ?k = "ex_disk\<lparr>proc := (\<lambda>_. no_proc\<lparr>p_flag := 1, p_addr := 0x40, p_pid := 7\<rparr>), buffers := (\<lambda>i. [108, 115, 0, 47, 0] ! i)\<rparr>"
  have f: "flat [[108, 115], [47]] = [108, 115, 0, 47, 0]" by (simp add: flat_def)
  then have "inbuf ?k 0 (flat [[108, 115], [47]])" by (simp add: inbuf_def)
  moreover have "blanks_between (map text_of [[108, 115], [47]]) = ''ls /''" by code_simp
  moreover have l: "length [[108, 115], [47 :: u8]] = 2" by simp
  ultimately show ?thesis using ps_shows_arguments [of ?k 0 "[[108, 115], [47]]" 6 "- 1", unfolded l] f by (simp add: no_proc_def)
qed

end
