(* ===== verification/Mount.thy ===== *)
theory Mount
  imports Prelude
begin

text \<open>
  \<open>usr/mount.c\<close> and \<open>usr/umount.c\<close>: the table of mounted volumes in \<open>/etc/mtab\<close>.  An entry is a directory and the last component of a device,
  each of at most 31 characters in a field of 32; an entry without a directory is free.  The file holds the entries up to the last that is in use.
  \<open>None\<close> stands for an access in front of an array.
\<close>

type_synonym mtab = "(string \<times> string) list"

definition NMOUNT :: nat where
  "NMOUNT = 16"

definition NAMSIZ :: nat where
  "NAMSIZ = 32"

text \<open>\<open>read(mf, mtab, NMOUNT*2*NAMSIZ)\<close> into a table of zeros.\<close>

definition read_mtab :: "mtab \<Rightarrow> mtab" where
  "read_mtab f = take NMOUNT f @ replicate (NMOUNT - length f) ([], [])"

text \<open>The last component of the argument, with the slashes at its end removed.\<close>

definition last_component :: "string \<Rightarrow> string option" where
  "last_component s =
     (let t = rev (dropWhile (\<lambda>c. c = CHR ''/'') (rev s)) in
      if t = [] then None else Some (rev (takeWhile (\<lambda>c. c \<noteq> CHR ''/'') (rev t))))"

text \<open>\<open>while ((--mp)->file[0] == 0);\<close> from the end of the table, and what is then written.\<close>

fun last_used :: "nat \<Rightarrow> mtab \<Rightarrow> nat option" where
  "last_used 0 t = None"
| "last_used (Suc n) t = (if fst (t ! n) = [] then last_used n t else Some n)"

definition write_mtab :: "mtab \<Rightarrow> mtab option" where
  "write_mtab t = map_option (\<lambda>mp. take (mp + 1) t) (last_used NMOUNT t)"

text \<open>The first index from \<open>mp\<close> on at which a loop over the table stops.\<close>

definition find_slot :: "(string \<times> string \<Rightarrow> bool) \<Rightarrow> mtab \<Rightarrow> nat option" where
  "find_slot P t = find (\<lambda>mp. P (t ! mp)) [0..<NMOUNT]"

text \<open>\<open>mount\<close> after the system call has succeeded: the new file, or \<open>None\<close> inside for no change when the table is full.\<close>

definition mount_entry :: "string \<Rightarrow> string \<Rightarrow> mtab \<Rightarrow> mtab option option" where
  "mount_entry spec dir file = do {
     let mtab = read_mtab file;
     np \<leftarrow> last_component spec;
     case find_slot (\<lambda>e. fst e = []) mtab of
       None \<Rightarrow> Some None
     | Some mp \<Rightarrow> map_option Some (write_mtab (mtab[mp := (take (NAMSIZ - 1) dir, take (NAMSIZ - 1) np)])) }"

text \<open>The listing of \<open>mount\<close> without arguments.\<close>

definition mount_list :: "mtab \<Rightarrow> string" where
  "mount_list file =
     concat (map (\<lambda>(f, s). if f \<noteq> [] then s @ '' on '' @ f @ [CHR 0x0A] else []) (read_mtab file))"

text \<open>\<open>umount\<close> after the system call has succeeded; \<open>None\<close> inside when no entry has the name.\<close>

definition umount_entry :: "string \<Rightarrow> mtab \<Rightarrow> mtab option option" where
  "umount_entry spec file = do {
     let mtab = read_mtab file;
     p1 \<leftarrow> last_component spec;
     case find_slot (\<lambda>e. snd e = p1) mtab of
       None \<Rightarrow> Some None
     | Some mp \<Rightarrow> map_option Some (write_mtab (mtab[mp := ([], [])])) }"

subsection \<open>Unmounting undoes mounting\<close>

text \<open>A file as the programs write it: at most 16 entries, of which the last is in use, and free entries have no names.\<close>

definition mtab_ok :: "mtab \<Rightarrow> bool" where
  "mtab_ok f \<longleftrightarrow> length f \<le> NMOUNT \<and> (f \<noteq> [] \<longrightarrow> fst (last f) \<noteq> []) \<and> (\<forall>e \<in> set f. fst e = [] \<longrightarrow> snd e = [])"

lemma length_read [simp]: "length f \<le> NMOUNT \<Longrightarrow> length (read_mtab f) = NMOUNT"
  by (simp add: read_mtab_def)

lemma last_used_Some: "last_used n t = Some m \<longleftrightarrow> m < n \<and> fst (t ! m) \<noteq> [] \<and> (\<forall>i. m < i \<and> i < n \<longrightarrow> fst (t ! i) = [])"
  by (induction n) (auto simp: less_Suc_eq)

lemma last_used_None: "last_used n t = None \<longleftrightarrow> (\<forall>i < n. fst (t ! i) = [])"
  by (induction n) (auto simp: less_Suc_eq)

lemma write_read:
  assumes "mtab_ok f" "f \<noteq> []"
  shows "write_mtab (read_mtab f) = Some f"
proof -
  have l: "length f \<le> NMOUNT" "fst (last f) \<noteq> []" using assms by (auto simp: mtab_ok_def)
  have less: "length f - 1 < NMOUNT" using l(1) assms(2) by (cases f) auto
  have "read_mtab f = f @ replicate (NMOUNT - length f) ([], [])" using l(1) by (simp add: read_mtab_def)
  moreover have "last_used NMOUNT (f @ replicate (NMOUNT - length f) ([], [])) = Some (length f - 1)"
    unfolding last_used_Some using l assms(2) less by (auto simp: nth_append last_conv_nth)
  ultimately show ?thesis using assms(2) by (simp add: write_mtab_def)
qed

lemma find_slot_Some: "find_slot P t = Some mp \<longleftrightarrow> mp < NMOUNT \<and> P (t ! mp) \<and> (\<forall>i < mp. \<not> P (t ! i))"
  unfolding find_slot_def find_Some_iff by (auto intro!: exI [of _ mp])

lemma write_shape:
  assumes "length t = NMOUNT" "write_mtab t = Some g" "\<forall>e \<in> set t. fst e = [] \<longrightarrow> snd e = []"
  shows "read_mtab g = t \<and> mtab_ok g \<and> g \<noteq> []"
proof -
  obtain m where m: "last_used NMOUNT t = Some m" "g = take (m + 1) t" using assms(2) by (auto simp: write_mtab_def)
  note u = m(1) [unfolded last_used_Some]
  have g: "length g = m + 1" "last g = t ! m" using u assms(1) m(2) by (simp_all add: take_Suc_conv_app_nth)
  have "read_mtab g ! i = t ! i" if "i < NMOUNT" for i
  proof (cases "i \<le> m")
    case False
    then have "fst (t ! i) = []" using u that by simp
    moreover have "t ! i \<in> set t" using that assms(1) by simp
    ultimately have "t ! i = ([], [])" using assms(3) by (metis prod.collapse)
    then show ?thesis using False g(1) that u by (simp add: read_mtab_def nth_append)
  qed (use g(1) m(2) u assms(1) that in \<open>simp add: read_mtab_def nth_append\<close>)
  then have "read_mtab g = t" using assms(1) g(1) u by (intro nth_equalityI) simp_all
  moreover have "mtab_ok g" using g u m(2) assms(3) by (auto simp: mtab_ok_def dest: in_set_takeD)
  ultimately show ?thesis using g(1) by auto
qed

lemma read_clean: "mtab_ok f \<Longrightarrow> e \<in> set (read_mtab f) \<Longrightarrow> fst e = [] \<Longrightarrow> snd e = []"
  by (auto simp: mtab_ok_def read_mtab_def)

lemma mount_entry_spec:
  assumes "mtab_ok f" "last_component spec = Some np" "find_slot (\<lambda>e. fst e = []) (read_mtab f) = Some mp" "dir \<noteq> []"
  obtains g where "mount_entry spec dir f = Some (Some g)" "mtab_ok g" "read_mtab g = (read_mtab f)[mp := (take 31 dir, take 31 np)]"
proof -
  let ?t = "(read_mtab f)[mp := (take 31 dir, take 31 np)]"
  have l: "length (read_mtab f) = NMOUNT" using assms(1) by (simp add: mtab_ok_def)
  have mp: "mp < NMOUNT" using assms(3) by (simp add: find_slot_Some)
  then have "fst (?t ! mp) \<noteq> []" using l assms(4) by simp
  then obtain m where "last_used NMOUNT ?t = Some m" using mp last_used_None [of NMOUNT ?t] by (cases "last_used NMOUNT ?t") auto
  then obtain g where g: "write_mtab ?t = Some g" by (simp add: write_mtab_def)
  have "\<forall>e \<in> set ?t. fst e = [] \<longrightarrow> snd e = []"
    using read_clean [OF assms(1)] assms(4) set_update_subset_insert [of "read_mtab f" mp "(take 31 dir, take 31 np)"] by fastforce
  then have "read_mtab g = ?t" "mtab_ok g" using write_shape [OF _ g] l by auto
  moreover have "mount_entry spec dir f = Some (Some g)" using assms(2,3) g by (simp add: mount_entry_def NAMSIZ_def Let_def)
  ultimately show ?thesis using that by blast
qed

text \<open>C40: Unmounting undoes mounting in \<open>/etc/mtab\<close>: when a volume is mounted whose name has at most 31 characters and is not in the table, and there is a
  free entry, the table has the new entry in the first free place, and unmounting the volume leaves exactly the file there was before, provided that there
  was something else mounted.  If nothing else was, \<open>umount\<close> runs off the front of its table in search of an entry that is in use.\<close>

theorem umount_undoes_mount:
  assumes "mtab_ok f" "last_component spec = Some np" "length np < 32" "dir \<noteq> []"
    and "\<forall>e \<in> set f. snd e \<noteq> np" "np \<noteq> []" "find_slot (\<lambda>e. fst e = []) (read_mtab f) = Some mp"
  shows "\<exists>g. mount_entry spec dir f = Some (Some g) \<and> read_mtab g = (read_mtab f)[mp := (take 31 dir, np)] \<and>
    umount_entry spec g = (if f = [] then None else Some (Some f))"
proof -
  obtain g where g: "mount_entry spec dir f = Some (Some g)" "mtab_ok g" "read_mtab g = (read_mtab f)[mp := (take 31 dir, take 31 np)]"
    using mount_entry_spec [OF assms(1,2,7,4)] by metis
  have n: "take 31 np = np" using assms(3) by simp
  have l: "length (read_mtab f) = NMOUNT" using assms(1) by (simp add: mtab_ok_def)
  have mp: "mp < NMOUNT" "fst (read_mtab f ! mp) = []" using assms(7) by (auto simp: find_slot_Some)
  have "read_mtab f ! mp = ([], [])" using read_clean [OF assms(1), of "read_mtab f ! mp"] mp l by (metis nth_mem prod.collapse)
  then have bk: "(read_mtab g)[mp := ([], [])] = read_mtab f" unfolding g(3) by (metis list_update_id list_update_overwrite)
  have other: "snd (read_mtab f ! i) \<noteq> np" if "i < NMOUNT" for i
  proof -
    have "read_mtab f ! i \<in> set (read_mtab f)" using that l by simp
    then show ?thesis using assms(5,6) by (auto simp: read_mtab_def dest: in_set_takeD)
  qed
  have "find_slot (\<lambda>e. snd e = np) (read_mtab g) = Some mp"
    unfolding find_slot_Some g(3) n using mp l other by (auto simp: nth_list_update)
  then have u: "umount_entry spec g = map_option Some (write_mtab (read_mtab f))" using assms(2) bk by (simp add: umount_entry_def Let_def)
  have "write_mtab (read_mtab []) = None" by (simp add: write_mtab_def read_mtab_def last_used_None)
  then show ?thesis using u g(1,3) n write_read [OF assms(1)] by (cases "f = []") auto
qed

theorem umount_undoes_mount_witness:
  "\<exists>g. mount_entry ''/dev/rk1/'' ''/mnt'' [(''/usr'', ''rk2'')] = Some (Some g) \<and> umount_entry ''/dev/rk1/'' g = Some (Some [(''/usr'', ''rk2'')])"
proof -
  have "last_component ''/dev/rk1/'' = Some ''rk1''" by code_simp
  moreover have "find_slot (\<lambda>e. fst e = []) (read_mtab [(''/usr'', ''rk2'')]) = Some 1"
    by (simp add: find_slot_Some read_mtab_def NMOUNT_def)
  moreover have "mtab_ok [(''/usr'', ''rk2'')]" by (simp add: mtab_ok_def NMOUNT_def)
  ultimately show ?thesis using umount_undoes_mount [of "[(''/usr'', ''rk2'')]" "''/dev/rk1/''" "''rk1''" "''/mnt''" 1] by auto
qed

end
