(* ===== verification/Utils.thy ===== *)
theory Utils
  imports Ls Usys
begin

unbundle bit_operations_syntax

text \<open>
  The small programs of \<open>usr\<close>: \<open>echo\<close>, \<open>cat\<close>, \<open>chmod\<close>, \<open>mknod\<close>, \<open>ln\<close>, \<open>cp\<close>, \<open>nice\<close>, \<open>id\<close>, and \<open>perror\<close> and \<open>mkdir\<close> of \<open>usr/ulib.c\<close>.

  They are modelled by what they pass to the system: a call is a value of \<open>scall\<close>, and the answers of the calls are arguments.  \<open>Inl\<close> is
  a message after which the program ends.
\<close>

datatype scall =
    Mknod string u16 u16
  | Chown string u16 u16
  | Link string string
  | Unlink string
  | Chmod string u16
  | Nice u16
  | Exec string "string list"
  | Creat string u16
  | Write string
  | Message string

subsection \<open>Messages of errors\<close>

definition sys_errlist :: "string list" where
  "sys_errlist =
     [''Error 0'', ''Not super-user'', ''No such file or directory'', ''No such process'', ''Interrupted system call'', ''I/O error'',
      ''No such device or address'', ''Arg list too long'', ''Exec format error'', ''Bad file number'', ''No children'', ''No more processes'',
      ''Not enough core'', ''Permission denied'', ''Error 14'', ''Block device required'', ''Mount device busy'', ''File exists'',
      ''Cross-device link'', ''No such device'', ''Not a directory'', ''Is a directory'', ''Invalid argument'', ''File table overflow'',
      ''Too many open files'', ''Not a typewriter'', ''Text file busy'', ''File too large'', ''No space left on device'', ''Illegal seek'',
      ''Read-only file system'', ''Too many links'', ''Broken Pipe'']"

text \<open>\<open>None\<close> for a negative number, which is an index in front of the table.\<close>

definition perror :: "string \<Rightarrow> int \<Rightarrow> string option" where
  "perror s err =
     (if err < 0 then None
      else
        let c = (if err < int (length sys_errlist) then sys_errlist ! nat err else ''Unknown error'')
        in Some ((if s \<noteq> [] then s @ '': '' else []) @ c @ [CHR 0x0A]))"

subsection \<open>Directories\<close>

text \<open>
  \<open>mkdir\<close>: the calls in their order and the value.  The arguments are the numbers of the user and the group, and whether each of \<open>mknod\<close> and the
  two \<open>link\<close>s succeeds; \<open>None\<close> when a name does not fit into its buffer of 128 characters.
\<close>

definition slash_end :: "string \<Rightarrow> nat" where
  "slash_end d = fold (\<lambda>i slash. if d ! i = CHR ''/'' then Suc i else slash) [0..<length d] 0"

definition mkdir :: "string \<Rightarrow> u16 \<Rightarrow> u16 \<Rightarrow> bool \<Rightarrow> bool \<Rightarrow> bool \<Rightarrow> (scall list \<times> int) option" where
  "mkdir d uid gid mknod_ok dot_ok dotdot_ok =
     (let slash = slash_end d;
          pname = take slash d @ ''.'' in
      if length pname \<ge> 128 then None
      else if \<not> mknod_ok then Some ([Mknod d 0x41FF 0, Message ''mknod''], - 1)
      else if length d + 3 \<ge> 128 then None
      else
        let dname = d @ ''/.'' in
        if \<not> dot_ok then Some ([Mknod d 0x41FF 0, Chown d uid gid, Link d dname, Message ''link .'', Unlink d], - 1)
        else
          let dname = dname @ ''.'' in
          if \<not> dotdot_ok then
            Some ([Mknod d 0x41FF 0, Chown d uid gid, Link d (d @ ''/.''), Link pname dname, Message ''link ..'', Unlink dname, Unlink d], - 1)
          else Some ([Mknod d 0x41FF 0, Chown d uid gid, Link d (d @ ''/.''), Link pname dname], 0))"

subsection \<open>Names and numbers\<close>

text \<open>\<open>chmod\<close>: the mode of an octal numeral, \<open>None\<close> for a character that is no octal digit.\<close>

fun octal_loop :: "u16 \<Rightarrow> string \<Rightarrow> u16 option" where
  "octal_loop m [] = Some m"
| "octal_loop m (c # cs) =
     (if (of_char c :: nat) < 48 \<or> (55 :: nat) < of_char c then None
      else octal_loop (push_bit 3 m OR (of_nat (of_char c) - 48)) cs)"

text \<open>The calls for the files, of which \<open>ok\<close> tells which succeed, and the status: the number of failures.\<close>

definition chmod_main :: "string list \<Rightarrow> (string \<Rightarrow> bool) \<Rightarrow> string + scall list \<times> nat" where
  "chmod_main argv ok =
     (case argv of
        mode # f # fs \<Rightarrow>
          (case octal_loop 0 mode of
             None \<Rightarrow> Inl (''bad mode'' @ [CHR 0x0A])
           | Some m \<Rightarrow>
               Inr (concat (map (\<lambda>f. Chmod f m # (if ok f then [] else [Message f])) (f # fs)), length (filter (\<lambda>f. \<not> ok f) (f # fs))))
      | _ \<Rightarrow> Inl (''arg count'' @ [CHR 0x0A]))"

text \<open>\<open>ln\<close> with one argument: the pointer moves back from the NUL until it is at a slash or at the first character, and then one on.\<close>

fun ln_back :: "nat \<Rightarrow> string \<Rightarrow> nat" where
  "ln_back 0 s = 0"
| "ln_back (Suc np) s = (if (s @ [CHR 0x00]) ! Suc np \<noteq> CHR ''/'' then ln_back np s else Suc np)"

definition ln_name :: "string \<Rightarrow> string" where
  "ln_name s = drop (ln_back (length s) s + 1) s"

text \<open>\<open>cp\<close> to a directory: the name in the directory; the loop starts again at \<open>p2\<close> after each slash.  The name has 312 bytes of the buffer, of which \<open>room\<close> are left
  behind the directory and the slash.\<close>

fun cp_loop :: "nat \<Rightarrow> string \<Rightarrow> string \<Rightarrow> string option" where
  "cp_loop room [] bp = (if length bp < room then Some bp else None)"
| "cp_loop room (c # p1) bp =
     (if \<not> length bp < room then None
      else if c = CHR ''/'' then cp_loop room p1 []
      else cp_loop room p1 (bp @ [c]))"

definition cp_target :: "string \<Rightarrow> string \<Rightarrow> string option" where
  "cp_target old dir =
     (if length dir < 312 then map_option (\<lambda>n. dir @ ''/'' @ n) (cp_loop (311 - length dir) old []) else None)"

text \<open>The loop that copies: the reads deliver pieces, then \<open>failed\<close> tells whether the last one is an error; \<open>ok\<close> tells whether a write succeeds.\<close>

fun cp_copy :: "string list \<Rightarrow> bool \<Rightarrow> (string \<Rightarrow> bool) \<Rightarrow> string list \<times> string option" where
  "cp_copy [] failed ok = ([], if failed then Some (''Read error'' @ [CHR 0x0A]) else None)"
| "cp_copy (b # bs) failed ok =
     (if \<not> ok b then ([b], Some (''Write error.'' @ [CHR 0x0A]))
      else case cp_copy bs failed ok of (ws, msg) \<Rightarrow> (b # ws, msg))"

text \<open>\<open>nice\<close>: the increment and the three names that are tried in turn with the argument list.\<close>

definition nice_calls :: "u16 \<Rightarrow> string list \<Rightarrow> scall list" where
  "nice_calls nicarg args =
     (let str = ''/usr/bin/'' @ hd args in [Nice nicarg, Exec (drop 9 str) args, Exec (drop 4 str) args, Exec str args])"

text \<open>\<open>mknod\<close>: \<open>a\<close> and \<open>b\<close> are the numbers of the third and fourth argument.\<close>

definition mknod_call :: "string \<Rightarrow> string \<Rightarrow> u16 \<Rightarrow> u16 \<Rightarrow> scall option" where
  "mknod_call name kind a b =
     (let m = (if kind \<noteq> [] \<and> hd kind = CHR ''b'' then Some 0xE1B6 else if kind \<noteq> [] \<and> hd kind = CHR ''c'' then Some 0xA1B6 else None)
      in case m of
           None \<Rightarrow> None
         | Some m \<Rightarrow> if sint a < 0 \<or> sint b < 0 then None else Some (Mknod name m (push_bit 8 a OR b)))"

text \<open>\<open>echo\<close> and \<open>cat\<close>.\<close>

fun echo :: "string list \<Rightarrow> string" where
  "echo [] = []"
| "echo (a # as) = a @ (if as \<noteq> [] then '' '' else [CHR 0x0A]) @ echo as"

fun cat :: "string list \<Rightarrow> bool \<Rightarrow> (string \<Rightarrow> bool) \<Rightarrow> string list \<times> string option" where
  "cat [] failed ok = ([], if failed then Some (''cat: read error'' @ [CHR 0x0A]) else None)"
| "cat (b # bs) failed ok =
     (if \<not> ok b then ([b], Some (''cat: write error'' @ [CHR 0x0A]))
      else case cat bs failed ok of (ws, msg) \<Rightarrow> (b # ws, msg))"

text \<open>\<open>id\<close> on a gate of the system: the text that is printed.\<close>

definition id_main :: "'k gate \<Rightarrow> lib \<times> 'k \<Rightarrow> (string option \<times> lib \<times> 'k) option" where
  "id_main g s = do {
     (a, l, k) \<leftarrow> getuid_u g s;
     (b, l, k) \<leftarrow> getuid_u g (l, k);
     (c, l, k) \<leftarrow> getgid_u g (l, k);
     (d, l, k) \<leftarrow> getgid_u g (l, k);
     Some (fprintf (''uid %d euid %d gid %d rgid %d'' @ [CHR 0x0A])
       [arg.Num (signed_drop_bit 8 a), arg.Num (b AND 0xFF), arg.Num (signed_drop_bit 8 c), arg.Num (d AND 0xFF)], l, k) }"

subsection \<open>What they do\<close>

text \<open>The parent of a new directory: what stands in front of the last component.\<close>

lemma slash_end_base: "d = take (slash_end d) d @ base_name d \<and> slash_end d \<le> length d"
proof -
  have "slash_end (d @ [c]) = (if c = CHR ''/'' then length d + 1 else slash_end d)" for d c
  proof -
    have "fold (\<lambda>i slash. if (d @ [c]) ! i = CHR ''/'' then Suc i else slash) [0..<length d] 0 =
        fold (\<lambda>i slash. if d ! i = CHR ''/'' then Suc i else slash) [0..<length d] 0"
      by (rule fold_cong) (auto simp: nth_append)
    then show ?thesis by (simp add: slash_end_def)
  qed
  then show ?thesis
  proof (induction d rule: rev_induct)
    case (snoc c d)
    then have ih: "d = take (slash_end d) d @ base_name d" "slash_end d \<le> length d" by blast+
    show ?case
    proof (cases "c = CHR ''/''")
      case False
      have "base_name (d @ [c]) = base_name d @ [c]" using False by (simp add: base_name_def)
      then show ?thesis using ih False snoc.prems by simp
    qed (use snoc.prems in \<open>simp add: base_name_def\<close>)
  qed (simp add: slash_end_def base_name_def)
qed

text \<open>A successful \<open>mkdir\<close> of \<open>p/n\<close> enters the new directory and then links it to itself as \<open>.\<close> and to \<open>p/.\<close> as \<open>..\<close>.\<close>

theorem mkdir_links:
  assumes "length d < 125"
  shows "\<exists>p. d = p @ base_name d \<and> (p = [] \<or> last p = CHR ''/'') \<and>
    mkdir d uid gid True True True = Some ([Mknod d 0x41FF 0, Chown d uid gid, Link d (d @ ''/.''), Link (p @ ''.'') (d @ ''/..'')], 0)"
proof -
  let ?p = "take (slash_end d) d"
  note b = slash_end_base [of d]
  have "last ?p = CHR ''/''" if "?p \<noteq> []"
  proof -
    have "takeWhile (\<lambda>c. c \<noteq> CHR ''/'') (rev d) = rev (base_name d)" by (simp add: base_name_def)
    moreover have "rev d = rev (base_name d) @ rev ?p" using b by (metis rev_append)
    ultimately have "dropWhile (\<lambda>c. c \<noteq> CHR ''/'') (rev d) = rev ?p" by (metis append_same_eq same_append_eq takeWhile_dropWhile_id)
    then have "hd (rev ?p) = CHR ''/''" using hd_dropWhile [of "\<lambda>c. c \<noteq> CHR ''/''" "rev d"] that by auto
    then show ?thesis by (simp add: hd_rev)
  qed
  moreover have "length ?p \<le> length d" by simp
  ultimately show ?thesis using b assms by (intro exI [of _ ?p]) (auto simp: mkdir_def Let_def)
qed

lemma takeWhile_none: "c \<notin> set xs \<Longrightarrow> takeWhile (\<lambda>x. x \<noteq> c) xs = xs"
  by (induction xs) auto

lemma takeWhile_stop: "takeWhile (\<lambda>x. x \<noteq> c) (xs @ c # ys) = takeWhile (\<lambda>x. x \<noteq> c) xs"
  by (induction xs) auto

lemma cp_loop_base: "length (bp @ p1) < room \<Longrightarrow> CHR ''/'' \<notin> set bp \<Longrightarrow> cp_loop room p1 bp = Some (base_name (bp @ p1))"
proof (induction p1 arbitrary: bp)
  case Nil
  have tw: "rev (takeWhile (\<lambda>c. c \<noteq> CHR ''/'') (rev bp)) = bp" using Nil(2) by (simp add: takeWhile_none)
  show ?case unfolding base_name_def append_Nil2 tw using Nil by simp
next
  case (Cons c p1)
  have "base_name (bp @ CHR ''/'' # p1) = base_name p1"
    by (simp add: base_name_def takeWhile_stop)
  then show ?case using Cons.IH [of "[]"] Cons.IH [of "bp @ [c]"] Cons.prems by auto
qed

theorem cp_target_name:
  assumes "length dir + length old < 311"
  shows "cp_target old dir = Some (dir @ ''/'' @ base_name old)"
  using cp_loop_base [of "[]" old "311 - length dir"] assms by (simp add: cp_target_def)


lemma ln_back_stops:
  "k \<le> m \<Longrightarrow> \<forall>i. k < i \<and> i \<le> m \<longrightarrow> (s @ [CHR 0x00]) ! i \<noteq> CHR ''/'' \<Longrightarrow> k = 0 \<or> (s @ [CHR 0x00]) ! k = CHR ''/'' \<Longrightarrow> ln_back m s = k"
proof (induction m)
  case (Suc m)
  then show ?case by (cases "k = Suc m") auto
qed simp

text \<open>With a slash in its argument \<open>ln\<close> takes the last component for the new name; without one it loses the first character.\<close>

theorem ln_default_name:
  assumes "CHR ''/'' \<notin> set n"
  shows "ln_name (p @ ''/'' @ n) = n \<and> ln_name n = tl n"
proof
  have n: "(n @ [CHR 0x00]) ! i \<noteq> CHR ''/''" if "i \<le> length n" for i
  proof (cases "i < length n")
    case True
    then have "n ! i \<in> set n" by simp
    then have "n ! i \<noteq> CHR ''/''" using assms by metis
    then show ?thesis using True by (simp add: nth_append)
  qed (use that in simp)
  then have "ln_back (length n) n = 0" by (intro ln_back_stops) auto
  then show "ln_name n = tl n" by (simp add: ln_name_def drop_Suc)
  have "((p @ ''/'' @ n) @ [CHR 0x00]) ! i \<noteq> CHR ''/''" if "length p < i" "i \<le> length (p @ ''/'' @ n)" for i
    using that n [of "i - length p - 1"] by (simp add: nth_append nth_Cons')
  then have "ln_back (length (p @ ''/'' @ n)) (p @ ''/'' @ n) = length p" by (intro ln_back_stops) (auto simp: nth_append)
  then show "ln_name (p @ ''/'' @ n) = n" by (simp add: ln_name_def)
qed

text \<open>An octal numeral is read modulo 65536.\<close>

theorem octal_value:
  assumes "\<forall>c \<in> set s. 48 \<le> (of_char c :: nat) \<and> of_char c \<le> (55 :: nat)"
  shows "octal_loop m s = Some (of_nat (foldl (\<lambda>n c. n * 8 + (of_char c - 48)) (unat m) s))"
  using assms
proof (induction s arbitrary: m)
  case (Cons c s)
  define d :: u16 where "d = of_nat (of_char c) - 48"
  have c: "48 \<le> (of_char c :: nat)" "of_char c \<le> (55 :: nat)" using Cons.prems by auto
  then have "d = of_nat (of_char c - 48)" by (simp add: d_def of_nat_diff)
  then have ud: "unat d = of_char c - 48" using c by (simp only: unat_of_nat) simp
  then have "unat d < 8" using c by simp
  then have "push_bit 3 m AND d = 0"
  proof -
    assume "unat d < 8"
    then have "d = take_bit 3 d" by (simp add: word_unat_eq_iff unsigned_take_bit_eq take_bit_nat_eq_self)
    then have "\<not> bit d i" if "3 \<le> i" for i using that by (metis bit_take_bit_iff not_le)
    then show ?thesis by (auto simp: bit_eq_iff bit_simps)
  qed
  then have "push_bit 3 m OR d = push_bit 3 m + d" by (simp add: disjunctive_add_eq_or)
  also have "\<dots> = of_nat (unat m * 8 + (of_char c - 48))" using ud [symmetric] by (simp add: push_bit_eq_mult mult.commute)
  finally have e: "push_bit 3 m OR d = of_nat (unat m * 8 + (of_char c - 48))" .
  have mod: "of_nat (foldl (\<lambda>n c. n * 8 + (of_char c - 48)) (x mod 65536) s) = (of_nat (foldl (\<lambda>n c. n * 8 + (of_char c - 48)) x s) :: u16)" for x
  proof (induction s rule: rev_induct)
    case Nil
    then show ?case by (simp add: word_unat_eq_iff unat_of_nat)
  qed simp
  have "octal_loop m (c # s) = octal_loop (push_bit 3 m OR d) s" using c by (simp add: d_def)
  also have "\<dots> = Some (of_nat (foldl (\<lambda>n c. n * 8 + (of_char c - 48)) (unat (push_bit 3 m OR d)) s))" using Cons by simp
  also have "unat (push_bit 3 m OR d) = (unat m * 8 + (of_char c - 48)) mod 65536" by (simp only: e unat_of_nat) simp
  finally show ?case unfolding mod by simp
qed simp

text \<open>The identity of a process as \<open>id\<close> asks for it, and that the questions do not change it.\<close>

definition ids :: "'a kproc_scheme \<Rightarrow> u8 \<times> u8 \<times> u8 \<times> u8" where
  "ids k = (u_uid (u k), u_ruid (u k), u_gid (u k), u_rgid (u k))"

lemma after_get_ids:
  assumes "k0 = trap0 r0 bx cx fn a b c k"
  shows "ids (after getuid k0) = ids k" "ids (after getgid k0) = ids k" "u_procp (u (after getgid k0)) = u_procp (u k)"
    "p_sig (proc (after getgid k0) q) = p_sig (proc k q)" "u_ar0 (u (after getgid k0)) 0 = push_bit 8 (scast (u_gid (u k))) + scast (u_rgid (u k))"
    "u_procp (u (after getuid k0)) = u_procp (u k)" "p_sig (proc (after getuid k0) q) = p_sig (proc k q)"
    "u_ar0 (u (after getuid k0)) 0 = push_bit 8 (scast (u_uid (u k))) OR scast (u_ruid (u k))"
  unfolding assms after_def getuid_def getgid_def trap0_def trap_result_def set_r0_def ids_def by (auto simp: Let_def)

lemma get_ids:
  fixes e :: "'a kfs_scheme kenv" and k :: "'a kfs_scheme"
  assumes "p_sig (curproc k) = 0"
  shows "\<exists>l' k'. getuid_u (kernel_call e bx cx behind) (l, k) = Some (push_bit 8 (scast (u_uid (u k))) OR scast (u_ruid (u k)), l', k') \<and>
      ids k' = ids k \<and> p_sig (curproc k') = 0"
    "\<exists>l' k'. getgid_u (kernel_call e bx cx behind) (l, k) = Some (push_bit 8 (scast (u_gid (u k))) + scast (u_rgid (u k)), l', k') \<and>
      ids k' = ids k \<and> p_sig (curproc k') = 0"
proof -
  let ?k0 = "\<lambda>fn. trap0 (- 1) bx cx fn (([] @ behind @ [0, 0, 0]) ! 0) (([] @ behind @ [0, 0, 0]) ! 1) (([] @ behind @ [0, 0, 0]) ! 2) k"
  note a = after_get_ids [OF refl, of "- 1" bx cx _ "([] @ behind @ [0, 0, 0]) ! 0" "([] @ behind @ [0, 0, 0]) ! 1" "([] @ behind @ [0, 0, 0]) ! 2" k]
  have q: "p_sig (curproc (after getuid (?k0 24))) = 0" "p_sig (curproc (after getgid (?k0 47))) = 0" using a(3,4,6,7) assms by simp_all
  obtain l1 k1 where 1: "syscall (kernel_call e bx cx behind) 24 (- 1) [] (l, k) = Some (u_ar0 (u (after getuid (?k0 24))) 0, l1, k1)"
      "u k1 = u (after getuid (?k0 24))" "\<And>q. p_sig (proc k1 q) = p_sig (proc (after getuid (?k0 24)) q)"
    by (rule stub_plain [of 24 e getuid "?k0 24" "- 1" bx cx "[]" behind k l, OF _ _ refl q(1)]) (simp_all add: sysent_def)
  obtain l2 k2 where 2: "syscall (kernel_call e bx cx behind) 47 (- 1) [] (l, k) = Some (u_ar0 (u (after getgid (?k0 47))) 0, l2, k2)"
      "u k2 = u (after getgid (?k0 47))" "\<And>q. p_sig (proc k2 q) = p_sig (proc (after getgid (?k0 47)) q)"
    by (rule stub_plain [of 47 e getgid "?k0 47" "- 1" bx cx "[]" behind k l, OF _ _ refl q(2)]) (simp_all add: sysent_def)
  show "\<exists>l' k'. getuid_u (kernel_call e bx cx behind) (l, k) = Some (push_bit 8 (scast (u_uid (u k))) OR scast (u_ruid (u k)), l', k') \<and>
      ids k' = ids k \<and> p_sig (curproc k') = 0"
    using 1 q(1) a(1) [of 24] a(8) [of 24] by (intro exI [of _ l1] exI [of _ k1]) (simp add: getuid_u_def ids_def)
  show "\<exists>l' k'. getgid_u (kernel_call e bx cx behind) (l, k) = Some (push_bit 8 (scast (u_gid (u k))) + scast (u_rgid (u k)), l', k') \<and>
      ids k' = ids k \<and> p_sig (curproc k') = 0"
    using 2 q(2) a(2) [of 47] a(5) [of 47] by (intro exI [of _ l2] exI [of _ k2]) (simp add: getgid_u_def ids_def)
qed

lemma scast_small: "x < 128 \<Longrightarrow> scast x = (ucast x :: u16)" for x :: u8
proof -
  assume "x < 128"
  then have "take_bit 7 x = x" by (simp add: word_unat_eq_iff unsigned_take_bit_eq take_bit_nat_eq_self word_less_nat_alt)
  then have "\<not> bit x i" if "7 \<le> i" for i using that by (metis bit_take_bit_iff not_le)
  then show ?thesis by (intro bit_word_eqI) (auto simp: bit_simps min_def)
qed

lemma two_bytes:
  fixes x y :: u8
  assumes "x < 128" "y < 128"
  defines "w \<equiv> push_bit 8 (scast x) OR scast y :: u16"
  shows "signed_drop_bit 8 w = ucast x" "w AND 0xFF = ucast y" "push_bit 8 (scast x) + scast y = w"
proof -
  have w: "w = push_bit 8 (ucast x) OR ucast y" using scast_small assms by (simp add: w_def)
  have "take_bit 7 x = x" using assms(1) by (simp add: word_unat_eq_iff unsigned_take_bit_eq take_bit_nat_eq_self word_less_nat_alt)
  then have b: "\<not> bit x i" if "7 \<le> i" for i using that by (metis bit_take_bit_iff not_le)
  show "signed_drop_bit 8 w = ucast x"
  proof (rule bit_word_eqI)
    fix n assume "n < LENGTH(16)"
    then show "bit (signed_drop_bit 8 w) n = bit (ucast x :: u16) n"
      using b [of n] b [of 7] bit_imp_le_length [of y "8 + n"] bit_imp_le_length [of y 15] unfolding w by (auto simp: bit_simps min_def)
  qed
  have m: "w AND 0xFF = take_bit 8 w" by (simp add: take_bit_eq_mask mask_eq_exp_minus_1)
  show "w AND 0xFF = ucast y"
  proof (rule bit_word_eqI)
    fix n assume "n < LENGTH(16)"
    then show "bit (w AND 0xFF) n = bit (ucast y :: u16) n" using bit_imp_le_length [of y n] unfolding m unfolding w by (auto simp: bit_simps)
  qed
  have "push_bit 8 (ucast x) AND (ucast y :: u16) = 0" by (rule bit_word_eqI) (auto simp: bit_simps dest: bit_imp_le_length)
  then show "push_bit 8 (scast x) + scast y = w" using scast_small assms(1,2) by (simp add: w disjunctive_add_eq_or)
qed

text \<open>\<open>id\<close>, running on the kernel, prints the effective user under \<open>uid\<close> and the real user under \<open>euid\<close>, because \<open>getuid\<close> has the effective
  number in its high byte; the groups are printed as they are labelled.  (The numbers are below 128, and the process has no signal.)\<close>

theorem id_swaps_users:
  fixes e :: "'a kfs_scheme kenv" and k :: "'a kfs_scheme"
  assumes "p_sig (curproc k) = 0" "u_uid (u k) < 128" "u_ruid (u k) < 128" "u_gid (u k) < 128" "u_rgid (u k) < 128"
  shows "\<exists>l' k'. id_main (kernel_call e bx cx behind) (l, k) = Some (fprintf (''uid %d euid %d gid %d rgid %d'' @ [CHR 0x0A])
    [arg.Num (ucast (u_uid (u k))), arg.Num (ucast (u_ruid (u k))), arg.Num (ucast (u_gid (u k))), arg.Num (ucast (u_rgid (u k)))], l', k')"
proof -
  obtain l1 k1 where 1: "getuid_u (kernel_call e bx cx behind) (l, k) = Some (push_bit 8 (scast (u_uid (u k))) OR scast (u_ruid (u k)), l1, k1)"
      "ids k1 = ids k" "p_sig (curproc k1) = 0" using get_ids(1) [OF assms(1)] by blast
  obtain l2 k2 where 2: "getuid_u (kernel_call e bx cx behind) (l1, k1) = Some (push_bit 8 (scast (u_uid (u k1))) OR scast (u_ruid (u k1)), l2, k2)"
      "ids k2 = ids k1" "p_sig (curproc k2) = 0" using get_ids(1) [OF 1(3)] by blast
  obtain l3 k3 where 3: "getgid_u (kernel_call e bx cx behind) (l2, k2) = Some (push_bit 8 (scast (u_gid (u k2))) + scast (u_rgid (u k2)), l3, k3)"
      "ids k3 = ids k2" "p_sig (curproc k3) = 0" using get_ids(2) [OF 2(3)] by blast
  obtain l4 k4 where 4: "getgid_u (kernel_call e bx cx behind) (l3, k3) = Some (push_bit 8 (scast (u_gid (u k3))) + scast (u_rgid (u k3)), l4, k4)"
    using get_ids(2) [OF 3(3)] by blast
  show ?thesis using 1(1,2) 2(1,2) 3(1,2) 4 two_bytes [OF assms(2,3)] two_bytes [OF assms(4,5)]
    by (intro exI [of _ l4] exI [of _ k4]) (simp add: id_main_def ids_def)
qed

theorem id_swaps_users_witness:
  "\<exists>l' k'. id_main (kernel_call ex_env 0 0 []) (ex_lib, ex_fs\<lparr>u := (u ex_fs)\<lparr>u_uid := 0, u_ruid := 3, u_gid := 1, u_rgid := 2\<rparr>\<rparr>) =
    Some (Some (''uid 0 euid 3 gid 1 rgid 2'' @ [CHR 0x0A]), l', k')"
proof -
  have "p_sig (curproc (ex_fs\<lparr>u := (u ex_fs)\<lparr>u_uid := 0, u_ruid := 3, u_gid := 1, u_rgid := 2\<rparr>\<rparr>)) = 0" using ex_fs_sig by simp
  moreover have "fprintf (''uid %d euid %d gid %d rgid %d'' @ [CHR 0x0A]) [arg.Num 0, arg.Num 3, arg.Num 1, arg.Num 2] =
      Some (''uid 0 euid 3 gid 1 rgid 2'' @ [CHR 0x0A])"
    by code_simp
  ultimately show ?thesis
    using id_swaps_users [of "ex_fs\<lparr>u := (u ex_fs)\<lparr>u_uid := 0, u_ruid := 3, u_gid := 1, u_rgid := 2\<rparr>\<rparr>" ex_env 0 0 "[]" ex_lib] by simp
qed

end
