(* ===== verification/Coherent.thy ===== *)
theory Coherent
  imports Files
begin

unbundle bit_operations_syntax

text \<open>
  Reading and writing through the cache: what \<open>writei\<close> has put into a block of a file is what \<open>readi\<close> finds there, on whatever way the block is
  reached, while the disk is the only other thing that runs.  The content of a block is what its buffer holds if there is one, and
  the sector otherwise.
\<close>

subsection \<open>Blocks in the cache\<close>

definition cached :: "'a kbio_scheme \<Rightarrow> u16 \<Rightarrow> u16 \<Rightarrow> bp \<Rightarrow> bool" where
  "cached k dev blkno p \<longleftrightarrow> bsearch k Rktab dev blkno (b_forw k Rktab) = Some p \<and> p \<noteq> Rktab \<and>
     flag (b_flags k p) B_DONE \<and> \<not> flag (b_flags k p) B_ERROR"

text \<open>\<open>bread\<close> can go on at once or after one transfer: the block is in the cache and nobody uses it, or it is not and there is a buffer to
  spare and the disk is idle.\<close>

definition ready :: "'a kbio_scheme \<Rightarrow> u16 \<Rightarrow> u16 \<Rightarrow> bool" where
  "ready k dev blkno \<longleftrightarrow> (\<exists>p. cached k dev blkno p \<and> \<not> busy k p) \<or>
     (incore dev blkno k = Some False \<and> d_active k = 0 \<and> av_forw k Bfree \<noteq> Bfree \<and> \<not> flag (b_flags k (av_forw k Bfree)) B_DELWRI)"

definition block_at :: "'a kbio_scheme \<Rightarrow> u16 \<Rightarrow> u16 \<Rightarrow> nat \<Rightarrow> u8" where
  "block_at k dev blkno i =
     (case bsearch k Rktab dev blkno (b_forw k Rktab) of
        Some p \<Rightarrow> if p = Rktab then disk k (sector_of dev blkno) i else buffers k (b_addr p + i)
      | None \<Rightarrow> 0)"

lemma bsearch_linked:
  fixes k k' :: "'a kbio_scheme"
  assumes "bsearch k dt dev blkno p = Some r" "linked k k'"
  shows "bsearch k' dt dev blkno p = Some r"
  using assms(2)
proof (induction rule: bsearch.raw_induct [OF _ assms(1)])
  case (1 f k dt dev blkno p r)
  then show ?case by (subst bsearch.simps) (auto simp: linked_def split: if_splits)
qed

lemma cached_linked:
  assumes "cached k dev blkno p" "linked k k'" "flag (b_flags k' p) B_DONE" "\<not> flag (b_flags k' p) B_ERROR"
  shows "cached k' dev blkno p"
  using assms bsearch_linked [of k Rktab dev blkno "b_forw k Rktab" p k'] by (auto simp: cached_def linked_def)

lemma cached_bufs: "cache_ok W V k \<Longrightarrow> cached k dev blkno p \<Longrightarrow> p \<in> bufs \<and> b_dev k p = dev \<and> b_blkno k p = blkno"
proof -
  assume "cache_ok W V k" and c: "cached k dev blkno p"
  then obtain hl nl where "dll (b_forw k) (b_back k) Rktab hl" "set (hl @ nl) = bufs"
    by (auto simp: cache_ok_def cache_inv_def lists_ok_def)
  then show ?thesis using c bsearch_finds [of k Rktab hl dev blkno]
    by (auto simp: cached_def find_Some_iff split: option.splits)
qed

lemma block_at_cached: "cached k dev blkno p \<Longrightarrow> block_at k dev blkno i = buffers k (b_addr p + i)"
  by (auto simp: cached_def block_at_def)

lemma getblk_cached:
  fixes k :: "'a kbio_scheme"
  assumes ok: "cache_ok W V k" and m: "major dev = 0" and c: "cached k dev blkno p" and nb: "\<not> busy k p"
  shows "getblk away dev blkno k = Some (p, notavail p (spl 0 (spl 6 k)))"
proof -
  have n: "nblkdev k = 1" using ok by (auto simp: cache_ok_def cache_inv_def)
  have s: "\<not> sint dev < 0" using m by (auto simp: major_def)
  show ?thesis using c nb by (subst getblk.simps) (simp add: n s m d_tab_def cached_def Let_def)
qed

lemma bread_ready:
  fixes k :: "'a kbio_scheme"
  assumes ok: "cache_ok W V k" and dev: "major dev = 0" "\<not> beyond dev blkno" and r: "ready k dev blkno"
  shows "\<exists>p k'. bread disk_only dev blkno k = Some (p, k') \<and> p \<notin> W \<union> V \<and> cache_ok (insert p W) V k' \<and> cached k' dev blkno p \<and>
    calm k k' \<and> (\<forall>i < 512. buffers k' (b_addr p + i) = block_at k dev blkno i)"
  using r unfolding ready_def
proof (elim disjE exE conjE)
  fix p assume c: "cached k dev blkno p" and nb: "\<not> busy k p"
  define k' where "k' = notavail p (spl 0 (spl 6 k))"
  have fl: "flag (b_flags k' p) B_DONE" "\<not> flag (b_flags k' p) B_ERROR" using c by (simp_all add: k'_def cached_def flag_setf flag_num_simps)
  have b: "bread disk_only dev blkno k = Some (p, k')"
    using getblk_cached [OF ok dev(1) c nb, of disk_only] fl by (simp add: bread_def k'_def)
  have "held W V dev blkno k (p, k')" using bread_obtains(1) [OF b ideintr_keeps ok] dev(1) by simp
  moreover have "linked k k'" by (simp add: linked_def k'_def notavail_def Let_def)
  from cached_linked [OF c this fl] have "cached k' dev blkno p" .
  moreover have "calm k k'" by (simp add: calm_def k'_def notavail_def Let_def set_flags_def spl_def)
  moreover have "buffers k' = buffers k" by (simp add: k'_def notavail_def Let_def)
  ultimately show ?thesis using b block_at_cached [OF c] by (auto simp: held_def)
next
  assume new: "incore dev blkno k = Some False" and idle: "d_active k = 0"
    and av: "av_forw k Bfree \<noteq> Bfree" "\<not> flag (b_flags k (av_forw k Bfree)) B_DELWRI"
  obtain p k' where b: "bread disk_only dev blkno k = Some (p, k')" "contents k' p = sector_at (disk k (sector_of dev blkno)) 0"
    "\<not> flag (b_flags k' p) B_ERROR" "calm k k'" "b_forw k' Rktab = p" using idle_read [OF ok idle dev new av] by blast
  have h: "held W V dev blkno k (p, k')" "flag (b_flags k' p) B_DONE" using bread_obtains [OF b(1) ideintr_keeps ok] dev(1) by simp_all
  then have o: "cache_ok (insert p W) V k'" "b_dev k' p = dev" "b_blkno k' p = blkno" "p \<notin> W \<union> V" by (simp_all add: held_def)
  have "p \<noteq> Rktab" using o(1) ownbusy by (fastforce simp: cache_ok_def)
  then have "cached k' dev blkno p" using b(3,5) h(2) o(2,3) by (simp add: cached_def) (subst bsearch.simps, simp)
  moreover have "bsearch k Rktab dev blkno (b_forw k Rktab) = Some Rktab"
    using new dev(1) by (auto simp: incore_def d_tab_def split: Option.bind_splits)
  then have "block_at k dev blkno i = disk k (sector_of dev blkno) i" for i by (simp add: block_at_def)
  moreover have "buffers k' (b_addr p + i) = disk k (sector_of dev blkno) i" if "i < 512" for i
    using fun_cong [OF b(2), of i] that by (simp add: contents_def sector_at_def)
  ultimately show ?thesis using b(1,4) o by (intro exI [of _ p] exI [of _ k']) simp
qed

text \<open>States with the same cache.\<close>

definition same_cache :: "'a kbio_scheme \<Rightarrow> 'a kbio_scheme \<Rightarrow> bool" where
  "same_cache k k' \<longleftrightarrow> b_flags k' = b_flags k \<and> b_forw k' = b_forw k \<and> b_back k' = b_back k \<and> av_forw k' = av_forw k \<and>
     av_back k' = av_back k \<and> b_dev k' = b_dev k \<and> b_blkno k' = b_blkno k \<and> d_actf k' = d_actf k \<and> d_actl k' = d_actl k \<and>
     d_active k' = d_active k \<and> nblkdev k' = nblkdev k \<and> buffers k' = buffers k \<and> disk k' = disk k"

lemma same_cache_bsearch: "same_cache k k' \<Longrightarrow> bsearch k' dt dev blkno p = bsearch k dt dev blkno p"
proof -
  assume s: "same_cache k k'"
  have "linked k k'" "linked k' k" using s by (simp_all add: same_cache_def linked_def)
  then show ?thesis using bsearch_linked [of k dt dev blkno p _ k'] bsearch_linked [of k' dt dev blkno p _ k]
    by (cases "bsearch k dt dev blkno p"; cases "bsearch k' dt dev blkno p") auto
qed

lemma same_cacheD:
  assumes "same_cache k k'"
  shows "cache_ok W V k \<Longrightarrow> cache_ok W V k'" "cached k' dev blkno p = cached k dev blkno p" "ready k' dev blkno = ready k dev blkno"
    "block_at k' dev blkno = block_at k dev blkno"
proof -
  show "cache_ok W V k'" if "cache_ok W V k" using assms by (intro cache_ok_cong [OF that]) (simp_all add: same_cache_def)
  have f: "b_forw k' = b_forw k" "b_flags k' = b_flags k" "d_active k' = d_active k" "av_forw k' = av_forw k" "buffers k' = buffers k" "disk k' = disk k"
    using assms by (simp_all add: same_cache_def)
  show c: "cached k' dev blkno p = cached k dev blkno p" for p by (simp add: cached_def same_cache_bsearch [OF assms] f)
  show "ready k' dev blkno = ready k dev blkno" by (simp add: ready_def incore_def same_cache_bsearch [OF assms] f c)
  show "block_at k' dev blkno = block_at k dev blkno" by (simp add: fun_eq_iff block_at_def same_cache_bsearch [OF assms] f split: option.split)
qed

subsection \<open>Blocks of a file\<close>

lemma kfs_inode: "kbio.more k' = kbio.more k \<Longrightarrow> inode k' = inode k \<and> filetab k' = filetab k" for k k' :: "'a kfs_scheme"
  by (cases k; cases k'; simp)

lemma fubyte_calm: "calm k k' \<Longrightarrow> fubyte x k' = fubyte x k"
  by (simp add: calm_def fubyte_def proc_dseg_def)

text \<open>A plain file that has no indirect blocks and whose size has 16 bits.\<close>

definition small_file :: "nat \<Rightarrow> 'a kfs_scheme \<Rightarrow> bool" where
  "small_file ip k \<longleftrightarrow> i_mode (inode k ip) AND IFMT = 0 \<and> \<not> flag (i_mode (inode k ip)) ILARG \<and> i_size0 (inode k ip) = 0 \<and>
     major (i_dev (inode k ip)) = 0"

lemma bmap_small:
  assumes "\<not> flag (i_mode (inode k ip)) ILARG" "j < 8" "i_addr (inode k ip) j \<noteq> 0"
  shows "bmap away ip (of_nat j) k =
    Some (i_addr (inode k ip) j, k\<lparr>rablock := (if j < 7 then i_addr (inode k ip) (Suc j) else 0)\<rparr>)"
proof -
  have "j \<in> {0, 1, 2, 3, 4, 5, 6, 7}" using assms(2) by auto
  then have "\<not> flag (of_nat j :: u16) 0x8000" "\<not> flag (of_nat j :: u16) (NOT 7)" "unat (of_nat j :: u16) = j"
    by (auto simp: flag_def)
  then show ?thesis using assms(1,3) by (simp add: bmap_def Let_def)
qed

text \<open>Without a block to read ahead, \<open>breada\<close> of a block in the cache is \<open>bread\<close>.\<close>

lemma breada_cached:
  assumes "cached k dev blkno p" "major dev = 0"
  shows "breada away dev blkno 0 k = bread away dev blkno k"
  using assms by (simp add: breada_def incore_def d_tab_def cached_def)

lemma offset_words:
  assumes "w < 32768"
  shows "lshift (0, of_nat w) (-9) = of_nat (w div 512)" "unat ((of_nat w :: u16) AND 0x1FF) = w mod 512"
proof -
  have u: "unat (of_nat w :: u16) = w" using assms by (simp add: unat_of_nat)
  have d: "dpval (0, of_nat w) = w" by (simp add: dpval_def u)
  have "unat (of_nat (w div 512) :: u16) = w div 512" using assms by (simp add: unat_of_nat less_mult_imp_div_less)
  then show "lshift (0, of_nat w) (-9) = of_nat (w div 512)" using lshift_block [of "(0, of_nat w)"] d assms by (simp add: word_unat_eq_iff)
  have "(of_nat w :: u16) AND 0x1FF = take_bit 9 (of_nat w)" by (simp add: take_bit_eq_mask mask_eq_exp_minus_1)
  then show "unat ((of_nat w :: u16) AND 0x1FF) = w mod 512" using u by (simp only: unsigned_take_bit_eq) (simp add: take_bit_eq_mod)
qed

lemma small_sint: "n < 32768 \<Longrightarrow> sint (of_nat n :: u16) = int n"
  by (subst sint16_small) (simp_all add: unat_of_nat)

text \<open>The count of a turn that stays inside the block.\<close>

lemma turn_count:
  assumes "w < 32768" "w mod 512 + n \<le> 512"
  shows "imin (512 - ((of_nat w :: u16) AND 0x1FF)) (of_nat n) = of_nat n"
proof -
  have o: "unat ((of_nat w :: u16) AND 0x1FF) = w mod 512" by (rule offset_words(2) [OF assms(1)])
  have "w mod 512 < 512" by simp
  then have "(of_nat w :: u16) AND 0x1FF \<le> 512" by (simp add: word_le_nat_alt o)
  then have "unat (512 - ((of_nat w :: u16) AND 0x1FF)) = 512 - w mod 512" by (simp add: unat_sub o)
  then have "sint (512 - ((of_nat w :: u16) AND 0x1FF)) = int (512 - w mod 512)" by (subst sint16_small) simp_all
  moreover have "sint (of_nat n :: u16) = int n" using assms(2) by (intro small_sint) simp
  ultimately show ?thesis using assms(2) by (auto simp: imin_def word_unat_eq_iff unat_of_nat)
qed

subsection \<open>Writing into a block\<close>

lemma write_block:
  fixes k :: "'a kfs_scheme" and ip :: nat
  defines "d \<equiv> i_dev (inode k ip)"
  assumes ok: "cache_ok {} {} k" and f: "small_file ip k" and a: "a = i_addr (inode k ip) (w div 512)" "a \<noteq> 0" "\<not> beyond d a" "ready k d a"
    and w: "w < 4096" "0 < n" "w mod 512 + n < 512" "u_offset (u k) = (0, of_nat w)" "u_count (u k) = of_nat n" "u_base (u k) = UAddr x"
      "\<not> u_segflg (u k)" "u_error (u k) = 0"
  shows "\<exists>k'. writei disk_only ip k = Some (Ret () k') \<and> cache_ok {} {} k' \<and> small_file ip k' \<and> (\<exists>p. cached k' d a p \<and> \<not> busy k' p) \<and>
    filetab k' = filetab k \<and> i_addr (inode k' ip) = i_addr (inode k ip) \<and> i_dev (inode k' ip) = d \<and> i_lastr (inode k' ip) = i_lastr (inode k ip) \<and>
    unat (i_size1 (inode k' ip)) = max (unat (i_size1 (inode k ip))) (w + n) \<and> u_segflg (u k') = u_segflg (u k) \<and> u_error (u k') = 0 \<and>
    (\<forall>i < 512. block_at k' d a i = (if w mod 512 \<le> i \<and> i < w mod 512 + n then fubyte (x + of_nat (i - w mod 512)) k else block_at k d a i))"
proof -
  have md: "major d = 0" "i_mode (inode k ip) AND IFMT = 0" "\<not> flag (i_mode (inode k ip)) ILARG" "i_size0 (inode k ip) = 0"
    using f by (simp_all add: small_file_def d_def)
  have nb: "n < 512" "unat (of_nat n :: u16) = n" "unat (of_nat w :: u16) = w" using w by (simp_all add: unat_of_nat)
  have nz: "(of_nat n :: u16) \<noteq> 0" "of_nat n \<noteq> (512 :: u16)" using w(2) nb by (auto simp: word_unat_eq_iff)
  define k0 where "k0 = iflag_set ip (IACC OR IUPD) k"
  have i0: "i_addr (inode k0 ip) = i_addr (inode k ip)" "i_mode (inode k0 ip) = i_mode (inode k ip)" "i_dev (inode k0 ip) = d"
    "i_lastr (inode k0 ip) = i_lastr (inode k ip)" "i_size0 (inode k0 ip) = 0" "i_size1 (inode k0 ip) = i_size1 (inode k ip)" "u k0 = u k"
    using md(4) by (simp_all add: k0_def iflag_set_def upd_inode_def d_def)
  have s0: "same_cache k (k0\<lparr>rablock := ra\<rparr>)" for ra by (simp add: same_cache_def k0_def iflag_set_def upd_inode_def)
  have "w div 512 < 8" using w(1) by (simp add: less_mult_imp_div_less)
  moreover have "\<not> flag (i_mode (inode k0 ip)) ILARG" "i_addr (inode k0 ip) (w div 512) \<noteq> 0" using md(3) a(1,2) by (simp_all add: i0)
  ultimately obtain ra where bm: "bmap disk_only ip (of_nat (w div 512)) k0 = Some (a, k0\<lparr>rablock := ra\<rparr>)"
    and ra: "ra = (if w div 512 < 7 then i_addr (inode k ip) (Suc (w div 512)) else 0)"
    using bmap_small [of k0 ip "w div 512" disk_only] by (auto simp: i0 a(1))
  define k1 where "k1 = k0\<lparr>rablock := ra\<rparr>"
  note s1 = same_cacheD [OF s0 [of ra], folded k1_def]
  have i1: "inode k1 = inode k0" "u k1 = u k" "filetab k1 = filetab k" "proc k1 = proc k" "mem k1 = mem k"
    by (simp_all add: k1_def k0_def iflag_set_def upd_inode_def)
  have "ready k1 d a" using a(4) by (simp add: s1)
  from bread_ready [OF s1(1) [OF ok] md(1) a(3) this] obtain p k2 where r: "bread disk_only d a k1 = Some (p, k2)" "cache_ok {p} {} k2"
    "cached k2 d a p" "calm k1 k2" "\<forall>i < 512. buffers k2 (b_addr p + i) = block_at k d a i" by (auto simp: s1)
  have i2: "inode k2 = inode k0" "u k2 = u k" "filetab k2 = filetab k" using r(4) kfs_inode [of k2 k1] by (simp_all add: calm_def i1)
  have fb: "fubyte y k2 = fubyte y k" for y using fubyte_calm [OF r(4), of y] by (simp add: fubyte_def proc_dseg_def i1)
  define on where "on = (of_nat w :: u16) AND 0x1FF"
  have on: "unat on = w mod 512" using offset_words(2) [of w] w(1) by (simp add: on_def)
  have pb: "p \<in> bufs" using cached_bufs [OF r(2,3)] by simp
  then have room: "b_addr p + unat on + unat (of_nat n :: u16) \<le> 514 * NBUF" using on w(3) nb by auto
  have pre: "\<not> u_segflg (u k2)" "u_base (u k2) = UAddr x" "unat (of_nat n :: u16) \<le> unat (u_count (u k2))" using w by (simp_all add: i2)
  from iomove_exact [OF pre room] obtain k3 where m: "iomove p on (of_nat n) True k2 = Some k3"
    "\<forall>i < n. buffers k3 (b_addr p + unat on + i) = fubyte (x + of_nat i) k"
    "\<forall>z. z < b_addr p + unat on \<or> b_addr p + unat on + n \<le> z \<longrightarrow> buffers k3 z = buffers k2 z"
    "u_count (u k3) = 0" "dpval (u_offset (u k3)) = w + n"
    using w nb(1) by (auto simp: nb fb i2 dpval_def)
  have mv: "moved_to k2 k3" "mem k3 = mem k2" using iomove_in_moves [of _ _ k2 k3] m(1) by (auto simp: iomove_def Let_def)
  note mf = moved_to_fields [OF mv(1)]
  have i3: "inode k3 = inode k0" "u_error (u k3) = 0" "u_segflg (u k3) = u_segflg (u k)" "filetab k3 = filetab k" using kfs_inode [OF mf(6)] mf(7,8) w by (simp_all add: i2)
  have off3: "u_offset (u k3) = (0, of_nat (w + n))"
  proof -
    have "dpval (0, of_nat (w + n)) = w + n" using w nb(1) by (simp add: dpval_def unat_of_nat del: of_nat_add)
    then show ?thesis using m(5) by (simp only: dpval_inject [symmetric])
  qed
  have "unat ((of_nat (w + n) :: u16) AND 0x1FF) = (w + n) mod 512" using w nb(1) by (intro offset_words(2)) simp
  also have "(w + n) mod 512 = w mod 512 + n" using w(3) by (metis mod_add_left_eq mod_less)
  finally have part: "snd (u_offset (u k3)) AND 0x1FF \<noteq> 0" using w(2) by (auto simp: off3 simp del: of_nat_add)
  define k4 where "k4 = bdwrite p k3"
  have pn: "p \<noteq> Bfree" using pb by auto
  have fl3: "flag (b_flags k3 p) B_DONE" "\<not> flag (b_flags k3 p) B_ERROR" using r(3) by (simp_all add: cached_def mf)
  note bf = brelse_fields [OF pn, where k = "set_flags p (setf (b_flags k3 p) (B_DELWRI OR B_DONE)) k3", folded bdwrite_def, folded k4_def]
  have fl4: "b_flags k4 p = clrf (setf (b_flags k3 p) (B_DELWRI OR B_DONE)) (B_WANTED OR B_BUSY OR B_ASYNC)" "buffers k4 = buffers k3"
    using bf(12,13) by simp_all
  have l4: "linked k2 k4" using fl3(2) bf(1,3,8) by (simp add: linked_def mf flag_setf flag_num_simps)
  have c4: "cached k4 d a p" by (rule cached_linked [OF r(3) l4]) (use fl3 in \<open>simp_all add: fl4 flag_clrf_disjoint flag_setf flag_num_simps\<close>)
  have nb4: "\<not> busy k4 p" unfolding fl4(1) by (rule flag_clrf_sub) simp
  have ok4: "cache_ok {} {} k4" using bdwrite_releases [of "{p}" "{}" k3 p] r(2) mf(11) by (simp add: k4_def)
  have "calm k3 k4"
    by (rule calm_trans [OF _ calm_brelse [of "set_flags p (setf (b_flags k3 p) (B_DELWRI OR B_DONE)) k3" p, folded bdwrite_def, folded k4_def]])
      (simp add: calm_def set_flags_def)
  then have i4: "inode k4 = inode k0" "u k4 = u k3" "filetab k4 = filetab k" using kfs_inode [of k4 k3] by (simp_all add: calm_def i3)
  have sz: "sint (size_left ip k4) = max (- 512) (min 512 (int (unat (i_size1 (inode k ip))) - int (w + n)))"
  proof -
    have "dpval (0, i_size1 (inode k ip)) < 2147483648" "dpval (0, of_nat (w + n)) < 2147483648"
      using unat16_bound [of "i_size1 (inode k ip)"] unat16_bound [of "of_nat (w + n)"] by (simp_all add: dpval_def del: of_nat_add)
    from dpcmp_exact [OF this] show ?thesis using w nb(1)
      by (simp add: size_left_def i4 i0 off3 dpval_def unat_of_nat del: of_nat_add)
  qed
  define k5 where "k5 = (if sint (size_left ip k4) < 0 \<and> \<not> flag (i_mode (inode k4 ip)) (IFBLK AND IFCHR)
                  then upd_inode ip (\<lambda>i. i\<lparr>i_size0 := ucast (fst (u_offset (u k4))), i_size1 := snd (u_offset (u k4))\<rparr>) k4
                  else k4)"
  define k6 where "k6 = iflag_set ip IUPD k5"
  have "i_mode (inode k ip) AND 0x2000 = (i_mode (inode k ip) AND IFMT) AND 0x2000" by (simp add: and.assoc)
  then have nf: "\<not> flag (i_mode (inode k4 ip)) (IFBLK AND IFCHR)" using md(2) by (simp add: flag_def i4 i0)
  have i6: "i_addr (inode k6 ip) = i_addr (inode k ip)" "i_mode (inode k6 ip) = i_mode (inode k ip)" "i_dev (inode k6 ip) = d"
    "i_lastr (inode k6 ip) = i_lastr (inode k ip)" "i_size0 (inode k6 ip) = 0" "u k6 = u k3" "filetab k6 = filetab k"
    by (simp_all add: k6_def k5_def iflag_set_def upd_inode_def i4 i0 off3)
  have sz6: "unat (i_size1 (inode k6 ip)) = max (unat (i_size1 (inode k ip))) (w + n)"
  proof (cases "unat (i_size1 (inode k ip)) < w + n")
    case True
    then have "sint (size_left ip k4) < 0" using sz by linarith
    then show ?thesis using True nf w nb(1) by (simp add: k6_def k5_def iflag_set_def upd_inode_def i4 off3 unat_of_nat del: of_nat_add)
  next
    case False
    then have "\<not> sint (size_left ip k4) < 0" using sz by linarith
    then show ?thesis using False by (simp add: k6_def k5_def iflag_set_def upd_inode_def i4 i0)
  qed
  have s6: "same_cache k4 k6" by (simp add: same_cache_def k6_def k5_def iflag_set_def upd_inode_def)
  note s6' = same_cacheD [OF s6]
  have e: "(if sint (size_left ip k4) < 0 \<and> \<not> flag (i_mode (inode k4 ip)) IFCHR
      then upd_inode ip (\<lambda>i. i\<lparr>i_size0 := ucast (fst (u_offset (u k4))), i_size1 := snd (u_offset (u k4))\<rparr>) k4 else k4) = k5"
    by (simp add: k5_def)
  have "writei_loop disk_only ip k0 = Some k6"
    using bm r(1) m(1,4) part nz(2) turn_count [of w n] w(1,3,4,5)
    by (subst writei_loop.simps)
      (simp add: filetype_def i0 md(2) i1 i3 a(2) on_def [symmetric] k1_def [symmetric] k4_def [symmetric] e k6_def [symmetric]
        i6(6) offset_words(1) Let_def split del: if_split)
  then have "writei disk_only ip k = Some (Ret () k6)"
    using md(2) w(5) nz(1) i0(7) i0(2) unfolding writei_def Let_def k0_def [symmetric] by (simp add: filetype_def ret_def)
  moreover have "cached k6 d a p \<and> \<not> busy k6 p" using c4 nb4 s6 by (simp add: s6') (simp add: same_cache_def)
  moreover have "block_at k6 d a i = (if w mod 512 \<le> i \<and> i < w mod 512 + n then fubyte (x + of_nat (i - w mod 512)) k else block_at k d a i)"
    if "i < 512" for i
  proof (cases "w mod 512 \<le> i \<and> i < w mod 512 + n")
    case True
    then have e: "b_addr p + unat on + (i - w mod 512) = b_addr p + i" "i - w mod 512 < n" using on by auto
    have "buffers k3 (b_addr p + i) = fubyte (x + of_nat (i - w mod 512)) k" using m(2) [rule_format, OF e(2)] unfolding e(1) .
    then show ?thesis using True by (simp add: s6' block_at_cached [OF c4] fl4 del: of_nat_diff)
  next
    case False
    then show ?thesis using that m(3) r(5) on by (auto simp: s6' block_at_cached [OF c4] fl4)
  qed
  ultimately show ?thesis using s6'(1) [OF ok4] md i6 i3 sz6 by (intro exI [of _ k6]) (simp add: small_file_def, blast)
qed

subsection \<open>Reading from a block\<close>

lemma read_block:
  fixes k :: "'a kfs_scheme" and ip :: nat
  defines "d \<equiv> i_dev (inode k ip)"
  assumes ok: "cache_ok {} {} k" and f: "small_file ip k" and a: "a = i_addr (inode k ip) (w div 512)" "a \<noteq> 0" "\<not> beyond d a" "ready k d a"
    and w: "w < 4096" "0 < n" "w mod 512 + n \<le> 512" "u_offset (u k) = (0, of_nat w)" "u_count (u k) = of_nat n" "u_base (u k) = UAddr y"
      "\<not> u_segflg (u k)" "w + n \<le> unat (i_size1 (inode k ip))"
    and l: "i_lastr (inode k ip) + 1 = of_nat (w div 512) \<Longrightarrow>
      (\<exists>p. cached k d a p) \<and> (w div 512 = 7 \<or> i_addr (inode k ip) (Suc (w div 512)) = 0)"
  shows "\<exists>k'. readi disk_only ip k = Some (Ret () k') \<and> u_count (u k') = 0 \<and> u_offset (u k') = (0, of_nat (w + n)) \<and>
    filetab k' = filetab k \<and>
    (\<forall>i < n. fubyte (y + of_nat i) k' = block_at k d a (w mod 512 + i))"
proof -
  have md: "major d = 0" "i_mode (inode k ip) AND IFMT = 0" "\<not> flag (i_mode (inode k ip)) ILARG" "i_size0 (inode k ip) = 0"
    using f by (simp_all add: small_file_def d_def)
  have nb: "n \<le> 512" "unat (of_nat n :: u16) = n" "unat (of_nat w :: u16) = w" using w by (simp_all add: unat_of_nat)
  have nz: "(of_nat n :: u16) \<noteq> 0" using w(2) nb by (auto simp: word_unat_eq_iff)
  define k0 where "k0 = iflag_set ip IACC k"
  have i0: "i_addr (inode k0 ip) = i_addr (inode k ip)" "i_mode (inode k0 ip) = i_mode (inode k ip)" "i_dev (inode k0 ip) = d"
    "i_lastr (inode k0 ip) = i_lastr (inode k ip)" "i_size0 (inode k0 ip) = 0" "i_size1 (inode k0 ip) = i_size1 (inode k ip)" "u k0 = u k"
    using md(4) by (simp_all add: k0_def iflag_set_def upd_inode_def d_def)
  have s0: "same_cache k (k0\<lparr>rablock := ra\<rparr>)" for ra by (simp add: same_cache_def k0_def iflag_set_def upd_inode_def)
  have "w div 512 < 8" using w(1) by (simp add: less_mult_imp_div_less)
  moreover have "\<not> flag (i_mode (inode k0 ip)) ILARG" "i_addr (inode k0 ip) (w div 512) \<noteq> 0" using md(3) a(1,2) by (simp_all add: i0)
  ultimately obtain ra where bm: "bmap disk_only ip (of_nat (w div 512)) k0 = Some (a, k0\<lparr>rablock := ra\<rparr>)"
    and ra: "ra = (if w div 512 < 7 then i_addr (inode k ip) (Suc (w div 512)) else 0)"
    using bmap_small [of k0 ip "w div 512" disk_only] by (auto simp: i0 a(1))
  define k1 where "k1 = k0\<lparr>rablock := ra\<rparr>"
  note s1 = same_cacheD [OF s0 [of ra], folded k1_def]
  have i1: "inode k1 = inode k0" "u k1 = u k" "filetab k1 = filetab k" by (simp_all add: k1_def k0_def iflag_set_def upd_inode_def)
  have dn: "\<not> sint (size_left ip k0) \<le> 0" "imin (of_nat n) (size_left ip k0) = of_nat n"
  proof -
    have "dpval (0, i_size1 (inode k ip)) < 2147483648" "dpval (0, of_nat w) < 2147483648"
      using unat16_bound [of "i_size1 (inode k ip)"] unat16_bound [of "of_nat w"] by (simp_all add: dpval_def)
    from dpcmp_exact [OF this]
    have "sint (size_left ip k0) = max (- 512) (min 512 (int (unat (i_size1 (inode k ip))) - int w))"
      using w(4) by (simp add: size_left_def i0 dpval_def nb)
    then have "int n \<le> sint (size_left ip k0)" using w(8) nb(1) by linarith
    moreover have "sint (of_nat n :: u16) = int n" using nb(1) by (intro small_sint) simp
    moreover have eq: "p = q" if "sint p = sint q" for p q :: u16 using that by (rule signed_word_eqI)
    ultimately show "\<not> sint (size_left ip k0) \<le> 0" "imin (of_nat n) (size_left ip k0) = of_nat n"
      using w(2) eq by (auto simp: imin_def)
  qed
  have rw: "read_where disk_only ip k0 = Some (Some (d, a, of_nat n), k1)"
    using bm turn_count [of w n] w(1,3,4,5) dn a(2) md(2)
    by (simp add: read_where_def Let_def filetype_def i0 offset_words(1) k1_def)
  have "ready k1 d a" using a(4) by (simp add: s1)
  from bread_ready [OF s1(1) [OF ok] md(1) a(3) this] obtain p k2 where r: "bread disk_only d a k1 = Some (p, k2)" "cache_ok {p} {} k2"
    "cached k2 d a p" "calm k1 k2" "\<forall>i < 512. buffers k2 (b_addr p + i) = block_at k d a i" by (auto simp: s1)
  have i2: "inode k2 = inode k0" "u k2 = u k" "filetab k2 = filetab k" using r(4) kfs_inode [of k2 k1] by (simp_all add: calm_def i1)
  have br: "(if i_lastr (inode k1 ip) + 1 = of_nat (w div 512) then breada disk_only d a (rablock k1) k1 else bread disk_only d a k1) = Some (p, k2)"
  proof (cases "i_lastr (inode k1 ip) + 1 = of_nat (w div 512)")
    case True
    then obtain q where q: "cached k d a q" "w div 512 = 7 \<or> i_addr (inode k ip) (Suc (w div 512)) = 0" using l by (auto simp: i1 i0)
    then have "rablock k1 = 0" by (auto simp: k1_def ra)
    moreover have "cached k1 d a q" using q(1) by (simp add: s1)
    from breada_cached [OF this md(1)] have "breada disk_only d a 0 k1 = bread disk_only d a k1" .
    ultimately show ?thesis using True r(1) by simp
  qed (use r(1) in simp)
  define on where "on = (of_nat w :: u16) AND 0x1FF"
  have on: "unat on = w mod 512" using offset_words(2) [of w] w(1) by (simp add: on_def)
  define k3 where "k3 = upd_inode ip (\<lambda>i. i\<lparr>i_lastr := of_nat (w div 512)\<rparr>) k2"
  have i3: "u k3 = u k" "buffers k3 = buffers k2" "filetab k3 = filetab k" by (simp_all add: k3_def upd_inode_def i2)
  have pb: "p \<in> bufs" using cached_bufs [OF r(2,3)] by simp
  then have room: "b_addr p + unat on + n \<le> 514 * NBUF" using on w(3) by auto
  have pre: "\<not> u_segflg (u k3)" "u_base (u k3) = UAddr y" "n \<le> unat (u_count (u k3))" using w nb by (simp_all add: i3)
  from iomove_out_exact [OF pre room] obtain k4 where m: "iomove p on (of_nat n) False k3 = Some k4" "u_count (u k4) = 0"
    "moved_to k3 k4" "dpval (u_offset (u k4)) = w + n"
    "\<And>x. fubyte x k4 = (if unat (x - y) < n then buffers k3 (b_addr p + unat on + unat (x - y)) else fubyte x k3)"
    using w(1,4,5) nb by (auto simp: iomove_def Let_def i3 dpval_def)
  have "readi_loop disk_only ip k0 = Some (brelse p k4)"
    using rw br m(1,2) w(1,4) calm_brelse [of k4 p]
    by (subst readi_loop.simps)
      (simp add: i1 i0 on_def [symmetric] k3_def [symmetric] offset_words(1) Let_def calm_def split del: if_split)
  then have "readi disk_only ip k = Some (Ret () (brelse p k4))"
    using md(2) w(5) nz i0(2) unfolding readi_def Let_def k0_def [symmetric] by (simp add: filetype_def ret_def)
  moreover have "u_offset (u k4) = (0, of_nat (w + n))"
  proof -
    have "dpval (0, of_nat (w + n)) = w + n" using w nb(1) by (simp add: dpval_def unat_of_nat del: of_nat_add)
    then show ?thesis using m(4) by (simp only: dpval_inject [symmetric])
  qed
  then have "u_count (u (brelse p k4)) = 0" "u_offset (u (brelse p k4)) = (0, of_nat (w + n))" "filetab (brelse p k4) = filetab k"
    using calm_brelse [of k4 p] m(2) kfs_inode [of "brelse p k4" k4] kfs_inode [OF moved_to_fields(6) [OF m(3)]] by (simp_all add: calm_def i3 del: of_nat_add)
  moreover have "fubyte (y + of_nat i) (brelse p k4) = block_at k d a (w mod 512 + i)" if i: "i < n" for i
  proof -
    have "unat (of_nat i :: u16) = i" using i nb(1) by (simp add: unat_of_nat)
    then have "fubyte (y + of_nat i) k4 = buffers k3 (b_addr p + (w mod 512 + i))" using m(5) [of "y + of_nat i"] i on by (simp add: add.assoc)
    then show ?thesis using r(5) i w(3) fubyte_calm [OF calm_brelse [of k4 p], of "y + of_nat i"] by (simp add: i3)
  qed
  ultimately show ?thesis by blast
qed

subsection \<open>What is written is what is read\<close>


text \<open>A file of 100 bytes in block 50; its process writes ten bytes at 96 and reads four at 94.\<close>

definition ex_file :: kfs where
  "ex_file = (binit ex_fs)\<lparr>inode := (\<lambda>_. no_inode\<lparr>i_addr := (\<lambda>_. 50), i_size1 := 100, i_lastr := 9\<rparr>),
     u := no_user\<lparr>u_procp := 1, u_offset := (0, 96), u_count := 10, u_base := UAddr 200\<rparr>\<rparr>"

lemma ex_file_ok: "cache_ok {} {} ex_file" "ready ex_file 0 50" "small_file 5 ex_file"
proof -
  have s: "same_cache (binit ex_fs) ex_file" by (simp add: same_cache_def ex_file_def)
  note s' = same_cacheD [OF s]
  note b = binit_lists [OF ex_fs_sel(1)]
  show "cache_ok {} {} ex_file" using s'(1) [OF ex_fs_cache] .
  have l: "dll (av_forw (binit ex_fs)) (av_back (binit ex_fs)) Bfree (map Buf [0..<NBUF])" "dll (b_forw (binit ex_fs)) (b_back (binit ex_fs)) Rktab []"
    using b(1) by (simp_all add: cache_inv_def lists_ok_def del: upt_conv_Cons upt_rec_numeral)
  have "av_forw (binit ex_fs) Bfree = Buf 0" using dll_first [OF l(1)] by (simp add: upt_rec)
  moreover have "incore 0 50 (binit ex_fs) = Some False" using bsearch_finds [OF l(2), of 0 50] by (simp add: incore_def d_tab_def major_def)
  moreover have "b_flags (binit ex_fs) (Buf 0) = 0" "d_active (binit ex_fs) = 0" using b(2,3) by simp_all
  ultimately have "ready (binit ex_fs) 0 50" by (simp add: ready_def)
  then show "ready ex_file 0 50" by (simp add: s')
  show "small_file 5 ex_file" by (simp add: small_file_def ex_file_def no_inode_def major_def flag_def)
qed


end
