(* ===== verification/Pipes.thy ===== *)
theory Pipes
  imports Coherent
begin

unbundle bit_operations_syntax

text \<open>
  \<open>ken/pipe.c\<close>: bytes that one process writes into a pipe are the bytes that another one reads from it, in their order.  A pipe is a file
  between whose place of reading, the offset of the file entry, and its size the bytes wait.
\<close>

subsection \<open>Locks do not touch the pipe\<close>

definition quiet :: "nat \<Rightarrow> 'a kfs_scheme \<Rightarrow> 'a kfs_scheme \<Rightarrow> bool" where
  "quiet ip k k' \<longleftrightarrow> same_cache k k' \<and> u k' = u k \<and> mem k' = mem k \<and> (\<forall>q. p_addr (proc k' q) = p_addr (proc k q)) \<and> filetab k' = filetab k \<and>
     i_addr (inode k' ip) = i_addr (inode k ip) \<and> i_dev (inode k' ip) = i_dev (inode k ip) \<and> i_lastr (inode k' ip) = i_lastr (inode k ip) \<and>
     i_size0 (inode k' ip) = i_size0 (inode k ip) \<and> i_size1 (inode k' ip) = i_size1 (inode k ip) \<and>
     i_mode (inode k' ip) AND IFMT = i_mode (inode k ip) AND IFMT \<and> flag (i_mode (inode k' ip)) ILARG = flag (i_mode (inode k ip)) ILARG"

lemma same_cache_trans: "same_cache k k' \<Longrightarrow> same_cache k' k'' \<Longrightarrow> same_cache k k''"
  by (simp add: same_cache_def)

lemma quiet_trans: "quiet ip k k' \<Longrightarrow> quiet ip k' k'' \<Longrightarrow> quiet ip k k''"
  unfolding quiet_def using same_cache_trans by fastforce

lemma quiet_refl: "quiet ip k k"
  by (simp add: quiet_def same_cache_def)

lemma quiet_flag: "quiet ip k (iflag_set ip f k)" "quiet ip k (iflag_clr ip f k)"
  by (simp_all add: quiet_def same_cache_def iflag_set_def iflag_clr_def upd_inode_def)

lemma quiet_mode: "quiet ip k (upd_inode ip (\<lambda>i. i\<lparr>i_mode := clrf (i_mode i) IREAD\<rparr>) k)"
proof -
  have "clrf m IREAD AND IFMT = m AND IFMT" for m by (simp add: clrf_def and.assoc)
  then show ?thesis by (simp add: quiet_def same_cache_def upd_inode_def flag_clrf_disjoint)
qed

lemma quiet_wakeup: "c \<noteq> NoChan \<Longrightarrow> quiet ip k (wakeup c k)"
proof -
  assume c: "c \<noteq> NoChan"
  have "inode (wakeup c k) = inode k \<and> filetab (wakeup c k) = filetab k" using c by (intro kfs_inode) simp
  moreover have "same_cache k (wakeup c k)" using c by (simp add: same_cache_def)
  moreover have "\<forall>q. p_addr (proc (wakeup c k) q) = p_addr (proc k q)" using calm_wakeup [OF c, of k] by (simp add: calm_def)
  ultimately show ?thesis using c by (simp add: quiet_def)
qed

lemma quiet_prele: "quiet ip k (prele ip k)" "\<not> flag (i_flag (inode (prele ip k) ip)) ILOCK"
proof -
  have q: "quiet ip k (wakeup (ChInode ip) (iflag_clr ip IWANT (iflag_clr ip ILOCK k)))"
    by (rule quiet_trans [OF quiet_flag(2) quiet_trans [OF quiet_flag(2) quiet_wakeup]]) simp
  show "quiet ip k (prele ip k)" using q quiet_flag(2) [of ip k ILOCK] by (simp add: prele_def Let_def)
  have w: "inode (wakeup (ChInode ip) k') = inode k'" for k' :: "'a kfs_scheme" using kfs_inode [of "wakeup (ChInode ip) k'" k'] by simp
  have "\<not> flag (clrf x ILOCK) ILOCK" for x :: u8 by (rule flag_clrf_sub) simp
  then show "\<not> flag (i_flag (inode (prele ip k) ip)) ILOCK"
    by (simp add: prele_def Let_def w iflag_clr_def upd_inode_def flag_clrf_disjoint)
qed

lemma plock_free: "\<not> flag (i_flag (inode k ip)) ILOCK \<Longrightarrow> plock away ip k = ret (iflag_set ip ILOCK k)"
  by (subst plock.simps) simp

lemma quiet_small: "quiet ip k k' \<Longrightarrow> small_file ip k' = small_file ip k"
  by (simp add: quiet_def small_file_def)

lemma quiet_fubyte: "quiet ip k k' \<Longrightarrow> fubyte x k' = fubyte x k"
  by (simp add: quiet_def fubyte_def proc_dseg_def)

subsection \<open>Writing and reading\<close>

lemma upd_u_cache_same: "same_cache k (upd_u f k)"
  by (simp add: same_cache_def)

lemma writep_adds:
  fixes k :: "'a kfs_scheme" and ip :: nat
  defines "d \<equiv> i_dev (inode k ip)"
  assumes ok: "cache_ok {} {} k" and f: "small_file ip k" "f_inode (filetab k wp) = ip" and a: "a = i_addr (inode k ip) 0" "a \<noteq> 0" "\<not> beyond d a" "ready k d a"
    and i: "\<not> flag (i_flag (inode k ip)) ILOCK" "2 \<le> sint (i_count (inode k ip))" "unat (i_size1 (inode k ip)) = s"
    and w: "0 < n" "s + n < 512" "u_count (u k) = of_nat n" "u_base (u k) = UAddr x" "\<not> u_segflg (u k)" "u_error (u k) = 0"
  shows "\<exists>k'. writep disk_only wp k = Some (Ret () k') \<and> u_count (u k') = 0 \<and> cache_ok {} {} k' \<and> small_file ip k' \<and>
    (\<exists>p. cached k' d a p \<and> \<not> busy k' p) \<and> \<not> flag (i_flag (inode k' ip)) ILOCK \<and> filetab k' = filetab k \<and>
    i_addr (inode k' ip) = i_addr (inode k ip) \<and> i_dev (inode k' ip) = d \<and> i_lastr (inode k' ip) = i_lastr (inode k ip) \<and>
    unat (i_size1 (inode k' ip)) = s + n \<and>
    (\<forall>i < 512. block_at k' d a i = (if s \<le> i \<and> i < s + n then fubyte (x + of_nat (i - s)) k else block_at k d a i))"
proof -
  have nb: "unat (of_nat n :: u16) = n" "(of_nat n :: u16) \<noteq> 0" using w by (auto simp: unat_of_nat word_unat_eq_iff)
  have sz: "i_size1 (inode k ip) = of_nat s" "s < 512" using i(3) w(2) by (auto simp: word_unat_eq_iff unat_of_nat)
  then have np: "i_size1 (inode k ip) \<noteq> PIPSIZ" by (auto simp: word_unat_eq_iff unat_of_nat)
  have im: "imin (of_nat n) (PIPSIZ - of_nat s) = of_nat n"
  proof -
    have "unat (PIPSIZ - of_nat s) = 4096 - s" using sz(2) by (simp add: unat_sub word_le_nat_alt unat_of_nat)
    then have "sint (PIPSIZ - of_nat s) = int (4096 - s)" by (subst sint16_small) simp_all
    moreover have "sint (of_nat n :: u16) = int n" using w(2) by (intro small_sint) simp
    ultimately show ?thesis using w(2) by (simp add: imin_def)
  qed
  define k0 where "k0 = iflag_set ip ILOCK k"
  define k2 where "k2 = upd_u (\<lambda>w. w\<lparr>u_count := of_nat n\<rparr>) (upd_u (\<lambda>w. w\<lparr>u_offset := (0, i_size1 (inode k0 ip))\<rparr>) k0)"
  have q0: "quiet ip k k0" by (simp add: k0_def quiet_flag)
  have s2: "same_cache k k2" using q0 unfolding k2_def by (blast intro: same_cache_trans upd_u_cache_same dest: quiet_def [THEN iffD1])
  note s2' = same_cacheD [OF s2]
  have c0: "i_count (inode k0 ip) = i_count (inode k ip)" by (simp add: k0_def iflag_set_def upd_inode_def)
  have i2: "inode k2 = inode k0" "filetab k2 = filetab k" "u_offset (u k2) = (0, of_nat s)" "u_count (u k2) = of_nat n" "u_base (u k2) = UAddr x"
    "\<not> u_segflg (u k2)" "u_error (u k2) = 0" "\<And>y. fubyte y k2 = fubyte y k"
    using q0 w sz by (simp_all add: k2_def quiet_def upd_u_def fubyte_def proc_dseg_def)
  have f2: "small_file ip k2" "i_addr (inode k2 ip) = i_addr (inode k ip)" "i_dev (inode k2 ip) = d" "i_lastr (inode k2 ip) = i_lastr (inode k ip)"
    "i_size1 (inode k2 ip) = of_nat s"
    using f(1) quiet_small [OF q0] q0 sz(1) by (simp_all add: small_file_def i2 quiet_def d_def)
  obtain k3 where k3: "writei disk_only ip k2 = Some (Ret () k3)" "cache_ok {} {} k3" "small_file ip k3" "\<exists>p. cached k3 d a p \<and> \<not> busy k3 p"
    "filetab k3 = filetab k" "i_addr (inode k3 ip) = i_addr (inode k ip)" "i_dev (inode k3 ip) = d" "i_lastr (inode k3 ip) = i_lastr (inode k ip)"
    "unat (i_size1 (inode k3 ip)) = s + n"
    "\<And>i. i < 512 \<Longrightarrow> block_at k3 d a i = (if s \<le> i \<and> i < s + n then fubyte (x + of_nat (i - s)) k else block_at k d a i)"
  proof -
    have p: "a = i_addr (inode k ip) (s div 512)" "ready k2 d a" "s < 4096" "s mod 512 + n < 512" "s mod 512 = s"
      using a(1,4) sz(2) w(2) by (simp_all add: s2'(3))
    have m: "max (unat (of_nat s :: u16)) (s + n) = s + n" using sz(2) by (simp add: unat_of_nat)
    from write_block [of k2 ip a s n x, unfolded f2(2,3,5), OF s2'(1) [OF ok] f2(1) p(1) a(2,3) p(2,3) w(1) p(4) i2(3-7)]
    show ?thesis using that unfolding i2(2,8) f2(4) s2'(4) m p(5) by blast
  qed
  define k4 where "k4 = prele ip k3"
  define k5 where "k5 = (if flag (i_mode (inode k4 ip)) IREAD
                       then wakeup (ChInode (ip + 2)) (upd_inode ip (\<lambda>i. i\<lparr>i_mode := clrf (i_mode i) IREAD\<rparr>) k4)
                       else k4)"
  have l4: "quiet ip k3 k4" "\<not> flag (i_flag (inode k4 ip)) ILOCK" by (simp_all add: k4_def quiet_prele)
  have wk: "inode (wakeup c k') = inode k'" if "c \<noteq> NoChan" for c and k' :: "'a kfs_scheme"
    using kfs_inode [of "wakeup c k'" k'] that by simp
  have q5: "quiet ip k4 k5"
  proof (cases "flag (i_mode (inode k4 ip)) IREAD")
    case True
    then show ?thesis using quiet_trans [OF quiet_mode quiet_wakeup, of "ChInode (ip + 2)" ip k4] by (simp add: k5_def)
  qed (simp add: k5_def quiet_refl)
  have "i_flag (inode k5 ip) = i_flag (inode k4 ip)" by (simp add: k5_def wk upd_inode_def)
  with l4(2) have u5: "\<not> flag (i_flag (inode k5 ip)) ILOCK" by simp
  note l5 = q5 u5
  define k6 where "k6 = prele ip (iflag_set ip ILOCK k5)"
  have q6: "quiet ip k3 k6" unfolding k6_def by (rule quiet_trans [OF l4(1) quiet_trans [OF l5(1) quiet_trans [OF quiet_flag(1) quiet_prele(1)]]])
  have last: "writep_loop disk_only ip 0 k5 = Some (Ret () (upd_u (\<lambda>w. w\<lparr>u_count := 0\<rparr>) k6))"
    by (subst writep_loop.simps) (simp add: plock_free [OF l5(2)] k6_def ret_def)
  have "\<not> sint (i_count (inode k0 ip)) < 2" "i_size1 (inode k0 ip) \<noteq> PIPSIZ" using i(2) np q0 by (simp_all add: c0 quiet_def)
  then have *: "\<not> sint (i_count (inode k0 ip)) < 2" "i_size1 (inode k0 ip) \<noteq> PIPSIZ" "i_size1 (inode k0 ip) = of_nat s"
      "of_nat s \<noteq> PIPSIZ"
    using q0 sz(1) np by (simp_all add: quiet_def)
  have k2e: "k0\<lparr>u := (u k0)\<lparr>u_offset := (0, of_nat s), u_count := of_nat n\<rparr>\<rparr> = k2" by (simp add: k2_def upd_u_def *)
  have k5e: "(if flag (i_mode (inode (prele ip k3) ip)) IREAD
     then wakeup (ChInode (ip + 2)) (upd_inode ip (\<lambda>i. i\<lparr>i_mode := clrf (i_mode i) IREAD\<rparr>) (prele ip k3)) else prele ip k3) = k5"
    by (simp only: k5_def k4_def)
  have "writep_loop disk_only ip (of_nat n) k = Some (Ret () (upd_u (\<lambda>w. w\<lparr>u_count := 0\<rparr>) k6))"
    using k3(1) last nb(2) im
    by (subst writep_loop.simps)
      (simp add: plock_free [OF i(1)] k0_def [symmetric] * upd_u_def k2e Let_def k5e ret_def andthen_def del: One_nat_def)
  then have "writep disk_only wp k = Some (Ret () (upd_u (\<lambda>w. w\<lparr>u_count := 0\<rparr>) k6))" by (simp add: writep_def f(2) w(3))
  moreover define k7 where "k7 = upd_u (\<lambda>w. w\<lparr>u_count := 0\<rparr>) k6"
  moreover have s7: "same_cache k3 k7" "inode k7 = inode k6" "filetab k7 = filetab k6"
    using q6 unfolding k7_def by (blast intro: same_cache_trans upd_u_cache_same dest: quiet_def [THEN iffD1]) (simp_all add: upd_u_def)
  moreover note s7' = same_cacheD [OF s7(1)]
  moreover have "small_file ip k7" using k3(3) quiet_small [OF q6] by (simp add: small_file_def s7(2))
  moreover have "\<exists>p. cached k7 d a p \<and> \<not> busy k7 p" using k3(4) s7(1) by (simp add: s7') (simp add: same_cache_def)
  moreover have "\<not> flag (i_flag (inode k7 ip)) ILOCK" unfolding s7(2) by (simp add: k6_def quiet_prele)
  ultimately show ?thesis using k3 q6 s7' unfolding k7_def [symmetric]
    by (intro exI [of _ k7]) (simp add: s7 quiet_def k7_def upd_u_def)
qed

lemma readp_takes:
  fixes k :: "'a kfs_scheme" and ip :: nat
  defines "d \<equiv> i_dev (inode k ip)"
  assumes ok: "cache_ok {} {} k" and f: "small_file ip k" "f_inode (filetab k rp) = ip" and a: "a = i_addr (inode k ip) 0" "a \<noteq> 0" "\<not> beyond d a" "ready k d a"
    and i: "\<not> flag (i_flag (inode k ip)) ILOCK" "snd (f_offset (filetab k rp)) = of_nat r"
    and w: "0 < m" "r + m \<le> unat (i_size1 (inode k ip))" "r + m < 512" "u_count (u k) = of_nat m" "u_base (u k) = UAddr y" "\<not> u_segflg (u k)"
    and l: "i_lastr (inode k ip) + 1 = 0 \<Longrightarrow> (\<exists>p. cached k d a p) \<and> i_addr (inode k ip) 1 = 0"
  shows "\<exists>k'. readp disk_only rp k = Some (Ret () k') \<and> u_count (u k') = 0 \<and> snd (f_offset (filetab k' rp)) = of_nat (r + m) \<and>
    (\<forall>i < m. fubyte (y + of_nat i) k' = block_at k d a (r + i))"
proof -
  define k0 where "k0 = iflag_set ip ILOCK k"
  define k2 where "k2 = upd_u (\<lambda>w. w\<lparr>u_offset := (0, of_nat r)\<rparr>) k0"
  have q0: "quiet ip k k0" by (simp add: k0_def quiet_flag)
  have s2: "same_cache k k2" using q0 unfolding k2_def by (blast intro: same_cache_trans upd_u_cache_same dest: quiet_def [THEN iffD1])
  note s2' = same_cacheD [OF s2]
  have i2: "inode k2 = inode k0" "filetab k2 = filetab k" "u_offset (u k2) = (0, of_nat r)" "u_count (u k2) = of_nat m" "u_base (u k2) = UAddr y"
    "\<not> u_segflg (u k2)"
    using q0 w by (simp_all add: k2_def quiet_def upd_u_def)
  have f2: "small_file ip k2" "i_addr (inode k2 ip) = i_addr (inode k ip)" "i_dev (inode k2 ip) = d" "i_lastr (inode k2 ip) = i_lastr (inode k ip)"
    "i_size1 (inode k2 ip) = i_size1 (inode k ip)"
    using f(1) quiet_small [OF q0] q0 by (simp_all add: small_file_def i2 quiet_def d_def)
  have rs: "r < 512" using w by simp
  obtain k3 where k3: "readi disk_only ip k2 = Some (Ret () k3)" "u_count (u k3) = 0" "u_offset (u k3) = (0, of_nat (r + m))" "filetab k3 = filetab k"
    "\<And>i. i < m \<Longrightarrow> fubyte (y + of_nat i) k3 = block_at k d a (r + i)"
  proof -
    have p: "a = i_addr (inode k ip) (r div 512)" "ready k2 d a" "r < 4096" "r mod 512 + m \<le> 512" "r mod 512 = r"
      using a(1,4) rs w(3) by (simp_all add: s2'(3))
    have l2: "(\<exists>p. cached k2 d a p) \<and> (r div 512 = 7 \<or> i_addr (inode k ip) (Suc (r div 512)) = 0)"
      if "i_lastr (inode k ip) + 1 = of_nat (r div 512)"
      using l that rs by (simp add: s2'(2))
    from read_block [of k2 ip a r m y, unfolded f2(2,3,4,5), OF s2'(1) [OF ok] f2(1) p(1) a(2,3) p(2,3) w(1) p(4) i2(3-6) w(2) l2]
    show ?thesis using that unfolding i2(2) s2'(4) p(5) by blast
  qed
  define k4 where "k4 = set_foff rp (of_nat (r + m)) k3"
  define k5 where "k5 = prele ip k4"
  have k5: "quiet ip k4 k5" by (simp add: k5_def quiet_prele)
  have ne: "snd (f_offset (filetab k rp)) \<noteq> i_size1 (inode k ip)"
  proof -
    have "unat (of_nat r :: u16) = r" using rs by (simp add: unat_of_nat)
    then show ?thesis using w(1,2) i(2) by auto
  qed
  have r0: "filetab k0 = filetab k" "i_size1 (inode k0 ip) = i_size1 (inode k ip)" using q0 by (simp_all add: quiet_def)
  have "readp disk_only rp k = Some (Ret () k5)"
    using k3(1,3) ne i(2)
    by (subst readp.simps) (simp add: f(2) plock_free [OF i(1)] k0_def [symmetric] r0 k2_def [symmetric] Let_def k5_def k4_def ret_def del: of_nat_add)
  moreover have "u_count (u k5) = 0" using k3(2) k5 by (simp add: quiet_def k4_def set_foff_def upd_file_def)
  moreover have "snd (f_offset (filetab k5 rp)) = of_nat (r + m)" using k5 by (simp add: quiet_def k4_def set_foff_def upd_file_def)
  moreover have "fubyte x k4 = fubyte x k3" for x by (simp add: k4_def set_foff_def upd_file_def fubyte_def proc_dseg_def)
  then have "\<forall>i < m. fubyte (y + of_nat i) k5 = block_at k d a (r + i)" by (simp add: quiet_fubyte [OF k5] k3(5))
  ultimately show ?thesis by blast
qed


text \<open>A pipe with the bytes up to 20, of which the reader has seen ten: six more come, and the reader takes twelve.\<close>

definition ex_pipe :: kfs where
  "ex_pipe = ex_file\<lparr>inode := (\<lambda>_. no_inode\<lparr>i_addr := (\<lambda>_. 50), i_size1 := 20, i_lastr := 9, i_count := 2, i_mode := IALLOC\<rparr>),
     filetab := (\<lambda>i. (filetab ex_file i)\<lparr>f_inode := 5, f_offset := (0, if i = 1 then 10 else 0)\<rparr>),
     u := no_user\<lparr>u_procp := 1, u_count := 6, u_base := UAddr 200\<rparr>\<rparr>"


end
