(* ===== verification/Spec2Isabelle.thy ===== *)
theory Spec2Isabelle
  imports Clock Procs Swapping Term Grep Ctime Uprintf Umalloc Ulib Shrun Volume Wc Fib Stty Pwd Usys More Ls Ps Mount Utils Coherent Pipes
begin

text \<open>
  \<^bold>\<open>UNIX Version 6 for the 8086: a verification library.\<close>

  The program is the Version 6 kernel rewritten for a PC with a 16 bit 8086.  Its parts are the
  process machinery (\<open>ken/slp.c\<close>, \<open>ken/sig.c\<close>, \<open>ken/clock.c\<close>, \<open>ken/sys1.c\<close>, \<open>ken/text.c\<close>), the buffer cache and
  the disk driver (\<open>dmr/bio.c\<close>, \<open>dmr/rk.c\<close>, \<open>dmr/ide.c\<close>), the file system (\<open>ken/alloc.c\<close>, \<open>ken/iget.c\<close>,
  \<open>ken/subr.c\<close>, \<open>ken/rdwri.c\<close>, \<open>ken/nami.c\<close>, \<open>ken/fio.c\<close>, \<open>ken/pipe.c\<close>), the terminal (\<open>dmr/tty.c\<close>, \<open>dmr/kl.c\<close>,
  \<open>dmr/kbd.c\<close>) and the system calls with their entry (\<open>ken/sys1.c\<close> to \<open>ken/sys4.c\<close>, \<open>ken/trap.c\<close>, \<open>ken/sysent.c\<close>,
  \<open>ken/main.c\<close>).  Beside the kernel stand the C library and the programs in \<open>usr\<close> and the tool \<open>tools/mkfs.c\<close> that
  writes the first volume.  The parts of the kernel share one set of kernel variables and call one another directly: a system call runs
  in the process that made it until it sleeps; interrupts of the clock, the disk and the keyboard run in
  between.

  \<^bold>\<open>Conventions.\<close>  The kernel variables are one extensible record that grows along the components:
  \<open>kproc\<close> (processes, user area, memory), \<open>kbio\<close> (buffers and disk), \<open>ktty\<close> (terminals) and \<open>kfs\<close> (inodes,
  files, mounts).  Each operation takes the state last and returns the new one.  An \<open>int\<close> or \<open>unsigned\<close> of
  the source is a word of 16 bits and a \<open>char\<close> a word of 8 bits; signed comparisons are written with
  \<open>sint\<close>.  A loop whose end is not evident is a \<open>partial_function (option)\<close>.  The result \<open>None\<close> of an operation
  stands for everything after which the code does not go on: a loop that never ends, \<open>panic\<close>, and a store
  outside of the array at hand.  An operation that may be broken off by a signal has an \<open>outcome\<close>: \<open>Ret\<close>
  with its value, or \<open>Intr\<close> for the return through \<open>u_qsav\<close>.  What the rest of the system does while a
  process sleeps is a parameter \<open>away\<close> of the operations that sleep; the properties that need something of
  it ask that it keeps the invariant of the buffer cache and the buffers that the sleeper owns
  (\<open>keeps_cache\<close>), and \<open>interrupt_keeps_cache\<close> shows that a disk interrupt does.  Two further parameters stand
  for code that is reached through a pointer: the routines in the callout table and the transfer to the
  swap device in the scheduler.  A user program is modelled on its own data: strings and buffers as lists or as a function
  on addresses, what it reads and what other programs do as arguments, its messages as results.

  \<^bold>\<open>Theories and sources.\<close>

  \<^item> \<open>Prelude\<close>: lemmas on words, lists and options, and \<open>results\<close>, the statement that every returned
    value of a fallible computation satisfies a predicate, with its rules.
  \<^item> \<open>Malloc\<close> (\<open>ken/malloc.c\<close>): the first fit resource maps.
  \<^item> \<open>Clist\<close> (\<open>getc\<close>, \<open>putc\<close>, \<open>cinit\<close> of \<open>dmr/tty.c\<close>): character queues as pointers into a store of blocks.
  \<^item> \<open>Pc\<close> (arithmetic of \<open>dmr/pc.c\<close>): numbers of 32 bits in pairs of words.
  \<^item> \<open>Callout\<close> (\<open>timeout\<close> and the countdown of \<open>ken/clock.c\<close>), \<open>Clock\<close> (the whole clock interrupt).
  \<^item> \<open>Kernel\<close> (\<open>h/proc.h\<close>, \<open>h/user.h\<close>, the access to user memory in \<open>dmr/pc.c\<close>): the state.
  \<^item> \<open>Slp\<close> (\<open>ken/slp.c\<close>, \<open>ken/text.c\<close>): sleeping, waking, choosing the next process, swapping.
  \<^item> \<open>Sig\<close> (\<open>ken/sig.c\<close>, \<open>kill\<close> and \<open>ssig\<close> of \<open>ken/sys4.c\<close>): signals.
  \<^item> \<open>Prf\<close> (\<open>ken/prf.c\<close>): messages on the console.
  \<^item> \<open>Dll\<close>: doubly linked circular lists as two link functions and a list of nodes; the representation used
    for the two kinds of list of the cache.
  \<^item> \<open>Bio\<close> (\<open>dmr/bio.c\<close>, \<open>dmr/rk.c\<close>, \<open>dmr/ide.c\<close>): the definitions of the cache and the disk driver;
    \<open>Cache\<close>: their properties; \<open>Swapping\<close>: the transfer of a process image.
  \<^item> \<open>Uio\<close> (\<open>passc\<close> and \<open>cpass\<close> of \<open>ken/subr.c\<close>): bytes between user and kernel.
  \<^item> \<open>Tty\<close> (\<open>dmr/tty.c\<close>, \<open>dmr/kl.c\<close>), \<open>Kbd\<close> (\<open>dmr/kbd.c\<close>); \<open>Term\<close>: properties of the terminal.
  \<^item> \<open>Fs\<close> (\<open>ken/fio.c\<close>, \<open>ken/alloc.c\<close>), \<open>Inode\<close> (\<open>ken/iget.c\<close>), \<open>Rdwri\<close> (\<open>ken/rdwri.c\<close>, \<open>bmap\<close> of \<open>ken/subr.c\<close>,
    \<open>dmr/mem.c\<close>), \<open>Nami\<close> (\<open>ken/nami.c\<close>, \<open>ken/pipe.c\<close>): the file system; \<open>Balance\<close>, \<open>Files\<close>,
    \<open>Coherent\<close> (reading after writing) and \<open>Pipes\<close>: its properties.
  \<^item> \<open>Sys1\<close> (\<open>ken/sys1.c\<close>, \<open>newproc\<close>), \<open>Sys2\<close> (\<open>ken/sys2.c\<close> to \<open>ken/sys4.c\<close>), \<open>Trap\<close> (\<open>ken/trap.c\<close>, \<open>ken/sysent.c\<close>,
    \<open>ken/main.c\<close>): system calls and start; \<open>Procs\<close>: properties of processes.
  \<^item> \<open>Ulib\<close> (strings and memory of \<open>usr/ulib.c\<close>), \<open>Umalloc\<close> (its allocator), \<open>Uprintf\<close> (\<open>usr/printf.c\<close>), \<open>Ctime\<close>
    (\<open>usr/ctime.c\<close>): the library of the user programs.
  \<^item> \<open>Sh\<close> (the parser of \<open>usr/sh.c\<close>), \<open>Shrun\<close> (its execution), \<open>Grep\<close> (\<open>usr/grep.c\<close>), \<open>Wc\<close> (\<open>usr/wc.c\<close>), \<open>Fib\<close>
    (\<open>usr/fib.c\<close>): user programs.
  \<^item> \<open>Usys\<close> (\<open>usr/syscall.c\<close> with its entry in \<open>usr/startup.asm\<close>): the system calls as a program makes them, over a
    gate that \<open>kernel_call\<close> fills with \<open>trap0\<close> and \<open>trap\<close> of the kernel.
  \<^item> \<open>Stty\<close> (\<open>usr/stty.c\<close>), \<open>Pwd\<close> (\<open>usr/pwd.c\<close>), \<open>More\<close> (\<open>usr/more.c\<close>), \<open>Ls\<close> (\<open>usr/ls.c\<close>), \<open>Ps\<close> (\<open>usr/ps.c\<close>), \<open>Mount\<close>
    (\<open>usr/mount.c\<close>, \<open>usr/umount.c\<close>), \<open>Utils\<close> (\<open>perror\<close> and \<open>mkdir\<close> of \<open>usr/ulib.c\<close> and the programs \<open>chmod\<close>, \<open>ln\<close>, \<open>cp\<close>,
    \<open>nice\<close>, \<open>mknod\<close>, \<open>echo\<close>, \<open>cat\<close> and \<open>id\<close>).
  \<^item> \<open>Mkfs\<close> (\<open>tools/mkfs.c\<close>): the volume it writes; \<open>Volume\<close>: the kernel finds on it what \<open>mkfs\<close> has put there.

  \<^bold>\<open>What is shown.\<close>

  \<^item> Resource maps refine first fit on a set of units; release is the inverse of allocation; space given
    to two holders never overlaps.  The scheduler rests on this through a locale of allocators.
  \<^item> The character lists are queues over one pool, for any number of queues at once.
  \<^item> \<open>timeout\<close> and the countdown refine a list sorted by absolute time.
  \<^item> \<open>wakeup\<close> wakes exactly the sleepers of its channel; \<open>swtch\<close> takes the best priority, in turn among equals,
    and switching keeps every user area; swapping keeps core and swap areas disjoint.
  \<^item> Signals reach exactly the processes they may reach; sixty ticks are one second; the ageing of
    every process in each second.
  \<^item> The cache: \<open>binit\<close> establishes an invariant (free list, device lists, at most one buffer for a
    block, ownership) that all operations and the disk interrupt keep; a buffer obtained belongs
    to its owner alone; on an idle disk reads and writes end and deliver the right bytes.
  \<^item> The file system gives back every buffer it obtains, on every path of the operations on blocks and of
    the lookup of names.  This is proved in the locale \<open>block_cache\<close>, which lists what a file system may
    rely on, and \<open>Balance\<close> interprets it by the operations of \<open>Bio\<close>.
  \<^item> What is written into a block of a file is what is read there, whether the block is in the cache or on the disk; a pipe delivers
    its bytes in their order.  Both rest on what the cache promises about a block (\<open>bread_ready\<close>: the buffer has the content of the block,
    and the other variables of the kernel are unchanged, \<open>calm\<close>).
  \<^item> Permissions, descriptors, free blocks, inodes on the volume, the mapping of blocks and the transfers
    between user and buffers.
  \<^item> Process numbers, the account of times from \<open>exit\<close> to \<open>wait\<close>, the editing of input lines against a
    function on lists, the expansion of tabs.
  \<^item> The library: \<open>memmove\<close> is exact on overlapping areas, the allocator hands out disjoint blocks and merges the free
    ones, \<open>printf\<close> prints numerals that denote the number, the date conversion agrees with the calendar.
  \<^item> The programs: the parser of the shell inverts the printing of a command, running a command connects the
    processes as the command says; \<open>grep\<close> decides membership in the language of its pattern; \<open>wc\<close> counts bytes,
    lines and words; \<open>fib\<close> computes the Fibonacci numbers to 255 within its 65 digits.
  \<^item> Between the programs and the kernel: the contract of a system call (an error in DX has its negative in AX) is the
    locale \<open>system_calls\<close>; \<open>Usys\<close> interprets it by the kernel, so that the errors the library reports are those of the
    kernel, and \<open>id\<close> and \<open>setuid\<close> are followed through the kernel and back.  \<open>ps\<close> finds through \<open>/dev/mem\<close> the arguments that
    \<open>exec\<close> has put on a stack.
  \<^item> \<open>pwd\<close> prints the path of its directory, also across a mounted volume; what \<open>stty\<close> prints are arguments that
    set the same modes; \<open>umount\<close> undoes \<open>mount\<close> in \<open>/etc/mtab\<close>; \<open>more\<close> shows full screens; a line of \<open>ls\<close> has its columns
    and fits into its buffer; \<open>mkdir\<close>, \<open>ln\<close>, \<open>cp\<close> and \<open>chmod\<close> compute the right names and modes.
  \<^item> \<open>mkfs\<close> puts every block behind the inodes on the free list once, stores a file so that its
    blocks spell its content, and writes an inode where \<open>iget\<close> reads it.
  \<^item> A few statements show where the code falls short: the table of callouts has no bound check, reads of
    32768 bytes or more leave the buffer, a negative signal number is stored, a tab with an empty pool never ends, a
    process image does not survive being swapped out, \<open>id\<close> exchanges its users, and \<open>umount\<close> leaves its table when it removes
    the only entry.

  The witnesses evaluate the operations on concrete states: \<open>ex_kernel\<close> (four processes), \<open>ex_disk\<close>
  (all buffers, an idle disk) and \<open>ex_fs\<close> (a small volume).

  \<^bold>\<open>Bounds.\<close>  No operation has fuel.  The sizes are those of \<open>h/param.h\<close>: \<open>NPROC\<close> processes, \<open>NBUF\<close> buffers of 514
  bytes, \<open>NCALL\<close> callouts, \<open>NCLIST\<close> character blocks.  The room asked for in the statements on
  queues (ten bytes for each queue beyond its contents) is what partly filled blocks may waste.

  \<^bold>\<open>Not modelled.\<close>  The assembly in \<open>dmr/m86.S\<close> (context switch, entries of interrupts; what they do to
  memory is in \<open>Kernel\<close>), the set-up of timer and vectors, the serial line \<open>dmr/uart.c\<close>, which the
  configuration leaves out, the writing of core files, the physical addresses of kernel variables that
  \<open>dmr/mem.c\<close> exposes, and shared texts, of which the system creates none.  Of the
  user side: the start of a program in \<open>usr/startup.asm\<close>, \<open>usr/mkfs.c\<close>, the same program as \<open>tools/mkfs.c\<close> with the
  headers and the calls of this system, and the programs that test the system (\<open>forktest\<close>, \<open>sigtest\<close>, \<open>zombie\<close>).  The usage messages of most
  programs are left out, and where a program opens its files the model starts from what it then reads.
\<close>

end
